(* ===== verification/Prelude.thy ===== *)
theory Prelude
  imports "HOL-Library.Word" "HOL-Library.Monad_Syntax"
begin

text \<open>
  What every component of the development shares: the machine types of the C sources, the
  fault monad (an \<open>option\<close>: \<open>None\<close> is a dereference of a null or freed pointer, a failed
  \<open>assert\<close>, a wait that cannot end, or a loop that does not stop), the little-endian coding of
  integers that \<open>read\<close> and \<open>write\<close> of an object of a given size amount to, and the
  generic lemmas that the component theories use.
\<close>

unbundle bit_operations_syntax

section \<open>Machine types\<close>

type_synonym u8 = "8 word"
type_synonym u32 = "32 word"
type_synonym sz = "64 word"
type_synonym ino_t = "64 word"
type_synonym loid_t = "64 word"
type_synonym time_t = "64 word"

text \<open>Pointers: address 0 is the null pointer.\<close>

type_synonym addr = nat

abbreviation (input) NULL :: addr where "NULL \<equiv> 0"

named_theorems mon \<open>evaluation of the fault monad\<close>

section \<open>The fault monad\<close>

definition ensure :: "bool \<Rightarrow> unit option" where
  "ensure b = (if b then Some () else None)"

lemma ensure_simps [simp]: "ensure True = Some ()" "ensure False = None"
  by (simp_all add: ensure_def)

lemma ensure_eq_Some [simp]: "ensure b = Some u \<longleftrightarrow> b"
  by (cases u) (simp add: ensure_def)

lemma bind_ensure [mon]: "Option.bind (ensure b) f = (if b then f () else None)"
  by (simp add: ensure_def)

lemma bind_SomeD:
  assumes "Option.bind m f = Some y"
  obtains x where "m = Some x" "f x = Some y"
  using assms by (cases m) auto

declare Option.bind_eq_Some_conv [mon]

lemma map_option_fun_upd_NULL:
  "m x = None \<Longrightarrow> m(x := map_option f (m x)) = m"
  by (auto simp: fun_eq_iff)

section \<open>Unsigned intervals\<close>

text \<open>
  Offsets are 64-bit values. What the code needs of them is that they are ordered and that sums
  and differences cancel; an interval is given by its two ends, so that no proof has to compute
  with a length.
\<close>

lemma word_diff_less:
  fixes a b c :: "'a::len word"
  assumes "a \<le> b" "b < c"
  shows "b - a < c - a"
proof -
  have "unat (b - a) = unat b - unat a" "unat (c - a) = unat c - unat a"
    using assms by (auto intro!: unat_sub order.trans[of a b c])
  with assms show ?thesis by (simp add: word_less_nat_alt word_le_nat_alt)
qed

lemma word_diff_pos:
  fixes a b :: "'a::len word"
  shows "a < b \<Longrightarrow> 0 < b - a"
  by (simp add: word_neq_0_conv [symmetric])

section \<open>Little-endian integers\<close>

text \<open>
  \<open>le n w\<close> are the \<open>n\<close> bytes that \<open>write(fd, &w, n)\<close> sends on a little-endian
  machine; \<open>unle\<close> is the value that \<open>read\<close> of the same bytes leaves in the variable.
\<close>

definition le :: "nat \<Rightarrow> 'a::len word \<Rightarrow> u8 list" where
  "le n w = map (\<lambda>i. ucast (drop_bit (8 * i) w)) [0..<n]"

fun unle :: "u8 list \<Rightarrow> 'a::len word" where
  "unle [] = 0"
| "unle (b # bs) = push_bit 8 (unle bs) OR ucast b"

definition take_bytes :: "nat \<Rightarrow> u8 list \<Rightarrow> (u8 list \<times> u8 list) option" where
  "take_bytes n bs = (if n \<le> length bs then Some (take n bs, drop n bs) else None)"

lemma length_le [simp]: "length (le n w) = n"
  by (simp add: le_def)

lemma bit_unle:
  "bit (unle bs :: 'a::len word) k \<longleftrightarrow>
     k < LENGTH('a) \<and> k div 8 < length bs \<and> bit (bs ! (k div 8)) (k mod 8)"
proof (induction bs arbitrary: k)
  case Nil
  then show ?case by simp
next
  case (Cons b bs)
  show ?case
  proof (cases "k < 8")
    case True
    then show ?thesis
      by (auto simp: bit_simps Cons.IH dest: bit_imp_le_length)
  next
    case False
    then have d: "k div 8 = Suc ((k - 8) div 8)" and m: "(k - 8) mod 8 = k mod 8"
      by (simp_all add: le_div_geq le_mod_geq)
    have "\<not> bit b k" using False by (auto dest: bit_imp_le_length)
    with False show ?thesis by (auto simp: bit_simps Cons.IH d m)
  qed
qed

lemma unle_le:
  fixes w :: "'a::len word"
  assumes "LENGTH('a) \<le> 8 * n"
  shows "unle (le n w) = w"
proof (rule bit_word_eqI)
  fix k assume k: "k < LENGTH('a)"
  with assms have "k div 8 < n" by (simp add: less_mult_imp_div_less mult.commute)
  with k show "bit (unle (le n w) :: 'a word) k \<longleftrightarrow> bit w k"
    by (simp add: bit_unle le_def bit_simps)
qed

lemma take_bytes_append [simp]: "length bs = n \<Longrightarrow> take_bytes n (bs @ cs) = Some (bs, cs)"
  by (simp add: take_bytes_def)

section \<open>The ends of a linked list\<close>

definition first :: "addr list \<Rightarrow> addr \<Rightarrow> addr" where
  "first xs n = (case xs of [] \<Rightarrow> n | x # _ \<Rightarrow> x)"

definition final :: "addr \<Rightarrow> addr list \<Rightarrow> addr" where
  "final p xs = (if xs = [] then p else last xs)"

lemma first_simps [simp]: "first [] n = n" "first (x # xs) n = x"
  by (simp_all add: first_def)

lemma first_append: "first (xs @ ys) n = first xs (first ys n)"
  by (cases xs) simp_all

lemma final_simps [simp]: "final p [] = p" "final p (xs @ [x]) = x" "final p (x # xs) = final x xs"
  by (simp_all add: final_def)

lemma final_append: "final p (xs @ ys) = final (final p xs) ys"
  by (simp add: final_def)

end
