(* ===== verification/Uthash.thy ===== *)
theory Uthash
  imports Prelude
begin

text \<open>
  What the servers use of the vendored hash table \<^verbatim>\<open>uthash.h\<close>: a table keeps its items in the
  order in which they were added (\<^verbatim>\<open>HASH_ITER\<close>), \<^verbatim>\<open>HASH_FIND\<close> returns an item with
  the key, the one added last where there are several, \<^verbatim>\<open>HASH_ADD\<close> appends without looking for the
  key, and \<^verbatim>\<open>HASH_DELETE\<close> unlinks the item it is given, which has to be in the table. The bucket
  structure behind it is the subject of \<^verbatim>\<open>Uthash_Heap\<close>.
\<close>

definition hash_find :: "('a \<Rightarrow> 'k option) \<Rightarrow> 'k \<Rightarrow> 'a list \<Rightarrow> 'a option" where
  "hash_find key k xs = List.find (\<lambda>a. key a = Some k) (rev xs)"

definition hash_add :: "'a \<Rightarrow> 'a list \<Rightarrow> 'a list" where
  "hash_add a xs = xs @ [a]"

definition hash_delete :: "'a \<Rightarrow> 'a list \<Rightarrow> 'a list option" where
  "hash_delete a xs = (if a \<in> set xs then Some (remove1 a xs) else None)"

text \<open>No two items of a table share a key, and no item is in it twice.\<close>

definition keys_unique :: "('a \<Rightarrow> 'k option) \<Rightarrow> 'a list \<Rightarrow> bool" where
  "keys_unique key xs \<longleftrightarrow> distinct xs \<and> (\<forall>a \<in> set xs. \<forall>b \<in> set xs. key a = key b \<longrightarrow> a = b)"

text \<open>The contract that the clients rely on, over any key function and any table.\<close>

locale table =
  fixes key :: "'a \<Rightarrow> 'k option"
    and items :: "'t \<Rightarrow> 'a list"
    and find_k :: "'k \<Rightarrow> 't \<Rightarrow> 'a option"
    and add_i :: "'a \<Rightarrow> 't \<Rightarrow> 't"
    and del_i :: "'a \<Rightarrow> 't \<Rightarrow> 't option"
  assumes items_add: "items (add_i a t) = items t @ [a]"
    and items_del: "del_i a t = Some t' \<Longrightarrow> items t' = remove1 a (items t)"
    and del_dom: "del_i a t = None \<longleftrightarrow> a \<notin> set (items t)"
    and find_Some: "find_k k t = Some a \<Longrightarrow> a \<in> set (items t) \<and> key a = Some k"
    and find_None: "find_k k t = None \<longleftrightarrow> (\<forall>a \<in> set (items t). key a \<noteq> Some k)"
    and find_last: "key a = Some k \<Longrightarrow> find_k k (add_i a t) = Some a"
begin

lemma find_unique:
  "keys_unique key (items t) \<Longrightarrow> a \<in> set (items t) \<Longrightarrow> key a = Some k \<Longrightarrow> find_k k t = Some a"
  by (metis find_None find_Some not_Some_eq keys_unique_def)

lemma unique_add:
  "keys_unique key (items t) \<Longrightarrow> a \<notin> set (items t) \<Longrightarrow> key a = Some k \<Longrightarrow> find_k k t = None \<Longrightarrow> keys_unique key (items (add_i a t))"
  by (auto simp: keys_unique_def items_add find_None)

lemma unique_del: "keys_unique key (items t) \<Longrightarrow> del_i a t = Some t' \<Longrightarrow> keys_unique key (items t')"
  by (auto simp: keys_unique_def items_del dest: notin_set_remove1 in_set_remove1[THEN iffD1, rotated])

lemma find_add_other:
  assumes "key a \<noteq> Some k" "keys_unique key (items t)"
  shows "find_k k (add_i a t) = find_k k t"
proof (cases "find_k k t")
  case None
  then have "\<forall>b \<in> set (items t). key b \<noteq> Some k" by (simp add: find_None)
  with assms(1) have "find_k k (add_i a t) = None" by (simp add: find_None items_add)
  with None show ?thesis by simp
next
  case (Some b)
  then have b: "b \<in> set (items t)" "key b = Some k" by (auto dest: find_Some)
  then have "find_k k (add_i a t) \<noteq> None" by (auto simp: find_None items_add)
  then obtain c where c: "find_k k (add_i a t) = Some c" by blast
  with assms have "c \<in> set (items t)" "key c = Some k"
    using find_Some[OF c] by (auto simp: items_add)
  with b assms(2) have "c = b" by (auto simp: keys_unique_def)
  with Some c show ?thesis by simp
qed

lemma find_del_same:
  assumes "keys_unique key (items t)" "key a = Some k" "del_i a t = Some t'"
  shows "find_k k t' = None"
proof -
  from assms(3) have "a \<in> set (items t)" using del_dom[of a t] by auto
  moreover from assms(3) have "set (items t') = set (items t) - {a}"
    using assms(1) by (simp add: items_del keys_unique_def set_remove1_eq)
  ultimately have "key b \<noteq> Some k" if "b \<in> set (items t')" for b
  proof -
    from that \<open>set (items t') = set (items t) - {a}\<close> have b: "b \<in> set (items t)" "b \<noteq> a" by simp_all
    show ?thesis
    proof
      assume "key b = Some k"
      with assms(2) have "key a = key b" by simp
      with assms(1) \<open>a \<in> set (items t)\<close> b(1) have "a = b" unfolding keys_unique_def by blast
      with b(2) show False by simp
    qed
  qed
  then show ?thesis by (simp add: find_None)
qed

end

lemma find_append:
  "List.find P (xs @ ys) = (case List.find P xs of None \<Rightarrow> List.find P ys | Some x \<Rightarrow> Some x)"
  by (induction xs) auto

text \<open>The model of uthash satisfies the contract, for every key function.\<close>

interpretation uth: table key "\<lambda>xs. xs" "hash_find key" hash_add hash_delete
  for key :: "'a \<Rightarrow> 'k option"
proof unfold_locales
  show "hash_find key k t = Some a \<Longrightarrow> a \<in> set t \<and> key a = Some k" for k t a
    by (auto simp: hash_find_def find_Some_iff) (metis nth_mem set_rev length_rev)
  show "hash_find key k t = None \<longleftrightarrow> (\<forall>a \<in> set t. key a \<noteq> Some k)" for k t
    by (auto simp: hash_find_def find_None_iff)
qed (auto simp: hash_find_def hash_add_def hash_delete_def split: if_splits)

end
