(* ===== verification/Lp_Map.thy ===== *)
theory Lp_Map
  imports Uthash
begin

text \<open>
  The mapping server of \<^verbatim>\<open>lpmapser.c\<close>: a table from inode numbers of the base file system to
  inode numbers of PadoFS. A connection carries one command byte and its arguments; the server
  answers with one inode number. The table is written to a file when the server stops and read
  back when it starts.
\<close>

section \<open>The table\<close>

record hitem =
  hkey :: ino_t
  hval :: ino_t

type_synonym lpmap = "hitem list"

definition lp_find :: "ino_t \<Rightarrow> lpmap \<Rightarrow> hitem option" where
  "lp_find = hash_find (\<lambda>i. Some (hkey i))"

definition lp_lookup :: "lpmap \<Rightarrow> ino_t \<Rightarrow> ino_t option" where
  "lp_lookup m k = map_option hval (lp_find k m)"

section \<open>Commands\<close>

text \<open>
  \<^verbatim>\<open>read(fd, &v, sizeof(ino_t))\<close>: end of file, a value, or (a peer that closes in the middle
  of a value) no defined result.
\<close>

definition rd_ino :: "u8 list \<Rightarrow> (ino_t option \<times> u8 list) option" where
  "rd_ino bs = (if bs = [] then Some (None, [])
     else do { (v, r) \<leftarrow> take_bytes 8 bs; Some (Some (unle v), r) })"

definition com_G :: u8 where "com_G = 71"
definition com_P :: u8 where "com_P = 80"
definition com_D :: u8 where "com_D = 68"
definition com_Q :: u8 where "com_Q = 81"

text \<open>
  The body of the \<^verbatim>\<open>switch\<close>: the reply and the new table. The code does not check its
  \<^verbatim>\<open>calloc\<close>, and the server is taken to have memory for its items.
\<close>

definition lp_serve :: "u8 \<Rightarrow> u8 list \<Rightarrow> lpmap \<Rightarrow> (ino_t \<times> lpmap) option" where
  "lp_serve com args m =
     (if com = com_G then do {
        (lino, r) \<leftarrow> rd_ino args;
        Some (case lino of None \<Rightarrow> (0, m)
              | Some l \<Rightarrow> (case lp_find l m of None \<Rightarrow> (0, m) | Some hi \<Rightarrow> (hval hi, m))) }
      else if com = com_P then do {
        (lino, r) \<leftarrow> rd_ino args;
        (case lino of None \<Rightarrow> Some (0, m)
         | Some l \<Rightarrow> do {
             (pino, r) \<leftarrow> rd_ino r;
             Some (case pino of None \<Rightarrow> (0, m)
                   | Some p \<Rightarrow> (case lp_find l m of
                       Some hi \<Rightarrow> (hval hi, m)
                     | None \<Rightarrow> (p, hash_add \<lparr>hkey = l, hval = p\<rparr> m))) }) }
      else if com = com_D then do {
        (lino, r) \<leftarrow> rd_ino args;
        (case lino of None \<Rightarrow> Some (0, m)
         | Some l \<Rightarrow> (case lp_find l m of
             None \<Rightarrow> Some (0, m)
           | Some hi \<Rightarrow> do { m' \<leftarrow> hash_delete hi m; Some (hval hi, m') })) }
      else Some (0, m))"

text \<open>
  The accept loop on a sequence of connections, each given by the bytes the peer sends: a
  connection that closes at once is skipped, and \<^verbatim>\<open>Q\<close> ends the loop. The result is the
  list of replies and the final table.
\<close>

fun lp_loop :: "u8 list list \<Rightarrow> lpmap \<Rightarrow> (ino_t list \<times> lpmap) option" where
  "lp_loop [] m = Some ([], m)"
| "lp_loop ([] # cs) m = lp_loop cs m"
| "lp_loop ((com # args) # cs) m =
     (if com = com_Q then Some ([], m)
      else do {
        (r, m) \<leftarrow> lp_serve com args m;
        (rs, m) \<leftarrow> lp_loop cs m;
        Some (r # rs, m) })"

section \<open>Backup and restore\<close>

definition item_bytes :: "hitem \<Rightarrow> u8 list" where
  "item_bytes i = le 8 (hkey i) @ le 8 (hval i)"

text \<open>
  The file written by \<^verbatim>\<open>do_backup\<close>, and the table after it: \<^verbatim>\<open>HASH_ITER\<close> goes through
  the items, saving the next one before the body runs, and the body deletes the item once it is written.
\<close>

fun backup_items :: "hitem list \<Rightarrow> lpmap \<Rightarrow> (u8 list \<times> lpmap) option" where
  "backup_items [] m = Some ([], m)"
| "backup_items (cur # tmp) m = do {
     m \<leftarrow> hash_delete cur m;
     (bs, m) \<leftarrow> backup_items tmp m;
     Some (item_bytes cur @ bs, m) }"

definition lp_backup :: "lpmap \<Rightarrow> (u8 list \<times> lpmap) option" where
  "lp_backup m = backup_items m m"

text \<open>
  The restoring loop of \<^verbatim>\<open>main\<close>: a file that ends after a key is rejected as a whole, and
  the items restored so far are deleted one after the other.
\<close>

fun delete_items :: "hitem list \<Rightarrow> lpmap \<Rightarrow> lpmap option" where
  "delete_items [] m = Some m"
| "delete_items (cur # tmp) m = do { m \<leftarrow> hash_delete cur m; delete_items tmp m }"

function lp_restore :: "u8 list \<Rightarrow> lpmap \<Rightarrow> lpmap option" where
  "lp_restore bs m =
     (case rd_ino bs of
        None \<Rightarrow> None
      | Some (None, r) \<Rightarrow> Some m
      | Some (Some l, r) \<Rightarrow>
          (case rd_ino r of
             None \<Rightarrow> None
           | Some (None, r) \<Rightarrow> delete_items m m
           | Some (Some p, r) \<Rightarrow> lp_restore r (hash_add \<lparr>hkey = l, hval = p\<rparr> m)))"
  by pat_completeness auto
termination
  by (relation "measure (\<lambda>(bs, m). length bs)")
    (auto simp: rd_ino_def take_bytes_def split: if_splits)

declare lp_restore.simps [simp del]

section \<open>The table is a map\<close>

abbreviation lp_unique :: "lpmap \<Rightarrow> bool" where
  "lp_unique \<equiv> keys_unique (\<lambda>i. Some (hkey i))"

lemma lp_find_Some: "lp_find k m = Some i \<Longrightarrow> i \<in> set m \<and> hkey i = k"
  unfolding lp_find_def by (drule uth.find_Some) simp

lemma rd_ino_le [simp]: "rd_ino (le 8 k @ bs) = Some (Some (k :: ino_t), bs)"
proof -
  have "le 8 k @ bs \<noteq> []" by (metis append_is_Nil_conv length_0_conv length_le zero_neq_numeral)
  then show ?thesis by (simp add: rd_ino_def unle_le)
qed

lemma rd_ino_le0 [simp]: "rd_ino (le 8 k) = Some (Some (k :: ino_t), [])"
  using rd_ino_le[of k "[]"] by simp

lemma rd_ino_Nil [simp]: "rd_ino [] = Some (None, [])"
  by (simp add: rd_ino_def)

lemma com_distinct [simp]:
  "com_G \<noteq> com_P" "com_G \<noteq> com_D" "com_P \<noteq> com_D" "com_P \<noteq> com_G" "com_D \<noteq> com_G" "com_D \<noteq> com_P"
  "com_G \<noteq> com_Q" "com_P \<noteq> com_Q" "com_D \<noteq> com_Q"
  by (simp_all add: com_G_def com_P_def com_D_def com_Q_def)

lemma lp_lookup_add:
  assumes "lp_find k m = None"
  shows "lp_lookup (hash_add \<lparr>hkey = k, hval = v\<rparr> m) = (lp_lookup m)(k \<mapsto> v)"
proof
  fix j
  show "lp_lookup (hash_add \<lparr>hkey = k, hval = v\<rparr> m) j = ((lp_lookup m)(k \<mapsto> v)) j"
    using assms by (auto simp: lp_lookup_def lp_find_def hash_find_def hash_add_def)
qed

lemma lp_unique_add:
  "lp_unique m \<Longrightarrow> lp_find k m = None \<Longrightarrow> lp_unique (hash_add \<lparr>hkey = k, hval = v\<rparr> m)"
  by (rule uth.unique_add[where k = k]) (auto simp: lp_find_def uth.find_None)

lemma lp_lookup_delete:
  assumes "lp_unique m" "lp_find k m = Some i" "hash_delete i m = Some m'"
  shows "lp_lookup m' = (lp_lookup m)(k := None)"
proof
  fix j
  note ik = lp_find_Some[OF assms(2)]
  have u': "lp_unique m'" by (rule uth.unique_del[OF assms(1,3)])
  have m': "set m' = set m - {i}"
    using assms(1,3) by (auto simp: hash_delete_def keys_unique_def set_remove1_eq split: if_splits)
  show "lp_lookup m' j = ((lp_lookup m)(k := None)) j"
  proof (cases "j = k")
    case True
    have "hash_find (\<lambda>i. Some (hkey i)) k m' = None"
      by (rule uth.find_del_same[OF assms(1) _ assms(3)]) (simp add: ik)
    with True show ?thesis by (simp add: lp_lookup_def lp_find_def)
  next
    case False
    show ?thesis
    proof (cases "lp_find j m")
      case None
      with m' have "lp_find j m' = None" by (auto simp: lp_find_def uth.find_None)
      with None False show ?thesis by (simp add: lp_lookup_def)
    next
      case (Some b)
      from lp_find_Some[OF Some] False ik m' have "b \<in> set m'" "hkey b = j" by auto
      then have "lp_find j m' = Some b"
        unfolding lp_find_def by (intro uth.find_unique[OF u']) auto
      with Some False show ?thesis by (simp add: lp_lookup_def)
    qed
  qed
qed

section \<open>Properties\<close>

lemma lp_find_lookup: "lp_find k m = None \<longleftrightarrow> lp_lookup m k = None"
  by (simp add: lp_lookup_def)

lemma lp_delete_ok: "lp_find k m = Some i \<Longrightarrow> \<exists>m'. hash_delete i m = Some m'"
  using uth.del_dom[of i m] lp_find_Some[of k m i] by auto

text \<open>The three commands on a table with unique keys, in terms of the map it stands for.\<close>

lemma lp_serve_get:
  "lp_serve com_G (le 8 k) m = Some (case lp_lookup m k of None \<Rightarrow> 0 | Some v \<Rightarrow> v, m)"
  by (auto simp: lp_serve_def lp_lookup_def split: option.split)

lemma lp_serve_put:
  assumes "lp_unique m"
  shows "\<exists>m'. lp_serve com_P (le 8 k @ le 8 v) m =
      Some (case lp_lookup m k of None \<Rightarrow> v | Some w \<Rightarrow> w, m') \<and> lp_unique m' \<and>
    lp_lookup m' = (case lp_lookup m k of None \<Rightarrow> (lp_lookup m)(k \<mapsto> v) | Some w \<Rightarrow> lp_lookup m)"
proof (cases "lp_find k m")
  case None
  with lp_lookup_add[OF None, of v] lp_unique_add[OF assms None, of v] show ?thesis
    by (simp add: lp_serve_def lp_lookup_def)
next
  case (Some i)
  with assms show ?thesis by (simp add: lp_serve_def lp_lookup_def)
qed

lemma lp_serve_delete:
  assumes "lp_unique m"
  shows "\<exists>m'. lp_serve com_D (le 8 k) m =
      Some (case lp_lookup m k of None \<Rightarrow> 0 | Some w \<Rightarrow> w, m') \<and> lp_unique m' \<and>
    lp_lookup m' = (lp_lookup m)(k := None)"
proof (cases "lp_find k m")
  case None
  with assms show ?thesis by (auto simp: lp_serve_def lp_lookup_def fun_upd_idem)
next
  case (Some i)
  from lp_delete_ok[OF Some] obtain m' where m': "hash_delete i m = Some m'" ..
  with Some lp_lookup_delete[OF assms Some m'] uth.unique_del[OF assms m'] show ?thesis
    by (simp add: lp_serve_def lp_lookup_def)
qed

text \<open>The backup file restores the table, in the same order, also behind a table that is there.\<close>

lemma lp_restore_item: "lp_restore (item_bytes i @ bs) m = lp_restore bs (m @ [i])"
  by (cases i; subst lp_restore.simps) (simp add: item_bytes_def hash_add_def)

lemma lp_backup_file: "lp_backup m = Some (concat (map item_bytes m), [])"
  unfolding lp_backup_def by (induction m) (simp_all add: hash_delete_def)

lemma lp_restore_items:
  "lp_restore (concat (map item_bytes m) @ bs) m0 = lp_restore bs (m0 @ m)"
  by (induction m arbitrary: m0) (simp_all add: lp_restore_item)

lemma lp_restore_end: "lp_restore [] m = Some m"
  by (subst lp_restore.simps) simp

lemma lp_backup_restores:
  "\<exists>bs. lp_backup m = Some (bs, []) \<and> lp_restore bs m0 = Some (m0 @ m)"
  using lp_restore_items[of m "[]" m0] by (simp add: lp_backup_file lp_restore_end)

text \<open>A file that stops after a key is rejected and leaves the table empty.\<close>

lemma delete_items_all: "delete_items m m = Some []"
  by (induction m) (simp_all add: hash_delete_def)

lemma lp_restore_truncated:
  "lp_backup m = Some (bs, m') \<Longrightarrow> lp_restore (bs @ le 8 (k :: ino_t)) m0 = Some []"
  by (auto simp: lp_backup_file lp_restore_items) (subst lp_restore.simps, simp add: delete_items_all)

section \<open>Abstract specification\<close>

text \<open>
  What the server promises: requests against a partial map. \<open>LpPut\<close> does not overwrite, and its
  reply is the number that is registered afterwards; a reply 0 says that there is none.
\<close>

datatype lp_req = LpGet ino_t | LpPut ino_t ino_t | LpDel ino_t

fun lp_spec :: "lp_req \<Rightarrow> (ino_t \<Rightarrow> ino_t option) \<Rightarrow> ino_t \<times> (ino_t \<Rightarrow> ino_t option)" where
  "lp_spec (LpGet k) f = (case f k of None \<Rightarrow> 0 | Some v \<Rightarrow> v, f)"
| "lp_spec (LpPut k v) f = (case f k of None \<Rightarrow> (v, f(k \<mapsto> v)) | Some w \<Rightarrow> (w, f))"
| "lp_spec (LpDel k) f = (case f k of None \<Rightarrow> 0 | Some v \<Rightarrow> v, f(k := None))"

fun lp_specs :: "lp_req list \<Rightarrow> (ino_t \<Rightarrow> ino_t option) \<Rightarrow> ino_t list \<times> (ino_t \<Rightarrow> ino_t option)" where
  "lp_specs [] f = ([], f)"
| "lp_specs (q # qs) f = (let (r, f) = lp_spec q f; (rs, f) = lp_specs qs f in (r # rs, f))"

text \<open>The bytes a client sends.\<close>

fun lp_enc :: "lp_req \<Rightarrow> u8 list" where
  "lp_enc (LpGet k) = com_G # le 8 k"
| "lp_enc (LpPut k v) = com_P # le 8 k @ le 8 v"
| "lp_enc (LpDel k) = com_D # le 8 k"

lemma lp_loop_req:
  assumes "lp_unique m"
  shows "\<exists>m'. lp_loop (lp_enc q # cs) m =
      map_option (\<lambda>(rs, n). (fst (lp_spec q (lp_lookup m)) # rs, n)) (lp_loop cs m') \<and>
    lp_unique m' \<and> lp_lookup m' = snd (lp_spec q (lp_lookup m))"
proof (cases q)
  case (LpGet k)
  with assms show ?thesis
    by (intro exI[of _ m]) (cases "lp_loop cs m", auto simp: lp_serve_get)
next
  case (LpPut k v)
  from lp_serve_put[OF assms, of k v] obtain m' where m':
    "lp_serve com_P (le 8 k @ le 8 v) m = Some (case lp_lookup m k of None \<Rightarrow> v | Some w \<Rightarrow> w, m')"
    "lp_unique m'"
    "lp_lookup m' = (case lp_lookup m k of None \<Rightarrow> (lp_lookup m)(k \<mapsto> v) | Some w \<Rightarrow> lp_lookup m)"
    by blast
  with LpPut show ?thesis
    by (intro exI[of _ m']) (cases "lp_loop cs m'"; cases "lp_lookup m k"; auto)
next
  case (LpDel k)
  from lp_serve_delete[OF assms, of k] obtain m' where m':
    "lp_serve com_D (le 8 k) m = Some (case lp_lookup m k of None \<Rightarrow> 0 | Some w \<Rightarrow> w, m')"
    "lp_unique m'" "lp_lookup m' = (lp_lookup m)(k := None)" by blast
  with LpDel show ?thesis
    by (intro exI[of _ m']) (cases "lp_loop cs m'"; cases "lp_lookup m k"; auto)
qed

lemma lp_loop_specs:
  assumes "lp_unique m"
  shows "\<exists>m'. lp_loop (map lp_enc qs @ [[com_Q]]) m = Some (fst (lp_specs qs (lp_lookup m)), m') \<and>
    lp_unique m' \<and> lp_lookup m' = snd (lp_specs qs (lp_lookup m))"
  using assms
proof (induction qs arbitrary: m)
  case (Cons q qs)
  from lp_loop_req[OF Cons.prems, of q "map lp_enc qs @ [[com_Q]]"] obtain m1 where
    m1: "lp_loop (map lp_enc (q # qs) @ [[com_Q]]) m = map_option
        (\<lambda>(rs, n). (fst (lp_spec q (lp_lookup m)) # rs, n)) (lp_loop (map lp_enc qs @ [[com_Q]]) m1)"
    "lp_unique m1" "lp_lookup m1 = snd (lp_spec q (lp_lookup m))" by auto
  from Cons.IH[OF m1(2)] m1 show ?case by (auto simp: case_prod_unfold Let_def)
qed simp

end
