(* ===== verification/Store.thy ===== *)
theory Store
  imports Lp_Map
begin

text \<open>
  The data model of \<^verbatim>\<open>incont.h\<close>: extents, data objects and inodes as records with the fields
  of the C structures, an explicit store that maps addresses to them, and the primitive reads and
  writes of the store. The store also holds what the code reaches through the operating system: the
  allocator, the clock, the connection that the running thread serves, the data object servers.
\<close>

section \<open>Constants and enumerations\<close>

text \<open>\<^verbatim>\<open>inserver.h\<close>: commands, results and the commands of a data object server.\<close>

datatype ins_com =
    WRITE | TRUNCATE | READ_LAYOUT | CLONE_TO | READ_INODE_META | READ_INODE_WHOLE
  | CREATE_INODE | CREATE_OPEN_INODE | DELETE_INODE | REMOVE_DOBJ | RELEASE_DRAIN_LOCK
  | READ_DOBJ | BACKUP_AND_STOP | STAGEOUT_ALL | GET_INODE_DOBJ | UNREF

definition ins_coms :: "ins_com list" where
  "ins_coms = [WRITE, TRUNCATE, READ_LAYOUT, CLONE_TO, READ_INODE_META, READ_INODE_WHOLE,
     CREATE_INODE, CREATE_OPEN_INODE, DELETE_INODE, REMOVE_DOBJ, RELEASE_DRAIN_LOCK,
     READ_DOBJ, BACKUP_AND_STOP, STAGEOUT_ALL, GET_INODE_DOBJ, UNREF]"

definition com_of :: "u8 \<Rightarrow> ins_com option" where
  "com_of b = (if unat b < length ins_coms then Some (ins_coms ! unat b) else None)"

datatype ins_ret =
    SERVER_BUSY | QUEUED | SUCCESS | FAILED | INVALID_COMMAND | INVALID_INO | INVALID_DOBJECT
  | INTERNAL_ERROR | INVALID_RANGE | INVALID_RANGE_CLONE | SHARED_BASE | EXTENT_EXIST
  | BASE_CLONED | DOS_CON_ERROR | DOS_FAIL | IS_DLOCKED | IS_USED | IS_DELETED
  | ALREADY_CREATED | MS_CON_ERROR | INO_FULL | INVALID_UNREF | CHANGED_MAPPING | IS_UPTODATE

text \<open>The value of an enumerator as a C \<^verbatim>\<open>int\<close>; errors are returned negated.\<close>

fun ret_code :: "ins_ret \<Rightarrow> int" where
  "ret_code SERVER_BUSY = 0" | "ret_code QUEUED = 1" | "ret_code SUCCESS = 2"
| "ret_code FAILED = 3" | "ret_code INVALID_COMMAND = 4" | "ret_code INVALID_INO = 5"
| "ret_code INVALID_DOBJECT = 6" | "ret_code INTERNAL_ERROR = 7" | "ret_code INVALID_RANGE = 8"
| "ret_code INVALID_RANGE_CLONE = 9" | "ret_code SHARED_BASE = 10" | "ret_code EXTENT_EXIST = 11"
| "ret_code BASE_CLONED = 12" | "ret_code DOS_CON_ERROR = 13" | "ret_code DOS_FAIL = 14"
| "ret_code IS_DLOCKED = 15" | "ret_code IS_USED = 16" | "ret_code IS_DELETED = 17"
| "ret_code ALREADY_CREATED = 18" | "ret_code MS_CON_ERROR = 19" | "ret_code INO_FULL = 20"
| "ret_code INVALID_UNREF = 21" | "ret_code CHANGED_MAPPING = 22" | "ret_code IS_UPTODATE = 23"

definition err :: "ins_ret \<Rightarrow> int" where
  "err r = - ret_code r"

datatype dos_com =
    CREATE_BASEFILE | READ_DATA | DRAIN_DO | DRAIN_SHARED | ADD_LINK | REMOVE_LINK
  | MOVE_SHARED_BASE

fun dos_code :: "dos_com \<Rightarrow> u8" where
  "dos_code CREATE_BASEFILE = 0" | "dos_code READ_DATA = 1" | "dos_code DRAIN_DO = 2"
| "dos_code DRAIN_SHARED = 3" | "dos_code ADD_LINK = 4" | "dos_code REMOVE_LINK = 5"
| "dos_code MOVE_SHARED_BASE = 6"

section \<open>Structures\<close>

record do_addr =
  host_id :: u32
  loid :: loid_t

text \<open>
  \<^verbatim>\<open>struct extent **pivot\<close> points at the field that points at the extent: the root of an
  inode's layout or a child field of the parent.
\<close>

datatype slot = SNull | SFlayout addr | SLeft addr | SRight addr

record extent =
  dobj :: addr
  off_f :: sz
  off_do :: sz
  len :: sz
  prev_ref :: addr
  next_ref :: addr
  depth :: int
  parent :: addr
  pivot :: slot
  left :: addr
  right :: addr
  prev_e :: addr
  next_e :: addr

record dobject =
  daddr :: do_addr
  d_inode :: addr
  refs :: addr
  num_refs :: u32

text \<open>A read-write lock: free, held by some readers, or held by the writing thread.\<close>

datatype lock = LkFree | LkRd nat | LkWr nat

record timespec =
  tv_sec :: time_t
  tv_nsec :: "64 word"

text \<open>\<^verbatim>\<open>do_map\<close> is the uthash table of the inode's data objects, in its iteration order.\<close>

record inode =
  ino :: ino_t
  base_ino :: ino_t
  isize :: sz
  atime :: timespec
  mtime :: timespec
  version :: sz
  flayout :: addr
  num_exts :: u32
  refcount :: u32
  do_map :: "addr list"
  alive :: lock
  rwlock :: lock
  flags :: u8

text \<open>A request to a data object server: the host and the bytes written to it.\<close>

type_synonym dos_msg = "u32 \<times> u8 list"

text \<open>
  The store. \<open>avail\<close> is the number of further calls of \<^verbatim>\<open>calloc\<close> that succeed, \<open>brk\<close> the next
  address it returns. \<open>rx\<close> and \<open>tx\<close> are the bytes still to be read from, and already written to,
  the descriptor in hand. \<open>dos_srv\<close> stands for the data object servers, which are not part of this
  repository: given the requests made so far and a new one it says whether the connection is
  accepted and, if it is, what the server replies. \<open>ms_up\<close> and \<open>ms_map\<close> are the mapping server
  (\<^verbatim>\<open>Lp_Map\<close>): whether it accepts connections, and its table; \<open>inodebase\<close> and \<open>inodemax\<close> are the
  inode numbers that this server may still give out. \<open>with_ms\<close> and \<open>nodp\<close> are the build switches
  \<^verbatim>\<open>WITH_MAPSERVER\<close> and \<^verbatim>\<open>NODP\<close>; \<open>self\<close> is the running thread.
\<close>

record store =
  exts :: "addr \<Rightarrow> extent option"
  dobs :: "addr \<Rightarrow> dobject option"
  inos :: "addr \<Rightarrow> inode option"
  inode_map :: "addr list"
  imlock :: lock
  brk :: addr
  avail :: nat
  clock :: timespec
  rx :: "u8 list"
  tx :: "u8 list"
  dos_log :: "dos_msg list"
  dos_srv :: "dos_msg list \<Rightarrow> dos_msg \<Rightarrow> int option"
  ms_up :: bool
  ms_map :: lpmap
  inodebase :: ino_t
  inodemax :: ino_t
  with_ms :: bool
  nodp :: bool
  self :: nat

section \<open>Flags\<close>

definition SHARED :: u8 where "SHARED = 1"
definition DELETED :: u8 where "DELETED = 2"
definition DLOCKED :: u8 where "DLOCKED = 4"

definition is_shared :: "inode \<Rightarrow> bool" where "is_shared n \<longleftrightarrow> flags n AND SHARED \<noteq> 0"
definition is_deleted :: "inode \<Rightarrow> bool" where "is_deleted n \<longleftrightarrow> flags n AND DELETED \<noteq> 0"
definition is_dlocked :: "inode \<Rightarrow> bool" where "is_dlocked n \<longleftrightarrow> flags n AND DLOCKED \<noteq> 0"

definition set_shared :: "inode \<Rightarrow> inode" where
  "set_shared n = n\<lparr>flags := flags n OR SHARED\<rparr>"
definition unset_shared :: "inode \<Rightarrow> inode" where
  "unset_shared n = n\<lparr>flags := flags n AND NOT SHARED\<rparr>"
definition set_deleted :: "inode \<Rightarrow> inode" where
  "set_deleted n = n\<lparr>flags := flags n OR DELETED\<rparr>"
definition set_dlocked :: "inode \<Rightarrow> inode" where
  "set_dlocked n = n\<lparr>flags := flags n OR DLOCKED\<rparr>"
definition unset_dlocked :: "inode \<Rightarrow> inode" where
  "unset_dlocked n = n\<lparr>flags := flags n AND NOT DLOCKED\<rparr>"

section \<open>Reading and writing the store\<close>

definition mod_ext :: "addr \<Rightarrow> (extent \<Rightarrow> extent) \<Rightarrow> store \<Rightarrow> store" where
  "mod_ext p f h = h\<lparr>exts := (exts h)(p := map_option f (exts h p))\<rparr>"

definition mod_dob :: "addr \<Rightarrow> (dobject \<Rightarrow> dobject) \<Rightarrow> store \<Rightarrow> store" where
  "mod_dob p f h = h\<lparr>dobs := (dobs h)(p := map_option f (dobs h p))\<rparr>"

definition mod_ino :: "addr \<Rightarrow> (inode \<Rightarrow> inode) \<Rightarrow> store \<Rightarrow> store" where
  "mod_ino p f h = h\<lparr>inos := (inos h)(p := map_option f (inos h p))\<rparr>"

definition upd_ext :: "addr \<Rightarrow> (extent \<Rightarrow> extent) \<Rightarrow> store \<Rightarrow> store option" where
  "upd_ext p f h = do { ensure (exts h p \<noteq> None); Some (mod_ext p f h) }"

definition upd_dob :: "addr \<Rightarrow> (dobject \<Rightarrow> dobject) \<Rightarrow> store \<Rightarrow> store option" where
  "upd_dob p f h = do { ensure (dobs h p \<noteq> None); Some (mod_dob p f h) }"

definition upd_ino :: "addr \<Rightarrow> (inode \<Rightarrow> inode) \<Rightarrow> store \<Rightarrow> store option" where
  "upd_ino p f h = do { ensure (inos h p \<noteq> None); Some (mod_ino p f h) }"

text \<open>\<^verbatim>\<open>p->f\<close>, and \<^verbatim>\<open>*pivot = x\<close>.\<close>

definition fld :: "(extent \<Rightarrow> 'a) \<Rightarrow> store \<Rightarrow> addr \<Rightarrow> 'a option" where
  "fld f h p = map_option f (exts h p)"

fun write_slot :: "slot \<Rightarrow> addr \<Rightarrow> store \<Rightarrow> store option" where
  "write_slot SNull x h = None"
| "write_slot (SFlayout i) x h = upd_ino i (flayout_update (\<lambda>_. x)) h"
| "write_slot (SLeft a) x h = upd_ext a (left_update (\<lambda>_. x)) h"
| "write_slot (SRight a) x h = upd_ext a (right_update (\<lambda>_. x)) h"

fun read_slot :: "slot \<Rightarrow> store \<Rightarrow> addr option" where
  "read_slot SNull h = None"
| "read_slot (SFlayout i) h = map_option flayout (inos h i)"
| "read_slot (SLeft a) h = map_option left (exts h a)"
| "read_slot (SRight a) h = map_option right (exts h a)"

text \<open>The allocator. \<^verbatim>\<open>calloc\<close> returns the null pointer when memory is exhausted.\<close>

definition calloc :: "store \<Rightarrow> addr \<times> store" where
  "calloc h = (if avail h = 0 then (NULL, h)
               else (brk h, h\<lparr>brk := brk h + 1, avail := avail h - 1\<rparr>))"

definition free_ext :: "addr \<Rightarrow> store \<Rightarrow> store" where
  "free_ext p h = h\<lparr>exts := (exts h)(p := None)\<rparr>"

definition free_dob :: "addr \<Rightarrow> store \<Rightarrow> store" where
  "free_dob p h = h\<lparr>dobs := (dobs h)(p := None)\<rparr>"

definition free_ino :: "addr \<Rightarrow> store \<Rightarrow> store" where
  "free_ino p h = h\<lparr>inos := (inos h)(p := None)\<rparr>"

text \<open>
  \<^verbatim>\<open>read(fd, &v, sizeof v)\<close> on the connection in hand. A peer that closes the connection in the
  middle of a request leaves the variable unset, which is a fault of the model.
\<close>

definition rd_bytes :: "nat \<Rightarrow> store \<Rightarrow> ('a::len word \<times> store) option" where
  "rd_bytes n h = do { (b, r) \<leftarrow> take_bytes n (rx h); Some (unle b, h\<lparr>rx := r\<rparr>) }"

definition wr :: "u8 list \<Rightarrow> store \<Rightarrow> store" where
  "wr bs h = h\<lparr>tx := tx h @ bs\<rparr>"

definition rd_u8 :: "store \<Rightarrow> (u8 \<times> store) option" where "rd_u8 = rd_bytes 1"
definition rd_u32 :: "store \<Rightarrow> (u32 \<times> store) option" where "rd_u32 = rd_bytes 4"
definition rd_u64 :: "store \<Rightarrow> (64 word \<times> store) option" where "rd_u64 = rd_bytes 8"

definition int_bytes :: "int \<Rightarrow> u8 list" where
  "int_bytes r = le 4 (word_of_int r :: u32)"

text \<open>
  A request to the data object server \<open>host\<close>: \<open>None\<close> if the connection is refused, otherwise
  the reply; an accepted request is logged.
\<close>

definition dos_call :: "u32 \<Rightarrow> u8 list \<Rightarrow> store \<Rightarrow> int option \<times> store" where
  "dos_call host bs h =
     (case dos_srv h (dos_log h) (host, bs) of
        None \<Rightarrow> (None, h)
      | Some r \<Rightarrow> (Some r, h\<lparr>dos_log := dos_log h @ [(host, bs)]\<rparr>))"

text \<open>
  POSIX read-write locks, as the GNU library implements them: a lock call by the thread that
  already holds the lock for writing returns \<^verbatim>\<open>EDEADLK\<close>, which the code ignores; a
  lock call that has to wait for another thread is a fault of the sequential model.
\<close>

fun lk_rd :: "nat \<Rightarrow> lock \<Rightarrow> lock option" where
  "lk_rd t LkFree = Some (LkRd 1)"
| "lk_rd t (LkRd n) = Some (LkRd (Suc n))"
| "lk_rd t (LkWr u) = (if t = u then Some (LkWr u) else None)"

fun lk_wr :: "nat \<Rightarrow> lock \<Rightarrow> lock option" where
  "lk_wr t LkFree = Some (LkWr t)"
| "lk_wr t (LkRd n) = None"
| "lk_wr t (LkWr u) = (if t = u then Some (LkWr u) else None)"

fun lk_un :: "lock \<Rightarrow> lock option" where
  "lk_un LkFree = None"
| "lk_un (LkRd n) = (if n \<le> 1 then Some LkFree else Some (LkRd (n - 1)))"
| "lk_un (LkWr u) = Some LkFree"

definition on_rwlock :: "(lock \<Rightarrow> lock option) \<Rightarrow> addr \<Rightarrow> store \<Rightarrow> store option" where
  "on_rwlock f i h = do { n \<leftarrow> inos h i; l \<leftarrow> f (rwlock n);
     upd_ino i (rwlock_update (\<lambda>_. l)) h }"

definition on_alive :: "(lock \<Rightarrow> lock option) \<Rightarrow> addr \<Rightarrow> store \<Rightarrow> store option" where
  "on_alive f i h = do { n \<leftarrow> inos h i; l \<leftarrow> f (alive n);
     upd_ino i (alive_update (\<lambda>_. l)) h }"

definition on_imlock :: "(lock \<Rightarrow> lock option) \<Rightarrow> store \<Rightarrow> store option" where
  "on_imlock f h = do { l \<leftarrow> f (imlock h); Some (h\<lparr>imlock := l\<rparr>) }"

section \<open>Evaluation rules\<close>

lemma exts_mod_ext [simp]:
  "exts (mod_ext p f h) q = (if q = p then map_option f (exts h p) else exts h q)"
  by (simp add: mod_ext_def)

lemma dobs_mod_dob [simp]:
  "dobs (mod_dob p f h) q = (if q = p then map_option f (dobs h p) else dobs h q)"
  by (simp add: mod_dob_def)

lemma inos_mod_ino [simp]:
  "inos (mod_ino p f h) q = (if q = p then map_option f (inos h p) else inos h q)"
  by (simp add: mod_ino_def)

lemma mod_ext_frame [simp]:
  "dobs (mod_ext p f h) = dobs h" "inos (mod_ext p f h) = inos h"
  "inode_map (mod_ext p f h) = inode_map h" "brk (mod_ext p f h) = brk h"
  "avail (mod_ext p f h) = avail h" "clock (mod_ext p f h) = clock h"
  "rx (mod_ext p f h) = rx h" "tx (mod_ext p f h) = tx h" "imlock (mod_ext p f h) = imlock h"
  "dos_log (mod_ext p f h) = dos_log h" "dos_srv (mod_ext p f h) = dos_srv h"
  "with_ms (mod_ext p f h) = with_ms h" "nodp (mod_ext p f h) = nodp h"
  "self (mod_ext p f h) = self h" "ms_up (mod_ext p f h) = ms_up h" "ms_map (mod_ext p f h) = ms_map h"
  "inodebase (mod_ext p f h) = inodebase h" "inodemax (mod_ext p f h) = inodemax h"
  by (simp_all add: mod_ext_def)

lemma mod_dob_frame [simp]:
  "exts (mod_dob p f h) = exts h" "inos (mod_dob p f h) = inos h"
  "inode_map (mod_dob p f h) = inode_map h" "brk (mod_dob p f h) = brk h"
  "avail (mod_dob p f h) = avail h" "clock (mod_dob p f h) = clock h"
  "rx (mod_dob p f h) = rx h" "tx (mod_dob p f h) = tx h" "imlock (mod_dob p f h) = imlock h"
  "dos_log (mod_dob p f h) = dos_log h" "dos_srv (mod_dob p f h) = dos_srv h"
  "with_ms (mod_dob p f h) = with_ms h" "nodp (mod_dob p f h) = nodp h"
  "self (mod_dob p f h) = self h" "ms_up (mod_dob p f h) = ms_up h" "ms_map (mod_dob p f h) = ms_map h"
  "inodebase (mod_dob p f h) = inodebase h" "inodemax (mod_dob p f h) = inodemax h"
  by (simp_all add: mod_dob_def)

lemma mod_ino_frame [simp]:
  "exts (mod_ino p f h) = exts h" "dobs (mod_ino p f h) = dobs h"
  "inode_map (mod_ino p f h) = inode_map h" "brk (mod_ino p f h) = brk h"
  "avail (mod_ino p f h) = avail h" "clock (mod_ino p f h) = clock h"
  "rx (mod_ino p f h) = rx h" "tx (mod_ino p f h) = tx h" "imlock (mod_ino p f h) = imlock h"
  "dos_log (mod_ino p f h) = dos_log h" "dos_srv (mod_ino p f h) = dos_srv h"
  "with_ms (mod_ino p f h) = with_ms h" "nodp (mod_ino p f h) = nodp h"
  "self (mod_ino p f h) = self h" "ms_up (mod_ino p f h) = ms_up h" "ms_map (mod_ino p f h) = ms_map h"
  "inodebase (mod_ino p f h) = inodebase h" "inodemax (mod_ino p f h) = inodemax h"
  by (simp_all add: mod_ino_def)

lemma upd_ext_Some [simp]:
  "upd_ext p f h = Some h' \<longleftrightarrow> exts h p \<noteq> None \<and> h' = mod_ext p f h"
  by (auto simp: upd_ext_def mon)

lemma upd_dob_Some [simp]:
  "upd_dob p f h = Some h' \<longleftrightarrow> dobs h p \<noteq> None \<and> h' = mod_dob p f h"
  by (auto simp: upd_dob_def mon)

lemma upd_ino_Some [simp]:
  "upd_ino p f h = Some h' \<longleftrightarrow> inos h p \<noteq> None \<and> h' = mod_ino p f h"
  by (auto simp: upd_ino_def mon)

text \<open>Forward evaluation: a write to a valid address succeeds and keeps addresses valid.\<close>

definition valid :: "store \<Rightarrow> addr \<Rightarrow> bool" where
  "valid h p \<longleftrightarrow> exts h p \<noteq> None"

lemma valid_simps [simp]:
  "valid (mod_ext p f h) q = valid h q" "valid (mod_dob p g h) q = valid h q"
  "valid (mod_ino p k h) q = valid h q"
  by (auto simp: valid_def)

lemma valid_SomeI: "exts h p = Some e \<Longrightarrow> valid h p"
  by (simp add: valid_def)

lemma validE: "valid h p \<Longrightarrow> (\<And>e. exts h p = Some e \<Longrightarrow> P) \<Longrightarrow> P"
  by (auto simp: valid_def)

text \<open>The null pointer is never allocated.\<close>

definition null_ok :: "store \<Rightarrow> bool" where
  "null_ok h \<longleftrightarrow> exts h NULL = None"

lemma null_ok_simps [simp]:
  "null_ok (mod_ext p f h) = null_ok h" "null_ok (mod_dob p g h) = null_ok h"
  "null_ok (mod_ino p k h) = null_ok h"
  by (auto simp: null_ok_def)

lemma fld_mod_ext_other: "q \<noteq> p \<Longrightarrow> fld g (mod_ext p f h) q = fld g h q"
  by (simp add: fld_def)

lemma fld_mod_ext_same: "valid h p \<Longrightarrow> (\<And>e. g (f e) = d) \<Longrightarrow> fld g (mod_ext p f h) p = Some d"
  by (auto simp: fld_def valid_def)

lemma fld_mod_ext_keep: "(\<And>e. g (f e) = g e) \<Longrightarrow> fld g (mod_ext p f h) q = fld g h q"
  by (auto simp: fld_def option.map_comp comp_def)

lemma upd_ext_eval [mon]: "valid h p \<Longrightarrow> upd_ext p f h = Some (mod_ext p f h)"
  by (simp add: upd_ext_def valid_def)

lemma upd_dob_eval [mon]: "dobs h p \<noteq> None \<Longrightarrow> upd_dob p f h = Some (mod_dob p f h)"
  by (simp add: upd_dob_def)

lemma upd_ino_eval [mon]: "inos h p \<noteq> None \<Longrightarrow> upd_ino p f h = Some (mod_ino p f h)"
  by (simp add: upd_ino_def)

end
