(* ===== verification/Rebalance.thy ===== *)
theory Rebalance
  imports Store
begin

text \<open>
  \<^verbatim>\<open>rebalance\<close> of \<^verbatim>\<open>incont.c\<close>: the loop that walks from an extent towards the root, restores
  the height balance by rotations and the stored depths, and stops at the first extent whose depth
  does not change. The model is the pointer program. Its correctness is shown against a functional
  rebalancing of trees that carry the stored depths.
\<close>

section \<open>The code\<close>

text \<open>The macro \<^verbatim>\<open>DEPTH(x)\<close>.\<close>

definition DEPTH :: "store \<Rightarrow> addr \<Rightarrow> int option" where
  "DEPTH h x = (if x = NULL then Some 0 else map_option depth (exts h x))"

text \<open>\<^verbatim>\<open>if(c) { c->parent = p; c->pivot = s; }\<close>\<close>

definition set_up :: "addr \<Rightarrow> addr \<Rightarrow> slot \<Rightarrow> store \<Rightarrow> store option" where
  "set_up c p s h = (if c = NULL then Some h
     else upd_ext c (\<lambda>e. e\<lparr>parent := p, pivot := s\<rparr>) h)"

text \<open>The seven extents of a rotation: \<^verbatim>\<open>T\<close>, \<^verbatim>\<open>L\<close>, \<^verbatim>\<open>R\<close>, \<^verbatim>\<open>LL\<close>, \<^verbatim>\<open>LR\<close>, \<^verbatim>\<open>RL\<close>, \<^verbatim>\<open>RR\<close>.\<close>

type_synonym rotation = "addr \<times> addr \<times> addr \<times> addr \<times> addr \<times> addr \<times> addr"

text \<open>The choice of the rotation from the depths of the two children and of the deeper child's.\<close>

definition choose_rotation :: "addr \<Rightarrow> int \<Rightarrow> int \<Rightarrow> store \<Rightarrow> rotation option" where
  "choose_rotation ext dl dr h = do {
     e \<leftarrow> exts h ext;
     c \<leftarrow> exts h (if dl > dr then left e else right e);
     dcl \<leftarrow> DEPTH h (left c);
     dcr \<leftarrow> DEPTH h (right c);
     (if dl > dr \<and> dcl \<ge> dcr then do {
        let T = left e; t \<leftarrow> exts h T;
        let L = left t; l \<leftarrow> exts h L;
        Some (T, L, ext, left l, right l, right t, right e) }
      else if dl > dr \<and> dcl < dcr then do {
        let L = left e; l \<leftarrow> exts h L;
        let T = right l; t \<leftarrow> exts h T;
        Some (T, L, ext, left l, left t, right t, right e) }
      else if dl < dr \<and> dcl > dcr then do {
        let R = right e; r \<leftarrow> exts h R;
        let T = left r; t \<leftarrow> exts h T;
        Some (T, ext, R, left e, left t, right t, right r) }
      else do {
        let T = right e; t \<leftarrow> exts h T;
        let R = right t; r \<leftarrow> exts h R;
        Some (T, ext, R, left e, left t, left r, right r) }) }"

text \<open>The pointer surgery that all four cases share.\<close>

definition rotate_to :: "addr \<Rightarrow> rotation \<Rightarrow> store \<Rightarrow> store option" where
  "rotate_to ext = (\<lambda>(T, L, R, LL, LR, RL, RR) h. do {
     e \<leftarrow> exts h ext;
     h \<leftarrow> upd_ext T (\<lambda>x. x\<lparr>parent := parent e, pivot := pivot e\<rparr>) h;
     h \<leftarrow> write_slot (pivot e) T h;
     h \<leftarrow> upd_ext T (\<lambda>x. x\<lparr>left := L, right := R\<rparr>) h;
     h \<leftarrow> upd_ext L (\<lambda>x. x\<lparr>parent := T, pivot := SLeft T, left := LL\<rparr>) h;
     h \<leftarrow> set_up LL L (SLeft L) h;
     h \<leftarrow> upd_ext L (\<lambda>x. x\<lparr>right := LR\<rparr>) h;
     h \<leftarrow> set_up LR L (SRight L) h;
     dll \<leftarrow> DEPTH h LL; dlr \<leftarrow> DEPTH h LR;
     h \<leftarrow> upd_ext L (\<lambda>x. x\<lparr>depth := max dll dlr + 1\<rparr>) h;
     h \<leftarrow> upd_ext R (\<lambda>x. x\<lparr>parent := T, pivot := SRight T, left := RL\<rparr>) h;
     h \<leftarrow> set_up RL R (SLeft R) h;
     h \<leftarrow> upd_ext R (\<lambda>x. x\<lparr>right := RR\<rparr>) h;
     h \<leftarrow> set_up RR R (SRight R) h;
     drl \<leftarrow> DEPTH h RL; drr \<leftarrow> DEPTH h RR;
     h \<leftarrow> upd_ext R (\<lambda>x. x\<lparr>depth := max drl drr + 1\<rparr>) h;
     l \<leftarrow> fld depth h L; r \<leftarrow> fld depth h R;
     upd_ext T (\<lambda>x. x\<lparr>depth := max l r + 1\<rparr>) h })"

text \<open>The body of the loop for one extent: the extent that is now in its place, and the store.\<close>

definition rebalance_step :: "addr \<Rightarrow> store \<Rightarrow> (addr \<times> store) option" where
  "rebalance_step ext h = do {
     e \<leftarrow> exts h ext;
     dl \<leftarrow> DEPTH h (left e);
     dr \<leftarrow> DEPTH h (right e);
     (if \<bar>dl - dr\<bar> > 1 then do {
        ensure (\<bar>dl - dr\<bar> = 2);
        rot \<leftarrow> choose_rotation ext dl dr h;
        h \<leftarrow> rotate_to ext rot h;
        Some (fst rot, h) }
      else do {
        h \<leftarrow> upd_ext ext (\<lambda>x. x\<lparr>depth := max dl dr + 1\<rparr>) h;
        Some (ext, h) }) }"

partial_function (option) rebalance :: "addr \<Rightarrow> store \<Rightarrow> store option" where
  "rebalance ext h =
     (if ext = NULL then Some h
      else do {
        e \<leftarrow> exts h ext;
        (ext', h) \<leftarrow> rebalance_step ext h;
        e' \<leftarrow> exts h ext';
        (if depth e' = depth e then Some h else rebalance (parent e') h) })"

declare rebalance.simps [code]

section \<open>Trees with stored depths\<close>

text \<open>
  The shape that the pointers describe: an extent's address, the depth stored in it, and its two
  subtrees. A context is the path from a subtree up to the root.
\<close>

datatype etree = Tip | Bin etree addr int etree

datatype frame = LFrame addr int etree | RFrame etree addr int

type_synonym ctx = "frame list"

fun root :: "etree \<Rightarrow> addr" where
  "root Tip = NULL"
| "root (Bin l a d r) = a"

fun dep :: "etree \<Rightarrow> int" where
  "dep Tip = 0"
| "dep (Bin l a d r) = d"

fun inorder :: "etree \<Rightarrow> addr list" where
  "inorder Tip = []"
| "inorder (Bin l a d r) = inorder l @ a # inorder r"

abbreviation addrs :: "etree \<Rightarrow> addr set" where "addrs t \<equiv> set (inorder t)"

fun plug1 :: "frame \<Rightarrow> etree \<Rightarrow> etree" where
  "plug1 (LFrame a d r) t = Bin t a d r"
| "plug1 (RFrame l a d) t = Bin l a d t"

fun plug :: "ctx \<Rightarrow> etree \<Rightarrow> etree" where
  "plug [] t = t"
| "plug (f # C) t = plug C (plug1 f t)"

fun faddr :: "frame \<Rightarrow> addr" where
  "faddr (LFrame a d r) = a"
| "faddr (RFrame l a d) = a"

fun fside :: "frame \<Rightarrow> etree" where
  "fside (LFrame a d r) = r"
| "fside (RFrame l a d) = l"

fun hole_parent :: "ctx \<Rightarrow> addr" where
  "hole_parent [] = NULL"
| "hole_parent (f # C) = faddr f"

fun hole_slot :: "addr \<Rightarrow> ctx \<Rightarrow> slot" where
  "hole_slot i [] = SFlayout i"
| "hole_slot i (LFrame a d r # C) = SLeft a"
| "hole_slot i (RFrame l a d # C) = SRight a"

fun ctx_addrs :: "ctx \<Rightarrow> addr list" where
  "ctx_addrs [] = []"
| "ctx_addrs (f # C) = faddr f # inorder (fside f) @ ctx_addrs C"

fun left_of :: "ctx \<Rightarrow> addr list" where
  "left_of [] = []"
| "left_of (LFrame a d r # C) = left_of C"
| "left_of (RFrame l a d # C) = left_of C @ inorder l @ [a]"

fun right_of :: "ctx \<Rightarrow> addr list" where
  "right_of [] = []"
| "right_of (LFrame a d r # C) = a # inorder r @ right_of C"
| "right_of (RFrame l a d # C) = right_of C"

lemma inorder_plug: "inorder (plug C t) = left_of C @ inorder t @ right_of C"
proof (induction C arbitrary: t)
  case (Cons f C)
  then show ?case by (cases f) simp_all
qed simp

lemma set_ctx_addrs: "set (ctx_addrs C) = set (left_of C) \<union> set (right_of C)"
proof (induction C)
  case (Cons f C)
  then show ?case by (cases f) auto
qed simp

section \<open>The functional rebalancing\<close>

definition node :: "etree \<Rightarrow> addr \<Rightarrow> etree \<Rightarrow> etree" where
  "node l a r = Bin l a (max (dep l) (dep r) + 1) r"

text \<open>One step at the root of a tree whose own stored depth may be out of date.\<close>

fun fix_root :: "etree \<Rightarrow> etree option" where
  "fix_root Tip = None"
| "fix_root (Bin l a d r) =
     (if \<bar>dep l - dep r\<bar> > 1 then
        (if \<bar>dep l - dep r\<bar> \<noteq> 2 then None
         else if dep l > dep r then
           (case l of Tip \<Rightarrow> None
            | Bin ll la ld lr \<Rightarrow>
                if dep ll \<ge> dep lr
                then (case ll of Tip \<Rightarrow> None
                      | Bin x b c y \<Rightarrow> Some (node (node x b y) la (node lr a r)))
                else (case lr of Tip \<Rightarrow> None
                      | Bin x b c y \<Rightarrow> Some (node (node ll la x) b (node y a r))))
         else
           (case r of Tip \<Rightarrow> None
            | Bin rl ra rd rr \<Rightarrow>
                if dep rl > dep rr
                then (case rl of Tip \<Rightarrow> None
                      | Bin x b c y \<Rightarrow> Some (node (node l a x) b (node y ra rr)))
                else (case rr of Tip \<Rightarrow> None
                      | Bin x b c y \<Rightarrow> Some (node (node l a rl) ra (node x b y)))))
      else Some (node l a r))"

text \<open>The walk towards the root.\<close>

fun reb :: "etree \<Rightarrow> ctx \<Rightarrow> etree option" where
  "reb t [] = fix_root t"
| "reb t (f # C) =
     (case fix_root t of
        None \<Rightarrow> None
      | Some t' \<Rightarrow> if dep t' = dep t then Some (plug (f # C) t') else reb (plug1 f t') C)"

lemma inorder_node [simp]: "inorder (node l a r) = inorder l @ a # inorder r"
  by (simp add: node_def)

lemma inorder_fix_root: "fix_root t = Some t' \<Longrightarrow> inorder t' = inorder t"
  by (cases t) (auto split: if_splits etree.splits)

lemma fix_root_not_Tip: "fix_root t = Some t' \<Longrightarrow> t \<noteq> Tip \<and> t' \<noteq> Tip"
  by (cases t) (auto simp: node_def split: if_splits etree.splits)

lemma inorder_reb: "reb t C = Some t' \<Longrightarrow> inorder t' = left_of C @ inorder t @ right_of C"
proof (induction t C rule: reb.induct)
  case (1 t)
  then show ?case by (simp add: inorder_fix_root)
next
  case (2 t f C)
  then show ?case
    by (cases f) (auto simp: inorder_plug dest!: inorder_fix_root split: option.splits if_splits)
qed

section \<open>Height balance\<close>

fun avl :: "etree \<Rightarrow> bool" where
  "avl Tip \<longleftrightarrow> True"
| "avl (Bin l a d r) \<longleftrightarrow>
     avl l \<and> avl r \<and> d = max (dep l) (dep r) + 1 \<and> \<bar>dep l - dep r\<bar> \<le> 1"

lemma avl_dep_nonneg: "avl t \<Longrightarrow> 0 \<le> dep t"
  by (induction t) auto

lemma avl_dep_pos: "avl t \<Longrightarrow> t \<noteq> Tip \<Longrightarrow> 0 < dep t"
  by (cases t) (auto simp: max_def dest: avl_dep_nonneg)

lemma avl_node [simp]: "avl (node l a r) \<longleftrightarrow> avl l \<and> avl r \<and> \<bar>dep l - dep r\<bar> \<le> 1"
  by (auto simp: node_def)

lemma dep_node [simp]: "dep (node l a r) = max (dep l) (dep r) + 1"
  by (simp add: node_def)

lemma avl_BinD:
  assumes "avl (Bin l a d r)"
  shows "avl l" "avl r" "d = max (dep l) (dep r) + 1" "\<bar>dep l - dep r\<bar> \<le> 1"
    "0 \<le> dep l" "0 \<le> dep r"
  using assms avl_dep_nonneg by auto

lemma avl_dep_obtain:
  assumes "avl t" "0 < dep t"
  obtains l a d r where "t = Bin l a d r"
  using assms by (cases t) auto

lemma fix_root_left:
  assumes l: "avl l" and r: "avl r" and d: "dep l = dep r + 2"
  shows "\<exists>t'. fix_root (Bin l a d0 r) = Some t' \<and> avl t' \<and>
           (dep t' = dep l \<or> dep t' = dep l + 1)"
proof -
  from d avl_dep_nonneg[OF r] have "0 < dep l" by simp
  with l obtain ll la ld lr where l': "l = Bin ll la ld lr" by (rule avl_dep_obtain)
  note L = avl_BinD[OF l[unfolded l']]
  show ?thesis
  proof (cases "dep ll \<ge> dep lr")
    case True
    with L d l' have "dep ll = dep r + 1" by auto
    with avl_dep_nonneg[OF r] have "0 < dep ll" by simp
    with L(1) obtain x b c y where ll: "ll = Bin x b c y" by (rule avl_dep_obtain)
    note LL = avl_BinD[OF L(1)[unfolded ll]]
    show ?thesis
      using True L LL d r \<open>dep ll = dep r + 1\<close> by (auto simp: l' ll max_def split: if_splits)
  next
    case False
    with L d l' have "dep lr = dep r + 1" "dep ll = dep r" by auto
    with avl_dep_nonneg[OF r] have "0 < dep lr" by simp
    with L(2) obtain x b c y where lr: "lr = Bin x b c y" by (rule avl_dep_obtain)
    note LR = avl_BinD[OF L(2)[unfolded lr]]
    show ?thesis
      using False L LR d r \<open>dep lr = dep r + 1\<close> \<open>dep ll = dep r\<close>
      by (auto simp: l' lr max_def split: if_splits)
  qed
qed

lemma fix_root_right:
  assumes l: "avl l" and r: "avl r" and d: "dep r = dep l + 2"
  shows "\<exists>t'. fix_root (Bin l a d0 r) = Some t' \<and> avl t' \<and>
           (dep t' = dep r \<or> dep t' = dep r + 1)"
proof -
  from d avl_dep_nonneg[OF l] have "0 < dep r" by simp
  with r obtain rl ra rd rr where r': "r = Bin rl ra rd rr" by (rule avl_dep_obtain)
  note R = avl_BinD[OF r[unfolded r']]
  show ?thesis
  proof (cases "dep rl > dep rr")
    case False
    with R d r' have "dep rr = dep l + 1" by auto
    with avl_dep_nonneg[OF l] have "0 < dep rr" by simp
    with R(2) obtain x b c y where rr: "rr = Bin x b c y" by (rule avl_dep_obtain)
    note RR = avl_BinD[OF R(2)[unfolded rr]]
    show ?thesis
      using False R RR d l \<open>dep rr = dep l + 1\<close> by (auto simp: r' rr max_def split: if_splits)
  next
    case True
    with R d r' have "dep rl = dep l + 1" "dep rr = dep l" by auto
    with avl_dep_nonneg[OF l] have "0 < dep rl" by simp
    with R(1) obtain x b c y where rl: "rl = Bin x b c y" by (rule avl_dep_obtain)
    note RL = avl_BinD[OF R(1)[unfolded rl]]
    show ?thesis
      using True R RL d l \<open>dep rl = dep l + 1\<close> \<open>dep rr = dep l\<close>
      by (auto simp: r' rl max_def split: if_splits)
  qed
qed

text \<open>
  A single step repairs a tree whose subtrees are balanced and whose depths differ by at most two,
  and its depth is that of the deeper subtree or one more.
\<close>

lemma fix_root_avl:
  assumes "avl l" "avl r" "\<bar>dep l - dep r\<bar> \<le> 2"
  shows "\<exists>t'. fix_root (Bin l a d r) = Some t' \<and> avl t' \<and>
           (dep t' = max (dep l) (dep r) \<or> dep t' = max (dep l) (dep r) + 1) \<and>
           (\<bar>dep l - dep r\<bar> \<le> 1 \<longrightarrow> dep t' = max (dep l) (dep r) + 1)"
proof -
  consider "\<bar>dep l - dep r\<bar> \<le> 1" | "dep l = dep r + 2" | "dep r = dep l + 2"
    using assms(3) by linarith
  then show ?thesis
  proof cases
    case 1
    with assms show ?thesis by simp
  next
    case 2
    from fix_root_left[OF assms(1,2) 2, of a d] 2 show ?thesis by (auto simp: max_def)
  next
    case 3
    from fix_root_right[OF assms(1,2) 3, of a d] 3 show ?thesis by (auto simp: max_def)
  qed
qed

text \<open>
  A context is balanced for a hole of depth \<open>n\<close>. After an insertion or a removal the subtree in
  the hole is balanced again, but its depth may have changed by one; the walk repairs the rest.
\<close>

fun cavl :: "int \<Rightarrow> ctx \<Rightarrow> bool" where
  "cavl n [] \<longleftrightarrow> True"
| "cavl n (LFrame a d r # C) \<longleftrightarrow>
     avl r \<and> d = max n (dep r) + 1 \<and> \<bar>n - dep r\<bar> \<le> 1 \<and> cavl d C"
| "cavl n (RFrame l a d # C) \<longleftrightarrow>
     avl l \<and> d = max (dep l) n + 1 \<and> \<bar>dep l - n\<bar> \<le> 1 \<and> cavl d C"

lemma avl_plug: "avl (plug C t) \<longleftrightarrow> avl t \<and> cavl (dep t) C"
proof (induction C arbitrary: t)
  case (Cons f C)
  show ?case by (cases f) (auto simp: Cons.IH)
qed simp

definition reb_up :: "etree \<Rightarrow> ctx \<Rightarrow> etree option" where
  "reb_up t C = (case C of [] \<Rightarrow> Some t | f # C' \<Rightarrow> reb (plug1 f t) C')"

lemma inorder_reb_up: "reb_up t C = Some t' \<Longrightarrow> inorder t' = inorder (plug C t)"
proof (cases C)
  case (Cons f C')
  moreover assume "reb_up t C = Some t'"
  ultimately show ?thesis by (auto simp: reb_up_def inorder_plug dest: inorder_reb)
qed (simp add: reb_up_def)

lemma fix_root_plug1:
  assumes "avl t" "cavl n (f # C)" "\<bar>dep t - n\<bar> \<le> 1"
  obtains t' where "fix_root (plug1 f t) = Some t'" "avl t'"
    "\<bar>dep t' - dep (plug1 f t)\<bar> \<le> 1" "cavl (dep (plug1 f t)) C"
proof (cases f)
  case (LFrame a d r)
  with assms have r: "avl r" "d = max n (dep r) + 1" "\<bar>n - dep r\<bar> \<le> 1" "cavl d C" by auto
  with assms(3) have "\<bar>dep t - dep r\<bar> \<le> 2" by linarith
  from fix_root_avl[OF assms(1) r(1) this, of a d] r assms(3) show ?thesis
    by (auto simp: LFrame max_def split: if_splits intro!: that)
next
  case (RFrame l a d)
  with assms have l: "avl l" "d = max (dep l) n + 1" "\<bar>dep l - n\<bar> \<le> 1" "cavl d C" by auto
  with assms(3) have "\<bar>dep l - dep t\<bar> \<le> 2" by linarith
  from fix_root_avl[OF l(1) assms(1) this, of a d] l assms(3) show ?thesis
    by (auto simp: RFrame max_def split: if_splits intro!: that)
qed

lemma reb_avl:
  assumes "avl t" "cavl n (f # C)" "\<bar>dep t - n\<bar> \<le> 1"
  shows "\<exists>t'. reb (plug1 f t) C = Some t' \<and> avl t'"
  using assms
proof (induction C arbitrary: t n f)
  case Nil
  then obtain t' where "fix_root (plug1 f t) = Some t'" "avl t'" by (rule fix_root_plug1)
  then show ?case by simp
next
  case (Cons g C)
  from Cons.prems obtain t' where t': "fix_root (plug1 f t) = Some t'" "avl t'"
    "\<bar>dep t' - dep (plug1 f t)\<bar> \<le> 1" "cavl (dep (plug1 f t)) (g # C)"
    by (rule fix_root_plug1)
  show ?case
  proof (cases "dep t' = dep (plug1 f t)")
    case True
    with t' have "avl (plug (g # C) t')" by (simp only: avl_plug)
    with True t' show ?thesis by simp
  next
    case False
    with t' Cons.IH[OF t'(2,4,3)] show ?thesis by simp
  qed
qed

lemma reb_up_avl:
  assumes "avl t" "cavl n C" "\<bar>dep t - n\<bar> \<le> 1"
  shows "\<exists>t'. reb_up t C = Some t' \<and> avl t' \<and> inorder t' = inorder (plug C t)"
proof -
  have "\<exists>t'. reb_up t C = Some t' \<and> avl t'"
    using assms reb_avl[of t n] by (auto simp: reb_up_def split: list.splits)
  then show ?thesis using inorder_reb_up by blast
qed

end
