(* ===== verification/Tree_Heap.thy ===== *)
theory Tree_Heap
  imports Rebalance
begin

text \<open>
  The relation between the pointers of the store and the trees of \<^verbatim>\<open>Rebalance\<close>, and the
  refinement of the pointer program \<^verbatim>\<open>rebalance\<close> by the functional one.
\<close>

section \<open>Trees in the store\<close>

definition tnode :: "store \<Rightarrow> addr \<Rightarrow> addr \<Rightarrow> slot \<Rightarrow> int \<Rightarrow> addr \<Rightarrow> addr \<Rightarrow> bool" where
  "tnode h a p s d l r \<longleftrightarrow> a \<noteq> NULL \<and>
     (\<exists>e. exts h a = Some e \<and> parent e = p \<and> pivot e = s \<and> depth e = d \<and> left e = l \<and> right e = r)"

fun tr :: "store \<Rightarrow> addr \<Rightarrow> slot \<Rightarrow> etree \<Rightarrow> bool" where
  "tr h p s Tip \<longleftrightarrow> True"
| "tr h p s (Bin l a d r) \<longleftrightarrow>
     tnode h a p s d (root l) (root r) \<and> tr h a (SLeft a) l \<and> tr h a (SRight a) r"

fun ctr :: "store \<Rightarrow> addr \<Rightarrow> addr \<Rightarrow> ctx \<Rightarrow> bool" where
  "ctr h i x [] \<longleftrightarrow> (\<exists>n. inos h i = Some n \<and> flayout n = x)"
| "ctr h i x (LFrame a d r # C) \<longleftrightarrow>
     tnode h a (hole_parent C) (hole_slot i C) d x (root r) \<and> tr h a (SRight a) r \<and> ctr h i a C"
| "ctr h i x (RFrame l a d # C) \<longleftrightarrow>
     tnode h a (hole_parent C) (hole_slot i C) d (root l) x \<and> tr h a (SLeft a) l \<and> ctr h i a C"

text \<open>The whole tree of an inode: its root is \<^verbatim>\<open>inode->flayout\<close>.\<close>

definition ftr :: "store \<Rightarrow> addr \<Rightarrow> etree \<Rightarrow> bool" where
  "ftr h i t \<longleftrightarrow> ctr h i (root t) [] \<and> tr h NULL (SFlayout i) t"

lemma ftr_plug:
  "ftr h i (plug C t) \<longleftrightarrow> ctr h i (root t) C \<and> tr h (hole_parent C) (hole_slot i C) t"
proof (induction C arbitrary: t)
  case Nil
  then show ?case by (simp add: ftr_def)
next
  case (Cons f C)
  show ?case by (cases f) (auto simp: Cons.IH)
qed

lemma tr_not_NULL: "tr h p s t \<Longrightarrow> NULL \<notin> addrs t"
  by (induction t arbitrary: p s) (auto simp: tnode_def)

lemma tr_valid: "tr h p s t \<Longrightarrow> a \<in> addrs t \<Longrightarrow> valid h a"
  by (induction t arbitrary: p s) (auto simp: tnode_def valid_def)

lemma root_in [simp]: "t \<noteq> Tip \<Longrightarrow> root t \<in> addrs t"
  by (cases t) auto

lemma root_NULL: "NULL \<notin> addrs t \<Longrightarrow> root t = NULL \<longleftrightarrow> t = Tip"
  by (cases t) auto

lemma tr_root_NULL: "tr h p s t \<Longrightarrow> root t = NULL \<longleftrightarrow> t = Tip"
  using root_NULL[OF tr_not_NULL] .

lemma tr_cong:
  "(\<And>a. a \<in> addrs t \<Longrightarrow> exts h' a = exts h a) \<Longrightarrow> tr h' p s t = tr h p s t"
  by (induction t arbitrary: p s) (auto simp: tnode_def)

text \<open>A subtree whose root has been given a new parent and pivot.\<close>

lemma tr_reroot:
  assumes "tr h p s t" "distinct (inorder t)"
    and "\<And>a. a \<in> addrs t \<Longrightarrow> a \<noteq> root t \<Longrightarrow> exts h' a = exts h a"
    and "t \<noteq> Tip \<Longrightarrow>
      exts h' (root t) = map_option (\<lambda>e. e\<lparr>parent := p', pivot := s'\<rparr>) (exts h (root t))"
  shows "tr h' p' s' t"
proof (cases t)
  case (Bin l a d r)
  with assms(2) have "a \<notin> addrs l" "a \<notin> addrs r" by auto
  with assms(3) Bin have "tr h' a (SLeft a) l = tr h a (SLeft a) l"
    "tr h' a (SRight a) r = tr h a (SRight a) r"
    by (auto intro!: tr_cong)
  with assms(1,4) Bin show ?thesis by (auto simp: tnode_def)
qed simp

lemma ctr_cong:
  assumes "\<And>a. a \<in> set (ctx_addrs C) \<Longrightarrow> exts h' a = exts h a" "inos h' i = inos h i"
  shows "ctr h' i x C = ctr h i x C"
  using assms(1)
proof (induction C arbitrary: x)
  case Nil
  then show ?case by (simp add: assms(2))
next
  case (Cons f C)
  show ?case
  proof (cases f)
    case (LFrame a d r)
    with Cons have "ctr h' i a C = ctr h i a C" by auto
    moreover from LFrame Cons.prems have "tr h' a (SRight a) r = tr h a (SRight a) r"
      by (intro tr_cong) auto
    ultimately show ?thesis using LFrame Cons.prems by (simp add: tnode_def)
  next
    case (RFrame l a d)
    with Cons have "ctr h' i a C = ctr h i a C" by auto
    moreover from RFrame Cons.prems have "tr h' a (SLeft a) l = tr h a (SLeft a) l"
      by (intro tr_cong) auto
    ultimately show ?thesis using RFrame Cons.prems by (simp add: tnode_def)
  qed
qed

section \<open>Total versions of the writes\<close>

fun mod_slot :: "slot \<Rightarrow> addr \<Rightarrow> store \<Rightarrow> store" where
  "mod_slot SNull x h = h"
| "mod_slot (SFlayout i) x h = mod_ino i (flayout_update (\<lambda>_. x)) h"
| "mod_slot (SLeft a) x h = mod_ext a (left_update (\<lambda>_. x)) h"
| "mod_slot (SRight a) x h = mod_ext a (right_update (\<lambda>_. x)) h"

lemma write_slot_eval: "read_slot s h = Some y \<Longrightarrow> write_slot s x h = Some (mod_slot s x h)"
  by (cases s) (auto simp: mon valid_def)

lemma exts_mod_slot:
  "exts (mod_slot s x h) a =
     (if s = SLeft a then map_option (left_update (\<lambda>_. x)) (exts h a)
      else if s = SRight a then map_option (right_update (\<lambda>_. x)) (exts h a) else exts h a)"
  by (cases s) auto

lemma inos_mod_slot:
  "inos (mod_slot s x h) j =
     (if s = SFlayout j then map_option (flayout_update (\<lambda>_. x)) (inos h j) else inos h j)"
  by (cases s) auto

lemma read_slot_hole: "ctr h i x C \<Longrightarrow> read_slot (hole_slot i C) h = Some x"
  by (induction h i x C rule: ctr.induct) (auto simp: tnode_def)

lemma hole_slot_in:
  "hole_slot i C = SLeft a \<Longrightarrow> a \<in> set (ctx_addrs C)"
  "hole_slot i C = SRight a \<Longrightarrow> a \<in> set (ctx_addrs C)"
  by (induction i C rule: hole_slot.induct) auto

lemma hole_slot_not_SNull [simp]: "hole_slot i C \<noteq> SNull"
  by (induction i C rule: hole_slot.induct) auto

lemma ctr_mod_slot:
  assumes "ctr h i x C" "distinct (ctx_addrs C)"
  shows "ctr (mod_slot (hole_slot i C) y h) i y C"
  using assms
proof (cases C)
  case (Cons f C')
  show ?thesis
  proof (cases f)
    case (LFrame a d r)
    let ?h = "mod_ext a (left_update (\<lambda>_. y)) h"
    have "ctr ?h i a C' = ctr h i a C'" "tr ?h a (SRight a) r = tr h a (SRight a) r"
      using assms Cons LFrame by (intro ctr_cong tr_cong; auto)+
    with assms Cons LFrame show ?thesis by (auto simp: tnode_def)
  next
    case (RFrame l a d)
    let ?h = "mod_ext a (right_update (\<lambda>_. y)) h"
    have "ctr ?h i a C' = ctr h i a C'" "tr ?h a (SLeft a) l = tr h a (SLeft a) l"
      using assms Cons RFrame by (intro ctr_cong tr_cong; auto)+
    with assms Cons RFrame show ?thesis by (auto simp: tnode_def)
  qed
qed auto

lemma mod_ext_NULL: "null_ok h \<Longrightarrow> mod_ext NULL f h = h"
  by (simp add: mod_ext_def null_ok_def fun_upd_idem)

lemma set_up_eval:
  "null_ok h \<Longrightarrow> c = NULL \<or> valid h c \<Longrightarrow>
     set_up c p s h = Some (mod_ext c (\<lambda>e. e\<lparr>parent := p, pivot := s\<rparr>) h)"
  by (auto simp: set_up_def mod_ext_NULL upd_ext_eval simp del: upd_ext_Some)

lemma DEPTH_tr: "tr h p s t \<Longrightarrow> DEPTH h (root t) = Some (dep t)"
  by (cases t) (auto simp: DEPTH_def tnode_def)

text \<open>The depth read at an address is not affected by a write of other fields.\<close>

lemma DEPTH_cong:
  "map_option depth (exts h' x) = map_option depth (exts h x) \<Longrightarrow> DEPTH h' x = DEPTH h x"
  by (simp add: DEPTH_def)

section \<open>Changes that only concern the tree\<close>

text \<open>The fields of an extent that the tree operations leave alone.\<close>

definition core :: "extent \<Rightarrow> extent" where
  "core e = e\<lparr>depth := 0, parent := NULL, pivot := SNull, left := NULL, right := NULL\<rparr>"

lemma core_simps [simp]:
  "core (e\<lparr>left := x\<rparr>) = core e" "core (e\<lparr>right := x\<rparr>) = core e"
  "core (e\<lparr>parent := x\<rparr>) = core e" "core (e\<lparr>pivot := s\<rparr>) = core e"
  "core (e\<lparr>depth := d\<rparr>) = core e"
  by (simp_all add: core_def)

definition tree_change :: "addr \<Rightarrow> addr set \<Rightarrow> store \<Rightarrow> store \<Rightarrow> bool" where
  "tree_change i A h h' \<longleftrightarrow>
     h' = h\<lparr>exts := exts h', inos := inos h'\<rparr> \<and>
     (\<forall>a. a \<notin> A \<longrightarrow> exts h' a = exts h a) \<and>
     (\<forall>a. map_option core (exts h' a) = map_option core (exts h a)) \<and>
     (\<forall>j. j \<noteq> i \<longrightarrow> inos h' j = inos h j) \<and>
     map_option (flayout_update (\<lambda>_. NULL)) (inos h' i) =
       map_option (flayout_update (\<lambda>_. NULL)) (inos h i)"

lemma tree_change_refl: "tree_change i A h h"
  by (simp add: tree_change_def)

lemma tree_change_mono: "tree_change i A h h' \<Longrightarrow> A \<subseteq> B \<Longrightarrow> tree_change i B h h'"
  by (auto simp: tree_change_def)

lemma tree_change_trans:
  assumes "tree_change i A h1 h2" "tree_change i A h2 h3"
  shows "tree_change i A h1 h3"
proof -
  have "h3 = h1\<lparr>exts := exts h3, inos := inos h3\<rparr>"
  proof -
    have h2: "h2 = h1\<lparr>exts := exts h2, inos := inos h2\<rparr>"
      and h3: "h3 = h2\<lparr>exts := exts h3, inos := inos h3\<rparr>"
      using assms by (simp_all only: tree_change_def)
    have "h2\<lparr>exts := a, inos := b\<rparr> = h1\<lparr>exts := a, inos := b\<rparr>" for a b
      by (subst h2) simp
    with h3 show ?thesis by (rule trans)
  qed
  with assms show ?thesis by (simp add: tree_change_def)
qed

lemma tree_change_mod_ext:
  assumes "a \<in> A" "\<And>e. core (f e) = core e"
  shows "tree_change i A h (mod_ext a f h)"
  using assms by (auto simp: tree_change_def mod_ext_def option.map_comp comp_def)

lemma tree_change_mod_slot:
  assumes "\<And>a. s = SLeft a \<or> s = SRight a \<Longrightarrow> a \<in> A" "\<And>j. s = SFlayout j \<Longrightarrow> j = i"
  shows "tree_change i A h (mod_slot s x h)"
  using assms
  by (cases s) (auto simp: tree_change_def mod_ext_def mod_ino_def option.map_comp comp_def)

end
