(* ===== verification/Rebalance_Correct.thy ===== *)
theory Rebalance_Correct
  imports Tree_Heap
begin

text \<open>The pointer program \<^verbatim>\<open>rebalance\<close> computes the functional rebalancing.\<close>

section \<open>The surgery\<close>

text \<open>
  The store after the surgery, as the writes in their order. \<open>x\<close> is the link from the parent.
\<close>

definition rotated :: "slot \<Rightarrow> addr \<Rightarrow> rotation \<Rightarrow> int \<Rightarrow> int \<Rightarrow> store \<Rightarrow> store" where
  "rotated s p = (\<lambda>(T, L, R, LL, LR, RL, RR) dl dr h.
     mod_ext T (\<lambda>x. x\<lparr>depth := max dl dr + 1\<rparr>)
    (mod_ext R (\<lambda>x. x\<lparr>depth := dr\<rparr>)
    (mod_ext RR (\<lambda>e. e\<lparr>parent := R, pivot := SRight R\<rparr>)
    (mod_ext R (\<lambda>x. x\<lparr>right := RR\<rparr>)
    (mod_ext RL (\<lambda>e. e\<lparr>parent := R, pivot := SLeft R\<rparr>)
    (mod_ext R (\<lambda>x. x\<lparr>parent := T, pivot := SRight T, left := RL\<rparr>)
    (mod_ext L (\<lambda>x. x\<lparr>depth := dl\<rparr>)
    (mod_ext LR (\<lambda>e. e\<lparr>parent := L, pivot := SRight L\<rparr>)
    (mod_ext L (\<lambda>x. x\<lparr>right := LR\<rparr>)
    (mod_ext LL (\<lambda>e. e\<lparr>parent := L, pivot := SLeft L\<rparr>)
    (mod_ext L (\<lambda>x. x\<lparr>parent := T, pivot := SLeft T, left := LL\<rparr>)
    (mod_ext T (\<lambda>x. x\<lparr>left := L, right := R\<rparr>)
    (mod_slot s T
    (mod_ext T (\<lambda>x. x\<lparr>parent := p, pivot := s\<rparr>) h))))))))))))))"

lemma valid_mod_slot [simp]: "valid (mod_slot s x h) q = valid h q"
  by (simp add: valid_def exts_mod_slot)

lemma read_slot_mod_ext [simp]:
  "(\<And>e. left (f e) = left e) \<Longrightarrow> (\<And>e. right (f e) = right e) \<Longrightarrow>
     read_slot s (mod_ext p f h) = read_slot s h"
  by (cases s) (auto simp: option.map_comp comp_def)

lemma null_ok_mod_slot [simp]: "null_ok (mod_slot s x h) = null_ok h"
  by (simp add: null_ok_def exts_mod_slot)

text \<open>A depth survives the writes of the other fields.\<close>

lemma DEPTH_mod_ext [simp]:
  "(\<And>e. depth (f e) = depth e) \<Longrightarrow> DEPTH (mod_ext p f h) x = DEPTH h x"
  by (rule DEPTH_cong) (auto simp: option.map_comp comp_def)

lemma DEPTH_mod_ext_other: "x \<noteq> p \<Longrightarrow> DEPTH (mod_ext p f h) x = DEPTH h x"
  by (simp add: DEPTH_def)

lemma DEPTH_mod_slot [simp]: "DEPTH (mod_slot s x h) y = DEPTH h y"
  by (rule DEPTH_cong) (auto simp: exts_mod_slot option.map_comp comp_def)

lemma rotate_to_eval:
  assumes N: "null_ok h"
    and e: "exts h ext = Some e"
    and v: "valid h T" "valid h L" "valid h R"
    and d: "T \<noteq> L" "T \<noteq> R" "L \<noteq> R" "RL \<noteq> L" "RR \<noteq> L"
    and c: "LL = NULL \<or> valid h LL" "LR = NULL \<or> valid h LR"
      "RL = NULL \<or> valid h RL" "RR = NULL \<or> valid h RR"
    and s: "read_slot (pivot e) h = Some y"
    and D: "DEPTH h LL = Some d1" "DEPTH h LR = Some d2" "DEPTH h RL = Some d3" "DEPTH h RR = Some d4"
  shows "rotate_to ext (T, L, R, LL, LR, RL, RR) h =
    Some (rotated (pivot e) (parent e) (T, L, R, LL, LR, RL, RR) (max d1 d2 + 1) (max d3 d4 + 1) h)"
proof -
  note ev = upd_ext_eval set_up_eval write_slot_eval
  show ?thesis
    using assms
    by (simp add: rotate_to_def rotated_def ev DEPTH_mod_ext_other fld_mod_ext_other
        fld_mod_ext_same fld_mod_ext_keep del: exts_mod_ext)
qed

lemma root_notin: "NULL \<notin> A \<Longrightarrow> addrs t \<inter> A = {} \<Longrightarrow> root t \<notin> A"
  by (cases t) auto

lemma root_neq: "a \<noteq> NULL \<Longrightarrow> a \<notin> addrs t \<Longrightarrow> root t \<noteq> a"
  by (cases t) auto

text \<open>Framing of trees and contexts under single writes.\<close>

lemma tr_frame [simp]: "p \<notin> addrs t \<Longrightarrow> tr (mod_ext p f h) q s t = tr h q s t"
  by (intro tr_cong) auto

lemma tr_mod_ino [simp]: "tr (mod_ino j f h) q s t = tr h q s t"
  by (intro tr_cong) auto

lemma tr_mod_slot:
  "(\<And>a. s' = SLeft a \<or> s' = SRight a \<Longrightarrow> a \<notin> addrs t) \<Longrightarrow> tr (mod_slot s' x h) q s t = tr h q s t"
  by (intro tr_cong) (auto simp: exts_mod_slot)

lemma tr_relink:
  assumes "tr h q0 s0 t" "distinct (inorder t)" "null_ok h"
  shows "tr (mod_ext (root t) (\<lambda>e. e\<lparr>parent := q, pivot := s\<rparr>) h) q s t"
proof (rule tr_reroot[OF assms(1,2)])
  show "t \<noteq> Tip \<Longrightarrow> exts (mod_ext (root t) (\<lambda>e. e\<lparr>parent := q, pivot := s\<rparr>) h) (root t) =
    map_option (\<lambda>e. e\<lparr>parent := q, pivot := s\<rparr>) (exts h (root t))" by simp
qed auto

lemma ctr_frame [simp]: "p \<notin> set (ctx_addrs C) \<Longrightarrow> ctr (mod_ext p f h) i x C = ctr h i x C"
  by (intro ctr_cong) auto

lemma ctr_not_NULL: "ctr h i x C \<Longrightarrow> NULL \<notin> set (ctx_addrs C)"
  by (induction h i x C rule: ctr.induct) (auto simp: tnode_def dest: tr_not_NULL)

lemma tnode_iff:
  "tnode h a p s d l r \<longleftrightarrow> a \<noteq> NULL \<and> fld parent h a = Some p \<and> fld pivot h a = Some s \<and>
     fld depth h a = Some d \<and> fld left h a = Some l \<and> fld right h a = Some r"
  by (auto simp: tnode_def fld_def)

lemma fld_mod_slot:
  "s \<noteq> SLeft a \<Longrightarrow> s \<noteq> SRight a \<Longrightarrow> fld g (mod_slot s x h) a = fld g h a"
  by (simp add: fld_def exts_mod_slot)

text \<open>The pieces of a rotation are pairwise disjoint.\<close>

definition apart :: "addr \<Rightarrow> addr \<Rightarrow> addr \<Rightarrow> etree \<Rightarrow> etree \<Rightarrow> etree \<Rightarrow> etree \<Rightarrow> addr set \<Rightarrow> bool" where
  "apart T L R a b c d C \<longleftrightarrow> T \<noteq> L \<and> T \<noteq> R \<and> L \<noteq> R \<and> {T, L, R} \<inter> C = {} \<and>
     (\<forall>t \<in> {a, b, c, d}. {T, L, R} \<inter> addrs t = {} \<and> addrs t \<inter> C = {} \<and> NULL \<notin> addrs t) \<and>
     addrs a \<inter> addrs b = {} \<and> addrs a \<inter> addrs c = {} \<and> addrs a \<inter> addrs d = {} \<and>
     addrs b \<inter> addrs c = {} \<and> addrs b \<inter> addrs d = {} \<and> addrs c \<inter> addrs d = {} \<and>
     NULL \<notin> {T, L, R} \<union> C"

lemma apart_roots:
  assumes "apart T L R a b c d C"
  shows "root b \<notin> addrs a" "root c \<notin> addrs a" "root d \<notin> addrs a"
    "root a \<notin> addrs b" "root c \<notin> addrs b" "root d \<notin> addrs b"
    "root a \<notin> addrs c" "root b \<notin> addrs c" "root d \<notin> addrs c"
    "root a \<notin> addrs d" "root b \<notin> addrs d" "root c \<notin> addrs d"
    "root a \<notin> C" "root b \<notin> C" "root c \<notin> C" "root d \<notin> C"
    "root a \<notin> {T, L, R}" "root b \<notin> {T, L, R}" "root c \<notin> {T, L, R}" "root d \<notin> {T, L, R}"
  using assms by (simp_all add: apart_def root_notin root_neq Int_commute)

lemma apart_nodes:
  assumes "apart T L R a b c d C"
  shows "T \<noteq> L" "T \<noteq> R" "L \<noteq> R" "L \<noteq> T" "R \<noteq> T" "R \<noteq> L" "T \<notin> C" "L \<notin> C" "R \<notin> C"
    "T \<notin> addrs a" "T \<notin> addrs b" "T \<notin> addrs c" "T \<notin> addrs d"
    "L \<notin> addrs a" "L \<notin> addrs b" "L \<notin> addrs c" "L \<notin> addrs d"
    "R \<notin> addrs a" "R \<notin> addrs b" "R \<notin> addrs c" "R \<notin> addrs d" "T \<noteq> NULL" "L \<noteq> NULL" "R \<noteq> NULL"
  using assms by (auto simp: apart_def)

lemma apart_slot:
  assumes "apart T L R a b c d (set (ctx_addrs C))" "t \<in> {a, b, c, d}"
    "hole_slot i C = SLeft x \<or> hole_slot i C = SRight x"
  shows "x \<notin> addrs t"
  using assms hole_slot_in[of i C x] unfolding apart_def by blast

text \<open>The situation before a rotation: four subtrees, three extents, and the context.\<close>

definition rot_pre ::
  "store \<Rightarrow> addr \<Rightarrow> addr \<Rightarrow> ctx \<Rightarrow> addr \<Rightarrow> addr \<Rightarrow> addr \<Rightarrow> etree \<Rightarrow> etree \<Rightarrow> etree \<Rightarrow> etree \<Rightarrow> bool" where
  "rot_pre h i x C T L R a b c d \<longleftrightarrow>
     (\<forall>t \<in> {a, b, c, d}. (\<exists>p s. tr h p s t) \<and> distinct (inorder t)) \<and>
     ctr h i x C \<and> distinct (ctx_addrs C) \<and> null_ok h \<and> valid h T \<and> valid h L \<and> valid h R \<and>
     apart T L R a b c d (set (ctx_addrs C))"

definition rot_post :: "addr \<Rightarrow> ctx \<Rightarrow> addr \<Rightarrow> addr \<Rightarrow> addr \<Rightarrow> etree \<Rightarrow> etree \<Rightarrow> etree \<Rightarrow> etree \<Rightarrow> store \<Rightarrow> store"
where
  "rot_post i C T L R a b c d h =
     rotated (hole_slot i C) (hole_parent C) (T, L, R, root a, root b, root c, root d)
       (max (dep a) (dep b) + 1) (max (dep c) (dep d) + 1) h"

lemmas rot_post_unfold = rot_post_def rotated_def prod.case

lemma rotated_subtrees:
  assumes "rot_pre h i x C T L R a b c d"
  defines "h' \<equiv> rot_post i C T L R a b c d h"
  shows "tr h' L (SLeft L) a" "tr h' L (SRight L) b" "tr h' R (SLeft R) c" "tr h' R (SRight R) d"
proof -
  from assms have ap: "apart T L R a b c d (set (ctx_addrs C))" and N: "null_ok h"
    by (auto simp: rot_pre_def)
  note F = apart_roots[OF ap] apart_nodes[OF ap] apart_slot[OF ap]
  from assms obtain p s where a: "tr h p s a" "distinct (inorder a)" by (auto simp: rot_pre_def)
  show "tr h' L (SLeft L) a" using F unfolding h'_def rot_post_unfold
    by (simp add: tr_relink[where ?q0.0 = p and ?s0.0 = s] tr_mod_slot a N)
  from assms obtain p s where b: "tr h p s b" "distinct (inorder b)" by (auto simp: rot_pre_def)
  show "tr h' L (SRight L) b" using F unfolding h'_def rot_post_unfold
    by (simp add: tr_relink[where ?q0.0 = p and ?s0.0 = s] tr_mod_slot b N)
  from assms obtain p s where c: "tr h p s c" "distinct (inorder c)" by (auto simp: rot_pre_def)
  show "tr h' R (SLeft R) c" using F unfolding h'_def rot_post_unfold
    by (simp add: tr_relink[where ?q0.0 = p and ?s0.0 = s] tr_mod_slot c N)
  from assms obtain p s where d: "tr h p s d" "distinct (inorder d)" by (auto simp: rot_pre_def)
  show "tr h' R (SRight R) d" using F unfolding h'_def rot_post_unfold
    by (simp add: tr_relink[where ?q0.0 = p and ?s0.0 = s] tr_mod_slot d N)
qed

lemma rotated_ctr:
  assumes "rot_pre h i x C T L R a b c d"
  shows "ctr (rot_post i C T L R a b c d h) i T C"
proof -
  from assms have ap: "apart T L R a b c d (set (ctx_addrs C))"
    and C: "ctr h i x C" "distinct (ctx_addrs C)"
    by (auto simp: rot_pre_def)
  have "ctr (mod_ext T (\<lambda>x. x\<lparr>parent := hole_parent C, pivot := hole_slot i C\<rparr>) h) i x C"
    using C(1) apart_nodes[OF ap] by simp
  from ctr_mod_slot[OF this C(2), of T] show ?thesis
    using apart_roots[OF ap] apart_nodes[OF ap]
    unfolding rot_post_unfold by simp
qed

lemma rotated_nodes:
  assumes "rot_pre h i x C T L R a b c d"
  defines "h' \<equiv> rot_post i C T L R a b c d h"
  shows "tnode h' L T (SLeft T) (max (dep a) (dep b) + 1) (root a) (root b)"
    "tnode h' R T (SRight T) (max (dep c) (dep d) + 1) (root c) (root d)"
    "tnode h' T (hole_parent C) (hole_slot i C)
       (max (max (dep a) (dep b) + 1) (max (dep c) (dep d) + 1) + 1) L R"
proof -
  from assms have ap: "apart T L R a b c d (set (ctx_addrs C))"
    and v: "valid h T" "valid h L" "valid h R" by (auto simp: rot_pre_def)
  have ns: "hole_slot i C \<noteq> SLeft T" "hole_slot i C \<noteq> SLeft L" "hole_slot i C \<noteq> SLeft R"
    "hole_slot i C \<noteq> SRight T" "hole_slot i C \<noteq> SRight L" "hole_slot i C \<noteq> SRight R"
    using apart_nodes[OF ap] hole_slot_in[of i C] by blast+
  have nr: "q \<noteq> root t" if "t \<in> {a, b, c, d}" "q \<in> {T, L, R}" for q t
    using apart_roots(17-20)[OF ap] that by blast
  note F = apart_nodes[OF ap] ns v nr[of a, simplified] nr[of b, simplified] nr[of c, simplified]
    nr[of d, simplified]
  note fl = fld_mod_ext_other fld_mod_ext_same fld_mod_ext_keep fld_mod_slot
  show "tnode h' L T (SLeft T) (max (dep a) (dep b) + 1) (root a) (root b)"
    using F unfolding tnode_iff h'_def rot_post_unfold by (simp add: fl)
  show "tnode h' R T (SRight T) (max (dep c) (dep d) + 1) (root c) (root d)"
    using F unfolding tnode_iff h'_def rot_post_unfold by (simp add: fl)
  show "tnode h' T (hole_parent C) (hole_slot i C)
       (max (max (dep a) (dep b) + 1) (max (dep c) (dep d) + 1) + 1) L R"
    using F unfolding tnode_iff h'_def rot_post_unfold by (simp add: fl)
qed

definition rot_addrs :: "ctx \<Rightarrow> addr \<Rightarrow> addr \<Rightarrow> addr \<Rightarrow> etree \<Rightarrow> etree \<Rightarrow> etree \<Rightarrow> etree \<Rightarrow> addr set"
where
  "rot_addrs C T L R a b c d =
     {NULL, T, L, R} \<union> addrs a \<union> addrs b \<union> addrs c \<union> addrs d \<union> set (ctx_addrs C)"

lemma root_cases: "root t = NULL \<or> root t \<in> addrs t"
  by (cases t) auto

lemma rotated_change:
  assumes "rot_pre h i x C T L R a b c d"
  shows "tree_change i (rot_addrs C T L R a b c d) h (rot_post i C T L R a b c d h)"
proof -
  let ?A = "rot_addrs C T L R a b c d"
  have r: "root a \<in> ?A" "root b \<in> ?A" "root c \<in> ?A" "root d \<in> ?A" "T \<in> ?A" "L \<in> ?A" "R \<in> ?A"
    using root_cases[of a] root_cases[of b] root_cases[of c] root_cases[of d]
    by (auto simp: rot_addrs_def)
  have s: "tree_change i ?A k (mod_slot (hole_slot i C) y k)" for y k
    by (rule tree_change_mod_slot)
      (auto simp: rot_addrs_def dest: hole_slot_in elim: hole_slot.elims)
  have step: "tree_change i ?A h k \<Longrightarrow> p \<in> ?A \<Longrightarrow> (\<And>e. core (f e) = core e) \<Longrightarrow>
      tree_change i ?A h (mod_ext p f k)" for p f k
    by (erule tree_change_trans) (rule tree_change_mod_ext)
  have step_slot: "tree_change i ?A h k \<Longrightarrow> tree_change i ?A h (mod_slot (hole_slot i C) y k)" for y k
    by (erule tree_change_trans) (rule s)
  show ?thesis
    unfolding rot_post_unfold by (intro step step_slot tree_change_refl r) simp_all
qed

lemma rotate_correct:
  assumes pre: "rot_pre h i x C T L R a b c d"
    and e: "exts h ext = Some e" "parent e = hole_parent C" "pivot e = hole_slot i C"
  defines "h' \<equiv> rot_post i C T L R a b c d h"
  shows "rotate_to ext (T, L, R, root a, root b, root c, root d) h = Some h'"
    and "tr h' (hole_parent C) (hole_slot i C) (node (node a L b) T (node c R d))"
proof -
  from pre have ap: "apart T L R a b c d (set (ctx_addrs C))" and C: "ctr h i x C"
    and v: "valid h T" "valid h L" "valid h R" and N: "null_ok h" by (auto simp: rot_pre_def)
  have t: "(root t = NULL \<or> valid h (root t)) \<and> DEPTH h (root t) = Some (dep t)"
    if "t \<in> {a, b, c, d}" for t
  proof -
    from pre that obtain p s where "tr h p s t" by (auto simp: rot_pre_def)
    then show ?thesis using DEPTH_tr tr_valid root_cases by blast
  qed
  have nr: "root c \<noteq> L" "root d \<noteq> L" using apart_roots(17-20)[OF ap] by blast+
  have "rotate_to ext (T, L, R, root a, root b, root c, root d) h =
    Some (rotated (pivot e) (parent e) (T, L, R, root a, root b, root c, root d)
      (max (dep a) (dep b) + 1) (max (dep c) (dep d) + 1) h)"
    by (rule rotate_to_eval[OF N e(1) v apart_nodes(1-3)[OF ap] nr])
      (use t read_slot_hole[OF C] e in auto)
  then show "rotate_to ext (T, L, R, root a, root b, root c, root d) h = Some h'"
    by (simp add: h'_def rot_post_def e)
  show "tr h' (hole_parent C) (hole_slot i C) (node (node a L b) T (node c R d))"
    using rotated_subtrees[OF pre] rotated_nodes[OF pre] by (simp add: node_def h'_def)
qed

section \<open>One step of the loop\<close>

text \<open>
  A focused view of an inode's tree: the subtree \<open>t\<close> in the context \<open>C\<close>.
\<close>

definition focus :: "store \<Rightarrow> addr \<Rightarrow> etree \<Rightarrow> ctx \<Rightarrow> bool" where
  "focus h i t C \<longleftrightarrow> ctr h i (root t) C \<and> tr h (hole_parent C) (hole_slot i C) t \<and>
     distinct (inorder t @ ctx_addrs C) \<and> null_ok h"

lemma null_ok_change: "tree_change i A h h' \<Longrightarrow> null_ok h' = null_ok h"
  by (auto simp: tree_change_def null_ok_def dest!: spec[of _ NULL])

lemma focus_rotate:
  assumes f: "focus h i t C" and t': "t' = node (node a L b) T (node c R d)"
    and io: "inorder t' = inorder t"
    and sub: "\<And>u. u \<in> {a, b, c, d} \<Longrightarrow> \<exists>p s. tr h p s u"
    and e: "exts h (root t) = Some e"
  shows "\<exists>h'. rotate_to (root t) (T, L, R, root a, root b, root c, root d) h = Some h' \<and>
    focus h' i t' C \<and> tree_change i (insert NULL (addrs t \<union> set (ctx_addrs C))) h h'"
proof -
  have tC: "ctr h i (root t) C" "tr h (hole_parent C) (hole_slot i C) t" "null_ok h"
    and dt: "distinct (inorder t @ ctx_addrs C)" using f by (auto simp: focus_def)
  from dt io have d: "distinct (inorder t' @ ctx_addrs C)" by simp
  have n: "NULL \<notin> addrs t'" "NULL \<notin> set (ctx_addrs C)"
    using tr_not_NULL[OF tC(2)] ctr_not_NULL[OF tC(1)] io by simp_all
  have "apart T L R a b c d (set (ctx_addrs C))"
    using d n by (auto simp: apart_def t')
  moreover have "valid h T" "valid h L" "valid h R"
    using tr_valid[OF tC(2)] io[symmetric] t' by auto
  moreover have "distinct (inorder u)" if "u \<in> {a, b, c, d}" for u using that d t' by auto
  ultimately have pre: "rot_pre h i (root t) C T L R a b c d"
    using tC sub d by (auto simp: rot_pre_def)
  have ne: "t \<noteq> Tip" using io t' by (cases t) auto
  have e': "parent e = hole_parent C" "pivot e = hole_slot i C"
    using ne tC(2) e by (cases t; auto simp: tnode_def)+
  let ?h = "rot_post i C T L R a b c d h"
  have ch: "tree_change i (insert NULL (addrs t \<union> set (ctx_addrs C))) h ?h"
    by (rule tree_change_mono[OF rotated_change[OF pre]])
      (auto simp: rot_addrs_def io[symmetric] t')
  have "focus ?h i t' C"
    unfolding focus_def using rotated_ctr[OF pre] rotate_correct(2)[OF pre e e'] d
      null_ok_change[OF ch] tC(3)
    by (simp add: t') (simp add: node_def)
  with rotate_correct(1)[OF pre e e'] ch show ?thesis by blast
qed

lemma tnodeE:
  assumes "tnode h a p s d l r"
  obtains e where "exts h a = Some e" "a \<noteq> NULL" "parent e = p" "pivot e = s" "depth e = d"
    "left e = l" "right e = r"
  using assms by (auto simp: tnode_def)

text \<open>The rotation that the code chooses is the one of the functional version.\<close>

lemma choose_rotation_correct:
  assumes t: "tr h p s (Bin l x dx r)"
    and f: "fix_root (Bin l x dx r) = Some t'" and big: "\<bar>dep l - dep r\<bar> > 1"
  shows "\<exists>T L R a b c d. choose_rotation x (dep l) (dep r) h =
      Some (T, L, R, root a, root b, root c, root d) \<and>
    t' = node (node a L b) T (node c R d) \<and>
    (\<forall>u \<in> {a, b, c, d}. \<exists>p s. tr h p s u)"
proof -
  from t obtain e where e: "exts h x = Some e" "left e = root l" "right e = root r"
    by (auto simp: tnode_def)
  have l: "tr h x (SLeft x) l" and r: "tr h x (SRight x) r" using t by auto
  consider (LL) ll la ld lr y b c z where "dep l > dep r" "l = Bin ll la ld lr" "dep ll \<ge> dep lr"
      "ll = Bin y b c z" "t' = node (node y b z) la (node lr x r)"
    | (LR) ll la ld lr y b c z where "dep l > dep r" "l = Bin ll la ld lr" "dep ll < dep lr"
      "lr = Bin y b c z" "t' = node (node ll la y) b (node z x r)"
    | (RL) rl ra rd rr y b c z where "dep l < dep r" "r = Bin rl ra rd rr" "dep rl > dep rr"
      "rl = Bin y b c z" "t' = node (node l x y) b (node z ra rr)"
    | (RR) rl ra rd rr y b c z where "dep l < dep r" "r = Bin rl ra rd rr" "dep rl \<le> dep rr"
      "rr = Bin y b c z" "t' = node (node l x rl) ra (node y b z)"
    using f big by (auto split: if_splits etree.splits)
  then show ?thesis
  proof cases
    case LL
    with l obtain le lle where le: "exts h la = Some le" "left le = b" "right le = root lr"
      "exts h b = Some lle" "left lle = root y" "right lle = root z"
      by (auto simp: tnode_def)
    have "DEPTH h b = Some (dep ll)" "DEPTH h (root lr) = Some (dep lr)"
      using l LL DEPTH_tr[of h la "SLeft la" ll] DEPTH_tr[of h la "SRight la" lr] by auto
    with LL e le have "choose_rotation x (dep l) (dep r) h =
        Some (la, b, x, root y, root z, root lr, root r)"
      by (simp add: choose_rotation_def)
    with LL l r show ?thesis by (intro exI conjI) (assumption | auto)+
  next
    case LR
    with l obtain le lre where le: "exts h la = Some le" "left le = root ll" "right le = b"
      "exts h b = Some lre" "left lre = root y" "right lre = root z"
      by (auto simp: tnode_def)
    have "DEPTH h (root ll) = Some (dep ll)" "DEPTH h b = Some (dep lr)"
      using l LR DEPTH_tr[of h la "SLeft la" ll] DEPTH_tr[of h la "SRight la" lr] by auto
    with LR e le have "choose_rotation x (dep l) (dep r) h =
        Some (b, la, x, root ll, root y, root z, root r)"
      by (simp add: choose_rotation_def)
    with LR l r show ?thesis by (intro exI conjI) (assumption | auto)+
  next
    case RL
    with r obtain re rle where re: "exts h ra = Some re" "left re = b" "right re = root rr"
      "exts h b = Some rle" "left rle = root y" "right rle = root z"
      by (auto simp: tnode_def)
    have "DEPTH h b = Some (dep rl)" "DEPTH h (root rr) = Some (dep rr)"
      using r RL DEPTH_tr[of h ra "SLeft ra" rl] DEPTH_tr[of h ra "SRight ra" rr] by auto
    with RL e re have "choose_rotation x (dep l) (dep r) h =
        Some (b, x, ra, root l, root y, root z, root rr)"
      by (simp add: choose_rotation_def)
    with RL l r show ?thesis by (intro exI conjI) (assumption | auto)+
  next
    case RR
    with r obtain re rre where re: "exts h ra = Some re" "left re = root rl" "right re = b"
      "exts h b = Some rre" "left rre = root y" "right rre = root z"
      by (auto simp: tnode_def)
    have "DEPTH h (root rl) = Some (dep rl)" "DEPTH h b = Some (dep rr)"
      using r RR DEPTH_tr[of h ra "SLeft ra" rl] DEPTH_tr[of h ra "SRight ra" rr] by auto
    with RR e re have "choose_rotation x (dep l) (dep r) h =
        Some (ra, x, b, root l, root rl, root y, root z)"
      by (simp add: choose_rotation_def)
    with RR l r show ?thesis by (intro exI conjI) (assumption | auto)+
  qed
qed

lemma fix_root_imbalance:
  "fix_root (Bin l x dx r) = Some t' \<Longrightarrow> \<bar>dep l - dep r\<bar> > 1 \<Longrightarrow> \<bar>dep l - dep r\<bar> = 2"
  by (auto split: if_splits)

lemma rebalance_step_correct:
  assumes f: "focus h i t C" and fx: "fix_root t = Some t'"
  shows "\<exists>h'. rebalance_step (root t) h = Some (root t', h') \<and> focus h' i t' C \<and>
    tree_change i (insert NULL (addrs t \<union> set (ctx_addrs C))) h h'"
proof -
  from fx obtain l x dx r where t: "t = Bin l x dx r" by (cases t) auto
  from f t obtain e where e: "exts h x = Some e" "left e = root l" "right e = root r"
    by (auto simp: focus_def tnode_def)
  have D: "DEPTH h (root l) = Some (dep l)" "DEPTH h (root r) = Some (dep r)"
    using f t DEPTH_tr[of h x "SLeft x" l] DEPTH_tr[of h x "SRight x" r] by (auto simp: focus_def)
  show ?thesis
  proof (cases "\<bar>dep l - dep r\<bar> > 1")
    case True
    from f t have "tr h (hole_parent C) (hole_slot i C) (Bin l x dx r)" by (simp add: focus_def)
    from choose_rotation_correct[OF this fx[unfolded t] True]
    obtain T L R a b c d where ch: "choose_rotation x (dep l) (dep r) h =
        Some (T, L, R, root a, root b, root c, root d)"
      and t': "t' = node (node a L b) T (node c R d)" and sub: "\<forall>u \<in> {a, b, c, d}. \<exists>p s. tr h p s u"
      by blast
    have "exts h (root t) = Some e" using e t by simp
    from focus_rotate[OF f t' inorder_fix_root[OF fx] sub[rule_format] this]
    obtain h' where h': "rotate_to x (T, L, R, root a, root b, root c, root d) h = Some h'"
      "focus h' i t' C" "tree_change i (insert NULL (addrs t \<union> set (ctx_addrs C))) h h'"
      using t by auto
    moreover have "root t' = T" by (simp add: t' node_def)
    ultimately show ?thesis
      using True e D ch fix_root_imbalance[OF fx[unfolded t] True]
      by (simp add: rebalance_step_def t)
  next
    case False
    let ?h = "mod_ext x (\<lambda>e. e\<lparr>depth := max (dep l) (dep r) + 1\<rparr>) h"
    from False fx t have t': "t' = node l x r" by simp
    have "valid h x" using e by (simp add: valid_def)
    then have "rebalance_step (root t) h = Some (root t', ?h)"
      using False e D by (simp add: rebalance_step_def t t' node_def upd_ext_eval)
    moreover have "focus ?h i t' C"
      using f e by (auto simp: focus_def t t' node_def tnode_def)
    moreover have "tree_change i (insert NULL (addrs t \<union> set (ctx_addrs C))) h ?h"
      by (rule tree_change_mod_ext) (auto simp: t)
    ultimately show ?thesis by blast
  qed
qed

section \<open>The loop\<close>

lemma focus_up:
  "focus h i t (f # C) \<longleftrightarrow> focus h i (plug1 f t) C"
  by (cases f) (auto simp: focus_def)

lemma focus_plug: "focus h i (plug C t) [] \<longleftrightarrow> focus h i t C"
  by (induction C arbitrary: t) (simp_all add: focus_up)

lemma focus_root_parent:
  assumes "focus h i t C" "t \<noteq> Tip"
  shows "\<exists>e. exts h (root t) = Some e \<and> root t \<noteq> NULL \<and> depth e = dep t \<and> parent e = hole_parent C"
  using assms by (cases t) (auto simp: focus_def tnode_def)

lemma root_plug1 [simp]: "root (plug1 f t) = faddr f"
  by (cases f) auto

lemma rebalance_reb:
  assumes "focus h i t C" "reb t C = Some T"
  shows "\<exists>h'. rebalance (root t) h = Some h' \<and> focus h' i T [] \<and>
    tree_change i (insert NULL (addrs t \<union> set (ctx_addrs C))) h h'"
  using assms
proof (induction t C arbitrary: h rule: reb.induct)
  case (1 t)
  then have ne: "t \<noteq> Tip" "T \<noteq> Tip" using fix_root_not_Tip by simp_all
  from rebalance_step_correct[OF 1(1)] 1(2)
  obtain h' where h': "rebalance_step (root t) h = Some (root T, h')" "focus h' i T []"
    "tree_change i (insert NULL (addrs t \<union> set (ctx_addrs []))) h h'" by auto
  from focus_root_parent[OF 1(1) ne(1)] focus_root_parent[OF h'(2) ne(2)] h'
  show ?case by (auto simp: rebalance.simps[of "root t"] rebalance.simps[of NULL])
next
  case (2 t f C)
  then obtain t' where t': "fix_root t = Some t'" by (auto split: option.splits)
  then have ne: "t \<noteq> Tip" "t' \<noteq> Tip" using fix_root_not_Tip by simp_all
  from rebalance_step_correct[OF 2(2) t']
  obtain h' where h': "rebalance_step (root t) h = Some (root t', h')" "focus h' i t' (f # C)"
    "tree_change i (insert NULL (addrs t \<union> set (ctx_addrs (f # C)))) h h'" by auto
  note P = focus_root_parent[OF 2(2) ne(1)] focus_root_parent[OF h'(2) ne(2)]
  show ?case
  proof (cases "dep t' = dep t")
    case True
    with t' 2(3) have "T = plug (f # C) t'" by simp
    with h'(2) have "focus h' i T []" by (simp only: focus_plug)
    with True P h' show ?thesis by (auto simp: rebalance.simps[of "root t"])
  next
    case False
    with t' 2(3) have T: "reb (plug1 f t') C = Some T" by simp
    have "focus h' i (plug1 f t') C" using h'(2) by (simp add: focus_up)
    from 2(1)[OF t' False this T] obtain h'' where h'':
      "rebalance (faddr f) h' = Some h''" "focus h'' i T []"
      "tree_change i (insert NULL (addrs (plug1 f t') \<union> set (ctx_addrs C))) h' h''" by auto
    have "addrs (plug1 f t') \<union> set (ctx_addrs C) = addrs t \<union> set (ctx_addrs (f # C))"
      using inorder_fix_root[OF t'] by (cases f) auto
    with h''(3) h'(3) have "tree_change i (insert NULL (addrs t \<union> set (ctx_addrs (f # C)))) h h''"
      by (auto intro: tree_change_trans)
    moreover have "rebalance (root t) h = Some h''"
      using False P h' h'' by (auto simp: rebalance.simps[of "root t"])
    ultimately show ?thesis using h''(2) by blast
  qed
qed

text \<open>
  The call \<^verbatim>\<open>rebalance(x->parent)\<close> that follows a change of the subtree in a hole.
\<close>

lemma rebalance_reb_up:
  assumes "focus h i t C" "reb_up t C = Some T"
  shows "\<exists>h'. rebalance (hole_parent C) h = Some h' \<and> focus h' i T [] \<and>
    tree_change i (insert NULL (addrs t \<union> set (ctx_addrs C))) h h'"
proof (cases C)
  case Nil
  with assms show ?thesis
    by (auto simp: reb_up_def rebalance.simps[of NULL] intro: tree_change_refl)
next
  case (Cons f C')
  with assms have "focus h i (plug1 f t) C'" "reb (plug1 f t) C' = Some T"
    by (simp_all add: reb_up_def focus_up)
  from rebalance_reb[OF this] obtain h' where "rebalance (faddr f) h = Some h'" "focus h' i T []"
    "tree_change i (insert NULL (addrs (plug1 f t) \<union> set (ctx_addrs C'))) h h'" by auto
  moreover have "addrs (plug1 f t) \<union> set (ctx_addrs C') = addrs t \<union> set (ctx_addrs C)"
    by (cases f) (auto simp: Cons)
  ultimately show ?thesis using Cons by auto
qed

end
