(* ===== verification/Extents.thy ===== *)
theory Extents
  imports Rebalance_Correct Uthash
begin

text \<open>
  The operations on single extents and data objects of \<^verbatim>\<open>incont.c\<close>. The call graph of the C code
  is cyclic on paper (\<^verbatim>\<open>release_extent\<close> calls \<^verbatim>\<open>remove_dobject\<close>, which calls
  \<^verbatim>\<open>remove_extent\<close>, which calls \<^verbatim>\<open>release_extent\<close>), but with \<^verbatim>\<open>triggered = 0\<close> a
  release never goes on to the data object; the part of a release before that decision is
  \<open>unref_extent\<close> and the part of a removal before the release is \<open>unlink_extent\<close>.
\<close>

section \<open>Reference lists\<close>

partial_function (option) count_refs :: "addr \<Rightarrow> store \<Rightarrow> u32 option" where
  "count_refs r h = (if r = NULL then Some 0
     else do { e \<leftarrow> exts h r; n \<leftarrow> count_refs (next_ref e) h; Some (n + 1) })"

declare count_refs.simps [code]

text \<open>\<^verbatim>\<open>check_dobject\<close>: the assertion fails, or the loop does not end, or the check passes.\<close>

definition check_dobject :: "addr \<Rightarrow> store \<Rightarrow> unit option" where
  "check_dobject d h = (if d = NULL then Some ()
     else do { x \<leftarrow> dobs h d; rc \<leftarrow> count_refs (refs x) h; ensure (num_refs x = rc) })"

definition create_extent :: "addr \<Rightarrow> sz \<Rightarrow> sz \<Rightarrow> sz \<Rightarrow> store \<Rightarrow> (addr \<times> store) option" where
  "create_extent d f o' l h = do {
     (p, h) \<leftarrow> Some (calloc h);
     ensure (p \<noteq> NULL);
     x \<leftarrow> dobs h d;
     let h = h\<lparr>exts := (exts h)(p \<mapsto> \<lparr>dobj = d, off_f = f, off_do = o', len = l,
        prev_ref = NULL, next_ref = refs x, depth = 1, parent = NULL, pivot = SNull,
        left = NULL, right = NULL, prev_e = NULL, next_e = NULL\<rparr>)\<rparr>;
     h \<leftarrow> (if refs x \<noteq> NULL then upd_ext (refs x) (\<lambda>e. e\<lparr>prev_ref := p\<rparr>) h else Some h);
     h \<leftarrow> upd_dob d (\<lambda>x. x\<lparr>refs := p, num_refs := num_refs x + 1\<rparr>) h;
     h \<leftarrow> upd_ino (d_inode x) (\<lambda>n. n\<lparr>num_exts := num_exts n + 1\<rparr>) h;
     Some (p, h) }"

text \<open>\<^verbatim>\<open>release_extent\<close> up to \<^verbatim>\<open>free(target)\<close>; the result is the data object that has lost its
  last extent, or the null pointer.\<close>

definition unref_extent :: "addr \<Rightarrow> store \<Rightarrow> (addr \<times> store) option" where
  "unref_extent target h = do {
     t \<leftarrow> exts h target;
     h \<leftarrow> (if prev_ref t \<noteq> NULL then upd_ext (prev_ref t) (\<lambda>e. e\<lparr>next_ref := next_ref t\<rparr>) h
          else upd_dob (dobj t) (\<lambda>x. x\<lparr>refs := next_ref t\<rparr>) h);
     h \<leftarrow> (if next_ref t \<noteq> NULL then upd_ext (next_ref t) (\<lambda>e. e\<lparr>prev_ref := prev_ref t\<rparr>) h
          else Some h);
     h \<leftarrow> upd_dob (dobj t) (\<lambda>x. x\<lparr>num_refs := num_refs x - 1\<rparr>) h;
     x \<leftarrow> dobs h (dobj t);
     h \<leftarrow> upd_ino (d_inode x) (\<lambda>n. n\<lparr>num_exts := num_exts n - 1\<rparr>) h;
     ensure (refs x = NULL \<longrightarrow> num_refs x = 0);
     check_dobject (dobj t) h;
     let h = free_ext target h;
     Some (if refs x = NULL then dobj t else NULL, h) }"

section \<open>The ordered list and the tree\<close>

definition insert_extent_list :: "addr \<Rightarrow> addr \<Rightarrow> addr \<Rightarrow> store \<Rightarrow> store option" where
  "insert_extent_list p t n h =
     (if t = NULL then Some h
      else do {
        h \<leftarrow> upd_ext t (\<lambda>e. e\<lparr>prev_e := p, next_e := n\<rparr>) h;
        h \<leftarrow> (if p \<noteq> NULL then upd_ext p (\<lambda>e. e\<lparr>next_e := t\<rparr>) h else Some h);
        (if n \<noteq> NULL then upd_ext n (\<lambda>e. e\<lparr>prev_e := t\<rparr>) h else Some h) })"

text \<open>\<^verbatim>\<open>check_extent\<close>, with its flag \<^verbatim>\<open>dur_rep\<close> (a replacement is going on).\<close>

definition check_extent :: "addr \<Rightarrow> bool \<Rightarrow> store \<Rightarrow> unit option" where
  "check_extent ext dur_rep h = do {
     e \<leftarrow> exts h ext;
     ensure (len e > 0);
     (if prev_ref e \<noteq> NULL then do { p \<leftarrow> exts h (prev_ref e); ensure (next_ref p = ext) }
      else do { x \<leftarrow> dobs h (dobj e); ensure (refs x = ext) });
     (if next_ref e \<noteq> NULL then do { n \<leftarrow> exts h (next_ref e); ensure (prev_ref n = ext) }
      else Some ());
     v \<leftarrow> read_slot (pivot e) h;
     ensure (v = ext);
     ensure (parent e = NULL \<or> pivot e = SLeft (parent e) \<or> pivot e = SRight (parent e));
     (if prev_e e \<noteq> NULL then do { p \<leftarrow> exts h (prev_e e); ensure (next_e p = ext);
        ensure (off_f p + len p \<le> off_f e) } else Some ());
     (if next_e e \<noteq> NULL then do { n \<leftarrow> exts h (next_e e); ensure (prev_e n = ext);
        ensure (dur_rep \<or> off_f n \<ge> len e + off_f e) } else Some ());
     (if left e \<noteq> NULL then do { l \<leftarrow> exts h (left e); ensure (parent l = ext);
        ensure (pivot l = SLeft ext) } else Some ());
     (if right e \<noteq> NULL then do { r \<leftarrow> exts h (right e); ensure (parent r = ext);
        ensure (pivot r = SRight ext) } else Some ());
     dl \<leftarrow> DEPTH h (left e);
     dr \<leftarrow> DEPTH h (right e);
     ensure (depth e = max dl dr + 1);
     ensure (\<bar>dl - dr\<bar> < 2) }"

text \<open>\<^verbatim>\<open>remove_extent\<close> up to the final \<^verbatim>\<open>release_extent\<close>.\<close>

definition unlink_list :: "addr \<Rightarrow> store \<Rightarrow> store option" where
  "unlink_list target h = do {
     t \<leftarrow> exts h target;
     h \<leftarrow> (if prev_e t \<noteq> NULL then upd_ext (prev_e t) (\<lambda>e. e\<lparr>next_e := next_e t\<rparr>) h else Some h);
     (if next_e t \<noteq> NULL then upd_ext (next_e t) (\<lambda>e. e\<lparr>prev_e := prev_e t\<rparr>) h else Some h) }"

definition unlink_tree :: "addr \<Rightarrow> store \<Rightarrow> (addr \<times> store) option" where
  "unlink_tree target h = do {
     t \<leftarrow> exts h target;
     (if left t \<noteq> NULL \<and> right t \<noteq> NULL then do {
        let alte = prev_e t;
        a \<leftarrow> exts h alte;
        ensure (right a = NULL);
        let tmp = left a;
        h \<leftarrow> write_slot (pivot a) tmp h;
        h \<leftarrow> set_up tmp (parent a) (pivot a) h;
        let rebe = (if parent a = target then alte else parent a);
        t \<leftarrow> exts h target;
        h \<leftarrow> write_slot (pivot t) alte h;
        h \<leftarrow> upd_ext alte (\<lambda>x. x\<lparr>pivot := pivot t, parent := parent t, left := left t,
               right := right t, depth := depth t\<rparr>) h;
        h \<leftarrow> set_up (left t) alte (SLeft alte) h;
        h \<leftarrow> upd_ext (right t) (\<lambda>x. x\<lparr>parent := alte, pivot := SRight alte\<rparr>) h;
        Some (rebe, h) }
      else do {
        let alte = (if left t \<noteq> NULL then left t else right t);
        h \<leftarrow> set_up alte (parent t) (pivot t) h;
        h \<leftarrow> write_slot (pivot t) alte h;
        Some (parent t, h) }) }"

definition unlink_extent :: "addr \<Rightarrow> store \<Rightarrow> store option" where
  "unlink_extent target h = do {
     h \<leftarrow> unlink_list target h;
     (rebe, h) \<leftarrow> unlink_tree target h;
     rebalance rebe h }"

text \<open>\<^verbatim>\<open>remove_extent(target, 0)\<close>\<close>

definition remove_extent0 :: "addr \<Rightarrow> store \<Rightarrow> store option" where
  "remove_extent0 target h = do {
     h \<leftarrow> unlink_extent target h;
     (d, h) \<leftarrow> unref_extent target h;
     Some h }"

section \<open>Data objects\<close>

text \<open>The loop \<^verbatim>\<open>while( dobj->refs ) remove_extent(dobj->refs, 0)\<close>.\<close>

partial_function (option) drop_refs :: "addr \<Rightarrow> store \<Rightarrow> store option" where
  "drop_refs d h = do {
     x \<leftarrow> dobs h d;
     (if refs x = NULL then Some h
      else do { h \<leftarrow> remove_extent0 (refs x) h; drop_refs d h }) }"

declare drop_refs.simps [code]

text \<open>The bytes of an \<^verbatim>\<open>ADD_LINK\<close> or \<^verbatim>\<open>REMOVE_LINK\<close> request.\<close>

definition link_msg :: "dos_com \<Rightarrow> loid_t \<Rightarrow> inode \<Rightarrow> store \<Rightarrow> u8 list" where
  "link_msg com l n h = dos_code com # le 8 l @ le 8 (ino n) @
     (if with_ms h then le 8 (base_ino n) else [])"

definition remove_dobject :: "addr \<Rightarrow> bool \<Rightarrow> store \<Rightarrow> (int \<times> store) option" where
  "remove_dobject d unlink h =
     (if d = NULL then Some (err INVALID_DOBJECT, h)
      else do {
        x \<leftarrow> dobs h d;
        n \<leftarrow> inos h (d_inode x);
        m \<leftarrow> hash_delete d (do_map n);
        h \<leftarrow> upd_ino (d_inode x) (\<lambda>n. n\<lparr>do_map := m\<rparr>) h;
        h \<leftarrow> drop_refs d h;
        x \<leftarrow> dobs h d;
        n \<leftarrow> inos h (d_inode x);
        (ret, h) \<leftarrow> Some (if unlink then
            (case dos_call (host_id (daddr x)) (link_msg REMOVE_LINK (loid (daddr x)) n h) h of
               (None, h) \<Rightarrow> (ret_code FAILED, h)
             | (Some r, h) \<Rightarrow> (r, h))
          else (ret_code SUCCESS, h));
        Some (ret, free_dob d h) })"

definition release_extent :: "addr \<Rightarrow> bool \<Rightarrow> store \<Rightarrow> store option" where
  "release_extent target triggered h = do {
     (d, h) \<leftarrow> unref_extent target h;
     (if d \<noteq> NULL \<and> triggered then do { (r, h) \<leftarrow> remove_dobject d True h; Some h }
      else Some h) }"

definition remove_extent :: "addr \<Rightarrow> bool \<Rightarrow> store \<Rightarrow> store option" where
  "remove_extent target triggered h = do {
     h \<leftarrow> unlink_extent target h;
     release_extent target triggered h }"

definition replace_extent :: "addr \<Rightarrow> addr \<Rightarrow> store \<Rightarrow> store option" where
  "replace_extent orie newe h = do {
     o' \<leftarrow> exts h orie;
     h \<leftarrow> upd_ext newe (\<lambda>x. x\<lparr>depth := depth o', parent := parent o', pivot := pivot o'\<rparr>) h;
     h \<leftarrow> write_slot (pivot o') newe h;
     h \<leftarrow> upd_ext newe (\<lambda>x. x\<lparr>prev_e := prev_e o', next_e := next_e o'\<rparr>) h;
     h \<leftarrow> (if prev_e o' \<noteq> NULL then upd_ext (prev_e o') (\<lambda>x. x\<lparr>next_e := newe\<rparr>) h else Some h);
     h \<leftarrow> (if next_e o' \<noteq> NULL then upd_ext (next_e o') (\<lambda>x. x\<lparr>prev_e := newe\<rparr>) h else Some h);
     h \<leftarrow> upd_ext newe (\<lambda>x. x\<lparr>left := left o', right := right o'\<rparr>) h;
     h \<leftarrow> set_up (left o') newe (SLeft newe) h;
     h \<leftarrow> set_up (right o') newe (SRight newe) h;
     h \<leftarrow> release_extent orie True h;
     check_extent newe True h;
     Some h }"

text \<open>
  \<^verbatim>\<open>acquire_dobject\<close>: look a data object up in the inode's table; \<^verbatim>\<open>flag\<close> 0 does not
  create it, 1 creates it, 2 creates it and registers a link with its server.
\<close>

definition dob_key :: "store \<Rightarrow> addr \<Rightarrow> (u32 \<times> loid_t) option" where
  "dob_key h d = map_option (\<lambda>x. (host_id (daddr x), loid (daddr x))) (dobs h d)"

definition find_dobject :: "u32 \<Rightarrow> loid_t \<Rightarrow> inode \<Rightarrow> store \<Rightarrow> addr" where
  "find_dobject hid l n h =
     (case hash_find (dob_key h) (hid, l) (do_map n) of None \<Rightarrow> NULL | Some d \<Rightarrow> d)"

definition acquire_dobject :: "u32 \<Rightarrow> loid_t \<Rightarrow> addr \<Rightarrow> nat \<Rightarrow> store \<Rightarrow> (addr \<times> store) option" where
  "acquire_dobject hid l i flag h =
     (if i = NULL then Some (NULL, h)
      else do {
        n \<leftarrow> inos h i;
        let res = find_dobject hid l n h;
        (if res = NULL \<and> flag > 0 then do {
           (res, h) \<leftarrow> Some (calloc h);
           (if res = NULL then Some (NULL, h)
            else do {
              let h = h\<lparr>dobs := (dobs h)(res \<mapsto> \<lparr>daddr = \<lparr>host_id = hid, loid = l\<rparr>,
                 d_inode = i, refs = NULL, num_refs = 0\<rparr>)\<rparr>;
              h \<leftarrow> upd_ino i (\<lambda>n. n\<lparr>do_map := hash_add res (do_map n)\<rparr>) h;
              (if flag = 2 then
                 (case dos_call hid (link_msg ADD_LINK l n h) h of
                    (None, h) \<Rightarrow> do {
                      n \<leftarrow> inos h i;
                      m \<leftarrow> hash_delete res (do_map n);
                      h \<leftarrow> upd_ino i (\<lambda>n. n\<lparr>do_map := m\<rparr>) h;
                      Some (NULL, h) }
                  | (Some r, h) \<Rightarrow> do { check_dobject res h; Some (res, h) })
               else do { check_dobject res h; Some (res, h) }) }) }
         else if res = NULL \<and> flag = 0 then Some (NULL, h)
         else do { check_dobject res h; Some (res, h) }) })"

section \<open>Listing data objects\<close>

partial_function (option) refs_bytes :: "addr \<Rightarrow> store \<Rightarrow> u8 list option" where
  "refs_bytes r h = (if r = NULL then Some []
     else do { e \<leftarrow> exts h r; bs \<leftarrow> refs_bytes (next_ref e) h;
       Some (le 8 (off_f e) @ le 8 (off_do e) @ le 8 (len e) @ bs) })"

declare refs_bytes.simps [code]

text \<open>The result and the bytes written by \<^verbatim>\<open>read_dobject\<close>.\<close>

definition read_dobject :: "addr \<Rightarrow> store \<Rightarrow> (int \<times> u8 list) option" where
  "read_dobject d h =
     (if d = NULL then Some (err INVALID_DOBJECT, le 4 (0 :: u32))
      else do {
        check_dobject d h;
        x \<leftarrow> dobs h d;
        bs \<leftarrow> refs_bytes (refs x) h;
        Some (ret_code SUCCESS, le 4 (num_refs x) @ bs) })"

fun dobj_list_bytes :: "addr list \<Rightarrow> store \<Rightarrow> u8 list option" where
  "dobj_list_bytes [] h = Some []"
| "dobj_list_bytes (d # ds) h = do {
     x \<leftarrow> dobs h d;
     bs \<leftarrow> dobj_list_bytes ds h;
     Some (le 4 (host_id (daddr x)) @ le 8 (loid (daddr x)) @ bs) }"

definition get_inode_dobj :: "addr \<Rightarrow> store \<Rightarrow> (int \<times> store) option" where
  "get_inode_dobj i h = do {
     n \<leftarrow> inos h i;
     bs \<leftarrow> dobj_list_bytes (do_map n) h;
     Some (ret_code SUCCESS, wr (le 4 (of_nat (length (do_map n)) :: u32) @ bs) h) }"

end
