(* ===== verification/Replace.thy ===== *)
theory Replace
  imports Extents
begin

text \<open>
  \<^verbatim>\<open>replace\<close> of \<^verbatim>\<open>incont.c\<close>: the layout of the range \<open>[start, end)\<close> of an inode is
  replaced by the extents of a list that is linked by \<^verbatim>\<open>next\<close>. The phases of the C function
  are separate definitions, over its local variables: \<open>alts\<close> and \<open>tail\<close> (the list that is
  still to be placed and its last extent), \<open>tor\<close> and \<open>tol\<close> (the extents after, or before,
  which the next one is inserted) and \<open>dh\<close> (the existing extent in hand).
\<close>

section \<open>Finding an extent\<close>

text \<open>The search of \<^verbatim>\<open>find_start_extent\<close>: the first extent that ends after \<open>start\<close>.\<close>

partial_function (option) find_start :: "addr \<Rightarrow> sz \<Rightarrow> store \<Rightarrow> addr option" where
  "find_start cur start h =
     (if cur = NULL then Some NULL
      else do {
        c \<leftarrow> exts h cur;
        let Cs = off_f c; let Ce = Cs + len c;
        (if Cs \<le> start \<and> start < Ce then Some cur
         else if start < Cs \<and> left c \<noteq> NULL then find_start (left c) start h
         else if start < Cs \<and> left c = NULL then Some cur
         else if Ce \<le> start \<and> right c \<noteq> NULL then find_start (right c) start h
         else if Ce \<le> start \<and> right c = NULL then Some (next_e c)
         else find_start cur start h) })"

declare find_start.simps [code]

definition find_start_extent :: "addr \<Rightarrow> sz \<Rightarrow> store \<Rightarrow> addr option" where
  "find_start_extent i start h = do { n \<leftarrow> inos h i; find_start (flayout n) start h }"

section \<open>The search of replace\<close>

text \<open>
  The case \<^verbatim>\<open>Cs < start < Ce\<close>: either the range ends inside the same extent, and the part of
  the extent before \<open>start\<close> is merged with the first new extent or becomes a new extent of its
  own, or the extent is cut at \<open>start\<close>. The result is \<open>(dh, tor, alts, store)\<close>.
\<close>

definition split_head :: "addr \<Rightarrow> addr \<Rightarrow> sz \<Rightarrow> sz \<Rightarrow> store \<Rightarrow> (addr \<times> addr \<times> addr \<times> store) option" where
  "split_head dh alts start end' h = do {
     d \<leftarrow> exts h dh;
     let Cs = off_f d; let Ce = Cs + len d; let head_len = start - Cs;
     (if end' < Ce then do {
        m \<leftarrow> (if alts \<noteq> NULL then do {
                a \<leftarrow> exts h alts;
                Some (dobj d = dobj a \<and> off_do d + head_len = off_do a \<and> start = off_f a) }
              else Some False);
        (if m then do {
           h \<leftarrow> upd_ext alts (\<lambda>a. a\<lparr>off_f := off_f d, off_do := off_do d,
                  len := len a + head_len\<rparr>) h;
           Some (dh, prev_e d, alts, h) }
         else do {
           (tmp, h) \<leftarrow> create_extent (dobj d) (off_f d) (off_do d) (start - Cs) h;
           h \<leftarrow> upd_ext tmp (\<lambda>e. e\<lparr>next_e := alts\<rparr>) h;
           Some (dh, prev_e d, tmp, h) }) }
      else do {
        h \<leftarrow> upd_ext dh (\<lambda>e. e\<lparr>len := start - Cs\<rparr>) h;
        Some (next_e d, dh, alts, h) }) }"

partial_function (option) find_first ::
  "addr \<Rightarrow> addr \<Rightarrow> sz \<Rightarrow> sz \<Rightarrow> store \<Rightarrow> (addr \<times> addr \<times> addr \<times> store) option" where
  "find_first dh alts start end' h =
     (if dh = NULL then Some (NULL, NULL, alts, h)
      else do {
        d \<leftarrow> exts h dh;
        let Cs = off_f d; let Ce = Cs + len d;
        (if Cs = start then Some (dh, prev_e d, alts, h)
         else if Cs < start \<and> start < Ce then split_head dh alts start end' h
         else if start < Cs \<and> left d \<noteq> NULL then find_first (left d) alts start end' h
         else if start < Cs \<and> left d = NULL then Some (dh, prev_e d, alts, h)
         else if Ce \<le> start \<and> right d \<noteq> NULL then find_first (right d) alts start end' h
         else if Ce \<le> start \<and> right d = NULL then Some (next_e d, dh, alts, h)
         else find_first dh alts start end' h) })"

declare find_first.simps [code]

section \<open>The phases after the search\<close>

text \<open>The first new extent may continue the extent before it: \<open>(alts, tail, store)\<close>.\<close>

definition merge_first :: "addr \<Rightarrow> addr \<Rightarrow> addr \<Rightarrow> store \<Rightarrow> (addr \<times> addr \<times> store) option" where
  "merge_first tor alts tail h =
     (if tor = NULL \<or> alts = NULL then Some (alts, tail, h)
      else do {
        t \<leftarrow> exts h tor;
        a \<leftarrow> exts h alts;
        (if dobj t = dobj a \<and> off_do t + len t = off_do a \<and> off_f t + len t = off_f a then do {
           h \<leftarrow> upd_ext tor (\<lambda>t. t\<lparr>len := len t + len a\<rparr>) h;
           let tail' = (if alts = tail then tor else tail);
           h \<leftarrow> release_extent alts True h;
           Some (next_e a, tail', h) }
         else Some (alts, tail, h)) })"

text \<open>
  The loop over the existing extents of the range: each is replaced by the next new extent or
  removed; the last one may only be cut. The result is \<open>(alts, tor, tol, store)\<close>.
\<close>

partial_function (option) overwrite ::
  "addr \<Rightarrow> addr \<Rightarrow> addr \<Rightarrow> sz \<Rightarrow> sz \<Rightarrow> store \<Rightarrow> (addr \<times> addr \<times> addr \<times> store) option" where
  "overwrite dh alts tor start end' h =
     (if dh = NULL then Some (alts, tor, NULL, h)
      else do {
        d \<leftarrow> exts h dh;
        ensure (off_f d + len d > start);
        (if end' \<le> off_f d then Some (alts, tor, dh, h)
         else if end' < off_f d + len d then do {
           let diff = end' - off_f d;
           h \<leftarrow> upd_ext dh (\<lambda>d. d\<lparr>off_f := off_f d + diff, off_do := off_do d + diff,
                  len := len d - diff\<rparr>) h;
           Some (alts, tor, dh, h) }
         else do {
           let dnext = next_e d;
           (if alts \<noteq> NULL then do {
              a \<leftarrow> exts h alts;
              h \<leftarrow> replace_extent dh alts h;
              overwrite dnext (next_e a) alts start end' h }
            else do {
              h \<leftarrow> remove_extent dh True h;
              overwrite dnext NULL tor start end' h }) }) })"

declare overwrite.simps [code]

text \<open>One remaining new extent is inserted to the right of \<open>tor\<close>, or to the left of \<open>tol\<close>.\<close>

definition insert_right :: "addr \<Rightarrow> addr \<Rightarrow> store \<Rightarrow> store option" where
  "insert_right tor alte h = do {
     t \<leftarrow> exts h tor;
     h \<leftarrow> (if right t \<noteq> NULL then do {
            ensure (next_e t \<noteq> NULL);
            n \<leftarrow> exts h (next_e t);
            ensure (left n = NULL);
            h \<leftarrow> upd_ext (next_e t) (\<lambda>e. e\<lparr>left := alte\<rparr>) h;
            upd_ext alte (\<lambda>e. e\<lparr>parent := next_e t, pivot := SLeft (next_e t)\<rparr>) h }
          else do {
            h \<leftarrow> upd_ext tor (\<lambda>e. e\<lparr>right := alte\<rparr>) h;
            upd_ext alte (\<lambda>e. e\<lparr>parent := tor, pivot := SRight tor\<rparr>) h });
     t \<leftarrow> exts h tor;
     insert_extent_list tor alte (next_e t) h }"

definition insert_left :: "addr \<Rightarrow> addr \<Rightarrow> store \<Rightarrow> store option" where
  "insert_left tol alte h = do {
     t \<leftarrow> exts h tol;
     h \<leftarrow> (if left t \<noteq> NULL then do {
            ensure (prev_e t \<noteq> NULL);
            p \<leftarrow> exts h (prev_e t);
            ensure (right p = NULL);
            h \<leftarrow> upd_ext (prev_e t) (\<lambda>e. e\<lparr>right := alte\<rparr>) h;
            upd_ext alte (\<lambda>e. e\<lparr>parent := prev_e t, pivot := SRight (prev_e t)\<rparr>) h }
          else do {
            h \<leftarrow> upd_ext tol (\<lambda>e. e\<lparr>left := alte\<rparr>) h;
            upd_ext alte (\<lambda>e. e\<lparr>parent := tol, pivot := SLeft tol\<rparr>) h });
     t \<leftarrow> exts h tol;
     insert_extent_list (prev_e t) alte tol h }"

partial_function (option) insert_rest :: "addr \<Rightarrow> addr \<Rightarrow> addr \<Rightarrow> store \<Rightarrow> store option" where
  "insert_rest alts tor tol h =
     (if alts = NULL then Some h
      else do {
        a \<leftarrow> exts h alts;
        (tor', h) \<leftarrow> (if tor \<noteq> NULL then do { h \<leftarrow> insert_right tor alts h; Some (alts, h) }
          else if tol \<noteq> NULL then do { h \<leftarrow> insert_left tol alts h; Some (tor, h) }
          else None);
        p \<leftarrow> fld parent h alts;
        h \<leftarrow> rebalance p h;
        insert_rest (next_e a) tor' tol h })"

declare insert_rest.simps [code]

text \<open>The last new extent may be continued by the extent after it.\<close>

definition merge_last :: "addr \<Rightarrow> store \<Rightarrow> store option" where
  "merge_last tail h =
     (if tail = NULL then Some h
      else do {
        t \<leftarrow> exts h tail;
        (if next_e t = NULL then Some h
         else do {
           n \<leftarrow> exts h (next_e t);
           (if dobj t = dobj n \<and> off_f t + len t = off_f n \<and> off_do t + len t = off_do n then do {
              h \<leftarrow> upd_ext tail (\<lambda>t. t\<lparr>len := len t + len n\<rparr>) h;
              remove_extent (next_e t) True h }
            else Some h) }) })"

section \<open>replace\<close>

text \<open>The start on an empty layout: the first new extent becomes the root.\<close>

definition replace_root :: "addr \<Rightarrow> addr \<Rightarrow> sz \<Rightarrow> store \<Rightarrow> (addr \<times> sz \<times> store) option" where
  "replace_root i alts start h = do {
     a \<leftarrow> exts h alts;
     h \<leftarrow> upd_ino i (\<lambda>n. n\<lparr>flayout := alts\<rparr>) h;
     h \<leftarrow> upd_ext alts (\<lambda>e. e\<lparr>next_e := NULL, pivot := SFlayout i\<rparr>) h;
     Some (next_e a, off_f a + len a, h) }"

definition replace :: "addr \<Rightarrow> addr \<Rightarrow> addr \<Rightarrow> sz \<Rightarrow> sz \<Rightarrow> store \<Rightarrow> store option" where
  "replace i alts tail start end' h = do {
     ensure (start < end');
     n \<leftarrow> inos h i;
     (if flayout n = NULL \<and> alts = NULL then Some h
      else do {
        (alts, start, h) \<leftarrow> (if flayout n = NULL then replace_root i alts start h
                            else Some (alts, start, h));
        n \<leftarrow> inos h i;
        (dh, tor, alts, h) \<leftarrow> find_first (flayout n) alts start end' h;
        (alts, tail, h) \<leftarrow> merge_first tor alts tail h;
        (alts, tor, tol, h) \<leftarrow> overwrite dh alts tor start end' h;
        h \<leftarrow> insert_rest alts tor tol h;
        merge_last tail h }) }"

end
