(* ===== verification/Layout.thy ===== *)
theory Layout
  imports Replace
begin

text \<open>
  The layout of an inode: its extents hang in a balanced tree that starts at
  \<^verbatim>\<open>inode->flayout\<close> and in a doubly linked list, in the same order. This theory states the
  representation, and shows that inserting an extent next to another one and removing an extent,
  each with its rebalancing, keep it and change the sequence of extents as they should.
\<close>

section \<open>The ordered list\<close>

text \<open>
  A doubly linked list segment between \<open>p\<close> and \<open>n\<close>, over the two link fields \<open>pf\<close> and
  \<open>nf\<close>; the list of a layout is linked by \<^verbatim>\<open>prev\<close> and \<^verbatim>\<open>next\<close>.
\<close>

fun dlist :: "(extent \<Rightarrow> addr) \<Rightarrow> (extent \<Rightarrow> addr) \<Rightarrow> store \<Rightarrow> addr \<Rightarrow> addr list \<Rightarrow> addr \<Rightarrow> bool" where
  "dlist pf nf h p [] n \<longleftrightarrow> True"
| "dlist pf nf h p (a # as) n \<longleftrightarrow>
     fld pf h a = Some p \<and> fld nf h a = Some (first as n) \<and> dlist pf nf h a as n"

abbreviation dll :: "store \<Rightarrow> addr \<Rightarrow> addr list \<Rightarrow> addr \<Rightarrow> bool" where
  "dll \<equiv> dlist prev_e next_e"

lemma dll_append:
  "dlist pf nf h p (xs @ ys) n \<longleftrightarrow> dlist pf nf h p xs (first ys n) \<and> dlist pf nf h (final p xs) ys n"
  by (induction xs arbitrary: p) (auto simp: first_append)

lemma dll_cong:
  assumes "\<And>a. a \<in> set xs \<Longrightarrow> fld pf h' a = fld pf h a \<and> fld nf h' a = fld nf h a"
  shows "dlist pf nf h' p xs n = dlist pf nf h p xs n"
  using assms by (induction xs arbitrary: p) auto

lemma dll_frame [simp]: "q \<notin> set xs \<Longrightarrow> dlist pf nf (mod_ext q f h) p xs n = dlist pf nf h p xs n"
  by (rule dll_cong) (auto simp: fld_def)

lemma dll_mod_same [simp]:
  "(\<And>e. pf (f e) = pf e) \<Longrightarrow> (\<And>e. nf (f e) = nf e) \<Longrightarrow>
     dlist pf nf (mod_ext q f h) p xs n = dlist pf nf h p xs n"
  by (rule dll_cong) (auto simp: fld_mod_ext_keep)

lemma fld_mod_ino [simp]: "fld g (mod_ino j f h) a = fld g h a"
  by (simp add: fld_def)

lemma fld_mod_dob [simp]: "fld g (mod_dob j f h) a = fld g h a"
  by (simp add: fld_def)

lemma dll_mod_ino [simp]: "dlist pf nf (mod_ino j f h) p xs n = dlist pf nf h p xs n"
  "dlist pf nf (mod_dob j k h) p xs n = dlist pf nf h p xs n"
  by (rule dll_cong; simp)+

lemma dll_mod_slot [simp]: "dll (mod_slot s x h) p xs n = dll h p xs n"
  by (cases s) simp_all

lemma dll_valid: "dlist pf nf h p xs n \<Longrightarrow> a \<in> set xs \<Longrightarrow> valid h a"
  by (induction xs arbitrary: p) (auto simp: fld_def valid_def)

lemma dll_next: "dlist pf nf h p (xs @ b # ys) n \<Longrightarrow> fld nf h b = Some (first ys n)"
  by (simp add: dll_append)

lemma dll_prev: "dlist pf nf h p (xs @ b # ys) n \<Longrightarrow> fld pf h b = Some (final p xs)"
  by (simp add: dll_append)

lemma fld_eq_Some: "fld g h a = Some v \<longleftrightarrow> (\<exists>e. exts h a = Some e \<and> g e = v)"
  by (simp add: fld_def)

lemma dll_set_next:
  assumes "dlist pf nf h p (xs @ [b]) n" "b \<notin> set xs" "\<And>e. nf (f e) = m" "\<And>e. pf (f e) = pf e"
  shows "dlist pf nf (mod_ext b f h) p (xs @ [b]) m"
  using assms by (auto simp: dll_append fld_mod_ext_keep fld_def)

lemma dll_set_prev:
  assumes "dlist pf nf h p (b # ys) n" "b \<notin> set ys" "\<And>e. pf (f e) = q" "\<And>e. nf (f e) = nf e"
  shows "dlist pf nf (mod_ext b f h) q (b # ys) n"
  using assms by (auto simp: fld_mod_ext_keep fld_def)

lemma dll_unlink:
  assumes d: "dlist pf nf h NULL (xs @ x # ys) NULL" "distinct (xs @ x # ys)"
    and F: "\<And>e. nf (F e) = first ys NULL" "\<And>e. pf (F e) = pf e"
    and G: "\<And>e. pf (G e) = final NULL xs" "\<And>e. nf (G e) = nf e"
  defines "h1 \<equiv> (if xs = [] then h else mod_ext (final NULL xs) F h)"
  shows "dlist pf nf (if ys = [] then h1 else mod_ext (first ys NULL) G h1) NULL (xs @ ys) NULL"
proof -
  let ?n = "first ys NULL" and ?p = "final NULL xs"
  from d(1) have dx: "dlist pf nf h NULL xs x" and dy: "dlist pf nf h x ys NULL"
    by (simp_all add: dll_append)
  have x1: "dlist pf nf h1 NULL xs ?n"
    using dx d(2) F by (cases xs rule: rev_cases) (auto simp: h1_def intro: dll_set_next)
  have y1: "dlist pf nf h1 x ys NULL"
  proof (cases "xs = []")
    case False
    then have "?p \<in> set xs" by (simp add: final_def)
    with d(2) have "?p \<notin> set ys" by auto
    with False dy show ?thesis by (simp add: h1_def)
  qed (use dy in \<open>simp add: h1_def\<close>)
  show ?thesis
  proof (cases ys)
    case (Cons y ys')
    with y1 d(2) G have "dlist pf nf (mod_ext y G h1) ?p ys NULL"
      by (simp only: Cons) (rule dll_set_prev; simp)
    moreover have "dlist pf nf (mod_ext y G h1) NULL xs ?n" using x1 Cons d(2) by simp
    ultimately show ?thesis using Cons by (simp add: dll_append)
  qed (use x1 in simp)
qed

section \<open>Writes that leave the tree alone\<close>

text \<open>The fields of the tree.\<close>

definition keeps_tree :: "(extent \<Rightarrow> extent) \<Rightarrow> bool" where
  "keeps_tree f \<longleftrightarrow> (\<forall>e. depth (f e) = depth e \<and> parent (f e) = parent e \<and> pivot (f e) = pivot e \<and>
     left (f e) = left e \<and> right (f e) = right e)"

lemma tnode_keep: "keeps_tree f \<Longrightarrow> tnode (mod_ext p f h) a q s d l r = tnode h a q s d l r"
  by (auto simp: tnode_iff keeps_tree_def fld_mod_ext_keep)

lemma tr_keep: "keeps_tree f \<Longrightarrow> tr (mod_ext p f h) q s t = tr h q s t"
  by (induction t arbitrary: q s) (simp_all add: tnode_keep)

lemma ctr_keep: "keeps_tree f \<Longrightarrow> ctr (mod_ext p f h) i x C = ctr h i x C"
  by (induction h i x C rule: ctr.induct) (simp_all add: tnode_keep tr_keep)

lemma focus_keep: "keeps_tree f \<Longrightarrow> focus (mod_ext p f h) i t C = focus h i t C"
  by (simp add: focus_def tr_keep ctr_keep)

lemma keeps_tree_simps [simp]:
  "keeps_tree (next_e_update g)" "keeps_tree (prev_e_update g)"
  "keeps_tree (\<lambda>e. e\<lparr>prev_e := p, next_e := n\<rparr>)"
  by (simp_all add: keeps_tree_def)

section \<open>Changes that concern the tree and the list\<close>

text \<open>The part of an extent that the tree and the list do not own.\<close>

definition body :: "extent \<Rightarrow> extent" where
  "body e = (core e)\<lparr>prev_e := NULL, next_e := NULL\<rparr>"

lemma body_core: "core e = core e' \<Longrightarrow> body e = body e'"
  by (simp add: body_def)

lemma body_simps [simp]:
  "body (e\<lparr>left := x\<rparr>) = body e" "body (e\<lparr>right := x\<rparr>) = body e"
  "body (e\<lparr>parent := x\<rparr>) = body e" "body (e\<lparr>pivot := s\<rparr>) = body e"
  "body (e\<lparr>depth := d\<rparr>) = body e" "body (e\<lparr>prev_e := x\<rparr>) = body e" "body (e\<lparr>next_e := x\<rparr>) = body e"
  by (simp_all add: body_def core_def)

definition link_change :: "addr \<Rightarrow> addr set \<Rightarrow> store \<Rightarrow> store \<Rightarrow> bool" where
  "link_change i A h h' \<longleftrightarrow>
     h' = h\<lparr>exts := exts h', inos := inos h'\<rparr> \<and>
     (\<forall>a. a \<notin> A \<longrightarrow> exts h' a = exts h a) \<and>
     (\<forall>a. map_option body (exts h' a) = map_option body (exts h a)) \<and>
     (\<forall>j. j \<noteq> i \<longrightarrow> inos h' j = inos h j) \<and>
     map_option (flayout_update (\<lambda>_. NULL)) (inos h' i) =
       map_option (flayout_update (\<lambda>_. NULL)) (inos h i)"

lemma link_change_refl: "link_change i A h h"
  by (simp add: link_change_def)

lemma link_change_mono: "link_change i A h h' \<Longrightarrow> A \<subseteq> B \<Longrightarrow> link_change i B h h'"
  by (auto simp: link_change_def)

lemma link_change_trans:
  assumes "link_change i A h1 h2" "link_change i A h2 h3"
  shows "link_change i A h1 h3"
proof -
  have "h3 = h1\<lparr>exts := exts h3, inos := inos h3\<rparr>"
  proof -
    have h2: "h2 = h1\<lparr>exts := exts h2, inos := inos h2\<rparr>"
      and h3: "h3 = h2\<lparr>exts := exts h3, inos := inos h3\<rparr>"
      using assms by (simp_all only: link_change_def)
    have "h2\<lparr>exts := a, inos := b\<rparr> = h1\<lparr>exts := a, inos := b\<rparr>" for a b
      by (subst h2) simp
    with h3 show ?thesis by (rule trans)
  qed
  with assms show ?thesis by (simp add: link_change_def)
qed

lemma body_core_id [simp]: "body (core e) = body e"
  by (simp add: body_def core_def)

lemma tree_link_change: 
  assumes "tree_change i A h h'" shows "link_change i A h h'"
proof -
  have "map_option body (exts h' a) = map_option body (exts h a)" for a
  proof -
    from assms have "map_option core (exts h' a) = map_option core (exts h a)"
      by (simp add: tree_change_def)
    then have "map_option body (map_option core (exts h' a)) =
        map_option body (map_option core (exts h a))" by (rule arg_cong)
    then show ?thesis by (simp add: option.map_comp comp_def)
  qed
  with assms show ?thesis by (simp add: tree_change_def link_change_def)
qed

lemma link_change_mod_ext:
  assumes "a \<in> A" "\<And>e. body (f e) = body e"
  shows "link_change i A h (mod_ext a f h)"
  using assms by (auto simp: link_change_def mod_ext_def option.map_comp comp_def)

lemma link_change_mod_slot:
  assumes "\<And>a. s = SLeft a \<or> s = SRight a \<Longrightarrow> a \<in> A" "\<And>j. s = SFlayout j \<Longrightarrow> j = i"
  shows "link_change i A h (mod_slot s x h)"
  by (rule tree_link_change[OF tree_change_mod_slot[OF assms]])

lemma link_step:
  "link_change i A h k \<Longrightarrow> p \<in> A \<Longrightarrow> (\<And>e. body (f e) = body e) \<Longrightarrow> link_change i A h (mod_ext p f k)"
  by (erule link_change_trans) (rule link_change_mod_ext)

lemma tree_change_dll:
  assumes "tree_change i A h h'"
  shows "dll h' p xs n = dll h p xs n"
proof (rule dll_cong)
  fix a
  from assms have c: "map_option core (exts h' a) = map_option core (exts h a)"
    by (simp add: tree_change_def)
  show "fld prev_e h' a = fld prev_e h a \<and> fld next_e h' a = fld next_e h a"
  proof (cases "exts h a")
    case (Some e)
    with c obtain e' where e': "exts h' a = Some e'" "core e' = core e" by auto
    have "prev_e (core d) = prev_e d" "next_e (core d) = next_e d" for d by (simp_all add: core_def)
    with e' have "prev_e e' = prev_e e" "next_e e' = next_e e" by metis+
    with e'(1) Some show ?thesis by (simp add: fld_def)
  qed (use c in \<open>simp add: fld_def\<close>)
qed

section \<open>The layout\<close>

definition layout :: "store \<Rightarrow> addr \<Rightarrow> etree \<Rightarrow> bool" where
  "layout h i t \<longleftrightarrow> focus h i t [] \<and> avl t \<and> dll h NULL (inorder t) NULL"

text \<open>Every gap of the sequence is a hole of the tree.\<close>

lemma plug_append: "plug (C @ D) t = plug D (plug C t)"
  by (induction C arbitrary: t) simp_all

lemma left_of_append: "left_of (C @ D) = left_of D @ left_of C"
  by (induction C rule: left_of.induct) simp_all

lemma right_of_append: "right_of (C @ D) = right_of C @ right_of D"
  by (induction C rule: right_of.induct) simp_all

lemma hole_parent_append: "hole_parent (C @ D) = (if C = [] then hole_parent D else hole_parent C)"
  by (cases C) auto

lemma gap_exists:
  "inorder t = xs @ ys \<Longrightarrow> \<exists>C. plug C Tip = t \<and> left_of C = xs \<and> right_of C = ys"
proof (induction t arbitrary: xs ys)
  case Tip
  then show ?case by (intro exI[of _ "[]"]) simp
next
  case (Bin l a d r)
  from Bin.prems have "inorder l @ a # inorder r = xs @ ys" by simp
  then consider us where "inorder l = xs @ us" "ys = us @ a # inorder r"
    | us where "xs = inorder l @ a # us" "inorder r = us @ ys"
    by (fastforce simp: append_eq_append_conv2 Cons_eq_append_conv)
  then show ?case
  proof cases
    case 1
    from Bin.IH(1)[OF 1(1)] obtain C where "plug C Tip = l" "left_of C = xs" "right_of C = us" by blast
    with 1 show ?thesis
      by (intro exI[of _ "C @ [LFrame a d r]"])
        (simp add: plug_append left_of_append right_of_append)
  next
    case 2
    from Bin.IH(2)[OF 2(2)] obtain C where "plug C Tip = r" "left_of C = us" "right_of C = ys" by blast
    with 2 show ?thesis
      by (intro exI[of _ "C @ [RFrame l a d]"])
        (simp add: plug_append left_of_append right_of_append)
  qed
qed

text \<open>Every extent is the root of a subtree.\<close>

lemma node_exists:
  "inorder t = xs @ x # ys \<Longrightarrow> distinct (inorder t) \<Longrightarrow>
     \<exists>l d r C. plug C (Bin l x d r) = t \<and> xs = left_of C @ inorder l \<and> ys = inorder r @ right_of C"
proof (induction t arbitrary: xs ys)
  case (Bin l a d r)
  from Bin.prems have "inorder l @ a # inorder r = xs @ x # ys" by simp
  then consider us where "inorder l = xs @ x # us" "ys = us @ a # inorder r"
    | "xs = inorder l" "x = a" "ys = inorder r"
    | us where "xs = inorder l @ a # us" "inorder r = us @ x # ys"
    by (fastforce simp: append_eq_append_conv2 Cons_eq_append_conv append_eq_Cons_conv)
  then show ?case
  proof cases
    case 1
    from Bin.IH(1)[OF 1(1)] Bin.prems(2) obtain l' d' r' C where
      "plug C (Bin l' x d' r') = l" "xs = left_of C @ inorder l'" "us = inorder r' @ right_of C" by auto
    with 1 show ?thesis
      by (intro exI[of _ l'] exI[of _ d'] exI[of _ r'] exI[of _ "C @ [LFrame a d r]"])
        (simp add: plug_append left_of_append right_of_append)
  next
    case 2
    then show ?thesis by (intro exI[of _ l] exI[of _ d] exI[of _ r] exI[of _ "[]"]) simp
  next
    case 3
    from Bin.IH(2)[OF 3(2)] Bin.prems(2) obtain l' d' r' C where
      "plug C (Bin l' x d' r') = r" "us = left_of C @ inorder l'" "ys = inorder r' @ right_of C" by auto
    with 3 show ?thesis
      by (intro exI[of _ l'] exI[of _ d'] exI[of _ r'] exI[of _ "C @ [RFrame l a d]"])
        (simp add: plug_append left_of_append right_of_append)
  qed
qed simp

section \<open>Inserting an extent\<close>

lemma insert_extent_list_correct:
  assumes d: "dll h NULL (xs @ ys) NULL" "distinct (xs @ ys)" "NULL \<notin> set (xs @ ys)"
    and a: "a \<notin> set (xs @ ys)" "valid h a" "a \<noteq> NULL"
  shows "\<exists>h'. insert_extent_list (final NULL xs) a (first ys NULL) h = Some h' \<and>
    dll h' NULL (xs @ a # ys) NULL \<and> link_change i (insert a (set (xs @ ys))) h h' \<and>
    (\<forall>j t C. focus h' j t C = focus h j t C) \<and> (\<forall>q. fld parent h' q = fld parent h q)"
proof -
  let ?A = "insert a (set (xs @ ys))"
  let ?p = "final NULL xs" and ?n = "first ys NULL"
  define h1 where "h1 = mod_ext a (\<lambda>e. e\<lparr>prev_e := ?p, next_e := ?n\<rparr>) h"
  define h2 where "h2 = (if xs = [] then h1 else mod_ext ?p (next_e_update (\<lambda>_. a)) h1)"
  define h3 where "h3 = (if ys = [] then h2 else mod_ext ?n (prev_e_update (\<lambda>_. a)) h2)"
  have p: "xs = [] \<longleftrightarrow> ?p = NULL" "xs \<noteq> [] \<Longrightarrow> ?p \<in> set xs"
    using d(3) by (cases xs rule: rev_cases; auto)+
  have n: "ys = [] \<longleftrightarrow> ?n = NULL" "ys \<noteq> [] \<Longrightarrow> ?n \<in> set ys" using d(3) by (cases ys; auto)+
  have v: "xs \<noteq> [] \<Longrightarrow> valid h ?p" "ys \<noteq> [] \<Longrightarrow> valid h ?n"
    using dll_valid[OF d(1)] p(2) n(2) by auto
  have "insert_extent_list ?p a ?n h = Some h3"
    using a p(1) n(1) v by (auto simp: insert_extent_list_def upd_ext_eval h1_def h2_def h3_def)
  moreover have "dll h3 NULL (xs @ a # ys) NULL"
  proof -
    from d(1) have x: "dll h NULL xs ?n" and y: "dll h ?p ys NULL" by (simp_all add: dll_append)
    have "dll h1 NULL xs ?n" "dll h1 ?p ys NULL" using x y a by (simp_all add: h1_def)
    then have "dll h2 NULL xs a"
      using d(2) by (cases xs rule: rev_cases) (auto simp: h2_def intro: dll_set_next)
    moreover have "dll h2 ?p ys NULL"
    proof (cases "xs = []")
      case False
      with p(2) d(2) have "?p \<notin> set ys" by auto
      with False \<open>dll h1 ?p ys NULL\<close> show ?thesis by (simp add: h2_def)
    qed (use \<open>dll h1 ?p ys NULL\<close> in \<open>simp add: h2_def\<close>)
    ultimately have "dll h3 NULL xs a \<and> dll h3 a ys NULL"
    proof (cases ys)
      case (Cons y ys')
      with \<open>dll h2 ?p ys NULL\<close> d(2) have "dll h3 a ys NULL"
        by (simp only: h3_def Cons list.distinct if_False first_simps) (rule dll_set_prev; simp)
      with \<open>dll h2 NULL xs a\<close> Cons d(2) show ?thesis by (simp add: h3_def)
    qed (simp add: h3_def)
    then have "dll h3 NULL xs a" "dll h3 a ys NULL" by simp_all
    moreover have "fld prev_e h3 a = Some ?p" "fld next_e h3 a = Some ?n"
      using a p n by (auto simp: h3_def h2_def h1_def fld_def valid_def)
    ultimately show ?thesis by (simp add: dll_append)
  qed
  moreover have "link_change i ?A h h3"
    using p(2) n(2) by (auto simp: h3_def h2_def h1_def intro!: link_step link_change_refl)
  moreover have "focus h3 j t C = focus h j t C" for j t C
    by (auto simp: h3_def h2_def h1_def focus_keep)
  moreover have "fld parent h3 q = fld parent h q" for q
    by (auto simp: h3_def h2_def h1_def fld_mod_ext_keep)
  ultimately show ?thesis by blast
qed

text \<open>Hanging a new leaf into a hole.\<close>

lemma attach_leaf:
  assumes f: "focus h i Tip C"
    and e: "exts h a = Some e" "left e = NULL" "right e = NULL" "depth e = 1"
    and a: "a \<notin> set (ctx_addrs C)"
  defines "h' \<equiv> mod_ext a (\<lambda>e. e\<lparr>parent := hole_parent C, pivot := hole_slot i C\<rparr>)
    (mod_slot (hole_slot i C) a h)"
  shows "focus h' i (Bin Tip a 1 Tip) C" "link_change i (insert a (set (ctx_addrs C))) h h'"
    "fld parent h' a = Some (hole_parent C)"
proof -
  from f have c: "ctr h i NULL C" "distinct (ctx_addrs C)" "null_ok h" by (auto simp: focus_def)
  have ns: "hole_slot i C \<noteq> SLeft a" "hole_slot i C \<noteq> SRight a" using a hole_slot_in[of i C a] by auto
  have "a \<noteq> NULL" using e(1) c(3) by (metis null_ok_def option.distinct(1))
  moreover have "ctr h' i a C" using ctr_mod_slot[OF c(1,2)] a by (simp add: h'_def)
  moreover have "null_ok h'" using c(3) by (simp add: h'_def)
  ultimately show "focus h' i (Bin Tip a 1 Tip) C"
    using a c(2) e ns by (simp add: focus_def tnode_def h'_def exts_mod_slot)
  show "link_change i (insert a (set (ctx_addrs C))) h h'"
    unfolding h'_def
    by (rule link_step[OF link_change_mod_slot]) (auto dest: hole_slot_in elim: hole_slot.elims)
  show "fld parent h' a = Some (hole_parent C)"
    using e ns by (simp add: h'_def fld_def exts_mod_slot)
qed

text \<open>Where the holes are: to the right of the extent before, or to the left of the one after.\<close>

lemma hole_right:
  assumes "ctr h i x C" "x \<noteq> NULL" "left_of C = xs @ [b]"
  shows "\<exists>r. fld right h b = Some r \<and> r \<noteq> NULL"
  using assms
proof (induction C arbitrary: x xs)
  case (Cons f C)
  show ?case
  proof (cases f)
    case (LFrame a d r)
    with Cons show ?thesis by (auto simp: tnode_def)
  next
    case (RFrame l a d)
    with Cons.prems show ?thesis by (auto simp: tnode_def fld_def)
  qed
qed simp

lemma hole_left:
  assumes "ctr h i x C" "x \<noteq> NULL" "right_of C = b # ys"
  shows "\<exists>l. fld left h b = Some l \<and> l \<noteq> NULL"
  using assms
proof (induction C arbitrary: x ys)
  case (Cons f C)
  show ?case
  proof (cases f)
    case (LFrame a d r)
    with Cons.prems show ?thesis by (auto simp: tnode_def fld_def)
  next
    case (RFrame l a d)
    with Cons show ?thesis by (auto simp: tnode_def)
  qed
qed simp

definition fresh_ext :: "store \<Rightarrow> addr \<Rightarrow> bool" where
  "fresh_ext h a \<longleftrightarrow> (\<exists>e. exts h a = Some e \<and> left e = NULL \<and> right e = NULL \<and> depth e = 1 \<and>
     parent e = NULL \<and> prev_e e = NULL)"

text \<open>What both insertions establish: the new extent is a leaf in the gap, and in the list.\<close>

definition leaf_added :: "addr \<Rightarrow> ctx \<Rightarrow> addr \<Rightarrow> store \<Rightarrow> store \<Rightarrow> bool" where
  "leaf_added i C a h h' \<longleftrightarrow> focus h' i (Bin Tip a 1 Tip) C \<and>
     dll h' NULL (left_of C @ a # right_of C) NULL \<and>
     link_change i (insert a (set (ctx_addrs C))) h h' \<and> fld parent h' a = Some (hole_parent C)"

lemma attach_listed:
  assumes f: "focus h i Tip C" and d: "dll h NULL (left_of C @ right_of C) NULL"
    and a: "fresh_ext h a" "a \<notin> set (ctx_addrs C)"
  defines "h1 \<equiv> mod_ext a (\<lambda>e. e\<lparr>parent := hole_parent C, pivot := hole_slot i C\<rparr>)
    (mod_slot (hole_slot i C) a h)"
  shows "\<exists>h'. insert_extent_list (final NULL (left_of C)) a (first (right_of C) NULL) h1 = Some h' \<and>
    leaf_added i C a h h'"
proof -
  obtain e where e: "exts h a = Some e" "left e = NULL" "right e = NULL" "depth e = 1"
    using a(1) by (auto simp: fresh_ext_def)
  note L = attach_leaf[OF f e a(2), folded h1_def]
  have di: "distinct (left_of C @ right_of C)"
  proof -
    have "focus h i (plug C Tip) []" using f by (simp add: focus_plug)
    then have "distinct (inorder (plug C Tip) @ ctx_addrs [])" unfolding focus_def by blast
    then show ?thesis by (simp add: inorder_plug)
  qed
  have N: "NULL \<notin> set (left_of C @ right_of C)" "a \<notin> set (left_of C @ right_of C)"
    using f a(2) by (auto simp: focus_def set_ctx_addrs dest!: ctr_not_NULL)
  have nz: "a \<noteq> NULL" using L(1) by (simp add: focus_def tnode_def)
  have v: "valid h1 a" using e by (simp add: h1_def valid_def exts_mod_slot)
  have d1: "dll h1 NULL (left_of C @ right_of C) NULL" using d by (simp add: h1_def)
  from insert_extent_list_correct[OF d1 di N v nz, of i] obtain h' where
    h': "insert_extent_list (final NULL (left_of C)) a (first (right_of C) NULL) h1 = Some h'"
    "dll h' NULL (left_of C @ a # right_of C) NULL"
    "link_change i (insert a (set (left_of C @ right_of C))) h1 h'"
    "\<And>j t C. focus h' j t C = focus h1 j t C" "\<And>q. fld parent h' q = fld parent h1 q"
    by blast
  from h'(3) L(2) have "link_change i (insert a (set (ctx_addrs C))) h h'"
    by (auto simp: set_ctx_addrs intro: link_change_trans)
  with h' L show ?thesis by (auto simp: leaf_added_def)
qed

lemma insert_right_correct:
  assumes f: "focus h i Tip C" and d: "dll h NULL (left_of C @ right_of C) NULL"
    and a: "fresh_ext h a" "a \<notin> set (ctx_addrs C)" and x: "left_of C = xs @ [tor]"
  shows "\<exists>h'. insert_right tor a h = Some h' \<and> leaf_added i C a h h'"
proof -
  from attach_listed[OF f d a] obtain h' where h':
    "insert_extent_list tor a (first (right_of C) NULL) (mod_ext a
      (\<lambda>e. e\<lparr>parent := hole_parent C, pivot := hole_slot i C\<rparr>) (mod_slot (hole_slot i C) a h)) = Some h'"
    "leaf_added i C a h h'" using x by auto
  have c: "ctr h i NULL C" using f by (simp add: focus_def)
  have va: "valid h a" using a(1) by (auto simp: fresh_ext_def valid_def)
  have ta: "tor \<noteq> a" using a(2) x by (auto simp: set_ctx_addrs)
  from dll_next[of _ _ h NULL xs tor "right_of C" NULL] d x
  obtain t where t: "exts h tor = Some t" "next_e t = first (right_of C) NULL"
    by (auto simp: fld_eq_Some)
  from x obtain fr C' where C: "C = fr # C'" by (cases C) auto
  have "insert_right tor a h = Some h'"
  proof (cases fr)
    case (LFrame n dn r)
    with c C have n: "ctr h i n C'" "n \<noteq> NULL" "fld left h n = Some NULL"
      by (auto simp: tnode_iff)
    have "left_of C' = xs @ [tor]" using x C LFrame by simp
    from hole_right[OF n(1,2) this] t have "right t \<noteq> NULL" by (auto simp: fld_eq_Some)
    moreover from n(3) obtain en where "exts h n = Some en" "left en = NULL"
      by (auto simp: fld_eq_Some)
    moreover have "valid h n" "n \<noteq> a" using calculation a(2) C LFrame by (auto simp: valid_def)
    ultimately show ?thesis using n t h'(1) C LFrame va ta
      by (auto simp: insert_right_def upd_ext_eval mon)
  next
    case (RFrame l b db)
    with x C have b: "b = tor" by simp
    with c C RFrame t have "right t = NULL" by (auto simp: tnode_def)
    with t h'(1) C RFrame va ta b show ?thesis
      by (auto simp: insert_right_def upd_ext_eval valid_SomeI mon)
  qed
  with h'(2) show ?thesis by blast
qed

lemma insert_left_correct:
  assumes f: "focus h i Tip C" and d: "dll h NULL (left_of C @ right_of C) NULL"
    and a: "fresh_ext h a" "a \<notin> set (ctx_addrs C)" and x: "right_of C = tol # ys"
  shows "\<exists>h'. insert_left tol a h = Some h' \<and> leaf_added i C a h h'"
proof -
  from attach_listed[OF f d a] obtain h' where h':
    "insert_extent_list (final NULL (left_of C)) a tol (mod_ext a
      (\<lambda>e. e\<lparr>parent := hole_parent C, pivot := hole_slot i C\<rparr>) (mod_slot (hole_slot i C) a h)) = Some h'"
    "leaf_added i C a h h'" using x by auto
  have c: "ctr h i NULL C" using f by (simp add: focus_def)
  have va: "valid h a" using a(1) by (auto simp: fresh_ext_def valid_def)
  have ta: "tol \<noteq> a" using a(2) x by (auto simp: set_ctx_addrs)
  from dll_prev[of _ _ h NULL "left_of C" tol ys NULL] d x
  obtain t where t: "exts h tol = Some t" "prev_e t = final NULL (left_of C)"
    by (auto simp: fld_eq_Some)
  from x obtain fr C' where C: "C = fr # C'" by (cases C) auto
  have "insert_left tol a h = Some h'"
  proof (cases fr)
    case (RFrame l n dn)
    with c C have n: "ctr h i n C'" "n \<noteq> NULL" "fld right h n = Some NULL"
      by (auto simp: tnode_iff)
    have "right_of C' = tol # ys" using x C RFrame by simp
    from hole_left[OF n(1,2) this] t have "left t \<noteq> NULL" by (auto simp: fld_eq_Some)
    moreover from n(3) obtain en where "exts h n = Some en" "right en = NULL"
      by (auto simp: fld_eq_Some)
    moreover have "valid h n" "n \<noteq> a" using calculation a(2) C RFrame by (auto simp: valid_def)
    ultimately show ?thesis using n t h'(1) C RFrame va ta
      by (auto simp: insert_left_def upd_ext_eval mon final_append)
  next
    case (LFrame b db r)
    with x C have b: "b = tol" by simp
    with c C LFrame t have "left t = NULL" by (auto simp: tnode_def)
    with t h'(1) C LFrame va ta b show ?thesis
      by (auto simp: insert_left_def upd_ext_eval valid_SomeI mon)
  qed
  with h'(2) show ?thesis by blast
qed

text \<open>The rebalancing after an insertion.\<close>

lemma leaf_added_rebalance:
  assumes "leaf_added i C a h h1" "avl (plug C Tip)"
  shows "\<exists>h' T. rebalance (hole_parent C) h1 = Some h' \<and> layout h' i T \<and>
    inorder T = left_of C @ a # right_of C \<and>
    link_change i ({NULL, a} \<union> set (ctx_addrs C)) h h'"
proof -
  from assms(2) have "cavl 0 C" by (simp add: avl_plug)
  from reb_up_avl[OF _ this, of "Bin Tip a 1 Tip"] obtain T where
    T: "reb_up (Bin Tip a 1 Tip) C = Some T" "avl T" "inorder T = left_of C @ a # right_of C"
    by (auto simp: inorder_plug)
  from assms(1) have f: "focus h1 i (Bin Tip a 1 Tip) C"
    and d: "dll h1 NULL (left_of C @ a # right_of C) NULL"
    and l: "link_change i (insert a (set (ctx_addrs C))) h h1" by (auto simp: leaf_added_def)
  from rebalance_reb_up[OF f T(1)] obtain h' where
    h': "rebalance (hole_parent C) h1 = Some h'" "focus h' i T []"
    "tree_change i ({NULL, a} \<union> set (ctx_addrs C)) h1 h'" by auto
  from d h'(3) T(3) have "dll h' NULL (inorder T) NULL" by (simp add: tree_change_dll)
  moreover have "link_change i ({NULL, a} \<union> set (ctx_addrs C)) h h'"
    by (rule link_change_trans[OF link_change_mono[OF l] tree_link_change[OF h'(3)]]) auto
  ultimately show ?thesis using h' T by (auto simp: layout_def)
qed

lemma gap_focus:
  assumes "layout h i t" "inorder t = xs @ ys"
  obtains C where "focus h i Tip C" "left_of C = xs" "right_of C = ys"
    "dll h NULL (left_of C @ right_of C) NULL" "avl (plug C Tip)" "set (ctx_addrs C) = addrs t"
proof -
  from gap_exists[OF assms(2)] obtain C where C: "plug C Tip = t" "left_of C = xs" "right_of C = ys"
    by blast
  have "focus h i Tip C" using assms(1) C(1) focus_plug[of h i C Tip] by (simp add: layout_def)
  with C assms show ?thesis by (intro that) (auto simp: layout_def set_ctx_addrs)
qed

text \<open>An insertion and its rebalancing, as in the loop of \<^verbatim>\<open>replace\<close>.\<close>

definition place_right :: "addr \<Rightarrow> addr \<Rightarrow> store \<Rightarrow> store option" where
  "place_right tor a h = do { h \<leftarrow> insert_right tor a h; p \<leftarrow> fld parent h a; rebalance p h }"

definition place_left :: "addr \<Rightarrow> addr \<Rightarrow> store \<Rightarrow> store option" where
  "place_left tol a h = do { h \<leftarrow> insert_left tol a h; p \<leftarrow> fld parent h a; rebalance p h }"

lemma place_right_correct:
  assumes "layout h i t" "inorder t = xs @ tor # ys" "fresh_ext h a" "a \<notin> addrs t"
  shows "\<exists>h' T. place_right tor a h = Some h' \<and> layout h' i T \<and>
    inorder T = xs @ tor # a # ys \<and> link_change i ({NULL, a} \<union> addrs t) h h'"
proof -
  from gap_focus[OF assms(1), of "xs @ [tor]" ys] assms(2) obtain C where
    C: "focus h i Tip C" "left_of C = xs @ [tor]" "right_of C = ys"
    "dll h NULL (left_of C @ right_of C) NULL" "avl (plug C Tip)" "set (ctx_addrs C) = addrs t"
    by auto
  from insert_right_correct[OF C(1,4) assms(3) _ C(2)] assms(4) C(6) obtain h1 where
    h1: "insert_right tor a h = Some h1" "leaf_added i C a h h1" by auto
  from leaf_added_rebalance[OF h1(2) C(5)] C h1 show ?thesis
    by (auto simp: place_right_def leaf_added_def)
qed

lemma place_left_correct:
  assumes "layout h i t" "inorder t = xs @ tol # ys" "fresh_ext h a" "a \<notin> addrs t"
  shows "\<exists>h' T. place_left tol a h = Some h' \<and> layout h' i T \<and>
    inorder T = xs @ a # tol # ys \<and> link_change i ({NULL, a} \<union> addrs t) h h'"
proof -
  from gap_focus[OF assms(1,2)] obtain C where
    C: "focus h i Tip C" "left_of C = xs" "right_of C = tol # ys"
    "dll h NULL (left_of C @ right_of C) NULL" "avl (plug C Tip)" "set (ctx_addrs C) = addrs t"
    by auto
  from insert_left_correct[OF C(1,4) assms(3) _ C(3)] assms(4) C(6) obtain h1 where
    h1: "insert_left tol a h = Some h1" "leaf_added i C a h h1" by auto
  from leaf_added_rebalance[OF h1(2) C(5)] C h1 show ?thesis
    by (auto simp: place_left_def leaf_added_def)
qed

section \<open>Inserting a list of extents\<close>

text \<open>New extents that are linked by \<^verbatim>\<open>next\<close>, as \<^verbatim>\<open>pado_write\<close> and
  \<^verbatim>\<open>pado_clone\<close> build them.\<close>

fun chain :: "store \<Rightarrow> addr \<Rightarrow> addr list \<Rightarrow> bool" where
  "chain h a [] \<longleftrightarrow> a = NULL"
| "chain h a (z # zs) \<longleftrightarrow> a = z \<and> z \<noteq> NULL \<and> fresh_ext h z \<and>
     (\<exists>n. fld next_e h z = Some n \<and> chain h n zs)"

lemma chain_cong:
  "(\<And>a. a \<in> set zs \<Longrightarrow> exts h' a = exts h a) \<Longrightarrow> chain h' a zs = chain h a zs"
  by (induction zs arbitrary: a) (auto simp: fresh_ext_def fld_def)

lemma insert_rest_unfold:
  "a \<noteq> NULL \<Longrightarrow> tor \<noteq> NULL \<Longrightarrow> insert_rest a tor tol h =
     do { e \<leftarrow> exts h a; h \<leftarrow> place_right tor a h; insert_rest (next_e e) a tol h }"
  "a \<noteq> NULL \<Longrightarrow> tol \<noteq> NULL \<Longrightarrow> insert_rest a NULL tol h =
     do { e \<leftarrow> exts h a; h \<leftarrow> place_left tol a h; insert_rest (next_e e) NULL tol h }"
  by (subst insert_rest.simps; simp add: place_right_def place_left_def split: Option.bind_split)+

lemma layout_not_NULL: "layout h i t \<Longrightarrow> NULL \<notin> addrs t"
  by (auto simp: layout_def focus_def dest: tr_not_NULL)

lemma link_change_chain:
  assumes "link_change i A h h'" "set zs \<inter> A = {}"
  shows "chain h' a zs = chain h a zs"
  using assms by (intro chain_cong) (auto simp: link_change_def)

lemma insert_rest_right:
  assumes "layout h i t" "inorder t = xs @ tor # ys" "chain h a zs" "distinct zs"
    "set zs \<inter> addrs t = {}" "NULL \<notin> set zs"
  shows "\<exists>h' T. insert_rest a tor tol h = Some h' \<and> layout h' i T \<and>
    inorder T = xs @ tor # zs @ ys \<and> link_change i ({NULL} \<union> set zs \<union> addrs t) h h'"
  using assms
proof (induction zs arbitrary: h t xs tor a)
  case Nil
  then show ?case
    by (intro exI[of _ h] exI[of _ t]) (auto simp: insert_rest.simps link_change_refl)
next
  case (Cons z zs)
  from Cons.prems(3) obtain e where a: "a = z" "z \<noteq> NULL" "fresh_ext h z"
    "exts h z = Some e" "chain h (next_e e) zs" by (auto simp: fld_eq_Some)
  have "z \<notin> addrs t" using Cons.prems(5) by auto
  from place_right_correct[OF Cons.prems(1,2) a(3) this] obtain h1 T1 where
    h1: "place_right tor z h = Some h1" "layout h1 i T1" "inorder T1 = (xs @ [tor]) @ z # ys"
    "link_change i ({NULL, z} \<union> addrs t) h h1" by auto
  have dis: "set zs \<inter> ({NULL, z} \<union> addrs t) = {}" using Cons.prems(4-6) by auto
  have c: "chain h1 (next_e e) zs" using link_change_chain[OF h1(4) dis] a(5) by simp
  have "set zs \<inter> addrs T1 = {}" using h1(3) dis Cons.prems(2) by auto
  from Cons.IH[OF h1(2,3) c _ this] Cons.prems(4,6) obtain h' T where
    h': "insert_rest (next_e e) z tol h1 = Some h'" "layout h' i T"
    "inorder T = (xs @ [tor]) @ z # zs @ ys" "link_change i ({NULL} \<union> set zs \<union> addrs T1) h1 h'"
    by auto
  have "tor \<noteq> NULL" using layout_not_NULL[OF Cons.prems(1)] Cons.prems(2) by auto
  with h1(1) h'(1) a have "insert_rest a tor tol h = Some h'" by (simp add: insert_rest_unfold)
  moreover have "link_change i ({NULL} \<union> set (z # zs) \<union> addrs t) h h'"
    by (rule link_change_trans[OF link_change_mono[OF h1(4)] link_change_mono[OF h'(4)]])
      (use h1(3) Cons.prems(2) in auto)
  ultimately show ?case using h' by auto
qed

lemma insert_rest_left:
  assumes "layout h i t" "inorder t = xs @ tol # ys" "chain h a zs" "distinct zs"
    "set zs \<inter> addrs t = {}" "NULL \<notin> set zs"
  shows "\<exists>h' T. insert_rest a NULL tol h = Some h' \<and> layout h' i T \<and>
    inorder T = xs @ zs @ tol # ys \<and> link_change i ({NULL} \<union> set zs \<union> addrs t) h h'"
  using assms
proof (induction zs arbitrary: h t xs a)
  case Nil
  then show ?case
    by (intro exI[of _ h] exI[of _ t]) (auto simp: insert_rest.simps link_change_refl)
next
  case (Cons z zs)
  from Cons.prems(3) obtain e where a: "a = z" "z \<noteq> NULL" "fresh_ext h z"
    "exts h z = Some e" "chain h (next_e e) zs" by (auto simp: fld_eq_Some)
  have "z \<notin> addrs t" using Cons.prems(5) by auto
  from place_left_correct[OF Cons.prems(1,2) a(3) this] obtain h1 T1 where
    h1: "place_left tol z h = Some h1" "layout h1 i T1" "inorder T1 = (xs @ [z]) @ tol # ys"
    "link_change i ({NULL, z} \<union> addrs t) h h1" by auto
  have dis: "set zs \<inter> ({NULL, z} \<union> addrs t) = {}" using Cons.prems(4-6) by auto
  have c: "chain h1 (next_e e) zs" using link_change_chain[OF h1(4) dis] a(5) by simp
  have "set zs \<inter> addrs T1 = {}" using h1(3) dis Cons.prems(2) by auto
  from Cons.IH[OF h1(2,3) c _ this] Cons.prems(4,6) obtain h' T where
    h': "insert_rest (next_e e) NULL tol h1 = Some h'" "layout h' i T"
    "inorder T = (xs @ [z]) @ zs @ tol # ys" "link_change i ({NULL} \<union> set zs \<union> addrs T1) h1 h'"
    by auto
  have "tol \<noteq> NULL" using layout_not_NULL[OF Cons.prems(1)] Cons.prems(2) by auto
  with h1(1) h'(1) a have "insert_rest a NULL tol h = Some h'" by (simp add: insert_rest_unfold)
  moreover have "link_change i ({NULL} \<union> set (z # zs) \<union> addrs t) h h'"
    by (rule link_change_trans[OF link_change_mono[OF h1(4)] link_change_mono[OF h'(4)]])
      (use h1(3) Cons.prems(2) in auto)
  ultimately show ?case using h' by auto
qed

section \<open>Removing an extent\<close>

lemma unlink_list_correct:
  assumes d: "dll h NULL (xs @ x # ys) NULL" "distinct (xs @ x # ys)" "NULL \<notin> set (xs @ x # ys)"
  shows "\<exists>h'. unlink_list x h = Some h' \<and> dll h' NULL (xs @ ys) NULL \<and> exts h' x = exts h x \<and>
    link_change i (set (xs @ x # ys)) h h' \<and> (\<forall>j t C. focus h' j t C = focus h j t C)"
proof -
  let ?p = "final NULL xs" and ?n = "first ys NULL"
  define h1 where "h1 = (if xs = [] then h else mod_ext ?p (next_e_update (\<lambda>_. ?n)) h)"
  define h2 where "h2 = (if ys = [] then h1 else mod_ext ?n (prev_e_update (\<lambda>_. ?p)) h1)"
  have p: "xs = [] \<longleftrightarrow> ?p = NULL" "xs \<noteq> [] \<Longrightarrow> ?p \<in> set xs"
    using d(3) by (cases xs rule: rev_cases; auto)+
  have n: "ys = [] \<longleftrightarrow> ?n = NULL" "ys \<noteq> [] \<Longrightarrow> ?n \<in> set ys" using d(3) by (cases ys; auto)+
  have v: "xs \<noteq> [] \<Longrightarrow> valid h ?p" "ys \<noteq> [] \<Longrightarrow> valid h ?n"
    using dll_valid[OF d(1)] p(2) n(2) by auto
  obtain e where e: "exts h x = Some e" "prev_e e = ?p" "next_e e = ?n"
    using dll_prev[OF d(1)] dll_next[OF d(1)] by (auto simp: fld_eq_Some)
  have x: "xs \<noteq> [] \<Longrightarrow> ?p \<noteq> x" "ys \<noteq> [] \<Longrightarrow> ?n \<noteq> x" using p(2) n(2) d(2) by auto
  have "unlink_list x h = Some h2"
    using e p(1) n(1) v by (auto simp: unlink_list_def upd_ext_eval h1_def h2_def)
  moreover have "dll h2 NULL (xs @ ys) NULL"
    unfolding h2_def h1_def by (rule dll_unlink[OF d(1,2)]) simp_all
  moreover have "exts h2 x = exts h x" using x by (auto simp: h2_def h1_def)
  moreover have "link_change i (set (xs @ x # ys)) h h2"
    using p(2) n(2) by (auto simp: h2_def h1_def intro!: link_step link_change_refl)
  moreover have "focus h2 j t C = focus h j t C" for j t C
    by (auto simp: h2_def h1_def focus_keep)
  ultimately show ?thesis by blast
qed

text \<open>A subtree of the store is put into the hole of a context.\<close>

definition graft :: "addr \<Rightarrow> ctx \<Rightarrow> addr \<Rightarrow> store \<Rightarrow> store" where
  "graft i C u h = mod_slot (hole_slot i C) u
     (mod_ext u (\<lambda>e. e\<lparr>parent := hole_parent C, pivot := hole_slot i C\<rparr>) h)"

lemma mod_slot_mod_ext:
  assumes "s \<noteq> SLeft q" "s \<noteq> SRight q"
  shows "mod_slot s x (mod_ext q f h) = mod_ext q f (mod_slot s x h)"
  using assms by (cases s) (auto simp: mod_ext_def mod_ino_def fun_upd_twist)

lemma graft_focus:
  assumes c: "ctr h i x C" "distinct (ctx_addrs C)" and t: "tr h p s u" "distinct (inorder u)"
    and di: "addrs u \<inter> set (ctx_addrs C) = {}" and N: "null_ok h"
  shows "focus (graft i C (root u) h) i u C"
    "tree_change i ({NULL} \<union> addrs u \<union> set (ctx_addrs C)) h (graft i C (root u) h)"
proof -
  let ?h = "mod_ext (root u) (\<lambda>e. e\<lparr>parent := hole_parent C, pivot := hole_slot i C\<rparr>) h"
  have ns: "hole_slot i C = SLeft a \<or> hole_slot i C = SRight a \<Longrightarrow> a \<notin> addrs u" for a
    using hole_slot_in[of i C a] di by auto
  have r: "root u \<notin> set (ctx_addrs C)"
    using ctr_not_NULL[OF c(1)] di root_cases[of u] by auto
  have "ctr ?h i x C" using c(1) r by simp
  from ctr_mod_slot[OF this c(2)] have "ctr (graft i C (root u) h) i (root u) C"
    by (simp add: graft_def)
  moreover have "tr (graft i C (root u) h) (hole_parent C) (hole_slot i C) u"
    using tr_relink[OF t N] ns by (simp add: graft_def tr_mod_slot)
  ultimately show "focus (graft i C (root u) h) i u C"
    using c(2) t(2) di N by (simp add: focus_def graft_def)
  show "tree_change i ({NULL} \<union> addrs u \<union> set (ctx_addrs C)) h (graft i C (root u) h)"
    unfolding graft_def
    by (rule tree_change_trans[OF tree_change_mod_ext tree_change_mod_slot])
      (use root_cases[of u] hole_slot_in[of i C] in \<open>auto elim: hole_slot.elims\<close>)
qed

lemma focus_BinD:
  assumes "focus h i (Bin l x d r) C"
  shows "ctr h i x C" "distinct (ctx_addrs C)" "tr h x (SLeft x) l" "tr h x (SRight x) r"
    "distinct (inorder l)" "distinct (inorder r)" "addrs l \<inter> addrs r = {}" "null_ok h"
    "addrs l \<inter> set (ctx_addrs C) = {}" "addrs r \<inter> set (ctx_addrs C) = {}"
    "x \<notin> addrs l" "x \<notin> addrs r" "x \<notin> set (ctx_addrs C)"
    "tnode h x (hole_parent C) (hole_slot i C) d (root l) (root r)"
  using assms by (auto simp: focus_def)

text \<open>An extent is taken out of the tree and another one takes its place.\<close>

definition swap_in :: "addr \<Rightarrow> ctx \<Rightarrow> addr \<Rightarrow> int \<Rightarrow> addr \<Rightarrow> addr \<Rightarrow> store \<Rightarrow> store" where
  "swap_in i C y d l r h =
     mod_ext r (\<lambda>e. e\<lparr>parent := y, pivot := SRight y\<rparr>)
    (mod_ext l (\<lambda>e. e\<lparr>parent := y, pivot := SLeft y\<rparr>)
    (mod_ext y (\<lambda>e. e\<lparr>pivot := hole_slot i C, parent := hole_parent C, left := l, right := r, depth := d\<rparr>)
    (mod_slot (hole_slot i C) y h)))"

lemma swap_in_focus:
  assumes f: "focus h i (Bin l x d r) C"
    and y: "valid h y" "y \<notin> addrs l" "y \<notin> addrs r" "y \<notin> set (ctx_addrs C)"
  shows "focus (swap_in i C y d (root l) (root r) h) i (Bin l y d r) C"
    "tree_change i ({NULL, y} \<union> addrs l \<union> addrs r \<union> set (ctx_addrs C)) h
      (swap_in i C y d (root l) (root r) h)"
proof -
  note F = focus_BinD[OF f]
  let ?h0 = "mod_slot (hole_slot i C) y h"
  let ?f = "\<lambda>e. e\<lparr>pivot := hole_slot i C, parent := hole_parent C, left := root l, right := root r,
    depth := d\<rparr>"
  let ?h1 = "mod_ext y ?f ?h0"
  let ?h2 = "mod_ext (root l) (\<lambda>e. e\<lparr>parent := y, pivot := SLeft y\<rparr>) ?h1"
  let ?h3 = "mod_ext (root r) (\<lambda>e. e\<lparr>parent := y, pivot := SRight y\<rparr>) ?h2"
  have h3: "swap_in i C y d (root l) (root r) h = ?h3" by (simp add: swap_in_def)
  have y0: "y \<noteq> NULL" using y(1) F(8) by (auto simp: valid_def null_ok_def intro: gr0I)
  have Nl: "NULL \<notin> addrs l" "NULL \<notin> addrs r" "NULL \<notin> set (ctx_addrs C)"
    using tr_not_NULL[OF F(3)] tr_not_NULL[OF F(4)] ctr_not_NULL[OF F(1)] by auto
  have rl: "root l \<noteq> y" "root r \<noteq> y" "root l \<notin> set (ctx_addrs C)" "root r \<notin> set (ctx_addrs C)"
    "root l \<notin> addrs r" "root r \<notin> addrs l"
    using root_cases[of l] root_cases[of r] Nl y y0 F(7,9,10) by auto
  have ns: "hole_slot i C = SLeft a \<or> hole_slot i C = SRight a \<Longrightarrow> a \<in> set (ctx_addrs C)" for a
    using hole_slot_in[of i C a] by auto
  have "ctr ?h0 i y C" by (rule ctr_mod_slot[OF F(1,2)])
  then have c: "ctr ?h3 i y C" using y(4) rl by simp
  have "a \<notin> addrs l \<and> a \<notin> addrs r" if "hole_slot i C = SLeft a \<or> hole_slot i C = SRight a" for a
    using ns[OF that] F(9,10) by auto
  then have t0: "tr ?h0 x (SLeft x) l" "tr ?h0 x (SRight x) r"
    using F(3,4) by (auto simp: tr_mod_slot)
  then have "tr ?h1 x (SLeft x) l" using y(2) by simp
  from tr_relink[OF this F(5)] have l: "tr ?h3 y (SLeft y) l" using rl F(8) by simp
  have "tr ?h2 x (SRight x) r" using t0 y(3) rl by simp
  from tr_relink[OF this F(6)] have r: "tr ?h3 y (SRight y) r" using F(8) by simp
  have "tnode ?h3 y (hole_parent C) (hole_slot i C) d (root l) (root r)"
    using y(1) y0 rl ns[of y] y(4) unfolding tnode_iff
    by (auto simp: fld_def exts_mod_slot valid_def)
  with c l r F y show "focus (swap_in i C y d (root l) (root r) h) i (Bin l y d r) C"
    unfolding h3 by (auto simp: focus_def)
  let ?A = "{NULL, y} \<union> addrs l \<union> addrs r \<union> set (ctx_addrs C)"
  have A: "root l \<in> ?A" "root r \<in> ?A" using root_cases[of l] root_cases[of r] by auto
  have s: "tree_change i ?A h k \<Longrightarrow> p \<in> ?A \<Longrightarrow> (\<And>e. core (g e) = core e) \<Longrightarrow>
      tree_change i ?A h (mod_ext p g k)" for p g k
    by (erule tree_change_trans) (rule tree_change_mod_ext)
  have "tree_change i ?A h ?h0"
    by (rule tree_change_mod_slot) (auto dest: ns elim: hole_slot.elims)
  then show "tree_change i ?A h (swap_in i C y d (root l) (root r) h)"
    unfolding h3 by (intro s A) simp_all
qed

lemma rightmost:
  "l \<noteq> Tip \<Longrightarrow> \<exists>Cl ll a da. l = plug Cl (Bin ll a da Tip) \<and> right_of Cl = []"
proof (induction l)
  case (Bin l a d r)
  show ?case
  proof (cases "r = Tip")
    case True
    then show ?thesis by (intro exI[of _ "[]"]) auto
  next
    case False
    with Bin.IH(2) obtain Cl ll b da where "r = plug Cl (Bin ll b da Tip)" "right_of Cl = []" by blast
    then show ?thesis
      by (intro exI[of _ "Cl @ [RFrame l a d]"] exI[of _ ll] exI[of _ b] exI[of _ da])
        (simp add: plug_append right_of_append)
  qed
qed simp

text \<open>The result of taking an extent out of the tree: a context with a subtree that may have become
  lower by one.\<close>

definition hole_made :: "addr \<Rightarrow> addr list \<Rightarrow> addr \<Rightarrow> store \<Rightarrow> bool" where
  "hole_made i zs rebe h \<longleftrightarrow> (\<exists>u C n. focus h i u C \<and> rebe = hole_parent C \<and> avl u \<and> cavl n C \<and>
     \<bar>dep u - n\<bar> \<le> 1 \<and> inorder (plug C u) = zs)"

lemma unlink_one_child:
  assumes f: "focus h i (Bin l x d r) C" and a: "avl (plug C (Bin l x d r))"
    and one: "l = Tip \<or> r = Tip"
  shows "\<exists>h' rebe. unlink_tree x h = Some (rebe, h') \<and>
    hole_made i (left_of C @ inorder l @ inorder r @ right_of C) rebe h' \<and>
    tree_change i ({NULL, x} \<union> addrs l \<union> addrs r \<union> set (ctx_addrs C)) h h'"
proof -
  define u where "u = (if l = Tip then r else l)"
  note F = focus_BinD[OF f]
  obtain t where t: "exts h x = Some t" "parent t = hole_parent C" "pivot t = hole_slot i C"
    "left t = root l" "right t = root r" using F(14) by (auto simp: tnode_def)
  have rl: "root l = NULL \<longleftrightarrow> l = Tip" "root r = NULL \<longleftrightarrow> r = Tip"
    using tr_root_NULL[OF F(3)] tr_root_NULL[OF F(4)] by simp_all
  obtain p s where u: "tr h p s u" "distinct (inorder u)" "addrs u \<inter> set (ctx_addrs C) = {}"
    using F unfolding u_def by (cases "l = Tip") auto
  note G = graft_focus[OF F(1,2) u F(8)]
  have "root u = NULL \<or> valid h (root u)" using root_cases[of u] tr_valid[OF u(1)] by auto
  moreover have "read_slot (hole_slot i C) (mod_ext (root u)
      (\<lambda>e. e\<lparr>parent := hole_parent C, pivot := hole_slot i C\<rparr>) h) = Some x"
    using read_slot_hole[OF F(1)] by simp
  ultimately have "unlink_tree x h = Some (hole_parent C, graft i C (root u) h)"
    using t rl one F(8)
    by (auto simp: unlink_tree_def set_up_eval write_slot_eval graft_def u_def Let_def)
  moreover have "hole_made i (left_of C @ inorder l @ inorder r @ right_of C) (hole_parent C)
      (graft i C (root u) h)"
  proof -
    from a have "avl (Bin l x d r)" "cavl d C" by (auto simp: avl_plug)
    moreover from this one have "avl u" "\<bar>dep u - d\<bar> \<le> 1"
      using avl_dep_nonneg[of l] avl_dep_nonneg[of r] by (auto simp: u_def max_def)
    moreover have "inorder (plug C u) = left_of C @ inorder l @ inorder r @ right_of C"
      using one by (auto simp: u_def inorder_plug)
    ultimately show ?thesis using G(1) unfolding hole_made_def by blast
  qed
  moreover have "tree_change i ({NULL, x} \<union> addrs l \<union> addrs r \<union> set (ctx_addrs C)) h
      (graft i C (root u) h)"
    by (rule tree_change_mono[OF G(2)]) (auto simp: u_def)
  ultimately show ?thesis by blast
qed

text \<open>The predecessor takes the place of an extent that has two children.\<close>

lemma unlink_tree_two:
  assumes t0: "exts h x = Some t0" "left t0 \<noteq> NULL" "right t0 \<noteq> NULL" "prev_e t0 = a"
    and ea: "exts h a = Some ea" "right ea = NULL" "left ea = root ll" "pivot ea = hole_slot i D"
      "parent ea = hole_parent D"
    and D: "ctr h i a D" "root ll \<notin> set (ctx_addrs D)" "root ll = NULL \<or> valid h (root ll)" "null_ok h"
    and t1: "exts (graft i D (root ll) h) x = Some t1" "pivot t1 = hole_slot i C" "parent t1 = hole_parent C"
      "left t1 = l'" "right t1 = r" "depth t1 = d"
    and C: "ctr (graft i D (root ll) h) i x C" "l' = NULL \<or> valid h l'" "valid h r"
  shows "unlink_tree x h = Some (if hole_parent D = x then a else hole_parent D,
    swap_in i C a d l' r (graft i D (root ll) h))"
proof -
  let ?h1 = "graft i D (root ll) h"
  have ns: "hole_slot i D \<noteq> SLeft (root ll)" "hole_slot i D \<noteq> SRight (root ll)"
    using hole_slot_in[of i D "root ll"] D(2) by auto
  have w1: "write_slot (hole_slot i D) (root ll) h = Some (mod_slot (hole_slot i D) (root ll) h)"
    by (rule write_slot_eval[OF read_slot_hole[OF D(1)]])
  have s1: "set_up (root ll) (hole_parent D) (hole_slot i D) (mod_slot (hole_slot i D) (root ll) h) =
      Some ?h1"
    using D(3,4) by (simp add: set_up_eval graft_def mod_slot_mod_ext[OF ns])
  have w2: "write_slot (hole_slot i C) a ?h1 = Some (mod_slot (hole_slot i C) a ?h1)"
    by (rule write_slot_eval[OF read_slot_hole[OF C(1)]])
  have v: "valid ?h1 q = valid h q" for q by (simp add: graft_def)
  have n: "null_ok ?h1" using D(4) by (simp add: graft_def)
  have "valid h a" using ea(1) by (simp add: valid_def)
  then show ?thesis
    using t0 ea w1 s1 t1 w2 C(2,3) n v
    by (simp add: unlink_tree_def upd_ext_eval set_up_eval swap_in_def Let_def)
qed

lemma unlink_two_children:
  assumes f: "focus h i (Bin l x d r) C" and a: "avl (plug C (Bin l x d r))"
    and ne: "l \<noteq> Tip" "r \<noteq> Tip" and pe: "fld prev_e h x = Some (final NULL (inorder l))"
  shows "\<exists>h' rebe. unlink_tree x h = Some (rebe, h') \<and>
    hole_made i (left_of C @ inorder l @ inorder r @ right_of C) rebe h' \<and>
    tree_change i ({NULL, x} \<union> addrs l \<union> addrs r \<union> set (ctx_addrs C)) h h'"
proof -
  from rightmost[OF ne(1)] obtain Cl ll a da where
    l: "l = plug Cl (Bin ll a da Tip)" "right_of Cl = []" by blast
  then have io: "inorder l = left_of Cl @ inorder ll @ [a]" by (simp add: inorder_plug)
  define D where "D y = Cl @ LFrame y d r # C" for y
  define l' where "l' = plug Cl ll"
  have plD: "plug (D y) u = plug C (Bin (plug Cl u) y d r)" for y u by (simp add: D_def plug_append)
  have foc: "focus k i u (D y) \<longleftrightarrow> focus k i (Bin (plug Cl u) y d r) C" for k u y
    using focus_plug[of k i "D y" u] focus_plug[of k i C "Bin (plug Cl u) y d r"] by (simp add: plD)
  have setD: "set (ctx_addrs (D y)) = set (ctx_addrs Cl) \<union> {y} \<union> addrs r \<union> set (ctx_addrs C)" for y
    by (auto simp: D_def set_ctx_addrs left_of_append right_of_append)
  have setl: "addrs l = set (ctx_addrs Cl) \<union> addrs ll \<union> {a}" "addrs l' = set (ctx_addrs Cl) \<union> addrs ll"
    using io l(2) by (auto simp: l'_def inorder_plug set_ctx_addrs)
  note F = focus_BinD[OF f]
  have fa: "focus h i (Bin ll a da Tip) (D x)" using f l(1) by (simp add: foc)
  note Fa = focus_BinD[OF fa]
  note G = graft_focus[OF Fa(1,2,3,5,9) F(8)]
  let ?h1 = "graft i (D x) (root ll) h"
  have f1: "focus ?h1 i (Bin l' x d r) C" using G(1) by (simp add: foc l'_def)
  note F1 = focus_BinD[OF f1]
  have aN: "a \<notin> addrs l'" "a \<notin> addrs r" "a \<notin> set (ctx_addrs C)"
    using Fa(11,13) setl(2) by (auto simp: setD)
  have va: "valid ?h1 q = valid h q" for q by (simp add: graft_def)
  have va1: "valid h a" using Fa(14) by (auto simp: tnode_def valid_def)
  note S = swap_in_focus[OF f1 _ aN, unfolded va, OF va1]
  let ?h2 = "swap_in i C a d (root l') (root r) ?h1"
  obtain t0 where t0: "exts h x = Some t0" "left t0 = root l" "right t0 = root r" "prev_e t0 = a"
    using F(14) pe io by (auto simp: tnode_def fld_eq_Some final_append)
  have nz: "root l \<noteq> NULL" "root r \<noteq> NULL" using tr_root_NULL[OF F(3)] tr_root_NULL[OF F(4)] ne by auto
  obtain ea where ea: "exts h a = Some ea" "right ea = NULL" "left ea = root ll"
    "pivot ea = hole_slot i (D x)" "parent ea = hole_parent (D x)"
    using Fa(14) by (auto simp: tnode_def)
  obtain t1 where t1: "exts ?h1 x = Some t1" "pivot t1 = hole_slot i C" "parent t1 = hole_parent C"
    "left t1 = root l'" "right t1 = root r" "depth t1 = d"
    using F1(14) by (auto simp: tnode_def)
  have rll: "root ll \<notin> set (ctx_addrs (D x))" "root ll = NULL \<or> valid h (root ll)"
    using root_cases[of ll] ctr_not_NULL[OF Fa(1)] Fa(9) tr_valid[OF Fa(3)] by auto
  have vs: "root l' = NULL \<or> valid h (root l')" "valid h (root r)"
    using root_cases[of l'] tr_valid[OF F1(3)] root_cases[of r] tr_valid[OF F(4)] nz by (auto simp: va)
  have "hole_parent (D a) = (if hole_parent (D x) = x then a else hole_parent (D x))"
  proof (cases Cl)
    case (Cons fr Cl')
    then have "hole_parent Cl \<in> set (ctx_addrs Cl)" by simp
    with setl(1) F(11) have "hole_parent Cl \<noteq> x" by auto
    with Cons show ?thesis by (simp add: D_def)
  qed (simp add: D_def)
  with unlink_tree_two[OF t0(1) _ _ t0(4) ea Fa(1) rll F(8) t1 F1(1) vs] t0 nz
  have "unlink_tree x h = Some (hole_parent (D a), ?h2)" by simp
  moreover have "hole_made i (left_of C @ inorder l @ inorder r @ right_of C) (hole_parent (D a)) ?h2"
  proof -
    from a l(1) have "avl (plug (D a) (Bin ll a da Tip))" unfolding plD avl_plug[of C] by auto
    then have "avl ll" "cavl da (D a)" "\<bar>dep ll - da\<bar> \<le> 1"
      using avl_dep_nonneg[of ll] by (auto simp: avl_plug max_def)
    moreover have "focus ?h2 i ll (D a)" using S(1) by (simp add: foc l'_def)
    moreover have "inorder (plug (D a) ll) = left_of C @ inorder l @ inorder r @ right_of C"
      using l(2) by (simp add: plD inorder_plug io)
    ultimately show ?thesis unfolding hole_made_def by blast
  qed
  moreover have "tree_change i ({NULL, x} \<union> addrs l \<union> addrs r \<union> set (ctx_addrs C)) h ?h2"
    by (rule tree_change_trans[OF tree_change_mono[OF G(2)] tree_change_mono[OF S(2)]])
      (auto simp: setD setl)
  ultimately show ?thesis by blast
qed

lemma unlink_extent_correct:
  assumes L: "layout h i t" and t: "inorder t = xs @ x # ys"
  shows "\<exists>h' T. unlink_extent x h = Some h' \<and> layout h' i T \<and> inorder T = xs @ ys \<and>
    link_change i ({NULL} \<union> addrs t) h h'"
proof -
  from L have f0: "focus h i t []" and av: "avl t" and d: "dll h NULL (xs @ x # ys) NULL"
    and di: "distinct (inorder t)" and N: "NULL \<notin> set (xs @ x # ys)"
    using layout_not_NULL[OF L] by (auto simp: layout_def focus_def t)
  from node_exists[OF t di] obtain l dx r C where
    C: "plug C (Bin l x dx r) = t" "xs = left_of C @ inorder l" "ys = inorder r @ right_of C" by blast
  from unlink_list_correct[OF d _ N, of i] di obtain h1 where
    h1: "unlink_list x h = Some h1" "dll h1 NULL (xs @ ys) NULL" "exts h1 x = exts h x"
    "link_change i (addrs t) h h1" "\<And>j t C. focus h1 j t C = focus h j t C"
    by (auto simp: t)
  have f1: "focus h1 i (Bin l x dx r) C" using f0 h1(5) by (simp flip: C(1) add: focus_plug)
  have pe: "l \<noteq> Tip \<Longrightarrow> fld prev_e h1 x = Some (final NULL (inorder l))"
    using dll_prev[OF d] h1(3) C(2) by (cases "inorder l" rule: rev_cases)
      (auto simp: fld_def final_append, metis inorder.elims append_is_Nil_conv list.distinct(1))
  have "\<exists>h2 rebe. unlink_tree x h1 = Some (rebe, h2) \<and>
    hole_made i (left_of C @ inorder l @ inorder r @ right_of C) rebe h2 \<and>
    tree_change i ({NULL, x} \<union> addrs l \<union> addrs r \<union> set (ctx_addrs C)) h1 h2"
  proof (cases "l = Tip \<or> r = Tip")
    case True
    from unlink_one_child[OF f1 _ True] C(1) av show ?thesis by simp
  next
    case False
    then have "l \<noteq> Tip" "r \<noteq> Tip" by simp_all
    from unlink_two_children[OF f1 _ this pe[OF this(1)]] C(1) av show ?thesis by simp
  qed
  then obtain h2 rebe where h2: "unlink_tree x h1 = Some (rebe, h2)" "hole_made i (xs @ ys) rebe h2"
    "tree_change i ({NULL} \<union> addrs t) h1 h2"
    using C by (auto simp: inorder_plug set_ctx_addrs Un_ac insert_commute)
  from h2(2) obtain u D n where u: "focus h2 i u D" "rebe = hole_parent D" "avl u" "cavl n D"
    "\<bar>dep u - n\<bar> \<le> 1" "inorder (plug D u) = xs @ ys" by (auto simp: hole_made_def)
  from reb_up_avl[OF u(3-5)] u(6) obtain T where T: "reb_up u D = Some T" "avl T" "inorder T = xs @ ys"
    by auto
  from rebalance_reb_up[OF u(1) T(1)] obtain h' where h': "rebalance rebe h2 = Some h'" "focus h' i T []"
    "tree_change i (insert NULL (addrs u \<union> set (ctx_addrs D))) h2 h'" using u(2) by blast
  have "addrs u \<union> set (ctx_addrs D) = set (xs @ ys)"
    unfolding u(6)[symmetric] by (auto simp: inorder_plug set_ctx_addrs)
  then have ch: "tree_change i ({NULL} \<union> addrs t) h1 h'"
    using h2(3) h'(3) by (auto simp: t intro: tree_change_trans tree_change_mono)
  have "dll h' NULL (inorder T) NULL" using h1(2) T(3) tree_change_dll[OF ch] by simp
  moreover have "unlink_extent x h = Some h'" using h1 h2 h' by (simp add: unlink_extent_def)
  moreover have "link_change i ({NULL} \<union> addrs t) h h'"
    by (rule link_change_trans[OF link_change_mono[OF h1(4)] tree_link_change[OF ch]]) auto
  ultimately show ?thesis using h' T by (auto simp: layout_def)
qed

end
