(* ===== verification/File_Ops.thy ===== *)
theory File_Ops
  imports Replace
begin

text \<open>
  The operations on the layout of one inode: \<^verbatim>\<open>pado_write\<close>, \<^verbatim>\<open>pado_truncate\<close>,
  \<^verbatim>\<open>pado_clone\<close>, \<^verbatim>\<open>pado_read\<close> and the two readers of the metadata.
\<close>

section \<open>Writing\<close>

text \<open>The update of the times and of the version that ends every change of a layout.\<close>

definition touch :: "timespec \<Rightarrow> inode \<Rightarrow> inode" where
  "touch t n = n\<lparr>mtime := t, atime := (atime n)\<lparr>tv_sec := tv_sec t\<rparr>, version := version n + 1\<rparr>"

definition pado_write :: "addr \<Rightarrow> sz \<Rightarrow> sz \<Rightarrow> sz \<Rightarrow> store \<Rightarrow> (int \<times> store) option" where
  "pado_write d f o' l h =
     (if d = NULL then Some (err INVALID_DOBJECT, h)
      else do {
        x \<leftarrow> dobs h d;
        let i = d_inode x;
        (e, h) \<leftarrow> create_extent d f o' l h;
        (if e = NULL then Some (err INTERNAL_ERROR, h)
         else do {
           h \<leftarrow> upd_ino i (\<lambda>n. n\<lparr>isize := max (isize n) (f + l)\<rparr>) h;
           n \<leftarrow> inos h i;
           h \<leftarrow> (if flayout n \<noteq> NULL then replace i e e f (f + l) h
                else do {
                  h \<leftarrow> upd_ino i (\<lambda>n. n\<lparr>flayout := e\<rparr>) h;
                  upd_ext e (\<lambda>x. x\<lparr>pivot := SFlayout i\<rparr>) h });
           h \<leftarrow> upd_ino i (touch (clock h)) h;
           Some (ret_code SUCCESS, h) }) })"

definition pado_truncate :: "addr \<Rightarrow> sz \<Rightarrow> store \<Rightarrow> (int \<times> store) option" where
  "pado_truncate i newsize h = do {
     n \<leftarrow> inos h i;
     let oldsize = isize n;
     h \<leftarrow> upd_ino i (\<lambda>n. n\<lparr>isize := newsize\<rparr>) h;
     h \<leftarrow> (if newsize < oldsize then replace i NULL NULL newsize oldsize h else Some h);
     h \<leftarrow> upd_ino i (touch (clock h)) h;
     Some (ret_code SUCCESS, h) }"

section \<open>Cloning\<close>

text \<open>
  The loop that reads the segments to clone from the connection and builds the list of new extents:
  \<open>(alts, tail, store)\<close>.
\<close>

partial_function (option) clone_list ::
  "addr \<Rightarrow> sz \<Rightarrow> sz \<Rightarrow> addr \<Rightarrow> addr \<Rightarrow> store \<Rightarrow> (addr \<times> addr \<times> store) option" where
  "clone_list i start end' alts tail h = do {
     (hid, h) \<leftarrow> rd_u32 h;
     (l, h) \<leftarrow> rd_u64 h;
     (if hid = 0 \<and> l = 0 then Some (alts, tail, h)
      else do {
        (offset, h) \<leftarrow> rd_u64 h;
        (od, h) \<leftarrow> rd_u64 h;
        (length, h) \<leftarrow> rd_u64 h;
        let f = start + offset;
        (if f > end' then clone_list i start end' alts tail h
         else do {
           let length = (if f + length > end' then end' - f else length);
           (d, h) \<leftarrow> acquire_dobject hid l i 2 h;
           (e, h) \<leftarrow> create_extent d f od length h;
           (if alts = NULL then clone_list i start end' e e h
            else do {
              h \<leftarrow> upd_ext tail (\<lambda>x. x\<lparr>next_e := e\<rparr>) h;
              clone_list i start end' alts e h }) }) }) }"

declare clone_list.simps [code]

definition pado_clone :: "addr \<Rightarrow> sz \<Rightarrow> sz \<Rightarrow> store \<Rightarrow> (int \<times> store) option" where
  "pado_clone i start end' h = do {
     (alts, tail, h) \<leftarrow> clone_list i start end' NULL NULL h;
     h \<leftarrow> upd_ino i (\<lambda>n. n\<lparr>isize := max (isize n) end'\<rparr>) h;
     h \<leftarrow> replace i alts tail start end' h;
     h \<leftarrow> upd_ino i (touch (clock h)) h;
     Some (ret_code SUCCESS, h) }"

section \<open>Reading the layout\<close>

text \<open>A segment of the answer: the data object, the offset reported, the offset in the object, the length.\<close>

record segment =
  g_hid :: u32
  g_loid :: loid_t
  g_offset :: sz
  g_off_do :: sz
  g_len :: sz

definition seg_bytes :: "segment \<Rightarrow> u8 list" where
  "seg_bytes g = le 4 (g_hid g) @ le 8 (g_loid g) @ le 8 (g_offset g) @ le 8 (g_off_do g) @ le 8 (g_len g)"

definition end_mark :: "u8 list" where
  "end_mark = le 4 (0 :: u32) @ le 8 (0 :: 64 word)"

text \<open>
  The loop of \<^verbatim>\<open>pado_read\<close>: the segments it writes, and whether a hole was reported as a
  part of the base object.
\<close>

partial_function (option) read_loop ::
  "bool \<Rightarrow> ino_t \<Rightarrow> sz \<Rightarrow> addr \<Rightarrow> sz \<Rightarrow> sz \<Rightarrow> store \<Rightarrow> (segment list \<times> bool) option" where
  "read_loop flag bino end' cur f offset h =
     (if \<not> f < end' then Some ([], False)
      else do {
        next_off \<leftarrow> (if cur \<noteq> NULL then do { c \<leftarrow> exts h cur; Some (min end' (off_f c)) } else Some end');
        inrange \<leftarrow> (if cur \<noteq> NULL then do { c \<leftarrow> exts h cur; Some (off_f c < end') } else Some False);
        (if flag \<and> f < next_off then do {
           let length = next_off - f;
           (gs, b) \<leftarrow> read_loop flag bino end' cur (f + length) (offset + length) h;
           Some (\<lparr>g_hid = 0, g_loid = bino, g_offset = offset, g_off_do = f, g_len = length\<rparr> # gs, True) }
         else if inrange then do {
           c \<leftarrow> exts h cur;
           x \<leftarrow> dobs h (dobj c);
           let diff = max (f - off_f c) 0;
           let length = min end' (off_f c + len c) - f;
           (gs, b) \<leftarrow> read_loop flag bino end' (next_e c) (f + length) (offset + length) h;
           Some (\<lparr>g_hid = host_id (daddr x), g_loid = loid (daddr x), g_offset = offset,
             g_off_do = off_do c + diff, g_len = length\<rparr> # gs, b) }
         else Some ([], False)) })"

declare read_loop.simps [code]

definition pado_read :: "addr \<Rightarrow> bool \<Rightarrow> sz \<Rightarrow> sz \<Rightarrow> store \<Rightarrow> (int \<times> store) option" where
  "pado_read i flag start end' h = do {
     n \<leftarrow> inos h i;
     let end' = min end' (isize n);
     (if start \<ge> end' then Some (err INVALID_RANGE, wr end_mark h)
      else do {
        cur \<leftarrow> find_start_extent i start h;
        let bino = (if with_ms h then base_ino n else ino n);
        (gs, base_cloned) \<leftarrow> read_loop flag bino end' cur start (if flag then 0 else start) h;
        Some (if base_cloned then err BASE_CLONED else ret_code SUCCESS,
              wr (concat (map seg_bytes gs) @ end_mark) h) }) }"

section \<open>Metadata\<close>

definition meta_bytes :: "bool \<Rightarrow> inode option \<Rightarrow> u8 list" where
  "meta_bytes ms m = (case m of
     Some n \<Rightarrow> (if ms then le 8 (base_ino n) else []) @ le 8 (isize n) @ le 8 (tv_sec (atime n)) @
       le 8 (tv_sec (mtime n)) @ le 8 (version n) @ le 1 (flags n)
   | None \<Rightarrow> (if ms then le 8 (0 :: 64 word) else []) @ le 8 (0 :: 64 word) @ le 8 (0 :: 64 word) @
       le 8 (0 :: 64 word) @ le 8 (0 :: 64 word) @ le 1 (0 :: u8))"

text \<open>\<open>i\<close> is the null pointer when there is no such inode.\<close>

definition pado_getinode_meta :: "addr \<Rightarrow> store \<Rightarrow> (int \<times> store) option" where
  "pado_getinode_meta i h =
     (if i = NULL then Some (err INVALID_INO, wr (meta_bytes (with_ms h) None) h)
      else do { n \<leftarrow> inos h i; Some (ret_code SUCCESS, wr (meta_bytes (with_ms h) (Some n)) h) })"

partial_function (option) layout_bytes :: "addr \<Rightarrow> store \<Rightarrow> u8 list option" where
  "layout_bytes cur h = (if cur = NULL then Some []
     else do {
       c \<leftarrow> exts h cur;
       x \<leftarrow> dobs h (dobj c);
       bs \<leftarrow> layout_bytes (next_e c) h;
       Some (le 4 (host_id (daddr x)) @ le 8 (loid (daddr x)) @ le 8 (off_f c) @ le 8 (off_do c) @
         le 8 (len c) @ bs) })"

declare layout_bytes.simps [code]

definition pado_getinode_all :: "addr \<Rightarrow> store \<Rightarrow> (int \<times> store) option" where
  "pado_getinode_all i h = do {
     (r, h) \<leftarrow> pado_getinode_meta i h;
     (if i = NULL then Some (err INVALID_INO, wr (le 4 (0 :: u32)) h)
      else do {
        n \<leftarrow> inos h i;
        cur \<leftarrow> find_start_extent i 0 h;
        bs \<leftarrow> layout_bytes cur h;
        Some (ret_code SUCCESS, wr (le 4 (num_exts n) @ bs) h) }) }"

end
