(* ===== verification/Extent_Map.thy ===== *)
theory Extent_Map
  imports Layout File_Ops
begin

text \<open>
  What the sequence of extents of an inode means: a map from the offsets of the file to places in
  data objects. The search \<^verbatim>\<open>find_start_extent\<close> and the answer of \<^verbatim>\<open>pado_read\<close> are
  shown to agree with it.
\<close>

section \<open>Ordered extents\<close>

text \<open>An extent is not empty, does not wrap around, and ends before the next one starts.\<close>

definition proper :: "extent \<Rightarrow> bool" where
  "proper e \<longleftrightarrow> off_f e < off_f e + len e"

definition precedes :: "store \<Rightarrow> addr \<Rightarrow> addr \<Rightarrow> bool" where
  "precedes h a b \<longleftrightarrow> (case (exts h a, exts h b) of
     (Some e, Some f) \<Rightarrow> off_f e + len e \<le> off_f f | _ \<Rightarrow> False)"

definition ordered :: "store \<Rightarrow> addr list \<Rightarrow> bool" where
  "ordered h xs \<longleftrightarrow> (\<forall>a \<in> set xs. \<exists>e. exts h a = Some e \<and> proper e) \<and> sorted_wrt (precedes h) xs"

definition ends_after :: "store \<Rightarrow> sz \<Rightarrow> addr \<Rightarrow> bool" where
  "ends_after h p a \<longleftrightarrow> (case exts h a of Some e \<Rightarrow> p < off_f e + len e | None \<Rightarrow> False)"

lemma ordered_append:
  "ordered h (xs @ ys) \<longleftrightarrow> ordered h xs \<and> ordered h ys \<and> (\<forall>a \<in> set xs. \<forall>b \<in> set ys. precedes h a b)"
  by (auto simp: ordered_def sorted_wrt_append)

lemma ordered_Cons:
  "ordered h (a # ys) \<longleftrightarrow> (\<exists>e. exts h a = Some e \<and> proper e) \<and> ordered h ys \<and> (\<forall>b \<in> set ys. precedes h a b)"
  by (auto simp: ordered_def)

lemma precedes_ends:
  assumes "precedes h a b" "exts h b = Some f" "proper f"
  shows "ends_after h (off_f f) a \<longleftrightarrow> False" "off_f f \<le> p \<Longrightarrow> \<not> ends_after h p a"
    "ends_after h p a \<Longrightarrow> ends_after h p b"
  using assms by (auto simp: precedes_def ends_after_def proper_def split: option.splits)

lemma ends_after_mono: "ends_after h q a \<Longrightarrow> p \<le> q \<Longrightarrow> ends_after h p a"
  by (auto simp: ends_after_def split: option.splits)

lemma dropWhile_filter:
  assumes "ordered h xs"
  shows "filter (ends_after h p) xs = dropWhile (\<lambda>a. \<not> ends_after h p a) xs"
  using assms
proof (induction xs)
  case (Cons a xs)
  show ?case
  proof (cases "ends_after h p a")
    case True
    have "ends_after h p b" if "b \<in> set xs" for b
    proof -
      from Cons.prems that obtain f where "exts h b = Some f" "proper f" "precedes h a b"
        by (fastforce simp: ordered_def)
      with True show ?thesis using precedes_ends(3) by blast
    qed
    with True show ?thesis by simp
  qed (use Cons in \<open>simp add: ordered_Cons\<close>)
qed simp

section \<open>The search\<close>

lemma find_start_focus:
  assumes "focus h i t C" "t \<noteq> Tip" "dll h NULL (left_of C @ inorder t @ right_of C) NULL"
    "ordered h (left_of C @ inorder t @ right_of C)"
    "\<And>a. a \<in> set (left_of C) \<Longrightarrow> \<not> ends_after h p a" "\<And>b. b \<in> set (right_of C) \<Longrightarrow> ends_after h p b"
  shows "find_start (root t) p h = Some (first (filter (ends_after h p) (inorder t @ right_of C)) NULL)"
  using assms
proof (induction t arbitrary: C)
  case (Bin l a d r)
  note F = focus_BinD[OF Bin.prems(1)]
  have L: "focus h i l (LFrame a d r # C)" and R: "focus h i r (RFrame l a d # C)"
    using Bin.prems(1) by (simp_all add: focus_up)
  obtain e where e: "exts h a = Some e" "left e = root l" "right e = root r" "a \<noteq> NULL"
    using F(14) by (auto simp: tnode_def)
  have o: "ordered h (left_of C)" "ordered h (inorder l)" "ordered h (inorder r)" "ordered h (right_of C)"
    "proper e" "\<And>x. x \<in> set (inorder l) \<Longrightarrow> precedes h x a"
    "\<And>y. y \<in> set (inorder r @ right_of C) \<Longrightarrow> precedes h a y \<and> (\<exists>f. exts h y = Some f \<and> proper f)"
    using Bin.prems(4) e(1) by (auto simp: ordered_append ordered_Cons) (auto simp: ordered_def)
  have lNULL: "root l = NULL \<longleftrightarrow> l = Tip" "root r = NULL \<longleftrightarrow> r = Tip"
    using tr_root_NULL[OF F(3)] tr_root_NULL[OF F(4)] by simp_all
  have la: "\<not> ends_after h p x" if "off_f e \<le> p" "x \<in> addrs l" for x
    using precedes_ends(2)[OF o(6)[OF that(2)] e(1) o(5) that(1)] .
  have ra: "ends_after h p y" if "ends_after h p a" "y \<in> set (inorder r @ right_of C)" for y
    using o(7)[OF that(2)] precedes_ends(3)[of h a y] that(1) by blast
  have ea: "ends_after h p a \<longleftrightarrow> p < off_f e + len e" using e(1) by (simp add: ends_after_def)
  consider (mid) "off_f e \<le> p" "p < off_f e + len e" | (lt) "p < off_f e"
    | (ge) "off_f e + len e \<le> p" by fastforce
  then show ?case
  proof cases
    case mid
    then have "filter (ends_after h p) (inorder l) = []" using la by (auto simp: filter_empty_conv)
    with mid e ea show ?thesis by (subst find_start.simps) (simp add: Let_def)
  next
    case lt
    then have pa: "ends_after h p a" using o(5) ea by (auto simp: proper_def)
    have lt': "off_f e \<le> p \<longleftrightarrow> False" using lt by (simp add: not_le)
    show ?thesis
    proof (cases "l = Tip")
      case True
      with lt e pa o(5) lNULL show ?thesis by (subst find_start.simps) (simp add: Let_def lt')
    next
      case False
      have "find_start (root l) p h =
          Some (first (filter (ends_after h p) (inorder l @ right_of (LFrame a d r # C))) NULL)"
        using Bin.IH(1)[OF L False] Bin.prems pa ra by auto
      with lt e lNULL False show ?thesis by (subst find_start.simps) (simp add: Let_def lt')
    qed
  next
    case ge
    with o(5) have pe: "off_f e < p" by (auto simp: proper_def)
    have na: "\<not> ends_after h p a" using ge ea by simp
    have ge': "p < off_f e + len e \<longleftrightarrow> False" "p < off_f e \<longleftrightarrow> False"
      using ge pe by (simp_all add: not_less less_imp_le)
    have nl: "filter (ends_after h p) (inorder l) = []"
      using la pe by (auto simp: filter_empty_conv less_imp_le)
    show ?thesis
    proof (cases "r = Tip")
      case True
      have "fld next_e h a = Some (first (right_of C) NULL)"
        using dll_next[of _ _ h NULL "left_of C @ inorder l" a "right_of C" NULL] Bin.prems(3) True by simp
      then have "next_e e = first (right_of C) NULL" using e(1) by (simp add: fld_def)
      moreover have "filter (ends_after h p) (right_of C) = right_of C"
        using Bin.prems(6) by (auto simp: filter_id_conv)
      ultimately show ?thesis using ge pe e lNULL True na nl
        by (subst find_start.simps) (simp add: Let_def ge')
    next
      case False
      have "\<And>x. x \<in> set (left_of (RFrame l a d # C)) \<Longrightarrow> \<not> ends_after h p x"
        using Bin.prems(5) la pe na by (auto simp: less_imp_le)
      then have "find_start (root r) p h =
          Some (first (filter (ends_after h p) (inorder r @ right_of (RFrame l a d # C))) NULL)"
        using Bin.IH(2)[OF R False] Bin.prems by auto
      with ge pe e lNULL False na nl show ?thesis
        by (subst find_start.simps) (simp add: Let_def ge')
    qed
  qed
qed simp

lemma find_start_extent_correct:
  assumes "layout h i t" "ordered h (inorder t)"
  shows "find_start_extent i p h = Some (first (filter (ends_after h p) (inorder t)) NULL)"
proof -
  from assms(1) have f: "focus h i t []" and d: "dll h NULL (inorder t) NULL" by (simp_all add: layout_def)
  then obtain n where n: "inos h i = Some n" "flayout n = root t" by (auto simp: focus_def)
  show ?thesis
  proof (cases "t = Tip")
    case True
    with n show ?thesis by (simp add: find_start_extent_def find_start.simps)
  next
    case False
    from find_start_focus[OF f False, of p] d assms(2) n show ?thesis
      by (simp add: find_start_extent_def)
  qed
qed

section \<open>The map\<close>

definition covers :: "store \<Rightarrow> sz \<Rightarrow> addr \<Rightarrow> bool" where
  "covers h p a \<longleftrightarrow> (case exts h a of Some e \<Rightarrow> off_f e \<le> p \<and> p < off_f e + len e | None \<Rightarrow> False)"

type_synonym place = "u32 \<times> loid_t \<times> sz"

text \<open>The place that an extent gives to an offset of the file.\<close>

definition place_in :: "store \<Rightarrow> addr \<Rightarrow> sz \<Rightarrow> place" where
  "place_in h a p = (case exts h a of None \<Rightarrow> (0, 0, 0) | Some e \<Rightarrow>
     (case dobs h (dobj e) of None \<Rightarrow> (0, 0, 0)
      | Some x \<Rightarrow> (host_id (daddr x), loid (daddr x), off_do e + (p - off_f e))))"

definition where_is :: "store \<Rightarrow> addr list \<Rightarrow> sz \<Rightarrow> place option" where
  "where_is h xs p = map_option (\<lambda>a. place_in h a p) (List.find (covers h p) xs)"

text \<open>With the base object of the file behind the holes.\<close>

definition where_based :: "store \<Rightarrow> addr list \<Rightarrow> ino_t \<Rightarrow> sz \<Rightarrow> place" where
  "where_based h xs b p = (case where_is h xs p of Some q \<Rightarrow> q | None \<Rightarrow> (0, b, p))"

lemma covers_ends: "covers h p a \<Longrightarrow> ends_after h p a"
  by (auto simp: covers_def ends_after_def split: option.splits)

lemma where_is_skip: "(\<And>a. a \<in> set xs \<Longrightarrow> \<not> covers h p a) \<Longrightarrow> where_is h (xs @ ys) p = where_is h ys p"
  by (induction xs) (auto simp: where_is_def)

lemma where_is_None: "where_is h xs p = None \<longleftrightarrow> (\<forall>a \<in> set xs. \<not> covers h p a)"
  by (auto simp: where_is_def find_None_iff)

section \<open>Segments\<close>

text \<open>The offsets from \<open>f\<close> up to \<open>e\<close>, and the places that a list of segments stands for.\<close>

definition upto_w :: "sz \<Rightarrow> sz \<Rightarrow> sz list" where
  "upto_w f e = map (\<lambda>k. f + of_nat k) [0..<unat (e - f)]"

definition expand :: "segment list \<Rightarrow> place list" where
  "expand gs = concat (map (\<lambda>g. map (\<lambda>k. (g_hid g, g_loid g, g_off_do g + of_nat k))
     [0..<unat (g_len g)]) gs)"

fun contiguous :: "sz \<Rightarrow> segment list \<Rightarrow> bool" where
  "contiguous o' [] \<longleftrightarrow> True"
| "contiguous o' (g # gs) \<longleftrightarrow> g_offset g = o' \<and> 0 < g_len g \<and> contiguous (o' + g_len g) gs"

lemma expand_Nil [simp]: "expand [] = []"
  by (simp add: expand_def)

lemma unat_of_nat_less: "k < unat (w :: 'a::len word) \<Longrightarrow> unat (of_nat k :: 'a word) = k"
  by (metis le_unat_uoi less_imp_le)

lemma upto_w_empty: "upto_w f f = []"
  by (simp add: upto_w_def)

lemma upto_w_append:
  assumes "f \<le> m" "m \<le> e"
  shows "upto_w f e = upto_w f m @ upto_w m e"
proof -
  have u: "unat (e - f) = unat (m - f) + unat (e - m)"
  proof -
    have "unat (e - f) = unat e - unat f" "unat (m - f) = unat m - unat f" "unat (e - m) = unat e - unat m"
      using assms by (auto intro!: unat_sub)
    with assms show ?thesis by (simp add: word_le_nat_alt)
  qed
  have "map (\<lambda>k. f + of_nat k) [unat (m - f)..<unat (m - f) + unat (e - m)] =
      map (\<lambda>k. f + of_nat (k + unat (m - f))) [0..<unat (e - m)]"
    by (simp add: map_add_upt[symmetric] add.commute)
  also have "\<dots> = map (\<lambda>k. m + of_nat k) [0..<unat (e - m)]"
    by (simp add: algebra_simps)
  finally have "map (\<lambda>k. f + of_nat k) [unat (m - f)..<unat (m - f) + unat (e - m)] = upto_w m e"
    by (simp add: upto_w_def)
  with upt_add_eq_append[of 0 "unat (m - f)" "unat (e - m)"] show ?thesis
    unfolding upto_w_def[of f] u by simp
qed

lemma set_upto_w:
  assumes "f \<le> e" "p \<in> set (upto_w f e)"
  shows "f \<le> p \<and> p < e"
proof -
  from assms(2) obtain k where k: "k < unat (e - f)" "p = f + of_nat k" by (auto simp: upto_w_def)
  then have s: "(of_nat k :: sz) < e - f" using unat_of_nat_less[OF k(1)] by (simp add: word_less_nat_alt)
  have "unat (of_nat k :: sz) = k" by (rule unat_of_nat_less[OF k(1)])
  moreover have "unat (e - f) = unat e - unat f" using assms(1) by (rule unat_sub)
  moreover have "unat e < 2 ^ LENGTH(64)" by (rule unsigned_less)
  then have "unat e < 2 ^ 64" by simp
  ultimately have "unat f + unat (of_nat k :: sz) < 2 ^ 64"
    using k(1) \<open>unat e < 2 ^ 64\<close> by simp
  then have "unat p = unat f + k"
    using \<open>unat (of_nat k) = k\<close> k(2) by (simp add: unat_add_lem[THEN iffD1])
  with k(1) \<open>unat (e - f) = _\<close> show ?thesis by (simp add: word_le_nat_alt word_less_nat_alt)
qed

text \<open>One segment that covers the offsets from \<open>f\<close> up to \<open>m\<close>.\<close>

lemma expand_segment:
  assumes "f \<le> m" "\<And>p. f \<le> p \<Longrightarrow> p < m \<Longrightarrow> W p = (hid, l, od + (p - f))"
  shows "expand (\<lparr>g_hid = hid, g_loid = l, g_offset = o', g_off_do = od, g_len = m - f\<rparr> # gs) =
    map W (upto_w f m) @ expand gs"
proof -
  have "map W (upto_w f m) = map (\<lambda>p. (hid, l, od + (p - f))) (upto_w f m)"
    using assms set_upto_w[OF assms(1)] by auto
  then show ?thesis by (simp add: expand_def upto_w_def comp_def)
qed

section \<open>Reading\<close>

lemma read_loop_stop: "\<not> f < e \<Longrightarrow> read_loop flag b e cur f o' h = Some ([], False)"
  by (subst read_loop.simps) simp

lemma read_loop_hole:
  assumes "f < n"
    "cur = NULL \<and> n = e \<or> cur \<noteq> NULL \<and> (\<exists>c. exts h cur = Some c \<and> n = min e (off_f c))"
  shows "read_loop True b e cur f o' h =
    do { (gs, k) \<leftarrow> read_loop True b e cur n (o' + (n - f)) h;
      Some (\<lparr>g_hid = 0, g_loid = b, g_offset = o', g_off_do = f, g_len = n - f\<rparr> # gs, True) }"
proof -
  have "f < e" using assms by (auto simp: min_def split: if_splits)
  with assms show ?thesis by (subst read_loop.simps) (auto simp: Let_def)
qed

lemma read_loop_extent:
  assumes "f < e" "cur \<noteq> NULL" "exts h cur = Some c" "off_f c \<le> f" "dobs h (dobj c) = Some x"
  shows "read_loop flag b e cur f o' h =
    do { (gs, k) \<leftarrow> read_loop flag b e (next_e c) (min e (off_f c + len c))
           (o' + (min e (off_f c + len c) - f)) h;
      Some (\<lparr>g_hid = host_id (daddr x), g_loid = loid (daddr x), g_offset = o',
        g_off_do = off_do c + (f - off_f c), g_len = min e (off_f c + len c) - f\<rparr> # gs, k) }"
proof -
  have "\<not> f < min e (off_f c)" "off_f c < e" using assms(1,4) by (auto simp: min_def not_less)
  with assms show ?thesis by (subst read_loop.simps) (simp add: Let_def max_absorb1)
qed

text \<open>The answer to a part of the range, whose extents are \<open>bs\<close>.\<close>

definition answers :: "store \<Rightarrow> addr list \<Rightarrow> ino_t \<Rightarrow> sz \<Rightarrow> sz \<Rightarrow> sz \<Rightarrow> segment list \<times> bool \<Rightarrow> bool" where
  "answers h xs b f e o' r \<longleftrightarrow> expand (fst r) = map (where_based h xs b) (upto_w f e) \<and>
     contiguous o' (fst r) \<and> snd r = (\<exists>p \<in> set (upto_w f e). where_is h xs p = None)"

lemma answers_empty: "answers h xs b e e o' ([], False)"
  by (simp add: answers_def upto_w_empty)

lemma upto_w_first: "f < m \<Longrightarrow> f \<in> set (upto_w f m)"
  by (auto simp: upto_w_def image_iff word_less_nat_alt intro!: bexI[of _ 0])
    (metis unat_0 unat_eq_zero word_diff_less word_less_nat_alt order_refl right_minus_eq)

lemma answers_hole:
  assumes "answers h xs b n e (o' + (n - f)) (gs, k)" "f < n" "n \<le> e"
    "\<And>p. f \<le> p \<Longrightarrow> p < n \<Longrightarrow> where_is h xs p = None"
  shows "answers h xs b f e o'
    (\<lparr>g_hid = 0, g_loid = b, g_offset = o', g_off_do = f, g_len = n - f\<rparr> # gs, True)"
proof -
  have "where_based h xs b p = (0, b, f + (p - f))" if "f \<le> p" "p < n" for p
    using assms(4)[OF that] by (simp add: where_based_def)
  note E = expand_segment[OF less_imp_le[OF assms(2)] this]
  have "\<exists>p \<in> set (upto_w f n). where_is h xs p = None"
    using upto_w_first[OF assms(2)] assms(2) assms(4)[of f] by blast
  with assms(1,2) E word_diff_pos[OF assms(2)] upto_w_append[OF less_imp_le[OF assms(2)] assms(3)]
  show ?thesis by (auto simp: answers_def)
qed

lemma answers_extent:
  assumes "answers h xs b m e (o' + (m - f)) (gs, k)" "f < m" "m \<le> e"
    "\<And>p. f \<le> p \<Longrightarrow> p < m \<Longrightarrow> where_is h xs p = Some (hid, l, od + (p - f))"
  shows "answers h xs b f e o'
    (\<lparr>g_hid = hid, g_loid = l, g_offset = o', g_off_do = od, g_len = m - f\<rparr> # gs, k)"
proof -
  have "where_based h xs b p = (hid, l, od + (p - f))" if "f \<le> p" "p < m" for p
    using assms(4)[OF that] by (simp add: where_based_def)
  note E = expand_segment[OF less_imp_le[OF assms(2)] this]
  have "where_is h xs p \<noteq> None" if "p \<in> set (upto_w f m)" for p
    using set_upto_w[OF less_imp_le[OF assms(2)] that] assms(4) by simp
  then have "(\<exists>p \<in> set (upto_w f m). where_is h xs p = None) \<longleftrightarrow> False" by blast
  with assms(1,2) E word_diff_pos[OF assms(2)] upto_w_append[OF less_imp_le[OF assms(2)] assms(3)]
  show ?thesis by (auto simp: answers_def)
qed

text \<open>The map in the three regions around an extent \<open>c\<close>.\<close>

lemma not_covers: "\<not> ends_after h f a \<Longrightarrow> f \<le> p \<Longrightarrow> \<not> covers h p a"
  using covers_ends ends_after_mono by blast

lemma where_is_behind:
  "(\<And>a. a \<in> set as \<Longrightarrow> \<not> ends_after h f a) \<Longrightarrow> f \<le> p \<Longrightarrow> where_is h as p = None"
  unfolding where_is_None by (blast dest: not_covers)

lemma where_is_extent:
  assumes "\<And>a. a \<in> set as \<Longrightarrow> \<not> ends_after h f a" "f \<le> p" "exts h c = Some e"
    "dobs h (dobj e) = Some x" "off_f e \<le> p" "p < off_f e + len e"
  shows "where_is h (as @ c # bs) p = Some (host_id (daddr x), loid (daddr x), off_do e + (p - off_f e))"
proof -
  have "where_is h (as @ c # bs) p = where_is h (c # bs) p"
    by (rule where_is_skip) (use assms(1,2) not_covers in blast)
  with assms show ?thesis by (simp add: where_is_def covers_def place_in_def)
qed

lemma ordered_later:
  assumes "ordered h (as @ c # bs)" "exts h c = Some e" "d \<in> set bs"
  obtains f where "exts h d = Some f" "proper f" "off_f e + len e \<le> off_f f"
proof -
  from assms have "precedes h c d" "\<exists>f. exts h d = Some f \<and> proper f"
    by (auto simp: ordered_append ordered_Cons) (auto simp: ordered_def)
  with assms(2) that show ?thesis by (auto simp: precedes_def)
qed

lemma where_is_gap:
  assumes "\<And>a. a \<in> set as \<Longrightarrow> \<not> ends_after h f a" "f \<le> p" "exts h c = Some e" "p < off_f e"
    "ordered h (as @ c # bs)"
  shows "where_is h (as @ c # bs) p = None"
proof -
  have "proper e" using assms(3,5) by (auto simp: ordered_append ordered_Cons)
  have "\<not> covers h p d" if d: "d \<in> set bs" for d
  proof (rule ordered_later[OF assms(5,3) d])
    fix g assume "exts h d = Some g" "proper g" "off_f e + len e \<le> off_f g"
    with \<open>proper e\<close> assms(4) show ?thesis by (auto simp: covers_def proper_def)
  qed
  moreover have "\<not> covers h p a" if "a \<in> set as" for a using assms(1)[OF that] assms(2) by (rule not_covers)
  ultimately show ?thesis using assms(3,4) by (auto simp: where_is_None covers_def)
qed

text \<open>What is left to read: the extents \<open>bs\<close> that do not end before \<open>f\<close>.\<close>

definition to_read :: "store \<Rightarrow> addr list \<Rightarrow> addr list \<Rightarrow> sz \<Rightarrow> bool" where
  "to_read h as bs f \<longleftrightarrow> (\<exists>q. dll h q bs NULL) \<and> NULL \<notin> set bs \<and> ordered h (as @ bs) \<and>
     (\<forall>a \<in> set as. \<not> ends_after h f a) \<and> (\<forall>b \<in> set bs. ends_after h f b) \<and>
     (\<forall>b \<in> set bs. \<forall>c. exts h b = Some c \<longrightarrow> dobs h (dobj c) \<noteq> None)"

definition reads :: "store \<Rightarrow> addr list \<Rightarrow> ino_t \<Rightarrow> sz \<Rightarrow> addr \<Rightarrow> sz \<Rightarrow> sz \<Rightarrow> bool" where
  "reads h xs b e cur f o' \<longleftrightarrow>
     (\<exists>r. read_loop True b e cur f o' h = Some r \<and> answers h xs b f e o' r)"

lemma reads_end: "reads h xs b e cur e o'"
  by (simp add: reads_def read_loop_stop answers_empty)

lemma to_read_next:
  assumes "to_read h as (c # bs) f" "exts h c = Some e"
  shows "to_read h (as @ [c]) bs (off_f e + len e)" "c \<noteq> NULL" "next_e e = first bs NULL"
    "f < off_f e + len e" "proper e"
proof -
  have "\<not> ends_after h (off_f e + len e) a" if "a \<in> set as" for a
    using assms that ends_after_mono[of h "off_f e + len e" a f]
    by (auto simp: to_read_def ends_after_def split: option.splits)
  moreover have o: "ordered h (as @ c # bs)" using assms(1) by (simp add: to_read_def)
  have "ends_after h (off_f e + len e) d" if d: "d \<in> set bs" for d
  proof (rule ordered_later[OF o assms(2) d])
    fix g assume "exts h d = Some g" "proper g" "off_f e + len e \<le> off_f g"
    then show ?thesis by (auto simp: ends_after_def proper_def)
  qed
  ultimately show "to_read h (as @ [c]) bs (off_f e + len e)"
    using assms by (auto simp: to_read_def ends_after_def)
qed (use assms in \<open>auto simp: to_read_def ends_after_def fld_def ordered_append ordered_Cons\<close>)

lemma reads_extent:
  assumes R: "to_read h as (c # bs) f" and e: "exts h c = Some e" and g: "f \<le> g" "g < k" "off_f e \<le> g"
      "g < off_f e + len e"
    and next_reads: "\<And>u. off_f e + len e \<le> k \<Longrightarrow>
      reads h (as @ c # bs) b k (first bs NULL) (off_f e + len e) u"
  shows "reads h (as @ c # bs) b k c g o'"
proof -
  define m where "m = min k (off_f e + len e)"
  have m: "g < m" "m \<le> k" using g by (auto simp: m_def)
  note N = to_read_next[OF R e]
  obtain x where x: "dobs h (dobj e) = Some x" using R e by (auto simp: to_read_def)
  have "where_is h (as @ c # bs) p = Some (host_id (daddr x), loid (daddr x),
      off_do e + (g - off_f e) + (p - g))" if "g \<le> p" "p < m" for p
    using where_is_extent[of as h f p c e x bs] R e x that g by (auto simp: to_read_def m_def)
  note A = answers_extent[OF _ m this]
  have "reads h (as @ c # bs) b k (next_e e) m (o' + (m - g))"
    using next_reads N(3) reads_end by (auto simp: m_def min_def not_le)
  then obtain gs l where "read_loop True b k (next_e e) m (o' + (m - g)) h = Some (gs, l)"
    "answers h (as @ c # bs) b m k (o' + (m - g)) (gs, l)" by (auto simp: reads_def)
  with A read_loop_extent[OF g(2) N(2) e g(3) x, of True b o'] show ?thesis
    by (auto simp: reads_def m_def)
qed

lemma reads_gap:
  assumes R: "to_read h as (c # bs) f" and e: "exts h c = Some e" and g: "f < e'" "f < off_f e"
    and next_reads: "\<And>u. off_f e < e' \<Longrightarrow> reads h (as @ c # bs) b e' c (off_f e) u"
  shows "reads h (as @ c # bs) b e' c f o'"
proof -
  define n where "n = min e' (off_f e)"
  have n: "f < n" "n \<le> e'" using g by (auto simp: n_def)
  note N = to_read_next[OF R e]
  have "where_is h (as @ c # bs) p = None" if "f \<le> p" "p < n" for p
    using where_is_gap[of as h f p c e bs] R e that by (auto simp: to_read_def n_def)
  note A = answers_hole[OF _ n this]
  have "reads h (as @ c # bs) b e' c n (o' + (n - f))"
    using next_reads reads_end by (auto simp: n_def min_def not_le le_less)
  then obtain gs l where "read_loop True b e' c n (o' + (n - f)) h = Some (gs, l)"
    "answers h (as @ c # bs) b n e' (o' + (n - f)) (gs, l)" by (auto simp: reads_def)
  moreover have "c = NULL \<and> n = e' \<or> c \<noteq> NULL \<and> (\<exists>d. exts h c = Some d \<and> n = min e' (off_f d))"
    using N(2) e by (simp add: n_def)
  ultimately show ?thesis using A read_loop_hole[OF n(1), of c e' h b o'] by (auto simp: reads_def)
qed

lemma read_loop_correct:
  "to_read h as bs f \<Longrightarrow> f \<le> e' \<Longrightarrow> reads h (as @ bs) b e' (first bs NULL) f w"
proof (induction bs arbitrary: as f w)
  case (Nil as f w)
  show ?case
  proof (cases "f < e'")
    case True
    have "where_is h as p = None" if "f \<le> p" for p
      using Nil.prems(1) that by (intro where_is_behind) (auto simp: to_read_def)
    with answers_hole[OF answers_empty True order_refl, of h as b w] read_loop_hole[OF True, of NULL e' h b w]
    show ?thesis by (simp add: reads_def read_loop_stop)
  next
    case False
    with Nil.prems(2) have "e' = f" by simp
    then show ?thesis by (simp add: reads_end)
  qed
next
  case (Cons c bs as f w)
  obtain e where e: "exts h c = Some e" using Cons.prems(1)
    by (auto simp: to_read_def ends_after_def split: option.splits)
  note N = to_read_next[OF Cons.prems(1) e]
  have nxt: "reads h (as @ c # bs) b e' (first bs NULL) (off_f e + len e) u" if "off_f e + len e \<le> e'" for u
    using Cons.IH[OF N(1) that, of u] by simp
  have ext: "reads h (as @ c # bs) b e' c g u" if "f \<le> g" "g < e'" "off_f e \<le> g" "g < off_f e + len e" for g u
    by (rule reads_extent[OF Cons.prems(1) e that nxt])
  consider "e' = f" | "f < e'" "off_f e \<le> f" | "f < e'" "f < off_f e" using Cons.prems(2) by fastforce
  then show ?case
  proof cases
    case 3
    with reads_gap[OF Cons.prems(1) e 3, of b w] ext[of "off_f e"] N(5) show ?thesis
      by (simp add: proper_def)
  qed (use ext[of f] N(4) in \<open>simp_all add: reads_end\<close>)
qed

text \<open>An inode whose extents are linked, ordered and belong to data objects.\<close>

definition laid_out :: "store \<Rightarrow> addr \<Rightarrow> etree \<Rightarrow> bool" where
  "laid_out h i t \<longleftrightarrow> layout h i t \<and> ordered h (inorder t) \<and>
     (\<forall>a \<in> addrs t. \<forall>e. exts h a = Some e \<longrightarrow> dobs h (dobj e) \<noteq> None)"

lemma laid_out_to_read:
  assumes "laid_out h i t"
  shows "to_read h (takeWhile (\<lambda>a. \<not> ends_after h p a) (inorder t)) (filter (ends_after h p) (inorder t)) p"
proof -
  from assms have L: "layout h i t" and o: "ordered h (inorder t)" by (simp_all add: laid_out_def)
  have f: "filter (ends_after h p) (inorder t) = dropWhile (\<lambda>a. \<not> ends_after h p a) (inorder t)"
    by (rule dropWhile_filter[OF o])
  have sp: "takeWhile (\<lambda>a. \<not> ends_after h p a) (inorder t) @ filter (ends_after h p) (inorder t) = inorder t"
    unfolding f by (rule takeWhile_dropWhile_id)
  have "dll h NULL (inorder t) NULL" using L by (simp add: layout_def)
  then have d: "\<exists>q. dll h q (filter (ends_after h p) (inorder t)) NULL"
    by (subst (asm) sp[symmetric]) (auto simp only: dll_append)
  show ?thesis unfolding to_read_def sp
  proof (intro conjI d o)
    show "\<forall>a \<in> set (takeWhile (\<lambda>a. \<not> ends_after h p a) (inorder t)). \<not> ends_after h p a"
      by (auto dest: set_takeWhileD)
    show "\<forall>b \<in> set (filter (ends_after h p) (inorder t)).
        \<forall>c. exts h b = Some c \<longrightarrow> dobs h (dobj c) \<noteq> None"
      using assms by (auto simp: laid_out_def)
  qed (use layout_not_NULL[OF L] in auto)
qed

lemma pado_read_eval:
  assumes "laid_out h i t" "inos h i = Some n" "start < min end' (isize n)"
  defines "m \<equiv> min end' (isize n)" and "b \<equiv> (if with_ms h then base_ino n else ino n)"
  shows "\<exists>gs k. pado_read i True start end' h =
      Some (if k then err BASE_CLONED else ret_code SUCCESS, wr (concat (map seg_bytes gs) @ end_mark) h) \<and>
    answers h (inorder t) b start m 0 (gs, k)"
proof -
  let ?as = "takeWhile (\<lambda>a. \<not> ends_after h start a) (inorder t)"
  let ?bs = "filter (ends_after h start) (inorder t)"
  have o: "layout h i t" "ordered h (inorder t)" using assms(1) by (simp_all add: laid_out_def)
  have sp: "?as @ ?bs = inorder t" unfolding dropWhile_filter[OF o(2)] by (rule takeWhile_dropWhile_id)
  have le: "start \<le> m" "\<not> m \<le> start"
    using less_imp_le[OF assms(3)] assms(3) by (simp_all only: m_def not_le)
  from read_loop_correct[OF laid_out_to_read[OF assms(1)] le(1), of b 0, unfolded sp]
  obtain gs k where gs: "read_loop True b m (first ?bs NULL) start 0 h = Some (gs, k)"
    "answers h (inorder t) b start m 0 (gs, k)" by (auto simp: reads_def)
  from find_start_extent_correct[OF o, of start] gs(1) assms(2) le(2)
  have "pado_read i True start end' h =
      Some (if k then err BASE_CLONED else ret_code SUCCESS, wr (concat (map seg_bytes gs) @ end_mark) h)"
    by (simp add: pado_read_def m_def b_def Let_def)
  with gs(2) show ?thesis by blast
qed

end
