(* ===== verification/Inode_Map.thy ===== *)
theory Inode_Map
  imports File_Ops
begin

text \<open>
  The container of the inodes: creation, lookup, release and deletion, with the locks as the code
  takes them; draining to the data object servers; backup.
\<close>

section \<open>The container\<close>

definition ino_key :: "store \<Rightarrow> addr \<Rightarrow> ino_t option" where
  "ino_key h a = map_option ino (inos h a)"

definition find_inode :: "ino_t \<Rightarrow> store \<Rightarrow> addr" where
  "find_inode k h = (case hash_find (ino_key h) k (inode_map h) of None \<Rightarrow> NULL | Some a \<Rightarrow> a)"

definition map_del :: "addr \<Rightarrow> store \<Rightarrow> store option" where
  "map_del a h = do { m \<leftarrow> hash_delete a (inode_map h); Some (h\<lparr>inode_map := m\<rparr>) }"

definition zero_time :: timespec where
  "zero_time = \<lparr>tv_sec = 0, tv_nsec = 0\<rparr>"

definition new_inode :: "ino_t \<Rightarrow> ino_t \<Rightarrow> sz \<Rightarrow> u32 \<Rightarrow> inode" where
  "new_inode k b s rc = \<lparr>ino = k, base_ino = b, isize = s, atime = zero_time, mtime = zero_time,
     version = 0, flayout = NULL, num_exts = 0, refcount = rc, do_map = [], alive = LkFree,
     rwlock = LkFree, flags = 0\<rparr>"

text \<open>\<^verbatim>\<open>create_inode\<close>: the inode (or the null pointer), the result code, the store.\<close>

definition create_inode :: "ino_t \<Rightarrow> sz \<Rightarrow> store \<Rightarrow> (addr \<times> int \<times> store) option" where
  "create_inode k s h = do {
     h \<leftarrow> on_imlock (lk_wr (self h)) h;
     let a = find_inode k h;
     deleted \<leftarrow> (if a \<noteq> NULL then map_option is_deleted (inos h a) else Some False);
     (if a \<noteq> NULL \<and> \<not> deleted then do {
        h \<leftarrow> on_alive (lk_rd (self h)) a h;
        h \<leftarrow> on_imlock lk_un h;
        Some (a, err ALREADY_CREATED, h) }
      else do {
        h \<leftarrow> (if a \<noteq> NULL then map_del a h else Some h);
        (p, h) \<leftarrow> Some (calloc h);
        (if p = NULL then do {
           h \<leftarrow> on_imlock lk_un h;
           Some (NULL, err INTERNAL_ERROR, h) }
         else do {
           let h = h\<lparr>inos := (inos h)(p \<mapsto> new_inode k 0 s 0), inode_map := hash_add p (inode_map h)\<rparr>;
           h \<leftarrow> on_alive (lk_rd (self h)) p h;
           h \<leftarrow> on_imlock lk_un h;
           Some (p, ret_code SUCCESS, h) }) }) }"

definition acquire_inode :: "ino_t \<Rightarrow> store \<Rightarrow> (addr \<times> store) option" where
  "acquire_inode k h = do {
     h \<leftarrow> on_imlock (lk_rd (self h)) h;
     let a = find_inode k h;
     (if a = NULL then do { h \<leftarrow> on_imlock lk_un h; Some (NULL, h) }
      else do {
        h \<leftarrow> on_alive (lk_rd (self h)) a h;
        h \<leftarrow> on_imlock lk_un h;
        Some (a, h) }) }"

text \<open>
  \<^verbatim>\<open>free_inode\<close>: the inode is taken out of the table if the table has one with its number,
  its users are waited for, and it is freed.
\<close>

definition free_inode :: "addr \<Rightarrow> store \<Rightarrow> store option" where
  "free_inode a h = do {
     n \<leftarrow> inos h a;
     h \<leftarrow> on_imlock (lk_wr (self h)) h;
     h \<leftarrow> (if find_inode (ino n) h \<noteq> NULL then map_del a h else Some h);
     h \<leftarrow> on_imlock lk_un h;
     h \<leftarrow> on_alive (lk_wr (self h)) a h;
     n \<leftarrow> inos h a;
     ensure (flayout n = NULL);
     ensure (num_exts n = 0);
     ensure (refcount n = 0);
     h \<leftarrow> on_alive (lk_wr (self h)) a h;
     Some (free_ino a h) }"

text \<open>Unregistering at the mapping server; a server that is down is ignored.\<close>

definition ms_delete :: "ino_t \<Rightarrow> store \<Rightarrow> store option" where
  "ms_delete b h = (if ms_up h then do { (r, m) \<leftarrow> lp_serve com_D (le 8 b) (ms_map h);
     Some (h\<lparr>ms_map := m\<rparr>) } else Some h)"

definition release_inode :: "addr \<Rightarrow> store \<Rightarrow> (bool \<times> store) option" where
  "release_inode a h = do {
     n \<leftarrow> inos h a;
     (if 0 <s refcount n \<or> flayout n \<noteq> NULL \<or> is_shared n then Some (False, h)
      else do {
        h \<leftarrow> upd_ino a set_deleted h;
        h \<leftarrow> (if with_ms h then ms_delete (base_ino n) h else Some h);
        Some (True, h) }) }"

section \<open>Deleting a file\<close>

definition dos_addr_def :: u32 where "dos_addr_def = 0x0100007F"

fun remove_all_dobjects :: "addr list \<Rightarrow> store \<Rightarrow> store option" where
  "remove_all_dobjects [] h = Some h"
| "remove_all_dobjects (d # ds) h = do {
     (r, h) \<leftarrow> remove_dobject d True h;
     remove_all_dobjects ds h }"

definition move_base_msg :: "inode \<Rightarrow> store \<Rightarrow> u8 list" where
  "move_base_msg n h = dos_code MOVE_SHARED_BASE #
     (if with_ms h then le 8 (base_ino n) @ le 8 (ino n) @ le 8 (base_ino n)
      else le 8 (ino n) @ le 8 (ino n))"

definition delete_inode :: "addr \<Rightarrow> store \<Rightarrow> (bool \<times> store) option" where
  "delete_inode a h = do {
     n \<leftarrow> inos h a;
     h \<leftarrow> remove_all_dobjects (do_map n) h;
     n \<leftarrow> inos h a;
     (if is_shared n then
        (case dos_call dos_addr_def (move_base_msg n h) h of
           (None, h) \<Rightarrow> Some (False, h)
         | (Some r, h) \<Rightarrow> do { h \<leftarrow> upd_ino a unset_shared h; release_inode a h })
      else release_inode a h) }"

section \<open>The variant with a mapping server\<close>

definition INBASE_LOW_MAX :: ino_t where "INBASE_LOW_MAX = 0xFFFFFFFF"

definition init_inode_container :: "u32 \<Rightarrow> store \<Rightarrow> store" where
  "init_inode_container nodeid h =
     (let b = push_bit 32 (ucast nodeid :: ino_t) + 1
      in h\<lparr>inodebase := b, inodemax := b OR INBASE_LOW_MAX\<rparr>)"

text \<open>\<^verbatim>\<open>create_inode_withms\<close>: the inode, \<^verbatim>\<open>*ino\<close>, the result code, the store.\<close>

definition create_inode_withms ::
  "ino_t \<Rightarrow> ino_t \<Rightarrow> sz \<Rightarrow> int \<Rightarrow> store \<Rightarrow> (addr \<times> ino_t \<times> int \<times> store) option" where
  "create_inode_withms ino0 bino s ret0 h = do {
     (p, h) \<leftarrow> Some (calloc h);
     (if p = NULL then Some (NULL, ino0, err INTERNAL_ERROR, h)
      else do {
        let h = h\<lparr>inos := (inos h)(p \<mapsto> new_inode 0 bino s 1)\<rparr>;
        h \<leftarrow> on_imlock (lk_wr (self h)) h;
        (if \<not> ms_up h then do {
           h \<leftarrow> on_imlock lk_un h;
           Some (NULL, ino0, err MS_CON_ERROR, free_ino p h) }
         else if inodebase h = inodemax h then do {
           h \<leftarrow> on_imlock lk_un (free_ino p h);
           Some (NULL, ino0, err INO_FULL, h) }
         else do {
           let k = inodebase h;
           h \<leftarrow> upd_ino p (\<lambda>n. n\<lparr>ino := k\<rparr>) h;
           (r, m) \<leftarrow> lp_serve com_P (le 8 bino @ le 8 k) (ms_map h);
           let h = h\<lparr>ms_map := m\<rparr>;
           (if r \<noteq> k then do {
              h \<leftarrow> on_imlock lk_un h;
              Some (NULL, r, err ALREADY_CREATED, free_ino p h) }
            else do {
              let h = h\<lparr>inodebase := inodebase h + 1, inode_map := hash_add p (inode_map h)\<rparr>;
              h \<leftarrow> on_alive (lk_rd (self h)) p h;
              h \<leftarrow> on_imlock lk_un h;
              Some (p, r, ret0, h) }) }) }) }"

section \<open>Draining to the data object servers\<close>

text \<open>
  The loop over the data objects: each connection is opened and given its request, and the
  replies are collected later. The result is the number of failures, or \<open>None\<close> when a
  connection is refused, which ends the function.
\<close>

fun drain_dobjects :: "addr list \<Rightarrow> store \<Rightarrow> (nat option \<times> store) option" where
  "drain_dobjects [] h = Some (Some 0, h)"
| "drain_dobjects (d # ds) h = do {
     x \<leftarrow> dobs h d;
     (r, bs) \<leftarrow> read_dobject d h;
     (case dos_call (host_id (daddr x)) (dos_code DRAIN_DO # le 8 (loid (daddr x)) @ bs) h of
        (None, h) \<Rightarrow> Some (None, h)
      | (Some ret, h) \<Rightarrow> do {
          (k, h) \<leftarrow> drain_dobjects ds h;
          Some (map_option (\<lambda>k. if ret \<noteq> ret_code SUCCESS then Suc k else k) k, h) }) }"

definition stageout_dobjects :: "addr \<Rightarrow> store \<Rightarrow> (int \<times> store) option" where
  "stageout_dobjects a h = do {
     n \<leftarrow> inos h a;
     (fail, h) \<leftarrow> drain_dobjects (do_map n) h;
     (case fail of
        None \<Rightarrow> do { h \<leftarrow> on_rwlock lk_un a h; Some (err DOS_CON_ERROR, h) }
      | Some k \<Rightarrow> do {
          h \<leftarrow> upd_ino a set_deleted h;
          h \<leftarrow> on_rwlock lk_un a h;
          Some (if k > 0 then err DOS_FAIL else ret_code SUCCESS, h) }) }"

definition stageout :: "addr \<Rightarrow> store \<Rightarrow> (int \<times> store) option" where
  "stageout a h =
     (if a = NULL then Some (err INVALID_INO, h)
      else do {
        h \<leftarrow> on_rwlock (lk_wr (self h)) a h;
        n \<leftarrow> inos h a;
        (if is_shared n then
           (case dos_call dos_addr_def
                  (dos_code DRAIN_SHARED # le 8 (if with_ms h then base_ino n else ino n)) h of
              (None, h) \<Rightarrow> do { h \<leftarrow> on_rwlock lk_un a h; Some (err DOS_CON_ERROR, h) }
            | (Some ret, h) \<Rightarrow>
                (if ret \<noteq> ret_code SUCCESS then do {
                   h \<leftarrow> on_rwlock lk_un a h; Some (err DOS_FAIL, h) }
                 else do { h \<leftarrow> upd_ino a unset_shared h; stageout_dobjects a h }))
         else stageout_dobjects a h) })"

fun stageout_list :: "addr list \<Rightarrow> store \<Rightarrow> store option" where
  "stageout_list [] h = Some h"
| "stageout_list (a # as) h = do { (r, h) \<leftarrow> stageout a h; stageout_list as h }"

definition stageout_all :: "store \<Rightarrow> store option" where
  "stageout_all h = do {
     h \<leftarrow> on_imlock (lk_wr (self h)) h;
     h \<leftarrow> stageout_list (inode_map h) h;
     on_imlock lk_un h }"

section \<open>Backup\<close>

fun backup_list :: "addr list \<Rightarrow> store \<Rightarrow> store option" where
  "backup_list [] h = Some h"
| "backup_list (a # as) h = do {
     n \<leftarrow> inos h a;
     h \<leftarrow> (if is_deleted n then Some h
          else do {
            h \<leftarrow> (if with_ms h then ms_delete (base_ino n) h else Some (wr (le 8 (ino n)) h));
            (r, h) \<leftarrow> pado_getinode_all a h;
            Some h });
     backup_list as h }"

definition do_backup :: "store \<Rightarrow> store option" where
  "do_backup h = do {
     h \<leftarrow> on_imlock (lk_rd (self h)) h;
     h \<leftarrow> backup_list (inode_map h) h;
     on_imlock lk_un h }"

end
