(* ===== verification/Inode_Server.thy ===== *)
theory Inode_Server
  imports Inode_Map
begin

text \<open>
  The commands of the inode server (\<^verbatim>\<open>worker_thread\<close> in \<^verbatim>\<open>inserver.c\<close>): one definition for
  each case of the \<^verbatim>\<open>switch\<close>, and the frame around them. A handler is given the inode
  that the request names (the null pointer if there is none) and returns the result code and
  whether the inode is to be freed. Also the consistency checks of \<^verbatim>\<open>test.c\<close> that the
  server runs after every command unless it is built with \<^verbatim>\<open>NODP\<close>.
\<close>

section \<open>The checks of test.c\<close>

text \<open>The loop that indents a line of the listing: it ends at the root.\<close>

partial_function (option) climb :: "addr \<Rightarrow> store \<Rightarrow> unit option" where
  "climb a h = do { e \<leftarrow> exts h a; (if parent e = NULL then Some () else climb (parent e) h) }"

declare climb.simps [code]

partial_function (option) print_extents :: "addr \<Rightarrow> u32 \<Rightarrow> store \<Rightarrow> u32 option" where
  "print_extents ext num h =
     (if ext = NULL then Some num
      else do {
        climb ext h;
        check_extent ext False h;
        e \<leftarrow> exts h ext;
        print_extents (next_e e) (num + 1) h })"

declare print_extents.simps [code]

text \<open>\<^verbatim>\<open>check_bst\<close>: the bounds \<open>(max, min)\<close> of a subtree.\<close>

partial_function (option) check_bst :: "addr \<Rightarrow> store \<Rightarrow> (sz \<times> sz) option" where
  "check_bst cur h = do {
     c \<leftarrow> exts h cur;
     let Cs = off_f c; let Ce = off_f c + len c;
     mn \<leftarrow> (if left c \<noteq> NULL then do {
               (cmax, cmin) \<leftarrow> check_bst (left c) h;
               ensure (cmin \<le> Cs);
               Some cmin }
             else Some Cs);
     mx \<leftarrow> (if right c \<noteq> NULL then do { (cmax, cmin) \<leftarrow> check_bst (right c) h; Some cmax }
             else Some Ce);
     Some (mx, mn) }"

declare check_bst.simps [code]

definition print_inode :: "addr \<Rightarrow> store \<Rightarrow> store option" where
  "print_inode a h =
     (if a = NULL then Some h
      else do {
        h \<leftarrow> on_rwlock (lk_rd (self h)) a h;
        n \<leftarrow> inos h a;
        first \<leftarrow> find_start_extent a 0 h;
        num \<leftarrow> print_extents first 0 h;
        ensure (num_exts n > 0 \<longrightarrow> num = num_exts n);
        (if flayout n \<noteq> NULL then do {
           (mx, mn) \<leftarrow> check_bst (flayout n) h;
           ensure (isize n \<ge> mx) }
         else Some ());
        on_rwlock lk_un a h })"

section \<open>Handlers\<close>

type_synonym result = "int \<times> bool \<times> store"

text \<open>Run \<open>f\<close> with the inode's lock held for writing, or for reading.\<close>

definition with_wrlock :: "addr \<Rightarrow> (inode \<Rightarrow> store \<Rightarrow> result option) \<Rightarrow> store \<Rightarrow> result option" where
  "with_wrlock i f h = do {
     h \<leftarrow> on_rwlock (lk_wr (self h)) i h;
     n \<leftarrow> inos h i;
     (ret, fr, h) \<leftarrow> f n h;
     h \<leftarrow> on_rwlock lk_un i h;
     Some (ret, fr, h) }"

definition with_rdlock :: "addr \<Rightarrow> (inode \<Rightarrow> store \<Rightarrow> result option) \<Rightarrow> store \<Rightarrow> result option" where
  "with_rdlock i f h = do {
     h \<leftarrow> on_rwlock (lk_rd (self h)) i h;
     n \<leftarrow> inos h i;
     (ret, fr, h) \<leftarrow> f n h;
     h \<leftarrow> on_rwlock lk_un i h;
     Some (ret, fr, h) }"

text \<open>The guard that every handler but a few starts with.\<close>

definition unless_deleted ::
  "(store \<Rightarrow> result option) \<Rightarrow> inode \<Rightarrow> store \<Rightarrow> result option" where
  "unless_deleted f n h = (if is_deleted n then Some (err IS_DELETED, False, h) else f h)"

definition no_inode :: "store \<Rightarrow> result option" where
  "no_inode h = Some (err INVALID_INO, False, h)"

definition cmd_write :: "addr \<Rightarrow> store \<Rightarrow> result option" where
  "cmd_write i h = do {
     (hid, h) \<leftarrow> rd_u32 h; (l, h) \<leftarrow> rd_u64 h; (f, h) \<leftarrow> rd_u64 h; (od, h) \<leftarrow> rd_u64 h;
     (length, h) \<leftarrow> rd_u64 h;
     (if i = NULL then no_inode h
      else with_wrlock i (unless_deleted (\<lambda>h. do {
        (d, h) \<leftarrow> acquire_dobject hid l i 1 h;
        (ret, h) \<leftarrow> pado_write d f od length h;
        Some (ret, False, h) })) h) }"

definition cmd_truncate :: "addr \<Rightarrow> store \<Rightarrow> result option" where
  "cmd_truncate i h = do {
     (f, h) \<leftarrow> rd_u64 h;
     (if i = NULL then no_inode h
      else with_wrlock i (unless_deleted (\<lambda>h. do {
        (ret, h) \<leftarrow> pado_truncate i f h;
        Some (ret, False, h) })) h) }"

definition cmd_read_layout :: "addr \<Rightarrow> store \<Rightarrow> result option" where
  "cmd_read_layout i h = do {
     (f, h) \<leftarrow> rd_u64 h; (length, h) \<leftarrow> rd_u64 h; (fl, h) \<leftarrow> rd_u8 h;
     (if i = NULL then no_inode (wr end_mark h)
      else do {
        (ret, fr, h) \<leftarrow> with_rdlock i (unless_deleted (\<lambda>h. do {
          (ret, h) \<leftarrow> pado_read i (fl \<noteq> 0) f (f + length) h;
          Some (ret, False, h) })) h;
        (if ret = err BASE_CLONED then
           with_wrlock i (\<lambda>n h. do {
             h \<leftarrow> upd_ino i set_shared h;
             Some (ret_code SUCCESS, False, h) }) h
         else Some (ret, fr, h)) }) }"

definition cmd_clone_to :: "addr \<Rightarrow> store \<Rightarrow> result option" where
  "cmd_clone_to i h = do {
     (f, h) \<leftarrow> rd_u64 h; (length, h) \<leftarrow> rd_u64 h;
     (if i = NULL then no_inode h
      else with_wrlock i (unless_deleted (\<lambda>h. do {
        (ret, h) \<leftarrow> pado_clone i f (f + length) h;
        Some (ret, False, h) })) h) }"

definition cmd_read_meta :: "addr \<Rightarrow> store \<Rightarrow> result option" where
  "cmd_read_meta i h = do {
     (fl, h) \<leftarrow> rd_u8 h;
     (if i \<noteq> NULL \<and> fl = 1 then
        with_wrlock i (\<lambda>n h.
          if is_deleted n then do {
            (r, h) \<leftarrow> pado_getinode_meta NULL h;
            Some (err IS_DELETED, False, h) }
          else do {
            h \<leftarrow> upd_ino i (\<lambda>n. n\<lparr>refcount := refcount n + 1\<rparr>) h;
            (ret, h) \<leftarrow> pado_getinode_meta i h;
            Some (ret, False, h) }) h
      else if i \<noteq> NULL \<and> fl = 0 then
        with_rdlock i (\<lambda>n h.
          if is_deleted n then do {
            (r, h) \<leftarrow> pado_getinode_meta NULL h;
            Some (err IS_DELETED, False, h) }
          else do { (ret, h) \<leftarrow> pado_getinode_meta i h; Some (ret, False, h) }) h
      else if i = NULL then do {
        (ret, h) \<leftarrow> pado_getinode_meta i h;
        Some (ret, False, h) }
      else Some (ret_code SUCCESS, False, h)) }"

text \<open>
  \<^verbatim>\<open>READ_INODE_WHOLE\<close>. The case that counts a reference ends with a second
  \<^verbatim>\<open>pthread_rwlock_wrlock\<close> where the unlock should be.
\<close>

definition read_whole_body :: "addr \<Rightarrow> bool \<Rightarrow> sz \<Rightarrow> inode \<Rightarrow> store \<Rightarrow> result option" where
  "read_whole_body i incr ver n h =
     (if is_deleted n then do {
        (r, h) \<leftarrow> pado_getinode_all NULL h;
        Some (err IS_DELETED, False, h) }
      else if version n \<le> ver then do {
        (r, h) \<leftarrow> pado_getinode_all NULL h;
        Some (err IS_UPTODATE, False, h) }
      else do {
        h \<leftarrow> (if incr then upd_ino i (\<lambda>n. n\<lparr>refcount := refcount n + 1\<rparr>) h else Some h);
        (ret, h) \<leftarrow> pado_getinode_all i h;
        Some (ret, False, h) })"

definition cmd_read_whole :: "addr \<Rightarrow> store \<Rightarrow> result option" where
  "cmd_read_whole i h = do {
     (fl, h) \<leftarrow> rd_u8 h; (ver, h) \<leftarrow> rd_u64 h;
     (if i \<noteq> NULL \<and> fl = 1 then do {
        h \<leftarrow> on_rwlock (lk_wr (self h)) i h;
        n \<leftarrow> inos h i;
        (ret, fr, h) \<leftarrow> read_whole_body i True ver n h;
        h \<leftarrow> on_rwlock (lk_wr (self h)) i h;
        Some (ret, fr, h) }
      else if i \<noteq> NULL \<and> fl = 0 then with_rdlock i (read_whole_body i False ver) h
      else if i = NULL then do {
        (ret, h) \<leftarrow> pado_getinode_all i h;
        Some (ret, False, h) }
      else Some (ret_code SUCCESS, False, h)) }"

definition read_dobj_body :: "addr \<Rightarrow> u32 \<Rightarrow> loid_t \<Rightarrow> inode \<Rightarrow> store \<Rightarrow> result option" where
  "read_dobj_body i hid l n h = do {
     let h = wr ((if with_ms h then le 8 (base_ino n) else []) @ le 8 (isize n)) h;
     (d, h) \<leftarrow> acquire_dobject hid l i 0 h;
     (ret, bs) \<leftarrow> read_dobject d h;
     let h = wr bs h;
     (if is_deleted n then Some (err IS_DELETED, False, h)
      else if is_shared n then Some (err SHARED_BASE, False, h)
      else if is_dlocked n then Some (err IS_DLOCKED, False, h)
      else do { h \<leftarrow> upd_ino i set_dlocked h; Some (ret, False, h) }) }"

definition cmd_read_dobj :: "addr \<Rightarrow> store \<Rightarrow> result option" where
  "cmd_read_dobj i h = do {
     (hid, h) \<leftarrow> rd_u32 h; (l, h) \<leftarrow> rd_u64 h;
     (bino, h) \<leftarrow> (if with_ms h then rd_u64 h else Some (0, h));
     let ms_zero = (if with_ms h then le 8 (0 :: 64 word) else []);
     (if i = NULL then
        no_inode (wr (ms_zero @ le 8 (0 :: 64 word) @ le 4 (0 :: u32)) h)
      else do {
        n \<leftarrow> inos h i;
        (if with_ms h \<and> base_ino n \<noteq> bino then
           Some (err CHANGED_MAPPING, False, wr (ms_zero @ le 8 (0 :: 64 word) @ le 4 (0 :: u32)) h)
         else with_wrlock i (read_dobj_body i hid l) h) }) }"

definition cmd_release_drain_lock :: "addr \<Rightarrow> store \<Rightarrow> result option" where
  "cmd_release_drain_lock i h =
     (if i = NULL then no_inode h
      else with_wrlock i (\<lambda>n h. do {
        h \<leftarrow> upd_ino i unset_dlocked h;
        Some (if is_deleted n then err IS_DELETED else ret_code SUCCESS, False, h) }) h)"

definition cmd_remove_dobj :: "addr \<Rightarrow> store \<Rightarrow> result option" where
  "cmd_remove_dobj i h = do {
     (hid, h) \<leftarrow> rd_u32 h; (l, h) \<leftarrow> rd_u64 h; (fl, h) \<leftarrow> rd_u8 h;
     (if i = NULL then no_inode h
      else with_wrlock i (\<lambda>n. unless_deleted (\<lambda>h. do {
        (ret, h) \<leftarrow> (if hid = 0 \<and> l = 0 then do {
             h \<leftarrow> upd_ino i unset_shared h;
             Some (if is_shared n then ret_code SUCCESS else err INVALID_DOBJECT, h) }
           else do {
             (d, h) \<leftarrow> acquire_dobject hid l i 0 h;
             remove_dobject d (fl \<noteq> 0) h });
        (fr, h) \<leftarrow> release_inode i h;
        Some (ret, fr, h) }) n) h) }"

definition cmd_get_inode_dobj :: "addr \<Rightarrow> store \<Rightarrow> result option" where
  "cmd_get_inode_dobj i h =
     (if i = NULL then no_inode (wr (le 4 (0 :: u32)) h)
      else with_rdlock i (unless_deleted (\<lambda>h. do {
        (ret, h) \<leftarrow> get_inode_dobj i h;
        Some (ret, False, h) })) h)"

text \<open>The two commands that create: they return the inode as well.\<close>

definition cmd_create_inode :: "ino_t \<Rightarrow> store \<Rightarrow> (addr \<times> int \<times> store) option" where
  "cmd_create_inode tino h = do {
     (s, h) \<leftarrow> rd_u64 h;
     (i, k, ret, h) \<leftarrow> create_inode_withms 0 tino s (ret_code SUCCESS) h;
     Some (i, ret, wr (le 8 k) h) }"

definition cmd_create_open_inode :: "ino_t \<Rightarrow> store \<Rightarrow> (addr \<times> int \<times> store) option" where
  "cmd_create_open_inode tino h = do {
     (s, h) \<leftarrow> rd_u64 h; (fl, h) \<leftarrow> rd_u8 h;
     (i, ret, h) \<leftarrow> create_inode tino s h;
     h \<leftarrow> (if i \<noteq> NULL \<and> fl = 0 then do {
            (fl', h) \<leftarrow> rd_u8 h; (at, h) \<leftarrow> rd_u64 h; (mt, h) \<leftarrow> rd_u64 h; (ver, h) \<leftarrow> rd_u64 h;
            upd_ino i (\<lambda>n. n\<lparr>flags := fl', atime := (atime n)\<lparr>tv_sec := at\<rparr>,
              mtime := (mtime n)\<lparr>tv_sec := mt\<rparr>, version := ver\<rparr>) h }
          else if i \<noteq> NULL \<and> fl > 0 then do {
            h \<leftarrow> on_rwlock (lk_wr (self h)) i h;
            h \<leftarrow> upd_ino i (\<lambda>n. n\<lparr>refcount := refcount n + 1\<rparr>) h;
            on_rwlock lk_un i h }
          else Some h);
     h \<leftarrow> (if fl = 1 then do { (r, h) \<leftarrow> pado_getinode_meta i h; Some h }
          else if fl > 1 then do { (r, h) \<leftarrow> pado_getinode_all i h; Some h }
          else Some h);
     Some (i, ret, h) }"

definition cmd_delete_inode :: "addr \<Rightarrow> store \<Rightarrow> result option" where
  "cmd_delete_inode i h =
     (if i = NULL then no_inode h
      else with_wrlock i (\<lambda>n. unless_deleted (\<lambda>h.
        if 0 <s refcount n then Some (err IS_USED, False, h)
        else do { (fr, h) \<leftarrow> delete_inode i h; Some (ret_code SUCCESS, fr, h) }) n) h)"

definition cmd_unref :: "addr \<Rightarrow> store \<Rightarrow> result option" where
  "cmd_unref i h =
     (if i = NULL then no_inode h
      else with_wrlock i (\<lambda>n. unless_deleted (\<lambda>h. do {
        let rc = refcount n - 1;
        h \<leftarrow> upd_ino i (\<lambda>n. n\<lparr>refcount := (if rc <s 0 then 0 else rc)\<rparr>) h;
        (fr, h) \<leftarrow> release_inode i h;
        Some (if rc <s 0 then err INVALID_UNREF else ret_code SUCCESS, fr, h) }) n) h)"

section \<open>The frame around the handlers\<close>

text \<open>The \<^verbatim>\<open>switch\<close>: the inode, the result code, whether to free it, the store.\<close>

definition on_inode :: "(addr \<Rightarrow> store \<Rightarrow> result option) \<Rightarrow> addr \<Rightarrow> store \<Rightarrow> (addr \<times> result) option" where
  "on_inode f i h = do { r \<leftarrow> f i h; Some (i, r) }"

definition invalid_command :: "addr \<Rightarrow> store \<Rightarrow> result option" where
  "invalid_command i h = Some (err INVALID_COMMAND, False, h)"

definition dispatch :: "ins_com option \<Rightarrow> ino_t \<Rightarrow> addr \<Rightarrow> store \<Rightarrow> (addr \<times> result) option" where
  "dispatch com tino i h =
     (case com of
        Some WRITE \<Rightarrow> on_inode cmd_write i h
      | Some TRUNCATE \<Rightarrow> on_inode cmd_truncate i h
      | Some READ_LAYOUT \<Rightarrow> on_inode cmd_read_layout i h
      | Some CLONE_TO \<Rightarrow> on_inode cmd_clone_to i h
      | Some READ_INODE_META \<Rightarrow> on_inode cmd_read_meta i h
      | Some READ_INODE_WHOLE \<Rightarrow> on_inode cmd_read_whole i h
      | Some READ_DOBJ \<Rightarrow> on_inode cmd_read_dobj i h
      | Some RELEASE_DRAIN_LOCK \<Rightarrow> on_inode cmd_release_drain_lock i h
      | Some REMOVE_DOBJ \<Rightarrow> on_inode cmd_remove_dobj i h
      | Some GET_INODE_DOBJ \<Rightarrow> on_inode cmd_get_inode_dobj i h
      | Some CREATE_INODE \<Rightarrow>
          (if with_ms h then do { (i, ret, h) \<leftarrow> cmd_create_inode tino h; Some (i, ret, False, h) }
           else on_inode invalid_command i h)
      | Some CREATE_OPEN_INODE \<Rightarrow> do {
          (i, ret, h) \<leftarrow> cmd_create_open_inode tino h; Some (i, ret, False, h) }
      | Some DELETE_INODE \<Rightarrow> on_inode cmd_delete_inode i h
      | Some UNREF \<Rightarrow> on_inode cmd_unref i h
      | _ \<Rightarrow> on_inode invalid_command i h)"

text \<open>
  One request, from the number of the inode to the end of the connection. The debugging output
  looks the command and the result up in tables of names, which is out of bounds for a value
  that has no name.
\<close>

definition process :: "u8 \<Rightarrow> store \<Rightarrow> store option" where
  "process com h = do {
     ensure (nodp h \<or> com_of com \<noteq> None);
     (tino, h) \<leftarrow> rd_u64 h;
     (i, h) \<leftarrow> (if com_of com \<noteq> Some CREATE_INODE \<and> com_of com \<noteq> Some CREATE_OPEN_INODE
               then acquire_inode tino h else Some (NULL, h));
     (i, ret, fr, h) \<leftarrow> dispatch (com_of com) tino i h;
     h \<leftarrow> (if nodp h then Some h
          else do { ensure (\<bar>ret\<bar> < 24); print_inode i h });
     let h = wr (int_bytes ret) h;
     h \<leftarrow> (if i \<noteq> NULL then on_alive lk_un i h else Some h);
     (if i \<noteq> NULL \<and> fr then free_inode i h else Some h) }"

section \<open>Restoring a backup\<close>

text \<open>The extents of one inode.\<close>

fun restore_exts :: "nat \<Rightarrow> addr \<Rightarrow> store \<Rightarrow> store option" where
  "restore_exts 0 i h = Some h"
| "restore_exts (Suc k) i h = do {
     (hid, h) \<leftarrow> rd_u32 h;
     (l, h) \<leftarrow> rd_u64 h;
     (f, h) \<leftarrow> rd_u64 h;
     (od, h) \<leftarrow> rd_u64 h;
     (length, h) \<leftarrow> rd_u64 h;
     (d, h) \<leftarrow> acquire_dobject hid l i 1 h;
     (r, h) \<leftarrow> pado_write d f od length h;
     restore_exts k i h }"

text \<open>One turn of the loop of \<^verbatim>\<open>do_restore\<close>.\<close>

definition restore_inode :: "store \<Rightarrow> store option" where
  "restore_inode h = do {
     (k, h) \<leftarrow> rd_u64 h;
     (s, h) \<leftarrow> rd_u64 h;
     (at, h) \<leftarrow> rd_u64 h;
     (mt, h) \<leftarrow> rd_u64 h;
     (ver, h) \<leftarrow> rd_u64 h;
     (fl, h) \<leftarrow> rd_u8 h;
     (i, r, h) \<leftarrow> (if with_ms h then do {
           (i, k', r, h) \<leftarrow> create_inode_withms k k s 0 h; Some (i, r, h) }
         else create_inode k s h);
     h \<leftarrow> (if i \<noteq> NULL then do {
            h \<leftarrow> upd_ino i (\<lambda>n. n\<lparr>flags := fl, atime := (atime n)\<lparr>tv_sec := at\<rparr>,
                   mtime := (mtime n)\<lparr>tv_sec := mt\<rparr>, refcount := 0, version := ver\<rparr>) h;
            on_alive lk_un i h }
          else Some h);
     (ne, h) \<leftarrow> rd_u32 h;
     h \<leftarrow> restore_exts (unat (ne :: u32)) i h;
     (if nodp h then Some h else print_inode i h) }"

partial_function (option) do_restore :: "store \<Rightarrow> store option" where
  "do_restore h = (if rx h = [] then Some h
     else do { h \<leftarrow> restore_inode h; do_restore h })"

declare do_restore.simps [code]

end
