(* ===== verification/Refs.thy ===== *)
theory Refs
  imports Extent_Map
begin

text \<open>
  The data objects of an inode and their extents: every data object of the inode's table owns a
  doubly linked list of the extents that refer to it. This theory states that as a predicate on the
  set of live extents, and shows what \<^verbatim>\<open>create_extent\<close>, \<^verbatim>\<open>release_extent\<close> and
  \<^verbatim>\<open>remove_dobject\<close> do to it, and that they leave the tree, the list and the map alone.
\<close>

section \<open>Views\<close>

text \<open>What the map from offsets to places reads of an extent.\<close>

definition view :: "store \<Rightarrow> addr \<Rightarrow> (sz \<times> sz \<times> sz \<times> do_addr option) option" where
  "view h a = map_option (\<lambda>e. (off_f e, len e, off_do e, map_option daddr (dobs h (dobj e)))) (exts h a)"

lemma view_cases:
  assumes "view h' a = view h a"
  obtains "exts h' a = None" "exts h a = None"
  | e e' where "exts h a = Some e" "exts h' a = Some e'" "off_f e' = off_f e" "len e' = len e"
    "off_do e' = off_do e" "map_option daddr (dobs h' (dobj e')) = map_option daddr (dobs h (dobj e))"
  using assms by (cases "exts h a"; cases "exts h' a") (auto simp: view_def)

lemma view_cong:
  assumes "view h' a = view h a"
  shows "covers h' p a = covers h p a" "place_in h' a p = place_in h a p"
    "ends_after h' p a = ends_after h p a"
proof -
  show "covers h' p a = covers h p a" "ends_after h' p a = ends_after h p a"
    using assms by (rule view_cases; simp add: covers_def ends_after_def)+
  show "place_in h' a p = place_in h a p"
    using assms by (rule view_cases) (auto simp: place_in_def split: option.splits)
qed

lemma view_proper:
  assumes "view h' a = view h a"
  shows "(\<exists>e. exts h' a = Some e \<and> proper e) \<longleftrightarrow> (\<exists>e. exts h a = Some e \<and> proper e)"
  using assms by (rule view_cases) (auto simp: proper_def)

lemma view_precedes:
  assumes "view h' a = view h a" "view h' b = view h b"
  shows "precedes h' a b = precedes h a b"
proof -
  have "precedes k a b \<longleftrightarrow> (case (view k a, view k b) of
      (Some (f, l, _), Some (g, _)) \<Rightarrow> f + l \<le> g | _ \<Rightarrow> False)" for k
    by (simp add: precedes_def view_def split: option.splits)
  then show ?thesis by (simp only: assms)
qed

lemma where_is_view:
  assumes "\<And>a. a \<in> set xs \<Longrightarrow> view h' a = view h a"
  shows "where_is h' xs p = where_is h xs p"
proof -
  have f: "List.find (covers h' p) xs = List.find (covers h p) xs"
    by (rule find_cong[OF refl]) (rule view_cong(1)[OF assms])
  show ?thesis
  proof (cases "List.find (covers h p) xs")
    case (Some a)
    then have "a \<in> set xs" by (auto simp: find_Some_iff)
    from view_cong(2)[OF assms[OF this], of p] Some f show ?thesis by (simp add: where_is_def)
  qed (simp add: where_is_def f)
qed

lemma ordered_view:
  assumes "\<And>a. a \<in> set xs \<Longrightarrow> view h' a = view h a"
  shows "ordered h' xs = ordered h xs"
  using assms
proof (induction xs)
  case (Cons a xs)
  then have "\<forall>b \<in> set xs. precedes h' a b = precedes h a b" using view_precedes[of h' a h] by auto
  moreover have "(\<exists>e. exts h' a = Some e \<and> proper e) = (\<exists>e. exts h a = Some e \<and> proper e)"
    using Cons.prems by (intro view_proper) simp
  moreover have "ordered h' xs = ordered h xs" using Cons by simp
  ultimately show ?case by (simp only: ordered_Cons cong: ball_cong)
qed (simp add: ordered_def)

section \<open>Congruence of the layout\<close>

text \<open>The fields that the tree and the list own.\<close>

definition tlinks :: "extent \<Rightarrow> int \<times> addr \<times> slot \<times> addr \<times> addr \<times> addr \<times> addr" where
  "tlinks e = (depth e, parent e, pivot e, left e, right e, prev_e e, next_e e)"

lemma tnode_tlinks:
  "map_option tlinks (exts h' a) = map_option tlinks (exts h a) \<Longrightarrow> tnode h' a p s d l r = tnode h a p s d l r"
  by (cases "exts h a"; cases "exts h' a") (auto simp: tnode_def tlinks_def)

lemma tr_tlinks:
  "(\<And>a. a \<in> addrs t \<Longrightarrow> map_option tlinks (exts h' a) = map_option tlinks (exts h a)) \<Longrightarrow>
     tr h' p s t = tr h p s t"
proof (induction t arbitrary: p s)
  case (Bin l a d r)
  then have "tnode h' a p s d (root l) (root r) = tnode h a p s d (root l) (root r)"
    by (intro tnode_tlinks) simp
  with Bin show ?case by simp
qed simp

lemma dll_tlinks:
  assumes "\<And>a. a \<in> set xs \<Longrightarrow> map_option tlinks (exts h' a) = map_option tlinks (exts h a)"
  shows "dll h' p xs n = dll h p xs n"
proof (rule dll_cong)
  fix a assume "a \<in> set xs"
  from assms[OF this] show "fld prev_e h' a = fld prev_e h a \<and> fld next_e h' a = fld next_e h a"
    by (cases "exts h a"; cases "exts h' a") (auto simp: fld_def tlinks_def)
qed

lemma layout_cong:
  assumes "\<And>a. a \<in> addrs t \<Longrightarrow> map_option tlinks (exts h' a) = map_option tlinks (exts h a)"
    "map_option flayout (inos h' i) = map_option flayout (inos h i)" "null_ok h' = null_ok h"
  shows "layout h' i t = layout h i t"
proof -
  have "tr h' NULL (SFlayout i) t = tr h NULL (SFlayout i) t" using assms(1) by (rule tr_tlinks)
  moreover have "dll h' NULL (inorder t) NULL = dll h NULL (inorder t) NULL"
    using assms(1) by (rule dll_tlinks)
  moreover have "(\<exists>n. inos h' i = Some n \<and> flayout n = x) = (\<exists>n. inos h i = Some n \<and> flayout n = x)" for x
    using assms(2) by (cases "inos h i"; cases "inos h' i") auto
  ultimately show ?thesis using assms(3) by (simp add: layout_def focus_def)
qed

lemma chain_tlinks:
  "(\<And>a. a \<in> set zs \<Longrightarrow> map_option tlinks (exts h' a) = map_option tlinks (exts h a)) \<Longrightarrow>
     chain h' a zs = chain h a zs"
proof (induction zs arbitrary: a)
  case (Cons z zs)
  then have z: "map_option tlinks (exts h' z) = map_option tlinks (exts h z)" by simp
  then have "fresh_ext h' z = fresh_ext h z" "fld next_e h' z = fld next_e h z"
    by (cases "exts h z"; cases "exts h' z"; auto simp: fresh_ext_def fld_def tlinks_def)+
  with Cons show ?case by simp
qed simp

section \<open>Reference lists\<close>

text \<open>The data object \<open>d\<close> of the inode \<open>i\<close> owns the extents \<open>rs\<close>.\<close>

definition dob_ok :: "store \<Rightarrow> addr \<Rightarrow> addr \<Rightarrow> addr list \<Rightarrow> bool" where
  "dob_ok h i d rs \<longleftrightarrow>
     (\<exists>x. dobs h d = Some x \<and> d_inode x = i \<and> refs x = first rs NULL \<and> num_refs x = of_nat (length rs)) \<and>
     dlist prev_ref next_ref h NULL rs NULL \<and> distinct rs \<and> NULL \<notin> set rs"

definition users :: "store \<Rightarrow> addr set \<Rightarrow> addr \<Rightarrow> addr set" where
  "users h X d = {a \<in> X. fld dobj h a = Some d}"

text \<open>The live extents \<open>X\<close> of the inode belong to the data objects of its table.\<close>

definition owned :: "store \<Rightarrow> addr \<Rightarrow> addr set \<Rightarrow> bool" where
  "owned h i X \<longleftrightarrow> finite X \<and> (\<exists>n. inos h i = Some n \<and> num_exts n = of_nat (card X) \<and>
     NULL \<notin> set (do_map n) \<and> keys_unique (dob_key h) (do_map n) \<and>
     (\<forall>d \<in> set (do_map n). \<exists>rs. dob_ok h i d rs \<and> set rs = users h X d) \<and>
     (\<forall>a \<in> X. \<exists>d \<in> set (do_map n). fld dobj h a = Some d))"

text \<open>The part of an extent that the reference lists own.\<close>

definition rlinks :: "extent \<Rightarrow> addr \<times> addr \<times> addr" where
  "rlinks e = (dobj e, prev_ref e, next_ref e)"

lemma rlinks_fld:
  assumes "map_option rlinks (exts h' a) = map_option rlinks (exts h a)"
  shows "fld dobj h' a = fld dobj h a" "fld prev_ref h' a = fld prev_ref h a"
    "fld next_ref h' a = fld next_ref h a"
  using assms by (cases "exts h a"; cases "exts h' a"; auto simp: fld_def rlinks_def)+

lemma dob_ok_cong:
  assumes "\<And>a. a \<in> set rs \<Longrightarrow> map_option rlinks (exts h' a) = map_option rlinks (exts h a)"
    "dobs h' d = dobs h d"
  shows "dob_ok h' i d rs = dob_ok h i d rs"
proof -
  have "dlist prev_ref next_ref h' NULL rs NULL = dlist prev_ref next_ref h NULL rs NULL"
    by (rule dll_cong) (use assms(1) rlinks_fld in blast)
  with assms(2) show ?thesis by (simp add: dob_ok_def)
qed

lemma users_cong:
  assumes "\<And>a. a \<in> X \<Longrightarrow> fld dobj h' a = fld dobj h a"
  shows "users h' X d = users h X d"
  using assms by (auto simp: users_def)

lemma owned_cong:
  assumes "\<And>a. a \<in> X \<Longrightarrow> map_option rlinks (exts h' a) = map_option rlinks (exts h a)"
    "dobs h' = dobs h"
    "map_option (\<lambda>n. (do_map n, num_exts n)) (inos h' i) = map_option (\<lambda>n. (do_map n, num_exts n)) (inos h i)"
    "owned h i X"
  shows "owned h' i X"
proof -
  from assms(4) obtain n where n: "inos h i = Some n" "num_exts n = of_nat (card X)"
    "NULL \<notin> set (do_map n)" "keys_unique (dob_key h) (do_map n)"
    "\<And>d. d \<in> set (do_map n) \<Longrightarrow> \<exists>rs. dob_ok h i d rs \<and> set rs = users h X d"
    "\<And>a. a \<in> X \<Longrightarrow> \<exists>d \<in> set (do_map n). fld dobj h a = Some d" by (auto simp: owned_def)
  have u: "users h' X d = users h X d" for d
    by (rule users_cong) (use assms(1) rlinks_fld in blast)
  have "\<exists>rs. dob_ok h' i d rs \<and> set rs = users h' X d" if d: "d \<in> set (do_map n)" for d
  proof -
    from n(5)[OF d] obtain rs where rs: "dob_ok h i d rs" "set rs = users h X d" by blast
    then have "dob_ok h' i d rs"
      using assms(1,2) dob_ok_cong[of rs h' h d i] by (auto simp: users_def)
    with rs(2) u show ?thesis by auto
  qed
  moreover have "dob_key h' = dob_key h" using assms(2) by (simp add: dob_key_def fun_eq_iff)
  moreover have "\<exists>d \<in> set (do_map n). fld dobj h' a = Some d" if "a \<in> X" for a
    using n(6)[OF that] rlinks_fld(1)[OF assms(1)[OF that]] by simp
  moreover obtain n' where "inos h' i = Some n'" "do_map n' = do_map n" "num_exts n' = num_exts n"
    using assms(3) n(1) by auto
  ultimately show ?thesis using n(2-4) assms(4) by (simp add: owned_def)
qed

text \<open>One data object and its extents change, the others stay.\<close>

lemma owned_update:
  assumes o: "owned h i X" "inos h i = Some n" "d \<in> set (do_map n)"
    and R: "\<And>a. a \<in> X \<Longrightarrow> fld dobj h a \<noteq> Some d \<Longrightarrow>
      map_option rlinks (exts h' a) = map_option rlinks (exts h a)"
    and D: "\<And>d'. d' \<noteq> d \<Longrightarrow> dobs h' d' = dobs h d'"
      "map_option daddr (dobs h' d) = map_option daddr (dobs h d)"
    and d: "dob_ok h' i d rs'" "\<And>a. a \<in> set rs' \<Longrightarrow> fld dobj h' a = Some d"
    and X': "X' = {a \<in> X. fld dobj h a \<noteq> Some d} \<union> set rs'"
    and n': "inos h' i = Some n'" "do_map n' = do_map n" "num_exts n' = of_nat (card X')"
  shows "owned h' i X'"
proof -
  from o have n: "NULL \<notin> set (do_map n)" "keys_unique (dob_key h) (do_map n)" "finite X"
    "\<And>d. d \<in> set (do_map n) \<Longrightarrow> \<exists>rs. dob_ok h i d rs \<and> set rs = users h X d"
    "\<And>a. a \<in> X \<Longrightarrow> \<exists>d \<in> set (do_map n). fld dobj h a = Some d" by (auto simp: owned_def)
  have f: "fld dobj h' a = fld dobj h a" if "a \<in> X" "fld dobj h a \<noteq> Some d" for a
    using rlinks_fld(1)[OF R[OF that]] .
  have k: "dob_key h' = dob_key h"
  proof
    fix d'
    show "dob_key h' d' = dob_key h d'"
      using D by (cases "d' = d"; cases "dobs h d"; cases "dobs h' d") (auto simp: dob_key_def)
  qed
  have "\<exists>rs. dob_ok h' i d' rs \<and> set rs = users h' X' d'" if d': "d' \<in> set (do_map n)" for d'
  proof (cases "d' = d")
    case True
    have "users h' X' d = set rs'" using d(2) f by (auto simp: users_def X')
    with True d(1) show ?thesis by auto
  next
    case False
    from n(4)[OF d'] obtain rs where rs: "dob_ok h i d' rs" "set rs = users h X d'" by blast
    have "dob_ok h' i d' rs"
      using rs False dob_ok_cong[of rs h' h d' i] R D(1) by (auto simp: users_def)
    moreover have "users h' X' d' = users h X d'"
      using d(2) f False by (auto simp: users_def X')
    ultimately show ?thesis using rs(2) by auto
  qed
  moreover have "\<exists>d' \<in> set (do_map n). fld dobj h' a = Some d'" if "a \<in> X'" for a
  proof (cases "a \<in> set rs'")
    case False
    with that X' have "a \<in> X" "fld dobj h a \<noteq> Some d" by auto
    with n(5) f show ?thesis by auto
  qed (use d(2) o(3) in blast)
  moreover have "finite X'" using n(3) X' by simp
  ultimately show ?thesis using n(1,2) n' k by (simp add: owned_def)
qed

section \<open>Changes of one file\<close>

text \<open>The null address and the addresses that have not been given out are unused.\<close>

definition fresh_ok :: "store \<Rightarrow> bool" where
  "fresh_ok h \<longleftrightarrow> NULL < brk h \<and> (\<forall>a. a = NULL \<or> brk h \<le> a \<longrightarrow> exts h a = None \<and> dobs h a = None)"

definition inode_rest :: "inode \<Rightarrow> inode" where
  "inode_rest n = n\<lparr>flayout := NULL, num_exts := 0, do_map := []\<rparr>"

text \<open>
  What an operation on the layout of the inode \<open>i\<close> may change: of what existed before, the extents
  \<open>A\<close>, the data objects \<open>D\<close>, and the three fields of the inode.
\<close>

definition file_change :: "addr \<Rightarrow> addr set \<Rightarrow> addr set \<Rightarrow> store \<Rightarrow> store \<Rightarrow> bool" where
  "file_change i A D h h' \<longleftrightarrow>
     h' = h\<lparr>exts := exts h', dobs := dobs h', inos := inos h', brk := brk h', avail := avail h',
       dos_log := dos_log h'\<rparr> \<and> brk h \<le> brk h' \<and>
     (\<forall>a < brk h. a \<notin> A \<longrightarrow> exts h' a = exts h a) \<and> (\<forall>d < brk h. d \<notin> D \<longrightarrow> dobs h' d = dobs h d) \<and>
     (\<forall>j. j \<noteq> i \<longrightarrow> inos h' j = inos h j) \<and>
     map_option inode_rest (inos h' i) = map_option inode_rest (inos h i)"

lemma file_change_refl: "file_change i A D h h"
  by (simp add: file_change_def)

lemma file_change_trans:
  assumes "file_change i A D h h1" "file_change i A' D' h1 h2"
    "A' \<inter> {..< brk h} \<subseteq> A" "D' \<inter> {..< brk h} \<subseteq> D"
  shows "file_change i A D h h2"
proof -
  have "h2 = h\<lparr>exts := exts h2, dobs := dobs h2, inos := inos h2, brk := brk h2, avail := avail h2,
       dos_log := dos_log h2\<rparr>"
  proof -
    have h1: "h1 = h\<lparr>exts := exts h1, dobs := dobs h1, inos := inos h1, brk := brk h1, avail := avail h1,
        dos_log := dos_log h1\<rparr>"
      and h2: "h2 = h1\<lparr>exts := exts h2, dobs := dobs h2, inos := inos h2, brk := brk h2, avail := avail h2,
        dos_log := dos_log h2\<rparr>"
      using assms by (simp_all only: file_change_def)
    have "h1\<lparr>exts := a, dobs := b, inos := c, brk := d, avail := e, dos_log := f\<rparr> =
        h\<lparr>exts := a, dobs := b, inos := c, brk := d, avail := e, dos_log := f\<rparr>" for a b c d e f
      by (subst h1) simp
    with h2 show ?thesis by (rule trans)
  qed
  moreover have "\<forall>a < brk h. a \<notin> A \<longrightarrow> exts h2 a = exts h a"
    "\<forall>d < brk h. d \<notin> D \<longrightarrow> dobs h2 d = dobs h d"
    using assms unfolding file_change_def
    by (metis IntI in_mono lessThan_iff less_le_trans)+
  ultimately show ?thesis using assms by (simp add: file_change_def)
qed

lemma file_change_mono: "file_change i A D h h' \<Longrightarrow> A \<subseteq> B \<Longrightarrow> D \<subseteq> E \<Longrightarrow> file_change i B E h h'"
  by (rule file_change_trans[OF file_change_refl]) auto

lemma link_file_change:
  assumes "link_change i A h h'" shows "file_change i A D h h'"
proof -
  from assms have e: "h' = h\<lparr>exts := exts h', inos := inos h'\<rparr>" by (simp add: link_change_def)
  have s: "dobs h' = dobs h" "brk h' = brk h" "avail h' = avail h" "dos_log h' = dos_log h"
    by (subst e, simp)+
  have "h' = h\<lparr>exts := exts h', dobs := dobs h', inos := inos h', brk := brk h', avail := avail h',
       dos_log := dos_log h'\<rparr>"
    unfolding s by (subst e) simp
  moreover have "map_option inode_rest (inos h' i) = map_option inode_rest (inos h i)"
  proof -
    have r: "inode_rest n = inode_rest (n\<lparr>flayout := NULL\<rparr>)" for n by (simp add: inode_rest_def)
    from assms have "map_option (flayout_update (\<lambda>_. NULL)) (inos h' i) =
        map_option (flayout_update (\<lambda>_. NULL)) (inos h i)" by (simp add: link_change_def)
    then have "map_option inode_rest (map_option (flayout_update (\<lambda>_. NULL)) (inos h' i)) =
        map_option inode_rest (map_option (flayout_update (\<lambda>_. NULL)) (inos h i))" by simp
    then show ?thesis by (simp add: option.map_comp comp_def r[symmetric])
  qed
  ultimately show ?thesis using assms s by (simp add: file_change_def link_change_def)
qed

section \<open>Changes of reference lists\<close>

text \<open>
  The extents \<open>P\<close> keep everything but their places in the reference lists, and the inode keeps its
  root.
\<close>

definition rest :: "extent \<Rightarrow> extent" where
  "rest e = e\<lparr>prev_ref := NULL, next_ref := NULL\<rparr>"

definition keeps :: "addr \<Rightarrow> addr set \<Rightarrow> store \<Rightarrow> store \<Rightarrow> bool" where
  "keeps i P h h' \<longleftrightarrow>
     (\<forall>a \<in> P. map_option rest (exts h' a) = map_option rest (exts h a) \<and> view h' a = view h a) \<and>
     map_option flayout (inos h' i) = map_option flayout (inos h i)"

lemma rest_simps [simp]: "rest (e\<lparr>prev_ref := a\<rparr>) = rest e" "rest (e\<lparr>next_ref := a\<rparr>) = rest e"
  by (simp_all add: rest_def)

lemma rest_eqD:
  assumes "rest e' = rest e"
  shows "dobj e' = dobj e" "off_f e' = off_f e" "off_do e' = off_do e" "len e' = len e" "tlinks e' = tlinks e"
proof -
  have "dobj e = dobj (rest e)" "off_f e = off_f (rest e)" "off_do e = off_do (rest e)"
    "len e = len (rest e)" "tlinks e = tlinks (rest e)" for e by (simp_all add: rest_def tlinks_def)
  with assms show "dobj e' = dobj e" "off_f e' = off_f e" "off_do e' = off_do e" "len e' = len e"
    "tlinks e' = tlinks e" by metis+
qed

lemma rest_cases:
  assumes "map_option rest (exts h' a) = map_option rest (exts h a)"
  obtains "exts h' a = None" "exts h a = None"
  | e e' where "exts h a = Some e" "exts h' a = Some e'" "dobj e' = dobj e" "off_f e' = off_f e"
    "off_do e' = off_do e" "len e' = len e" "tlinks e' = tlinks e"
proof (cases "exts h a")
  case (Some e)
  with assms obtain e' where "exts h' a = Some e'" "rest e' = rest e" by auto
  with Some that(2) rest_eqD[of e' e] show ?thesis by blast
qed (use assms that(1) in simp)

lemma rest_map_eq:
  assumes "map_option rest (exts h' a) = map_option rest (exts h a)"
  shows "map_option tlinks (exts h' a) = map_option tlinks (exts h a)" "fld dobj h' a = fld dobj h a"
  using assms by (rule rest_cases; simp add: fld_def)+

lemma rest_view:
  assumes "map_option rest (exts h' a) = map_option rest (exts h a)"
    "\<And>d. fld dobj h a = Some d \<Longrightarrow> map_option daddr (dobs h' d) = map_option daddr (dobs h d)"
  shows "view h' a = view h a"
  using assms(1)
proof (rule rest_cases)
  fix e e' assume "exts h a = Some e" "exts h' a = Some e'" "dobj e' = dobj e" "off_f e' = off_f e"
    "off_do e' = off_do e" "len e' = len e"
  with assms(2)[of "dobj e"] show ?thesis by (simp add: view_def fld_def)
qed (simp add: view_def)

lemma keeps_refl: "keeps i P h h"
  by (simp add: keeps_def)

lemma keeps_trans: "keeps i P h h1 \<Longrightarrow> keeps i P h1 h2 \<Longrightarrow> keeps i P h h2"
  by (simp add: keeps_def)

lemma keeps_mono: "keeps i P h h' \<Longrightarrow> Q \<subseteq> P \<Longrightarrow> keeps i Q h h'"
  by (auto simp: keeps_def)

lemma keeps_layout:
  assumes "keeps i P h h'" "addrs t \<subseteq> P" "null_ok h'" "layout h i t"
  shows "layout h' i t"
proof -
  have "null_ok h" using assms(4) by (simp add: layout_def focus_def)
  have "layout h' i t = layout h i t"
  proof (rule layout_cong)
    fix a assume "a \<in> addrs t"
    with assms(1,2) show "map_option tlinks (exts h' a) = map_option tlinks (exts h a)"
      by (intro rest_map_eq(1)) (auto simp: keeps_def)
  qed (use assms \<open>null_ok h\<close> in \<open>simp_all add: keeps_def\<close>)
  with assms(4) show ?thesis by simp
qed

lemma keeps_chain: "keeps i P h h' \<Longrightarrow> set zs \<subseteq> P \<Longrightarrow> chain h' a zs = chain h a zs"
  by (rule chain_tlinks, rule rest_map_eq(1)) (auto simp: keeps_def)

lemma keeps_where: "keeps i P h h' \<Longrightarrow> set xs \<subseteq> P \<Longrightarrow> where_is h' xs p = where_is h xs p"
  by (rule where_is_view) (auto simp: keeps_def)

lemma keeps_ordered: "keeps i P h h' \<Longrightarrow> set xs \<subseteq> P \<Longrightarrow> ordered h' xs = ordered h xs"
  by (rule ordered_view) (auto simp: keeps_def)

lemma ownedE:
  assumes "owned h i X" "a \<in> X"
  obtains n d rs us vs where "inos h i = Some n" "d \<in> set (do_map n)" "fld dobj h a = Some d"
    "dob_ok h i d rs" "set rs = users h X d" "rs = us @ a # vs"
proof -
  from assms obtain n d rs where n: "inos h i = Some n" "d \<in> set (do_map n)" "fld dobj h a = Some d"
    "dob_ok h i d rs" "set rs = users h X d" by (fastforce simp: owned_def)
  with assms(2) have "a \<in> set rs" by (simp add: users_def)
  then obtain us vs where "rs = us @ a # vs" by (auto dest: split_list)
  with n that show ?thesis by blast
qed

lemma owned_dob:
  assumes "owned h i X" "inos h i = Some n" "d \<in> set (do_map n)"
  obtains rs where "dob_ok h i d rs" "set rs = users h X d"
  using assms by (auto simp: owned_def)

lemma owned_below:
  assumes "owned h i X" "fresh_ok h" "a \<in> X"
  shows "a < brk h" "a \<noteq> NULL" "valid h a"
proof -
  from assms obtain d where "fld dobj h a = Some d" by (auto simp: owned_def)
  then have v: "exts h a \<noteq> None" by (auto simp: fld_def)
  then show "valid h a" by (simp add: valid_def)
  from v assms(2) show "a < brk h" "a \<noteq> NULL" by (auto simp only: fresh_ok_def not_le[symmetric])
qed

lemma owned_dob_below:
  assumes "owned h i X" "inos h i = Some n" "fresh_ok h" "d \<in> set (do_map n)"
  shows "d < brk h" "d \<noteq> NULL" "dobs h d \<noteq> None"
proof -
  from owned_dob[OF assms(1,2,4)] show v: "dobs h d \<noteq> None" by (auto simp: dob_ok_def)
  with assms(3) show "d < brk h" "d \<noteq> NULL" by (auto simp only: fresh_ok_def not_le[symmetric])
qed

lemma fresh_null_ok: "fresh_ok h \<Longrightarrow> null_ok h"
  by (simp add: fresh_ok_def null_ok_def)

lemma fresh_okD: "fresh_ok h \<Longrightarrow> a = NULL \<or> brk h \<le> a \<Longrightarrow> exts h a = None \<and> dobs h a = None"
  unfolding fresh_ok_def by (drule conjunct2) (erule allE, erule mp)

lemma fresh_ok_cong:
  assumes "fresh_ok h" "brk h \<le> brk h'" "\<And>a. exts h' a \<noteq> None \<Longrightarrow> exts h a \<noteq> None"
    "\<And>d. dobs h' d \<noteq> None \<Longrightarrow> dobs h d \<noteq> None"
  shows "fresh_ok h'"
  unfolding fresh_ok_def
proof (intro conjI allI impI)
  show "NULL < brk h'" using assms(1,2) by (simp add: fresh_ok_def)
next
  fix a assume "a = NULL \<or> brk h' \<le> a"
  with assms(2) have "a = NULL \<or> brk h \<le> a" by auto
  from fresh_okD[OF assms(1) this] have "exts h a = None" "dobs h a = None" by simp_all
  then show "exts h' a = None" "dobs h' a = None" using assms(3)[of a] assms(4)[of a] by argo+
qed

section \<open>Creating an extent\<close>

lemma create_extent_correct:
  assumes o: "owned h i X" "inos h i = Some n" "d \<in> set (do_map n)" and f: "fresh_ok h" "0 < avail h"
  defines "p \<equiv> brk h"
  shows "\<exists>h' e. create_extent d fo od l h = Some (p, h') \<and> owned h' i (insert p X) \<and> fresh_ok h' \<and>
    keeps i X h h' \<and> file_change i X {d} h h' \<and>
    exts h' p = Some e \<and> dobj e = d \<and> off_f e = fo \<and> off_do e = od \<and> len e = l \<and> next_e e = NULL \<and>
    fresh_ext h' p \<and> brk h' = p + 1 \<and> avail h' = avail h - 1 \<and>
    inos h' i = Some (n\<lparr>num_exts := num_exts n + 1\<rparr>) \<and>
    map_option daddr (dobs h' d) = map_option daddr (dobs h d)"
proof -
  from owned_dob[OF o] obtain rs where rs: "dob_ok h i d rs" "set rs = users h X d" by blast
  then obtain x where x: "dobs h d = Some x" "d_inode x = i" "refs x = first rs NULL"
    "num_refs x = of_nat (length rs)" "dlist prev_ref next_ref h NULL rs NULL" "distinct rs" "NULL \<notin> set rs"
    by (auto simp: dob_ok_def)
  have X: "X \<subseteq> {..<brk h}" "finite X" using owned_below[OF o(1) f(1)] o(1) by (auto simp: owned_def)
  then have pX: "p \<notin> X" "p \<notin> set rs" using rs(2) by (auto simp: p_def users_def)
  have p0: "p \<noteq> NULL" "exts h p = None" using f(1) by (auto simp: p_def fresh_ok_def)
  define e where "e = \<lparr>dobj = d, off_f = fo, off_do = od, len = l, prev_ref = NULL,
    next_ref = refs x, depth = 1, parent = NULL, pivot = SNull, left = NULL, right = NULL,
    prev_e = NULL, next_e = NULL\<rparr>"
  define h1 where "h1 = h\<lparr>brk := brk h + 1, avail := avail h - 1, exts := (exts h)(p \<mapsto> e)\<rparr>"
  define h2 where "h2 = (if rs = [] then h1 else mod_ext (hd rs) (\<lambda>e. e\<lparr>prev_ref := p\<rparr>) h1)"
  define h' where "h' = mod_ino i (\<lambda>n. n\<lparr>num_exts := num_exts n + 1\<rparr>)
    (mod_dob d (\<lambda>x. x\<lparr>refs := p, num_refs := num_refs x + 1\<rparr>) h2)"
  have hd: "rs \<noteq> [] \<Longrightarrow> first rs NULL = hd rs \<and> hd rs \<in> set rs \<and> hd rs \<noteq> NULL \<and> hd rs \<noteq> p"
    using x(7) pX by (cases rs) auto
  have v: "rs \<noteq> [] \<Longrightarrow> valid h1 (hd rs)"
    using hd dll_valid[OF x(5)] by (auto simp: h1_def valid_def)
  have h2: "dobs h2 = dobs h" "inos h2 = inos h" "brk h2 = p + 1" "avail h2 = avail h - 1"
    by (simp_all add: h2_def h1_def p_def)
  have "create_extent d fo od l h = Some (p, h')"
  proof (cases "rs = []")
    case True
    with f p0 x o(2) h2 show ?thesis
      by (simp add: create_extent_def calloc_def Let_def p_def e_def h1_def h2_def h'_def mon valid_def)
  next
    case False
    with f p0 x o(2) h2 hd v show ?thesis
      by (simp add: create_extent_def calloc_def Let_def p_def e_def h1_def h2_def h'_def mon valid_def)
  qed
  moreover have ex: "exts h' a = (if a = p then Some e else if rs \<noteq> [] \<and> a = hd rs
      then map_option (\<lambda>e. e\<lparr>prev_ref := p\<rparr>) (exts h a) else exts h a)" for a
    using hd by (auto simp: h'_def h2_def h1_def)
  have r: "map_option rest (exts h' a) = map_option rest (exts h a)" if "a \<noteq> p" for a
    using that by (auto simp: ex option.map_comp comp_def)
  have db: "dobs h' d = Some (x\<lparr>refs := p, num_refs := num_refs x + 1\<rparr>)"
    "\<And>d'. d' \<noteq> d \<Longrightarrow> dobs h' d' = dobs h d'" using x(1) h2 by (simp_all add: h'_def)
  have n': "inos h' i = Some (n\<lparr>num_exts := num_exts n + 1\<rparr>)" "\<And>j. j \<noteq> i \<Longrightarrow> inos h' j = inos h j"
    using o(2) h2 by (simp_all add: h'_def)
  have da: "map_option daddr (dobs h' d') = map_option daddr (dobs h d')" for d'
    using db x(1) by (cases "d' = d") simp_all
  moreover have "owned h' i (insert p X)"
  proof (rule owned_update[OF o, of h' "p # rs"])
    show "map_option rlinks (exts h' a) = map_option rlinks (exts h a)"
      if "a \<in> X" "fld dobj h a \<noteq> Some d" for a
    proof -
      from that rs(2) have "a \<notin> set rs" "a \<noteq> p" using pX by (auto simp: users_def)
      with hd show ?thesis by (auto simp: ex)
    qed
    have "dlist prev_ref next_ref h' p rs NULL"
    proof (cases rs)
      case (Cons r rs')
      with x(5,6) have "dlist prev_ref next_ref (mod_ext r (\<lambda>e. e\<lparr>prev_ref := p\<rparr>) h) p (r # rs') NULL"
        by (intro dll_set_prev) auto
      moreover have "dlist prev_ref next_ref h' p rs NULL =
          dlist prev_ref next_ref (mod_ext r (\<lambda>e. e\<lparr>prev_ref := p\<rparr>) h) p rs NULL"
        using Cons pX by (intro dll_cong) (auto simp: fld_def ex)
      ultimately show ?thesis using Cons by simp
    qed simp
    then show "dob_ok h' i d (p # rs)"
      using x db(1) pX p0 ex[of p] by (simp add: dob_ok_def fld_def e_def)
    show "fld dobj h' a = Some d" if "a \<in> set (p # rs)" for a
      using that rs(2) rest_map_eq(2)[OF r] ex[of p] by (cases "a = p") (auto simp: users_def fld_def e_def)
    show "insert p X = {a \<in> X. fld dobj h a \<noteq> Some d} \<union> set (p # rs)"
      using rs(2) by (auto simp: users_def)
    show "num_exts (n\<lparr>num_exts := num_exts n + 1\<rparr>) = of_nat (card (insert p X))"
      using o(1,2) pX X(2) by (simp add: owned_def)
  qed (use db x(1) n' in simp_all)
  moreover have "fresh_ok h'"
    using f(1) hd o(1) ex x(1) db h2 rs(2)
    by (auto simp: fresh_ok_def p_def h'_def users_def owned_def) 
  moreover have "keeps i X h h'"
  proof -
    have "map_option rest (exts h' a) = map_option rest (exts h a)" if "a \<in> X" for a
      using that pX by (intro r) auto
    with rest_view[OF this da] n' o(2) show ?thesis by (simp add: keeps_def)
  qed
  moreover have "file_change i X {d} h h'"
  proof -
    have "h' = h\<lparr>exts := exts h', dobs := dobs h', inos := inos h', brk := brk h', avail := avail h',
        dos_log := dos_log h'\<rparr>"
      by (simp add: h'_def h2_def h1_def mod_ino_def mod_dob_def mod_ext_def)
    moreover have "exts h' a = exts h a" if "a < brk h" "a \<notin> X" for a
      using that hd rs(2) by (auto simp: ex p_def users_def)
    ultimately show ?thesis using db n' h2 o(2) by (simp add: file_change_def inode_rest_def h'_def p_def)
  qed
  moreover have "fresh_ext h' p" using ex[of p] by (simp add: fresh_ext_def e_def)
  moreover have "brk h' = p + 1" "avail h' = avail h - 1" using h2 by (simp_all add: h'_def)
  moreover have "exts h' p = Some e" "dobj e = d \<and> off_f e = fo \<and> off_do e = od \<and> len e = l \<and> next_e e = NULL"
    using ex[of p] by (simp_all add: e_def)
  ultimately show ?thesis using n'(1) by blast
qed

section \<open>Releasing an extent\<close>

lemma count_refs_dlist:
  "dlist prev_ref next_ref h p rs NULL \<Longrightarrow> NULL \<notin> set rs \<Longrightarrow> count_refs (first rs NULL) h = Some (of_nat (length rs))"
proof (induction rs arbitrary: p)
  case Nil
  then show ?case by (simp add: count_refs.simps)
next
  case (Cons r rs)
  then show ?case by (subst count_refs.simps) (auto simp: fld_eq_Some add.commute)
qed

lemma check_dobject_ok: "dob_ok h i d rs \<Longrightarrow> check_dobject d h = Some ()"
  by (auto simp: check_dobject_def dob_ok_def count_refs_dlist)

text \<open>The store after an extent with the neighbours \<open>us\<close> and \<open>vs\<close> has been taken out of its
  reference list, before it is freed.\<close>

definition unlinked :: "addr list \<Rightarrow> addr list \<Rightarrow> addr \<Rightarrow> addr \<Rightarrow> store \<Rightarrow> store" where
  "unlinked us vs d i h =
     (let h1 = (if us = [] then h else mod_ext (final NULL us) (\<lambda>e. e\<lparr>next_ref := first vs NULL\<rparr>) h);
          h2 = (if vs = [] then h1 else mod_ext (first vs NULL) (\<lambda>e. e\<lparr>prev_ref := final NULL us\<rparr>) h1);
          h3 = mod_dob d (\<lambda>x. x\<lparr>refs := first (us @ vs) NULL, num_refs := num_refs x - 1\<rparr>) h2
      in mod_ino i (\<lambda>n. n\<lparr>num_exts := num_exts n - 1\<rparr>) h3)"

lemma unlinked_dob_ok:
  assumes "dob_ok h i d (us @ a # vs)"
  shows "dob_ok (unlinked us vs d i h) i d (us @ vs)"
proof -
  from assms obtain x where x: "dobs h d = Some x" "d_inode x = i" "refs x = first (us @ a # vs) NULL"
    "dlist prev_ref next_ref h NULL (us @ a # vs) NULL" "distinct (us @ a # vs)"
    "NULL \<notin> set (us @ a # vs)" "num_refs x = of_nat (length (us @ a # vs))" by (auto simp: dob_ok_def)
  let ?k = "unlinked us vs d i h"
  have "dobs ?k d = Some (x\<lparr>refs := first (us @ vs) NULL, num_refs := num_refs x - 1\<rparr>)"
    using x(1) by (simp add: unlinked_def Let_def)
  moreover have "dlist prev_ref next_ref ?k NULL (us @ vs) NULL"
  proof -
    have "dlist prev_ref next_ref ?k NULL (us @ vs) NULL = dlist prev_ref next_ref
      (let h1 = (if us = [] then h else mod_ext (final NULL us) (\<lambda>e. e\<lparr>next_ref := first vs NULL\<rparr>) h)
       in if vs = [] then h1 else mod_ext (first vs NULL) (\<lambda>e. e\<lparr>prev_ref := final NULL us\<rparr>) h1)
      NULL (us @ vs) NULL"
      by (rule dll_cong) (simp add: unlinked_def Let_def)
    also have "\<dots>" unfolding Let_def
      by (rule dll_unlink[of prev_ref next_ref h us a vs]) (use x in simp_all)
    finally show ?thesis .
  qed
  ultimately show ?thesis using x(2,5,6,7) by (simp add: dob_ok_def)
qed

lemma unref_extent_eval:
  assumes rs: "dob_ok h i d (us @ a # vs)" and a: "fld dobj h a = Some d" and n: "inos h i \<noteq> None"
  shows "unref_extent a h =
    Some (if us @ vs = [] then d else NULL, free_ext a (unlinked us vs d i h))"
proof -
  let ?p = "final NULL us" and ?n = "first vs NULL"
  from rs obtain x where x: "dobs h d = Some x" "d_inode x = i" "refs x = first (us @ a # vs) NULL"
    "dlist prev_ref next_ref h NULL (us @ a # vs) NULL" "distinct (us @ a # vs)"
    "NULL \<notin> set (us @ a # vs)" "num_refs x = of_nat (length (us @ a # vs))" by (auto simp: dob_ok_def)
  obtain t where t: "exts h a = Some t" "dobj t = d" "prev_ref t = ?p" "next_ref t = ?n"
    using a dll_prev[OF x(4)] dll_next[OF x(4)] by (auto simp: fld_eq_Some)
  have p: "us = [] \<longleftrightarrow> ?p = NULL" "us \<noteq> [] \<Longrightarrow> ?p \<in> set us"
    using x(6) by (cases us rule: rev_cases; auto)+
  have n': "vs = [] \<longleftrightarrow> ?n = NULL" "vs \<noteq> [] \<Longrightarrow> ?n \<in> set vs" using x(6) by (cases vs; auto)+
  have v: "us \<noteq> [] \<Longrightarrow> valid h ?p" "vs \<noteq> [] \<Longrightarrow> valid h ?n"
    using dll_valid[OF x(4)] p(2) n'(2) by auto
  define h2 where "h2 = (let h1 = (if us = [] then h else mod_ext ?p (\<lambda>e. e\<lparr>next_ref := ?n\<rparr>) h)
    in if vs = [] then h1 else mod_ext ?n (\<lambda>e. e\<lparr>prev_ref := ?p\<rparr>) h1)"
  have h2: "dobs h2 = dobs h" "inos h2 = inos h" by (simp_all add: h2_def Let_def)
  have u: "unlinked us vs d i h = mod_ino i (\<lambda>n. n\<lparr>num_exts := num_exts n - 1\<rparr>)
      (mod_dob d (\<lambda>x. x\<lparr>refs := first (us @ vs) NULL, num_refs := num_refs x - 1\<rparr>) h2)"
    by (simp add: unlinked_def h2_def Let_def)
  define h3 where "h3 = mod_dob d (\<lambda>x. x\<lparr>num_refs := num_refs x - 1\<rparr>)
    (if us = [] then mod_dob d (\<lambda>x. x\<lparr>refs := ?n\<rparr>) h2 else h2)"
  have "dobs h3 = dobs (mod_dob d (\<lambda>x. x\<lparr>refs := first (us @ vs) NULL, num_refs := num_refs x - 1\<rparr>) h2)"
  proof (cases us)
    case (Cons b us')
    with x(1,3) h2 show ?thesis by (auto simp: h3_def fun_eq_iff)
  qed (use x(1) h2 in \<open>auto simp: h3_def fun_eq_iff\<close>)
  then have h3: "h3 = mod_dob d (\<lambda>x. x\<lparr>refs := first (us @ vs) NULL, num_refs := num_refs x - 1\<rparr>) h2"
    by (simp add: h3_def mod_dob_def)
  have "unref_extent a h = do {
      x \<leftarrow> dobs h3 d;
      h \<leftarrow> upd_ino (d_inode x) (\<lambda>n. n\<lparr>num_exts := num_exts n - 1\<rparr>) h3;
      ensure (refs x = NULL \<longrightarrow> num_refs x = 0);
      check_dobject d h;
      Some (if refs x = NULL then d else NULL, free_ext a h) }"
    using t p n' v x(1) n h2
    by (cases "us = []"; cases "vs = []")
      (auto simp: unref_extent_def h3_def h2_def Let_def mon valid_def mod_ext_def mod_dob_def
        fun_upd_twist intro!: arg_cong[where f = "Option.bind _"])
  moreover have "dobs h3 d = Some (x\<lparr>refs := first (us @ vs) NULL, num_refs := num_refs x - 1\<rparr>)"
    using x(1) h2 by (simp add: h3)
  moreover have "upd_ino i (\<lambda>n. n\<lparr>num_exts := num_exts n - 1\<rparr>) h3 = Some (unlinked us vs d i h)"
    using n h2 by (simp add: u h3 mon)
  moreover have "first (us @ vs) NULL = NULL \<longleftrightarrow> us @ vs = []" using x(6) by (cases us; cases vs) auto
  moreover have "us @ vs = [] \<Longrightarrow> num_refs x - 1 = 0" using x(7) by simp
  ultimately show ?thesis using x(2) check_dobject_ok[OF unlinked_dob_ok[OF rs]] by (auto simp: mon)
qed

lemma unref_extent_correct:
  assumes o: "owned h i X" "a \<in> X" "inos h i = Some n" and f: "fresh_ok h"
  shows "\<exists>d rs h'. unref_extent a h = Some (if rs = [] then d else NULL, h') \<and>
    fld dobj h a = Some d \<and> d \<in> set (do_map n) \<and> dob_ok h' i d rs \<and> set rs = users h X d - {a} \<and>
    owned h' i (X - {a}) \<and> fresh_ok h' \<and> keeps i (X - {a}) h h' \<and> file_change i X {d} h h' \<and>
    brk h' = brk h \<and> avail h' = avail h \<and>
    inos h' i = Some (n\<lparr>num_exts := num_exts n - 1\<rparr>) \<and> map_option daddr (dobs h' d) = map_option daddr (dobs h d)"
proof -
  obtain d rs us vs where d: "d \<in> set (do_map n)" "fld dobj h a = Some d"
    "dob_ok h i d rs" "set rs = users h X d" "rs = us @ a # vs"
    using ownedE[OF o(1,2)] o(3) by (metis option.inject)
  then obtain x where x: "dobs h d = Some x" "d_inode x = i"
    "num_refs x = of_nat (length rs)" "dlist prev_ref next_ref h NULL rs NULL" "distinct rs" "NULL \<notin> set rs"
    by (auto simp: dob_ok_def)
  define k where "k = unlinked us vs d i h"
  define h' where "h' = free_ext a k"
  have p: "us \<noteq> [] \<Longrightarrow> final NULL us \<in> set us" "vs \<noteq> [] \<Longrightarrow> first vs NULL \<in> set vs"
    by (cases us rule: rev_cases; cases vs; auto)+
  have ra: "map_option rest (exts k b) = map_option rest (exts h b)" for b
    by (auto simp: k_def unlinked_def Let_def option.map_comp comp_def)
  have un: "exts k b = exts h b" if "b \<notin> set (us @ vs)" for b
    using that p by (auto simp: k_def unlinked_def Let_def)
  have ex: "exts h' b = (if b = a then None else exts k b)" for b by (simp add: h'_def free_ext_def)
  have db: "dobs h' d = Some (x\<lparr>refs := first (us @ vs) NULL, num_refs := num_refs x - 1\<rparr>)"
    "\<And>d'. d' \<noteq> d \<Longrightarrow> dobs h' d' = dobs h d'" "dobs h' = dobs k"
    using x(1) by (auto simp: h'_def k_def unlinked_def Let_def free_ext_def)
  have no: "inos h' i = Some (n\<lparr>num_exts := num_exts n - 1\<rparr>)" "\<And>j. j \<noteq> i \<Longrightarrow> inos h' j = inos h j"
    using o(3) by (auto simp: h'_def k_def unlinked_def Let_def free_ext_def)
  have okk: "dob_ok k i d (us @ vs)" unfolding k_def by (rule unlinked_dob_ok[OF d(3)[unfolded d(5)]])
  have "dob_ok h' i d (us @ vs) = dob_ok k i d (us @ vs)"
  proof (rule dob_ok_cong)
    fix b assume "b \<in> set (us @ vs)"
    with x(5) d(5) have "b \<noteq> a" by auto
    then show "map_option rlinks (exts h' b) = map_option rlinks (exts k b)" by (simp add: ex)
  qed (simp add: db(3))
  with okk have okh: "dob_ok h' i d (us @ vs)" by simp
  have ev: "unref_extent a h = Some (if us @ vs = [] then d else NULL, h')"
    using unref_extent_eval[OF d(3)[unfolded d(5)] d(2)] o(3)
    by (simp add: h'_def k_def)
  have da: "map_option daddr (dobs h' d') = map_option daddr (dobs h d')" for d'
    using db(1,2) x(1) by (cases "d' = d") simp_all
  have X: "finite X" "num_exts n = of_nat (card X)" using o by (auto simp: owned_def)
  have U: "set (us @ vs) = users h X d - {a}" using d(4,5) x(5) by auto
  have "owned h' i (X - {a})"
  proof (rule owned_update[OF o(1,3) d(1), of h' "us @ vs"])
    show "map_option rlinks (exts h' b) = map_option rlinks (exts h b)"
      if "b \<in> X" "fld dobj h b \<noteq> Some d" for b
    proof -
      from that U d(2) have "b \<notin> set (us @ vs)" "b \<noteq> a" by (auto simp: users_def)
      with un ex show ?thesis by simp
    qed
    show "fld dobj h' b = Some d" if "b \<in> set (us @ vs)" for b
    proof -
      from that U have b: "b \<noteq> a" "fld dobj h b = Some d" by (auto simp: users_def)
      with rest_map_eq(2)[OF ra[of b]] ex[of b] show ?thesis by (simp add: fld_def)
    qed
    show "X - {a} = {b \<in> X. fld dobj h b \<noteq> Some d} \<union> set (us @ vs)"
      using U d(2) by (auto simp: users_def)
    have "card X = Suc (card (X - {a}))" using X(1) o(2) by (rule card.remove)
    from arg_cong[OF this, of "of_nat :: nat \<Rightarrow> u32"] have "num_exts n = 1 + of_nat (card (X - {a}))"
      unfolding X(2) of_nat_Suc .
    then show "num_exts (n\<lparr>num_exts := num_exts n - 1\<rparr>) = of_nat (card (X - {a}))" by simp
  qed (use okh da[of d] db x(1) no in simp_all)
  moreover have "fresh_ok h'"
  proof (rule fresh_ok_cong[OF f])
    show "exts h b \<noteq> None" if "exts h' b \<noteq> None" for b
      using that ra[of b] ex[of b] by (cases "exts h b") (auto split: if_splits)
    show "dobs h d' \<noteq> None" if "dobs h' d' \<noteq> None" for d'
      using that da[of d'] by (cases "dobs h d'") auto
  qed (simp add: h'_def free_ext_def k_def unlinked_def Let_def)
  moreover have "keeps i (X - {a}) h h'"
  proof -
    have "map_option rest (exts h' b) = map_option rest (exts h b)" if "b \<in> X - {a}" for b
      using that ra[of b] ex[of b] by simp
    with rest_view[OF this da] no o(3) show ?thesis by (simp add: keeps_def)
  qed
  moreover have "file_change i X {d} h h'"
  proof -
    have "h' = h\<lparr>exts := exts h', dobs := dobs h', inos := inos h', brk := brk h', avail := avail h',
        dos_log := dos_log h'\<rparr>"
      by (simp add: h'_def k_def unlinked_def free_ext_def Let_def mod_ino_def mod_dob_def mod_ext_def)
    moreover have "exts h' b = exts h b" if "b \<notin> X" for b
      using that ex[of b] un[of b] U o(2) by (auto simp: users_def)
    ultimately show ?thesis using db no o(3)
      by (simp add: file_change_def inode_rest_def h'_def k_def unlinked_def free_ext_def Let_def)
  qed
  moreover have "brk h' = brk h" "avail h' = avail h"
    by (simp_all add: h'_def k_def unlinked_def free_ext_def Let_def)
  ultimately show ?thesis using ev d(1,2) okh U no(1) da[of d] by blast
qed

text \<open>A data object that no extent refers to is removed.\<close>

lemma keys_unique_cong: "(\<And>a. a \<in> set xs \<Longrightarrow> key' a = key a) \<Longrightarrow> keys_unique key' xs = keys_unique key xs"
  by (simp add: keys_unique_def)

lemma dos_call_frame:
  assumes "dos_call host bs h = (r, h')"
  shows "h' = h\<lparr>dos_log := dos_log h'\<rparr>"
  using assms by (auto simp: dos_call_def split: option.splits)

lemma remove_dobject_empty:
  assumes o: "owned h i X" "inos h i = Some n" and d: "d \<in> set (do_map n)" "users h X d = {}"
    and f: "fresh_ok h"
  shows "\<exists>r h'. remove_dobject d u h = Some (r, h') \<and> owned h' i X \<and> fresh_ok h' \<and> keeps i X h h' \<and>
    file_change i {} {d} h h' \<and> brk h' = brk h \<and> avail h' = avail h \<and>
    inos h' i = Some (n\<lparr>do_map := remove1 d (do_map n)\<rparr>) \<and> exts h' = exts h"
proof -
  from owned_dob[OF o d(1)] d(2) have "dob_ok h i d []" by auto
  then obtain x where x: "dobs h d = Some x" "d_inode x = i" "refs x = NULL" by (auto simp: dob_ok_def)
  define n' where "n' = n\<lparr>do_map := remove1 d (do_map n)\<rparr>"
  define h1 where "h1 = mod_ino i (\<lambda>k. k\<lparr>do_map := remove1 d (do_map n)\<rparr>) h"
  have h1: "dobs h1 = dobs h" "exts h1 = exts h" "inos h1 i = Some n'"
    "upd_ino i (\<lambda>k. k\<lparr>do_map := remove1 d (do_map n)\<rparr>) h = Some h1"
    using o(2) by (auto simp: h1_def n'_def)
  have "drop_refs d h1 = Some h1" using x h1 by (simp add: drop_refs.simps)
  define c where "c = (if u then dos_call (host_id (daddr x)) (link_msg REMOVE_LINK (loid (daddr x)) n' h1) h1
    else (Some (ret_code SUCCESS), h1))"
  define h' where "h' = free_dob d (snd c)"
  have sc: "snd c = h1\<lparr>dos_log := dos_log (snd c)\<rparr>"
  proof (cases u)
    case True
    have "dos_call (host_id (daddr x)) (link_msg REMOVE_LINK (loid (daddr x)) n' h1) h1 = (fst c, snd c)"
      using True by (simp add: c_def)
    from dos_call_frame[OF this] show ?thesis .
  qed (simp add: c_def)
  have m: "hash_delete d (do_map n) = Some (remove1 d (do_map n))" using d(1) by (simp add: hash_delete_def)
  have d0: "d \<noteq> NULL" by (rule owned_dob_below(2)[OF o f d(1)])
  have "\<exists>r. remove_dobject d u h = Some (r, h')"
    using x o(2) m d0 h1(1,3) \<open>drop_refs d h1 = Some h1\<close>
    by (auto simp: remove_dobject_def h'_def c_def h1(4) simp del: upd_ino_Some split: prod.splits option.splits)
  moreover have h': "exts h' = exts h" "dobs h' = (dobs h)(d := None)" "inos h' = (inos h)(i \<mapsto> n')"
    "brk h' = brk h" "avail h' = avail h" "inode_rest n' = inode_rest n" "flayout n' = flayout n"
  proof -
    have "exts (snd c) = exts h1" "dobs (snd c) = dobs h1" "inos (snd c) = inos h1" "brk (snd c) = brk h1"
      "avail (snd c) = avail h1" by (subst sc, simp)+
    then show "exts h' = exts h" "dobs h' = (dobs h)(d := None)" "inos h' = (inos h)(i \<mapsto> n')"
      "brk h' = brk h" "avail h' = avail h"
      using o(2) by (simp_all add: h'_def free_dob_def h1_def mod_ino_def n'_def)
  qed (simp_all add: n'_def inode_rest_def)
  moreover have "h' = h\<lparr>exts := exts h', dobs := dobs h', inos := inos h', brk := brk h', avail := avail h',
      dos_log := dos_log h'\<rparr>"
  proof -
    have "h' = h1\<lparr>dos_log := dos_log (snd c), dobs := dobs h'\<rparr>"
      unfolding h'_def free_dob_def by (subst sc) simp
    then show ?thesis using h' o(2)
      by (intro store.equality) (simp_all add: h1_def mod_ino_def n'_def)
  qed
  moreover have nd: "fld dobj h a \<noteq> Some d" if "a \<in> X" for a using that d(2) by (auto simp: users_def)
  have "owned h' i X"
  proof -
    from o have n: "finite X" "num_exts n = of_nat (card X)" "NULL \<notin> set (do_map n)"
      "keys_unique (dob_key h) (do_map n)"
      "\<And>d. d \<in> set (do_map n) \<Longrightarrow> \<exists>rs. dob_ok h i d rs \<and> set rs = users h X d"
      "\<And>a. a \<in> X \<Longrightarrow> \<exists>d \<in> set (do_map n). fld dobj h a = Some d" by (auto simp: owned_def)
    from n(4) have dm: "set (do_map n') = set (do_map n) - {d}" by (simp add: n'_def keys_unique_def)
    have "keys_unique (dob_key h) (do_map n')" using uth.unique_del[OF n(4) m] by (simp add: n'_def)
    moreover have "dob_key h' e = dob_key h e" if "e \<in> set (do_map n')" for e
      using that dm h'(2) by (auto simp: dob_key_def)
    ultimately have "keys_unique (dob_key h') (do_map n')" using keys_unique_cong[of "do_map n'"] by blast
    moreover have "\<exists>rs. dob_ok h' i e rs \<and> set rs = users h' X e" if e: "e \<in> set (do_map n')" for e
    proof -
      from e dm have "e \<in> set (do_map n)" by simp
      from n(5)[OF this] obtain rs where rs: "dob_ok h i e rs" "set rs = users h X e" by blast
      moreover have "dob_ok h' i e rs = dob_ok h i e rs"
        by (rule dob_ok_cong) (use e dm h' in auto)
      moreover have "users h' X e = users h X e" by (simp add: users_def fld_def h'(1))
      ultimately show ?thesis by auto
    qed
    moreover have "\<exists>e \<in> set (do_map n'). fld dobj h' a = Some e" if "a \<in> X" for a
      using n(6)[OF that] nd[OF that] dm by (auto simp: fld_def h'(1))
    ultimately show ?thesis using n(1-3) dm h'(3) by (simp add: owned_def n'_def)
  qed
  moreover have "fresh_ok h'"
    by (rule fresh_ok_cong[OF f]) (simp_all add: h' split: if_splits)
  moreover have "keeps i X h h'"
  proof -
    have "view h' a = view h a" if "a \<in> X" for a
      using nd[OF that] h'(2) by (intro rest_view) (auto simp: h'(1))
    then show ?thesis using h' o(2) by (simp add: keeps_def)
  qed
  ultimately show ?thesis using o(2) by (auto simp: file_change_def n'_def)
qed

lemma release_extent_correct:
  assumes o: "owned h i X" "a \<in> X" "inos h i = Some n" and f: "fresh_ok h"
  shows "\<exists>h' n'. release_extent a trig h = Some h' \<and> owned h' i (X - {a}) \<and> fresh_ok h' \<and>
    keeps i (X - {a}) h h' \<and> file_change i X (set (do_map n)) h h' \<and> brk h' = brk h \<and> avail h' = avail h \<and>
    inos h' i = Some n' \<and> set (do_map n') \<subseteq> set (do_map n) \<and> (\<not> trig \<longrightarrow> do_map n' = do_map n) \<and>
    (\<forall>d. d \<in> set (do_map n') \<longrightarrow> map_option daddr (dobs h' d) = map_option daddr (dobs h d))"
proof -
  from unref_extent_correct[OF assms] obtain d rs h1 where
    h1: "unref_extent a h = Some (if rs = [] then d else NULL, h1)" "d \<in> set (do_map n)" "dob_ok h1 i d rs"
    "set rs = users h X d - {a}" "owned h1 i (X - {a})" "fresh_ok h1" "keeps i (X - {a}) h h1"
    "file_change i X {d} h h1" "brk h1 = brk h" "avail h1 = avail h"
    "inos h1 i = Some (n\<lparr>num_exts := num_exts n - 1\<rparr>)" "map_option daddr (dobs h1 d) = map_option daddr (dobs h d)"
    by blast
  have da: "map_option daddr (dobs h1 e) = map_option daddr (dobs h e)" if "e \<in> set (do_map n)" for e
  proof (cases "e = d")
    case False
    have "e < brk h" by (rule owned_dob_below(1)[OF o(1,3) f that])
    with h1(8) False show ?thesis by (simp add: file_change_def)
  qed (use h1(12) in simp)
  show ?thesis
  proof (cases "rs = [] \<and> trig")
    case False
    have "d \<noteq> NULL" by (rule owned_dob_below(2)[OF o(1,3) f h1(2)])
    with False h1(1) have "release_extent a trig h = Some h1" by (auto simp: release_extent_def)
    moreover have "file_change i X (set (do_map n)) h h1" using h1(8,2) by (auto intro: file_change_mono)
    ultimately show ?thesis using h1 da by auto
  next
    case True
    define n1 where "n1 = n\<lparr>num_exts := num_exts n - 1\<rparr>"
    have n1: "inos h1 i = Some n1" "do_map n1 = do_map n" using h1(11) by (simp_all add: n1_def)
    from owned_dob[OF h1(5) n1(1)] n1(2) h1(2) obtain rs' where
      rs': "dob_ok h1 i d rs'" "set rs' = users h1 (X - {a}) d" by auto
    have "rs' = []"
    proof (rule ccontr)
      assume "rs' \<noteq> []"
      then obtain b bs where "rs' = b # bs" by (cases rs') auto
      with rs'(1) h1(3) True show False by (auto simp: dob_ok_def)
    qed
    with rs'(2) have "users h1 (X - {a}) d = {}" by simp
    from remove_dobject_empty[OF h1(5) n1(1) _ this h1(6), of True] h1(2) n1(2) obtain r h' where
      h': "remove_dobject d True h1 = Some (r, h')" "owned h' i (X - {a})" "fresh_ok h'"
      "keeps i (X - {a}) h1 h'" "file_change i {} {d} h1 h'" "brk h' = brk h1" "avail h' = avail h1"
      "inos h' i = Some (n1\<lparr>do_map := remove1 d (do_map n1)\<rparr>)" by auto
    have "d \<noteq> NULL" by (rule owned_dob_below(2)[OF o(1,3) f h1(2)])
    with True h1(1) h'(1) have "release_extent a trig h = Some h'" by (simp add: release_extent_def)
    moreover have "file_change i X (set (do_map n)) h h'"
      by (rule file_change_trans[OF file_change_mono[OF h1(8)] h'(5)]) (use h1(2) in auto)
    moreover have "keeps i (X - {a}) h h'" by (rule keeps_trans[OF h1(7) h'(4)])
    moreover have "map_option daddr (dobs h' e) = map_option daddr (dobs h e)"
      if "e \<in> set (remove1 d (do_map n))" for e
    proof -
      have "distinct (do_map n)" using o by (auto simp: owned_def keys_unique_def)
      with that have e: "e \<in> set (do_map n)" "e \<noteq> d" by auto
      have "e < brk h1" using owned_dob_below(1)[OF h1(5) n1(1) h1(6)] n1(2) e(1) by simp
      with h'(5) e(2) have "dobs h' e = dobs h1 e" by (simp add: file_change_def)
      with da[OF e(1)] show ?thesis by simp
    qed
    ultimately show ?thesis using h' h1(9,10) n1(2) True by (auto dest: in_set_remove1[THEN iffD1, rotated] notin_set_remove1)
  qed
qed

end
