(* ===== verification/Layout_Frames.thy ===== *)
theory Layout_Frames
  imports Refs
begin

text \<open>
  What the operations on a layout leave alone, stated once for every view of the store that does not look
  at the extents, the data objects, the requests to the data object servers, and the three fields of an
  inode that belong to the layout. The locks and the table are such a view, and so is the memory.
\<close>

named_theorems same \<open>a view of the store after an operation\<close>

locale layout_view =
  fixes obs :: "store \<Rightarrow> 'v"
  assumes obs_mod_ext [simp]: "obs (mod_ext p f h) = obs h"
    and obs_mod_dob [simp]: "obs (mod_dob p f' h) = obs h"
    and obs_mod_ino [simp]: "(\<And>n. inode_rest (g n) = inode_rest n) \<Longrightarrow> obs (mod_ino p g h) = obs h"
    and obs_free [simp]: "obs (free_ext p h) = obs h" "obs (free_dob p h) = obs h"
    and obs_log [simp]: "obs (h\<lparr>dos_log := l\<rparr>) = obs h"
begin

lemma obs_fields [simp]: "obs (mod_ino i (\<lambda>n. n\<lparr>flayout := v n\<rparr>) h) = obs h" "obs (mod_ino i (\<lambda>n. n\<lparr>num_exts := c n\<rparr>) h) = obs h"
  "obs (mod_ino i (\<lambda>n. n\<lparr>do_map := m n\<rparr>) h) = obs h"
  by (rule obs_mod_ino; simp add: inode_rest_def)+

lemma obs_dos [same]: "dos_call d bs h = (r, h') \<Longrightarrow> obs h' = obs h"
  by (auto simp: dos_call_def split: option.splits)

lemma obs_write_slot [same]: "write_slot s x h = Some h' \<Longrightarrow> obs h' = obs h"
  by (cases s) auto

lemma obs_set_up [same]: "set_up c p s h = Some h' \<Longrightarrow> obs h' = obs h"
  by (auto simp: set_up_def split: if_splits)

lemma obs_rotate_to [same]: "rotate_to e r h = Some h' \<Longrightarrow> obs h' = obs h"
  by (cases r) (auto simp: rotate_to_def mon dest!: same)

lemma obs_rebalance_step [same]: "rebalance_step e h = Some (x, h') \<Longrightarrow> obs h' = obs h"
  by (auto simp: rebalance_step_def mon Let_def split: if_splits dest!: same)

lemma obs_rebalance [same]: "rebalance e h = Some h' \<Longrightarrow> obs h' = obs h"
  by (erule rebalance.raw_induct[where P = "\<lambda>e h h'. obs h' = obs h", rotated])
    (auto simp: mon split: if_splits dest!: same)

lemma obs_unref_extent [same]: "unref_extent a h = Some (d, h') \<Longrightarrow> obs h' = obs h"
  by (auto simp: unref_extent_def mon Let_def split: if_splits)

lemma obs_insert_extent_list [same]: "insert_extent_list p t n h = Some h' \<Longrightarrow> obs h' = obs h"
  by (auto simp: insert_extent_list_def mon split: if_splits)

lemma obs_unlink_list [same]: "unlink_list a h = Some h' \<Longrightarrow> obs h' = obs h"
  by (auto simp: unlink_list_def mon split: if_splits)

lemma obs_unlink_tree [same]: "unlink_tree a h = Some (x, h') \<Longrightarrow> obs h' = obs h"
  by (auto simp: unlink_tree_def mon Let_def split: if_splits dest!: same)

lemma obs_unlink_extent [same]: "unlink_extent a h = Some h' \<Longrightarrow> obs h' = obs h"
  by (auto simp: unlink_extent_def mon dest!: same)

lemma obs_remove_extent0 [same]: "remove_extent0 a h = Some h' \<Longrightarrow> obs h' = obs h"
  by (auto simp: remove_extent0_def mon dest!: same)

lemma obs_drop_refs [same]: "drop_refs d h = Some h' \<Longrightarrow> obs h' = obs h"
  by (erule drop_refs.raw_induct[where P = "\<lambda>d h h'. obs h' = obs h", rotated])
    (auto simp: mon split: if_splits dest!: same)

lemma obs_remove_dobject [same]: "remove_dobject d u h = Some (r, h') \<Longrightarrow> obs h' = obs h"
  by (auto simp: remove_dobject_def mon split: if_splits option.splits prod.splits dest!: same)

lemma obs_release_extent [same]: "release_extent a t h = Some h' \<Longrightarrow> obs h' = obs h"
  by (auto simp: release_extent_def mon split: if_splits dest!: same)

lemma obs_remove_extent [same]: "remove_extent a t h = Some h' \<Longrightarrow> obs h' = obs h"
  by (auto simp: remove_extent_def mon dest!: same)

lemma obs_replace_extent [same]: "replace_extent a b h = Some h' \<Longrightarrow> obs h' = obs h"
  by (auto simp: replace_extent_def mon split: if_splits dest!: same)

lemma obs_merge_first [same]: "merge_first t a b h = Some (x, y, h') \<Longrightarrow> obs h' = obs h"
  by (auto simp: merge_first_def mon Let_def split: if_splits dest!: same)

lemma obs_overwrite [same]:
  assumes "overwrite dh a t s e h = Some (x, y, z, h')" shows "obs h' = obs h"
proof -
  have "case r of (x, y, z, h') \<Rightarrow> obs h' = obs h" if "overwrite dh a t s e h = Some r" for r
    using that
    by (rule overwrite.raw_induct[where
        P = "\<lambda>dh a t s e h r. case r of (x, y, z, h') \<Rightarrow> obs h' = obs h", rotated])
      (auto simp: mon Let_def split: if_splits dest!: same)
  from this[OF assms] show ?thesis by simp
qed

lemma obs_insert_right [same]: "insert_right t a h = Some h' \<Longrightarrow> obs h' = obs h"
  by (auto simp: insert_right_def mon split: if_splits dest!: same)

lemma obs_insert_left [same]: "insert_left t a h = Some h' \<Longrightarrow> obs h' = obs h"
  by (auto simp: insert_left_def mon split: if_splits dest!: same)

lemma obs_insert_rest [same]: "insert_rest a r l h = Some h' \<Longrightarrow> obs h' = obs h"
  by (erule insert_rest.raw_induct[where P = "\<lambda>a r l h h'. obs h' = obs h", rotated])
    (auto simp: mon split: if_splits dest!: same)

lemma obs_merge_last [same]: "merge_last t h = Some h' \<Longrightarrow> obs h' = obs h"
  by (auto simp: merge_last_def mon split: if_splits dest!: same)

lemma obs_replace_root [same]: "replace_root i a s h = Some (x, y, h') \<Longrightarrow> obs h' = obs h"
  by (auto simp: replace_root_def mon)

end

end
