(* ===== verification/Frames.thy ===== *)
theory Frames
  imports Inode_Server Layout_Frames
begin

text \<open>
  What the operations on a layout leave alone: the locks and the numbers of all inodes, the table of
  inodes and its lock. A handler therefore holds the same locks after the operation as before it.
\<close>

definition quiet :: "store \<Rightarrow> (addr \<Rightarrow> (ino_t \<times> ino_t \<times> lock \<times> lock) option) \<times> addr list \<times> lock \<times> nat \<times> bool \<times> bool"
where
  "quiet h = (\<lambda>i. map_option (\<lambda>n. (ino n, base_ino n, alive n, rwlock n)) (inos h i),
     inode_map h, imlock h, self h, with_ms h, nodp h)"

named_theorems frames \<open>the quiet part of the store after an operation\<close>

lemma quiet_mod_ext [simp]: "quiet (mod_ext p f h) = quiet h"
  by (simp add: quiet_def)

lemma quiet_mod_dob [simp]: "quiet (mod_dob p f h) = quiet h"
  by (simp add: quiet_def)

lemma quiet_mod_ino [simp]:
  "(\<And>n. ino (f n) = ino n \<and> base_ino (f n) = base_ino n \<and> alive (f n) = alive n \<and> rwlock (f n) = rwlock n) \<Longrightarrow>
     quiet (mod_ino p f h) = quiet h"
  by (auto simp: quiet_def option.map_comp comp_def fun_eq_iff)

lemma quiet_fields [simp]:
  "quiet (h\<lparr>exts := x\<rparr>) = quiet h" "quiet (h\<lparr>dobs := d\<rparr>) = quiet h" "quiet (h\<lparr>rx := r\<rparr>) = quiet h"
  "quiet (h\<lparr>tx := r\<rparr>) = quiet h" "quiet (h\<lparr>brk := a, avail := k\<rparr>) = quiet h"
  "quiet (h\<lparr>dos_log := l\<rparr>) = quiet h" "quiet (h\<lparr>ms_map := m\<rparr>) = quiet h"
  by (simp_all add: quiet_def)

lemma quiet_free [simp]: "quiet (free_ext p h) = quiet h" "quiet (free_dob p h) = quiet h"
  "quiet (wr bs h) = quiet h"
  by (simp_all add: free_ext_def free_dob_def wr_def)

lemma quiet_calloc [frames]: "calloc h = (p, h') \<Longrightarrow> quiet h' = quiet h"
  by (auto simp: calloc_def split: if_splits)

lemma quiet_rd [frames]:
  "rd_u8 h = Some (a, h') \<Longrightarrow> quiet h' = quiet h" "rd_u32 h = Some (b, h') \<Longrightarrow> quiet h' = quiet h"
  "rd_u64 h = Some (c, h') \<Longrightarrow> quiet h' = quiet h"
  by (auto simp: rd_u8_def rd_u32_def rd_u64_def rd_bytes_def mon)

lemma quiet_dos [frames]: "dos_call d bs h = (r, h') \<Longrightarrow> quiet h' = quiet h"
  by (auto simp: dos_call_def split: option.splits)

lemma rest_eq: "inode_rest m = inode_rest n \<Longrightarrow>
    ino m = ino n \<and> base_ino m = base_ino n \<and> alive m = alive n \<and> rwlock m = rwlock n"
  by (cases m; cases n) (simp add: inode_rest_def)

interpretation quiet: layout_view quiet
proof unfold_locales
  fix p g h assume "\<And>n. inode_rest (g n) = inode_rest n"
  then show "quiet (mod_ino p g h) = quiet h" by (intro quiet_mod_ino) (rule rest_eq)
qed simp_all

lemmas layout_frames [frames] = quiet.obs_write_slot quiet.obs_set_up quiet.obs_rotate_to quiet.obs_rebalance_step
  quiet.obs_rebalance quiet.obs_unref_extent quiet.obs_insert_extent_list quiet.obs_unlink_list
  quiet.obs_unlink_tree quiet.obs_unlink_extent quiet.obs_remove_extent0 quiet.obs_drop_refs
  quiet.obs_remove_dobject quiet.obs_release_extent quiet.obs_remove_extent quiet.obs_replace_extent
  quiet.obs_merge_first quiet.obs_overwrite quiet.obs_insert_right quiet.obs_insert_left
  quiet.obs_insert_rest quiet.obs_merge_last quiet.obs_replace_root

lemma quiet_create_extent [frames]: "create_extent d f od l h = Some (p, h') \<Longrightarrow> quiet h' = quiet h"
  by (auto simp: create_extent_def mon Let_def split: if_splits prod.splits dest!: frames)

lemma quiet_acquire_dobject [frames]: "acquire_dobject hid l i k h = Some (d, h') \<Longrightarrow> quiet h' = quiet h"
  by (auto simp: acquire_dobject_def mon Let_def split: if_splits prod.splits option.splits dest!: frames)

lemma quiet_split_head [frames]:
  "split_head dh a s e h = Some (x, y, z, h') \<Longrightarrow> quiet h' = quiet h"
  by (auto simp: split_head_def mon Let_def split: if_splits dest!: frames)

text \<open>For inductions: the equation as a predicate, which the simplifier does not use as a rule.\<close>

definition calm :: "store \<Rightarrow> store \<Rightarrow> bool" where
  "calm h h' \<longleftrightarrow> quiet h' = quiet h"

lemma calm_trans: "quiet k = quiet h \<Longrightarrow> calm k h' \<Longrightarrow> calm h h'"
  by (simp add: calm_def)

lemma calm_refl [simp]: "calm h h"
  by (simp add: calm_def)

lemma calm_split_head: "split_head dh a s e h = Some (x, y, z, h') \<Longrightarrow> calm h h'"
  by (simp add: calm_def quiet_split_head)

lemma quiet_find_first [frames]:
  assumes "find_first dh a s e h = Some (x, y, z, h')" shows "quiet h' = quiet h"
proof -
  have "calm h (snd (snd (snd r)))" if "find_first dh a s e h = Some r" for r
    using that
    by (rule find_first.raw_induct[where P = "\<lambda>dh a s e h r. calm h (snd (snd (snd r)))", rotated])
      (auto simp: mon Let_def split: if_splits dest: calm_split_head)
  from this[OF assms] show ?thesis by (simp add: calm_def)
qed

lemma quiet_replace [frames]: "replace i a t s e h = Some h' \<Longrightarrow> quiet h' = quiet h"
  by (auto simp: replace_def mon split: if_splits dest!: frames)

lemma quiet_pado_write [frames]: "pado_write d f od l h = Some (r, h') \<Longrightarrow> quiet h' = quiet h"
  by (auto simp: pado_write_def mon Let_def touch_def split: if_splits dest!: frames)

lemma quiet_pado_truncate [frames]: "pado_truncate i s h = Some (r, h') \<Longrightarrow> quiet h' = quiet h"
  by (auto simp: pado_truncate_def mon Let_def touch_def split: if_splits dest!: frames)

lemma quiet_clone_list [frames]:
  assumes "clone_list i s e a t h = Some (x, y, h')" shows "quiet h' = quiet h"
proof -
  have "calm h (snd (snd r))" if "clone_list i s e a t h = Some r" for r
    using that
    apply (rule clone_list.raw_induct[where P = "\<lambda>i s e a t h r. calm h (snd (snd r))", rotated])
    apply (clarsimp simp: mon Let_def)
    apply (drule frames)+
    apply (clarsimp simp: mon split: if_splits)
     apply (simp add: calm_def)
    apply (drule quiet_rd)+
    apply (auto simp: mon Let_def split: if_splits dest!: quiet_acquire_dobject quiet_create_extent)
    apply (rule calm_trans[rotated], blast, simp)+
    done
  from this[OF assms] show ?thesis by (simp add: calm_def)
qed

lemma quiet_pado_clone [frames]: "pado_clone i s e h = Some (r, h') \<Longrightarrow> quiet h' = quiet h"
  by (auto simp: pado_clone_def mon touch_def dest!: frames)

lemma quiet_pado_read [frames]: "pado_read i fl s e h = Some (r, h') \<Longrightarrow> quiet h' = quiet h"
  by (auto simp: pado_read_def mon Let_def split: if_splits)

lemma quiet_getinode_meta [frames]: "pado_getinode_meta i h = Some (r, h') \<Longrightarrow> quiet h' = quiet h"
  by (auto simp: pado_getinode_meta_def mon split: if_splits)

lemma quiet_getinode_all [frames]: "pado_getinode_all i h = Some (r, h') \<Longrightarrow> quiet h' = quiet h"
  by (auto simp: pado_getinode_all_def mon split: if_splits dest!: frames)

lemma quiet_get_inode_dobj [frames]: "get_inode_dobj i h = Some (r, h') \<Longrightarrow> quiet h' = quiet h"
  by (auto simp: get_inode_dobj_def mon)

lemma quiet_ms_delete [frames]: "ms_delete b h = Some h' \<Longrightarrow> quiet h' = quiet h"
  by (auto simp: ms_delete_def mon split: if_splits)

lemma quiet_flags [simp]:
  "quiet (mod_ino p set_deleted h) = quiet h" "quiet (mod_ino p set_shared h) = quiet h"
  "quiet (mod_ino p unset_shared h) = quiet h" "quiet (mod_ino p set_dlocked h) = quiet h"
  "quiet (mod_ino p unset_dlocked h) = quiet h"
  by (rule quiet_mod_ino; simp add: set_deleted_def set_shared_def unset_shared_def set_dlocked_def
      unset_dlocked_def)+

lemma quiet_release_inode [frames]: "release_inode i h = Some (b, h') \<Longrightarrow> quiet h' = quiet h"
  by (auto simp: release_inode_def mon split: if_splits dest!: frames)

lemma quiet_remove_all [frames]: "remove_all_dobjects ds h = Some h' \<Longrightarrow> quiet h' = quiet h"
  by (induction ds arbitrary: h) (auto simp: mon dest!: frames)

lemma quiet_delete_inode [frames]: "delete_inode i h = Some (b, h') \<Longrightarrow> quiet h' = quiet h"
  by (auto simp: delete_inode_def mon split: if_splits prod.splits option.splits dest!: frames)

section \<open>Handlers\<close>

text \<open>Locking an inode, and unlocking it, around an operation that leaves the locks alone.\<close>

definition lock_of :: "addr \<Rightarrow> store \<Rightarrow> lock option" where
  "lock_of i h = map_option rwlock (inos h i)"

lemma lock_of_quiet: "quiet k = quiet h \<Longrightarrow> lock_of i k = lock_of i h"
proof -
  assume "quiet k = quiet h"
  then have "map_option (\<lambda>n. (ino n, base_ino n, alive n, rwlock n)) (inos k i) =
      map_option (\<lambda>n. (ino n, base_ino n, alive n, rwlock n)) (inos h i)"
    by (simp add: quiet_def fun_eq_iff)
  then show ?thesis unfolding lock_of_def by (cases "inos k i"; cases "inos h i") auto
qed

lemma on_rwlock_Some:
  "on_rwlock f i h = Some k \<longleftrightarrow>
     (\<exists>n l. inos h i = Some n \<and> f (rwlock n) = Some l \<and> k = mod_ino i (rwlock_update (\<lambda>_. l)) h)"
  by (auto simp: on_rwlock_def mon)

lemma quiet_iff:
  "quiet k = quiet h \<longleftrightarrow>
     (\<forall>i. map_option (\<lambda>n. (ino n, base_ino n, alive n, rwlock n)) (inos k i) =
       map_option (\<lambda>n. (ino n, base_ino n, alive n, rwlock n)) (inos h i)) \<and>
     inode_map k = inode_map h \<and> imlock k = imlock h \<and> self k = self h \<and> with_ms k = with_ms h \<and>
     nodp k = nodp h"
  by (auto simp: quiet_def fun_eq_iff)

lemma quiet_set_rwlock:
  assumes q: "quiet k = quiet (mod_ino i (rwlock_update (\<lambda>_. l)) h)" and n: "inos h i = Some n"
  shows "quiet (mod_ino i (rwlock_update (\<lambda>_. rwlock n)) k) = quiet h"
    "\<exists>m. inos k i = Some m \<and> rwlock m = l"
proof -
  let ?q = "\<lambda>n. (ino n, base_ino n, alive n, rwlock n)"
  from q have Q: "map_option ?q (inos k j) =
      map_option ?q (inos (mod_ino i (rwlock_update (\<lambda>_. l)) h) j)" for j
    unfolding quiet_iff by blast
  from Q[of i] n obtain m where m: "inos k i = Some m" "?q m = ?q (n\<lparr>rwlock := l\<rparr>)" by auto
  then show "\<exists>m. inos k i = Some m \<and> rwlock m = l" by simp
  have "map_option ?q (inos (mod_ino i (rwlock_update (\<lambda>_. rwlock n)) k) j) = map_option ?q (inos h j)" for j
  proof (cases "j = i")
    case True
    with m n show ?thesis by simp
  next
    case False
    with Q[of j] show ?thesis by simp
  qed
  with q show "quiet (mod_ino i (rwlock_update (\<lambda>_. rwlock n)) k) = quiet h"
    unfolding quiet_iff by simp
qed

lemma with_wrlock_quiet:
  assumes "with_wrlock i f h = Some (r, fr, h')" "inos h i = Some n" "rwlock n = LkFree"
    and "\<And>m k r fr k'. f m k = Some (r, fr, k') \<Longrightarrow> quiet k' = quiet k"
  shows "quiet h' = quiet h"
proof -
  let ?h = "mod_ino i (rwlock_update (\<lambda>_. LkWr (self h))) h"
  from assms(1-3) obtain m k l where k: "f m ?h = Some (r, fr, k)"
    "h' = mod_ino i (rwlock_update (\<lambda>_. l)) k" "\<exists>n'. inos k i = Some n' \<and> lk_un (rwlock n') = Some l"
    by (auto simp: with_wrlock_def on_rwlock_Some mon)
  from quiet_set_rwlock[OF assms(4)[OF k(1)] assms(2)] k(2,3) assms(3) show ?thesis by auto
qed

lemma with_rdlock_quiet:
  assumes "with_rdlock i f h = Some (r, fr, h')" "inos h i = Some n" "rwlock n = LkFree"
    and "\<And>m k r fr k'. f m k = Some (r, fr, k') \<Longrightarrow> quiet k' = quiet k"
  shows "quiet h' = quiet h"
proof -
  let ?h = "mod_ino i (rwlock_update (\<lambda>_. LkRd 1)) h"
  from assms(1-3) obtain m k l where k: "f m ?h = Some (r, fr, k)"
    "h' = mod_ino i (rwlock_update (\<lambda>_. l)) k" "\<exists>n'. inos k i = Some n' \<and> lk_un (rwlock n') = Some l"
    by (auto simp: with_rdlock_def on_rwlock_Some mon)
  from quiet_set_rwlock[OF assms(4)[OF k(1)] assms(2)] k(2,3) assms(3) show ?thesis by auto
qed

definition free_lock :: "addr \<Rightarrow> store \<Rightarrow> bool" where
  "free_lock i h \<longleftrightarrow> i = NULL \<or> lock_of i h = Some LkFree"

lemma free_lock_quiet: "quiet k = quiet h \<Longrightarrow> free_lock i k = free_lock i h"
  unfolding free_lock_def using lock_of_quiet[of k h i] by simp

lemma wr_quiet:
  assumes "with_wrlock i f k = Some (r, fr, h')" "free_lock i h" "i \<noteq> NULL" "quiet k = quiet h"
    and "\<And>m k r fr k'. f m k = Some (r, fr, k') \<Longrightarrow> quiet k' = quiet k"
  shows "quiet h' = quiet h"
proof -
  from assms(2,3) lock_of_quiet[OF assms(4), of i] have "lock_of i k = Some LkFree"
    by (simp add: free_lock_def)
  then obtain n where "inos k i = Some n" "rwlock n = LkFree" by (auto simp: lock_of_def)
  from with_wrlock_quiet[OF assms(1) this assms(5)] assms(4) show ?thesis by simp
qed

lemma rd_quiet:
  assumes "with_rdlock i f k = Some (r, fr, h')" "free_lock i h" "i \<noteq> NULL" "quiet k = quiet h"
    and "\<And>m k r fr k'. f m k = Some (r, fr, k') \<Longrightarrow> quiet k' = quiet k"
  shows "quiet h' = quiet h"
proof -
  from assms(2,3) lock_of_quiet[OF assms(4), of i] have "lock_of i k = Some LkFree"
    by (simp add: free_lock_def)
  then obtain n where "inos k i = Some n" "rwlock n = LkFree" by (auto simp: lock_of_def)
  from with_rdlock_quiet[OF assms(1) this assms(5)] assms(4) show ?thesis by simp
qed

lemmas handler = mon Let_def no_inode_def unless_deleted_def

lemma quiet_cmd_write: "cmd_write i h = Some (r, fr, h') \<Longrightarrow> free_lock i h \<Longrightarrow> quiet h' = quiet h"
  by (cases "i = NULL"; auto simp: cmd_write_def handler split: if_splits dest!: quiet_rd elim!: wr_quiet)
    (auto simp: handler split: if_splits dest!: frames)

lemma quiet_cmd_truncate: "cmd_truncate i h = Some (r, fr, h') \<Longrightarrow> free_lock i h \<Longrightarrow> quiet h' = quiet h"
  by (cases "i = NULL"; auto simp: cmd_truncate_def handler split: if_splits dest!: quiet_rd elim!: wr_quiet)
    (auto simp: handler split: if_splits dest!: frames)

lemma quiet_cmd_clone_to: "cmd_clone_to i h = Some (r, fr, h') \<Longrightarrow> free_lock i h \<Longrightarrow> quiet h' = quiet h"
  by (cases "i = NULL"; auto simp: cmd_clone_to_def handler split: if_splits dest!: quiet_rd elim!: wr_quiet)
    (auto simp: handler split: if_splits dest!: frames)

lemma quiet_cmd_release_drain_lock:
  "cmd_release_drain_lock i h = Some (r, fr, h') \<Longrightarrow> free_lock i h \<Longrightarrow> quiet h' = quiet h"
  by (cases "i = NULL"; auto simp: cmd_release_drain_lock_def handler split: if_splits elim!: wr_quiet)

lemma quiet_cmd_remove_dobj: "cmd_remove_dobj i h = Some (r, fr, h') \<Longrightarrow> free_lock i h \<Longrightarrow> quiet h' = quiet h"
  by (cases "i = NULL"; auto simp: cmd_remove_dobj_def handler split: if_splits dest!: quiet_rd elim!: wr_quiet)
    (auto simp: handler split: if_splits dest!: frames)

lemma quiet_cmd_get_inode_dobj:
  "cmd_get_inode_dobj i h = Some (r, fr, h') \<Longrightarrow> free_lock i h \<Longrightarrow> quiet h' = quiet h"
  by (cases "i = NULL"; auto simp: cmd_get_inode_dobj_def handler split: if_splits elim!: rd_quiet)
    (auto simp: handler split: if_splits dest!: frames)

lemma quiet_cmd_delete_inode: "cmd_delete_inode i h = Some (r, fr, h') \<Longrightarrow> free_lock i h \<Longrightarrow> quiet h' = quiet h"
  by (cases "i = NULL"; auto simp: cmd_delete_inode_def handler split: if_splits elim!: wr_quiet)
    (auto simp: handler split: if_splits dest!: frames)

lemma quiet_cmd_unref: "cmd_unref i h = Some (r, fr, h') \<Longrightarrow> free_lock i h \<Longrightarrow> quiet h' = quiet h"
  by (cases "i = NULL"; auto simp: cmd_unref_def handler split: if_splits elim!: wr_quiet)
    (auto simp: handler split: if_splits dest!: frames)

lemma quiet_cmd_read_layout: "cmd_read_layout i h = Some (r, fr, h') \<Longrightarrow> free_lock i h \<Longrightarrow> quiet h' = quiet h"
proof (cases "i = NULL")
  case True
  assume "cmd_read_layout i h = Some (r, fr, h')"
  with True show ?thesis by (auto simp: cmd_read_layout_def handler dest!: quiet_rd)
next
  case False
  assume c: "cmd_read_layout i h = Some (r, fr, h')" and fl: "free_lock i h"
  from c False obtain f l b k r1 fr1 k1 where k: "quiet k = quiet h"
    "with_rdlock i (unless_deleted (\<lambda>h. do {
          (ret, h) \<leftarrow> pado_read i (b \<noteq> (0 :: u8)) f (f + l) h; Some (ret, False, h) })) k = Some (r1, fr1, k1)"
    "(if r1 = err BASE_CLONED then
           with_wrlock i (\<lambda>n h. do { h \<leftarrow> upd_ino i set_shared h; Some (ret_code SUCCESS, False, h) }) k1
         else Some (r1, fr1, k1)) = Some (r, fr, h')"
    by (auto simp: cmd_read_layout_def mon dest!: quiet_rd)
  have k1: "quiet k1 = quiet h"
    by (rule rd_quiet[OF k(2) fl False k(1)]) (auto simp: handler split: if_splits dest!: frames)
  show ?thesis
  proof (cases "r1 = err BASE_CLONED")
    case True
    with k(3) have "with_wrlock i (\<lambda>n h. do { h \<leftarrow> upd_ino i set_shared h; Some (ret_code SUCCESS, False, h) }) k1 =
      Some (r, fr, h')" by simp
    then show ?thesis by (rule wr_quiet[OF _ fl False k1]) (auto simp: mon)
  qed (use k(3) k1 in simp)
qed

lemma quiet_cmd_read_meta: "cmd_read_meta i h = Some (r, fr, h') \<Longrightarrow> free_lock i h \<Longrightarrow> quiet h' = quiet h"
  by (cases "i = NULL"; auto simp: cmd_read_meta_def handler split: if_splits dest!: quiet_rd
      elim!: wr_quiet rd_quiet dest: quiet_getinode_meta)
    (auto simp: handler split: if_splits dest!: frames)

lemma quiet_read_whole_body:
  "read_whole_body i b v n h = Some (r, fr, h') \<Longrightarrow> quiet h' = quiet h"
  by (auto simp: read_whole_body_def mon split: if_splits dest!: frames)

lemma quiet_read_dobj_body: "read_dobj_body i hid l n h = Some (r, fr, h') \<Longrightarrow> quiet h' = quiet h"
  by (auto simp: read_dobj_body_def mon Let_def split: if_splits dest!: quiet_acquire_dobject)

lemma quiet_rd_opt:
  "(if b then rd_u64 h else Some (0, h)) = Some (x, k) \<Longrightarrow> quiet k = quiet h"
  by (auto split: if_splits dest: quiet_rd)

lemma quiet_cmd_read_dobj:
  assumes c: "cmd_read_dobj i h = Some (r, fr, h')" and fl: "free_lock i h"
  shows "quiet h' = quiet h"
proof -
  from c obtain hid l bino k1 k2 k z where k: "rd_u32 h = Some (hid, k1)" "rd_u64 k1 = Some (l, k2)"
    "(if with_ms k2 then rd_u64 k2 else Some (0, k2)) = Some (bino, k)"
    "(if i = NULL then no_inode (wr z k)
      else do { n \<leftarrow> inos k i;
        (if with_ms k \<and> base_ino n \<noteq> bino then Some (err CHANGED_MAPPING, False, wr z k)
         else with_wrlock i (read_dobj_body i hid l) k) }) = Some (r, fr, h')"
    unfolding cmd_read_dobj_def by (auto simp only: mon Let_def prod.case)
  from quiet_rd_opt[OF k(3)] k(1,2) have "quiet k = quiet h" by (auto dest!: quiet_rd)
  with k(4) show ?thesis
    by (cases "i = NULL"; auto simp: no_inode_def mon split: if_splits
        elim!: wr_quiet[OF _ fl] quiet_read_dobj_body)
qed

section \<open>Requests\<close>

text \<open>The locks while a request is served: the table is free, the inode in hand is held by one
  reader of \<^verbatim>\<open>alive\<close>, and nothing else is held.\<close>

definition busy_on :: "addr \<Rightarrow> store \<Rightarrow> bool" where
  "busy_on i h \<longleftrightarrow> imlock h = LkFree \<and> (i \<noteq> NULL \<longrightarrow> inos h i \<noteq> None) \<and>
     (\<forall>j n. inos h j = Some n \<longrightarrow>
       rwlock n = LkFree \<and> alive n = (if j = i \<and> i \<noteq> NULL then LkRd 1 else LkFree))"

definition idle :: "store \<Rightarrow> bool" where
  "idle h \<longleftrightarrow> busy_on NULL h"

lemma busy_on_quiet:
  assumes "quiet k = quiet h" "busy_on i h"
  shows "busy_on i k"
proof -
  from assms(1) have q: "map_option (\<lambda>n. (ino n, base_ino n, alive n, rwlock n)) (inos k j) =
      map_option (\<lambda>n. (ino n, base_ino n, alive n, rwlock n)) (inos h j)" for j
    unfolding quiet_iff by blast
  have "rwlock n = LkFree \<and> alive n = (if j = i \<and> i \<noteq> NULL then LkRd 1 else LkFree)"
    if "inos k j = Some n" for j n
  proof -
    from q[of j] that obtain m where "inos h j = Some m" "alive n = alive m" "rwlock n = rwlock m"
      by (cases "inos h j") auto
    with assms(2) show ?thesis by (auto simp: busy_on_def)
  qed
  moreover have "inos k i \<noteq> None \<longleftrightarrow> inos h i \<noteq> None"
    using q[of i] by (cases "inos h i"; cases "inos k i") auto
  moreover have "imlock k = imlock h" using assms(1) unfolding quiet_iff by blast
  ultimately show ?thesis using assms(2) unfolding busy_on_def by auto
qed

lemma busy_on_free_lock: "busy_on i h \<Longrightarrow> free_lock i h"
  by (auto simp: busy_on_def free_lock_def lock_of_def)

lemma on_alive_Some:
  "on_alive f i h = Some k \<longleftrightarrow>
     (\<exists>n l. inos h i = Some n \<and> f (alive n) = Some l \<and> k = mod_ino i (alive_update (\<lambda>_. l)) h)"
  by (auto simp: on_alive_def mon)

lemma on_imlock_Some: "on_imlock f h = Some k \<longleftrightarrow> (\<exists>l. f (imlock h) = Some l \<and> k = h\<lparr>imlock := l\<rparr>)"
  by (auto simp: on_imlock_def mon)

lemmas lock_Some = on_alive_Some on_imlock_Some on_rwlock_Some

lemma alive_hold: "idle h \<Longrightarrow> i \<noteq> NULL \<Longrightarrow> inos h i = Some n \<Longrightarrow>
    busy_on i (mod_ino i (alive_update (\<lambda>_. LkRd 1)) h)"
  by (auto simp: idle_def busy_on_def)

lemma acquire_inode_busy:
  assumes "acquire_inode k h = Some (i, h')" "idle h"
  shows "busy_on i h'"
proof (cases "i = NULL")
  case True
  with assms show ?thesis
    by (auto simp: acquire_inode_def idle_def busy_on_def lock_Some mon Let_def split: if_splits)
next
  case False
  with assms obtain n where "inos h i = Some n" "h' = mod_ino i (alive_update (\<lambda>_. LkRd 1)) h"
    by (auto simp: acquire_inode_def idle_def busy_on_def lock_Some mon Let_def mod_ino_def split: if_splits)
  with alive_hold[OF assms(2) False] show ?thesis by simp
qed

lemma calloc_idle: "calloc h = (p, k) \<Longrightarrow> idle k = idle h \<and> inos k = inos h"
  by (auto simp: calloc_def idle_def busy_on_def split: if_splits)

lemma busy_new:
  assumes "idle h" "inos h' = (inos h)(p \<mapsto> n)" "p \<noteq> NULL" "alive n = LkRd 1" "rwlock n = LkFree"
    "imlock h' = LkFree"
  shows "busy_on p h'"
  using assms by (auto simp: idle_def busy_on_def)

lemma create_inode_busy:
  assumes c: "create_inode k s h = Some (i, r, h')" and I: "idle h"
  shows "busy_on i h'"
proof -
  have im: "imlock h = LkFree" "\<And>a n. inos h a = Some n \<Longrightarrow> alive n = LkFree"
    using I by (auto simp: idle_def busy_on_def)
  let ?a = "find_inode k (h\<lparr>imlock := LkWr (self h)\<rparr>)"
  consider (old) n where "?a \<noteq> NULL" "inos h ?a = Some n" "\<not> is_deleted n"
    | (fresh) "?a = NULL \<or> (\<exists>n. inos h ?a = Some n \<and> is_deleted n)" | (none) "?a \<noteq> NULL" "inos h ?a = None"
    by (cases "inos h ?a") auto
  then show ?thesis
  proof cases
    case old
    with c im have "i = ?a" "h' = mod_ino ?a (alive_update (\<lambda>_. LkRd 1)) h"
      by (auto simp: create_inode_def lock_Some mon Let_def mod_ino_def)
    with alive_hold[OF I old(1,2)] show ?thesis by simp
  next
    case fresh
    then have f: "(if ?a \<noteq> NULL then map_option is_deleted (inos h ?a) else Some False) =
        Some (?a \<noteq> NULL)" by auto
    show ?thesis
    proof (cases "i = NULL")
      case True
      with c im f have "h'\<lparr>imlock := LkFree\<rparr> = h' \<and> inos h' = inos h"
        by (auto simp: create_inode_def lock_Some mon Let_def map_del_def calloc_def split: if_splits)
      with True I show ?thesis by (cases h') (auto simp: idle_def busy_on_def)
    next
      case False
      with c im f have "inos h' = (inos h)(i \<mapsto> (new_inode k 0 s 0)\<lparr>alive := LkRd 1\<rparr>) \<and> imlock h' = LkFree"
        by (auto simp: create_inode_def lock_Some mon Let_def map_del_def calloc_def new_inode_def
            split: if_splits)
      with busy_new[OF I _ False] show ?thesis by (auto simp: new_inode_def)
    qed
  next
    case none
    with c im show ?thesis by (simp add: create_inode_def lock_Some mon Let_def)
  qed
qed

lemma create_inode_withms_busy:
  assumes c: "create_inode_withms k0 b s r0 h = Some (i, k, r, h')" and I: "idle h"
  shows "busy_on i h'"
proof -
  have im: "imlock h = LkFree" using I by (auto simp: idle_def busy_on_def)
  obtain p h0 where p: "calloc h = (p, h0)" by fastforce
  have h0: "idle h0" "inos h0 = inos h" "imlock h0 = LkFree"
    using calloc_idle[OF p] I p im by (auto simp: calloc_def split: if_splits)
  show ?thesis
  proof (cases "i = NULL")
    case True
    with c p h0 have "imlock h' = LkFree \<and> (inos h' = inos h \<or> inos h' = (inos h)(p := None))"
      by (auto simp: create_inode_withms_def lock_Some mon Let_def free_ino_def mod_ino_def
          split: if_splits)
    with True I show ?thesis by (auto simp: idle_def busy_on_def split: if_splits)
  next
    case False
    with c p h0 have "i = p" "imlock h' = LkFree"
      "inos h' = (inos h)(p \<mapsto> (new_inode (inodebase h0) b s 1)\<lparr>alive := LkRd 1\<rparr>)"
      by (auto simp: create_inode_withms_def lock_Some mon Let_def mod_ino_def new_inode_def
          split: if_splits)
    with busy_new[OF I _ False] show ?thesis by (auto simp: new_inode_def)
  qed
qed

lemma cmd_create_inode_busy:
  "cmd_create_inode t h = Some (i, r, h') \<Longrightarrow> idle h \<Longrightarrow> busy_on i h'"
  by (auto simp: cmd_create_inode_def mon idle_def dest!: quiet_rd
      intro!: busy_on_quiet[OF quiet_free(3)]
      elim!: create_inode_withms_busy[unfolded idle_def] intro: busy_on_quiet)

lemma rwlock_around:
  assumes "busy_on i h" "i \<noteq> NULL" "on_rwlock (lk_wr t) i h = Some h1" "upd_ino i f h1 = Some h2"
    "on_rwlock lk_un i h2 = Some h'"
    "\<And>n. ino (f n) = ino n \<and> base_ino (f n) = base_ino n \<and> alive (f n) = alive n \<and> rwlock (f n) = rwlock n"
  shows "busy_on i h'"
  using assms by (auto simp: on_rwlock_Some busy_on_def split: if_splits)

lemma cmd_create_open_inode_busy:
  assumes c: "cmd_create_open_inode t h = Some (i, r, h')" and I: "idle h"
  shows "busy_on i h'"
proof -
  from c obtain s fl k1 k2 k3 k4 where k: "rd_u64 h = Some (s, k1)" "rd_u8 k1 = Some (fl, k2)"
    "create_inode t s k2 = Some (i, r, k3)"
    "(if i \<noteq> NULL \<and> fl = 0 then do {
            (fl', h) \<leftarrow> rd_u8 k3; (at, h) \<leftarrow> rd_u64 h; (mt, h) \<leftarrow> rd_u64 h; (ver, h) \<leftarrow> rd_u64 h;
            upd_ino i (\<lambda>n. n\<lparr>flags := fl', atime := (atime n)\<lparr>tv_sec := at\<rparr>,
              mtime := (mtime n)\<lparr>tv_sec := mt\<rparr>, version := ver\<rparr>) h }
          else if i \<noteq> NULL \<and> fl > 0 then do {
            h \<leftarrow> on_rwlock (lk_wr (self k3)) i k3;
            h \<leftarrow> upd_ino i (\<lambda>n. n\<lparr>refcount := refcount n + 1\<rparr>) h;
            on_rwlock lk_un i h }
          else Some k3) = Some k4"
    "(if fl = 1 then do { (r, h) \<leftarrow> pado_getinode_meta i k4; Some h }
          else if fl > 1 then do { (r, h) \<leftarrow> pado_getinode_all i k4; Some h }
          else Some k4) = Some h'"
    unfolding cmd_create_open_inode_def by (auto simp only: mon prod.case)
  have "idle k2" using k(1,2) I busy_on_quiet[of k2 h NULL] by (auto simp: idle_def dest!: quiet_rd)
  then have b3: "busy_on i k3" using create_inode_busy[OF k(3)] by blast
  have "busy_on i k4"
  proof (cases "i \<noteq> NULL \<and> fl > 0")
    case True
    then have "fl \<noteq> 0" by auto
    with k(4) True have "do {
            h \<leftarrow> on_rwlock (lk_wr (self k3)) i k3;
            h \<leftarrow> upd_ino i (\<lambda>n. n\<lparr>refcount := refcount n + 1\<rparr>) h;
            on_rwlock lk_un i h } = Some k4" by simp
    then obtain h1 h2 where L: "on_rwlock (lk_wr (self k3)) i k3 = Some h1"
      "upd_ino i (\<lambda>n. n\<lparr>refcount := refcount n + 1\<rparr>) h1 = Some h2" "on_rwlock lk_un i h2 = Some k4"
      unfolding Option.bind_eq_Some_conv by blast
    from True show ?thesis by (intro rwlock_around[OF b3 _ L]) simp_all
  next
    case False
    with k(4) have "quiet k4 = quiet k3" by (auto simp: mon split: if_splits dest!: quiet_rd)
    then show ?thesis by (rule busy_on_quiet) (rule b3)
  qed
  moreover have "quiet h' = quiet k4" using k(5) by (auto simp: mon split: if_splits dest!: frames)
  ultimately show ?thesis using busy_on_quiet by blast
qed

lemma quiet_on_inode:
  assumes "on_inode f i h = Some (j, r, fr, h')" "free_lock i h"
    "\<And>r fr h'. f i h = Some (r, fr, h') \<Longrightarrow> free_lock i h \<Longrightarrow> quiet h' = quiet h"
  shows "j = i \<and> quiet h' = quiet h"
  using assms by (auto simp: on_inode_def mon)

lemmas quiet_handlers = quiet_cmd_write quiet_cmd_truncate quiet_cmd_clone_to quiet_cmd_release_drain_lock
  quiet_cmd_remove_dobj quiet_cmd_get_inode_dobj quiet_cmd_delete_inode quiet_cmd_unref
  quiet_cmd_read_layout quiet_cmd_read_meta quiet_cmd_read_dobj

lemma quiet_invalid: "invalid_command i h = Some (r, fr, h') \<Longrightarrow> free_lock i h \<Longrightarrow> quiet h' = quiet h"
  by (simp add: invalid_command_def)

lemma dispatch_quiet:
  assumes "dispatch c t i h = Some (j, r, fr, h')" "free_lock i h"
    "c \<noteq> Some READ_INODE_WHOLE" "c \<noteq> Some CREATE_INODE" "c \<noteq> Some CREATE_OPEN_INODE"
  shows "j = i \<and> quiet h' = quiet h"
proof (cases c)
  case None
  with assms quiet_on_inode[OF _ assms(2) quiet_invalid] show ?thesis by (simp add: dispatch_def)
next
  case (Some com)
  with assms(3-5) quiet_on_inode[OF _ assms(2) quiet_invalid] assms(1) show ?thesis
    by (cases com; simp add: dispatch_def) (erule quiet_on_inode[OF _ assms(2)]; erule quiet_handlers; assumption)+
qed

lemma dispatch_create:
  assumes "dispatch c t NULL h = Some (j, r, fr, h')" "idle h" "c = Some CREATE_INODE \<or> c = Some CREATE_OPEN_INODE"
  shows "busy_on j h' \<and> \<not> fr"
  using assms
  by (auto simp: dispatch_def mon on_inode_def invalid_command_def idle_def split: if_splits
      dest: cmd_create_inode_busy[unfolded idle_def] cmd_create_open_inode_busy[unfolded idle_def])

lemma alive_release: "busy_on i h \<Longrightarrow> i \<noteq> NULL \<Longrightarrow> on_alive lk_un i h = Some k \<Longrightarrow> idle k"
  by (auto simp: idle_def busy_on_def on_alive_Some split: if_splits)

lemma free_inode_idle:
  assumes f: "free_inode i h = Some h'" and I: "idle h"
  shows "idle h'"
proof -
  from I have im: "imlock h = LkFree" "\<And>j n. inos h j = Some n \<Longrightarrow> alive n = LkFree \<and> rwlock n = LkFree"
    by (auto simp: idle_def busy_on_def)
  from f im have "inos h' = (inos h)(i := None)" "imlock h' = LkFree"
    by (auto simp: free_inode_def lock_Some mon map_del_def free_ino_def mod_ino_def split: if_splits)
  with im show ?thesis by (auto simp: idle_def busy_on_def split: if_splits)
qed

lemma print_inode_quiet:
  assumes "print_inode i h = Some h'" "free_lock i h"
  shows "quiet h' = quiet h"
proof (cases "i = NULL")
  case False
  with assms(2) obtain n where n: "inos h i = Some n" "rwlock n = LkFree"
    by (auto simp: free_lock_def lock_of_def)
  with assms(1) False have "h' = mod_ino i (rwlock_update (\<lambda>_. LkFree)) (mod_ino i (rwlock_update (\<lambda>_. LkRd 1)) h)"
    by (auto simp: print_inode_def on_rwlock_Some mon split: if_splits)
  with quiet_set_rwlock(1)[OF refl n(1)] n(2) show ?thesis by simp
qed (use assms in \<open>simp add: print_inode_def\<close>)

text \<open>Every request but \<^verbatim>\<open>READ_INODE_WHOLE\<close> gives back all locks it has taken.\<close>

lemma process_idle:
  assumes p: "process com h = Some h'" and I: "idle h"
    and c: "com_of com \<noteq> Some READ_INODE_WHOLE"
  shows "idle h'"
proof -
  from p obtain t h1 i h2 j r fr h3 h4 k where s: "rd_u64 h = Some (t, h1)"
    "(if com_of com \<noteq> Some CREATE_INODE \<and> com_of com \<noteq> Some CREATE_OPEN_INODE
               then acquire_inode t h1 else Some (NULL, h1)) = Some (i, h2)"
    "dispatch (com_of com) t i h2 = Some (j, r, fr, h3)"
    "(if nodp h3 then Some h3 else do { ensure (\<bar>r\<bar> < 24); print_inode j h3 }) = Some h4"
    "(if j \<noteq> NULL then on_alive lk_un j (wr (int_bytes r) h4) else Some (wr (int_bytes r) h4)) = Some k"
    "(if j \<noteq> NULL \<and> fr then free_inode j k else Some k) = Some h'"
    unfolding process_def by (auto simp only: Option.bind_eq_Some_conv Let_def prod.case)
  have I1: "idle h1" using I busy_on_quiet[OF quiet_rd(3)[OF s(1)], of NULL] by (simp add: idle_def)
  have b3: "busy_on j h3"
  proof (cases "com_of com = Some CREATE_INODE \<or> com_of com = Some CREATE_OPEN_INODE")
    case True
    with s(2) have "i = NULL" "h2 = h1" by auto
    with dispatch_create[OF _ _ True, of t h2 j r fr h3] s(3) I1 show ?thesis by simp
  next
    case False
    with s(2) acquire_inode_busy[of t h1 i h2] I1 have b2: "busy_on i h2" by simp
    from dispatch_quiet[OF s(3) busy_on_free_lock[OF b2] c] False have "j = i" "quiet h3 = quiet h2"
      by auto
    with b2 busy_on_quiet show ?thesis by blast
  qed
  have "quiet h4 = quiet h3"
    using s(4) print_inode_quiet[OF _ busy_on_free_lock[OF b3]] by (auto simp: mon split: if_splits)
  then have "quiet (wr (int_bytes r) h4) = quiet h3" by simp
  then have "busy_on j (wr (int_bytes r) h4)" using b3 busy_on_quiet by blast
  with s(5) have "idle k" by (auto simp: idle_def split: if_splits intro: alive_release[unfolded idle_def])
  with s(6) show ?thesis by (auto split: if_splits intro: free_inode_idle)
qed

text \<open>That command, with the flag that counts a reference, keeps the inode locked for writing.\<close>

lemma read_whole_lock:
  assumes "cmd_read_whole i h = Some (r, fr, h')" "rd_u8 h = Some (1, k)" "i \<noteq> NULL"
    "lock_of i h = Some LkFree"
  shows "lock_of i h' = Some (LkWr (self h))"
proof -
  from assms(1-3) obtain v k1 h1 n r1 fr1 h2 where s: "rd_u64 k = Some (v, k1)"
    "on_rwlock (lk_wr (self k1)) i k1 = Some h1" "read_whole_body i True v n h1 = Some (r1, fr1, h2)"
    "on_rwlock (lk_wr (self h2)) i h2 = Some h'"
    by (auto simp: cmd_read_whole_def mon)
  have q: "quiet k1 = quiet h" using quiet_rd(1)[OF assms(2)] quiet_rd(3)[OF s(1)] by simp
  then have "self k1 = self h" unfolding quiet_iff by blast
  moreover have "lock_of i k1 = Some LkFree" using lock_of_quiet[OF q] assms(4) by simp
  ultimately have h1: "lock_of i h1 = Some (LkWr (self h))" "self h1 = self h"
    using s(2) by (auto simp: on_rwlock_Some lock_of_def)
  have "quiet h2 = quiet h1" by (rule quiet_read_whole_body[OF s(3)])
  with h1 have "lock_of i h2 = Some (LkWr (self h))" "self h2 = self h"
    using lock_of_quiet[of h2 h1 i] unfolding quiet_iff by auto
  with s(4) show ?thesis by (auto simp: on_rwlock_Some lock_of_def)
qed

end
