(* ===== verification/Inode_Table.thy ===== *)
theory Inode_Table
  imports Frames
begin

text \<open>
  The table of inodes as a map from numbers to inodes: what \<^verbatim>\<open>create_inode\<close>,
  \<^verbatim>\<open>acquire_inode\<close> and \<^verbatim>\<open>free_inode\<close> do to it; and the handlers that only look
  at the state of one inode.
\<close>

section \<open>The table\<close>

definition table_ok :: "store \<Rightarrow> bool" where
  "table_ok h \<longleftrightarrow> keys_unique (ino_key h) (inode_map h) \<and> NULL < brk h \<and>
     (\<forall>a \<in> set (inode_map h). NULL < a \<and> a < brk h \<and> inos h a \<noteq> None)"

lemma find_inode_Some:
  assumes "table_ok h" "find_inode k h = a" "a \<noteq> NULL"
  shows "a \<in> set (inode_map h)" "ino_key h a = Some k" "\<exists>n. inos h a = Some n \<and> ino n = k"
proof -
  from assms(2,3) have "hash_find (ino_key h) k (inode_map h) = Some a"
    by (auto simp: find_inode_def split: option.splits)
  from uth.find_Some[of "ino_key h" k "inode_map h" a, OF this]
  show "a \<in> set (inode_map h)" "ino_key h a = Some k" by simp_all
  then show "\<exists>n. inos h a = Some n \<and> ino n = k" by (auto simp: ino_key_def)
qed

lemma find_inode_NULL:
  assumes "table_ok h"
  shows "find_inode k h = NULL \<longleftrightarrow> (\<forall>a \<in> set (inode_map h). ino_key h a \<noteq> Some k)"
proof (cases "hash_find (ino_key h) k (inode_map h)")
  case None
  then show ?thesis using uth.find_None[of "ino_key h" k "inode_map h"] by (simp add: find_inode_def)
next
  case (Some a)
  from uth.find_Some[of "ino_key h" k "inode_map h" a, OF this]
  have "a \<in> set (inode_map h)" "ino_key h a = Some k" by simp_all
  moreover from this(1) assms have "a \<noteq> NULL" by (auto simp: table_ok_def)
  ultimately show ?thesis using Some by (auto simp: find_inode_def)
qed

lemma find_inode_eq:
  assumes "table_ok h" "a \<in> set (inode_map h)" "ino_key h a = Some k"
  shows "find_inode k h = a"
  using uth.find_unique[of "ino_key h" "inode_map h" a k] assms
  by (simp add: table_ok_def find_inode_def)

text \<open>Two tables with the same inodes under all numbers but \<open>k\<close>.\<close>

lemma find_inode_other:
  assumes "table_ok h" "table_ok h'"
    "\<And>a. ino_key h a \<noteq> Some k \<Longrightarrow> a \<in> set (inode_map h) \<Longrightarrow> a \<in> set (inode_map h') \<and> ino_key h' a = ino_key h a"
    "\<And>a. ino_key h' a \<noteq> Some k \<Longrightarrow> a \<in> set (inode_map h') \<Longrightarrow> a \<in> set (inode_map h) \<and> ino_key h' a = ino_key h a"
    "j \<noteq> k"
  shows "find_inode j h' = find_inode j h"
proof (cases "find_inode j h = NULL")
  case True
  then have "ino_key h' a \<noteq> Some j" if "a \<in> set (inode_map h')" for a
    using assms(4)[of a] assms(5) that find_inode_NULL[OF assms(1), of j] by auto
  then have "find_inode j h' = NULL" using find_inode_NULL[OF assms(2), of j] by blast
  with True show ?thesis by simp
next
  case False
  note F = find_inode_Some(1,2)[OF assms(1) refl False]
  then have "find_inode j h \<in> set (inode_map h')" "ino_key h' (find_inode j h) = Some j"
    using assms(3)[of "find_inode j h"] assms(5) by auto
  then show ?thesis by (rule find_inode_eq[OF assms(2)])
qed

section \<open>Creating and finding\<close>

lemma create_inode_old:
  assumes "imlock h = LkFree" "find_inode k h = a" "a \<noteq> NULL" "inos h a = Some n" "\<not> is_deleted n"
    "lk_rd (self h) (alive n) = Some l"
  shows "create_inode k s h = Some (a, err ALREADY_CREATED, mod_ino a (alive_update (\<lambda>_. l)) h)"
proof -
  have "find_inode k (h\<lparr>imlock := x\<rparr>) = a" for x
    using assms(2) by (simp add: find_inode_def ino_key_def[abs_def])
  moreover have "(mod_ino a f (h\<lparr>imlock := x\<rparr>))\<lparr>imlock := LkFree\<rparr> = mod_ino a f h" for f x
    using assms(1) by (cases h) (simp add: mod_ino_def)
  ultimately show ?thesis using assms
    by (simp add: create_inode_def on_imlock_def on_alive_def Let_def upd_ino_def)
qed

text \<open>The table without an inode that is marked as deleted.\<close>

definition cleared :: "ino_t \<Rightarrow> store \<Rightarrow> addr list option" where
  "cleared k h = (if find_inode k h = NULL then Some (inode_map h)
     else hash_delete (find_inode k h) (inode_map h))"

lemma create_inode_fresh:
  assumes "imlock h = LkFree" "cleared k h = Some m" "0 < avail h" "brk h \<noteq> NULL"
    "find_inode k h \<noteq> NULL \<Longrightarrow> \<exists>n. inos h (find_inode k h) = Some n \<and> is_deleted n"
  shows "create_inode k s h = Some (brk h, ret_code SUCCESS,
    h\<lparr>inos := (inos h)(brk h \<mapsto> (new_inode k 0 s 0)\<lparr>alive := LkRd 1\<rparr>), inode_map := m @ [brk h],
      brk := brk h + 1, avail := avail h - 1\<rparr>)"
proof -
  have f: "find_inode k (h\<lparr>imlock := x\<rparr>) = find_inode k h" for x
    by (simp add: find_inode_def ino_key_def[abs_def])
  have "map_option is_deleted (inos h (find_inode k h)) = Some True" if "find_inode k h \<noteq> NULL"
    using assms(5)[OF that] by auto
  with assms(1-4) f show ?thesis
    by (cases "find_inode k h = NULL")
      (auto simp: create_inode_def on_imlock_def on_alive_def Let_def upd_ino_def calloc_def map_del_def
        cleared_def hash_add_def new_inode_def mod_ino_def intro!: store.equality)
qed

text \<open>The table after a new inode has been entered.\<close>

lemma cleared_keys:
  assumes "table_ok h" "cleared k h = Some m"
  shows "keys_unique (ino_key h) m" "set m = set (inode_map h) - {find_inode k h}"
    "b \<in> set m \<Longrightarrow> ino_key h b \<noteq> Some k"
proof -
  have u: "keys_unique (ino_key h) (inode_map h)" using assms(1) by (simp add: table_ok_def)
  show "keys_unique (ino_key h) m"
    using assms(2) u uth.unique_del[OF u, of _ m] by (auto simp: cleared_def split: if_splits)
  have "NULL \<notin> set (inode_map h)" using assms(1) by (auto simp: table_ok_def)
  then show s: "set m = set (inode_map h) - {find_inode k h}"
    using assms(2) u by (auto simp: cleared_def hash_delete_def keys_unique_def set_remove1_eq split: if_splits)
  show "ino_key h b \<noteq> Some k" if b: "b \<in> set m"
  proof
    assume "ino_key h b = Some k"
    from find_inode_eq[OF assms(1) _ this] b s show False by auto
  qed
qed

lemma entered_table:
  assumes T: "table_ok h" and m: "cleared k h = Some m" and n: "ino n = k"
    and h': "inos h' = (inos h)(brk h \<mapsto> n)" "inode_map h' = m @ [brk h]" "brk h' = brk h + 1"
  shows "table_ok h'" "find_inode k h' = brk h" "j \<noteq> k \<Longrightarrow> find_inode j h' = find_inode j h"
proof -
  note C = cleared_keys[OF T m]
  have fresh: "b \<noteq> brk h" if "b \<in> set (inode_map h)" for b using T that by (auto simp: table_ok_def)
  have key: "ino_key h' b = ino_key h b" if "b \<in> set m" for b
    using fresh[of b] that C(2) h'(1) by (simp add: ino_key_def)
  have keyn: "ino_key h' (brk h) = Some k" using h'(1) n by (simp add: ino_key_def)
  have "keys_unique (ino_key h') (inode_map h')"
    unfolding keys_unique_def h'(2)
  proof (intro conjI ballI impI)
    show "distinct (m @ [brk h])" using C(1,2) fresh by (auto simp: keys_unique_def)
    fix x y assume xy: "x \<in> set (m @ [brk h])" "y \<in> set (m @ [brk h])" "ino_key h' x = ino_key h' y"
    have old: "ino_key h' x \<noteq> Some k" if "x \<in> set m" for x using key[OF that] C(3)[OF that] by simp
    have new: "ino_key h' z = Some k \<longleftrightarrow> z = brk h" if "z \<in> set (m @ [brk h])" for z
      using that keyn old by auto
    show "x = y"
    proof (cases "x = brk h \<or> y = brk h")
      case True
      with new[OF xy(1)] new[OF xy(2)] xy(3) show ?thesis by auto
    next
      case False
      with xy have "x \<in> set m" "y \<in> set m" "ino_key h x = ino_key h y" by (auto simp: key)
      with C(1) show ?thesis by (simp add: keys_unique_def)
    qed
  qed
  moreover have "NULL < a \<and> a < brk h' \<and> inos h' a \<noteq> None" if "a \<in> set (inode_map h')" for a
  proof (cases "a = brk h")
    case True
    with T h'(1,3) show ?thesis by (simp add: table_ok_def)
  next
    case False
    with that C(2) have "a \<in> set (inode_map h)" unfolding h'(2) by simp
    with T have "NULL < a \<and> a < brk h \<and> inos h a \<noteq> None" unfolding table_ok_def by blast
    with False show ?thesis unfolding h'(1,3) by simp
  qed
  moreover have "NULL < brk h'" unfolding h'(3) by simp
  ultimately show T': "table_ok h'" unfolding table_ok_def by blast
  show "find_inode k h' = brk h" using find_inode_eq[OF T' _ keyn] h'(2) by simp
  show "find_inode j h' = find_inode j h" if "j \<noteq> k"
  proof (rule find_inode_other[OF T T' _ _ that])
    show "a \<in> set (inode_map h') \<and> ino_key h' a = ino_key h a"
      if "ino_key h a \<noteq> Some k" "a \<in> set (inode_map h)" for a
    proof -
      have "find_inode k h \<noteq> a"
        using that find_inode_Some(2)[OF T refl, of k] T by (auto simp: table_ok_def)
      with that C(2) have "a \<in> set m" by auto
      with key h'(2) show ?thesis by simp
    qed
    show "a \<in> set (inode_map h) \<and> ino_key h' a = ino_key h a"
      if "ino_key h' a \<noteq> Some k" "a \<in> set (inode_map h')" for a
      using that keyn h'(2) C(2) key by auto
  qed
qed

definition present :: "ino_t \<Rightarrow> store \<Rightarrow> bool" where
  "present k h \<longleftrightarrow> find_inode k h \<noteq> NULL \<and> (\<exists>n. inos h (find_inode k h) = Some n \<and> \<not> is_deleted n)"

text \<open>\<^verbatim>\<open>create_inode\<close> on an idle server that has memory.\<close>

lemma create_inode_correct:
  assumes T: "table_ok h" and I: "idle h" and av: "0 < avail h"
  shows "\<exists>i r h'. create_inode k s h = Some (i, r, h') \<and> i \<noteq> NULL \<and> table_ok h' \<and>
    find_inode k h' = i \<and> (\<forall>j. j \<noteq> k \<longrightarrow> find_inode j h' = find_inode j h) \<and>
    r = (if present k h then err ALREADY_CREATED else ret_code SUCCESS) \<and>
    inos h' i = (if present k h then map_option (alive_update (\<lambda>_. LkRd 1)) (inos h i)
      else Some ((new_inode k 0 s 0)\<lparr>alive := LkRd 1\<rparr>))"
proof (cases "present k h")
  case True
  define a where "a = find_inode k h"
  from True obtain n where a: "find_inode k h = a" "a \<noteq> NULL" "inos h a = Some n" "\<not> is_deleted n"
    by (auto simp: present_def a_def)
  have im: "imlock h = LkFree" "lk_rd (self h) (alive n) = Some (LkRd 1)"
    using I a(3) by (auto simp: idle_def busy_on_def)
  let ?h = "mod_ino a (alive_update (\<lambda>_. LkRd 1)) h"
  have "ino_key ?h = ino_key h" by (auto simp: ino_key_def fun_eq_iff option.map_comp comp_def)
  then have "table_ok ?h" "\<And>j. find_inode j ?h = find_inode j h"
    using T by (auto simp: table_ok_def find_inode_def)
  with create_inode_old[OF im(1) a im(2), of s] a True show ?thesis by auto
next
  case False
  have im: "imlock h = LkFree" and b: "brk h \<noteq> NULL" using I T by (auto simp: idle_def busy_on_def table_ok_def)
  have d: "\<exists>n. inos h (find_inode k h) = Some n \<and> is_deleted n" if "find_inode k h \<noteq> NULL"
    using False that find_inode_Some(3)[OF T refl that] by (auto simp: present_def)
  obtain m where m: "cleared k h = Some m"
    using find_inode_Some(1)[OF T refl, of k]
    by (cases "find_inode k h = NULL") (auto simp: cleared_def hash_delete_def)
  let ?n = "(new_inode k 0 s 0)\<lparr>alive := LkRd 1\<rparr>"
  let ?h = "h\<lparr>inos := (inos h)(brk h \<mapsto> ?n), inode_map := m @ [brk h], brk := brk h + 1,
    avail := avail h - 1\<rparr>"
  have n: "ino ?n = k" by (simp add: new_inode_def)
  have "table_ok ?h" "find_inode k ?h = brk h" "\<And>j. j \<noteq> k \<Longrightarrow> find_inode j ?h = find_inode j h"
    by (rule entered_table[OF T m n]; simp)+
  with create_inode_fresh[OF im m av b d, of s] False b show ?thesis by auto
qed

lemma acquire_inode_correct:
  assumes "idle h" "table_ok h"
  shows "acquire_inode k h = Some (find_inode k h,
    if find_inode k h = NULL then h else mod_ino (find_inode k h) (alive_update (\<lambda>_. LkRd 1)) h)"
proof -
  have im: "imlock h = LkFree" using assms(1) by (simp add: idle_def busy_on_def)
  have f: "find_inode k (h\<lparr>imlock := x\<rparr>) = find_inode k h" for x
    by (simp add: find_inode_def ino_key_def[abs_def])
  show ?thesis
  proof (cases "find_inode k h = NULL")
    case True
    with im f show ?thesis
      by (auto simp: acquire_inode_def on_imlock_def Let_def intro!: store.equality)
  next
    case False
    from find_inode_Some(3)[OF assms(2) refl False] obtain n where n: "inos h (find_inode k h) = Some n"
      by blast
    then have "alive n = LkFree" using assms(1) by (simp add: idle_def busy_on_def)
    with False im f n show ?thesis
      by (auto simp: acquire_inode_def on_imlock_def on_alive_def upd_ino_def Let_def mod_ino_def
          intro!: store.equality)
  qed
qed

section \<open>Freeing\<close>

text \<open>
  \<^verbatim>\<open>free_inode\<close> on an inode that the table does not hold any more, because a request has
  entered another one under its number: \<^verbatim>\<open>HASH_DELETE\<close> is applied to an item that is
  not in the table.
\<close>

lemma free_inode_replaced:
  assumes "imlock h = LkFree" "inos h a = Some n" "find_inode (ino n) h \<noteq> NULL" "a \<notin> set (inode_map h)"
  shows "free_inode a h = None"
proof -
  have f: "find_inode k (h\<lparr>imlock := x\<rparr>) = find_inode k h" for x k
    by (simp add: find_inode_def ino_key_def[abs_def])
  with assms show ?thesis by (simp add: free_inode_def on_imlock_def map_del_def hash_delete_def)
qed

lemma free_inode_eval:
  assumes I: "idle h" and T: "table_ok h" and n: "inos h a = Some n" "a \<in> set (inode_map h)"
    and e: "flayout n = NULL" "num_exts n = 0" "refcount n = 0"
  shows "free_inode a h = Some (h\<lparr>inos := (inos h)(a := None), inode_map := remove1 a (inode_map h)\<rparr>)"
proof -
  have f: "find_inode k (h\<lparr>imlock := x\<rparr>) = find_inode k h" for x k
    by (simp add: find_inode_def ino_key_def[abs_def])
  have im: "imlock h = LkFree" "alive n = LkFree" using I n(1) by (auto simp: idle_def busy_on_def)
  have "ino_key h a = Some (ino n)" using n(1) by (simp add: ino_key_def)
  from find_inode_eq[OF T n(2) this] have "find_inode (ino n) h \<noteq> NULL" using T n(2) by (auto simp: table_ok_def)
  with im f n e show ?thesis
    by (auto simp: free_inode_def on_imlock_def on_alive_def map_del_def hash_delete_def upd_ino_def
        mod_ino_def free_ino_def intro!: store.equality)
qed

lemma free_inode_correct:
  assumes I: "idle h" and T: "table_ok h" and n: "inos h a = Some n" "a \<in> set (inode_map h)"
    and e: "flayout n = NULL" "num_exts n = 0" "refcount n = 0"
  shows "\<exists>h'. free_inode a h = Some h' \<and> table_ok h' \<and> find_inode (ino n) h' = NULL \<and>
    (\<forall>j. j \<noteq> ino n \<longrightarrow> find_inode j h' = find_inode j h)"
proof -
  let ?h = "h\<lparr>inos := (inos h)(a := None), inode_map := remove1 a (inode_map h)\<rparr>"
  have d: "set (remove1 a (inode_map h)) = set (inode_map h) - {a}"
    using T by (simp add: table_ok_def keys_unique_def set_remove1_eq)
  have key: "ino_key ?h b = ino_key h b" if "b \<noteq> a" for b using that by (simp add: ino_key_def)
  have ka: "ino_key h a = Some (ino n)" using n(1) by (simp add: ino_key_def)
  have other: "ino_key h b \<noteq> Some (ino n)" if "b \<in> set (inode_map h)" "b \<noteq> a" for b
    using T that ka n(2) by (metis keys_unique_def table_ok_def)
  have "keys_unique (ino_key ?h) (remove1 a (inode_map h))"
    using T key d unfolding table_ok_def keys_unique_def by auto
  then have T': "table_ok ?h" using T d by (auto simp: table_ok_def)
  moreover have "find_inode (ino n) ?h = NULL"
    using find_inode_NULL[OF T', of "ino n"] d key other by auto
  moreover have "find_inode j ?h = find_inode j h" if "j \<noteq> ino n" for j
    by (rule find_inode_other[OF T T' _ _ that]) (use d key ka in auto)
  ultimately show ?thesis using free_inode_eval[OF assms] by blast
qed

lemma recreate_then_free:
  assumes T: "table_ok h" and I: "idle h" and av: "0 < avail h"
    and a: "find_inode k h = a" "a \<noteq> NULL" "inos h a = Some n" "is_deleted n"
  shows "\<exists>i r h'. create_inode k s h = Some (i, r, h') \<and> free_inode a h' = None"
proof -
  have im: "imlock h = LkFree" and b: "brk h \<noteq> NULL" using I T by (auto simp: idle_def busy_on_def table_ok_def)
  note F = find_inode_Some[OF T a(1,2)]
  then have lt: "a \<noteq> brk h" and kn: "ino n = k" using T a(3) by (auto simp: table_ok_def)
  obtain m where m: "cleared k h = Some m" using F(1) a(1,2) by (auto simp: cleared_def hash_delete_def)
  let ?n = "(new_inode k 0 s 0)\<lparr>alive := LkRd 1\<rparr>"
  let ?h = "h\<lparr>inos := (inos h)(brk h \<mapsto> ?n), inode_map := m @ [brk h], brk := brk h + 1,
    avail := avail h - 1\<rparr>"
  have "ino ?n = k" by (simp add: new_inode_def)
  from entered_table(2)[OF T m this, of ?h] b have "find_inode (ino n) ?h \<noteq> NULL" by (simp add: kn)
  moreover have "a \<notin> set (inode_map ?h)" using cleared_keys(2)[OF T m] a(1) lt by simp
  ultimately have "free_inode a ?h = None"
    using free_inode_replaced[of ?h a n] im a(3) lt by simp
  with create_inode_fresh[OF im m av b, of s] a show ?thesis by blast
qed

section \<open>Handlers on one inode\<close>

lemma relock_id:
  assumes "inos h i = Some n" "rwlock n = LkFree"
  shows "mod_ino i (rwlock_update (\<lambda>_. LkFree)) (mod_ino i (rwlock_update (\<lambda>_. l)) h) = h"
proof -
  have "n\<lparr>rwlock := LkFree\<rparr> = n" using assms(2) by (cases n) simp
  with assms(1) show ?thesis
    by (auto simp: mod_ino_def fun_upd_idem intro!: store.equality)
qed

text \<open>A handler that is guarded against deleted inodes does nothing on one.\<close>

lemma guarded_handler:
  assumes "inos h i = Some n" "rwlock n = LkFree" "is_deleted n"
  shows "with_wrlock i (unless_deleted f) h = Some (err IS_DELETED, False, h)"
proof -
  have "is_deleted (n\<lparr>rwlock := l\<rparr>)" for l using assms(3) by (simp add: is_deleted_def)
  with assms relock_id[OF assms(1,2), of "LkWr (self h)"] show ?thesis
    by (simp add: with_wrlock_def on_rwlock_def upd_ino_def unless_deleted_def)
qed

lemma guarded_handler':
  assumes "inos h i = Some n" "rwlock n = LkFree" "is_deleted n"
  shows "with_wrlock i (\<lambda>m. unless_deleted (g m) m) h = Some (err IS_DELETED, False, h)"
proof -
  have "is_deleted (n\<lparr>rwlock := l\<rparr>)" for l using assms(3) by (simp add: is_deleted_def)
  with assms relock_id[OF assms(1,2), of "LkWr (self h)"] show ?thesis
    by (simp add: with_wrlock_def on_rwlock_def upd_ino_def unless_deleted_def)
qed

lemma guarded_reader:
  assumes "inos h i = Some n" "rwlock n = LkFree" "is_deleted n"
  shows "with_rdlock i (unless_deleted f) h = Some (err IS_DELETED, False, h)"
proof -
  have "is_deleted (n\<lparr>rwlock := l\<rparr>)" for l using assms(3) by (simp add: is_deleted_def)
  with assms relock_id[OF assms(1,2), of "LkRd 1"] show ?thesis
    by (simp add: with_rdlock_def on_rwlock_def upd_ino_def unless_deleted_def)
qed

text \<open>The arguments of a command have been read, and nothing else has happened.\<close>

definition rx_only :: "store \<Rightarrow> store \<Rightarrow> bool" where
  "rx_only h k \<longleftrightarrow> k = h\<lparr>rx := rx k\<rparr>"

lemma rx_only_refl: "rx_only h h"
  by (simp add: rx_only_def)

lemma rx_only_trans: "rx_only h k \<Longrightarrow> rx_only k l \<Longrightarrow> rx_only h l"
  unfolding rx_only_def by (metis store.surjective store.update_convs(9))

lemma rx_only_inos: "rx_only h k \<Longrightarrow> inos k = inos h"
  unfolding rx_only_def by (metis store.select_convs(3) store.surjective store.update_convs(9))

lemma rx_only_rd:
  "rd_u8 h = Some (a, k) \<Longrightarrow> rx_only h k" "rd_u32 h = Some (b, k) \<Longrightarrow> rx_only h k"
  "rd_u64 h = Some (c, k) \<Longrightarrow> rx_only h k"
  by (auto simp: rd_u8_def rd_u32_def rd_u64_def rd_bytes_def mon rx_only_def)

text \<open>The commands that refuse a deleted inode before they touch anything.\<close>

definition changes :: "ins_com \<Rightarrow> bool" where
  "changes c \<longleftrightarrow> c \<in> {WRITE, TRUNCATE, CLONE_TO, REMOVE_DOBJ, DELETE_INODE, UNREF,
     READ_LAYOUT, GET_INODE_DOBJ}"

text \<open>What such a command does on an inode that is marked as deleted.\<close>

definition refused :: "store \<Rightarrow> result \<Rightarrow> bool" where
  "refused h res \<longleftrightarrow> fst res = err IS_DELETED \<and> \<not> fst (snd res) \<and> rx_only h (snd (snd res))"

lemma guarded_refused:
  assumes "inos h i = Some n" "rwlock n = LkFree" "is_deleted n" "rx_only h k"
    "with_wrlock i (unless_deleted f) k = Some res \<or> with_wrlock i (\<lambda>m. unless_deleted (g m) m) k = Some res"
  shows "refused h res"
proof -
  have k: "inos k i = Some n" using assms(1) rx_only_inos[OF assms(4)] by simp
  from assms(5) guarded_handler[OF k assms(2,3), of f] guarded_handler'[OF k assms(2,3), of g]
  have "res = (err IS_DELETED, False, k)" by auto
  with assms(4) show ?thesis by (simp add: refused_def)
qed

lemma deleted_cmds:
  assumes "inos h i = Some n" "rwlock n = LkFree" "is_deleted n" "i \<noteq> NULL"
  shows "cmd_write i h = Some res \<Longrightarrow> refused h res" "cmd_truncate i h = Some res \<Longrightarrow> refused h res"
    "cmd_clone_to i h = Some res \<Longrightarrow> refused h res" "cmd_remove_dobj i h = Some res \<Longrightarrow> refused h res"
    "cmd_delete_inode i h = Some res \<Longrightarrow> refused h res" "cmd_unref i h = Some res \<Longrightarrow> refused h res"
    "cmd_read_layout i h = Some res \<Longrightarrow> refused h res"
    "cmd_get_inode_dobj i h = Some res \<Longrightarrow> refused h res"
proof -
  note G = guarded_refused[OF assms(1-3)]
  have D: "with_rdlock i (unless_deleted f) k = Some (err IS_DELETED, False, k)" if "rx_only h k" for f k
    by (rule guarded_reader[OF _ assms(2,3)]) (use assms(1) rx_only_inos[OF that] in simp)
  show "cmd_get_inode_dobj i h = Some res \<Longrightarrow> refused h res"
    using assms(4) D[OF rx_only_refl] by (auto simp: cmd_get_inode_dobj_def refused_def rx_only_refl)
  show "refused h res" if c: "cmd_read_layout i h = Some res"
  proof -
    from c obtain f k0 l k1 fl k where r: "rd_u64 h = Some (f, k0)" "rd_u64 k0 = Some (l, k1)"
      "rd_u8 k1 = Some (fl, k)"
      by (auto simp: cmd_read_layout_def mon)
    have k: "rx_only h k"
      using rx_only_rd(3)[OF r(1)] rx_only_rd(3)[OF r(2)] rx_only_rd(1)[OF r(3)] by (blast intro: rx_only_trans)
    from c r assms(4) D[OF k] have "res = (err IS_DELETED, False, k)"
      by (auto simp: cmd_read_layout_def mon err_def)
    with k show ?thesis
      by (simp add: refused_def)
  qed
  show "cmd_write i h = Some res \<Longrightarrow> refused h res"
    using assms(4) by (auto simp: cmd_write_def mon dest!: rx_only_rd)
      (rule G[OF _ disjI1, rotated], assumption, blast intro: rx_only_trans)
  show "cmd_truncate i h = Some res \<Longrightarrow> refused h res"
    using assms(4) by (auto simp: cmd_truncate_def mon dest!: rx_only_rd)
      (rule G[OF _ disjI1, rotated], assumption, blast intro: rx_only_trans)
  show "cmd_clone_to i h = Some res \<Longrightarrow> refused h res"
    using assms(4) by (auto simp: cmd_clone_to_def mon dest!: rx_only_rd)
      (rule G[OF _ disjI1, rotated], assumption, blast intro: rx_only_trans)
  show "cmd_remove_dobj i h = Some res \<Longrightarrow> refused h res"
    using assms(4) by (auto simp: cmd_remove_dobj_def mon dest!: rx_only_rd)
      (rule G[OF _ disjI2, rotated], assumption, blast intro: rx_only_trans)
  show "cmd_delete_inode i h = Some res \<Longrightarrow> refused h res"
    using assms(4) by (auto simp: cmd_delete_inode_def) (rule G[OF rx_only_refl disjI2])
  show "cmd_unref i h = Some res \<Longrightarrow> refused h res"
    using assms(4) by (auto simp: cmd_unref_def) (rule G[OF rx_only_refl disjI2])
qed

text \<open>
  The other commands, but for the two that go by the number of the inode and not by the inode:
  \<^verbatim>\<open>RELEASE_DRAIN_LOCK\<close> takes the drain lock off before it looks whether the inode is
  deleted, and the commands that read leave the inode as it is. (The lock that a thread holds on the inode at
  the end is left open: \<^verbatim>\<open>READ_INODE_WHOLE\<close> may keep it.)
\<close>

definition left_alone :: "addr \<Rightarrow> inode \<Rightarrow> store \<Rightarrow> store \<Rightarrow> bool" where
  "left_alone i n h k \<longleftrightarrow> (\<exists>l. inos k = (inos h)(i \<mapsto> n\<lparr>rwlock := l\<rparr>)) \<and> exts k = exts h \<and> dobs k = dobs h"

lemma left_alone_refl: "inos h i = Some n \<Longrightarrow> left_alone i n h h"
proof -
  assume "inos h i = Some n"
  moreover have "n\<lparr>rwlock := rwlock n\<rparr> = n"
    by simp
  ultimately show ?thesis
    unfolding left_alone_def by (metis fun_upd_triv)
qed

lemma left_alone_wr [simp]: "left_alone i n h (wr bs k) = left_alone i n h k"
  by (simp add: left_alone_def wr_def)

lemma left_alone_lock:
  assumes "left_alone i n h k" "on_rwlock f i k = Some k'"
  shows "left_alone i n h k'"
  using assms
  by (auto simp: left_alone_def on_rwlock_def upd_ino_def mod_ino_def mon split: option.splits) blast

lemma left_alone_ino:
  "left_alone i n h k \<Longrightarrow> inos k i = Some m \<Longrightarrow> is_deleted m = is_deleted n"
  by (auto simp: left_alone_def is_deleted_def)

lemma left_alone_wrlock:
  assumes "with_wrlock i f k = Some res" "left_alone i n h k"
    "\<And>m k1 r fr k2. f m k1 = Some (r, fr, k2) \<Longrightarrow> left_alone i n h k1 \<Longrightarrow> is_deleted m = is_deleted n \<Longrightarrow>
      \<not> fr \<and> left_alone i n h k2"
  shows "\<not> fst (snd res) \<and> left_alone i n h (snd (snd res))"
proof -
  from assms(1) obtain k1 m r fr k2 k3 where s: "on_rwlock (lk_wr (self k)) i k = Some k1" "inos k1 i = Some m"
    "f m k1 = Some (r, fr, k2)" "on_rwlock lk_un i k2 = Some k3" "res = (r, fr, k3)"
    by (auto simp: with_wrlock_def mon)
  have "left_alone i n h k1"
    by (rule left_alone_lock[OF assms(2) s(1)])
  from assms(3)[OF s(3) this left_alone_ino[OF this s(2)]] s(4,5) show ?thesis
    by (auto intro: left_alone_lock)
qed

lemma left_alone_rdlock:
  assumes "with_rdlock i f k = Some res" "left_alone i n h k"
    "\<And>m k1 r fr k2. f m k1 = Some (r, fr, k2) \<Longrightarrow> left_alone i n h k1 \<Longrightarrow> is_deleted m = is_deleted n \<Longrightarrow>
      \<not> fr \<and> left_alone i n h k2"
  shows "\<not> fst (snd res) \<and> left_alone i n h (snd (snd res))"
proof -
  from assms(1) obtain k1 m r fr k2 k3 where s: "on_rwlock (lk_rd (self k)) i k = Some k1" "inos k1 i = Some m"
    "f m k1 = Some (r, fr, k2)" "on_rwlock lk_un i k2 = Some k3" "res = (r, fr, k3)"
    by (auto simp: with_rdlock_def mon)
  have "left_alone i n h k1"
    by (rule left_alone_lock[OF assms(2) s(1)])
  from assms(3)[OF s(3) this left_alone_ino[OF this s(2)]] s(4,5) show ?thesis
    by (auto intro: left_alone_lock)
qed

lemma left_alone_rx:
  assumes "rx_only h k" "inos h i = Some n"
  shows "left_alone i n h k"
proof -
  have "left_alone i n h k \<longleftrightarrow> left_alone i n h h"
    using assms(1) unfolding rx_only_def left_alone_def by (metis store.select_convs store.surjective store.update_convs(9))
  then show ?thesis
    using left_alone_refl[OF assms(2)] by simp
qed

lemma acquire_dobject_find: "acquire_dobject hid l i 0 h = Some (d, k) \<Longrightarrow> k = h"
  by (auto simp: acquire_dobject_def mon Let_def split: if_splits)

lemma reading_cmds:
  assumes "inos h i = Some n" "is_deleted n" "i \<noteq> NULL"
  shows "cmd_read_meta i h = Some res \<Longrightarrow> \<not> fst (snd res) \<and> left_alone i n h (snd (snd res))"
    "cmd_read_whole i h = Some res \<Longrightarrow> \<not> fst (snd res) \<and> left_alone i n h (snd (snd res))"
    "cmd_read_dobj i h = Some res \<Longrightarrow> \<not> fst (snd res) \<and> left_alone i n h (snd (snd res))"
proof -
  note rx = left_alone_rx[OF _ assms(1)]
  show "\<not> fst (snd res) \<and> left_alone i n h (snd (snd res))" if c: "cmd_read_meta i h = Some res"
  proof -
    from c obtain fl k where r: "rd_u8 h = Some (fl, k)"
      by (auto simp: cmd_read_meta_def mon)
    have k: "left_alone i n h k"
      by (rule rx[OF rx_only_rd(1)[OF r]])
    consider "fl = 1" | "fl = 0" | "fl \<noteq> 1" "fl \<noteq> 0" by blast
    then show ?thesis
    proof cases
      case 1
      with c r assms(3) have "with_wrlock i (\<lambda>n h.
          if is_deleted n then do { (r, h) \<leftarrow> pado_getinode_meta NULL h; Some (err IS_DELETED, False, h) }
          else do {
            h \<leftarrow> upd_ino i (\<lambda>n. n\<lparr>refcount := refcount n + 1\<rparr>) h;
            (ret, h) \<leftarrow> pado_getinode_meta i h;
            Some (ret, False, h) }) k = Some res"
        by (simp add: cmd_read_meta_def mon)
      then show ?thesis
        by (rule left_alone_wrlock[OF _ k]) (use assms(2) in \<open>auto simp: pado_getinode_meta_def mon\<close>)
    next
      case 2
      with c r assms(3) have "with_rdlock i (\<lambda>n h.
          if is_deleted n then do { (r, h) \<leftarrow> pado_getinode_meta NULL h; Some (err IS_DELETED, False, h) }
          else do { (ret, h) \<leftarrow> pado_getinode_meta i h; Some (ret, False, h) }) k = Some res"
        by (simp add: cmd_read_meta_def mon)
      then show ?thesis
        by (rule left_alone_rdlock[OF _ k]) (use assms(2) in \<open>auto simp: pado_getinode_meta_def mon\<close>)
    next
      case 3
      with c r assms(3) k show ?thesis
        by (auto simp: cmd_read_meta_def mon)
    qed
  qed
  have body: "\<not> fr \<and> left_alone i n h k2" if "read_whole_body i b v m k1 = Some (r, fr, k2)"
    "left_alone i n h k1" "is_deleted m = is_deleted n" for b v m k1 r fr k2
    using that assms(2) by (auto simp: read_whole_body_def pado_getinode_all_def pado_getinode_meta_def mon)
  show "\<not> fst (snd res) \<and> left_alone i n h (snd (snd res))" if c: "cmd_read_whole i h = Some res"
  proof -
    from c obtain fl k0 v k where r: "rd_u8 h = Some (fl, k0)" "rd_u64 k0 = Some (v, k)"
      by (auto simp: cmd_read_whole_def mon)
    have k: "left_alone i n h k"
      by (rule rx[OF rx_only_trans[OF rx_only_rd(1)[OF r(1)] rx_only_rd(3)[OF r(2)]]])
    consider "fl = 1" | "fl = 0" | "fl \<noteq> 1" "fl \<noteq> 0" by blast
    then show ?thesis
    proof cases
      case 1
      with c r assms(3) obtain k1 m r fr k2 k3 where s: "on_rwlock (lk_wr (self k)) i k = Some k1"
        "inos k1 i = Some m" "read_whole_body i True v m k1 = Some (r, fr, k2)"
        "on_rwlock (lk_wr (self k2)) i k2 = Some k3" "res = (r, fr, k3)"
        by (auto simp: cmd_read_whole_def mon)
      have k1: "left_alone i n h k1"
        by (rule left_alone_lock[OF k s(1)])
      from body[OF s(3) k1 left_alone_ino[OF k1 s(2)]] s(4,5) show ?thesis
        by (auto intro: left_alone_lock)
    next
      case 2
      with c r assms(3) have "with_rdlock i (read_whole_body i False v) k = Some res"
        by (simp add: cmd_read_whole_def mon)
      then show ?thesis
        by (rule left_alone_rdlock[OF _ k]) (rule body)
    next
      case 3
      with c r assms(3) k show ?thesis
        by (auto simp: cmd_read_whole_def mon)
    qed
  qed
  have body': "\<not> fr \<and> left_alone i n h k2" if "read_dobj_body i hid l m k1 = Some (r, fr, k2)"
    "left_alone i n h k1" "is_deleted m = is_deleted n" for hid l m k1 r fr k2
    using that assms(2) by (auto simp: read_dobj_body_def mon Let_def dest!: acquire_dobject_find)
  show "\<not> fst (snd res) \<and> left_alone i n h (snd (snd res))" if c: "cmd_read_dobj i h = Some res"
  proof -
    from c obtain hid k0 l k1 bino k where r: "rd_u32 h = Some (hid, k0)" "rd_u64 k0 = Some (l, k1)"
      "(if with_ms k1 then rd_u64 k1 else Some (0, k1)) = Some (bino, k)"
      by (auto simp: cmd_read_dobj_def mon)
    have "rx_only k1 k"
      using r(3) by (auto split: if_splits intro: rx_only_rd rx_only_refl)
    then have k: "left_alone i n h k"
      using rx_only_rd(2)[OF r(1)] rx_only_rd(3)[OF r(2)] by (blast intro: rx rx_only_trans)
    obtain m where m: "inos k i = Some m"
      using k by (auto simp: left_alone_def)
    show ?thesis
    proof (cases "with_ms k \<and> base_ino m \<noteq> bino")
      case True
      with c r m assms(3) k show ?thesis
        by (auto simp: cmd_read_dobj_def mon Let_def)
    next
      case False
      with c r m assms(3) have "with_wrlock i (read_dobj_body i hid l) k = Some res"
        by (auto simp: cmd_read_dobj_def mon Let_def)
      then show ?thesis
        by (rule left_alone_wrlock[OF _ k]) (rule body')
    qed
  qed
qed

lemma release_drain_deleted:
  assumes "inos h i = Some n" "rwlock n = LkFree" "is_deleted n" "i \<noteq> NULL"
  shows "cmd_release_drain_lock i h =
    Some (err IS_DELETED, False, h\<lparr>inos := (inos h)(i \<mapsto> unset_dlocked n)\<rparr>)"
proof -
  have e: "n\<lparr>flags := f, rwlock := LkFree\<rparr> = n\<lparr>flags := f\<rparr>" for f
    using assms(2) by (cases n) simp
  show ?thesis
    using assms by (simp add: cmd_release_drain_lock_def with_wrlock_def on_rwlock_def upd_ino_def mod_ino_def
        mon unset_dlocked_def is_deleted_def e)
qed

lemma deleted_dispatch:
  assumes "dispatch (Some c) t i h = Some (j, res)" "inos h i = Some n" "rwlock n = LkFree"
    "is_deleted n" "i \<noteq> NULL" "c \<notin> {CREATE_INODE, CREATE_OPEN_INODE}"
  shows "if changes c then refused h res
    else if c = RELEASE_DRAIN_LOCK
      then res = (err IS_DELETED, False, h\<lparr>inos := (inos h)(i \<mapsto> unset_dlocked n)\<rparr>)
    else \<not> fst (snd res) \<and> left_alone i n h (snd (snd res))"
proof -
  note D = deleted_cmds[OF assms(2-5)] and R = reading_cmds[OF assms(2,4,5)]
    and L = release_drain_deleted[OF assms(2-5)]
  have I: "\<not> fst (snd (err INVALID_COMMAND, False, h)) \<and> left_alone i n h (snd (snd (err INVALID_COMMAND, False, h)))"
    using left_alone_refl[OF assms(2)] by simp
  have "j = i"
    using assms(1,6) by (cases c) (auto simp: dispatch_def on_inode_def mon)
  with assms(1) have d: "dispatch (Some c) t i h = Some (i, res)"
    by simp
  show ?thesis
    using d assms(6) I
    by (cases c) (auto simp: changes_def dispatch_def on_inode_def invalid_command_def mon L intro: D dest: R)
qed

text \<open>\<^verbatim>\<open>UNREF\<close> on a live inode, in full.\<close>

definition unref_count :: "inode \<Rightarrow> u32" where
  "unref_count n = (if refcount n - 1 <s 0 then 0 else refcount n - 1)"

definition unref_frees :: "inode \<Rightarrow> bool" where
  "unref_frees n \<longleftrightarrow> \<not> 0 <s unref_count n \<and> flayout n = NULL \<and> \<not> is_shared n"

lemma cmd_unref_eval:
  assumes n: "inos h i = Some n" "rwlock n = LkFree" "\<not> is_deleted n" "i \<noteq> NULL" "\<not> with_ms h"
  shows "cmd_unref i h = Some (if refcount n - 1 <s 0 then err INVALID_UNREF else ret_code SUCCESS,
    unref_frees n, h\<lparr>inos := (inos h)(i \<mapsto>
      (if unref_frees n then set_deleted else id) (n\<lparr>refcount := unref_count n\<rparr>))\<rparr>)"
proof -
  have d: "is_deleted (n\<lparr>rwlock := l\<rparr>) = is_deleted n"
    "is_shared (n\<lparr>rwlock := l, refcount := c\<rparr>) = is_shared n" for l c
    by (simp_all add: is_deleted_def is_shared_def)
  have e: "n\<lparr>rwlock := LkFree\<rparr> = n" using n(2) by (cases n) simp
  have e': "n\<lparr>refcount := c, rwlock := LkFree\<rparr> = n\<lparr>refcount := c\<rparr>" for c
    using n(2) by (cases n) simp
  have e'': "(set_deleted (n\<lparr>rwlock := l, refcount := c\<rparr>))\<lparr>rwlock := LkFree\<rparr> =
      set_deleted (n\<lparr>refcount := c\<rparr>)" for l c
    using n(2) by (cases n) (simp add: set_deleted_def)
  have lk: "rwlock (set_deleted m) = rwlock m" for m by (simp add: set_deleted_def)
  show ?thesis
    using n d e e' e'' lk
    by (auto simp: cmd_unref_def with_wrlock_def on_rwlock_def upd_ino_def unless_deleted_def
        release_inode_def mod_ino_def unref_count_def unref_frees_def Let_def
        intro!: store.equality inode.equality)
qed

lemma unref_count_nonneg: "0 \<le>s unref_count n"
  by (simp add: unref_count_def word_sle_eq word_sless_alt not_less)

end
