(* ===== verification/Examples.thy ===== *)
theory Examples
  imports Extent_Map Inode_Table
begin

text \<open>
  A concrete inode, on which the hypotheses of the properties can be seen to hold: three extents of
  one data object, at the offsets \<open>[0, 10)\<close>, \<open>[20, 30)\<close> and \<open>[30, 40)\<close> of a file of 50
  bytes, and a fourth extent that has been created but not placed.
\<close>

definition ex_ext :: "sz \<Rightarrow> sz \<Rightarrow> sz \<Rightarrow> addr \<Rightarrow> addr \<Rightarrow> extent" where
  "ex_ext f od l p n = \<lparr>dobj = 1, off_f = f, off_do = od, len = l, prev_ref = p, next_ref = n, depth = 1,
     parent = NULL, pivot = SNull, left = NULL, right = NULL, prev_e = NULL, next_e = NULL\<rparr>"

definition ex_inode :: inode where
  "ex_inode = \<lparr>ino = 7, base_ino = 0, isize = 50, atime = \<lparr>tv_sec = 1, tv_nsec = 0\<rparr>,
     mtime = \<lparr>tv_sec = 1, tv_nsec = 0\<rparr>, version = 3, flayout = 2, num_exts = 4, refcount = 1,
     do_map = [1], alive = LkFree, rwlock = LkFree, flags = 0\<rparr>"

definition ex_store :: store where
  "ex_store = \<lparr>
     exts = [1 \<mapsto> (ex_ext 0 100 10 2 NULL)\<lparr>parent := 2, pivot := SLeft 2, next_e := 2\<rparr>,
       2 \<mapsto> (ex_ext 20 120 10 3 1)\<lparr>depth := 2, pivot := SFlayout 1, left := 1, right := 3,
         prev_e := 1, next_e := 3\<rparr>,
       3 \<mapsto> (ex_ext 30 300 10 4 2)\<lparr>parent := 2, pivot := SRight 2, prev_e := 2\<rparr>,
       4 \<mapsto> ex_ext 10 500 5 NULL 3],
     dobs = [1 \<mapsto> \<lparr>daddr = \<lparr>host_id = 9, loid = 77\<rparr>, d_inode = 1, refs = 4, num_refs = 4\<rparr>],
     inos = [1 \<mapsto> ex_inode], inode_map = [1], imlock = LkFree, brk = 5, avail = 100,
     clock = \<lparr>tv_sec = 5, tv_nsec = 0\<rparr>, rx = [], tx = [], dos_log = [], dos_srv = (\<lambda>_ _. None),
     ms_up = False, ms_map = [], inodebase = 1, inodemax = 1, with_ms = False, nodp = True, self = 0\<rparr>"

definition ex_tree :: etree where
  "ex_tree = Bin (Bin Tip 1 1 Tip) 2 2 (Bin Tip 3 1 Tip)"

lemma ex_tree_simps [simp]: "inorder ex_tree = [1, 2, 3]" "avl ex_tree" "root ex_tree = 2"
  by (simp_all add: ex_tree_def)

lemma ex_focus: "focus ex_store 1 ex_tree []"
  by (simp add: focus_def tnode_def null_ok_def ex_store_def ex_inode_def ex_ext_def ex_tree_def)

lemma ex_layout: "layout ex_store 1 ex_tree"
  unfolding layout_def by (intro conjI ex_focus) (simp_all add: fld_def ex_store_def ex_ext_def)

lemma ex_laid_out: "laid_out ex_store 1 ex_tree"
  unfolding laid_out_def
  by (intro conjI ex_layout) (simp_all add: ordered_def precedes_def proper_def ex_store_def ex_ext_def)

lemma ex_chain: "chain ex_store 4 [4]"
  by (simp add: fresh_ext_def fld_def ex_store_def ex_ext_def)

text \<open>A tree that an insertion has put out of balance: 3 hangs below 2, which hangs below 1.\<close>

definition ex_path :: store where
  "ex_path = ex_store\<lparr>
     exts := [1 \<mapsto> (ex_ext 0 100 10 2 NULL)\<lparr>depth := 2, pivot := SFlayout 1, right := 2, next_e := 2\<rparr>,
       2 \<mapsto> (ex_ext 20 120 10 3 1)\<lparr>parent := 1, pivot := SRight 1, right := 3, prev_e := 1, next_e := 3\<rparr>,
       3 \<mapsto> (ex_ext 30 300 10 NULL 2)\<lparr>parent := 2, pivot := SRight 2, prev_e := 2\<rparr>],
     inos := [1 \<mapsto> ex_inode\<lparr>flayout := 1, num_exts := 3\<rparr>]\<rparr>"

definition ex_hole :: ctx where
  "ex_hole = [RFrame Tip 2 1, RFrame Tip 1 2]"

lemma ex_path_focus: "focus ex_path 1 (Bin Tip 3 1 Tip) ex_hole"
  by (simp add: focus_def tnode_def null_ok_def ex_path_def ex_store_def ex_inode_def ex_ext_def ex_hole_def)

section \<open>Requests\<close>

lemma rd_le: "rd_u64 (h\<lparr>rx := le 8 v @ bs\<rparr>) = Some (v, h\<lparr>rx := bs\<rparr>)"
  "rd_u64 (h\<lparr>rx := le 8 v\<rparr>) = Some (v, h\<lparr>rx := []\<rparr>)"
  "rd_u8 (h\<lparr>rx := b # bs\<rparr>) = Some (b, h\<lparr>rx := bs\<rparr>)"
proof -
  show "rd_u64 (h\<lparr>rx := le 8 v @ bs\<rparr>) = Some (v, h\<lparr>rx := bs\<rparr>)" for bs
    by (simp add: rd_u64_def rd_bytes_def unle_le)
  from this[of "[]"] show "rd_u64 (h\<lparr>rx := le 8 v\<rparr>) = Some (v, h\<lparr>rx := []\<rparr>)" by simp
  show "rd_u8 (h\<lparr>rx := b # bs\<rparr>) = Some (b, h\<lparr>rx := bs\<rparr>)"
    by (simp add: rd_u8_def rd_bytes_def take_bytes_def)
qed

text \<open>The inode is empty, and it is marked as deleted.\<close>

definition ex_empty :: inode where
  "ex_empty = ex_inode\<lparr>flayout := NULL, num_exts := 0, refcount := 0, do_map := []\<rparr>"

definition ex_gone :: store where
  "ex_gone = ex_store\<lparr>inos := [1 \<mapsto> ex_empty\<lparr>flags := DELETED\<rparr>]\<rparr>"

definition ex_idle :: store where
  "ex_idle = ex_store\<lparr>inos := [1 \<mapsto> ex_empty]\<rparr>"

lemma ex_idle: "idle (ex_store\<lparr>rx := bs\<rparr>)" "idle ex_store" "idle ex_gone" "idle ex_idle"
  by (auto simp: idle_def busy_on_def ex_store_def ex_inode_def ex_gone_def ex_idle_def ex_empty_def
      split: if_splits)

lemma ex_table: "table_ok ex_store" "table_ok ex_gone" "table_ok ex_idle"
  by (auto simp: table_ok_def keys_unique_def ex_store_def ex_inode_def ex_gone_def ex_idle_def ex_empty_def)

lemma ex_find: "find_inode 7 (ex_store\<lparr>rx := bs\<rparr>) = 1" "find_inode 7 ex_gone = 1"
  by (simp_all add: find_inode_def hash_find_def ino_key_def ex_store_def ex_inode_def ex_gone_def ex_empty_def)

lemma ex_deleted: "is_deleted (ex_empty\<lparr>flags := DELETED\<rparr>)" "\<not> is_deleted ex_inode"
  by (simp_all add: is_deleted_def DELETED_def ex_inode_def)

lemma ex_inos: "inos ex_store 1 = Some ex_inode" "inos ex_gone 1 = Some (ex_empty\<lparr>flags := DELETED\<rparr>)"
  "inos ex_idle 1 = Some ex_empty"
  by (simp_all add: ex_store_def ex_gone_def ex_idle_def)

lemma ex_release_drain: "\<exists>h'. process 10 (ex_store\<lparr>rx := le 8 (7 :: 64 word)\<rparr>) = Some h'"
proof -
  have c: "com_of 10 = Some RELEASE_DRAIN_LOCK" by (simp add: com_of_def ins_coms_def)
  have t: "table_ok (ex_store\<lparr>rx := []\<rparr>)"
    by (simp add: table_ok_def keys_unique_def ex_store_def ex_inode_def)
  note A = acquire_inode_correct[OF ex_idle(1)[of "[]"] t, of 7, unfolded ex_find]
  define k where "k = mod_ino 1 (alive_update (\<lambda>_. LkRd 1)) (ex_store\<lparr>rx := []\<rparr>)"
  have k: "acquire_inode 7 (ex_store\<lparr>rx := []\<rparr>) = Some (1, k)" using A by (simp add: k_def)
  have "inos k 1 = Some (ex_inode\<lparr>alive := LkRd 1\<rparr>)" "nodp k" by (simp_all add: k_def ex_store_def)
  then have "\<exists>h3 n. cmd_release_drain_lock 1 k = Some (ret_code SUCCESS, False, h3) \<and>
      inos h3 1 = Some n \<and> alive n = LkRd 1 \<and> nodp h3"
    by (simp add: cmd_release_drain_lock_def with_wrlock_def on_rwlock_def upd_ino_def ex_inode_def
        unset_dlocked_def is_deleted_def)
  then obtain h3 n where h3: "cmd_release_drain_lock 1 k = Some (ret_code SUCCESS, False, h3)"
    "inos h3 1 = Some n" "alive n = LkRd 1" "nodp h3" by blast
  have "nodp (ex_store\<lparr>rx := le 8 (7 :: 64 word)\<rparr>)" by (simp add: ex_store_def)
  moreover have "inos (wr bs h3) = inos h3" for bs by (simp add: wr_def)
  ultimately show ?thesis using k h3 c
    by (simp add: process_def rd_le dispatch_def on_inode_def on_alive_def upd_ino_def ensure_def)
qed

end
