(* ===== verification/Replace_Correct.thy ===== *)
theory Replace_Correct
  imports Refs
begin

text \<open>
  The phases of \<^verbatim>\<open>replace\<close> keep the layout and the reference lists, and together they exchange
  the range of the map and nothing else.
\<close>

section \<open>Changes of the tree and the list\<close>

lemma body_eqD:
  assumes "body e' = body e"
  shows "rlinks e' = rlinks e" "off_f e' = off_f e" "off_do e' = off_do e" "len e' = len e" "dobj e' = dobj e"
proof -
  have "rlinks e = rlinks (body e)" "off_f e = off_f (body e)" "off_do e = off_do (body e)"
    "len e = len (body e)" "dobj e = dobj (body e)" for e
    by (simp_all add: body_def core_def rlinks_def)
  with assms show "rlinks e' = rlinks e" "off_f e' = off_f e" "off_do e' = off_do e" "len e' = len e"
    "dobj e' = dobj e" by metis+
qed

lemma link_change_rlinks:
  assumes "link_change i A h h'"
  shows "map_option rlinks (exts h' a) = map_option rlinks (exts h a)"
proof -
  from assms have b: "map_option body (exts h' a) = map_option body (exts h a)" by (simp add: link_change_def)
  show ?thesis
  proof (cases "exts h a")
    case (Some e)
    with b obtain e' where "exts h' a = Some e'" "body e' = body e" by auto
    with Some body_eqD(1)[of e' e] show ?thesis by simp
  qed (use b in simp)
qed

lemma link_change_dobs: "link_change i A h h' \<Longrightarrow> dobs h' = dobs h"
  unfolding link_change_def by (elim conjE) (erule ssubst, simp)

lemma link_change_view:
  assumes "link_change i A h h'"
  shows "view h' a = view h a"
proof -
  from assms have b: "map_option body (exts h' a) = map_option body (exts h a)" by (simp add: link_change_def)
  show ?thesis
  proof (cases "exts h a")
    case (Some e)
    with b obtain e' where "exts h' a = Some e'" "body e' = body e" by auto
    with Some body_eqD[of e' e] link_change_dobs[OF assms] show ?thesis by (simp add: view_def)
  qed (use b in \<open>simp add: view_def\<close>)
qed

lemma link_change_inode:
  assumes "link_change i A h h'" "inos h i = Some n"
  shows "\<exists>x. inos h' i = Some (n\<lparr>flayout := x\<rparr>)"
proof -
  from assms obtain n' where n': "inos h' i = Some n'" "n'\<lparr>flayout := NULL\<rparr> = n\<lparr>flayout := NULL\<rparr>"
    by (auto simp: link_change_def)
  have "n' = (n'\<lparr>flayout := NULL\<rparr>)\<lparr>flayout := flayout n'\<rparr>" by simp
  also have "\<dots> = n\<lparr>flayout := flayout n'\<rparr>" using n'(2) by simp
  finally show ?thesis using n'(1) by auto
qed

lemma link_change_owned:
  assumes "link_change i A h h'" "owned h i X"
  shows "owned h' i X"
proof (rule owned_cong[OF _ _ _ assms(2)])
  from assms(2) obtain n where "inos h i = Some n" by (auto simp: owned_def)
  with link_change_inode[OF assms(1) this]
  show "map_option (\<lambda>n. (do_map n, num_exts n)) (inos h' i) = map_option (\<lambda>n. (do_map n, num_exts n)) (inos h i)"
    by auto
qed (use assms in \<open>simp_all add: link_change_rlinks link_change_dobs\<close>)

lemma link_change_fresh:
  assumes "link_change i A h h'" "fresh_ok h"
  shows "fresh_ok h'"
proof (rule fresh_ok_cong[OF assms(2)])
  have e: "h' = h\<lparr>exts := exts h', inos := inos h'\<rparr>" using assms(1) by (simp add: link_change_def)
  show "brk h \<le> brk h'" by (subst e) simp
  have "map_option body (exts h' a) = map_option body (exts h a)" for a
    using assms(1) by (simp add: link_change_def)
  then show "exts h a \<noteq> None" if "exts h' a \<noteq> None" for a
    using that by (metis option.map_disc_iff)
qed (simp add: link_change_dobs[OF assms(1)])

section \<open>The check of an extent\<close>

text \<open>\<^verbatim>\<open>check_extent\<close> passes for every extent of a layout that is in order around it.\<close>

lemma check_extent_ok:
  assumes L: "layout h i t" "inorder t = as @ a # ds" and O: "owned h i X" "a \<in> X"
    and o: "ordered h (as @ [a])" "dr \<or> ds = [] \<or> precedes h a (hd ds)"
  shows "check_extent a dr h = Some ()"
proof -
  from L have f0: "focus h i t []" and av: "avl t" and d: "dll h NULL (as @ a # ds) NULL"
    and di: "distinct (inorder t)" by (auto simp: layout_def focus_def)
  from node_exists[OF L(2) di] obtain l dx r C where
    C: "plug C (Bin l a dx r) = t" "as = left_of C @ inorder l" "ds = inorder r @ right_of C" by blast
  have f: "focus h i (Bin l a dx r) C" using f0 by (simp flip: C(1) add: focus_plug)
  note F = focus_BinD[OF f]
  obtain e where e: "exts h a = Some e" "a \<noteq> NULL" "parent e = hole_parent C" "pivot e = hole_slot i C"
    "depth e = dx" "left e = root l" "right e = root r" using F(14) by (auto simp: tnode_def)
  have n: "next_e e = first ds NULL" "prev_e e = final NULL as"
    using dll_next[OF d] dll_prev[OF d] e(1) by (simp_all add: fld_def)
  have NN: "NULL \<notin> set (as @ a # ds)" using layout_not_NULL[OF L(1)] L(2) by simp
  from ownedE[OF O] obtain n dd rs us vs where R: "fld dobj h a = Some dd" "dob_ok h i dd rs"
    "rs = us @ a # vs" by metis
  then obtain x where x: "dobs h dd = Some x" "refs x = first rs NULL"
    "dlist prev_ref next_ref h NULL (us @ a # vs) NULL" "NULL \<notin> set (us @ a # vs)" by (auto simp: dob_ok_def)
  have r: "prev_ref e = final NULL us" "next_ref e = first vs NULL" "dobj e = dd"
    using dll_next[OF x(3)] dll_prev[OF x(3)] e(1) R(1) by (simp_all add: fld_def)
  have c1: "if prev_ref e \<noteq> NULL then \<exists>p. exts h (prev_ref e) = Some p \<and> next_ref p = a
      else \<exists>x. dobs h (dobj e) = Some x \<and> refs x = a"
  proof (cases us rule: rev_cases)
    case Nil
    then show ?thesis using r x(1,2) R(3) by simp
  next
    case (snoc us' u)
    then show ?thesis using r x(3,4) by (auto simp: dll_append fld_eq_Some)
  qed
  have c2: "next_ref e \<noteq> NULL \<Longrightarrow> \<exists>m. exts h (next_ref e) = Some m \<and> prev_ref m = a"
    using r x(3) by (cases vs) (auto simp: dll_append fld_eq_Some)
  have c3: "hole_parent C = NULL \<or> hole_slot i C = SLeft (hole_parent C) \<or> hole_slot i C = SRight (hole_parent C)"
  proof (cases C)
    case (Cons fr C')
    then show ?thesis by (cases fr) simp_all
  qed simp
  have c4: "prev_e e \<noteq> NULL \<Longrightarrow> \<exists>p. exts h (prev_e e) = Some p \<and> next_e p = a \<and> off_f p + len p \<le> off_f e"
  proof (cases as rule: rev_cases)
    case (snoc as' b)
    have "fld next_e h b = Some a" using d snoc by (simp add: dll_append)
    moreover have "precedes h b a" using o(1) snoc by (simp add: ordered_append ordered_Cons)
    ultimately show ?thesis using n(2) snoc e(1) by (auto simp: precedes_def fld_eq_Some split: option.splits)
  qed (use n in simp)
  have c5: "next_e e \<noteq> NULL \<Longrightarrow> \<exists>m. exts h (next_e e) = Some m \<and> prev_e m = a \<and> (dr \<or> off_f e + len e \<le> off_f m)"
  proof (cases ds)
    case (Cons b ds')
    have "fld prev_e h b = Some a" using d Cons by (simp add: dll_append)
    with o(2) n(1) Cons e(1) show ?thesis by (auto simp: precedes_def fld_eq_Some split: option.splits)
  qed (use n in simp)
  have c6: "root l \<noteq> NULL \<Longrightarrow> \<exists>m. exts h (root l) = Some m \<and> parent m = a \<and> pivot m = SLeft a"
    using F(3) by (cases l) (auto simp: tnode_def)
  have c6': "root r \<noteq> NULL \<Longrightarrow> \<exists>m. exts h (root r) = Some m \<and> parent m = a \<and> pivot m = SRight a"
    using F(4) by (cases r) (auto simp: tnode_def)
  have D: "DEPTH h (root l) = Some (dep l)" "DEPTH h (root r) = Some (dep r)"
    using DEPTH_tr[OF F(3)] DEPTH_tr[OF F(4)] .
  have c7: "dx = max (dep l) (dep r) + 1" "\<bar>dep l - dep r\<bar> < 2"
    using av C(1) avl_plug[of C "Bin l a dx r"] by auto
  have c8: "len e > 0"
  proof -
    from o(1) e(1) have "proper e" by (auto simp: ordered_def)
    then show ?thesis unfolding proper_def by (metis add.right_neutral order_less_irrefl word_neq_0_conv)
  qed
  have k1: "(if prev_ref e \<noteq> NULL then do { p \<leftarrow> exts h (prev_ref e); ensure (next_ref p = a) }
      else do { x \<leftarrow> dobs h (dobj e); ensure (refs x = a) }) = Some ()"
    using c1 by (auto split: if_splits)
  have k2: "(if next_ref e \<noteq> NULL then do { m \<leftarrow> exts h (next_ref e); ensure (prev_ref m = a) }
      else Some ()) = Some ()"
    using c2 by auto
  have k3: "(if prev_e e \<noteq> NULL then do { p \<leftarrow> exts h (prev_e e); ensure (next_e p = a);
      ensure (off_f p + len p \<le> off_f e) } else Some ()) = Some ()"
    using c4 by auto
  have k4: "(if next_e e \<noteq> NULL then do { m \<leftarrow> exts h (next_e e); ensure (prev_e m = a);
      ensure (dr \<or> off_f m \<ge> len e + off_f e) } else Some ()) = Some ()"
    using c5 by (auto simp: add.commute)
  have k5: "(if left e \<noteq> NULL then do { l \<leftarrow> exts h (left e); ensure (parent l = a);
      ensure (pivot l = SLeft a) } else Some ()) = Some ()"
    using c6 e(6) by auto
  have k6: "(if right e \<noteq> NULL then do { r \<leftarrow> exts h (right e); ensure (parent r = a);
      ensure (pivot r = SRight a) } else Some ()) = Some ()"
    using c6' e(7) by auto
  have k7: "read_slot (pivot e) h = Some a" "parent e = NULL \<or> pivot e = SLeft (parent e) \<or> pivot e = SRight (parent e)"
    using read_slot_hole[OF F(1)] c3 e by simp_all
  have D': "DEPTH h (left e) = Some (dep l)" "DEPTH h (right e) = Some (dep r)" using D e by simp_all
  show ?thesis
    unfolding check_extent_def e(1) Option.bind.bind_lunit k1 k2 k3 k4 k5 k6 k7(1) D'
    using c7 c8 k7(2) e(5) by simp
qed

lemma chain_not_NULL: "chain h a zs \<Longrightarrow> NULL \<notin> set zs"
  by (induction zs arbitrary: a) auto

lemma link_change_avail: "link_change i A h h' \<Longrightarrow> avail h' = avail h"
  unfolding link_change_def by (elim conjE) (erule ssubst, simp)

section \<open>Stages of a replacement\<close>

text \<open>
  In the course of \<^verbatim>\<open>replace\<close> the extents of the inode are \<open>as\<close> (in the tree, in front of
  the place in hand), \<open>zs\<close> (new, linked by \<^verbatim>\<open>next\<close>, not yet in the tree) and \<open>ds\<close> (in
  the tree, from the place in hand on).
\<close>

definition stage :: "store \<Rightarrow> addr \<Rightarrow> addr list \<Rightarrow> addr list \<Rightarrow> addr list \<Rightarrow> bool" where
  "stage h i as zs ds \<longleftrightarrow> (\<exists>t. layout h i t \<and> inorder t = as @ ds) \<and> owned h i (set (as @ zs @ ds)) \<and>
     fresh_ok h \<and> chain h (first zs NULL) zs \<and> distinct (as @ zs @ ds)"

text \<open>What a step from the live extents \<open>X\<close> to the live extents \<open>X'\<close> leaves alone.\<close>

definition goes :: "addr \<Rightarrow> store \<Rightarrow> addr set \<Rightarrow> store \<Rightarrow> addr set \<Rightarrow> bool" where
  "goes i h X h' X' \<longleftrightarrow> (\<exists>n n'. inos h i = Some n \<and> inos h' i = Some n' \<and>
     file_change i X (set (do_map n)) h h' \<and> X' \<inter> {..< brk h} \<subseteq> X \<and>
     set (do_map n') \<inter> {..< brk h} \<subseteq> set (do_map n))"

lemma goes_refl: "inos h i = Some n \<Longrightarrow> X' \<subseteq> X \<Longrightarrow> goes i h X h X'"
  by (auto simp: goes_def file_change_refl)

lemma goes_trans:
  assumes "goes i h X h1 X1" "goes i h1 X1 h2 X2"
  shows "goes i h X h2 X2"
proof -
  from assms(1) obtain n n1 where a: "inos h i = Some n" "inos h1 i = Some n1"
    "file_change i X (set (do_map n)) h h1" "X1 \<inter> {..< brk h} \<subseteq> X"
    "set (do_map n1) \<inter> {..< brk h} \<subseteq> set (do_map n)" by (auto simp: goes_def)
  from assms(2) a(2) obtain n2 where b: "inos h2 i = Some n2" "file_change i X1 (set (do_map n1)) h1 h2"
    "X2 \<inter> {..< brk h1} \<subseteq> X1" "set (do_map n2) \<inter> {..< brk h1} \<subseteq> set (do_map n1)" by (auto simp: goes_def)
  have le: "brk h \<le> brk h1" using a(3) by (simp add: file_change_def)
  have "file_change i X (set (do_map n)) h h2" by (rule file_change_trans[OF a(3) b(2) a(4,5)])
  moreover have "X2 \<inter> {..< brk h} \<subseteq> X" using a(4) b(3) le by fastforce
  moreover have "set (do_map n2) \<inter> {..< brk h} \<subseteq> set (do_map n)" using a(5) b(4) le by fastforce
  ultimately show ?thesis using a(1) b(1) by (auto simp: goes_def)
qed

lemma link_goes:
  assumes l: "link_change i ({NULL} \<union> A) h h'" and o: "owned h i X" and s: "A \<subseteq> X" "X' \<subseteq> X" and N: "null_ok h"
  shows "goes i h X h' X'"
proof -
  from o obtain n where n: "inos h i = Some n" by (auto simp: owned_def)
  from link_change_inode[OF l n] obtain x where n': "inos h' i = Some (n\<lparr>flayout := x\<rparr>)" by blast
  have "map_option body (exts h' NULL) = map_option body (exts h NULL)" using l by (simp add: link_change_def)
  then have "exts h' NULL = exts h NULL" using N by (simp add: null_ok_def)
  then have "file_change i A (set (do_map n)) h h'"
    using link_file_change[OF l, of "set (do_map n)"] unfolding file_change_def
    by (metis Un_iff insert_iff singletonD)
  from file_change_mono[OF this s(1) order_refl] n n' s(2) show ?thesis by (auto simp: goes_def)
qed

lemma stage_inode: "stage h i as zs ds \<Longrightarrow> \<exists>n. inos h i = Some n"
  by (auto simp: stage_def owned_def)

section \<open>Removing an extent\<close>

lemma release_stage:
  assumes t: "layout h i t" "inorder t = as @ ds" and o: "owned h i (insert d (set (as @ zs @ ds)))"
    and f: "fresh_ok h" and c: "chain h (first zs NULL) zs" and di: "distinct (d # as @ zs @ ds)"
  shows "\<exists>h'. release_extent d trig h = Some h' \<and> stage h' i as zs ds \<and>
    (\<forall>a \<in> set (as @ zs @ ds). view h' a = view h a) \<and>
    goes i h (insert d (set (as @ zs @ ds))) h' (set (as @ zs @ ds)) \<and> avail h' = avail h"
proof -
  let ?Y = "set (as @ zs @ ds)"
  from o obtain n where n: "inos h i = Some n" by (auto simp: owned_def)
  from release_extent_correct[OF o insertI1 n f, of trig] obtain h' n' where
    h': "release_extent d trig h = Some h'" "owned h' i (insert d ?Y - {d})" "fresh_ok h'"
    "keeps i (insert d ?Y - {d}) h h'" "file_change i (insert d ?Y) (set (do_map n)) h h'" "avail h' = avail h"
    "inos h' i = Some n'" "set (do_map n') \<subseteq> set (do_map n)" by blast
  have XY: "insert d ?Y - {d} = ?Y" using di by auto
  have "layout h' i t"
    by (rule keeps_layout[OF h'(4) _ fresh_null_ok[OF h'(3)] t(1)]) (use XY t(2) in auto)
  moreover have "chain h' (first zs NULL) zs" using keeps_chain[OF h'(4), of zs] c XY by auto
  ultimately have "stage h' i as zs ds" using h'(2,3) t(2) di XY by (auto simp: stage_def)
  moreover have "view h' a = view h a" if "a \<in> ?Y" for a
    using h'(4) that XY by (simp add: keeps_def)
  moreover have "goes i h (insert d ?Y) h' ?Y" using n h' by (auto simp: goes_def)
  ultimately show ?thesis using h'(1,6) by auto
qed

lemma remove_extent_stage:
  assumes "stage h i as zs (d # ds)"
  shows "\<exists>h'. remove_extent d trig h = Some h' \<and> stage h' i as zs ds \<and>
    (\<forall>a \<in> set (as @ zs @ ds). view h' a = view h a) \<and>
    goes i h (set (as @ zs @ d # ds)) h' (set (as @ zs @ ds)) \<and> avail h' = avail h"
proof -
  let ?X = "set (as @ zs @ d # ds)" and ?Y = "set (as @ zs @ ds)"
  from assms obtain t where t: "layout h i t" "inorder t = as @ d # ds" and o: "owned h i ?X"
    and f: "fresh_ok h" and c: "chain h (first zs NULL) zs" and di: "distinct (as @ zs @ d # ds)"
    by (auto simp: stage_def)
  from unlink_extent_correct[OF t] obtain h1 T where h1: "unlink_extent d h = Some h1" "layout h1 i T"
    "inorder T = as @ ds" "link_change i ({NULL} \<union> addrs t) h h1" by blast
  have at: "addrs t \<subseteq> ?X" "set zs \<inter> addrs t = {}" using di by (auto simp: t(2))
  have X: "?X = insert d ?Y" by auto
  have "chain h1 (first zs NULL) zs"
    using link_change_chain[OF h1(4)] at(2) c chain_not_NULL[OF c] by auto
  moreover have "owned h1 i (insert d ?Y)" using link_change_owned[OF h1(4) o] X by simp
  ultimately obtain h' where h': "release_extent d trig h1 = Some h'" "stage h' i as zs ds"
    "\<forall>a \<in> ?Y. view h' a = view h1 a" "goes i h1 (insert d ?Y) h' ?Y" "avail h' = avail h1"
    using release_stage[OF h1(2,3) _ link_change_fresh[OF h1(4) f], of d zs trig] di by auto
  have "goes i h ?X h1 ?X" by (rule link_goes[OF h1(4) o at(1) _ fresh_null_ok[OF f]]) simp
  then have "goes i h ?X h' ?Y" using h'(4) X by (auto intro: goes_trans)
  then show ?thesis
    using h1(1) h' link_change_view[OF h1(4)] link_change_avail[OF h1(4)] by (auto simp: remove_extent_def)
qed

section \<open>Inserting the remaining extents\<close>

lemma insert_rest_stage:
  assumes st: "stage h i as zs ds" and ne: "as \<noteq> [] \<or> ds \<noteq> [] \<or> zs = []"
  shows "\<exists>h'. insert_rest (first zs NULL) (final NULL as) (first ds NULL) h = Some h' \<and>
    stage h' i (as @ zs @ ds) [] [] \<and> (\<forall>a. view h' a = view h a) \<and>
    goes i h (set (as @ zs @ ds)) h' (set (as @ zs @ ds)) \<and> avail h' = avail h"
proof -
  let ?X = "set (as @ zs @ ds)"
  from st obtain t where t: "layout h i t" "inorder t = as @ ds" and o: "owned h i ?X"
    and f: "fresh_ok h" and c: "chain h (first zs NULL) zs" and di: "distinct (as @ zs @ ds)"
    by (auto simp: stage_def)
  have z: "distinct zs" "set zs \<inter> addrs t = {}" using di by (auto simp: t(2))
  have "\<exists>h' T. insert_rest (first zs NULL) (final NULL as) (first ds NULL) h = Some h' \<and> layout h' i T \<and>
    inorder T = as @ zs @ ds \<and> link_change i ({NULL} \<union> set zs \<union> addrs t) h h'"
  proof (cases as rule: rev_cases)
    case (snoc as' b)
    with insert_rest_right[OF t(1) _ c z chain_not_NULL[OF c], of as' b ds "first ds NULL"] t(2)
    show ?thesis by simp
  next
    case Nil
    show ?thesis
    proof (cases ds)
      case (Cons b ds')
      with insert_rest_left[OF t(1) _ c z chain_not_NULL[OF c], of "[]" b ds'] t(2) Nil
      show ?thesis by simp
    next
      case Nil': Nil
      with Nil ne have "zs = []" by simp
      with Nil Nil' t show ?thesis
        by (intro exI[of _ h] exI[of _ t]) (simp add: insert_rest.simps link_change_refl)
    qed
  qed
  then obtain h' T where h': "insert_rest (first zs NULL) (final NULL as) (first ds NULL) h = Some h'"
    "layout h' i T" "inorder T = as @ zs @ ds" "link_change i ({NULL} \<union> (set zs \<union> addrs t)) h h'"
    by (auto simp: Un_assoc)
  have "stage h' i (as @ zs @ ds) [] []"
    using h' link_change_owned[OF h'(4) o] link_change_fresh[OF h'(4) f] di by (auto simp: stage_def)
  moreover have "goes i h ?X h' ?X"
    by (rule link_goes[OF h'(4) o _ _ fresh_null_ok[OF f]]) (auto simp: t(2))
  ultimately show ?thesis using h'(1) link_change_view[OF h'(4)] link_change_avail[OF h'(4)] by auto
qed

section \<open>Replacing an extent\<close>

lemma mod_ext_commute:
  assumes "\<And>e. f (g e) = g (f e)"
  shows "mod_ext p f (mod_ext q g h) = mod_ext q g (mod_ext p f h)"
proof (cases "p = q")
  case True
  then show ?thesis by (simp add: mod_ext_def option.map_comp comp_def assms)
qed (simp add: mod_ext_def fun_upd_twist)

lemma mod_ext_twice: "mod_ext p f (mod_ext p g h) = mod_ext p (\<lambda>e. f (g e)) h"
  by (simp add: mod_ext_def option.map_comp comp_def)

lemma mod_slot_commute:
  assumes "\<And>e x. f (e\<lparr>left := x\<rparr>) = (f e)\<lparr>left := x\<rparr>" "\<And>e x. f (e\<lparr>right := x\<rparr>) = (f e)\<lparr>right := x\<rparr>"
  shows "mod_slot s x (mod_ext q f h) = mod_ext q f (mod_slot s x h)"
proof (cases s)
  case (SLeft a)
  then show ?thesis by (simp add: mod_ext_commute[of "left_update (\<lambda>_. x)" f] assms)
next
  case (SRight a)
  then show ?thesis by (simp add: mod_ext_commute[of "right_update (\<lambda>_. x)" f] assms)
qed (simp_all add: mod_ino_def mod_ext_def)

text \<open>An extent is put into the gap between two lists.\<close>

lemma dll_join:
  assumes x: "dlist pf nf h NULL xs u" and y: "dlist pf nf h v ys NULL"
    and di: "distinct (xs @ a # ys)" and N: "null_ok h" "NULL \<notin> set (xs @ a # ys)" and va: "valid h a"
    and W: "\<And>e. pf (W e) = final NULL xs" "\<And>e. nf (W e) = first ys NULL"
    and F: "\<And>e. nf (F e) = a" "\<And>e. pf (F e) = pf e" and G: "\<And>e. pf (G e) = a" "\<And>e. nf (G e) = nf e"
  shows "dlist pf nf (mod_ext (first ys NULL) G (mod_ext (final NULL xs) F (mod_ext a W h))) NULL (xs @ a # ys) NULL"
proof -
  let ?h1 = "mod_ext a W h" let ?h2 = "mod_ext (final NULL xs) F ?h1" let ?h3 = "mod_ext (first ys NULL) G ?h2"
  have n: "null_ok ?h1" "null_ok ?h2" using N(1) by simp_all
  have p: "xs \<noteq> [] \<Longrightarrow> final NULL xs \<in> set xs" "ys \<noteq> [] \<Longrightarrow> first ys NULL \<in> set ys"
    by (cases xs rule: rev_cases; cases ys; auto)+
  have x1: "dlist pf nf ?h1 NULL xs u" and y1: "dlist pf nf ?h1 v ys NULL" using x y di by simp_all
  have x2: "dlist pf nf ?h2 NULL xs a"
    using x1 di F by (cases xs rule: rev_cases) (auto intro: dll_set_next)
  have y2: "dlist pf nf ?h2 v ys NULL"
  proof (cases "xs = []")
    case True
    then show ?thesis using y1 n by (simp add: mod_ext_NULL)
  next
    case False
    with p(1) di have "final NULL xs \<notin> set ys" by auto
    with y1 show ?thesis by simp
  qed
  have y3: "dlist pf nf ?h3 a ys NULL"
  proof (cases ys)
    case (Cons b bs)
    with y2 di G show ?thesis by (simp only: Cons first_simps) (rule dll_set_prev; simp)
  qed simp
  have x3: "dlist pf nf ?h3 NULL xs a"
  proof (cases "ys = []")
    case True
    then show ?thesis using x2 n by (simp add: mod_ext_NULL)
  next
    case False
    with p(2) di have "first ys NULL \<notin> set xs" by auto
    with x2 show ?thesis by simp
  qed
  have "final NULL xs \<noteq> a" "first ys NULL \<noteq> a" using p di N(2) by (cases "xs = []"; cases "ys = []"; auto)+
  then have "fld pf ?h3 a = Some (final NULL xs)" "fld nf ?h3 a = Some (first ys NULL)"
    using va W by (auto simp: fld_def valid_def)
  with x3 y3 show ?thesis by (simp add: dll_append)
qed

lemma swap_in_dll: "dll (swap_in i C y d l r h) p xs n = dll h p xs n"
  by (simp add: swap_in_def)

text \<open>The store after the pointers of \<open>z\<close> and of its neighbours have been set, before the
  extent \<open>d\<close> that it replaces is released.\<close>

definition stepped_in :: "addr \<Rightarrow> ctx \<Rightarrow> addr \<Rightarrow> int \<Rightarrow> addr \<Rightarrow> addr \<Rightarrow> addr \<Rightarrow> addr \<Rightarrow> store \<Rightarrow> store" where
  "stepped_in i C z dx l r p n h =
     mod_ext n (\<lambda>x. x\<lparr>prev_e := z\<rparr>) (mod_ext p (\<lambda>x. x\<lparr>next_e := z\<rparr>)
       (mod_ext z (\<lambda>x. x\<lparr>prev_e := p, next_e := n\<rparr>) (swap_in i C z dx l r h)))"

lemma replace_extent_unfold:
  assumes e: "exts h d = Some e" "depth e = dx" "parent e = hole_parent C" "pivot e = hole_slot i C"
      "left e = l" "right e = r" "prev_e e = p" "next_e e = n"
    and s: "read_slot (hole_slot i C) h = Some d" and z: "hole_slot i C \<noteq> SLeft z" "hole_slot i C \<noteq> SRight z"
    and N: "null_ok h" and v: "valid h z" "\<And>q. q \<in> {l, r, p, n} \<Longrightarrow> q = NULL \<or> valid h q"
  shows "replace_extent d z h = do {
    h \<leftarrow> release_extent d True (stepped_in i C z dx l r p n h);
    check_extent z True h;
    Some h }"
proof -
  define h1 where "h1 = mod_ext z (\<lambda>x. x\<lparr>depth := dx, parent := hole_parent C, pivot := hole_slot i C\<rparr>) h"
  define h2 where "h2 = mod_slot (hole_slot i C) z h1"
  define h3 where "h3 = mod_ext z (\<lambda>x. x\<lparr>prev_e := p, next_e := n\<rparr>) h2"
  define h5 where "h5 = mod_ext n (\<lambda>x. x\<lparr>prev_e := z\<rparr>) (mod_ext p (\<lambda>x. x\<lparr>next_e := z\<rparr>) h3)"
  define h6 where "h6 = mod_ext z (\<lambda>x. x\<lparr>left := l, right := r\<rparr>) h5"
  define h8 where "h8 = mod_ext r (\<lambda>e. e\<lparr>parent := z, pivot := SRight z\<rparr>)
    (mod_ext l (\<lambda>e. e\<lparr>parent := z, pivot := SLeft z\<rparr>) h6)"
  have rs: "read_slot (hole_slot i C) h1 = Some d"
    using s z by (cases "hole_slot i C") (auto simp: h1_def)
  have vs: "valid (mod_slot sl x k) q = valid k q" for sl x k q by (cases sl) simp_all
  have ns: "null_ok (mod_slot sl x k) = null_ok k" for sl x k by (cases sl) simp_all
  have lnk: "(if q \<noteq> NULL then upd_ext q f k else Some k) = Some (mod_ext q f k)"
    if "null_ok k" "q = NULL \<or> valid k q" for q f k
    using that by (auto simp: valid_def mod_ext_NULL)
  have k: "valid h1 q = valid h q" "valid h2 q = valid h q" "valid h3 q = valid h q" "null_ok h1" "null_ok h2" "null_ok h3" for q
    using N by (simp_all add: h1_def h2_def h3_def vs ns)
  have u1: "upd_ext z (\<lambda>x. x\<lparr>depth := dx, parent := hole_parent C, pivot := hole_slot i C\<rparr>) h = Some h1"
    "upd_ext z (\<lambda>x. x\<lparr>prev_e := p, next_e := n\<rparr>) h2 = Some h3"
    "upd_ext z (\<lambda>x. x\<lparr>left := l, right := r\<rparr>) h5 = Some h6"
    using v(1) k by (simp_all add: upd_ext_eval h1_def h3_def h5_def h6_def del: upd_ext_Some)
  have u2: "(if p \<noteq> NULL then upd_ext p (\<lambda>x. x\<lparr>next_e := z\<rparr>) h3 else Some h3) =
      Some (mod_ext p (\<lambda>x. x\<lparr>next_e := z\<rparr>) h3)"
    by (rule lnk) (use v k in auto)
  have u3: "(if n \<noteq> NULL then upd_ext n (\<lambda>x. x\<lparr>prev_e := z\<rparr>) (mod_ext p (\<lambda>x. x\<lparr>next_e := z\<rparr>) h3)
      else Some (mod_ext p (\<lambda>x. x\<lparr>next_e := z\<rparr>) h3)) = Some h5"
    unfolding h5_def by (rule lnk) (use v k in auto)
  have u4: "set_up l z (SLeft z) h6 = Some (mod_ext l (\<lambda>e. e\<lparr>parent := z, pivot := SLeft z\<rparr>) h6)"
    "set_up r z (SRight z) (mod_ext l (\<lambda>e. e\<lparr>parent := z, pivot := SLeft z\<rparr>) h6) = Some h8"
    unfolding h8_def by (rule set_up_eval; use v k in \<open>auto simp: h6_def h5_def\<close>)+
  have "replace_extent d z h = do { h \<leftarrow> release_extent d True h8; check_extent z True h; Some h }"
    unfolding replace_extent_def e(1) Option.bind.bind_lunit e(2-8) u1(1)
      write_slot_eval[OF rs, of z, folded h2_def] u1(2) u2 u3 u1(3) u4 ..
  moreover have "h8 = stepped_in i C z dx l r p n h"
  proof -
    have c: "mod_ext q (\<lambda>e. e\<lparr>parent := z, pivot := sl\<rparr>) (mod_ext u (prev_e_update (\<lambda>_. z)) k) =
        mod_ext u (prev_e_update (\<lambda>_. z)) (mod_ext q (\<lambda>e. e\<lparr>parent := z, pivot := sl\<rparr>) k)"
      "mod_ext q (\<lambda>e. e\<lparr>parent := z, pivot := sl\<rparr>) (mod_ext u (next_e_update (\<lambda>_. z)) k) =
        mod_ext u (next_e_update (\<lambda>_. z)) (mod_ext q (\<lambda>e. e\<lparr>parent := z, pivot := sl\<rparr>) k)"
      "mod_ext q (\<lambda>e. e\<lparr>parent := z, pivot := sl\<rparr>) (mod_ext u (\<lambda>x. x\<lparr>prev_e := p, next_e := n\<rparr>) k) =
        mod_ext u (\<lambda>x. x\<lparr>prev_e := p, next_e := n\<rparr>) (mod_ext q (\<lambda>e. e\<lparr>parent := z, pivot := sl\<rparr>) k)"
      "mod_ext q (\<lambda>x. x\<lparr>left := l, right := r\<rparr>) (mod_ext u (prev_e_update (\<lambda>_. z)) k) =
        mod_ext u (prev_e_update (\<lambda>_. z)) (mod_ext q (\<lambda>x. x\<lparr>left := l, right := r\<rparr>) k)"
      "mod_ext q (\<lambda>x. x\<lparr>left := l, right := r\<rparr>) (mod_ext u (next_e_update (\<lambda>_. z)) k) =
        mod_ext u (next_e_update (\<lambda>_. z)) (mod_ext q (\<lambda>x. x\<lparr>left := l, right := r\<rparr>) k)"
      "mod_ext q (\<lambda>x. x\<lparr>left := l, right := r\<rparr>) (mod_ext u (\<lambda>x. x\<lparr>prev_e := p, next_e := n\<rparr>) k) =
        mod_ext u (\<lambda>x. x\<lparr>prev_e := p, next_e := n\<rparr>) (mod_ext q (\<lambda>x. x\<lparr>left := l, right := r\<rparr>) k)"
      for q u k sl by (rule mod_ext_commute, simp)+
    have w: "mod_ext z (\<lambda>e. e\<lparr>depth := dx, parent := hole_parent C, pivot := hole_slot i C, left := l, right := r\<rparr>) =
        mod_ext z (\<lambda>e. e\<lparr>pivot := hole_slot i C, parent := hole_parent C, left := l, right := r, depth := dx\<rparr>)"
      by (rule arg_cong[where f = "mod_ext z"]) (rule ext, simp)
    show ?thesis unfolding h8_def h6_def h5_def h3_def h2_def h1_def stepped_in_def swap_in_def
      by (simp add: c mod_slot_commute) (simp add: mod_ext_twice w)
  qed
  ultimately show ?thesis by simp
qed

lemma stepped_in_correct:
  assumes L: "layout h i t" "inorder t = as @ d # ds" and z: "valid h z" "z \<notin> addrs t" "z \<noteq> NULL"
  shows "\<exists>k T. replace_extent d z h = do { h \<leftarrow> release_extent d True k; check_extent z True h; Some h } \<and>
    layout k i T \<and> inorder T = as @ z # ds \<and> link_change i ({NULL, z} \<union> addrs t) h k"
proof -
  from L have f0: "focus h i t []" and av: "avl t" and dl: "dll h NULL (as @ d # ds) NULL"
    and di: "distinct (inorder t)" and N: "null_ok h" by (auto simp: layout_def focus_def)
  from node_exists[OF L(2) di] obtain l dx r C where
    C: "plug C (Bin l d dx r) = t" "as = left_of C @ inorder l" "ds = inorder r @ right_of C" by blast
  have f: "focus h i (Bin l d dx r) C" using f0 by (simp flip: C(1) add: focus_plug)
  note F = focus_BinD[OF f]
  obtain e where e: "exts h d = Some e" "depth e = dx" "parent e = hole_parent C" "pivot e = hole_slot i C"
    "left e = root l" "right e = root r" using F(14) by (auto simp: tnode_def)
  let ?p = "final NULL as" and ?n = "first ds NULL"
  have n: "prev_e e = ?p" "next_e e = ?n"
    using dll_next[OF dl] dll_prev[OF dl] e(1) by (simp_all add: fld_def)
  have zn: "z \<notin> addrs l" "z \<notin> addrs r" "z \<notin> set (ctx_addrs C)"
    using z(2) C(1) by (auto simp: inorder_plug set_ctx_addrs)
  then have zs: "hole_slot i C \<noteq> SLeft z" "hole_slot i C \<noteq> SRight z" using hole_slot_in by blast+
  have NN: "NULL \<notin> set (as @ d # ds)" using layout_not_NULL[OF L(1)] L(2) by simp
  have va: "valid h q" if "q \<in> set (as @ d # ds)" for q using dll_valid[OF dl that] .
  have pn: "?p = NULL \<or> ?p \<in> set as" "?n = NULL \<or> ?n \<in> set ds"
    by (cases as rule: rev_cases; cases ds; auto)+
  have vq: "q = NULL \<or> valid h q" if "q \<in> {root l, root r, ?p, ?n}" for q
    using that root_cases[of l] root_cases[of r] pn va C by auto
  let ?s = "swap_in i C z dx (root l) (root r) h"
  define k where "k = stepped_in i C z dx (root l) (root r) ?p ?n h"
  have ev: "replace_extent d z h = do { h \<leftarrow> release_extent d True k; check_extent z True h; Some h }"
    unfolding k_def
    by (rule replace_extent_unfold[OF e n read_slot_hole[OF F(1)] zs N z(1) vq])
  note S = swap_in_focus[OF f z(1) zn]
  have "focus k i (Bin l z dx r) C" unfolding k_def stepped_in_def
    using S(1) by (simp add: focus_keep)
  then have fk: "focus k i (plug C (Bin l z dx r)) []" by (simp add: focus_plug)
  have io: "inorder (plug C (Bin l z dx r)) = as @ z # ds" using C by (simp add: inorder_plug)
  have "dll k NULL (as @ z # ds) NULL" unfolding k_def stepped_in_def
  proof (rule dll_join)
    show "dll ?s NULL as d" "dll ?s d ds NULL" using dl by (simp_all add: swap_in_dll dll_append)
    show "distinct (as @ z # ds)" "NULL \<notin> set (as @ z # ds)" using di z(2,3) NN L(2) by auto
    show "null_ok ?s" using S(1) by (simp add: focus_def)
    have "valid (mod_slot sl x k) q = valid k q" for sl x k q by (cases sl) simp_all
    then show "valid ?s z" using z(1) by (simp add: swap_in_def)
  qed simp_all
  moreover have "avl (plug C (Bin l z dx r))" using av C(1) by (auto simp: avl_plug)
  ultimately have "layout k i (plug C (Bin l z dx r))" using fk io by (simp add: layout_def)
  moreover have "link_change i ({NULL, z} \<union> addrs t) h k"
  proof -
    have A: "{NULL, z} \<union> addrs l \<union> addrs r \<union> set (ctx_addrs C) \<subseteq> {NULL, z} \<union> addrs t"
      using C(1) by (auto simp: inorder_plug set_ctx_addrs)
    have "link_change i ({NULL, z} \<union> addrs t) h ?s"
      by (rule link_change_mono[OF tree_link_change[OF S(2)] A])
    moreover have "?p \<in> {NULL, z} \<union> addrs t" "?n \<in> {NULL, z} \<union> addrs t" using pn L(2) by auto
    ultimately show ?thesis unfolding k_def stepped_in_def by (intro link_step) simp_all
  qed
  ultimately show ?thesis using ev io by blast
qed

lemma replace_extent_stage:
  assumes st: "stage h i as (z # zs) (d # ds)" and o: "ordered h (as @ [z])"
  shows "\<exists>h'. replace_extent d z h = Some h' \<and> stage h' i (as @ [z]) zs ds \<and>
    (\<forall>a \<in> set (as @ z # zs @ ds). view h' a = view h a) \<and>
    goes i h (set (as @ (z # zs) @ d # ds)) h' (set (as @ z # zs @ ds)) \<and> avail h' = avail h"
proof -
  let ?X = "set (as @ (z # zs) @ d # ds)" and ?Y = "set ((as @ [z]) @ zs @ ds)"
  from st obtain t where t: "layout h i t" "inorder t = as @ d # ds" and ow: "owned h i ?X"
    and f: "fresh_ok h" and c: "chain h z (z # zs)" and di: "distinct (as @ (z # zs) @ d # ds)"
    by (auto simp: stage_def)
  have z: "valid h z" "z \<notin> addrs t" "z \<noteq> NULL" using owned_below[OF ow f, of z] di t(2) by auto
  from stepped_in_correct[OF t z] obtain k T where k:
    "replace_extent d z h = do { h \<leftarrow> release_extent d True k; check_extent z True h; Some h }"
    "layout k i T" "inorder T = (as @ [z]) @ ds" "link_change i ({NULL, z} \<union> addrs t) h k" by auto
  have k4: "link_change i ({NULL} \<union> insert z (addrs t)) h k" using k(4) by (simp add: insert_commute)
  have X: "?X = insert d ?Y" by auto
  from c obtain n where n: "fld next_e h z = Some n" "chain h n zs" by auto
  have "n = first zs NULL" using n(2) by (cases zs) auto
  moreover have "set zs \<inter> ({NULL, z} \<union> addrs t) = {}" using di t(2) chain_not_NULL[OF c] by auto
  ultimately have ck: "chain k (first zs NULL) zs" using link_change_chain[OF k(4)] n(2) by simp
  have "owned k i (insert d ?Y)" using link_change_owned[OF k(4) ow] X by simp
  from release_stage[OF k(2,3) this link_change_fresh[OF k(4) f] ck, of True] di obtain h' where
    h': "release_extent d True k = Some h'" "stage h' i (as @ [z]) zs ds"
    "\<forall>a \<in> ?Y. view h' a = view k a" "goes i k (insert d ?Y) h' ?Y" "avail h' = avail k" by auto
  have v: "view h' a = view h a" if "a \<in> ?Y" for a
    using bspec[OF h'(3) that] link_change_view[OF k(4)] by simp
  have "ordered h' (as @ [z])" using o ordered_view[of "as @ [z]" h' h] v by auto
  moreover from h'(2) obtain T' where T': "layout h' i T'" "inorder T' = as @ z # ds" "owned h' i ?Y"
    by (auto simp: stage_def)
  ultimately have "check_extent z True h' = Some ()"
    by (intro check_extent_ok[OF T']) simp_all
  with k(1) h'(1) have "replace_extent d z h = Some h'" by simp
  moreover have "goes i h ?X h' ?Y"
  proof (rule goes_trans)
    show "goes i h ?X k ?X"
      by (rule link_goes[OF k4 ow _ _ fresh_null_ok[OF f]]) (auto simp: t(2))
    show "goes i k ?X h' ?Y" using h'(4) X by simp
  qed
  ultimately show ?thesis using h'(2,5) v link_change_avail[OF k(4)] by auto
qed

end
