(* ===== verification/Replace_Map.thy ===== *)
theory Replace_Map
  imports Replace_Correct
begin

text \<open>
  What \<^verbatim>\<open>replace\<close> does to the map: on the range it is the map of the new extents, outside it
  is the old one.
\<close>

section \<open>Changing the range of an extent\<close>

definition resizes :: "(extent \<Rightarrow> extent) \<Rightarrow> bool" where
  "resizes f \<longleftrightarrow> (\<forall>e. tlinks (f e) = tlinks e \<and> rlinks (f e) = rlinks e)"

lemma stage_resize:
  assumes st: "stage h i as zs ds" and f: "resizes f" and q: "q \<in> set (as @ zs @ ds)"
  shows "stage (mod_ext q f h) i as zs ds" "goes i h (set (as @ zs @ ds)) (mod_ext q f h) (set (as @ zs @ ds))"
proof -
  let ?h = "mod_ext q f h" and ?X = "set (as @ zs @ ds)"
  from st obtain t where t: "layout h i t" "inorder t = as @ ds" and o: "owned h i ?X"
    and fr: "fresh_ok h" and c: "chain h (first zs NULL) zs" and di: "distinct (as @ zs @ ds)"
    by (auto simp: stage_def)
  have tl: "map_option tlinks (exts ?h a) = map_option tlinks (exts h a)" for a
    using f by (simp add: option.map_comp comp_def resizes_def)
  have rl: "map_option rlinks (exts ?h a) = map_option rlinks (exts h a)" for a
    using f by (simp add: option.map_comp comp_def resizes_def)
  have "layout ?h i t = layout h i t" by (rule layout_cong[OF tl]) simp_all
  moreover have "owned ?h i ?X" by (rule owned_cong[OF rl _ _ o]) simp_all
  moreover have "chain ?h (first zs NULL) zs = chain h (first zs NULL) zs" by (rule chain_tlinks) (rule tl)
  moreover have "fresh_ok ?h" by (rule fresh_ok_cong[OF fr]) (simp_all split: if_splits)
  ultimately show "stage ?h i as zs ds" using t c di unfolding stage_def by blast
  from o obtain n where n: "inos h i = Some n" by (auto simp: owned_def)
  moreover have "file_change i ?X (set (do_map n)) h ?h"
  proof -
    have "?h = h\<lparr>exts := exts ?h, dobs := dobs ?h, inos := inos ?h, brk := brk ?h, avail := avail ?h,
       dos_log := dos_log ?h\<rparr>" by (simp add: mod_ext_def)
    then show ?thesis using q by (auto simp: file_change_def)
  qed
  ultimately show "goes i h ?X ?h ?X" by (auto simp: goes_def)
qed

section \<open>Reading the map off a list\<close>

definition ends_by :: "store \<Rightarrow> sz \<Rightarrow> addr \<Rightarrow> bool" where
  "ends_by h q a \<longleftrightarrow> (case exts h a of Some e \<Rightarrow> off_f e + len e \<le> q | None \<Rightarrow> False)"

definition starts_at :: "store \<Rightarrow> sz \<Rightarrow> addr \<Rightarrow> bool" where
  "starts_at h q a \<longleftrightarrow> (case exts h a of Some e \<Rightarrow> q \<le> off_f e | None \<Rightarrow> False)"

lemma view_bounds:
  assumes "view h' a = view h a"
  shows "ends_by h' q a = ends_by h q a" "starts_at h' q a = starts_at h q a"
  using assms by (rule view_cases; simp add: ends_by_def starts_at_def)+

lemma where_is_append:
  "where_is h (xs @ ys) p = (case where_is h xs p of None \<Rightarrow> where_is h ys p | Some q \<Rightarrow> Some q)"
  by (simp add: where_is_def find_append split: option.splits)

lemma where_is_Cons:
  "where_is h (a # xs) p = (if covers h p a then Some (place_in h a p) else where_is h xs p)"
  by (simp add: where_is_def)

lemma where_is_Nil [simp]: "where_is h [] p = None"
  by (simp add: where_is_def)

lemma ends_by_covers: "ends_by h q a \<Longrightarrow> q \<le> p \<Longrightarrow> \<not> covers h p a"
  by (auto simp: ends_by_def covers_def split: option.splits)

lemma starts_at_covers: "starts_at h q a \<Longrightarrow> p < q \<Longrightarrow> \<not> covers h p a"
  by (auto simp: starts_at_def covers_def split: option.splits)

lemma where_is_after: "(\<And>a. a \<in> set xs \<Longrightarrow> ends_by h q a) \<Longrightarrow> q \<le> p \<Longrightarrow> where_is h xs p = None"
  unfolding where_is_None by (blast dest: ends_by_covers)

lemma where_is_before: "(\<And>a. a \<in> set xs \<Longrightarrow> starts_at h q a) \<Longrightarrow> p < q \<Longrightarrow> where_is h xs p = None"
  unfolding where_is_None by (blast dest: starts_at_covers)

lemma precedes_bounds:
  "precedes h a b \<longleftrightarrow> (\<exists>e f. exts h a = Some e \<and> exts h b = Some f \<and> off_f e + len e \<le> off_f f)"
  by (auto simp: precedes_def split: option.splits)

lemma proper_le: "proper e \<Longrightarrow> off_f e \<le> off_f e + len e"
  by (simp add: proper_def)

lemma ordered_Nil [simp]: "ordered h []"
  by (simp add: ordered_def)

lemma ordered_ext: "ordered h xs \<Longrightarrow> a \<in> set xs \<Longrightarrow> \<exists>e. exts h a = Some e \<and> proper e"
  by (auto simp: ordered_def)

lemma ordered_ends:
  assumes "ordered h (xs @ b # ys)" "a \<in> set xs"
  shows "precedes h a b"
  using assms by (auto simp: ordered_append ordered_Cons)

lemma ordered_starts:
  assumes "ordered h (a # ys)" "exts h a = Some e" "q \<le> off_f e + len e" "b \<in> set ys"
  shows "starts_at h q b"
  using assms by (auto simp: ordered_Cons precedes_bounds starts_at_def)

section \<open>The invariant of the phases\<close>

text \<open>
  \<open>M\<close> is the map that is to be reached: below the end \<open>e\<close> of the range it is the one of the extents
  in front and of the new ones, from \<open>e\<close> on the one of the extents that are still to be looked at.
\<close>

definition fits :: "store \<Rightarrow> (sz \<Rightarrow> place option) \<Rightarrow> sz \<Rightarrow> sz \<Rightarrow> addr list \<Rightarrow> addr list \<Rightarrow> addr list \<Rightarrow> bool" where
  "fits h M s e as zs ds \<longleftrightarrow> ordered h (as @ zs) \<and> ordered h ds \<and> (\<forall>a \<in> set (as @ zs). ends_by h e a) \<and>
     (\<forall>d \<in> set ds. ends_after h s d) \<and> (\<forall>p < e. where_is h (as @ zs) p = M p) \<and>
     (\<forall>p \<ge> e. where_is h ds p = M p)"

lemma fits_view:
  assumes v: "\<And>a. a \<in> set (as @ zs @ ds) \<Longrightarrow> view h' a = view h a" and f: "fits h M s e as zs ds"
  shows "fits h' M s e as zs ds"
proof -
  have 1: "view h' a = view h a" if "a \<in> set (as @ zs)" for a using v that by auto
  have 2: "view h' a = view h a" if "a \<in> set ds" for a using v that by auto
  show ?thesis
    using f 1 2 ordered_view[of "as @ zs" h' h, OF 1] ordered_view[of ds h' h, OF 2]
      where_is_view[of "as @ zs" h' h, OF 1] where_is_view[of ds h' h, OF 2]
      view_bounds(1)[OF 1] view_cong(3)[OF 2]
    unfolding fits_def by simp
qed

section \<open>The loop over the existing extents\<close>

lemma overwrite_unfold:
  assumes "exts h dh = Some d" "dh \<noteq> NULL" "start < off_f d + len d"
  shows "overwrite dh alts tor start e h =
     (if e \<le> off_f d then Some (alts, tor, dh, h)
      else if e < off_f d + len d then
        Some (alts, tor, dh, mod_ext dh (\<lambda>d. d\<lparr>off_f := off_f d + (e - off_f d),
          off_do := off_do d + (e - off_f d), len := len d - (e - off_f d)\<rparr>) h)
      else if alts \<noteq> NULL then do {
          a \<leftarrow> exts h alts;
          h \<leftarrow> replace_extent dh alts h;
          overwrite (next_e d) (next_e a) alts start e h }
      else do {
        h \<leftarrow> remove_extent dh True h;
        overwrite (next_e d) NULL tor start e h })"
proof -
  have "upd_ext dh (\<lambda>x. x\<lparr>off_f := off_f x + (e - off_f d), off_do := off_do x + (e - off_f d),
      len := len x - (e - off_f d)\<rparr>) h =
    Some (mod_ext dh (\<lambda>d. d\<lparr>off_f := off_f d + (e - off_f d),
          off_do := off_do d + (e - off_f d), len := len d - (e - off_f d)\<rparr>) h)"
    using assms(1) by (simp add: upd_ext_def mod_ext_def)
  note [simp] = this
  from assms show ?thesis by (subst overwrite.simps) (simp add: Let_def del: upd_ext_Some)
qed

text \<open>The last extent of the range is cut at its end.\<close>

lemma fits_cut:
  assumes st: "stage h i as zs (d # ds)" and f: "fits h M s e as zs (d # ds)"
    and x: "exts h d = Some x" "off_f x < e" "e < off_f x + len x"
  defines "h' \<equiv> mod_ext d (\<lambda>d. d\<lparr>off_f := off_f d + (e - off_f d),
    off_do := off_do d + (e - off_f d), len := len d - (e - off_f d)\<rparr>) h"
  shows "fits h' M s e as zs (d # ds)" "\<forall>b \<in> set (d # ds). starts_at h' e b"
proof -
  have di: "distinct (as @ zs @ d # ds)" using st by (simp add: stage_def)
  have v: "view h' a = view h a" if "a \<noteq> d" for a using that by (simp add: h'_def view_def)
  obtain y where d': "exts h' d = Some y"
    and en: "off_f y = e" "off_f y + len y = off_f x + len x" "dobj y = dobj x"
      "off_do y = off_do x + (e - off_f x)"
    using x(1) by (simp add: h'_def)
  have va: "view h' a = view h a" if "a \<in> set (as @ zs)" for a using that di by (intro v) auto
  have vd: "view h' a = view h a" if "a \<in> set ds" for a using that di by (intro v) auto
  have o: "ordered h ds" "\<And>b. b \<in> set ds \<Longrightarrow> precedes h d b" using f by (auto simp: fits_def ordered_Cons)
  have pr: "precedes h' d b" if "b \<in> set ds" for b
  proof -
    from o(2)[OF that] x(1) obtain g where "exts h b = Some g" "off_f x + len x \<le> off_f g"
      by (auto simp: precedes_bounds)
    moreover have "exts h' b = exts h b" using that di by (auto simp: h'_def)
    ultimately show ?thesis using d' en(2) by (simp add: precedes_bounds)
  qed
  have "proper y" using x(3) en by (simp add: proper_def)
  with d' o(1) pr ordered_view[of ds h' h, OF vd] have "ordered h' (d # ds)" by (auto simp: ordered_Cons)
  moreover have "ordered h' (as @ zs)" using f ordered_view[of "as @ zs" h' h, OF va] by (simp add: fits_def)
  moreover have "\<forall>a \<in> set (as @ zs). ends_by h' e a" using f view_bounds(1)[OF va] unfolding fits_def by blast
  moreover have "\<forall>b \<in> set (d # ds). ends_after h' s b"
  proof -
    have "ends_after h s d" using f by (simp add: fits_def)
    then have "ends_after h' s d" using x(1) d' en(2) by (simp add: ends_after_def)
    moreover have "\<forall>b \<in> set ds. ends_after h' s b" using f view_cong(3)[OF vd] by (simp add: fits_def)
    ultimately show ?thesis by simp
  qed
  moreover have "\<forall>p < e. where_is h' (as @ zs) p = M p"
    using f where_is_view[of "as @ zs" h' h, OF va] by (simp add: fits_def)
  moreover have "where_is h' (d # ds) p = M p" if "e \<le> p" for p
  proof -
    have "covers h' p d = covers h p d"
      using x d' en that by (auto simp: covers_def)
    moreover have "place_in h' d p = place_in h d p"
      using x(1) d' en by (simp add: place_in_def h'_def algebra_simps split: option.splits)
    moreover have "where_is h' ds p = where_is h ds p" by (rule where_is_view) (rule vd)
    ultimately have "where_is h' (d # ds) p = where_is h (d # ds) p" by (simp add: where_is_Cons)
    with f that show ?thesis by (simp add: fits_def)
  qed
  ultimately show "fits h' M s e as zs (d # ds)" by (simp add: fits_def)
  have "starts_at h' e b" if "b \<in> set ds" for b
    by (rule ordered_starts[OF \<open>ordered h' (d # ds)\<close> d' _ that]) (use x(3) en(2) in simp)
  then show "\<forall>b \<in> set (d # ds). starts_at h' e b" using d' en(1) by (simp add: starts_at_def)
qed

lemma overwrite_correct:
  assumes "stage h i as zs ds" "fits h M s e as zs ds" "as \<noteq> [] \<or> ds \<noteq> [] \<or> zs = []"
  shows "\<exists>h' as' zs' ds'. overwrite (first ds NULL) (first zs NULL) (final NULL as) s e h =
      Some (first zs' NULL, final NULL as', first ds' NULL, h') \<and>
    stage h' i as' zs' ds' \<and> fits h' M s e as' zs' ds' \<and> (\<forall>d \<in> set ds'. starts_at h' e d) \<and>
    (as' \<noteq> [] \<or> ds' \<noteq> [] \<or> zs' = []) \<and> as' @ zs' = as @ zs \<and>
    goes i h (set (as @ zs @ ds)) h' (set (as' @ zs' @ ds')) \<and> avail h' = avail h"
  using assms
proof (induction ds arbitrary: as zs h)
  case Nil
  from stage_inode[OF Nil.prems(1)] obtain n where "inos h i = Some n" by blast
  with Nil.prems show ?case
    by (intro exI[of _ h] exI[of _ as] exI[of _ zs] exI[of _ "[]"])
      (simp add: overwrite.simps goes_refl)
next
  case (Cons d ds)
  note st = Cons.prems(1) and f = Cons.prems(2)
  from stage_inode[OF st] obtain n where n: "inos h i = Some n" by blast
  from st obtain t where t: "layout h i t" "inorder t = as @ d # ds" by (auto simp: stage_def)
  from f obtain x where x: "exts h d = Some x" "proper x" by (auto simp: fits_def ordered_Cons)
  have se: "s < off_f x + len x" using f x(1) by (auto simp: fits_def ends_after_def)
  have d0: "d \<noteq> NULL" using layout_not_NULL[OF t(1)] t(2) by auto
  have nx: "next_e x = first ds NULL"
    using dll_next[of prev_e next_e h NULL as d ds NULL] t x(1) by (simp add: layout_def fld_def)
  note U = overwrite_unfold[OF x(1) d0 se]
  consider (stop) "e \<le> off_f x" | (cut) "off_f x < e" "e < off_f x + len x"
    | (all) "off_f x < e" "off_f x + len x \<le> e" by fastforce
  then show ?case
  proof cases
    case stop
    have "starts_at h e b" if "b \<in> set (d # ds)" for b
    proof (cases "b = d")
      case False
      have "e \<le> off_f x + len x" using stop proper_le[OF x(2)] by (rule order.trans)
      with ordered_starts[of h d ds x e b] f x(1) that False show ?thesis by (simp add: fits_def)
    qed (use x(1) stop in \<open>simp add: starts_at_def\<close>)
    with stop U st f Cons.prems(3) n show ?thesis
      by (intro exI[of _ h] exI[of _ as] exI[of _ zs] exI[of _ "d # ds"]) (simp add: goes_refl)
  next
    case cut
    let ?f = "\<lambda>d. d\<lparr>off_f := off_f d + (e - off_f d), off_do := off_do d + (e - off_f d),
      len := len d - (e - off_f d)\<rparr>"
    have "resizes ?f" by (simp add: resizes_def tlinks_def rlinks_def)
    note R = stage_resize[OF st this, of d]
    have "\<not> e \<le> off_f x" using cut(1) by (simp add: not_le)
    with cut U R fits_cut[OF st f x(1) cut] Cons.prems(3) show ?thesis
      by (intro exI[of _ "mod_ext d ?f h"] exI[of _ as] exI[of _ zs] exI[of _ "d # ds"]) simp
  next
    case all
    have na: "\<not> e \<le> off_f x" "\<not> e < off_f x + len x" using all by (simp_all add: not_le not_less)
    have M: "\<forall>p \<ge> e. where_is h ds p = M p"
    proof (intro allI impI)
      fix p assume p: "e \<le> p"
      have "\<not> covers h p d" using ends_by_covers[of h e d p] all(2) x(1) p by (simp add: ends_by_def)
      then have "where_is h (d # ds) p = where_is h ds p" by (simp add: where_is_Cons)
      with f p show "where_is h ds p = M p" by (simp add: fits_def)
    qed
    show ?thesis
    proof (cases zs)
      case zCons: (Cons z zs')
      have z: "z \<noteq> NULL" "fld next_e h z = Some (first zs' NULL)"
      proof -
        from st zCons obtain m where m: "z \<noteq> NULL" "fld next_e h z = Some m" "chain h m zs'" by (auto simp: stage_def)
        moreover have "m = first zs' NULL" using m(3) by (cases zs') auto
        ultimately show "z \<noteq> NULL" "fld next_e h z = Some (first zs' NULL)" by simp_all
      qed
      have "ordered h (as @ [z])" using f zCons by (auto simp: fits_def ordered_append ordered_Cons)
      from replace_extent_stage[OF st[unfolded zCons] this] obtain h1 where h1:
        "replace_extent d z h = Some h1" "stage h1 i (as @ [z]) zs' ds"
        "\<forall>a \<in> set (as @ z # zs' @ ds). view h1 a = view h a"
        "goes i h (set (as @ (z # zs') @ d # ds)) h1 (set (as @ z # zs' @ ds))" "avail h1 = avail h" by blast
      have "fits h M s e (as @ [z]) zs' ds" using f M zCons by (simp add: fits_def ordered_Cons)
      from fits_view[OF _ this, of h1] h1(3) have "fits h1 M s e (as @ [z]) zs' ds" by simp
      from Cons.IH[OF h1(2) this] obtain h' as' zs'' ds' where h':
        "overwrite (first ds NULL) (first zs' NULL) z s e h1 = Some (first zs'' NULL, final NULL as', first ds' NULL, h')"
        "stage h' i as' zs'' ds'" "fits h' M s e as' zs'' ds'" "\<forall>d \<in> set ds'. starts_at h' e d"
        "as' \<noteq> [] \<or> ds' \<noteq> [] \<or> zs'' = []" "as' @ zs'' = as @ z # zs'"
        "goes i h1 (set (as @ z # zs' @ ds)) h' (set (as' @ zs'' @ ds'))" "avail h' = avail h1" by auto
      have "goes i h (set (as @ zs @ d # ds)) h' (set (as' @ zs'' @ ds'))"
        using goes_trans[OF h1(4) h'(7)] zCons by simp
      moreover obtain y where "exts h z = Some y" "next_e y = first zs' NULL" using z(2) by (auto simp: fld_eq_Some)
      ultimately show ?thesis using U na z(1) zCons h1(1,5) h' nx
        by (intro exI[of _ h'] exI[of _ as'] exI[of _ zs''] exI[of _ ds']) simp
    next
      case zNil: Nil
      from remove_extent_stage[OF st, of True] obtain h1 where h1:
        "remove_extent d True h = Some h1" "stage h1 i as zs ds"
        "\<forall>a \<in> set (as @ zs @ ds). view h1 a = view h a"
        "goes i h (set (as @ zs @ d # ds)) h1 (set (as @ zs @ ds))" "avail h1 = avail h" by blast
      have "fits h M s e as zs ds" using f M by (simp add: fits_def ordered_Cons)
      from fits_view[OF _ this, of h1] h1(3) have "fits h1 M s e as zs ds" by simp
      from Cons.IH[OF h1(2) this] zNil obtain h' as' zs'' ds' where h':
        "overwrite (first ds NULL) NULL (final NULL as) s e h1 = Some (first zs'' NULL, final NULL as', first ds' NULL, h')"
        "stage h' i as' zs'' ds'" "fits h' M s e as' zs'' ds'" "\<forall>d \<in> set ds'. starts_at h' e d"
        "as' \<noteq> [] \<or> ds' \<noteq> [] \<or> zs'' = []" "as' @ zs'' = as"
        "goes i h1 (set (as @ zs @ ds)) h' (set (as' @ zs'' @ ds'))" "avail h' = avail h1" by auto
      have "goes i h (set (as @ zs @ d # ds)) h' (set (as' @ zs'' @ ds'))" by (rule goes_trans[OF h1(4) h'(7)])
      with U na zNil h1(1,5) h' nx show ?thesis
        by (intro exI[of _ h'] exI[of _ as'] exI[of _ zs''] exI[of _ ds']) simp
    qed
  qed
qed

section \<open>The search\<close>

text \<open>The extents in front of the offset \<open>s\<close>, and the others.\<close>

definition ahead :: "store \<Rightarrow> sz \<Rightarrow> addr list \<Rightarrow> addr list" where
  "ahead h s xs = filter (\<lambda>a. \<not> ends_after h s a) xs"

definition beyond :: "store \<Rightarrow> sz \<Rightarrow> addr list \<Rightarrow> addr list" where
  "beyond h s xs = filter (ends_after h s) xs"

lemma ahead_beyond:
  assumes "ordered h xs"
  shows "ahead h s xs @ beyond h s xs = xs"
proof -
  have b: "beyond h s xs = dropWhile (\<lambda>a. \<not> ends_after h s a) xs"
    unfolding beyond_def by (rule dropWhile_filter[OF assms])
  have "ahead h s xs = takeWhile (\<lambda>a. \<not> ends_after h s a) xs"
  proof -
    have "xs = takeWhile (\<lambda>a. \<not> ends_after h s a) xs @ beyond h s xs" by (simp add: b)
    then have "ahead h s xs = ahead h s (takeWhile (\<lambda>a. \<not> ends_after h s a) xs) @ ahead h s (beyond h s xs)"
      by (metis ahead_def filter_append)
    moreover have "ahead h s (beyond h s xs) = []" by (simp add: ahead_def beyond_def filter_empty_conv)
    moreover have "ahead h s (takeWhile (\<lambda>a. \<not> ends_after h s a) xs) = takeWhile (\<lambda>a. \<not> ends_after h s a) xs"
      by (auto simp: ahead_def filter_id_conv dest: set_takeWhileD)
    ultimately show ?thesis by simp
  qed
  with b show ?thesis by simp
qed

lemma ahead_append: "ahead h s (xs @ ys) = ahead h s xs @ ahead h s ys"
  "beyond h s (xs @ ys) = beyond h s xs @ beyond h s ys"
  by (simp_all add: ahead_def beyond_def)

lemma ahead_none: "(\<And>a. a \<in> set xs \<Longrightarrow> ends_after h s a) \<Longrightarrow> ahead h s xs = [] \<and> beyond h s xs = xs"
  by (auto simp: ahead_def beyond_def filter_empty_conv filter_id_conv)

lemma ahead_all: "(\<And>a. a \<in> set xs \<Longrightarrow> \<not> ends_after h s a) \<Longrightarrow> ahead h s xs = xs \<and> beyond h s xs = []"
  by (auto simp: ahead_def beyond_def filter_empty_conv filter_id_conv)

text \<open>What the search of \<^verbatim>\<open>replace\<close> comes to, given the extents on both sides of the offset.\<close>

definition found :: "addr list \<Rightarrow> addr list \<Rightarrow> addr \<Rightarrow> sz \<Rightarrow> sz \<Rightarrow> store \<Rightarrow> (addr \<times> addr \<times> addr \<times> store) option" where
  "found as ds alts s e h = (if ds \<noteq> [] \<and> \<not> starts_at h s (hd ds) then split_head (hd ds) alts s e h
     else Some (first ds NULL, final NULL as, alts, h))"

lemma find_first_focus:
  assumes "focus h i t C" "t \<noteq> Tip" "dll h NULL (left_of C @ inorder t @ right_of C) NULL"
    "ordered h (left_of C @ inorder t @ right_of C)"
    "\<And>a. a \<in> set (left_of C) \<Longrightarrow> \<not> ends_after h s a" "\<And>b. b \<in> set (right_of C) \<Longrightarrow> starts_at h s b"
  shows "find_first (root t) alts s e h =
    found (left_of C @ ahead h s (inorder t)) (beyond h s (inorder t) @ right_of C) alts s e h"
  using assms
proof (induction t arbitrary: C)
  case (Bin l a d r)
  note F = focus_BinD[OF Bin.prems(1)]
  have L: "focus h i l (LFrame a d r # C)" and R: "focus h i r (RFrame l a d # C)"
    using Bin.prems(1) by (simp_all add: focus_up)
  obtain x where e: "exts h a = Some x" "left x = root l" "right x = root r" "a \<noteq> NULL"
    using F(14) by (auto simp: tnode_def)
  have o: "proper x" "\<And>b. b \<in> set (inorder l) \<Longrightarrow> precedes h b a"
    "\<And>y. y \<in> set (inorder r @ right_of C) \<Longrightarrow> precedes h a y \<and> (\<exists>f. exts h y = Some f \<and> proper f)"
    using Bin.prems(4) e(1) by (auto simp: ordered_append ordered_Cons) (auto simp: ordered_def)
  have lNULL: "root l = NULL \<longleftrightarrow> l = Tip" "root r = NULL \<longleftrightarrow> r = Tip"
    using tr_root_NULL[OF F(3)] tr_root_NULL[OF F(4)] by simp_all
  have la: "\<not> ends_after h s b" if "off_f x \<le> s" "b \<in> addrs l" for b
    using precedes_ends(2)[OF o(2)[OF that(2)] e(1) o(1) that(1)] .
  have ra: "ends_after h s y" if "ends_after h s a" "y \<in> set (inorder r @ right_of C)" for y
    using o(3)[OF that(2)] precedes_ends(3)[of h a y] that(1) by blast
  have rC: "ends_after h s b" if "b \<in> set (right_of C)" for b
    using o(3)[of b] Bin.prems(6)[OF that] that
    by (auto simp: starts_at_def ends_after_def proper_def)
  have ea: "ends_after h s a \<longleftrightarrow> s < off_f x + len x" using e(1) by (simp add: ends_after_def)
  have pv: "prev_e x = final NULL (left_of C @ inorder l)"
    using dll_prev[of prev_e next_e h NULL "left_of C @ inorder l" a "inorder r @ right_of C" NULL]
      Bin.prems(3) e(1) by (simp add: fld_def)
  have nxt: "next_e x = first (inorder r @ right_of C) NULL"
    using dll_next[of prev_e next_e h NULL "left_of C @ inorder l" a "inorder r @ right_of C" NULL]
      Bin.prems(3) e(1) by (simp add: fld_def)
  have sa: "starts_at h s a \<longleftrightarrow> s \<le> off_f x" using e(1) by (simp add: starts_at_def)
  have ra': "beyond h s (inorder r) = inorder r \<and> ahead h s (inorder r) = []" if "ends_after h s a"
    using ahead_none[of "inorder r" h s] ra[OF that] by auto
  have la': "beyond h s (inorder l) = [] \<and> ahead h s (inorder l) = inorder l" if "off_f x \<le> s"
    using ahead_all[of "inorder l" h s] la[OF that] by auto
  consider (eq) "off_f x = s" | (mid) "off_f x < s" "s < off_f x + len x" | (lt) "s < off_f x"
    | (ge) "off_f x < s" "off_f x + len x \<le> s" by fastforce
  then show ?case
  proof cases
    case eq
    then have "ends_after h s a" using o(1) ea by (simp add: proper_def)
    with eq e la' ra' sa pv show ?thesis
      by (subst find_first.simps) (simp add: found_def ahead_def beyond_def Let_def)
  next
    case mid
    then have "ends_after h s a" "\<not> starts_at h s a" "off_f x \<noteq> s" "off_f x \<le> s"
      using mid ea sa by (auto simp: not_le)
    with mid e la' ra' show ?thesis
      by (subst find_first.simps) (simp add: found_def ahead_def beyond_def Let_def)
  next
    case lt
    then have pa: "ends_after h s a" using o(1) ea by (auto simp: proper_def)
    have nlt: "off_f x \<noteq> s" "\<not> off_f x < s" using lt by auto
    have st: "starts_at h s a" using sa lt by simp
    have str: "starts_at h s b" if "b \<in> set (right_of (LFrame a d r # C))" for b
    proof -
      from that consider "b = a" | "b \<in> set (inorder r @ right_of C)" by auto
      then show ?thesis
      proof cases
        case 2
        from o(3)[OF this] e(1) obtain g where "exts h b = Some g" "off_f x + len x \<le> off_f g"
          by (auto simp: precedes_bounds)
        moreover have "s \<le> off_f x + len x" using lt proper_le[OF o(1)] by simp
        ultimately show ?thesis by (simp add: starts_at_def)
      qed (simp add: st)
    qed
    show ?thesis
    proof (cases "l = Tip")
      case True
      with lt nlt e lNULL ra'[OF pa] st pv pa show ?thesis
        by (subst find_first.simps) (simp add: found_def ahead_def beyond_def Let_def)
    next
      case False
      have "find_first (root l) alts s e h = found (left_of (LFrame a d r # C) @ ahead h s (inorder l))
          (beyond h s (inorder l) @ right_of (LFrame a d r # C)) alts s e h"
        using Bin.IH(1)[OF L False _ _ _ str] Bin.prems by auto
      with lt nlt e lNULL False ra'[OF pa] pa show ?thesis
        by (subst find_first.simps) (simp add: ahead_def beyond_def Let_def)
    qed
  next
    case ge
    have na: "\<not> ends_after h s a" using ge ea by simp
    have nge: "off_f x \<noteq> s" "\<not> s < off_f x" "\<not> s < off_f x + len x" using ge by auto
    show ?thesis
    proof (cases "r = Tip")
      case True
      have "right_of C \<noteq> [] \<Longrightarrow> starts_at h s (hd (right_of C))"
      proof -
        assume "right_of C \<noteq> []"
        then have "hd (right_of C) \<in> set (right_of C)" by simp
        then show ?thesis by (rule Bin.prems(6))
      qed
      with ge nge True e lNULL la' na nxt show ?thesis
        by (subst find_first.simps)
          (auto simp: found_def ahead_def beyond_def Let_def less_imp_le final_append)
    next
      case False
      have "\<And>b. b \<in> set (left_of (RFrame l a d # C)) \<Longrightarrow> \<not> ends_after h s b"
        using Bin.prems(5) la ge(1) na by (auto simp: less_imp_le)
      then have "find_first (root r) alts s e h = found (left_of (RFrame l a d # C) @ ahead h s (inorder r))
          (beyond h s (inorder r) @ right_of (RFrame l a d # C)) alts s e h"
        using Bin.IH(2)[OF R False] Bin.prems by auto
      with ge nge e lNULL False la' na show ?thesis
        by (subst find_first.simps) (simp add: ahead_def beyond_def Let_def less_imp_le)
    qed
  qed
qed simp

lemma find_first_correct:
  assumes "layout h i t" "ordered h (inorder t)" "t \<noteq> Tip"
  shows "find_first (root t) alts s e h = found (ahead h s (inorder t)) (beyond h s (inorder t)) alts s e h"
  using find_first_focus[of h i t "[]" s alts e] assms by (simp add: layout_def)

section \<open>Splitting the extent at the start of the range\<close>

text \<open>The map to be reached: new extents \<open>zs\<close> over the range, old ones \<open>xs\<close> outside it.\<close>

definition over :: "store \<Rightarrow> sz \<Rightarrow> sz \<Rightarrow> addr list \<Rightarrow> addr list \<Rightarrow> sz \<Rightarrow> place option" where
  "over h s e zs xs p = (if s \<le> p \<and> p < e then where_is h zs p else where_is h xs p)"

lemma fits_over:
  assumes "ordered h' (as @ zs)" "ordered h' ds" "\<And>a. a \<in> set (as @ zs) \<Longrightarrow> ends_by h' e a"
    "\<And>d. d \<in> set ds \<Longrightarrow> ends_after h' s d" "s \<le> e"
    and "\<And>p. p < s \<Longrightarrow> where_is h' (as @ zs) p = where_is h xs p"
    "\<And>p. s \<le> p \<Longrightarrow> p < e \<Longrightarrow> where_is h' (as @ zs) p = where_is h zs0 p"
    "\<And>p. e \<le> p \<Longrightarrow> where_is h' ds p = where_is h xs p"
  shows "fits h' (over h s e zs0 xs) s e as zs ds"
proof -
  have "where_is h' (as @ zs) p = over h s e zs0 xs p" if "p < e" for p
    using assms(6)[of p] assms(7)[of p] that by (auto simp: over_def not_le)
  moreover have "where_is h' ds p = over h s e zs0 xs p" if "e \<le> p" for p
    using assms(8)[OF that] that by (auto simp: over_def)
  ultimately show ?thesis using assms(1-4) by (simp add: fits_def)
qed

lemma stage_move: "stage h i [] zs (as @ ds) \<longleftrightarrow> stage h i as zs ds"
  by (auto simp: stage_def Un_ac)

lemma ends_by_mono: "ends_by h q a \<Longrightarrow> q \<le> r \<Longrightarrow> ends_by h r a"
  by (auto simp: ends_by_def split: option.splits)

lemma not_ends_after: "ordered h xs \<Longrightarrow> a \<in> set xs \<Longrightarrow> \<not> ends_after h s a \<longleftrightarrow> ends_by h s a"
  by (auto simp: ordered_def ends_after_def ends_by_def)

lemma ordered_joined:
  assumes "ordered h as" "ordered h zs" "\<And>a. a \<in> set as \<Longrightarrow> ends_by h q a" "\<And>z. z \<in> set zs \<Longrightarrow> starts_at h q z"
  shows "ordered h (as @ zs)"
proof -
  have "precedes h a z" if "a \<in> set as" "z \<in> set zs" for a z
    using assms(3)[OF that(1)] assms(4)[OF that(2)]
    by (auto simp: ends_by_def starts_at_def precedes_bounds split: option.splits)
  with assms(1,2) show ?thesis by (simp add: ordered_append)
qed

text \<open>The situation in which the range begins inside the extent \<open>d\<close>.\<close>

lemma split_common:
  assumes o: "ordered h (as @ d # ds)" and x: "exts h d = Some x" "off_f x < s" "s < off_f x + len x"
    and as: "\<forall>a \<in> set as. ends_by h s a"
  shows "\<And>a. a \<in> set as \<Longrightarrow> ends_by h (off_f x) a" "\<And>b. b \<in> set ds \<Longrightarrow> starts_at h (off_f x + len x) b"
    "\<And>p. p < s \<Longrightarrow> where_is h (as @ d # ds) p = (case where_is h as p of Some q \<Rightarrow> Some q
      | None \<Rightarrow> if off_f x \<le> p then Some (place_in h d p) else None)"
    "\<And>p. s \<le> p \<Longrightarrow> where_is h (as @ d # ds) p = where_is h (d # ds) p"
proof -
  show "ends_by h (off_f x) a" if "a \<in> set as" for a
    using ordered_ends[OF o that] x(1) by (auto simp: precedes_bounds ends_by_def)
  have od: "ordered h (d # ds)" using o by (simp add: ordered_append)
  show sd: "starts_at h (off_f x + len x) b" if "b \<in> set ds" for b
    by (rule ordered_starts[OF od x(1) order_refl that])
  show "where_is h (as @ d # ds) p = (case where_is h as p of Some q \<Rightarrow> Some q
      | None \<Rightarrow> if off_f x \<le> p then Some (place_in h d p) else None)" if p: "p < s" for p
  proof -
    have "p < off_f x + len x" using p x(3) by (rule less_trans)
    then have "covers h p d \<longleftrightarrow> off_f x \<le> p" "where_is h ds p = None"
      using x(1) where_is_before[OF sd] by (auto simp: covers_def)
    then show ?thesis by (simp add: where_is_append where_is_Cons split: option.splits)
  qed
  show "where_is h (as @ d # ds) p = where_is h (d # ds) p" if "s \<le> p" for p
    using where_is_after[OF bspec[OF as] that] by (simp add: where_is_append)
qed

lemma split_head_cut:
  assumes st: "stage h i as zs (d # ds)" and o: "ordered h (as @ d # ds)" "ordered h zs"
    and as: "\<forall>a \<in> set as. ends_by h s a"
    and zs: "\<forall>z \<in> set zs. starts_at h s z \<and> ends_by h e z"
    and x: "exts h d = Some x" "off_f x < s" "s < off_f x + len x" "off_f x + len x \<le> e"
  defines "h' \<equiv> mod_ext d (\<lambda>e. e\<lparr>len := s - off_f x\<rparr>) h"
  shows "split_head d (first zs NULL) s e h = Some (first ds NULL, d, first zs NULL, h')"
    "stage h' i (as @ [d]) zs ds" "fits h' (over h s e zs (as @ d # ds)) s e (as @ [d]) zs ds"
proof -
  from st obtain t where t: "layout h i t" "inorder t = as @ d # ds" by (auto simp: stage_def)
  have "next_e x = first ds NULL"
    using dll_next[of prev_e next_e h NULL as d ds NULL] t x(1) by (simp add: layout_def fld_def)
  moreover have "\<not> e < off_f x + len x" using x(4) by (simp add: not_less)
  ultimately show "split_head d (first zs NULL) s e h = Some (first ds NULL, d, first zs NULL, h')"
    using x(1) valid_SomeI[OF x(1)] by (simp add: split_head_def h'_def Let_def upd_ext_eval)
  have "resizes (\<lambda>e. e\<lparr>len := s - off_f x\<rparr>)" by (simp add: resizes_def tlinks_def rlinks_def)
  from stage_resize(1)[OF st this] have "stage h' i as zs (d # ds)" by (simp add: h'_def)
  then show "stage h' i (as @ [d]) zs ds" using stage_move[of h' i zs as "d # ds"] stage_move[of h' i zs "as @ [d]" ds]
    by simp
  note S = split_common[OF o(1) x(1-3) as]
  have di: "distinct (as @ zs @ d # ds)" using st by (simp add: stage_def)
  obtain y where y: "exts h' d = Some y" "off_f y = off_f x" "off_f y + len y = s" "dobj y = dobj x" "off_do y = off_do x"
    using x(1) by (simp add: h'_def)
  have v: "view h' a = view h a" if "a \<noteq> d" for a using that by (simp add: h'_def view_def)
  have va: "view h' a = view h a" if "a \<in> set as" for a using that di by (intro v) auto
  have vz: "view h' a = view h a" if "a \<in> set zs" for a using that di by (intro v) auto
  have vd: "view h' a = view h a" if "a \<in> set ds" for a using that di by (intro v) auto
  have oa: "ordered h as" "ordered h ds" "ordered h' as" "ordered h' zs" "ordered h' ds"
    using o ordered_view[of as h' h, OF va] ordered_view[of zs h' h, OF vz] ordered_view[of ds h' h, OF vd]
    by (simp_all add: ordered_append ordered_Cons)
  have ed: "ends_by h' s d" using y by (simp add: ends_by_def)
  have ya: "\<And>a. a \<in> set as \<Longrightarrow> ends_by h' (off_f x) a" using S(1) view_bounds(1)[OF va] by simp
  have zs': "\<And>z. z \<in> set zs \<Longrightarrow> starts_at h' s z \<and> ends_by h' e z" using zs view_bounds[OF vz] by simp
  have sx: "off_f x \<le> s" "s \<le> e" using x by (auto intro: less_imp_le order.trans)
  have "ordered h' (as @ [d])"
  proof (rule ordered_joined[of _ _ _ "off_f x"])
    show "ordered h' [d]" using y x(2) by (simp add: ordered_Cons proper_def)
    show "starts_at h' (off_f x) z" if "z \<in> set [d]" for z using that y by (simp add: starts_at_def)
  qed (use oa(3) ya in auto)
  moreover have "ends_by h' s a" if "a \<in> set (as @ [d])" for a
    using that ed ya ends_by_mono[OF ya sx(1)] by auto
  ultimately have o': "ordered h' ((as @ [d]) @ zs)"
    using oa(4) zs' by (rule_tac ordered_joined[of _ _ _ s]) auto
  have wa: "where_is h' as p = where_is h as p" for p by (rule where_is_view[OF va])
  have wz: "where_is h' zs p = where_is h zs p" for p by (rule where_is_view[OF vz])
  have wd: "where_is h' ds p = where_is h ds p" for p by (rule where_is_view[OF vd])
  have pl: "place_in h' d p = place_in h d p" for p
    using x(1) y by (simp add: place_in_def h'_def split: option.splits)
  show "fits h' (over h s e zs (as @ d # ds)) s e (as @ [d]) zs ds"
  proof (rule fits_over[OF o' oa(5) _ _ sx(2)])
    show "ends_by h' e a" if "a \<in> set ((as @ [d]) @ zs)" for a
      using that zs' ends_by_mono[OF ed sx(2)] ends_by_mono[OF ends_by_mono[OF ya sx(1)] sx(2)] by auto
    show "ends_after h' s b" if b: "b \<in> set ds" for b
    proof -
      have "starts_at h (off_f x + len x) b" by (rule S(2)[OF b])
      moreover obtain g where "exts h b = Some g" "proper g" using ordered_ext[OF oa(2) b] by blast
      ultimately have "s < off_f g + len g"
        using x(3) by (auto simp: starts_at_def proper_def)
      with \<open>exts h b = Some g\<close> view_cong(3)[OF vd[OF b], of s] show ?thesis by (simp add: ends_after_def)
    qed
    show "where_is h' ((as @ [d]) @ zs) p = where_is h (as @ d # ds) p" if "p < s" for p
    proof -
      have "covers h' p d \<longleftrightarrow> off_f x \<le> p" using y that by (simp add: covers_def)
      moreover have "where_is h zs p = None" using where_is_before[of zs h s p] zs that by blast
      ultimately show ?thesis
        using S(3)[OF that] wa wz pl by (simp add: where_is_append where_is_Cons split: option.splits)
    qed
    show "where_is h' ((as @ [d]) @ zs) p = where_is h zs p" if "s \<le> p" for p
    proof -
      have "where_is h as p = None" by (rule where_is_after[OF bspec[OF as] that])
      moreover have "\<not> covers h' p d" by (rule ends_by_covers[OF ed that])
      ultimately show ?thesis using wa wz by (simp add: where_is_append where_is_Cons)
    qed
    show "where_is h' ds p = where_is h (as @ d # ds) p" if "e \<le> p" for p
    proof -
      have "s \<le> p" using sx(2) that by simp
      moreover have "\<not> covers h p d" using x(1) order.trans[OF x(4) that] by (simp add: covers_def not_less)
      ultimately show ?thesis using S(4) wd by (simp add: where_is_Cons)
    qed
  qed
qed

text \<open>The range lies inside the extent \<open>d\<close>: what is common to the two ways to keep its head.\<close>

lemma split_inside:
  assumes o: "ordered h (as @ d # ds)" "ordered h zs"
    and as: "\<forall>a \<in> set as. ends_by h s a"
    and zs: "\<forall>z \<in> set zs. starts_at h s z \<and> ends_by h e z"
    and x: "exts h d = Some x" "off_f x < s" "s < e" "e < off_f x + len x"
    and v: "\<And>a. a \<in> set (as @ d # ds) \<Longrightarrow> view h' a = view h a"
    and zs': "ordered h' zs'" "\<And>z. z \<in> set zs' \<Longrightarrow> starts_at h' (off_f x) z \<and> ends_by h' e z"
      "\<And>p. off_f x \<le> p \<Longrightarrow> p < s \<Longrightarrow> where_is h' zs' p = Some (place_in h d p)"
      "\<And>p. s \<le> p \<Longrightarrow> p < e \<Longrightarrow> where_is h' zs' p = where_is h zs p"
  shows "fits h' (over h s e zs (as @ d # ds)) s e as zs' (d # ds)"
proof -
  have x3: "s < off_f x + len x" using x(3,4) by (rule less_trans)
  note S = split_common[OF o(1) x(1,2) x3 as]
  have va: "view h' a = view h a" if "a \<in> set as" for a using that by (intro v) auto
  have vd: "view h' a = view h a" if "a \<in> set (d # ds)" for a using that by (intro v) auto
  have od: "ordered h (d # ds)" "ordered h' as" "ordered h' (d # ds)"
    using o ordered_view[of as h' h, OF va] ordered_view[of "d # ds" h' h, OF vd]
    by (simp_all only: ordered_append)
  have ya: "\<And>a. a \<in> set as \<Longrightarrow> ends_by h' (off_f x) a" using S(1) view_bounds(1)[OF va] by simp
  have wa: "where_is h' as p = where_is h as p" for p by (rule where_is_view[OF va])
  have wd: "where_is h' (d # ds) p = where_is h (d # ds) p" for p by (rule where_is_view[OF vd])
  have xe: "off_f x \<le> e" using x(2,3) by (auto intro: less_imp_le less_trans)
  show ?thesis
  proof (rule fits_over)
    show "ordered h' (as @ zs')" by (rule ordered_joined[OF od(2) zs'(1) ya]) (use zs'(2) in auto)
    show "ends_by h' e a" if "a \<in> set (as @ zs')" for a
      using that zs'(2) ends_by_mono[OF ya xe] by auto
    show "ends_after h' s b" if "b \<in> set (d # ds)" for b
    proof (cases "b = d")
      case True
      have "ends_after h s d" using x(1) x3 by (simp add: ends_after_def)
      with True view_cong(3)[OF vd[OF that], of s] show ?thesis by simp
    next
      case False
      with that have b: "b \<in> set ds" by simp
      have "precedes h d b" using od(1) b by (simp add: ordered_Cons)
      moreover have "ends_after h s d" using x(1) x3 by (simp add: ends_after_def)
      moreover obtain g where "exts h b = Some g" "proper g" using ordered_ext[OF od(1), of b] b by auto
      ultimately have "ends_after h s b" using precedes_ends(3) by blast
      with view_cong(3)[OF vd[OF that], of s] show ?thesis by simp
    qed
    show "where_is h' (as @ zs') p = where_is h (as @ d # ds) p" if p: "p < s" for p
    proof (cases "off_f x \<le> p")
      case False
      then have "where_is h' zs' p = None" using where_is_before[of zs' h' "off_f x" p] zs'(2) by (simp add: not_le)
      with False S(3)[OF p] wa show ?thesis by (simp add: where_is_append split: option.splits)
    qed (use S(3)[OF p] wa zs'(3) p in \<open>simp add: where_is_append split: option.splits\<close>)
    show "where_is h' (as @ zs') p = where_is h zs p" if "s \<le> p" "p < e" for p
      using where_is_after[OF bspec[OF as] that(1)] wa zs'(4)[OF that] by (simp add: where_is_append)
    show "where_is h' (d # ds) p = where_is h (as @ d # ds) p" if "e \<le> p" for p
    proof -
      have "s \<le> p" using x(3) that by simp
      with S(4) wd show ?thesis by simp
    qed
  qed (use od(3) x(3) in \<open>simp_all add: less_imp_le\<close>)
qed

text \<open>The head of \<open>d\<close> is merged with the first new extent.\<close>

lemma split_head_merge:
  assumes st: "stage h i as (z # zs) (d # ds)" and o: "ordered h (as @ d # ds)" "ordered h (z # zs)"
    and as: "\<forall>a \<in> set as. ends_by h s a"
    and zs: "\<forall>y \<in> set (z # zs). starts_at h s y \<and> ends_by h e y"
    and x: "exts h d = Some x" "off_f x < s" "s < e" "e < off_f x + len x"
    and y: "exts h z = Some y" "dobj x = dobj y" "off_do x + (s - off_f x) = off_do y" "s = off_f y"
  defines "h' \<equiv> mod_ext z (\<lambda>a. a\<lparr>off_f := off_f x, off_do := off_do x, len := len a + (s - off_f x)\<rparr>) h"
  shows "split_head d z s e h = Some (d, final NULL as, z, h')" "stage h' i as (z # zs) (d # ds)"
    "fits h' (over h s e (z # zs) (as @ d # ds)) s e as (z # zs) (d # ds)"
proof -
  from st obtain t where t: "layout h i t" "inorder t = as @ d # ds" and z0: "z \<noteq> NULL" by (auto simp: stage_def)
  have "prev_e x = final NULL as"
    using dll_prev[of prev_e next_e h NULL as d ds NULL] t x(1) by (simp add: layout_def fld_def)
  with x(1,4) y z0 valid_SomeI[OF y(1)] show "split_head d z s e h = Some (d, final NULL as, z, h')"
    by (simp add: split_head_def h'_def Let_def upd_ext_eval del: upd_ext_Some)
  have "resizes (\<lambda>a. a\<lparr>off_f := off_f x, off_do := off_do x, len := len a + (s - off_f x)\<rparr>)"
    by (simp add: resizes_def tlinks_def rlinks_def)
  from stage_resize(1)[OF st this] show "stage h' i as (z # zs) (d # ds)" by (simp add: h'_def)
  have di: "distinct (as @ (z # zs) @ d # ds)" using st by (simp add: stage_def)
  have v: "view h' a = view h a" if "a \<noteq> z" for a using that by (simp add: h'_def view_def)
  obtain y' where y': "exts h' z = Some y'" "off_f y' = off_f x" "off_f y' + len y' = s + len y"
    "dobj y' = dobj y" "off_do y' = off_do x"
    using y(1) by (simp add: h'_def)
  have oz: "ordered h zs" "proper y" "\<And>b. b \<in> set zs \<Longrightarrow> precedes h z b"
    using o(2) y(1) by (auto simp: ordered_Cons)
  have vz: "view h' a = view h a" if "a \<in> set zs" for a using that di by (intro v) auto
  have sl: "s < s + len y" using oz(2) y(4) by (simp add: proper_def)
  have ze: "s + len y \<le> e" using bspec[OF zs, of z] y by (simp add: ends_by_def)
  have pz: "precedes h' z b" if "b \<in> set zs" for b
  proof -
    from oz(3)[OF that] y(1,4) obtain g where "exts h b = Some g" "s + len y \<le> off_f g"
      by (auto simp: precedes_bounds)
    moreover have "exts h' b = exts h b" using that di by (auto simp: h'_def)
    ultimately show ?thesis using y'(1,3) by (simp add: precedes_bounds)
  qed
  show "fits h' (over h s e (z # zs) (as @ d # ds)) s e as (z # zs) (d # ds)"
  proof (rule split_inside[OF o as zs x])
    show "view h' a = view h a" if "a \<in> set (as @ d # ds)" for a using that di by (intro v) auto
    have "proper y'" unfolding proper_def y'(3) unfolding y'(2) using x(2) sl by (rule less_trans)
    then show "ordered h' (z # zs)"
      using y'(1) pz oz(1) ordered_view[of zs h' h, OF vz] by (simp add: ordered_Cons)
    show "starts_at h' (off_f x) b \<and> ends_by h' e b" if "b \<in> set (z # zs)" for b
    proof (cases "b = z")
      case True
      then show ?thesis using y'(1-3) ze by (simp add: starts_at_def ends_by_def)
    next
      case False
      with that have b: "b \<in> set zs" by simp
      have "starts_at h s b" "ends_by h e b" using zs that by auto
      then have "starts_at h' s b" "ends_by h' e b" using view_bounds[OF vz[OF b]] by simp_all
      then show ?thesis using x(2) by (auto simp: starts_at_def split: option.splits)
    qed
    have dd: "dobs h' = dobs h" by (simp add: h'_def)
    show "where_is h' (z # zs) p = Some (place_in h d p)" if "off_f x \<le> p" "p < s" for p
    proof -
      have "p < s + len y" using that(2) sl by (rule less_trans)
      then have "covers h' p z" using y'(1-3) that by (simp add: covers_def)
      moreover have "place_in h' z p = place_in h d p"
        using y'(1,2,4,5) x(1) y(2) dd by (simp add: place_in_def split: option.splits)
      ultimately show ?thesis by (simp add: where_is_Cons)
    qed
    show "where_is h' (z # zs) p = where_is h (z # zs) p" if "s \<le> p" "p < e" for p
    proof -
      have "off_f x \<le> p" using x(2) that(1) by simp
      then have "covers h' p z = covers h p z" using y'(1-3) y(1,4) that by (simp add: covers_def)
      moreover have "place_in h' z p = place_in h z p"
      proof -
        have "off_do x + (p - off_f x) = off_do y + (p - off_f y)"
          unfolding y(3)[symmetric] y(4)[symmetric] by simp
        then show ?thesis using y'(1,2,4,5) y(1) dd by (simp add: place_in_def split: option.splits)
      qed
      moreover have "where_is h' zs p = where_is h zs p" by (rule where_is_view[OF vz])
      ultimately show ?thesis by (simp add: where_is_Cons)
    qed
  qed
qed

text \<open>A new extent is put in front of the new ones.\<close>

lemma stage_push:
  assumes st: "stage h i as zs ds" and n: "inos h i = Some n" "d \<in> set (do_map n)" and av: "0 < avail h"
  defines "p \<equiv> brk h"
  shows "\<exists>h1 e. create_extent d fo od l h = Some (p, h1) \<and> valid h1 p \<and>
    (\<forall>h'. h' = mod_ext p (\<lambda>e. e\<lparr>next_e := first zs NULL\<rparr>) h1 \<longrightarrow>
      stage h' i as (p # zs) ds \<and> (\<forall>a \<in> set (as @ zs @ ds). view h' a = view h a) \<and>
      goes i h (set (as @ zs @ ds)) h' (set (as @ (p # zs) @ ds)) \<and> avail h' = avail h - 1 \<and>
      exts h' p = Some e \<and> dobj e = d \<and> off_f e = fo \<and> off_do e = od \<and> len e = l \<and>
      map_option daddr (dobs h' d) = map_option daddr (dobs h d) \<and> (zs = [] \<longrightarrow> h' = h1))"
proof -
  let ?X = "set (as @ zs @ ds)"
  from st obtain t where t: "layout h i t" "inorder t = as @ ds" and o: "owned h i ?X"
    and fr: "fresh_ok h" and c: "chain h (first zs NULL) zs" and di: "distinct (as @ zs @ ds)"
    by (auto simp: stage_def)
  from create_extent_correct[OF o n fr av, of fo od l] obtain h1 e where h1:
    "create_extent d fo od l h = Some (p, h1)" "owned h1 i (insert p ?X)" "fresh_ok h1" "keeps i ?X h h1"
    "file_change i ?X {d} h h1"
    "exts h1 p = Some e" "dobj e = d" "off_f e = fo" "off_do e = od" "len e = l" "fresh_ext h1 p"
    "avail h1 = avail h - 1" "inos h1 i = Some (n\<lparr>num_exts := num_exts n + 1\<rparr>)"
    "map_option daddr (dobs h1 d) = map_option daddr (dobs h d)" "next_e e = NULL"
    unfolding p_def by (elim exE conjE) blast
  have p: "p \<notin> ?X" "p \<noteq> NULL" using owned_below[OF o fr] fr by (auto simp: p_def fresh_ok_def)
  define h' where "h' = mod_ext p (\<lambda>e. e\<lparr>next_e := first zs NULL\<rparr>) h1"
  have ex: "exts h' a = exts h1 a" if "a \<noteq> p" for a using that by (simp add: h'_def)
  have l1: "layout h1 i t" by (rule keeps_layout[OF h1(4) _ fresh_null_ok[OF h1(3)] t(1)]) (auto simp: t(2))
  have "layout h' i t = layout h1 i t"
    by (rule layout_cong) (use ex p t(2) in \<open>auto simp: h'_def\<close>)
  moreover have "owned h' i (insert p ?X)"
    by (rule owned_cong[OF _ _ _ h1(2)]) (auto simp: h'_def rlinks_def h1(6))
  moreover have "fresh_ok h'" by (rule fresh_ok_cong[OF h1(3)]) (auto simp: h'_def h1(6) split: if_splits)
  moreover have "chain h' p (p # zs)"
  proof -
    have "chain h1 (first zs NULL) zs" using c keeps_chain[OF h1(4), of zs] by auto
    moreover have "chain h' (first zs NULL) zs = chain h1 (first zs NULL) zs"
    proof (rule chain_tlinks)
      fix a assume "a \<in> set zs"
      then have "a \<noteq> p" using p(1) by auto
      then show "map_option tlinks (exts h' a) = map_option tlinks (exts h1 a)" by (simp add: ex)
    qed
    moreover have "fresh_ext h' p" using h1(6,11) by (simp add: fresh_ext_def h'_def)
    ultimately show ?thesis using p(2) h1(6) by (simp add: h'_def fld_def)
  qed
  ultimately have "stage h' i as (p # zs) ds" using l1 t(2) di p(1) by (auto simp: stage_def)
  moreover have "view h' a = view h a" if "a \<in> ?X" for a
  proof -
    have "view h' a = view h1 a" using that p(1) ex[of a] by (auto simp: h'_def view_def)
    then show ?thesis using h1(4) that by (simp add: keeps_def)
  qed
  moreover have "goes i h ?X h' (set (as @ (p # zs) @ ds))"
  proof -
    have "file_change i {p} {} h1 h'"
    proof -
      have "h' = h1\<lparr>exts := exts h', dobs := dobs h', inos := inos h', brk := brk h', avail := avail h',
         dos_log := dos_log h'\<rparr>" by (simp add: h'_def mod_ext_def)
      then show ?thesis by (auto simp: file_change_def h'_def)
    qed
    from file_change_trans[OF h1(5) this] have "file_change i ?X {d} h h'" by (auto simp: p_def)
    from file_change_mono[OF this order_refl, of "set (do_map n)"] n(2) have
      "file_change i ?X (set (do_map n)) h h'" by simp
    then show ?thesis using n(1) h1(13) by (auto simp: goes_def h'_def p_def)
  qed
  moreover have "zs = [] \<Longrightarrow> h' = h1"
  proof -
    have "e\<lparr>next_e := NULL\<rparr> = e" using h1(15) by (cases e) simp
    then show "zs = [] \<Longrightarrow> h' = h1" using h1(6) by (simp add: h'_def mod_ext_def fun_upd_idem)
  qed
  moreover have "valid h1 p" by (rule valid_SomeI[OF h1(6)])
  ultimately show ?thesis using h1(1,6,7,8,9,10,12,14) by (intro exI[of _ h1] exI[of _ "e\<lparr>next_e := first zs NULL\<rparr>"]) (simp add: h'_def)
qed

text \<open>The head of \<open>d\<close> becomes a new extent.\<close>

lemma split_head_new:
  assumes st: "stage h i as zs (d # ds)" and o: "ordered h (as @ d # ds)" "ordered h zs"
    and as: "\<forall>a \<in> set as. ends_by h s a"
    and zs: "\<forall>z \<in> set zs. starts_at h s z \<and> ends_by h e z"
    and x: "exts h d = Some x" "off_f x < s" "s < e" "e < off_f x + len x"
    and nm: "\<forall>a. zs \<noteq> [] \<longrightarrow> exts h (hd zs) = Some a \<longrightarrow>
      \<not> (dobj x = dobj a \<and> off_do x + (s - off_f x) = off_do a \<and> s = off_f a)"
    and av: "0 < avail h"
  shows "\<exists>h' p. split_head d (first zs NULL) s e h = Some (d, final NULL as, p, h') \<and>
    stage h' i as (p # zs) (d # ds) \<and> fits h' (over h s e zs (as @ d # ds)) s e as (p # zs) (d # ds) \<and>
    goes i h (set (as @ zs @ d # ds)) h' (set (as @ (p # zs) @ d # ds)) \<and> avail h' = avail h - 1"
proof -
  let ?X = "set (as @ zs @ d # ds)"
  from st obtain t where t: "layout h i t" "inorder t = as @ d # ds" and ow: "owned h i ?X"
    and fr: "fresh_ok h" and c: "chain h (first zs NULL) zs" by (auto simp: stage_def)
  from ownedE[OF ow, of d] obtain n where n: "inos h i = Some n" and dm: "dobj x \<in> set (do_map n)"
    using x(1) by (auto simp: fld_def)
  define p where "p = brk h"
  from stage_push[OF st n dm av, of "off_f x" "off_do x" "s - off_f x"] obtain h1 g where h1:
    "create_extent (dobj x) (off_f x) (off_do x) (s - off_f x) h = Some (p, h1)" "valid h1 p" and
    R: "\<And>h'. h' = mod_ext p (\<lambda>e. e\<lparr>next_e := first zs NULL\<rparr>) h1 \<Longrightarrow>
      stage h' i as (p # zs) (d # ds) \<and> (\<forall>a \<in> ?X. view h' a = view h a) \<and>
      goes i h ?X h' (set (as @ (p # zs) @ d # ds)) \<and> avail h' = avail h - 1 \<and>
      exts h' p = Some g \<and> dobj g = dobj x \<and> off_f g = off_f x \<and> off_do g = off_do x \<and> len g = s - off_f x \<and>
      map_option daddr (dobs h' (dobj x)) = map_option daddr (dobs h (dobj x))"
    unfolding p_def by blast
  define h' where "h' = mod_ext p (\<lambda>e. e\<lparr>next_e := first zs NULL\<rparr>) h1"
  note R = R[OF h'_def]
  have g: "exts h' p = Some g" "dobj g = dobj x" "off_f g = off_f x" "off_do g = off_do x"
    "off_f g + len g = s" "proper g"
    and da: "map_option daddr (dobs h' (dobj x)) = map_option daddr (dobs h (dobj x))"
    using R x(2) by (auto simp: proper_def)
  have "prev_e x = final NULL as"
    using dll_prev[of prev_e next_e h NULL as d ds NULL] t x(1) by (simp add: layout_def fld_def)
  moreover have "split_head d (first zs NULL) s e h = do {
      (tmp, h) \<leftarrow> create_extent (dobj x) (off_f x) (off_do x) (s - off_f x) h;
      h \<leftarrow> upd_ext tmp (\<lambda>e. e\<lparr>next_e := first zs NULL\<rparr>) h;
      Some (d, prev_e x, tmp, h) }"
  proof (cases zs)
    case Nil
    with x show ?thesis by (simp add: split_head_def Let_def)
  next
    case (Cons z zs')
    with c obtain a where "exts h z = Some a" "z \<noteq> NULL" by (auto simp: fld_def)
    with Cons spec[OF nm, of a] x show ?thesis by (auto simp: split_head_def Let_def)
  qed
  ultimately have "split_head d (first zs NULL) s e h = Some (d, final NULL as, p, h')"
    using h1 by (simp add: h'_def upd_ext_eval)
  moreover have "fits h' (over h s e zs (as @ d # ds)) s e as (p # zs) (d # ds)"
  proof (rule split_inside[OF o as zs x])
    have vz: "view h' z = view h z" if "z \<in> set zs" for z using R that by auto
    show "view h' a = view h a" if "a \<in> set (as @ d # ds)" for a using R that by auto
    have "ordered h' ([p] @ zs)"
    proof (rule ordered_joined)
      show "ordered h' [p]" using g by (simp add: ordered_Cons)
      show "ordered h' zs" using o(2) ordered_view[of zs h' h, OF vz] by simp
      show "ends_by h' s a" if "a \<in> set [p]" for a using that g by (simp add: ends_by_def)
      show "starts_at h' s z" if "z \<in> set zs" for z using bspec[OF zs that] view_bounds[OF vz[OF that]] by simp
    qed
    then show "ordered h' (p # zs)" by simp
    show "starts_at h' (off_f x) z \<and> ends_by h' e z" if "z \<in> set (p # zs)" for z
    proof (cases "z = p")
      case True
      with g x(3) show ?thesis by (simp add: starts_at_def ends_by_def)
    next
      case False
      with that have "z \<in> set zs" by simp
      from bspec[OF zs this] view_bounds[OF vz[OF this]] x(2) show ?thesis
        by (auto simp: starts_at_def split: option.splits)
    qed
    show "where_is h' (p # zs) q = Some (place_in h d q)" if "off_f x \<le> q" "q < s" for q
    proof -
      have "covers h' q p" using g(1,3,5) that by (simp add: covers_def)
      moreover have "place_in h' p q = place_in h d q"
        using g(1-4) da x(1) by (auto simp: place_in_def split: option.splits)
      ultimately show ?thesis by (simp add: where_is_Cons)
    qed
    show "where_is h' (p # zs) q = where_is h zs q" if "s \<le> q" "q < e" for q
    proof -
      have "\<not> covers h' q p" using g(1,5) that by (simp add: covers_def not_less)
      with where_is_view[of zs h' h, OF vz] show ?thesis by (simp add: where_is_Cons)
    qed
  qed
  ultimately show ?thesis using R by blast
qed

section \<open>What the search leaves\<close>

lemma found_plain:
  assumes st: "stage h i as zs ds" and o: "ordered h (as @ ds)" "ordered h zs"
    and as: "\<forall>a \<in> set as. ends_by h s a" and ds: "\<forall>d \<in> set ds. starts_at h s d"
    and zs: "\<forall>z \<in> set zs. starts_at h s z \<and> ends_by h e z" and se: "s < e"
  shows "fits h (over h s e zs (as @ ds)) s e as zs ds"
proof (rule fits_over)
  show "ordered h (as @ zs)"
    by (rule ordered_joined[of _ _ _ s]) (use o as zs in \<open>auto simp: ordered_append\<close>)
  show od: "ordered h ds" using o by (simp add: ordered_append)
  show "ends_by h e a" if "a \<in> set (as @ zs)" for a
    using that as zs ends_by_mono[OF _ less_imp_le[OF se]] by auto
  show "ends_after h s d" if "d \<in> set ds" for d
    using bspec[OF ds that] ordered_ext[OF od that] by (auto simp: starts_at_def ends_after_def proper_def)
  show "where_is h (as @ zs) p = where_is h (as @ ds) p" if "p < s" for p
  proof -
    have "where_is h zs p = None" by (rule where_is_before[OF _ that]) (use zs in simp)
    moreover have "where_is h ds p = None" by (rule where_is_before[OF _ that]) (use ds in simp)
    ultimately show ?thesis by (simp add: where_is_append split: option.splits)
  qed
  have a: "where_is h as p = None" if "s \<le> p" for p by (rule where_is_after[OF bspec[OF as] that])
  show "where_is h (as @ zs) p = where_is h zs p" if "s \<le> p" for p
    using a[OF that] by (simp add: where_is_append)
  show "where_is h ds p = where_is h (as @ ds) p" if "e \<le> p" for p
    using a[of p] se that by (simp add: where_is_append)
qed (use se in simp)

lemma found_correct:
  assumes st: "stage h i [] zs xs" and o: "ordered h xs" "ordered h zs" and ne: "xs \<noteq> []"
    and zs: "\<forall>z \<in> set zs. starts_at h s z \<and> ends_by h e z" and se: "s < e" and av: "0 < avail h"
  shows "\<exists>h' as us ds. found (ahead h s xs) (beyond h s xs) (first zs NULL) s e h =
      Some (first ds NULL, final NULL as, first (us @ zs) NULL, h') \<and> stage h' i as (us @ zs) ds \<and>
    fits h' (over h s e zs xs) s e as (us @ zs) ds \<and> (as \<noteq> [] \<or> ds \<noteq> []) \<and>
    goes i h (set (zs @ xs)) h' (set (as @ (us @ zs) @ ds)) \<and> avail h \<le> Suc (avail h')"
proof -
  define as bs where "as = ahead h s xs" and "bs = beyond h s xs"
  have xs: "xs = as @ bs" using ahead_beyond[OF o(1), of s] by (simp add: as_def bs_def)
  have st': "stage h i as zs bs" using st xs by (simp add: stage_move)
  from stage_inode[OF st] obtain n where n: "inos h i = Some n" by blast
  have ea: "\<forall>a \<in> set as. ends_by h s a" using not_ends_after[OF o(1), of _ s] by (auto simp: as_def ahead_def)
  have gr: "goes i h (set (zs @ xs)) h (set (as @ ([] @ zs) @ bs))" by (rule goes_refl[OF n]) (auto simp: xs)
  have X: "set (as @ zs @ bs) = set (zs @ xs)" by (auto simp: xs)
  show ?thesis
  proof (cases "bs = [] \<or> starts_at h s (hd bs)")
    case True
    have "\<forall>b \<in> set bs. starts_at h s b"
    proof (cases bs)
      case (Cons d ds)
      with o(1) have od: "ordered h (d # ds)" by (simp add: xs ordered_append)
      from ordered_ext[OF od, of d] obtain x where x: "exts h d = Some x" "proper x" by auto
      have sx: "s \<le> off_f x" using True Cons x(1) by (simp add: starts_at_def)
      have "starts_at h s b" if "b \<in> set ds" for b
        by (rule ordered_starts[OF od x(1) order.trans[OF sx proper_le[OF x(2)]] that])
      with True Cons show ?thesis by simp
    qed simp
    from found_plain[OF st' o(1)[unfolded xs] o(2) ea this zs se] have
      "fits h (over h s e zs xs) s e as zs bs" by (simp add: xs)
    moreover have "found as bs (first zs NULL) s e h = Some (first bs NULL, final NULL as, first zs NULL, h)"
      using True by (auto simp: found_def)
    moreover have "as \<noteq> [] \<or> bs \<noteq> []" using ne xs by auto
    ultimately show ?thesis using st' gr
      unfolding as_def[symmetric] bs_def[symmetric]
      by (intro exI[of _ h] exI[of _ as] exI[of _ "[]"] exI[of _ bs]) simp
  next
    case False
    then obtain d ds where bs: "bs = d # ds" "\<not> starts_at h s d" by (cases bs) auto
    note o1 = o(1)[unfolded xs bs(1)]
    note st1 = st'[unfolded bs(1)]
    have fd: "found as bs (first zs NULL) s e h = split_head d (first zs NULL) s e h"
      using bs by (simp add: found_def)
    from ordered_ext[OF o1, of d] obtain x where x: "exts h d = Some x" by auto
    have lt: "off_f x < s" using bs(2) x by (simp add: starts_at_def not_le)
    have "d \<in> set bs" using bs(1) by simp
    then have gt: "s < off_f x + len x" using x by (simp add: bs_def beyond_def ends_after_def)
    note R = stage_resize(2)[OF st1, unfolded append_assoc]
    have dX: "set (as @ zs @ d # ds) = set (zs @ xs)" using X bs(1) by simp
    have xx: "as @ d # ds = xs" using xs bs(1) by simp
    note G = as_def[symmetric] bs_def[symmetric] fd
    consider (cut) "off_f x + len x \<le> e"
      | (merge) z zs' a where "e < off_f x + len x" "zs = z # zs'" "exts h z = Some a" "dobj x = dobj a"
        "off_do x + (s - off_f x) = off_do a" "s = off_f a"
      | (new) "e < off_f x + len x" "\<forall>a. zs \<noteq> [] \<longrightarrow> exts h (hd zs) = Some a \<longrightarrow>
          \<not> (dobj x = dobj a \<and> off_do x + (s - off_f x) = off_do a \<and> s = off_f a)"
    proof (cases "e < off_f x + len x")
      case True
      show ?thesis
      proof (cases "\<exists>z zs' a. zs = z # zs' \<and> exts h z = Some a \<and> dobj x = dobj a \<and>
          off_do x + (s - off_f x) = off_do a \<and> s = off_f a")
        case False
        show ?thesis by (rule new[OF True]) (use False in \<open>cases zs; auto\<close>)
      qed (use merge[OF True] in blast)
    qed (use cut in \<open>simp add: not_less\<close>)
    then show ?thesis
    proof cases
      case cut
      note C = split_head_cut[OF st1 o1 o(2) ea zs x lt gt cut, unfolded xx]
      let ?h = "mod_ext d (\<lambda>e. e\<lparr>len := s - off_f x\<rparr>) h"
      have "resizes (\<lambda>e. e\<lparr>len := s - off_f x\<rparr>)" by (simp add: resizes_def tlinks_def rlinks_def)
      from R[OF this, of d] have "goes i h (set (zs @ xs)) ?h (set (zs @ xs))"
        unfolding dX by (simp flip: xx)
      moreover have "set ((as @ [d]) @ ([] @ zs) @ ds) = set (zs @ xs)" using dX by auto
      ultimately have "goes i h (set (zs @ xs)) ?h (set ((as @ [d]) @ ([] @ zs) @ ds))" by simp
      with C show ?thesis unfolding G
        by (intro exI[of _ ?h] exI[of _ "as @ [d]"] exI[of _ "[]"] exI[of _ ds]) simp
    next
      case (merge z zs' a)
      let ?f = "\<lambda>b. b\<lparr>off_f := off_f x, off_do := off_do x, len := len b + (s - off_f x)\<rparr>"
      note M = split_head_merge[OF st1[unfolded merge(2)] o1 o(2)[unfolded merge(2)] ea zs[unfolded merge(2)] x
          lt se merge(1,3-6), unfolded xx]
      have "resizes ?f" by (simp add: resizes_def tlinks_def rlinks_def)
      from R[OF this, of z] merge(2) have "goes i h (set (zs @ xs)) (mod_ext z ?f h) (set (zs @ xs))"
        unfolding dX by simp
      moreover have "set (as @ ([] @ zs) @ d # ds) = set (zs @ xs)" using dX by simp
      ultimately have "goes i h (set (zs @ xs)) (mod_ext z ?f h) (set (as @ ([] @ zs) @ d # ds))" by simp
      with M merge(2) show ?thesis unfolding G
        by (intro exI[of _ "mod_ext z ?f h"] exI[of _ as] exI[of _ "[]"] exI[of _ "d # ds"]) simp
    next
      case new
      from split_head_new[OF st1 o1 o(2) ea zs x lt se new(1,2) av] obtain h' p where h':
        "split_head d (first zs NULL) s e h = Some (d, final NULL as, p, h')"
        "stage h' i as (p # zs) (d # ds)" "fits h' (over h s e zs (as @ d # ds)) s e as (p # zs) (d # ds)"
        "goes i h (set (as @ zs @ d # ds)) h' (set (as @ (p # zs) @ d # ds))" "avail h' = avail h - 1"
        by blast
      show ?thesis unfolding G
        using h'(1,2,5) h'(3)[unfolded xx] h'(4)[unfolded dX]
        by (intro exI[of _ h'] exI[of _ as] exI[of _ "[p]"] exI[of _ "d # ds"]) simp
    qed
  qed
qed

section \<open>Merging two extents\<close>

lemma merged:
  assumes o: "ordered h (us @ a # b # vs)" and di: "distinct (us @ a # b # vs)"
    and x: "exts h a = Some x" "exts h b = Some y" "dobj x = dobj y" "off_f x + len x = off_f y"
      "off_do x + len x = off_do y"
  defines "h' \<equiv> mod_ext a (\<lambda>e. e\<lparr>len := len e + len y\<rparr>) h"
  shows "ordered h' (us @ a # vs)" "where_is h' (us @ a # vs) p = where_is h (us @ a # b # vs) p"
    "ends_by h' q a = ends_by h q b" "c \<noteq> a \<Longrightarrow> view h' c = view h c"
proof -
  have v: "view h' c = view h c" if "c \<noteq> a" for c using that by (simp add: h'_def view_def)
  then show "c \<noteq> a \<Longrightarrow> view h' c = view h c" .
  have vu: "view h' c = view h c" if "c \<in> set us" for c using that di by (intro v) auto
  have vv: "view h' c = view h c" if "c \<in> set vs" for c using that di by (intro v) auto
  obtain z where z: "exts h' a = Some z" "off_f z = off_f x" "off_f z + len z = off_f y + len y"
      "dobj z = dobj x" "off_do z = off_do x"
    using x(1,4) by (simp add: h'_def add.assoc[symmetric])
  have ou: "ordered h us" "ordered h vs" "proper x" "proper y" "\<And>c. c \<in> set us \<Longrightarrow> precedes h c a"
    "\<And>c. c \<in> set vs \<Longrightarrow> precedes h b c" "\<And>c d. c \<in> set us \<Longrightarrow> d \<in> set vs \<Longrightarrow> precedes h c d"
    using o x(1,2) by (auto simp: ordered_append ordered_Cons)
  have lt: "off_f x < off_f y" "off_f y < off_f y + len y" using ou(3,4) x(4) by (simp_all add: proper_def)
  then have pz: "proper z" unfolding proper_def z(3) unfolding z(2) by (rule less_trans)
  have ex: "exts h' c = exts h c" if "c \<noteq> a" for c using that by (simp add: h'_def)
  have na: "c \<noteq> a" if "c \<in> set us \<union> set vs" for c using that di by auto
  have "precedes h' c a" if "c \<in> set us" for c
    using ou(5)[OF that] ex[of c] na that z(1,2) x(1) by (simp add: precedes_bounds)
  moreover have "precedes h' a c" if "c \<in> set vs" for c
    using ou(6)[OF that] ex[of c] na that z(1,3) x(2) by (simp add: precedes_bounds)
  moreover have "precedes h' c d" if "c \<in> set us" "d \<in> set vs" for c d
    using ou(7)[OF that] view_precedes[OF vu[OF that(1)] vv[OF that(2)]] by simp
  moreover have "ordered h' us" "ordered h' vs"
    using ou(1,2) ordered_view[of us h' h, OF vu] ordered_view[of vs h' h, OF vv] by simp_all
  ultimately show "ordered h' (us @ a # vs)" using z(1) pz by (auto simp: ordered_append ordered_Cons)
  show "ends_by h' q a = ends_by h q b" using z(1,3) x(2) by (simp add: ends_by_def)
  have cv: "covers h' p a \<longleftrightarrow> covers h p a \<or> covers h p b"
    using lt z(1-3) x(1,2,4) unfolding covers_def by auto
  have pa: "place_in h' a p = place_in h a p"
    using z(1,2,4,5) x(1) by (simp add: place_in_def h'_def split: option.splits)
  have "off_do y + (p - off_f y) = off_do x + (p - off_f x)"
    unfolding x(4)[symmetric] x(5)[symmetric] by simp
  then have pb: "place_in h b p = place_in h a p" using x(1-3) by (simp add: place_in_def split: option.splits)
  show "where_is h' (us @ a # vs) p = where_is h (us @ a # b # vs) p"
    using where_is_view[of us h' h p, OF vu] where_is_view[of vs h' h p, OF vv] cv pa pb
    by (simp add: where_is_append where_is_Cons split: option.splits)
qed

lemma merge_last_correct:
  assumes st: "stage h i xs [] []" and o: "ordered h xs" and tl: "tail = NULL \<or> tail \<in> set xs"
  shows "\<exists>h' ys. merge_last tail h = Some h' \<and> stage h' i ys [] [] \<and> ordered h' ys \<and>
    (\<forall>p. where_is h' ys p = where_is h xs p) \<and> goes i h (set xs) h' (set ys) \<and> avail h' = avail h"
proof -
  from stage_inode[OF st] obtain n where n: "inos h i = Some n" by blast
  have plain: ?thesis if "merge_last tail h = Some h"
    using that st o goes_refl[OF n order_refl, of "set xs"] by (intro exI[of _ h] exI[of _ xs]) simp
  show ?thesis
  proof (cases "tail = NULL")
    case False
    with tl obtain us vs where xs: "xs = us @ tail # vs" by (auto dest: split_list)
    from st obtain t where t: "layout h i t" "inorder t = us @ tail # vs" and di: "distinct (us @ tail # vs)"
      by (auto simp: stage_def xs)
    from ordered_ext[OF o, of tail] xs obtain x where x: "exts h tail = Some x" by auto
    have nx: "next_e x = first vs NULL"
      using dll_next[of prev_e next_e h NULL us tail vs NULL] t x by (simp add: layout_def fld_def)
    show ?thesis
    proof (cases vs)
      case (Cons b ws)
      have "b \<in> set xs" using xs Cons by simp
      from ordered_ext[OF o this] obtain y where y: "exts h b = Some y" by blast
      have b: "b \<noteq> NULL" using layout_not_NULL[OF t(1)] t(2) Cons by auto
      note U = merge_last_def x False nx Cons y b
      show ?thesis
      proof (cases "dobj x = dobj y \<and> off_f x + len x = off_f y \<and> off_do x + len x = off_do y")
        case True
        define h1 where "h1 = mod_ext tail (\<lambda>e. e\<lparr>len := len e + len y\<rparr>) h"
        have rs: "resizes (\<lambda>e. e\<lparr>len := len e + len y\<rparr>)" by (simp add: resizes_def tlinks_def rlinks_def)
        have st1: "stage h i (us @ [tail]) [] (b # ws)" using st by (auto simp: stage_def xs Cons Un_ac)
        note R = stage_resize[OF st1 rs, of tail, folded h1_def]
        note M = merged[OF o[unfolded xs Cons] di[unfolded Cons] x y, folded h1_def]
        from remove_extent_stage[OF R(1), of True] obtain h' where h': "remove_extent b True h1 = Some h'"
          "stage h' i (us @ [tail]) [] ws" "\<forall>a \<in> set ((us @ [tail]) @ [] @ ws). view h' a = view h1 a"
          "goes i h1 (set ((us @ [tail]) @ [] @ b # ws)) h' (set ((us @ [tail]) @ [] @ ws))" "avail h' = avail h1"
          by auto
        have v: "view h' a = view h1 a" if "a \<in> set (us @ tail # ws)" for a using h'(3) that by auto
        have "merge_last tail h = Some h'" using True h'(1)
          by (simp add: U h1_def upd_ext_eval valid_SomeI[OF x])
        moreover have "stage h' i (us @ tail # ws) [] []" using h'(2) by (auto simp: stage_def Un_ac)
        moreover have "ordered h' (us @ tail # ws)"
          using M(1) True ordered_view[of "us @ tail # ws" h' h1, OF v] by simp
        moreover have "where_is h' (us @ tail # ws) p = where_is h xs p" for p
          using M(2)[of p] True where_is_view[of "us @ tail # ws" h' h1, OF v] by (simp add: xs Cons)
        moreover have "goes i h (set xs) h' (set (us @ tail # ws))"
          using goes_trans[OF R(2) h'(4)] by (simp add: xs Cons)
        moreover have "avail h' = avail h" using h'(5) by (simp add: h1_def)
        ultimately show ?thesis by blast
      qed (intro plain, auto simp: U)
    qed (intro plain, use x nx False in \<open>simp add: merge_last_def\<close>)
  qed (intro plain, simp add: merge_last_def)
qed

lemma merge_first_correct:
  assumes st: "stage h i as zs ds" and f: "fits h M s e as zs ds" and tl: "tail = NULL \<or> tail \<in> set (as @ zs)"
  shows "\<exists>h' zs' tail'. merge_first (final NULL as) (first zs NULL) tail h = Some (first zs' NULL, tail', h') \<and>
    stage h' i as zs' ds \<and> fits h' M s e as zs' ds \<and> (tail' = NULL \<or> tail' \<in> set (as @ zs')) \<and>
    goes i h (set (as @ zs @ ds)) h' (set (as @ zs' @ ds)) \<and> avail h' = avail h"
proof -
  from stage_inode[OF st] obtain n where n: "inos h i = Some n" by blast
  have plain: ?thesis if "merge_first (final NULL as) (first zs NULL) tail h = Some (first zs NULL, tail, h)"
    using that st f tl goes_refl[OF n order_refl, of "set (as @ zs @ ds)"]
    by (intro exI[of _ h] exI[of _ zs] exI[of _ tail]) simp
  show ?thesis
  proof (cases "as = [] \<or> zs = []")
    case False
    then obtain us a b vs where l: "as = us @ [a]" "zs = b # vs" by (cases as rule: rev_cases; cases zs) auto
    from st obtain t where t: "layout h i t" "inorder t = as @ ds" and c: "chain h b (b # vs)"
      and di: "distinct (as @ zs @ ds)" by (auto simp: stage_def l)
    have dm: "distinct (us @ a # b # vs)" using di by (auto simp: l)
    have o: "ordered h (us @ a # b # vs)" using f by (simp add: fits_def l)
    from ordered_ext[OF o, of a] obtain x where x: "exts h a = Some x" by auto
    from ordered_ext[OF o, of b] obtain y where y: "exts h b = Some y" by auto
    have nn: "a \<noteq> NULL" "b \<noteq> NULL" using layout_not_NULL[OF t(1)] t(2) c by (auto simp: l)
    have nx: "next_e y = first vs NULL" using c y by (cases vs) (auto simp: fld_def)
    note U = merge_first_def l x y nn
    show ?thesis
    proof (cases "dobj x = dobj y \<and> off_do x + len x = off_do y \<and> off_f x + len x = off_f y")
      case True
      define h1 where "h1 = mod_ext a (\<lambda>e. e\<lparr>len := len e + len y\<rparr>) h"
      have rs: "resizes (\<lambda>e. e\<lparr>len := len e + len y\<rparr>)" by (simp add: resizes_def tlinks_def rlinks_def)
      have "a \<in> set (as @ zs @ ds)" by (simp add: l)
      note R = stage_resize[OF st rs this, folded h1_def]
      note M = merged[OF o dm x y, folded h1_def]
      from R(1) obtain T where T: "layout h1 i T" "inorder T = as @ ds" "owned h1 i (set (as @ zs @ ds))"
        "fresh_ok h1" "chain h1 b (b # vs)" by (auto simp: stage_def l)
      have cv: "chain h1 (first vs NULL) vs" using T(5) by (cases vs) auto
      have X: "set (as @ zs @ ds) = insert b (set (as @ vs @ ds))" by (auto simp: l)
      have db: "distinct (b # as @ vs @ ds)" using di by (auto simp: l)
      from release_stage[OF T(1,2) T(3)[unfolded X] T(4) cv db, of True] obtain h' where h':
        "release_extent b True h1 = Some h'" "stage h' i as vs ds"
        "\<forall>q \<in> set (as @ vs @ ds). view h' q = view h1 q"
        "goes i h1 (set (as @ zs @ ds)) h' (set (as @ vs @ ds))" "avail h' = avail h1"
        unfolding X by auto
      have vm: "view h' q = view h1 q" if "q \<in> set (us @ a # vs)" for q using h'(3) that by (auto simp: l)
      have vd: "view h' q = view h q" if "q \<in> set ds" for q
      proof -
        have "q \<noteq> a" using di that by (auto simp: l)
        with h'(3) that M(4)[of q] True show ?thesis by auto
      qed
      have "merge_first (final NULL as) (first zs NULL) tail h =
          Some (first vs NULL, if b = tail then a else tail, h')"
        using True h'(1) by (simp add: U h1_def upd_ext_eval valid_SomeI[OF x] Let_def nx)
      moreover have "fits h' M s e as vs ds"
      proof -
        have "ordered h' (us @ a # vs)" using M(1) True ordered_view[of "us @ a # vs" h' h1, OF vm] by simp
        moreover have "ordered h' ds" using f ordered_view[of ds h' h, OF vd] by (simp add: fits_def)
        moreover have "ends_by h' e q" if "q \<in> set (us @ a # vs)" for q
        proof (cases "q = a")
          case True
          with M(3)[of e] \<open>dobj x = dobj y \<and> _\<close> f view_bounds(1)[OF vm[OF that]] show ?thesis by (simp add: fits_def l)
        next
          case False
          with that f have "ends_by h e q" by (auto simp: fits_def l)
          with view_bounds(1)[OF M(4)[OF _ _ _ False]] True view_bounds(1)[OF vm[OF that]] show ?thesis by simp
        qed
        moreover have "ends_after h' s q" if "q \<in> set ds" for q
          using f view_cong(3)[OF vd[OF that]] that by (simp add: fits_def)
        moreover have "where_is h' (us @ a # vs) p = where_is h (us @ a # b # vs) p" for p
          using M(2)[of p] True where_is_view[of "us @ a # vs" h' h1, OF vm] by simp
        moreover have "where_is h' ds p = where_is h ds p" for p by (rule where_is_view[OF vd])
        ultimately show ?thesis using f by (simp add: fits_def l)
      qed
      moreover have "(if b = tail then a else tail) = NULL \<or> (if b = tail then a else tail) \<in> set (as @ vs)"
        using tl by (auto simp: l)
      moreover have "goes i h (set (as @ zs @ ds)) h' (set (as @ vs @ ds))" by (rule goes_trans[OF R(2) h'(4)])
      moreover have "avail h' = avail h" using h'(5) by (simp add: h1_def)
      ultimately show ?thesis using h'(2) by blast
    qed (intro plain, auto simp: U)
  qed (intro plain, auto simp: merge_first_def)
qed

section \<open>The phases together\<close>

text \<open>The phases of \<^verbatim>\<open>replace\<close> after the search.\<close>

definition phases :: "addr \<Rightarrow> addr \<Rightarrow> addr \<Rightarrow> addr \<Rightarrow> sz \<Rightarrow> sz \<Rightarrow> store \<Rightarrow> store option" where
  "phases dh tor alts tail s e h = do {
      (alts, tail, h) \<leftarrow> merge_first tor alts tail h;
      (alts, tor, tol, h) \<leftarrow> overwrite dh alts tor s e h;
      h \<leftarrow> insert_rest alts tor tol h;
      merge_last tail h }"

lemma replace_unfold:
  "replace i alts tail s e h = do {
     ensure (s < e);
     n \<leftarrow> inos h i;
     (if flayout n = NULL \<and> alts = NULL then Some h
      else do {
        (alts, s, h) \<leftarrow> (if flayout n = NULL then replace_root i alts s h else Some (alts, s, h));
        n \<leftarrow> inos h i;
        (dh, tor, alts, h) \<leftarrow> find_first (flayout n) alts s e h;
        phases dh tor alts tail s e h }) }"
  unfolding replace_def phases_def by (rule refl)

lemma phases_correct:
  assumes st: "stage h i as zs ds" and f: "fits h M s e as zs ds" and ne: "as \<noteq> [] \<or> ds \<noteq> []"
    and tl: "tail = NULL \<or> tail \<in> set (as @ zs)"
  shows "\<exists>h' ys. phases (first ds NULL) (final NULL as) (first zs NULL) tail s e h = Some h' \<and>
    stage h' i ys [] [] \<and> ordered h' ys \<and> (\<forall>p. where_is h' ys p = M p) \<and>
    goes i h (set (as @ zs @ ds)) h' (set ys) \<and> avail h' = avail h"
proof -
  from merge_first_correct[OF st f tl] obtain h1 zs1 tail1 where h1:
    "merge_first (final NULL as) (first zs NULL) tail h = Some (first zs1 NULL, tail1, h1)"
    "stage h1 i as zs1 ds" "fits h1 M s e as zs1 ds" "tail1 = NULL \<or> tail1 \<in> set (as @ zs1)"
    "goes i h (set (as @ zs @ ds)) h1 (set (as @ zs1 @ ds))" "avail h1 = avail h" by blast
  from ne have "as \<noteq> [] \<or> ds \<noteq> [] \<or> zs1 = []" by blast
  from overwrite_correct[OF h1(2,3) this] obtain h2 as' zs' ds' where h2:
    "overwrite (first ds NULL) (first zs1 NULL) (final NULL as) s e h1 =
      Some (first zs' NULL, final NULL as', first ds' NULL, h2)"
    "stage h2 i as' zs' ds'" "fits h2 M s e as' zs' ds'" "\<forall>d \<in> set ds'. starts_at h2 e d"
    "as' \<noteq> [] \<or> ds' \<noteq> [] \<or> zs' = []" "as' @ zs' = as @ zs1"
    "goes i h1 (set (as @ zs1 @ ds)) h2 (set (as' @ zs' @ ds'))" "avail h2 = avail h1" by blast
  from insert_rest_stage[OF h2(2,5)] obtain h3 where h3:
    "insert_rest (first zs' NULL) (final NULL as') (first ds' NULL) h2 = Some h3"
    "stage h3 i (as' @ zs' @ ds') [] []" "\<forall>a. view h3 a = view h2 a"
    "goes i h2 (set (as' @ zs' @ ds')) h3 (set (as' @ zs' @ ds'))" "avail h3 = avail h2" by blast
  have eb: "\<And>a. a \<in> set (as' @ zs') \<Longrightarrow> ends_by h2 e a" using h2(3) by (simp add: fits_def)
  have v: "view h3 a = view h2 a" for a using h3(3) by simp
  have "ordered h2 ((as' @ zs') @ ds')"
    by (rule ordered_joined[of _ _ _ e]) (use h2(3,4) eb in \<open>auto simp: fits_def\<close>)
  then have o: "ordered h3 (as' @ zs' @ ds')" using ordered_view[of "as' @ zs' @ ds'" h3 h2, OF v] by simp
  have w: "where_is h3 (as' @ zs' @ ds') p = M p" for p
  proof -
    have "where_is h3 (as' @ zs' @ ds') p = where_is h2 ((as' @ zs') @ ds') p"
      using where_is_view[of "as' @ zs' @ ds'" h3 h2, OF v] by simp
    also have "\<dots> = M p"
    proof (cases "p < e")
      case True
      have "where_is h2 ds' p = None" by (rule where_is_before[OF _ True]) (use h2(4) in simp)
      with True h2(3) show ?thesis
        unfolding where_is_append[of h2 "as' @ zs'"] by (simp add: fits_def split: option.splits)
    next
      case False
      then have "e \<le> p" by (simp add: not_less)
      have "where_is h2 (as' @ zs') p = None" by (rule where_is_after[OF eb \<open>e \<le> p\<close>])
      with \<open>e \<le> p\<close> h2(3) show ?thesis
        unfolding where_is_append[of h2 "as' @ zs'"] by (simp add: fits_def)
    qed
    finally show ?thesis .
  qed
  have "tail1 = NULL \<or> tail1 \<in> set (as' @ zs' @ ds')" using h1(4) h2(6) by (metis UnI1 append_assoc set_append)
  from merge_last_correct[OF h3(2) o this] obtain h' ys where h':
    "merge_last tail1 h3 = Some h'" "stage h' i ys [] []" "ordered h' ys"
    "\<forall>p. where_is h' ys p = where_is h3 (as' @ zs' @ ds') p"
    "goes i h3 (set (as' @ zs' @ ds')) h' (set ys)" "avail h' = avail h3" by blast
  have "goes i h (set (as @ zs @ ds)) h' (set ys)"
    by (rule goes_trans[OF h1(5) goes_trans[OF h2(7) goes_trans[OF h3(4) h'(5)]]])
  moreover have "avail h' = avail h" using h'(6) h3(5) h2(8) h1(6) by simp
  ultimately show ?thesis using h1(1) h2(1) h3(1) h'(1,2,3,4) w by (auto simp: phases_def)
qed

text \<open>The start on an empty layout.\<close>

lemma replace_root_stage:
  assumes st: "stage h i [] (z # zs) []" and x: "exts h z = Some x"
  shows "\<exists>h'. replace_root i z s h = Some (first zs NULL, off_f x + len x, h') \<and> stage h' i [z] zs [] \<and>
    (\<forall>a. view h' a = view h a) \<and> goes i h (set (z # zs)) h' (set (z # zs)) \<and> avail h' = avail h \<and>
    (\<exists>x'. exts h' z = Some x' \<and> off_f x' = off_f x \<and> len x' = len x \<and> left x' = NULL \<and> right x' = NULL \<and>
      next_e x' = NULL) \<and> map_option flayout (inos h' i) = Some z"
proof -
  let ?X = "set ([] @ (z # zs) @ [])"
  from st obtain t where t: "layout h i t" "inorder t = []" and o: "owned h i ?X" and fr: "fresh_ok h"
    and c: "chain h z (z # zs)" and di: "distinct (z # zs)" by (auto simp: stage_def)
  from o obtain n where n: "inos h i = Some n" by (auto simp: owned_def)
  from c obtain m where m: "z \<noteq> NULL" "fresh_ext h z" "fld next_e h z = Some m" "chain h m zs" by auto
  have nx: "next_e x = first zs NULL" "first zs NULL = m" using m(3,4) x by (cases zs; simp add: fld_def)+
  have fz: "left x = NULL" "right x = NULL" "depth x = 1" "parent x = NULL" "prev_e x = NULL"
    using m(2) x by (auto simp: fresh_ext_def)
  define h' where "h' = mod_ext z (\<lambda>e. e\<lparr>next_e := NULL, pivot := SFlayout i\<rparr>) (mod_ino i (\<lambda>n. n\<lparr>flayout := z\<rparr>) h)"
  have ev: "replace_root i z s h = Some (first zs NULL, off_f x + len x, h')"
    using x n nx valid_SomeI[OF x] by (simp add: replace_root_def h'_def upd_ino_def mod_ino_def upd_ext_def mod_ext_def)
  have ex: "exts h' a = exts h a" if "a \<noteq> z" for a using that by (simp add: h'_def)
  have N: "null_ok h'" using fresh_null_ok[OF fr] by (simp add: h'_def)
  have "layout h' i (Bin Tip z 1 Tip)"
    using x n fz m(1) N by (simp add: layout_def focus_def tnode_def h'_def fld_def)
  moreover have "owned h' i ?X"
    by (rule owned_cong[OF _ _ _ o]) (simp_all add: h'_def rlinks_def option.map_comp comp_def x)
  moreover have "fresh_ok h'" by (rule fresh_ok_cong[OF fr]) (simp_all add: h'_def split: if_splits)
  moreover have "chain h' (first zs NULL) zs"
  proof -
    have "chain h' m zs = chain h m zs"
    proof (rule chain_tlinks)
      fix a assume "a \<in> set zs"
      then have "a \<noteq> z" using di by auto
      then show "map_option tlinks (exts h' a) = map_option tlinks (exts h a)" by (simp add: ex)
    qed
    with m(4) nx(2) show ?thesis by simp
  qed
  ultimately have "stage h' i [z] zs []" using di unfolding stage_def by (intro conjI exI[of _ "Bin Tip z 1 Tip"]) simp_all
  moreover have "view h' a = view h a" for a by (simp add: h'_def view_def option.map_comp comp_def)
  moreover have "goes i h (set (z # zs)) h' (set (z # zs))"
  proof -
    have "h' = h\<lparr>exts := exts h', dobs := dobs h', inos := inos h', brk := brk h', avail := avail h',
       dos_log := dos_log h'\<rparr>" by (simp add: h'_def mod_ext_def mod_ino_def)
    then have "file_change i (set (z # zs)) (set (do_map n)) h h'"
      using n by (auto simp: file_change_def h'_def inode_rest_def)
    then show ?thesis using n by (auto simp: goes_def h'_def)
  qed
  moreover have "\<exists>x'. exts h' z = Some x' \<and> off_f x' = off_f x \<and> len x' = len x \<and> left x' = NULL \<and> right x' = NULL \<and>
      next_e x' = NULL" using x fz by (simp add: h'_def)
  moreover have "map_option flayout (inos h' i) = Some z" using n by (simp add: h'_def)
  moreover have "avail h' = avail h" by (simp add: h'_def)
  ultimately show ?thesis using ev by blast
qed

section \<open>replace\<close>

text \<open>New extents for a range: in order, and inside it.\<close>

definition covers_range :: "store \<Rightarrow> addr list \<Rightarrow> sz \<Rightarrow> sz \<Rightarrow> bool" where
  "covers_range h zs s e \<longleftrightarrow> ordered h zs \<and> (\<forall>z \<in> set zs. starts_at h s z \<and> ends_by h e z)"

lemma replace_empty:
  assumes st: "stage h i [] zs []" and cr: "covers_range h zs s e" and se: "s < e"
  shows "\<exists>h' ys. replace i (first zs NULL) (final NULL zs) s e h = Some h' \<and> stage h' i ys [] [] \<and>
    ordered h' ys \<and> (\<forall>p. where_is h' ys p = over h s e zs [] p) \<and>
    goes i h (set zs) h' (set ys) \<and> avail h' = avail h"
proof -
  from st obtain t where t: "layout h i t" "inorder t = []" by (auto simp: stage_def)
  have tt: "t = Tip" using t(2) by (cases t) auto
  from t(1) obtain n where n: "inos h i = Some n" "flayout n = NULL"
    by (auto simp: tt layout_def focus_def)
  have z: "ordered h zs" "\<And>z. z \<in> set zs \<Longrightarrow> starts_at h s z" "\<And>z. z \<in> set zs \<Longrightarrow> ends_by h e z"
    using cr by (auto simp: covers_range_def)
  have M: "over h s e zs [] p = where_is h zs p" for p
    using where_is_before[OF z(2), of zs p] where_is_after[OF z(3), of zs p] by (auto simp: over_def not_le not_less)
  show ?thesis
  proof (cases zs)
    case Nil
    then show ?thesis using st n se goes_refl[OF n(1), of "{}" "{}"] M
      by (intro exI[of _ h] exI[of _ "[]"]) (simp add: replace_def)
  next
    case (Cons y ys)
    from ordered_ext[OF z(1), of y] Cons obtain x where x: "exts h y = Some x" "proper x" by auto
    from replace_root_stage[OF st[unfolded Cons] x(1), of s] obtain h1 x' where h1:
      "replace_root i y s h = Some (first ys NULL, off_f x + len x, h1)" "stage h1 i [y] ys []"
      "\<And>a. view h1 a = view h a" "goes i h (set (y # ys)) h1 (set (y # ys))" "avail h1 = avail h"
      "exts h1 y = Some x'" "off_f x' = off_f x" "len x' = len x" "left x' = NULL" "right x' = NULL"
      "next_e x' = NULL" "map_option flayout (inos h1 i) = Some y" by blast
    have y: "y \<noteq> NULL" using st Cons by (simp add: stage_def)
    have eq: "off_f x \<noteq> off_f x + len x" "\<not> off_f x + len x < off_f x"
      using x(2) unfolding proper_def by (metis less_irrefl, metis less_asym)
    have ff: "find_first y (first ys NULL) (off_f x + len x) e h1 = Some (NULL, y, first ys NULL, h1)"
      using h1(6-11) y eq by (subst find_first.simps) (simp add: Let_def)
    have oz: "ordered h1 zs" using z(1) ordered_view[of zs h1 h] h1(3) by simp
    have wz: "where_is h1 zs p = where_is h zs p" for p by (rule where_is_view) (rule h1(3))
    have ez: "ends_by h1 e a" if "a \<in> set zs" for a using z(3)[OF that] view_bounds(1)[OF h1(3)] by simp
    have "fits h1 (over h s e zs []) (off_f x + len x) e [y] ys []"
      unfolding fits_def using oz wz ez M where_is_after[OF z(3), of zs]
      by (simp add: Cons)
    moreover have "final NULL zs = NULL \<or> final NULL zs \<in> set ([y] @ ys)"
      by (cases zs rule: rev_cases) (auto simp: Cons[symmetric])
    ultimately obtain h' us where h':
      "phases NULL y (first ys NULL) (final NULL zs) (off_f x + len x) e h1 = Some h'" "stage h' i us [] []"
      "ordered h' us" "\<forall>p. where_is h' us p = over h s e zs [] p" "goes i h1 (set (y # ys)) h' (set us)"
      "avail h' = avail h1"
      using phases_correct[OF h1(2), of "over h s e zs []" "off_f x + len x" e "final NULL zs"] by auto
    obtain n1 where n1: "inos h1 i = Some n1" "flayout n1 = y" using h1(12) by auto
    have "replace i (first zs NULL) (final NULL zs) s e h = Some h'"
      using se n y h1(1) n1 ff h'(1) by (simp add: replace_unfold Cons)
    moreover have "goes i h (set zs) h' (set us)" using goes_trans[OF h1(4) h'(5)] by (simp add: Cons)
    ultimately show ?thesis using h'(2-4,6) h1(5) by auto
  qed
qed

lemma replace_correct:
  assumes st: "stage h i [] zs xs" and o: "ordered h xs" and cr: "covers_range h zs s e" and se: "s < e"
    and av: "0 < avail h"
  shows "\<exists>h' ys. replace i (first zs NULL) (final NULL zs) s e h = Some h' \<and> stage h' i ys [] [] \<and>
    ordered h' ys \<and> (\<forall>p. where_is h' ys p = over h s e zs xs p) \<and>
    goes i h (set (zs @ xs)) h' (set ys) \<and> avail h \<le> Suc (avail h')"
proof (cases "xs = []")
  case True
  from replace_empty[OF st[unfolded True] cr se] obtain h' ys where
    "replace i (first zs NULL) (final NULL zs) s e h = Some h'" "stage h' i ys [] []"
    "ordered h' ys" "\<forall>p. where_is h' ys p = over h s e zs [] p"
    "goes i h (set zs) h' (set ys)" "avail h' = avail h" by blast
  with True show ?thesis by (intro exI[of _ h'] exI[of _ ys]) simp
next
  case False
  from st obtain t where t: "layout h i t" "inorder t = xs" by (auto simp: stage_def)
  have tt: "t \<noteq> Tip" using t(2) False by auto
  from t(1) obtain n where n: "inos h i = Some n" "flayout n = root t" by (auto simp: layout_def focus_def)
  have "root t \<noteq> NULL"
  proof -
    have "root t \<in> set xs" using t(2) tt by (cases t) auto
    with layout_not_NULL[OF t(1)] t(2) show ?thesis by metis
  qed
  note N = n this
  have z: "ordered h zs" "\<forall>z \<in> set zs. starts_at h s z \<and> ends_by h e z" using cr by (auto simp: covers_range_def)
  from found_correct[OF st o z(1) False z(2) se av] obtain h1 as us ds where h1:
    "found (ahead h s xs) (beyond h s xs) (first zs NULL) s e h =
      Some (first ds NULL, final NULL as, first (us @ zs) NULL, h1)"
    "stage h1 i as (us @ zs) ds" "fits h1 (over h s e zs xs) s e as (us @ zs) ds" "as \<noteq> [] \<or> ds \<noteq> []"
    "goes i h (set (zs @ xs)) h1 (set (as @ (us @ zs) @ ds))" "avail h \<le> Suc (avail h1)" by blast
  have "final NULL zs = NULL \<or> final NULL zs \<in> set (as @ us @ zs)" by (cases zs rule: rev_cases) auto
  from phases_correct[OF h1(2-4) this] obtain h' ys where h':
    "phases (first ds NULL) (final NULL as) (first (us @ zs) NULL) (final NULL zs) s e h1 = Some h'"
    "stage h' i ys [] []" "ordered h' ys" "\<forall>p. where_is h' ys p = over h s e zs xs p"
    "goes i h1 (set (as @ (us @ zs) @ ds)) h' (set ys)" "avail h' = avail h1" by blast
  have "find_first (root t) (first zs NULL) s e h =
      Some (first ds NULL, final NULL as, first (us @ zs) NULL, h1)"
    using find_first_correct[OF t(1) _ tt] t(2) o h1(1) by simp
  then have "replace i (first zs NULL) (final NULL zs) s e h = Some h'"
    using N se h'(1) by (simp add: replace_unfold)
  moreover have "goes i h (set (zs @ xs)) h' (set ys)" by (rule goes_trans[OF h1(5) h'(5)])
  ultimately show ?thesis using h'(2-4,6) h1(6) by auto
qed

end
