(* ===== verification/File_Correct.thy ===== *)
theory File_Correct
  imports Replace_Map
begin

text \<open>
  What the operations on a file do to its map, for any file whose layout is well formed: the
  extents are linked into a balanced tree and a list in the order of their offsets, they do not
  overlap, they end inside the file, and they are on the reference lists of the data objects of
  the inode's table.
\<close>

section \<open>A well formed file\<close>

definition file_ok :: "store \<Rightarrow> addr \<Rightarrow> addr list \<Rightarrow> bool" where
  "file_ok h i xs \<longleftrightarrow> stage h i [] [] xs \<and> ordered h xs \<and>
     (\<exists>n. inos h i = Some n \<and> (\<forall>p. isize n \<le> p \<longrightarrow> where_is h xs p = None))"

lemma stage_all: "stage h i xs [] [] \<longleftrightarrow> stage h i [] [] xs"
  using stage_move[of h i "[]" xs "[]"] by simp

lemma file_ok_bound:
  assumes "file_ok h i xs" "inos h i = Some n" "a \<in> set xs"
  shows "ends_by h (isize n) a"
proof (rule ccontr)
  assume c: "\<not> ends_by h (isize n) a"
  from assms have o: "ordered h xs" and w: "\<And>p. isize n \<le> p \<Longrightarrow> where_is h xs p = None"
    by (auto simp: file_ok_def)
  from ordered_ext[OF o assms(3)] obtain e where e: "exts h a = Some e" "proper e" by blast
  have lt: "isize n < off_f e + len e" using c e(1) by (simp add: ends_by_def not_le)
  define p where "p = max (isize n) (off_f e)"
  have "covers h p a" using e lt by (cases "isize n \<le> off_f e") (auto simp: covers_def p_def proper_def max_def not_le)
  moreover have "where_is h xs p = None" by (rule w) (simp add: p_def)
  ultimately show False using assms(3) by (auto simp: where_is_None)
qed

text \<open>What an operation on one file leaves alone.\<close>

definition edits :: "addr \<Rightarrow> store \<Rightarrow> addr set \<Rightarrow> store \<Rightarrow> addr set \<Rightarrow> bool" where
  "edits i h X h' X' \<longleftrightarrow> (\<exists>n n'. inos h i = Some n \<and> inos h' i = Some n' \<and>
     h' = h\<lparr>exts := exts h', dobs := dobs h', inos := inos h', brk := brk h', avail := avail h',
       dos_log := dos_log h', rx := rx h'\<rparr> \<and> brk h \<le> brk h' \<and>
     (\<forall>a < brk h. a \<notin> X \<longrightarrow> exts h' a = exts h a) \<and>
     (\<forall>d < brk h. d \<notin> set (do_map n) \<longrightarrow> dobs h' d = dobs h d) \<and>
     (\<forall>j. j \<noteq> i \<longrightarrow> inos h' j = inos h j) \<and>
     X' \<inter> {..< brk h} \<subseteq> X \<and> set (do_map n') \<inter> {..< brk h} \<subseteq> set (do_map n))"

lemma goes_edits:
  assumes "goes i h X h' X'" shows "edits i h X h' X'"
proof -
  from assms have e: "h' = h\<lparr>exts := exts h', dobs := dobs h', inos := inos h', brk := brk h', avail := avail h',
       dos_log := dos_log h'\<rparr>" by (auto simp: goes_def file_change_def)
  have "rx h' = rx h" by (subst e) simp
  then have "h\<lparr>exts := exts h', dobs := dobs h', inos := inos h', brk := brk h', avail := avail h',
       dos_log := dos_log h', rx := rx h'\<rparr> = h'" by (subst (7) e) (intro store.equality, simp_all)
  then show ?thesis using assms by (auto simp: goes_def edits_def file_change_def)
qed

lemma goes_inode:
  assumes "goes i h X h' X'" "inos h i = Some n"
  obtains n' where "inos h' i = Some n'" "inode_rest n' = inode_rest n"
  using assms by (auto simp: goes_def file_change_def)

lemma edits_fields:
  assumes "edits i h X h' X'"
  shows "inode_map h' = inode_map h" "with_ms h' = with_ms h" "clock h' = clock h" "tx h' = tx h"
    "self h' = self h" "nodp h' = nodp h" "imlock h' = imlock h" "dos_srv h' = dos_srv h"
proof -
  from assms have eq: "h' = h\<lparr>exts := exts h', dobs := dobs h', inos := inos h', brk := brk h', avail := avail h',
       dos_log := dos_log h', rx := rx h'\<rparr>" unfolding edits_def by blast
  show "inode_map h' = inode_map h" "with_ms h' = with_ms h" "clock h' = clock h" "tx h' = tx h"
    "self h' = self h" "nodp h' = nodp h" "imlock h' = imlock h" "dos_srv h' = dos_srv h" by (subst eq, simp)+
qed

lemma edits_trans:
  assumes "edits i h X h1 X1" "edits i h1 X1 h2 X2"
  shows "edits i h X h2 X2"
proof -
  from assms(1) obtain n n1 where a: "inos h i = Some n" "inos h1 i = Some n1" "brk h \<le> brk h1"
    "h1 = h\<lparr>exts := exts h1, dobs := dobs h1, inos := inos h1, brk := brk h1, avail := avail h1,
       dos_log := dos_log h1, rx := rx h1\<rparr>"
    "\<And>a. a < brk h \<Longrightarrow> a \<notin> X \<Longrightarrow> exts h1 a = exts h a"
    "\<And>d. d < brk h \<Longrightarrow> d \<notin> set (do_map n) \<Longrightarrow> dobs h1 d = dobs h d"
    "\<And>j. j \<noteq> i \<Longrightarrow> inos h1 j = inos h j"
    "X1 \<inter> {..< brk h} \<subseteq> X" "set (do_map n1) \<inter> {..< brk h} \<subseteq> set (do_map n)" by (auto simp: edits_def)
  from assms(2) a(2) obtain n2 where b: "inos h2 i = Some n2" "brk h1 \<le> brk h2"
    "h2 = h1\<lparr>exts := exts h2, dobs := dobs h2, inos := inos h2, brk := brk h2, avail := avail h2,
       dos_log := dos_log h2, rx := rx h2\<rparr>"
    "\<And>a. a < brk h1 \<Longrightarrow> a \<notin> X1 \<Longrightarrow> exts h2 a = exts h1 a"
    "\<And>d. d < brk h1 \<Longrightarrow> d \<notin> set (do_map n1) \<Longrightarrow> dobs h2 d = dobs h1 d"
    "\<And>j. j \<noteq> i \<Longrightarrow> inos h2 j = inos h1 j"
    "X2 \<inter> {..< brk h1} \<subseteq> X1" "set (do_map n2) \<inter> {..< brk h1} \<subseteq> set (do_map n1)" by (auto simp: edits_def)
  have lt: "q < brk h1" if "q < brk h" for q using that a(3) by (rule less_le_trans)
  have "h2 = h\<lparr>exts := exts h2, dobs := dobs h2, inos := inos h2, brk := brk h2, avail := avail h2,
       dos_log := dos_log h2, rx := rx h2\<rparr>" by (subst b(3), subst a(4)) simp
  moreover have "exts h2 q = exts h q" if "q < brk h" "q \<notin> X" for q
    using b(4)[OF lt[OF that(1)]] a(5)[OF that] a(8) that by auto
  moreover have "dobs h2 q = dobs h q" if "q < brk h" "q \<notin> set (do_map n)" for q
    using b(5)[OF lt[OF that(1)]] a(6)[OF that] a(9) that by auto
  moreover have "X2 \<inter> {..< brk h} \<subseteq> X" using a(8) b(7) lt by blast
  moreover have "set (do_map n2) \<inter> {..< brk h} \<subseteq> set (do_map n)" using a(9) b(8) lt by blast
  ultimately show ?thesis using a(1,3,7) b(1,2,6) unfolding edits_def
    by (intro exI[of _ n] exI[of _ n2]) (auto intro: order.trans)
qed

lemma edits_rx:
  assumes "inos h i = Some n" shows "edits i h X (h\<lparr>rx := b\<rparr>) X"
  using assms by (auto simp: edits_def)

text \<open>Fields of the inode that the layout does not depend on.\<close>

definition meta_only :: "(inode \<Rightarrow> inode) \<Rightarrow> bool" where
  "meta_only g \<longleftrightarrow> (\<forall>n. flayout (g n) = flayout n \<and> num_exts (g n) = num_exts n \<and> do_map (g n) = do_map n)"

lemma meta_stage:
  assumes "meta_only g"
  shows "stage (mod_ino i g h) i as zs ds \<longleftrightarrow> stage h i as zs ds"
proof -
  let ?h = "mod_ino i g h"
  have g: "flayout (g n) = flayout n" "num_exts (g n) = num_exts n" "do_map (g n) = do_map n" for n
    using assms by (simp_all add: meta_only_def)
  have m: "map_option flayout (inos ?h i) = map_option flayout (inos h i)"
    by (cases "inos h i") (simp_all add: g)
  have m': "map_option (\<lambda>n. (do_map n, num_exts n)) (inos ?h i) = map_option (\<lambda>n. (do_map n, num_exts n)) (inos h i)"
    by (cases "inos h i") (simp_all add: g)
  have "layout ?h i t = layout h i t" for t by (rule layout_cong[OF _ m]) simp_all
  moreover have "owned ?h i X = owned h i X" for X
    using owned_cong[of X ?h h i] owned_cong[of X h ?h i] m' by auto
  moreover have "fresh_ok ?h = fresh_ok h" by (simp add: fresh_ok_def)
  moreover have "chain ?h a zs = chain h a zs" for a by (rule chain_tlinks) simp
  ultimately show ?thesis by (simp add: stage_def)
qed

lemma meta_view: "view (mod_ino i g h) a = view h a" "ordered (mod_ino i g h) xs = ordered h xs"
  "where_is (mod_ino i g h) xs p = where_is h xs p"
proof -
  show v: "view (mod_ino i g h) a = view h a" for a by (simp add: view_def)
  show "ordered (mod_ino i g h) xs = ordered h xs" by (rule ordered_view) (rule v)
  show "where_is (mod_ino i g h) xs p = where_is h xs p" by (rule where_is_view) (rule v)
qed

lemma meta_edits:
  assumes "meta_only g" "inos h i = Some n"
  shows "edits i h X (mod_ino i g h) X"
proof -
  have "mod_ino i g h = h\<lparr>exts := exts h, dobs := dobs h, inos := inos (mod_ino i g h), brk := brk h,
      avail := avail h, dos_log := dos_log h, rx := rx h\<rparr>" by (simp add: mod_ino_def)
  then show ?thesis using assms by (auto simp: edits_def meta_only_def)
qed

lemma meta_simps [simp]: "meta_only (touch t)" "meta_only (\<lambda>n. n\<lparr>isize := f n\<rparr>)"
  by (simp_all add: meta_only_def touch_def)

section \<open>The other files\<close>

lemma owned_frame:
  assumes o: "owned h j X" "inos h j = Some n" and x: "\<And>a. a \<in> X \<Longrightarrow> exts h' a = exts h a"
    and d: "\<And>d. d \<in> set (do_map n) \<Longrightarrow> dobs h' d = dobs h d" and i: "inos h' j = inos h j"
  shows "owned h' j X"
proof -
  have u: "users h' X d = users h X d" for d using x by (auto simp: users_def fld_def)
  have "dob_ok h' j d rs" if "d \<in> set (do_map n)" "dob_ok h j d rs" "set rs = users h X d" for d rs
  proof -
    have "dob_ok h' j d rs = dob_ok h j d rs"
    proof (rule dob_ok_cong)
      fix a assume "a \<in> set rs"
      with that(3) have "a \<in> X" by (simp add: users_def)
      then show "map_option rlinks (exts h' a) = map_option rlinks (exts h a)" by (simp add: x)
    qed (rule d[OF that(1)])
    with that(2) show ?thesis by simp
  qed
  moreover have "keys_unique (dob_key h') (do_map n) = keys_unique (dob_key h) (do_map n)"
    by (rule keys_unique_cong) (simp add: dob_key_def d)
  moreover have "fld dobj h' a = fld dobj h a" if "a \<in> X" for a using x[OF that] by (simp add: fld_def)
  moreover have "finite X" "num_exts n = of_nat (card X)" "NULL \<notin> set (do_map n)" "keys_unique (dob_key h) (do_map n)"
    "\<And>d. d \<in> set (do_map n) \<Longrightarrow> \<exists>rs. dob_ok h j d rs \<and> set rs = users h X d"
    "\<And>a. a \<in> X \<Longrightarrow> \<exists>d \<in> set (do_map n). fld dobj h a = Some d" using o by (auto simp: owned_def)
  ultimately show ?thesis using i o(2) unfolding owned_def u by simp blast
qed

text \<open>Two files have no extent and no data object in common.\<close>

lemma owned_disjoint:
  assumes "owned h i X" "owned h j Y" "i \<noteq> j" "inos h i = Some n" "inos h j = Some m"
  shows "X \<inter> Y = {}" "set (do_map n) \<inter> set (do_map m) = {}"
proof -
  have d: False if dn: "d \<in> set (do_map n)" and dm: "d \<in> set (do_map m)" for d
  proof -
    obtain rs where "dob_ok h i d rs" by (rule owned_dob[OF assms(1,4) dn])
    moreover obtain rs' where "dob_ok h j d rs'" by (rule owned_dob[OF assms(2,5) dm])
    ultimately show False using assms(3) by (auto simp: dob_ok_def)
  qed
  then show "set (do_map n) \<inter> set (do_map m) = {}" by blast
  show "X \<inter> Y = {}"
  proof (rule ccontr)
    assume "X \<inter> Y \<noteq> {}"
    then obtain a where a: "a \<in> X" "a \<in> Y" by blast
    obtain d where "d \<in> set (do_map n)" "fld dobj h a = Some d"
      using ownedE[OF assms(1) a(1)] assms(4) by (metis option.inject)
    moreover obtain d' where "d' \<in> set (do_map m)" "fld dobj h a = Some d'"
      using ownedE[OF assms(2) a(2)] assms(5) by (metis option.inject)
    ultimately show False using d by simp
  qed
qed

lemma file_frame:
  assumes e: "edits i h X h' X'" and o: "owned h i X" and f: "file_ok h j ys" and ij: "j \<noteq> i" and fr: "fresh_ok h'"
  shows "file_ok h' j ys" "where_is h' ys p = where_is h ys p"
proof -
  from f obtain m t where m: "inos h j = Some m" "layout h j t" "inorder t = ys" "owned h j (set ys)" "fresh_ok h"
    "distinct ys" "ordered h ys" "\<And>p. isize m \<le> p \<Longrightarrow> where_is h ys p = None"
    by (auto simp: file_ok_def stage_def)
  from e obtain n where n: "inos h i = Some n" "\<And>a. a < brk h \<Longrightarrow> a \<notin> X \<Longrightarrow> exts h' a = exts h a"
     "\<And>d. d < brk h \<Longrightarrow> d \<notin> set (do_map n) \<Longrightarrow> dobs h' d = dobs h d" "inos h' j = inos h j"
    using ij by (auto simp: edits_def)
  note D = owned_disjoint[OF o m(4) ij[symmetric] n(1) m(1)]
  have x: "exts h' a = exts h a" if "a \<in> set ys" for a
    by (rule n(2)) (use owned_below(1)[OF m(4,5) that] D(1) that in auto)
  have d: "dobs h' d = dobs h d" if "d \<in> set (do_map m)" for d
    by (rule n(3)) (use owned_dob_below(1)[OF m(4,1,5) that] D(2) that in auto)
  have v: "view h' a = view h a" if a: "a \<in> set ys" for a
  proof -
    from m(4) a m(1) obtain q where "q \<in> set (do_map m)" "fld dobj h a = Some q" by (auto simp: owned_def)
    with d x[OF a] show ?thesis by (auto simp: view_def fld_def)
  qed
  have "layout h' j t"
    using layout_cong[of t h' h j] x m(2,3) n(4) fresh_null_ok[OF fr] fresh_null_ok[OF m(5)] by simp
  moreover have "owned h' j (set ys)" by (rule owned_frame[OF m(4,1) x d n(4)])
  moreover have "ordered h' ys" using m(7) ordered_view[of ys h' h, OF v] by simp
  moreover have w: "where_is h' ys p = where_is h ys p" for p by (rule where_is_view[OF v])
  ultimately show "file_ok h' j ys" using m n(4) fr by (auto simp: file_ok_def stage_def)
  show "where_is h' ys p = where_is h ys p" by (rule w)
qed

text \<open>The files of the inode table.\<close>

definition files_ok :: "store \<Rightarrow> bool" where
  "files_ok h \<longleftrightarrow> (\<forall>i \<in> set (inode_map h). \<exists>xs. file_ok h i xs)"

lemma files_step:
  assumes "files_ok h" "edits i h (set xs) h' X'" "file_ok h i xs" "file_ok h' i ys"
  shows "files_ok h'"
proof -
  note im = edits_fields(1)[OF assms(2)]
  have "\<exists>zs. file_ok h' j zs" if "j \<in> set (inode_map h)" for j
  proof (cases "j = i")
    case False
    from assms(1) that obtain zs where "file_ok h j zs" by (auto simp: files_ok_def)
    with file_frame(1)[OF assms(2) _ this False] assms(3,4) show ?thesis by (auto simp: file_ok_def stage_def)
  qed (use assms(4) in blast)
  then show ?thesis by (simp add: files_ok_def im)
qed

section \<open>pado_write\<close>

lemma goes_rx: "goes i h X h' X' \<Longrightarrow> rx h' = rx h"
proof -
  assume "goes i h X h' X'"
  then have "h' = h\<lparr>exts := exts h', dobs := dobs h', inos := inos h', brk := brk h', avail := avail h',
       dos_log := dos_log h'\<rparr>" by (auto simp: goes_def file_change_def)
  from arg_cong[OF this, of rx] show ?thesis by simp
qed

text \<open>The first extent of a file is linked by \<^verbatim>\<open>pado_write\<close> itself.\<close>

lemma first_extent:
  assumes st: "stage h i [] [a] []" and x: "exts h a = Some x"
  shows "\<exists>h'. do {
      h \<leftarrow> upd_ino i (\<lambda>n. n\<lparr>flayout := a\<rparr>) h;
      upd_ext a (\<lambda>x. x\<lparr>pivot := SFlayout i\<rparr>) h } = Some h' \<and> stage h' i [] [] [a] \<and>
    (\<forall>q. view h' q = view h q) \<and> goes i h {a} h' {a} \<and> avail h' = avail h"
proof -
  from st have "next_e x = NULL" using x by (auto simp: stage_def fld_def)
  then have "x\<lparr>next_e := NULL\<rparr> = x" by (cases x) simp
  then have "mod_ext a (\<lambda>e. e\<lparr>next_e := NULL, pivot := SFlayout i\<rparr>) k = mod_ext a (\<lambda>x. x\<lparr>pivot := SFlayout i\<rparr>) k"
    if "exts k a = Some x" for k using that by (simp add: mod_ext_def)
  then have "replace_root i a 0 h = do { h \<leftarrow> do {
      h \<leftarrow> upd_ino i (\<lambda>n. n\<lparr>flayout := a\<rparr>) h;
      upd_ext a (\<lambda>x. x\<lparr>pivot := SFlayout i\<rparr>) h }; Some (NULL, off_f x + len x, h) }"
    using x \<open>next_e x = NULL\<close> by (cases "inos h i") (auto simp: replace_root_def upd_ino_def upd_ext_def)
  with replace_root_stage[OF st x, of 0] show ?thesis
    by (auto simp: stage_all bind_eq_Some_conv)
qed

lemma inode_rest_simps:
  "inode_rest (n\<lparr>isize := v\<rparr>) = (inode_rest n)\<lparr>isize := v\<rparr>" "inode_rest (touch t n) = touch t (inode_rest n)"
  "isize (inode_rest n) = isize n"
  by (simp_all add: inode_rest_def touch_def)

lemma inode_rest_isize: "inode_rest n = inode_rest m \<Longrightarrow> isize n = isize m"
  by (metis inode_rest_simps(3))

text \<open>One new extent goes into the layout.\<close>

lemma place_one:
  assumes st: "stage h i [] [a] xs" and o: "ordered h xs" and x: "exts h a = Some x" "off_f x = f" "len x = l"
    and lt: "f < f + l" and av: "0 < avail h" and n: "inos h i = Some n"
  shows "\<exists>h' ys. (if flayout n \<noteq> NULL then replace i a a f (f + l) h
      else do {
        h \<leftarrow> upd_ino i (\<lambda>n. n\<lparr>flayout := a\<rparr>) h;
        upd_ext a (\<lambda>x. x\<lparr>pivot := SFlayout i\<rparr>) h }) = Some h' \<and> stage h' i [] [] ys \<and> ordered h' ys \<and>
    (\<forall>p. where_is h' ys p = (if f \<le> p \<and> p < f + l then Some (place_in h a p) else where_is h xs p)) \<and>
    goes i h (set (a # xs)) h' (set ys)"
proof -
  have wa: "where_is h [a] p = (if f \<le> p \<and> p < f + l then Some (place_in h a p) else None)" for p
    using x by (simp add: where_is_Cons covers_def)
  have oa: "ordered h [a]" using x lt by (simp add: ordered_Cons proper_def)
  from st obtain t where t: "layout h i t" "inorder t = xs" by (auto simp: stage_def)
  then have fl: "flayout n = root t" using n by (auto simp: layout_def focus_def)
  show ?thesis
  proof (cases xs)
    case Nil
    with t have "t = Tip" by (cases t) auto
    with fl have "flayout n = NULL" by simp
    moreover from first_extent[OF st[unfolded Nil] x(1)] obtain h' where h':
      "do { h \<leftarrow> upd_ino i (\<lambda>n. n\<lparr>flayout := a\<rparr>) h; upd_ext a (\<lambda>x. x\<lparr>pivot := SFlayout i\<rparr>) h } = Some h'"
      "stage h' i [] [] [a]" "\<And>q. view h' q = view h q" "goes i h {a} h' {a}" by blast
    moreover have "where_is h' [a] p = where_is h [a] p" for p by (rule where_is_view) (rule h'(3))
    moreover have "ordered h' [a]" using oa ordered_view[of "[a]" h' h] h'(3) by simp
    ultimately show ?thesis using Nil wa by (intro exI[of _ h'] exI[of _ "[a]"]) simp
  next
    case (Cons b bs)
    have "t \<noteq> Tip" using t(2) Cons by auto
    then have "root t \<in> set xs" unfolding t(2)[symmetric] by (cases t) auto
    with layout_not_NULL[OF t(1)] t(2) fl have "flayout n \<noteq> NULL" by metis
    moreover have "covers_range h [a] f (f + l)"
      using oa x by (simp add: covers_range_def starts_at_def ends_by_def)
    from replace_correct[OF st o this lt av] obtain h' ys where
      "replace i a a f (f + l) h = Some h'" "stage h' i [] [] ys" "ordered h' ys"
      "\<And>p. where_is h' ys p = over h f (f + l) [a] xs p" "goes i h (set (a # xs)) h' (set ys)" by (auto simp: stage_all)
    ultimately show ?thesis using wa by (intro exI[of _ h'] exI[of _ ys]) (simp add: over_def)
  qed
qed

lemma pado_write_correct:
  assumes f: "file_ok h i xs" and n: "inos h i = Some n" and d: "d \<in> set (do_map n)" "dobs h d = Some x"
    and lt: "fo < fo + l" and av: "2 \<le> avail h"
  shows "\<exists>h' ys n'. pado_write d fo od l h = Some (ret_code SUCCESS, h') \<and> file_ok h' i ys \<and>
    (\<forall>p. where_is h' ys p = (if fo \<le> p \<and> p < fo + l
        then Some (host_id (daddr x), loid (daddr x), od + (p - fo)) else where_is h xs p)) \<and>
    inos h' i = Some n' \<and> inode_rest n' = inode_rest (touch (clock h) (n\<lparr>isize := max (isize n) (fo + l)\<rparr>)) \<and>
    edits i h (set xs) h' (set ys) \<and> rx h' = rx h"
proof -
  have st: "stage h i [] [] xs" and o: "ordered h xs" and bd: "\<And>p. isize n \<le> p \<Longrightarrow> where_is h xs p = None"
    using f n by (auto simp: file_ok_def)
  from st have ow: "owned h i (set xs)" and fr: "fresh_ok h" by (auto simp: stage_def)
  have di: "d_inode x = i" using owned_dob[OF ow n d(1)] d(2) by (auto simp: dob_ok_def)
  have d0: "d \<noteq> NULL" by (rule owned_dob_below(2)[OF ow n fr d(1)])
  define p where "p = brk h"
  have p0: "p \<noteq> NULL" using fr by (simp add: p_def fresh_ok_def)
  from av have "0 < avail h" by simp
  from stage_push[OF st n d(1) this, of fo od l] obtain h1 e where h1:
    "create_extent d fo od l h = Some (p, h1)" and
    R: "stage h1 i [] [p] xs" "\<And>a. a \<in> set xs \<Longrightarrow> view h1 a = view h a" "goes i h (set xs) h1 (set (p # xs))"
      "avail h1 = avail h - 1" "exts h1 p = Some e" "dobj e = d" "off_f e = fo" "off_do e = od" "len e = l"
      "map_option daddr (dobs h1 d) = map_option daddr (dobs h d)"
    unfolding p_def by auto
  obtain n1 where n1: "inos h1 i = Some n1" "inode_rest n1 = inode_rest n" by (rule goes_inode[OF R(3) n])
  have sz1: "isize n1 = isize n" by (rule inode_rest_isize[OF n1(2)])
  let ?g = "\<lambda>n. n\<lparr>isize := max (isize n) (fo + l)\<rparr>"
  define h2 where "h2 = mod_ino i ?g h1"
  have n2: "inos h2 i = Some (?g n1)" using n1(1) by (simp add: h2_def)
  have s2: "stage h2 i [] [p] xs" using R(1) by (simp add: h2_def meta_stage)
  have w1: "ordered h1 xs" using o ordered_view[of xs h1 h] R(2) by auto
  have w1': "where_is h1 xs q = where_is h xs q" for q by (rule where_is_view) (rule R(2))
  have o2: "ordered h2 xs" using w1 by (simp add: h2_def meta_view)
  have pl: "place_in h2 p q = (host_id (daddr x), loid (daddr x), od + (q - fo))" for q
    using R(5-10) d(2) by (auto simp: place_in_def h2_def split: option.splits)
  from place_one[OF s2 o2 _ R(7,9) lt _ n2] R(4,5) av obtain h3 ys where h3:
    "(if flayout (?g n1) \<noteq> NULL then replace i p p fo (fo + l) h2
      else do { h \<leftarrow> upd_ino i (\<lambda>n. n\<lparr>flayout := p\<rparr>) h2; upd_ext p (\<lambda>x. x\<lparr>pivot := SFlayout i\<rparr>) h }) = Some h3"
    "stage h3 i [] [] ys" "ordered h3 ys"
    "\<And>q. where_is h3 ys q = (if fo \<le> q \<and> q < fo + l then Some (place_in h2 p q) else where_is h2 xs q)"
    "goes i h2 (set (p # xs)) h3 (set ys)" by (auto simp: h2_def)
  obtain n3 where n3: "inos h3 i = Some n3" "inode_rest n3 = inode_rest (?g n1)" by (rule goes_inode[OF h3(5) n2])
  define h4 where "h4 = mod_ino i (touch (clock h)) h3"
  have n4: "inos h4 i = Some (touch (clock h) n3)" using n3(1) by (simp add: h4_def)
  have e3: "edits i h (set xs) h3 (set ys)"
  proof (rule edits_trans[OF goes_edits[OF R(3)] edits_trans[OF _ goes_edits[OF h3(5)]]])
    show "edits i h1 (set (p # xs)) h2 (set (p # xs))" unfolding h2_def by (rule meta_edits[OF _ n1(1)]) simp
  qed
  have ck: "clock h3 = clock h" by (rule edits_fields(3)[OF e3])
  have "pado_write d fo od l h = do {
      h \<leftarrow> (if flayout (?g n1) \<noteq> NULL then replace i p p fo (fo + l) h2
        else do { h \<leftarrow> upd_ino i (\<lambda>n. n\<lparr>flayout := p\<rparr>) h2; upd_ext p (\<lambda>x. x\<lparr>pivot := SFlayout i\<rparr>) h });
      h \<leftarrow> upd_ino i (touch (clock h)) h;
      Some (ret_code SUCCESS, h) }"
    using d0 d(2) di h1 p0 n1(1) n2 by (simp add: pado_write_def Let_def upd_ino_def h2_def[symmetric])
  also have "\<dots> = Some (ret_code SUCCESS, h4)"
    unfolding h3(1) using n3(1) ck by (simp add: h4_def upd_ino_def)
  finally have "pado_write d fo od l h = Some (ret_code SUCCESS, h4)" .
  moreover have w4: "where_is h4 ys q = (if fo \<le> q \<and> q < fo + l
        then Some (host_id (daddr x), loid (daddr x), od + (q - fo)) else where_is h xs q)" for q
    using h3(4)[of q] pl[of q] w1'[of q] by (simp add: h4_def meta_view h2_def)
  moreover have rest: "inode_rest (touch (clock h) n3) =
      inode_rest (touch (clock h) (n\<lparr>isize := max (isize n) (fo + l)\<rparr>))"
    using n3(2) n1(2) sz1 by (simp add: inode_rest_simps)
  moreover have "file_ok h4 i ys"
  proof -
    have sz: "isize (touch (clock h) n3) = max (isize n) (fo + l)"
      using inode_rest_isize[OF rest] by (simp add: touch_def)
    have "where_is h4 ys q = None" if "max (isize n) (fo + l) \<le> q" for q
      using w4[of q] bd[of q] that by (simp add: not_less)
    moreover have "stage h4 i [] [] ys" "ordered h4 ys" using h3(2,3) by (simp_all add: h4_def meta_stage meta_view)
    ultimately show ?thesis using n4 sz by (simp add: file_ok_def)
  qed
  moreover have "edits i h (set xs) h4 (set ys)"
    unfolding h4_def by (rule edits_trans[OF e3 meta_edits[OF _ n3(1)]]) simp
  moreover have "rx h4 = rx h"
    using goes_rx[OF R(3)] goes_rx[OF h3(5)] by (simp add: h4_def h2_def)
  ultimately show ?thesis using n4 by blast
qed

section \<open>pado_truncate\<close>

lemma pado_truncate_correct:
  assumes f: "file_ok h i xs" and n: "inos h i = Some n" and av: "0 < avail h"
  shows "\<exists>h' ys n'. pado_truncate i new h = Some (ret_code SUCCESS, h') \<and> file_ok h' i ys \<and>
    (\<forall>p. where_is h' ys p = (if p < new then where_is h xs p else None)) \<and>
    inos h' i = Some n' \<and> inode_rest n' = inode_rest (touch (clock h) (n\<lparr>isize := new\<rparr>)) \<and>
    edits i h (set xs) h' (set ys)"
proof -
  have st: "stage h i [] [] xs" and o: "ordered h xs" and bd: "\<And>p. isize n \<le> p \<Longrightarrow> where_is h xs p = None"
    using f n by (auto simp: file_ok_def)
  define h1 where "h1 = mod_ino i (\<lambda>n. n\<lparr>isize := new\<rparr>) h"
  have n1: "inos h1 i = Some (n\<lparr>isize := new\<rparr>)" using n by (simp add: h1_def)
  have s1: "stage h1 i [] [] xs" "ordered h1 xs" "\<And>p. where_is h1 xs p = where_is h xs p"
    using st o by (simp_all add: h1_def meta_stage meta_view)
  have e1: "edits i h (set xs) h1 (set xs)" unfolding h1_def by (rule meta_edits[OF _ n]) simp
  have "\<exists>h2 ys. (if new < isize n then replace i NULL NULL new (isize n) h1 else Some h1) = Some h2 \<and>
      stage h2 i [] [] ys \<and> ordered h2 ys \<and> (\<forall>p. where_is h2 ys p = (if p < new then where_is h xs p else None)) \<and>
      goes i h1 (set xs) h2 (set ys)"
  proof (cases "new < isize n")
    case True
    have "covers_range h1 [] new (isize n)" by (simp add: covers_range_def)
    from replace_correct[OF s1(1,2) this True] av obtain h2 ys where h2: "replace i NULL NULL new (isize n) h1 = Some h2"
      "stage h2 i [] [] ys" "ordered h2 ys" "\<And>p. where_is h2 ys p = over h1 new (isize n) [] xs p"
      "goes i h1 (set xs) h2 (set ys)" by (auto simp: h1_def stage_all)
    have "where_is h2 ys p = (if p < new then where_is h xs p else None)" for p
      using h2(4)[of p] s1(3)[of p] bd[of p] by (auto simp: over_def not_less)
    with True h2 show ?thesis by auto
  next
    case False
    have "where_is h1 xs p = (if p < new then where_is h xs p else None)" for p
      using s1(3)[of p] bd[of p] False by (auto simp: not_less)
    with False s1 goes_refl[OF n1 order_refl] show ?thesis by auto
  qed
  then obtain h2 ys where h2: "(if new < isize n then replace i NULL NULL new (isize n) h1 else Some h1) = Some h2"
    "stage h2 i [] [] ys" "ordered h2 ys" "\<And>p. where_is h2 ys p = (if p < new then where_is h xs p else None)"
    "goes i h1 (set xs) h2 (set ys)" by blast
  obtain n2 where n2: "inos h2 i = Some n2" "inode_rest n2 = inode_rest (n\<lparr>isize := new\<rparr>)"
    by (rule goes_inode[OF h2(5) n1])
  define h3 where "h3 = mod_ino i (touch (clock h)) h2"
  have e2: "edits i h (set xs) h2 (set ys)" by (rule edits_trans[OF e1 goes_edits[OF h2(5)]])
  have "pado_truncate i new h = do {
      h \<leftarrow> (if new < isize n then replace i NULL NULL new (isize n) h1 else Some h1);
      h \<leftarrow> upd_ino i (touch (clock h)) h;
      Some (ret_code SUCCESS, h) }"
    using n by (simp add: pado_truncate_def Let_def upd_ino_def h1_def[symmetric])
  also have "\<dots> = Some (ret_code SUCCESS, h3)"
    unfolding h2(1) using n2(1) edits_fields(3)[OF e2] by (simp add: h3_def upd_ino_def)
  finally have "pado_truncate i new h = Some (ret_code SUCCESS, h3)" .
  moreover have w: "where_is h3 ys p = (if p < new then where_is h xs p else None)" for p
    using h2(4)[of p] by (simp add: h3_def meta_view)
  moreover have n3: "inos h3 i = Some (touch (clock h) n2)" using n2(1) by (simp add: h3_def)
  moreover have rest: "inode_rest (touch (clock h) n2) = inode_rest (touch (clock h) (n\<lparr>isize := new\<rparr>))"
    using n2(2) by (simp add: inode_rest_simps)
  moreover have "file_ok h3 i ys"
  proof -
    have "isize (touch (clock h) n2) = new" using inode_rest_isize[OF rest] by (simp add: touch_def)
    moreover have "stage h3 i [] [] ys" "ordered h3 ys" using h2(2,3) by (simp_all add: h3_def meta_stage meta_view)
    ultimately show ?thesis using n3 w by (auto simp: file_ok_def not_less)
  qed
  moreover have "edits i h (set xs) h3 (set ys)"
    unfolding h3_def by (rule edits_trans[OF e2 meta_edits[OF _ n2(1)]]) simp
  ultimately show ?thesis by blast
qed

end
