(* ===== verification/Dobj_Correct.thy ===== *)
theory Dobj_Correct
  imports File_Correct
begin

text \<open>
  The data objects of a file: \<^verbatim>\<open>remove_dobject\<close> takes away every extent that refers to the
  object, \<^verbatim>\<open>acquire_dobject\<close> finds or creates an object of the inode's table.
\<close>

section \<open>The table of data objects apart from the rest\<close>

text \<open>
  \<^verbatim>\<open>remove_dobject\<close> takes the object out of the table before it drops the extents, so that the
  files's invariant holds of the store with the object still in its table.
\<close>

definition with_map :: "addr \<Rightarrow> addr list \<Rightarrow> store \<Rightarrow> store" where
  "with_map i D h = mod_ino i (\<lambda>n. n\<lparr>do_map := D\<rparr>) h"

lemma with_map_simps [simp]:
  "exts (with_map i D h) = exts h" "dobs (with_map i D h) = dobs h" "brk (with_map i D h) = brk h"
  "avail (with_map i D h) = avail h" "view (with_map i D h) a = view h a" "fld g (with_map i D h) a = fld g h a"
  "fresh_ok (with_map i D h) = fresh_ok h" "null_ok (with_map i D h) = null_ok h"
  "dob_ok (with_map i D h) i d rs = dob_ok h i d rs" "dos_log (with_map i D h) = dos_log h"
  "map_option flayout (inos (with_map i D h) i) = map_option flayout (inos h i)"
proof -
  show d: "dobs (with_map i D h) = dobs h" "exts (with_map i D h) = exts h" by (simp_all add: with_map_def)
  show "dob_ok (with_map i D h) i d rs = dob_ok h i d rs" by (rule dob_ok_cong) (simp_all add: d)
  show "map_option flayout (inos (with_map i D h) i) = map_option flayout (inos h i)"
    by (cases "inos h i") (simp_all add: with_map_def)
qed (simp_all add: with_map_def view_def fld_def fresh_ok_def)

lemma with_map_inos: "inos (with_map i D h) j = (if j = i then map_option (\<lambda>n. n\<lparr>do_map := D\<rparr>) (inos h i) else inos h j)"
  by (simp add: with_map_def)

lemma with_map_layout: "layout (with_map i D h) i t = layout h i t"
  by (rule layout_cong) simp_all

lemma with_map_same: "inos h i = Some n \<Longrightarrow> do_map n = D \<Longrightarrow> with_map i D (with_map i E h) = h"
  by (rule store.equality) (auto simp: with_map_def mod_ino_def fun_eq_iff)

lemma with_map_link: "link_change i A h h' \<Longrightarrow> link_change i A (with_map i D h) (with_map i D h')"
proof -
  assume l: "link_change i A h h'"
  then have "h' = h\<lparr>exts := exts h', inos := inos h'\<rparr>" by (simp add: link_change_def)
  then have "with_map i D h' = with_map i D (h\<lparr>exts := exts h', inos := inos h'\<rparr>)" by simp
  also have "\<dots> = (with_map i D h)\<lparr>exts := exts h', inos := inos (with_map i D h')\<rparr>"
    by (simp add: with_map_def mod_ino_def)
  finally have e: "with_map i D h' = (with_map i D h)\<lparr>exts := exts (with_map i D h'), inos := inos (with_map i D h')\<rparr>"
    by simp
  from l have f: "map_option (flayout_update (\<lambda>_. NULL)) (inos h' i) = map_option (flayout_update (\<lambda>_. NULL)) (inos h i)"
    by (simp add: link_change_def)
  have "map_option (flayout_update (\<lambda>_. NULL)) (inos (with_map i D k) i) =
      map_option (\<lambda>n. n\<lparr>do_map := D\<rparr>) (map_option (flayout_update (\<lambda>_. NULL)) (inos k i))" for k
    by (cases "inos k i") (simp_all add: with_map_inos)
  with l f e show ?thesis by (simp add: link_change_def with_map_inos)
qed

section \<open>remove_dobject\<close>

text \<open>One turn of the loop that drops the extents of the object.\<close>

lemma remove_extent0_stage:
  assumes st: "stage (with_map i D h) i [] [] (as @ r # ds)" and r: "fld dobj h r = Some d"
  shows "\<exists>h' n'. remove_extent0 r h = Some h' \<and> stage (with_map i D h') i [] [] (as @ ds) \<and>
    (\<forall>a \<in> set (as @ ds). view h' a = view h a \<and> fld dobj h' a = fld dobj h a) \<and>
    goes i (with_map i D h) (set (as @ r # ds)) (with_map i D h') (set (as @ ds)) \<and> avail h' = avail h \<and>
    inos h' i = Some n' \<and> map_option do_map (inos h i) = Some (do_map n') \<and>
    (\<forall>d \<in> set D. map_option daddr (dobs h' d) = map_option daddr (dobs h d))"
proof -
  let ?X = "set (as @ r # ds)" and ?Y = "set (as @ ds)"
  from st obtain t where t: "layout h i t" "inorder t = as @ r # ds" and o: "owned (with_map i D h) i ?X"
    and f: "fresh_ok h" and di: "distinct (as @ r # ds)" by (auto simp: stage_def with_map_layout)
  from unlink_extent_correct[OF t] obtain h1 T where h1: "unlink_extent r h = Some h1" "layout h1 i T"
    "inorder T = as @ ds" "link_change i ({NULL} \<union> addrs t) h h1" by blast
  let ?V = "with_map i D h1"
  note l = with_map_link[OF h1(4), of D]
  have o1: "owned ?V i ?X" by (rule link_change_owned[OF l o])
  have f1: "fresh_ok ?V" using link_change_fresh[OF h1(4) f] by simp
  from o1 obtain m where m: "inos ?V i = Some m" "do_map m = D" by (auto simp: owned_def with_map_inos)
  have rX: "r \<in> ?X" by simp
  from unref_extent_correct[OF o1 rX m(1) f1] obtain rs k where k:
    "unref_extent r ?V = Some (if rs = [] then d else NULL, k)" "d \<in> set (do_map m)" "set rs = users ?V ?X d - {r}"
    "owned k i (?X - {r})" "fresh_ok k" "keeps i (?X - {r}) ?V k" "file_change i ?X {d} ?V k" "brk k = brk ?V"
    "avail k = avail ?V" "inos k i = Some (m\<lparr>num_exts := num_exts m - 1\<rparr>)"
    "map_option daddr (dobs k d) = map_option daddr (dobs ?V d)" "dob_ok k i d rs"
    using r link_change_rlinks[OF h1(4)] rlinks_fld(1)[of h1 r h] by auto
  have dm: "d \<in> set D" using k(2) m(2) by simp
  from ownedE[OF o1 rX] obtain us vs where uv: "dob_ok ?V i d (us @ r # vs)" "fld dobj ?V r = Some d"
    using r link_change_rlinks[OF h1(4)] rlinks_fld(1)[of h1 r h] by (metis option.inject with_map_simps(6))
  have n1: "inos h1 i \<noteq> None" using m(1) by (auto simp: with_map_inos)
  have ev: "unref_extent r ?V = Some (if us @ vs = [] then d else NULL, free_ext r (unlinked us vs d i ?V))"
    by (rule unref_extent_eval[OF uv]) (use m(1) in simp)
  have ev1: "unref_extent r h1 = Some (if us @ vs = [] then d else NULL, free_ext r (unlinked us vs d i h1))"
    by (rule unref_extent_eval[OF _ _ n1]) (use uv in simp_all)
  define h' where "h' = free_ext r (unlinked us vs d i h1)"
  have kh: "k = with_map i D h'"
  proof -
    have c: "n\<lparr>do_map := D, num_exts := x\<rparr> = n\<lparr>num_exts := x, do_map := D\<rparr>" for n :: inode and x by simp
    have "mod_ino i (\<lambda>n. n\<lparr>num_exts := num_exts n - 1\<rparr>) (with_map i D k) =
        with_map i D (mod_ino i (\<lambda>n. n\<lparr>num_exts := num_exts n - 1\<rparr>) k)" for k
      by (cases "inos k i") (simp_all add: with_map_def mod_ino_def c)
    moreover have "mod_ext p f (with_map i D k) = with_map i D (mod_ext p f k)"
      "mod_dob p g (with_map i D k) = with_map i D (mod_dob p g k)" for p f g k
      by (simp_all add: with_map_def mod_ino_def mod_ext_def mod_dob_def)
    ultimately have "unlinked us vs d i ?V = with_map i D (unlinked us vs d i h1)"
      by (cases "us = []"; cases "vs = []") (simp_all add: unlinked_def Let_def)
    then have "free_ext r (unlinked us vs d i ?V) = with_map i D h'"
      by (simp add: h'_def free_ext_def with_map_def mod_ino_def)
    with ev k(1) show ?thesis by simp
  qed
  have "remove_extent0 r h = Some h'" using h1(1) ev1 by (simp add: remove_extent0_def h'_def)
  moreover have Y: "?X - {r} = ?Y" using di by auto
  have kp: "keeps i ?Y ?V (with_map i D h')" using k(6) Y kh by simp
  have "layout (with_map i D h') i T"
    by (rule keeps_layout[OF kp]) (use h1(2,3) k(5) kh fresh_null_ok in \<open>auto simp: with_map_layout\<close>)
  with k(4,5) Y kh h1(3) di have "stage (with_map i D h') i [] [] (as @ ds)" by (auto simp: stage_def)
  moreover have "view h' a = view h a \<and> fld dobj h' a = fld dobj h a" if a: "a \<in> ?Y" for a
  proof -
    have "map_option rest (exts h' a) = map_option rest (exts h1 a)" "view h' a = view h1 a"
      using kp a by (auto simp: keeps_def)
    with link_change_view[OF h1(4)] rest_map_eq(2)[of h' a h1] rlinks_fld(1)[OF link_change_rlinks[OF h1(4)]]
    show ?thesis by simp
  qed
  moreover have "goes i (with_map i D h) ?X (with_map i D h') ?Y"
  proof (rule goes_trans)
    show "goes i (with_map i D h) ?X ?V ?X"
      by (rule link_goes[OF l o]) (use t(2) fresh_null_ok[OF f] in auto)
    have "file_change i ?X (set (do_map m)) ?V (with_map i D h')"
      using file_change_mono[OF k(7) order_refl, of "set (do_map m)"] k(2) kh by simp
    then show "goes i ?V ?X (with_map i D h') ?Y" using m k(10) kh by (auto simp: goes_def)
  qed
  moreover have "avail h' = avail h" using k(9) kh link_change_avail[OF h1(4)] by simp
  moreover obtain n where n: "inos h i = Some n" using o by (auto simp: owned_def with_map_inos)
  obtain y where y: "inos h1 i = Some (n\<lparr>flayout := y\<rparr>)" using link_change_inode[OF h1(4) n] by blast
  have "\<exists>n'. inos h' i = Some n' \<and> do_map n' = do_map n"
    using y by (simp add: h'_def free_ext_def unlinked_def Let_def)
  moreover have "map_option daddr (dobs h' e) = map_option daddr (dobs h e)" if "e \<in> set D" for e
  proof (cases "e = d")
    case False
    have "e < brk ?V" by (rule owned_dob_below(1)[OF o1 m(1) f1]) (use that m(2) in simp)
    with k(7) False kh link_change_dobs[OF h1(4)] show ?thesis by (simp add: file_change_def)
  qed (use k(11) kh link_change_dobs[OF h1(4)] in simp)
  ultimately show ?thesis using n by auto
qed

text \<open>The extents that are left.\<close>

definition others :: "store \<Rightarrow> addr \<Rightarrow> addr list \<Rightarrow> addr list" where
  "others h d xs = filter (\<lambda>a. fld dobj h a \<noteq> Some d) xs"

lemma drop_refs_correct:
  assumes "stage (with_map i D h) i [] [] xs" "d \<in> set D"
  shows "\<exists>h' x. drop_refs d h = Some h' \<and> stage (with_map i D h') i [] [] (others h d xs) \<and>
    (\<forall>a \<in> set (others h d xs). view h' a = view h a) \<and>
    goes i (with_map i D h) (set xs) (with_map i D h') (set (others h d xs)) \<and> avail h' = avail h \<and>
    map_option do_map (inos h' i) = map_option do_map (inos h i) \<and>
    (\<forall>e \<in> set D. map_option daddr (dobs h' e) = map_option daddr (dobs h e)) \<and>
    dobs h' d = Some x \<and> refs x = NULL \<and> d_inode x = i \<and>
    users (with_map i D h') (set (others h d xs)) d = {}"
  using assms(1)
proof (induction "length xs" arbitrary: xs h)
  case 0
  then have xs: "xs = []" by simp
  from 0(2) obtain n where n: "inos (with_map i D h) i = Some n" "do_map n = D" and o: "owned (with_map i D h) i {}"
    by (auto simp: stage_def owned_def with_map_inos xs)
  from owned_dob[OF o n(1)] n(2) assms(2) have "dob_ok h i d []" by (auto simp: users_def)
  then obtain x where "dobs h d = Some x" "refs x = NULL" "d_inode x = i" by (auto simp: dob_ok_def)
  then show ?case using 0(2) goes_refl[OF n(1), of "{}" "{}"]
    by (intro exI[of _ h]) (simp add: xs others_def drop_refs.simps users_def)
next
  case (Suc m)
  let ?V = "with_map i D h"
  from Suc.prems obtain n where n: "inos ?V i = Some n" "do_map n = D" and o: "owned ?V i (set xs)"
    and fr: "fresh_ok h" by (auto simp: stage_def owned_def with_map_inos)
  obtain rs where rs: "dob_ok ?V i d rs" "set rs = users ?V (set xs) d"
    by (rule owned_dob[OF o n(1)]) (use n(2) assms(2) in auto)
  then obtain x where x: "dobs h d = Some x" "refs x = first rs NULL" "d_inode x = i" "NULL \<notin> set rs"
    by (auto simp: dob_ok_def)
  show ?case
  proof (cases rs)
    case Nil
    with rs(2) have "others h d xs = xs" by (auto simp: others_def users_def filter_id_conv)
    then show ?thesis using Suc.prems goes_refl[OF n(1) order_refl] x rs(2) Nil
      by (intro exI[of _ h]) (simp add: drop_refs.simps)
  next
    case (Cons r rs')
    then have "r \<in> set rs" by simp
    then have "r \<in> users ?V (set xs) d" by (simp only: rs(2))
    then have r: "r \<in> set xs" "fld dobj h r = Some d" by (simp_all add: users_def)
    have r0: "r \<noteq> NULL" using x(4) Cons by auto
    from r(1) obtain as ds where xs: "xs = as @ r # ds" by (auto dest: split_list)
    from remove_extent0_stage[OF Suc.prems[unfolded xs] r(2)] obtain h1 n1 where h1:
      "remove_extent0 r h = Some h1" "stage (with_map i D h1) i [] [] (as @ ds)"
      "\<forall>a \<in> set (as @ ds). view h1 a = view h a \<and> fld dobj h1 a = fld dobj h a"
      "goes i ?V (set (as @ r # ds)) (with_map i D h1) (set (as @ ds))" "avail h1 = avail h"
      "inos h1 i = Some n1" "map_option do_map (inos h i) = Some (do_map n1)"
      "\<forall>d \<in> set D. map_option daddr (dobs h1 d) = map_option daddr (dobs h d)" by blast
    have "m = length (as @ ds)" using Suc.hyps(2) by (simp add: xs)
    from Suc.hyps(1)[OF this h1(2)] obtain h' y where h': "drop_refs d h1 = Some h'"
      "stage (with_map i D h') i [] [] (others h1 d (as @ ds))"
      "\<forall>a \<in> set (others h1 d (as @ ds)). view h' a = view h1 a"
      "goes i (with_map i D h1) (set (as @ ds)) (with_map i D h') (set (others h1 d (as @ ds)))" "avail h' = avail h1"
      "map_option do_map (inos h' i) = map_option do_map (inos h1 i)"
      "\<forall>e \<in> set D. map_option daddr (dobs h' e) = map_option daddr (dobs h1 e)"
      "dobs h' d = Some y" "refs y = NULL" "d_inode y = i"
      "users (with_map i D h') (set (others h1 d (as @ ds))) d = {}" by blast
    have oth: "others h1 d (as @ ds) = others h d xs"
    proof -
      have "others h1 d (as @ ds) = others h d (as @ ds)"
        unfolding others_def using h1(3) by (intro filter_cong refl) simp
      also have "\<dots> = others h d xs" using r(2) by (simp add: others_def xs)
      finally show ?thesis .
    qed
    have "drop_refs d h = Some h'"
      using x(1,2) Cons r0 h1(1) h'(1) by (subst drop_refs.simps) simp
    moreover have "view h' a = view h a" if "a \<in> set (others h d xs)" for a
    proof -
      have "a \<in> set (as @ ds)" using that unfolding oth[symmetric] by (auto simp: others_def)
      with h'(3) h1(3) that show ?thesis unfolding oth by simp
    qed
    moreover have "goes i ?V (set xs) (with_map i D h') (set (others h d xs))"
      using goes_trans[OF h1(4) h'(4)] unfolding oth xs .
    moreover have "map_option do_map (inos h' i) = map_option do_map (inos h i)"
      by (simp only: h'(6) h1(6,7) option.map)
    moreover have "avail h' = avail h" using h'(5) h1(5) by simp
    moreover have "\<forall>e \<in> set D. map_option daddr (dobs h' e) = map_option daddr (dobs h e)"
      using h'(7) h1(8) by simp
    moreover note h'(2,8-11)[unfolded oth]
    ultimately show ?thesis by blast
  qed
qed

definition remove_rest :: "addr \<Rightarrow> bool \<Rightarrow> store \<Rightarrow> (int \<times> store) option" where
  "remove_rest d unlink h = do {
        x \<leftarrow> dobs h d;
        n \<leftarrow> inos h (d_inode x);
        (ret, h) \<leftarrow> Some (if unlink then
            (case dos_call (host_id (daddr x)) (link_msg REMOVE_LINK (loid (daddr x)) n h) h of
               (None, h) \<Rightarrow> (ret_code FAILED, h)
             | (Some r, h) \<Rightarrow> (r, h))
          else (ret_code SUCCESS, h));
        Some (ret, free_dob d h) }"

lemma remove_dobject_unfold:
  assumes "d \<noteq> NULL" "dobs h d = Some x" "d_inode x = i" "inos h i = Some n" "d \<in> set (do_map n)"
  shows "remove_dobject d u h = do {
    h \<leftarrow> drop_refs d (with_map i (remove1 d (do_map n)) h);
    remove_rest d u h }"
  using assms unfolding remove_dobject_def remove_rest_def
  by (simp add: hash_delete_def upd_ino_def with_map_def)

text \<open>
  The whole: the extents of the object are gone, and with them the parts of the map that it held.
\<close>

lemma remove_dobject_stage:
  assumes st: "stage h i [] [] xs" and n: "inos h i = Some n" and d: "d \<in> set (do_map n)"
  shows "\<exists>r h' n'. remove_dobject d u h = Some (r, h') \<and> stage h' i [] [] (others h d xs) \<and>
    (\<forall>a \<in> set (others h d xs). view h' a = view h a) \<and> goes i h (set xs) h' (set (others h d xs)) \<and>
    avail h' = avail h \<and> inos h' i = Some n' \<and> do_map n' = remove1 d (do_map n)"
proof -
  let ?D = "do_map n" and ?ys = "others h d xs"
  from st obtain t where ow: "owned h i (set xs)" and fr: "fresh_ok h" by (auto simp: stage_def)
  have d0: "d \<noteq> NULL" by (rule owned_dob_below(2)[OF ow n fr d])
  obtain rs where "dob_ok h i d rs" by (rule owned_dob[OF ow n d])
  then obtain x where x: "dobs h d = Some x" "d_inode x = i" by (auto simp: dob_ok_def)
  define h1 where "h1 = with_map i (remove1 d ?D) h"
  have V: "with_map i ?D h1 = h" unfolding h1_def by (rule with_map_same[OF n]) simp
  have "stage (with_map i ?D h1) i [] [] xs" using st by (simp add: V)
  from drop_refs_correct[OF this d] obtain h2 y where h2: "drop_refs d h1 = Some h2"
    "stage (with_map i ?D h2) i [] [] (others h1 d xs)" "\<forall>a \<in> set (others h1 d xs). view h2 a = view h1 a"
    "goes i (with_map i ?D h1) (set xs) (with_map i ?D h2) (set (others h1 d xs))" "avail h2 = avail h1"
    "map_option do_map (inos h2 i) = map_option do_map (inos h1 i)"
    "\<forall>e \<in> set ?D. map_option daddr (dobs h2 e) = map_option daddr (dobs h1 e)" "dobs h2 d = Some y" "refs y = NULL"
    "d_inode y = i" "users (with_map i ?D h2) (set (others h1 d xs)) d = {}" by blast
  have oth: "others h1 d xs = ?ys" by (simp add: others_def h1_def)
  note h2 = h2[unfolded oth V]
  obtain n2 where n2: "inos h2 i = Some n2" "do_map n2 = remove1 d ?D"
    using h2(6) n by (auto simp: h1_def with_map_inos)
  let ?k = "with_map i ?D h2"
  have k: "inos ?k i = Some (n2\<lparr>do_map := ?D\<rparr>)" "dobs ?k d = Some y" using n2 h2(8) by (simp_all add: with_map_inos)
  have Vk: "with_map i (remove1 d ?D) ?k = h2" by (rule with_map_same[OF n2])
  have "remove_dobject d u ?k = remove_rest d u h2"
    using remove_dobject_unfold[OF d0 k(2) h2(10) k(1)] d h2(8,9) Vk by (simp add: drop_refs.simps)
  moreover have "remove_dobject d u h = remove_rest d u h2"
    using remove_dobject_unfold[OF d0 x n d] h2(1) by (simp add: h1_def)
  ultimately have ev: "remove_dobject d u h = remove_dobject d u ?k" by simp
  from h2(2) obtain T where T: "layout ?k i T" "inorder T = ?ys" and ok: "owned ?k i (set ?ys)" and fk: "fresh_ok ?k"
    and di: "distinct ?ys" by (auto simp: stage_def)
  from remove_dobject_empty[OF ok k(1) _ h2(11) fk, of u] d obtain r h' where h':
    "remove_dobject d u ?k = Some (r, h')" "owned h' i (set ?ys)" "fresh_ok h'" "keeps i (set ?ys) ?k h'"
    "file_change i {} {d} ?k h'" "brk h' = brk ?k" "avail h' = avail ?k"
    "inos h' i = Some (n2\<lparr>do_map := remove1 d ?D\<rparr>)" "exts h' = exts ?k" by auto
  have "layout h' i T" by (rule keeps_layout[OF h'(4) _ fresh_null_ok[OF h'(3)] T(1)]) (simp add: T(2))
  then have "stage h' i [] [] ?ys" using T(2) h'(2,3) di by (auto simp: stage_def)
  moreover have "view h' a = view h a" if "a \<in> set ?ys" for a
    using h'(4) h2(3) that by (simp add: keeps_def h1_def)
  moreover have "goes i h (set xs) h' (set ?ys)"
  proof (rule goes_trans[OF h2(4)])
    have "file_change i (set ?ys) (set ?D) ?k h'" by (rule file_change_mono[OF h'(5)]) (use d in auto)
    then show "goes i ?k (set ?ys) h' (set ?ys)" using k(1) h'(8)
      by (auto simp: goes_def dest: set_remove1_subset[THEN subsetD])
  qed
  moreover have "avail h' = avail h" using h'(7) h2(5) by (simp add: h1_def)
  ultimately show ?thesis using ev h'(1,8) by auto
qed

lemma ordered_covers_once:
  assumes "ordered h (a # xs)" "covers h p a" "b \<in> set xs"
  shows "\<not> covers h p b"
proof -
  from ordered_ext[OF assms(1), of a] obtain e where e: "exts h a = Some e" by auto
  have "starts_at h (off_f e + len e) b" by (rule ordered_starts[OF assms(1) e order_refl assms(3)])
  then show ?thesis by (rule starts_at_covers) (use assms(2) e in \<open>simp add: covers_def\<close>)
qed

lemma where_is_filter:
  "ordered h xs \<Longrightarrow> where_is h (filter P xs) p =
    (case List.find (covers h p) xs of None \<Rightarrow> None | Some a \<Rightarrow> if P a then Some (place_in h a p) else None)"
proof (induction xs)
  case (Cons a xs)
  then have IH: "where_is h (filter P xs) p =
      (case List.find (covers h p) xs of None \<Rightarrow> None | Some a \<Rightarrow> if P a then Some (place_in h a p) else None)"
    by (simp add: ordered_Cons)
  have "List.find (covers h p) xs = None" if "covers h p a"
    using ordered_covers_once[OF Cons.prems that] by (simp add: find_None_iff)
  with IH show ?case by (auto simp: where_is_Cons)
qed simp

text \<open>An extent gives away its data object by the places that it holds.\<close>

lemma place_object:
  assumes o: "owned h i X" "inos h i = Some n" and a: "a \<in> X" and d: "d \<in> set (do_map n)" "dobs h d = Some x"
  shows "(\<exists>q. place_in h a p = (host_id (daddr x), loid (daddr x), q)) \<longleftrightarrow> fld dobj h a = Some d"
proof -
  obtain d' where d': "d' \<in> set (do_map n)" "fld dobj h a = Some d'"
    using ownedE[OF o(1) a] o(2) by (metis option.inject)
  then obtain e where e: "exts h a = Some e" "dobj e = d'" by (auto simp: fld_eq_Some)
  from owned_dob_below(3)[of h i X n d'] obtain y where y: "dobs h d' = Some y"
  proof -
    obtain rs where "dob_ok h i d' rs" by (rule owned_dob[OF o d'(1)])
    then show ?thesis using that by (auto simp: dob_ok_def)
  qed
  have "keys_unique (dob_key h) (do_map n)" using o by (auto simp: owned_def)
  then have "dob_key h d = dob_key h d' \<Longrightarrow> d' = d" using d(1) d'(1) by (auto simp: keys_unique_def)
  then have "host_id (daddr y) = host_id (daddr x) \<and> loid (daddr y) = loid (daddr x) \<longleftrightarrow> d' = d"
    using y d(2) by (auto simp: dob_key_def)
  with e y d'(2) show ?thesis by (auto simp: place_in_def)
qed

lemma remove_dobject_correct:
  assumes f: "file_ok h i xs" and n: "inos h i = Some n" and d: "d \<in> set (do_map n)" "dobs h d = Some x"
  shows "\<exists>r h' ys n'. remove_dobject d u h = Some (r, h') \<and> file_ok h' i ys \<and>
    (\<forall>p. where_is h' ys p = (case where_is h xs p of None \<Rightarrow> None | Some (hid, l, q) \<Rightarrow>
       if hid = host_id (daddr x) \<and> l = loid (daddr x) then None else Some (hid, l, q))) \<and>
    inos h' i = Some n' \<and> do_map n' = remove1 d (do_map n) \<and> inode_rest n' = inode_rest n \<and>
    edits i h (set xs) h' (set ys)"
proof -
  from f n have st: "stage h i [] [] xs" and o: "ordered h xs" and bd: "\<And>p. isize n \<le> p \<Longrightarrow> where_is h xs p = None"
    by (auto simp: file_ok_def)
  from st have ow: "owned h i (set xs)" by (simp add: stage_def)
  let ?ys = "others h d xs"
  from remove_dobject_stage[OF st n d(1), of u] obtain r h' n' where h': "remove_dobject d u h = Some (r, h')"
    "stage h' i [] [] ?ys" "\<And>a. a \<in> set ?ys \<Longrightarrow> view h' a = view h a" "goes i h (set xs) h' (set ?ys)"
    "inos h' i = Some n'" "do_map n' = remove1 d (do_map n)" by blast
  have rest: "inode_rest n' = inode_rest n" using goes_inode[OF h'(4) n] h'(5) by (metis option.inject)
  have "ordered h ?ys" using o unfolding others_def by (auto simp: ordered_def intro: sorted_wrt_filter)
  then have oy: "ordered h' ?ys" using ordered_view[of ?ys h' h, OF h'(3)] by simp
  have w: "where_is h' ?ys p = (case where_is h xs p of None \<Rightarrow> None | Some (hid, l, q) \<Rightarrow>
       if hid = host_id (daddr x) \<and> l = loid (daddr x) then None else Some (hid, l, q))" for p
  proof -
    have "where_is h' ?ys p = where_is h ?ys p" by (rule where_is_view) (rule h'(3))
    also have "\<dots> = (case List.find (covers h p) xs of None \<Rightarrow> None
        | Some a \<Rightarrow> if fld dobj h a \<noteq> Some d then Some (place_in h a p) else None)"
      unfolding others_def by (rule where_is_filter[OF o])
    also have "\<dots> = (case where_is h xs p of None \<Rightarrow> None | Some (hid, l, q) \<Rightarrow>
       if hid = host_id (daddr x) \<and> l = loid (daddr x) then None else Some (hid, l, q))"
    proof (cases "List.find (covers h p) xs")
      case (Some a)
      then have "a \<in> set xs" by (auto simp: find_Some_iff)
      from place_object[OF ow n this d, of p] show ?thesis
        by (cases "place_in h a p") (auto simp: where_is_def Some)
    qed (simp add: where_is_def)
    finally show ?thesis .
  qed
  have "where_is h' ?ys p = None" if "isize n' \<le> p" for p
    using bd[of p] that inode_rest_isize[OF rest] w[of p] by simp
  then have "file_ok h' i ?ys" using h'(2,5) oy by (simp add: file_ok_def)
  then show ?thesis using h'(1,5,6) w rest goes_edits[OF h'(4)] by blast
qed

section \<open>acquire_dobject\<close>

text \<open>A new data object, with or without its entry in the table.\<close>

definition new_dob :: "addr \<Rightarrow> u32 \<Rightarrow> loid_t \<Rightarrow> addr list \<Rightarrow> (u32 \<times> u8 list) list \<Rightarrow> store \<Rightarrow> store" where
  "new_dob i hid l D g h = (with_map i D (h\<lparr>brk := brk h + 1, avail := avail h - 1,
     dobs := (dobs h)(brk h \<mapsto> \<lparr>daddr = \<lparr>host_id = hid, loid = l\<rparr>, d_inode = i, refs = NULL, num_refs = 0\<rparr>)\<rparr>))
       \<lparr>dos_log := g\<rparr>"

lemma new_dob_stage:
  assumes st: "stage h i as zs ds" and n: "inos h i = Some n" and fd: "find_dobject hid l n h = NULL"
    and D: "D = do_map n @ [brk h] \<or> D = do_map n"
  shows "stage (new_dob i hid l D g h) i as zs ds"
    "\<And>a. a \<in> set (as @ zs @ ds) \<Longrightarrow> view (new_dob i hid l D g h) a = view h a"
    "goes i h (set (as @ zs @ ds)) (new_dob i hid l D g h) (set (as @ zs @ ds))"
    "D = do_map n @ [brk h] \<Longrightarrow> dob_ok (new_dob i hid l D g h) i (brk h) []"
proof -
  let ?X = "set (as @ zs @ ds)" and ?h = "new_dob i hid l D g h" and ?p = "brk h"
  from st obtain t where t: "layout h i t" "inorder t = as @ ds" and o: "owned h i ?X" and fr: "fresh_ok h"
    and c: "chain h (first zs NULL) zs" and di: "distinct (as @ zs @ ds)" by (auto simp: stage_def)
  have dN: "dobs h ?p = None" "?p \<noteq> NULL" using fr by (auto simp: fresh_ok_def)
  have s: "exts ?h = exts h" "brk ?h = brk h + 1" "inos ?h = inos (with_map i D h)"
    by (simp_all add: new_dob_def with_map_def mod_ino_def)
  have db: "dobs ?h d = (if d = ?p then Some \<lparr>daddr = \<lparr>host_id = hid, loid = l\<rparr>, d_inode = i, refs = NULL, num_refs = 0\<rparr>
      else dobs h d)" for d by (simp add: new_dob_def)
  have ni: "inos ?h i = Some (n\<lparr>do_map := D\<rparr>)" using n by (simp add: s with_map_inos)
  have q: "d \<noteq> ?p" "dobs ?h d = dobs h d" if "d \<in> set (do_map n)" for d
    using owned_dob_below(1)[OF o n fr that] db by auto
  have fl: "fld dobj ?h a = fld dobj h a" for a by (simp add: fld_def s)
  have us: "users ?h ?X d = users h ?X d" for d by (simp add: users_def fl)
  have ow: "\<And>a. a \<in> ?X \<Longrightarrow> \<exists>d \<in> set (do_map n). fld dobj h a = Some d" "finite ?X" "num_exts n = of_nat (card ?X)"
    "NULL \<notin> set (do_map n)" "keys_unique (dob_key h) (do_map n)" using o n by (auto simp: owned_def)
  have up: "users h ?X ?p = {}" using ow(1) q(1) by (force simp: users_def)
  have okp: "dob_ok ?h i ?p []" by (simp add: dob_ok_def db)
  then show "D = do_map n @ [brk h] \<Longrightarrow> dob_ok ?h i ?p []" .
  have ok: "\<exists>rs. dob_ok ?h i d rs \<and> set rs = users ?h ?X d" if "d \<in> set D" for d
  proof (cases "d = ?p")
    case True
    with okp up us show ?thesis by auto
  next
    case False
    with that D have d: "d \<in> set (do_map n)" by auto
    obtain rs where rs: "dob_ok h i d rs" "set rs = users h ?X d" by (rule owned_dob[OF o n d])
    have "dob_ok ?h i d rs = dob_ok h i d rs" by (rule dob_ok_cong) (simp_all add: s q(2)[OF d])
    with rs us show ?thesis by auto
  qed
  have k: "dob_key ?h d = dob_key h d" if "d \<in> set (do_map n)" for d using q[OF that] by (simp add: dob_key_def)
  have ku: "keys_unique (dob_key ?h) (do_map n)" using keys_unique_cong[of "do_map n" "dob_key ?h" "dob_key h"] k ow(5) by simp
  have kp: "dob_key ?h ?p = Some (hid, l)" by (simp add: dob_key_def db)
  have nf: "hash_find (dob_key ?h) (hid, l) (do_map n) = None"
  proof -
    have "dob_key h d \<noteq> Some (hid, l)" if "d \<in> set (do_map n)" for d
    proof
      assume "dob_key h d = Some (hid, l)"
      from uth.find_unique[OF ow(5) that this] fd ow(4) that show False by (auto simp: find_dobject_def)
    qed
    with k show ?thesis by (auto simp: uth.find_None)
  qed
  have "keys_unique (dob_key ?h) (hash_add ?p (do_map n))"
    by (rule uth.unique_add[OF ku _ kp nf]) (use q(1) in blast)
  with ku D have kD: "keys_unique (dob_key ?h) D" by (auto simp: hash_add_def)
  have "owned ?h i ?X" unfolding owned_def
  proof (intro conjI exI)
    show "inos ?h i = Some (n\<lparr>do_map := D\<rparr>)" by (rule ni)
    show "NULL \<notin> set (do_map (n\<lparr>do_map := D\<rparr>))" using D ow(4) dN(2) by auto
    show "\<forall>a \<in> ?X. \<exists>d \<in> set (do_map (n\<lparr>do_map := D\<rparr>)). fld dobj ?h a = Some d"
    proof
      fix a assume "a \<in> ?X"
      from ow(1)[OF this] D fl show "\<exists>d \<in> set (do_map (n\<lparr>do_map := D\<rparr>)). fld dobj ?h a = Some d" by auto
    qed
  qed (use ow ok kD in simp_all)
  moreover have "fresh_ok ?h" using fr by (auto simp: fresh_ok_def s db)
  moreover have "layout ?h i t = layout h i t"
    by (rule layout_cong) (use fresh_null_ok[OF fr] n in \<open>simp_all add: s null_ok_def with_map_inos\<close>)
  moreover have "chain ?h (first zs NULL) zs = chain h (first zs NULL) zs" by (rule chain_tlinks) (simp add: s)
  ultimately show "stage ?h i as zs ds" using t c di unfolding stage_def by blast
  show "view ?h a = view h a" if a: "a \<in> ?X" for a
  proof -
    from ow(1)[OF a] obtain d where "d \<in> set (do_map n)" "fld dobj h a = Some d" by blast
    with q(2) show ?thesis by (auto simp: view_def s fld_def)
  qed
  have "?h = h\<lparr>exts := exts ?h, dobs := dobs ?h, inos := inos ?h, brk := brk ?h, avail := avail ?h,
       dos_log := dos_log ?h\<rparr>" by (simp add: new_dob_def with_map_def mod_ino_def)
  then have "file_change i ?X (set (do_map n)) h ?h"
    using n by (auto simp: file_change_def s db with_map_inos inode_rest_def)
  then show "goes i h ?X ?h ?X" using n ni D by (auto simp: goes_def)
qed

lemma acquire_dobject_stage:
  assumes st: "stage h i as zs ds" and i: "i \<noteq> NULL" and n: "inos h i = Some n" and av: "flag > 0 \<Longrightarrow> 0 < avail h"
  shows "\<exists>d h'. acquire_dobject hid l i flag h = Some (d, h') \<and> stage h' i as zs ds \<and>
    (\<forall>a \<in> set (as @ zs @ ds). view h' a = view h a) \<and>
    goes i h (set (as @ zs @ ds)) h' (set (as @ zs @ ds)) \<and> avail h \<le> Suc (avail h') \<and>
    (d \<noteq> NULL \<longrightarrow> (\<exists>n' x. inos h' i = Some n' \<and> d \<in> set (do_map n') \<and> dobs h' d = Some x \<and>
       host_id (daddr x) = hid \<and> loid (daddr x) = l)) \<and>
    (d = NULL \<longrightarrow> flag = 0 \<and> h' = h \<and> (\<forall>e \<in> set (do_map n). dob_key h e \<noteq> Some (hid, l)) \<or>
       flag = 2 \<and> (\<exists>g bs. dos_srv h g (hid, bs) = None))"
proof (cases "find_dobject hid l n h = NULL")
  case False
  let ?X = "set (as @ zs @ ds)" and ?d = "find_dobject hid l n h"
  from st have o: "owned h i ?X" by (simp add: stage_def)
  have "hash_find (dob_key h) (hid, l) (do_map n) = Some ?d"
    using False by (auto simp: find_dobject_def split: option.splits)
  from uth.find_Some[OF this] have d: "?d \<in> set (do_map n)" "dob_key h ?d = Some (hid, l)" by simp_all
  obtain rs where rs: "dob_ok h i ?d rs" by (rule owned_dob[OF o n d(1)])
  from check_dobject_ok[OF rs] False i n have "acquire_dobject hid l i flag h = Some (?d, h)"
    by (simp add: acquire_dobject_def Let_def)
  with st n d goes_refl[OF n order_refl, of ?X] False show ?thesis by (auto simp: dob_key_def)
next
  case True
  let ?X = "set (as @ zs @ ds)"
  from st have o: "owned h i ?X" and fr: "fresh_ok h" by (simp_all add: stage_def)
  have p0: "brk h \<noteq> NULL" using fr by (simp add: fresh_ok_def)
  have none: "\<forall>e \<in> set (do_map n). dob_key h e \<noteq> Some (hid, l)"
  proof -
    from o n have "NULL \<notin> set (do_map n)" by (auto simp: owned_def)
    with True uth.find_Some[of "dob_key h" "(hid, l)" "do_map n"]
    have "hash_find (dob_key h) (hid, l) (do_map n) = None"
      by (auto simp: find_dobject_def split: option.splits)
    then show ?thesis by (simp add: uth.find_None)
  qed
  show ?thesis
  proof (cases "flag > 0")
    case False
    with True i n have "acquire_dobject hid l i flag h = Some (NULL, h)" by (simp add: acquire_dobject_def Let_def)
    with st goes_refl[OF n order_refl, of ?X] False none show ?thesis
      by (intro exI[of _ NULL] exI[of _ h]) simp
  next
    case pos: True
    let ?D = "do_map n @ [brk h]"
    have c: "calloc h = (brk h, h\<lparr>brk := brk h + 1, avail := avail h - 1\<rparr>)" using av[OF pos] by (simp add: calloc_def)
    define k where "k g D = new_dob i hid l D g h" for g D
    have kn: "inos (k g D) i = Some (n\<lparr>do_map := D\<rparr>)" "avail (k g D) = avail h - 1"
      "dobs (k g D) (brk h) = Some \<lparr>daddr = \<lparr>host_id = hid, loid = l\<rparr>, d_inode = i, refs = NULL, num_refs = 0\<rparr>"
      "with_map i E (k g D) = k g E" "(k g D)\<lparr>dos_log := g'\<rparr> = k g' D" "dos_srv (k g D) = dos_srv h" "dos_log (k g D) = g"
      for g g' D E
      using n by (simp_all add: k_def new_dob_def with_map_def mod_ino_def)
    let ?new = "h\<lparr>brk := brk h + 1, avail := avail h - 1, dobs := (dobs h)(brk h \<mapsto>
        \<lparr>daddr = \<lparr>host_id = hid, loid = l\<rparr>, d_inode = i, refs = NULL, num_refs = 0\<rparr>)\<rparr>"
    have ex: "upd_ino i (\<lambda>n. n\<lparr>do_map := hash_add q (do_map n)\<rparr>) ?new = Some (k (dos_log h) (do_map n @ [q]))" for q
      using n by (simp add: upd_ino_def k_def new_dob_def with_map_def mod_ino_def hash_add_def)
    note S = new_dob_stage[OF st n True, folded k_def]
    have N: "brk h \<notin> set (do_map n)" using owned_dob_below(1)[OF o n fr] by blast
    have good: ?thesis if ev: "acquire_dobject hid l i flag h = Some (brk h, k g ?D)" for g
      using ev S(1-3)[where D = ?D and g = g] kn(1-3)[where g = g and D = ?D] p0 by (intro exI[of _ "brk h"] exI[of _ "k g ?D"]) auto
    have chk: "check_dobject (brk h) (k g ?D) = Some ()" for g by (rule check_dobject_ok[OF S(4)[where D = ?D and g = g]]) simp_all
    define msg where "msg = link_msg ADD_LINK l n (k (dos_log h) ?D)"
    have ev: "acquire_dobject hid l i flag h =
       (if flag = 2 then (case dos_call hid msg (k (dos_log h) ?D) of
            (None, h') \<Rightarrow> do {
              n \<leftarrow> inos h' i; m \<leftarrow> hash_delete (brk h) (do_map n);
              h' \<leftarrow> upd_ino i (\<lambda>n. n\<lparr>do_map := m\<rparr>) h'; Some (NULL, h') }
          | (Some r, h') \<Rightarrow> do { check_dobject (brk h) h'; Some (brk h, h') })
        else do { check_dobject (brk h) (k (dos_log h) ?D); Some (brk h, k (dos_log h) ?D) })"
      using i n True pos c p0 ex[of "brk h"]
      by (simp add: acquire_dobject_def Let_def msg_def del: upd_ino_Some cong: if_cong)
    show ?thesis
    proof (cases "flag = 2")
      case False
      with ev chk show ?thesis by (intro good[of "dos_log h"]) simp
    next
      case two: True
      show ?thesis
      proof (cases "dos_srv h (dos_log h) (hid, msg)")
        case None
        have "upd_ino i (\<lambda>n. n\<lparr>do_map := do_map m\<rparr>) (k g ?D) = Some (k g (do_map m))" for g and m :: inode
          using kn(1,4)[where g = g and D = ?D] by (simp add: upd_ino_def with_map_def)
        moreover have "hash_delete (brk h) ?D = Some (do_map n)" using N by (simp add: hash_delete_def remove1_append)
        ultimately have "acquire_dobject hid l i flag h = Some (NULL, k (dos_log h) (do_map n))"
          using ev two None kn(1)[where g = "dos_log h" and D = ?D] kn(6,7) by (simp add: dos_call_def del: upd_ino_Some)
        then show ?thesis using S(1-3)[where D = "do_map n" and g = "dos_log h"] kn(2)[where g = "dos_log h" and D = "do_map n"] two None
          by (intro exI[of _ NULL] exI[of _ "k (dos_log h) (do_map n)"]) auto
      next
        case (Some r)
        then have "dos_call hid msg (k (dos_log h) ?D) = (Some r, k (dos_log h @ [(hid, msg)]) ?D)"
          using kn(5-7) by (simp add: dos_call_def)
        with ev two chk show ?thesis by (intro good) simp
      qed
    qed
  qed
qed

end
