(* ===== verification/Memory.thy ===== *)
theory Memory
  imports Layout_Frames
begin

text \<open>
  How much memory the operations take: only a new extent and the cut of an extent in two call
  \<^verbatim>\<open>calloc\<close>, so a write needs it at most twice, however large the layout is.
\<close>

interpretation mem: layout_view avail
  by unfold_locales (simp_all add: free_ext_def free_dob_def)

text \<open>At most \<open>k\<close> calls of the allocator.\<close>

definition takes :: "nat \<Rightarrow> store \<Rightarrow> store \<Rightarrow> bool" where
  "takes k h h' \<longleftrightarrow> avail h \<le> avail h' + k"

lemma takes_refl [simp]: "takes k h h"
  by (simp add: takes_def)

lemma takes_trans: "takes j h k \<Longrightarrow> takes m k l \<Longrightarrow> j + m \<le> n \<Longrightarrow> takes n h l"
  by (simp add: takes_def)

lemma takes_create_extent: "create_extent d f od l h = Some (p, h') \<Longrightarrow> takes 1 h h'"
  by (auto simp: takes_def create_extent_def calloc_def mon Let_def split: if_splits prod.splits)

lemma takes_split_head: "split_head dh a s e h = Some (x, y, z, h') \<Longrightarrow> takes 1 h h'"
  by (auto simp: split_head_def mon Let_def takes_def split: if_splits
      dest!: mem.obs_insert_extent_list takes_create_extent[unfolded takes_def])

lemma takes_find_first:
  assumes "find_first dh a s e h = Some (x, y, z, h')" shows "takes 1 h h'"
proof -
  have "takes 1 h (snd (snd (snd r)))" if "find_first dh a s e h = Some r" for r
    using that
    by (rule find_first.raw_induct[where P = "\<lambda>dh a s e h r. takes 1 h (snd (snd (snd r)))", rotated])
      (auto simp: mon Let_def split: if_splits dest: takes_split_head)
  from this[OF assms] show ?thesis by simp
qed

lemmas replace_same = mem.obs_replace_root mem.obs_merge_first mem.obs_overwrite mem.obs_insert_rest mem.obs_merge_last

lemma takes_replace: "replace i a t s e h = Some h' \<Longrightarrow> takes 1 h h'"
  by (auto simp: replace_def mon takes_def split: if_splits dest!: replace_same takes_find_first[unfolded takes_def])

lemma takes_pado_write: "pado_write d f od l h = Some (r, h') \<Longrightarrow> takes 2 h h'"
  by (auto simp: pado_write_def mon Let_def takes_def split: if_splits
      dest!: takes_create_extent[unfolded takes_def] takes_replace[unfolded takes_def])

lemma takes_pado_truncate: "pado_truncate i s h = Some (r, h') \<Longrightarrow> takes 1 h h'"
  by (auto simp: pado_truncate_def mon Let_def takes_def split: if_splits dest!: takes_replace[unfolded takes_def])

end
