(* ===== verification/Clone_Correct.thy ===== *)
theory Clone_Correct
  imports Dobj_Correct Memory
begin

text \<open>
  \<^verbatim>\<open>pado_clone\<close>: the segments that arrive on the connection become extents of the file, on
  the range that is cloned, whatever was there before.
\<close>

section \<open>Appending to the new extents\<close>

lemma chain_snoc:
  "chain h a zs \<Longrightarrow> zs \<noteq> [] \<Longrightarrow> distinct (zs @ [p]) \<Longrightarrow> p \<noteq> NULL \<Longrightarrow> fresh_ext h p \<Longrightarrow> fld next_e h p = Some NULL \<Longrightarrow>
     chain (mod_ext (final NULL zs) (\<lambda>x. x\<lparr>next_e := p\<rparr>) h) a (zs @ [p])"
proof (induction zs arbitrary: a)
  case (Cons z zs)
  let ?h = "mod_ext (final NULL (z # zs)) (\<lambda>x. x\<lparr>next_e := p\<rparr>) h"
  from Cons.prems(1) obtain n where z: "a = z" "z \<noteq> NULL" "fresh_ext h z" "fld next_e h z = Some n" "chain h n zs"
    by auto
  have f: "fresh_ext ?h q = fresh_ext h q" for q by (auto simp: fresh_ext_def)
  show ?case
  proof (cases "zs = []")
    case True
    have "fld next_e ?h z = Some p" using z(4) True by (auto simp: fld_eq_Some)
    moreover have "fld next_e ?h p = Some NULL" using Cons.prems(3,6) True by (auto simp: fld_def)
    ultimately show ?thesis using z True Cons.prems(4,5) f by simp
  next
    case False
    then have fin: "final NULL (z # zs) = final NULL zs" "final NULL zs \<in> set zs"
      by (cases zs rule: rev_cases; simp)+
    then have "final NULL zs \<noteq> z" using Cons.prems(3) by auto
    then have "fld next_e ?h z = Some n" using z(4) fin(1) by (simp add: fld_def)
    with Cons.IH[OF z(5) False] Cons.prems z f fin(1) show ?thesis by simp
  qed
qed simp

lemma stage_append:
  assumes st: "stage h i [] zs xs" and n: "inos h i = Some n" "d \<in> set (do_map n)" and av: "0 < avail h"
  defines "p \<equiv> brk h"
  shows "\<exists>h1 h' e. create_extent d fo od l h = Some (p, h1) \<and> p \<noteq> NULL \<and>
    (if zs = [] then Some h1 else upd_ext (final NULL zs) (\<lambda>x. x\<lparr>next_e := p\<rparr>) h1) = Some h' \<and>
    stage h' i [] (zs @ [p]) xs \<and> (\<forall>a \<in> set (zs @ xs). view h' a = view h a) \<and>
    goes i h (set (zs @ xs)) h' (set (zs @ [p] @ xs)) \<and> avail h' = avail h - 1 \<and>
    exts h' p = Some e \<and> dobj e = d \<and> off_f e = fo \<and> off_do e = od \<and> len e = l \<and>
    map_option daddr (dobs h' d) = map_option daddr (dobs h d) \<and> rx h' = rx h"
proof -
  let ?X = "set ([] @ zs @ xs)"
  from st obtain t where t: "layout h i t" "inorder t = xs" and o: "owned h i ?X"
    and fr: "fresh_ok h" and c: "chain h (first zs NULL) zs" and di: "distinct (zs @ xs)"
    by (auto simp: stage_def)
  from create_extent_correct[OF o n fr av, of fo od l] obtain h1 e where h1:
    "create_extent d fo od l h = Some (p, h1)" "owned h1 i (insert p ?X)" "fresh_ok h1" "keeps i ?X h h1"
    "file_change i ?X {d} h h1"
    "exts h1 p = Some e" "dobj e = d" "off_f e = fo" "off_do e = od" "len e = l" "fresh_ext h1 p"
    "avail h1 = avail h - 1" "inos h1 i = Some (n\<lparr>num_exts := num_exts n + 1\<rparr>)"
    "map_option daddr (dobs h1 d) = map_option daddr (dobs h d)" "next_e e = NULL"
    unfolding p_def by (elim exE conjE) blast
  have p: "p \<notin> ?X" "p \<noteq> NULL" using owned_below[OF o fr] fr by (auto simp: p_def fresh_ok_def)
  let ?l = "final NULL zs"
  define h' where "h' = (if zs = [] then h1 else mod_ext ?l (\<lambda>x. x\<lparr>next_e := p\<rparr>) h1)"
  have l: "zs \<noteq> [] \<Longrightarrow> ?l \<in> set zs" by (cases zs rule: rev_cases) auto
  have ex: "exts h' a = exts h1 a" if "a \<notin> set zs" for a using that l by (auto simp: h'_def)
  have rl: "map_option rlinks (exts h' a) = map_option rlinks (exts h1 a)" for a
    by (cases "exts h1 a") (auto simp: h'_def rlinks_def)
  have c1: "chain h1 (first zs NULL) zs" using c keeps_chain[OF h1(4), of zs] by auto
  have "(if zs = [] then Some h1 else upd_ext ?l (\<lambda>x. x\<lparr>next_e := p\<rparr>) h1) = Some h'"
  proof (cases "zs = []")
    case False
    have "?l \<in> ?X" using l[OF False] by simp
    then have "valid h1 ?l" using owned_below(3)[OF h1(2,3), of ?l] by simp
    with False show ?thesis by (simp add: h'_def upd_ext_eval)
  qed (simp add: h'_def)
  moreover have "stage h' i [] (zs @ [p]) xs"
  proof -
    have l1: "layout h1 i t" by (rule keeps_layout[OF h1(4) _ fresh_null_ok[OF h1(3)] t(1)]) (auto simp: t(2))
    have "layout h' i t = layout h1 i t"
    proof (rule layout_cong)
      fix a assume "a \<in> addrs t"
      then have "a \<notin> set zs" using di t(2) by auto
      then show "map_option tlinks (exts h' a) = map_option tlinks (exts h1 a)" by (simp add: ex)
    qed (simp_all add: h'_def)
    moreover have "owned h' i (insert p ?X)" by (rule owned_cong[OF rl _ _ h1(2)]) (simp_all add: h'_def)
    moreover have "fresh_ok h'" by (rule fresh_ok_cong[OF h1(3)]) (simp_all add: h'_def split: if_splits)
    moreover have "chain h' (first (zs @ [p]) NULL) (zs @ [p])"
    proof (cases "zs = []")
      case True
      then show ?thesis using h1(6,11,15) p(2) by (simp add: h'_def fld_def)
    next
      case False
      have "chain h' (first zs NULL) (zs @ [p])" unfolding h'_def using False
        by (simp, intro chain_snoc[OF c1]) (use di p h1(6,11,15) in \<open>auto simp: fld_def\<close>)
      moreover have "first (zs @ [p]) NULL = first zs NULL" using False by (cases zs) simp_all
      ultimately show ?thesis by simp
    qed
    ultimately show ?thesis using l1 t(2) di p(1) by (auto simp: stage_def)
  qed
  moreover have "view h' a = view h a" if "a \<in> ?X" for a
  proof -
    have "view h' a = view h1 a" by (simp add: h'_def view_def option.map_comp comp_def)
    then show ?thesis using h1(4) that by (simp add: keeps_def)
  qed
  moreover have "goes i h ?X h' (set (zs @ [p] @ xs))"
  proof -
    have "h' = h1\<lparr>exts := exts h', dobs := dobs h', inos := inos h', brk := brk h', avail := avail h',
         dos_log := dos_log h'\<rparr>" by (simp add: h'_def mod_ext_def)
    then have "file_change i ?X {} h1 h'" using ex by (auto simp: file_change_def h'_def)
    from file_change_trans[OF h1(5) this] have "file_change i ?X {d} h h'" by auto
    from file_change_mono[OF this order_refl, of "set (do_map n)"] n(2) have
      "file_change i ?X (set (do_map n)) h h'" by simp
    moreover have "inos h' i = Some (n\<lparr>num_exts := num_exts n + 1\<rparr>)" using h1(13) by (simp add: h'_def)
    ultimately show ?thesis using n(1) by (auto simp: goes_def p_def)
  qed
  moreover have "exts h' p = Some e" using ex[of p] p(1) h1(6) by simp
  moreover have "rx h' = rx h"
  proof -
    have "h1 = h\<lparr>exts := exts h1, dobs := dobs h1, inos := inos h1, brk := brk h1, avail := avail h1,
         dos_log := dos_log h1\<rparr>" using h1(5) by (simp add: file_change_def)
    from arg_cong[OF this, of rx] have "rx h1 = rx h" by simp
    then show ?thesis by (simp add: h'_def)
  qed
  moreover have "avail h' = avail h - 1" "dobs h' = dobs h1" using h1(12) by (simp_all add: h'_def)
  ultimately show ?thesis using h1(1,7-10,14) p(2) by auto
qed

section \<open>The connection\<close>

lemma stage_rx: "stage (h\<lparr>rx := b\<rparr>) i as zs ds = stage h i as zs ds"
proof -
  have "layout (h\<lparr>rx := b\<rparr>) i t = layout h i t" for t by (rule layout_cong) (simp_all add: null_ok_def)
  moreover have "owned (h\<lparr>rx := b\<rparr>) i X = owned h i X" for X
    using owned_cong[of X "h\<lparr>rx := b\<rparr>" h i] owned_cong[of X h "h\<lparr>rx := b\<rparr>" i] by auto
  moreover have "fresh_ok (h\<lparr>rx := b\<rparr>) = fresh_ok h" by (simp add: fresh_ok_def)
  moreover have "chain (h\<lparr>rx := b\<rparr>) a zs = chain h a zs" for a by (rule chain_tlinks) simp
  ultimately show ?thesis by (simp add: stage_def)
qed

lemma rx_view: "view (h\<lparr>rx := b\<rparr>) a = view h a" "ordered (h\<lparr>rx := b\<rparr>) xs = ordered h xs"
  "where_is (h\<lparr>rx := b\<rparr>) xs p = where_is h xs p"
proof -
  show v: "view (h\<lparr>rx := b\<rparr>) a = view h a" for a by (simp add: view_def)
  show "ordered (h\<lparr>rx := b\<rparr>) xs = ordered h xs" by (rule ordered_view) (rule v)
  show "where_is (h\<lparr>rx := b\<rparr>) xs p = where_is h xs p" by (rule where_is_view) (rule v)
qed

lemma file_ok_rx: "file_ok (h\<lparr>rx := b\<rparr>) i xs = file_ok h i xs"
  by (simp add: file_ok_def stage_rx rx_view)

lemma rd_words:
  "rx h = le 4 w @ r \<Longrightarrow> rd_u32 h = Some (w, h\<lparr>rx := r\<rparr>)" "rx h = le 8 v @ r \<Longrightarrow> rd_u64 h = Some (v, h\<lparr>rx := r\<rparr>)"
  by (simp_all add: rd_u32_def rd_u64_def rd_bytes_def unle_le)

section \<open>The segments of a request\<close>

text \<open>They name objects, lie behind one another and begin in the range.\<close>

fun segs_ok :: "sz \<Rightarrow> sz \<Rightarrow> sz \<Rightarrow> segment list \<Rightarrow> bool" where
  "segs_ok start e s [] \<longleftrightarrow> True"
| "segs_ok start e s (g # gs) \<longleftrightarrow> \<not> (g_hid g = 0 \<and> g_loid g = 0) \<and> s \<le> start + g_offset g \<and>
     start + g_offset g < start + g_offset g + g_len g \<and> start + g_offset g < e \<and>
     segs_ok start e (start + g_offset g + g_len g) gs"

text \<open>The place that they give to an offset of the file.\<close>

fun seg_at :: "sz \<Rightarrow> segment list \<Rightarrow> sz \<Rightarrow> place option" where
  "seg_at start [] p = None"
| "seg_at start (g # gs) p = (if start + g_offset g \<le> p \<and> p < start + g_offset g + g_len g
     then Some (g_hid g, g_loid g, g_off_do g + (p - (start + g_offset g))) else seg_at start gs p)"

lemma clone_list_Nil:
  "rx h = end_mark @ bs \<Longrightarrow> clone_list i start e alts tail h = Some (alts, tail, h\<lparr>rx := bs\<rparr>)"
  by (subst clone_list.simps) (simp add: end_mark_def rd_words)

lemma clone_list_Cons:
  assumes "rx h = seg_bytes g @ bs" "\<not> (g_hid g = 0 \<and> g_loid g = 0)" "\<not> start + g_offset g > e"
  defines "f \<equiv> start + g_offset g"
  shows "clone_list i start e alts tail h = do {
     (d, h) \<leftarrow> acquire_dobject (g_hid g) (g_loid g) i 2 (h\<lparr>rx := bs\<rparr>);
     (p, h) \<leftarrow> create_extent d f (g_off_do g) (if f + g_len g > e then e - f else g_len g) h;
     (if alts = NULL then clone_list i start e p p h
      else do { h \<leftarrow> upd_ext tail (\<lambda>x. x\<lparr>next_e := p\<rparr>) h; clone_list i start e alts p h }) }"
proof -
  let ?r = "\<lambda>b. h\<lparr>rx := b\<rparr>"
  have "rd_u32 h = Some (g_hid g, ?r (le 8 (g_loid g) @ le 8 (g_offset g) @ le 8 (g_off_do g) @ le 8 (g_len g) @ bs))"
    by (rule rd_words) (simp add: assms(1) seg_bytes_def)
  moreover have "rd_u64 (?r (le 8 v @ b)) = Some (v, ?r b)" for v b by (subst rd_words(2)) simp_all
  ultimately show ?thesis using assms(2,3)
    by (subst clone_list.simps) (auto simp: Let_def f_def cong: if_cong)
qed

definition dos_up :: "store \<Rightarrow> bool" where
  "dos_up h \<longleftrightarrow> (\<forall>g m. dos_srv h g m \<noteq> None)"

lemma acquire_two:
  assumes st: "stage h i [] zs xs" and i: "i \<noteq> NULL" and n: "inos h i = Some n" and av: "0 < avail h" and up: "dos_up h"
  shows "\<exists>d h' n' x. acquire_dobject hid l i 2 h = Some (d, h') \<and> stage h' i [] zs xs \<and>
    (\<forall>a \<in> set (zs @ xs). view h' a = view h a) \<and> goes i h (set (zs @ xs)) h' (set (zs @ xs)) \<and>
    avail h \<le> Suc (avail h') \<and> inos h' i = Some n' \<and> d \<in> set (do_map n') \<and> dobs h' d = Some x \<and>
    host_id (daddr x) = hid \<and> loid (daddr x) = l"
proof -
  from acquire_dobject_stage[OF st i n, of 2 hid l] av obtain d h' where h':
    "acquire_dobject hid l i 2 h = Some (d, h')" "stage h' i [] zs xs"
    "\<forall>a \<in> set (zs @ xs). view h' a = view h a" "goes i h (set (zs @ xs)) h' (set (zs @ xs))"
    "avail h \<le> Suc (avail h')"
    "d \<noteq> NULL \<longrightarrow> (\<exists>n' x. inos h' i = Some n' \<and> d \<in> set (do_map n') \<and> dobs h' d = Some x \<and>
       host_id (daddr x) = hid \<and> loid (daddr x) = l)"
    "d = NULL \<longrightarrow> (\<exists>g bs. dos_srv h g (hid, bs) = None)" by auto
  have "d \<noteq> NULL" using h'(7) up unfolding dos_up_def by metis
  with h' show ?thesis by blast
qed

section \<open>The loop\<close>

lemma clone_list_correct:
  assumes "stage h i [] zs xs" "ordered h zs" "rx h = concat (map seg_bytes gs) @ end_mark @ bs"
    "segs_ok start e s gs" "start \<le> s"
    "\<forall>z \<in> set zs. starts_at h start z \<and> ends_by h s z \<and> ends_by h e z"
    "2 * length gs \<le> avail h" "dos_up h" "i \<noteq> NULL"
  shows "\<exists>zs' h'. clone_list i start e (first zs NULL) (final NULL zs) h =
      Some (first (zs @ zs') NULL, final NULL (zs @ zs'), h') \<and> stage h' i [] (zs @ zs') xs \<and> rx h' = bs \<and>
    (\<forall>a \<in> set (zs @ xs). view h' a = view h a) \<and> covers_range h' (zs @ zs') start e \<and>
    (\<forall>p < e. where_is h' zs' p = seg_at start gs p) \<and> edits i h (set (zs @ xs)) h' (set (zs @ zs' @ xs)) \<and>
    avail h \<le> avail h' + 2 * length gs \<and> map_option inode_rest (inos h' i) = map_option inode_rest (inos h i)"
  using assms
proof (induction gs arbitrary: zs s h)
  case Nil
  from stage_inode[OF Nil.prems(1)] obtain n where "inos h i = Some n" by blast
  moreover have "clone_list i start e (first zs NULL) (final NULL zs) h = Some (first zs NULL, final NULL zs, h\<lparr>rx := bs\<rparr>)"
    by (rule clone_list_Nil) (use Nil.prems(3) in simp)
  moreover have "starts_at (h\<lparr>rx := bs\<rparr>) q a = starts_at h q a" "ends_by (h\<lparr>rx := bs\<rparr>) q a = ends_by h q a" for q a
    by (simp_all add: starts_at_def ends_by_def)
  ultimately show ?case using Nil.prems
    by (intro exI[of _ "[]"] exI[of _ "h\<lparr>rx := bs\<rparr>"])
      (simp add: stage_rx rx_view covers_range_def edits_rx)
next
  case (Cons g gs)
  note st = Cons.prems(1)
  define f where "f = start + g_offset g"
  let ?l = "if f + g_len g > e then e - f else g_len g"
  let ?bs = "concat (map seg_bytes gs) @ end_mark @ bs"
  let ?h = "h\<lparr>rx := ?bs\<rparr>"
  have sg: "\<not> (g_hid g = 0 \<and> g_loid g = 0)" "s \<le> f" "f < f + g_len g" "f < e" "segs_ok start e (f + g_len g) gs"
    using Cons.prems(4) by (simp_all add: f_def)
  have len: "f < f + ?l" "f + ?l \<le> e" "f + ?l \<le> f + g_len g" "p < e \<Longrightarrow> p < f + ?l \<longleftrightarrow> p < f + g_len g" for p
    using sg(3,4) by (auto simp: not_less)
  from stage_inode[OF st] obtain n where n: "inos h i = Some n" by blast
  have st0: "stage ?h i [] zs xs" using st by (simp add: stage_rx)
  from acquire_two[OF st0 Cons.prems(9) _ _ , of n "g_hid g" "g_loid g"] n Cons.prems(7,8) obtain d h1 n1 x where
    h1: "acquire_dobject (g_hid g) (g_loid g) i 2 ?h = Some (d, h1)" "stage h1 i [] zs xs"
    "\<forall>a \<in> set (zs @ xs). view h1 a = view ?h a" "goes i ?h (set (zs @ xs)) h1 (set (zs @ xs))"
    "avail h \<le> Suc (avail h1)" "inos h1 i = Some n1" "d \<in> set (do_map n1)" "dobs h1 d = Some x"
    "host_id (daddr x) = g_hid g" "loid (daddr x) = g_loid g" by (auto simp: dos_up_def)
  have av1: "0 < avail h1" using h1(5) Cons.prems(7) by simp
  define p where "p = brk h1"
  from stage_append[OF h1(2,6,7) av1, of f "g_off_do g" ?l] obtain h2 h3 y where h3:
    "create_extent d f (g_off_do g) ?l h1 = Some (p, h2)" "p \<noteq> NULL"
    "(if zs = [] then Some h2 else upd_ext (final NULL zs) (\<lambda>x. x\<lparr>next_e := p\<rparr>) h2) = Some h3"
    "stage h3 i [] (zs @ [p]) xs" "\<forall>a \<in> set (zs @ xs). view h3 a = view h1 a"
    "goes i h1 (set (zs @ xs)) h3 (set (zs @ [p] @ xs))" "avail h3 = avail h1 - 1"
    "exts h3 p = Some y" "dobj y = d" "off_f y = f" "off_do y = g_off_do g" "len y = ?l"
    "map_option daddr (dobs h3 d) = map_option daddr (dobs h1 d)" "rx h3 = rx h1" unfolding p_def by blast
  have v3: "view h3 a = view h a" if "a \<in> set (zs @ xs)" for a
    using h3(5) h1(3) that by (simp add: rx_view)
  have e3: "edits i h (set (zs @ xs)) h3 (set ((zs @ [p]) @ xs))"
    using edits_trans[OF edits_rx[OF n] edits_trans[OF goes_edits[OF h1(4)] goes_edits[OF h3(6)]]] by simp
  have vz: "view h3 a = view h a" if "a \<in> set zs" for a using v3 that by simp
  have py: "starts_at h3 start p" "ends_by h3 (f + g_len g) p" "ends_by h3 e p" "ordered h3 [p]"
    using h3(8,10,12) len sg(2) Cons.prems(5) by (auto simp: starts_at_def ends_by_def ordered_Cons proper_def intro: order.trans)
  have zz: "starts_at h3 start z" "ends_by h3 s z" "ends_by h3 (f + g_len g) z" "ends_by h3 e z" if "z \<in> set zs" for z
  proof -
    have z: "starts_at h start z" "ends_by h s z" "ends_by h e z" using Cons.prems(6) that by auto
    have "s \<le> f + g_len g" using sg(2,3) by (auto intro: order.trans less_imp_le)
    from ends_by_mono[OF z(2) this] z
    show "starts_at h3 start z" "ends_by h3 s z" "ends_by h3 (f + g_len g) z" "ends_by h3 e z"
      using view_bounds[OF vz[OF that]] by simp_all
  qed
  have oz: "ordered h3 (zs @ [p])"
  proof (rule ordered_joined[of _ _ _ s])
    show "ordered h3 zs" using Cons.prems(2) ordered_view[of zs h3 h, OF vz] by simp
    show "starts_at h3 s z" if "z \<in> set [p]" for z using that h3(8,10) sg(2) by (simp add: starts_at_def)
  qed (use py(4) zz(2) in auto)
  have rx3: "rx h3 = ?bs"
    using h3(14) edits_fields(1)[OF goes_edits[OF h1(4)]] goes_rx[OF h1(4)] by simp
  have up3: "dos_up h3" using Cons.prems(8) edits_fields(8)[OF e3] by (simp add: dos_up_def)
  have av3: "2 * length gs \<le> avail h3" "avail h \<le> avail h3 + 2" using h3(7) h1(5) Cons.prems(7) by simp_all
  have ss: "start \<le> f + g_len g" using Cons.prems(5) sg(2,3) by (auto intro: order.trans less_imp_le)
  have z3: "\<forall>z \<in> set (zs @ [p]). starts_at h3 start z \<and> ends_by h3 (f + g_len g) z \<and> ends_by h3 e z"
    using zz py by auto
  from Cons.IH[OF h3(4) oz rx3 sg(5) ss z3 av3(1) up3 Cons.prems(9)] obtain zs' h' where h':
    "clone_list i start e (first (zs @ [p]) NULL) (final NULL (zs @ [p])) h3 =
      Some (first ((zs @ [p]) @ zs') NULL, final NULL ((zs @ [p]) @ zs'), h')" "stage h' i [] ((zs @ [p]) @ zs') xs"
    "rx h' = bs" "\<And>a. a \<in> set ((zs @ [p]) @ xs) \<Longrightarrow> view h' a = view h3 a" "covers_range h' ((zs @ [p]) @ zs') start e"
    "\<And>q. q < e \<Longrightarrow> where_is h' zs' q = seg_at start gs q"
    "edits i h3 (set ((zs @ [p]) @ xs)) h' (set ((zs @ [p]) @ zs' @ xs))" "avail h3 \<le> avail h' + 2 * length gs"
    "map_option inode_rest (inos h' i) = map_option inode_rest (inos h3 i)" by blast
  have "clone_list i start e (first zs NULL) (final NULL zs) h =
      Some (first (zs @ p # zs') NULL, final NULL (zs @ p # zs'), h')"
  proof -
    have "rx h = seg_bytes g @ ?bs" using Cons.prems(3) by simp
    note C = clone_list_Cons[where start = start and e = e and i = i and alts = "first zs NULL" and tail = "final NULL zs",
        OF this sg(1), folded f_def]
    have nz: "first zs NULL = NULL \<longleftrightarrow> zs = []"
    proof (cases zs)
      case (Cons b bs')
      with st show ?thesis by (auto simp: stage_def)
    qed simp
    have ff: "zs \<noteq> [] \<Longrightarrow> first (zs @ [p]) NULL = first zs NULL" by (cases zs) auto
    show ?thesis using C sg(4) h1(1) h3(1,3) h'(1) nz ff
      by (cases "zs = []") (auto simp: not_less less_imp_le bind_eq_Some_conv)
  qed
  moreover have "where_is h' (p # zs') q = seg_at start (g # gs) q" if "q < e" for q
  proof -
    have vp: "view h' p = view h3 p" by (rule h'(4)) simp
    have "covers h3 q p \<longleftrightarrow> f \<le> q \<and> q < f + g_len g"
      using h3(8,10,12) len(4)[OF that] by (auto simp: covers_def)
    moreover have "place_in h3 p q = (g_hid g, g_loid g, g_off_do g + (q - f))"
      using h3(8-11,13) h1(8-10) by (auto simp: place_in_def split: option.splits)
    ultimately show ?thesis using view_cong(1,2)[OF vp, of q] h'(6)[OF that]
      by (simp add: where_is_Cons f_def)
  qed
  moreover have "edits i h (set (zs @ xs)) h' (set (zs @ (p # zs') @ xs))"
    using edits_trans[OF e3 h'(7)] by simp
  moreover have "map_option inode_rest (inos h' i) = map_option inode_rest (inos h i)"
    using h'(9) h3(6) h1(4) by (auto simp: goes_def file_change_def)
  moreover have "view h' a = view h a" if "a \<in> set (zs @ xs)" for a
    using h'(4)[of a] v3[OF that] that by simp
  ultimately show ?case using h'(2,3,5,8) av3(2)
    by (intro exI[of _ "p # zs'"] exI[of _ h']) simp
qed

section \<open>pado_clone\<close>

lemma pado_clone_correct:
  assumes f: "file_ok h i xs" and n: "inos h i = Some n" and i: "i \<noteq> NULL"
    and rx: "rx h = concat (map seg_bytes gs) @ end_mark @ bs" and sg: "segs_ok start e start gs" and lt: "start < e"
    and av: "2 * length gs < avail h" and up: "dos_up h"
  shows "\<exists>h' ys n'. pado_clone i start e h = Some (ret_code SUCCESS, h') \<and> file_ok h' i ys \<and>
    (\<forall>p. where_is h' ys p = (if start \<le> p \<and> p < e then seg_at start gs p else where_is h xs p)) \<and>
    inos h' i = Some n' \<and> inode_rest n' = inode_rest (touch (clock h) (n\<lparr>isize := max (isize n) e\<rparr>)) \<and>
    edits i h (set xs) h' (set ys) \<and> rx h' = bs \<and> takes (2 * length gs + 1) h h'"
proof -
  have st: "stage h i [] [] xs" and o: "ordered h xs" and bd: "\<And>p. isize n \<le> p \<Longrightarrow> where_is h xs p = None"
    using f n by (auto simp: file_ok_def)
  have av': "2 * length gs \<le> avail h" using av by simp
  from clone_list_correct[OF st _ rx sg order_refl _ av' up i] obtain zs h1 where h1:
    "clone_list i start e NULL NULL h = Some (first zs NULL, final NULL zs, h1)" "stage h1 i [] zs xs" "rx h1 = bs"
    "\<And>a. a \<in> set xs \<Longrightarrow> view h1 a = view h a" "covers_range h1 zs start e"
    "\<And>p. p < e \<Longrightarrow> where_is h1 zs p = seg_at start gs p" "edits i h (set xs) h1 (set (zs @ xs))"
    "avail h \<le> avail h1 + 2 * length gs" "map_option inode_rest (inos h1 i) = map_option inode_rest (inos h i)" by auto
  obtain n1 where n1: "inos h1 i = Some n1" "inode_rest n1 = inode_rest n" using h1(9) n by auto
  have o1: "ordered h1 xs" using o ordered_view[of xs h1 h, OF h1(4)] by simp
  have w1: "where_is h1 xs p = where_is h xs p" for p by (rule where_is_view) (rule h1(4))
  let ?g = "\<lambda>n. n\<lparr>isize := max (isize n) e\<rparr>"
  define h2 where "h2 = mod_ino i ?g h1"
  have n2: "inos h2 i = Some (?g n1)" using n1(1) by (simp add: h2_def)
  have s2: "stage h2 i [] zs xs" "ordered h2 xs" "covers_range h2 zs start e"
    using h1(2,5) o1 by (simp_all add: h2_def meta_stage meta_view covers_range_def starts_at_def ends_by_def)
  have av2: "0 < avail h2" using h1(8) av by (simp add: h2_def)
  from replace_correct[OF s2 lt av2] obtain h3 ys where h3:
    "replace i (first zs NULL) (final NULL zs) start e h2 = Some h3" "stage h3 i [] [] ys" "ordered h3 ys"
    "\<And>p. where_is h3 ys p = over h2 start e zs xs p" "goes i h2 (set (zs @ xs)) h3 (set ys)" by (auto simp: stage_all)
  obtain n3 where n3: "inos h3 i = Some n3" "inode_rest n3 = inode_rest (?g n1)" by (rule goes_inode[OF h3(5) n2])
  define h4 where "h4 = mod_ino i (touch (clock h)) h3"
  have e2: "edits i h (set xs) h2 (set (zs @ xs))"
    unfolding h2_def by (rule edits_trans[OF h1(7) meta_edits[OF _ n1(1)]]) simp
  have e3: "edits i h (set xs) h3 (set ys)" by (rule edits_trans[OF e2 goes_edits[OF h3(5)]])
  have "pado_clone i start e h = Some (ret_code SUCCESS, h4)"
    using h1(1) n1(1) h3(1) n3(1) edits_fields(3)[OF e3]
    by (simp add: pado_clone_def upd_ino_def h2_def[symmetric] h4_def)
  moreover have w: "where_is h4 ys p = (if start \<le> p \<and> p < e then seg_at start gs p else where_is h xs p)" for p
    using h3(4)[of p] h1(6)[of p] w1[of p] by (simp add: h4_def meta_view over_def h2_def)
  moreover have rest: "inode_rest (touch (clock h) n3) = inode_rest (touch (clock h) (n\<lparr>isize := max (isize n) e\<rparr>))"
    using n3(2) n1(2) inode_rest_isize[OF n1(2)] by (simp add: inode_rest_simps)
  moreover have n4: "inos h4 i = Some (touch (clock h) n3)" using n3(1) by (simp add: h4_def)
  moreover have "file_ok h4 i ys"
  proof -
    have sz: "isize (touch (clock h) n3) = max (isize n) e"
      using inode_rest_isize[OF rest] by (simp add: touch_def)
    have "where_is h4 ys q = None" if "max (isize n) e \<le> q" for q
      using w[of q] bd[of q] that by (auto simp: not_less)
    moreover have "stage h4 i [] [] ys" "ordered h4 ys" using h3(2,3) by (simp_all add: h4_def meta_stage meta_view)
    ultimately show ?thesis using n4 sz by (simp add: file_ok_def)
  qed
  moreover have "edits i h (set xs) h4 (set ys)"
    unfolding h4_def by (rule edits_trans[OF e3 meta_edits[OF _ n3(1)]]) simp
  moreover have "takes (2 * length gs + 1) h h4"
    using h1(8) takes_replace[OF h3(1)] by (simp add: takes_def h2_def h4_def)
  moreover have "rx h4 = bs" using h1(3) goes_rx[OF h3(5)] by (simp add: h4_def h2_def)
  ultimately show ?thesis by blast
qed

end
