(* ===== verification/Checks.thy ===== *)
theory Checks
  imports File_Correct Inode_Server
begin

text \<open>
  The consistency checks that the server runs after a command (\<^verbatim>\<open>print_inode\<close> in
  \<^verbatim>\<open>test.c\<close>) pass on every well formed file.
\<close>

section \<open>Climbing to the root\<close>

lemma climb_focus: "focus h i (Bin l a d r) C \<Longrightarrow> climb a h = Some ()"
proof (induction C arbitrary: l a d r)
  case Nil
  from focus_BinD(14)[OF Nil] obtain e where "exts h a = Some e" "parent e = NULL" by (auto simp: tnode_def)
  then show ?case by (subst climb.simps) simp
next
  case (Cons f C)
  from focus_BinD(14)[OF Cons.prems] obtain e where e: "exts h a = Some e" "parent e = hole_parent (f # C)"
    by (auto simp: tnode_def)
  have "\<exists>l' d' r'. focus h i (Bin l' (parent e) d' r') C"
  proof (cases f)
    case (LFrame b d' r')
    with Cons.prems e(2) show ?thesis by (auto simp: focus_up)
  next
    case (RFrame l' b d')
    with Cons.prems e(2) show ?thesis by (auto simp: focus_up)
  qed
  with Cons.IH e(1) show ?case by (subst climb.simps) auto
qed

lemma layout_node:
  assumes "layout h i t" "a \<in> addrs t"
  obtains l d r C where "plug C (Bin l a d r) = t" "focus h i (Bin l a d r) C"
proof -
  from assms(2) obtain as ds where s: "inorder t = as @ a # ds" by (auto dest: split_list)
  from assms(1) have "distinct (inorder t)" "focus h i t []" by (auto simp: layout_def focus_def)
  with node_exists[OF s] obtain l d r C where C: "plug C (Bin l a d r) = t" by blast
  have "focus h i (Bin l a d r) C" using \<open>focus h i t []\<close> by (simp flip: C add: focus_plug)
  with C show ?thesis by (rule that)
qed

lemma climb_layout: "layout h i t \<Longrightarrow> a \<in> addrs t \<Longrightarrow> climb a h = Some ()"
  by (erule (1) layout_node) (rule climb_focus)

section \<open>The depth\<close>

lemma avl_size: "avl t \<Longrightarrow> 2 ^ (nat (dep t) div 2) \<le> length (inorder t) + 1"
proof (induction t)
  case (Bin l a d r)
  have nn: "0 \<le> dep l" "0 \<le> dep r" using Bin.prems avl_dep_nonneg by auto
  define m where "m = nat (min (dep l) (dep r))"
  have d: "nat d \<le> m + 2" using Bin.prems nn by (auto simp: m_def)
  have p: "(2::nat) ^ (m div 2) \<le> 2 ^ (nat k div 2)" if "min (dep l) (dep r) \<le> k" for k
    using that nn by (intro power_increasing div_le_mono) (auto simp: m_def)
  have "2 ^ (m div 2) \<le> length (inorder l) + 1" by (rule order.trans[OF p Bin.IH(1)]) (use Bin.prems in auto)
  moreover have "2 ^ (m div 2) \<le> length (inorder r) + 1" by (rule order.trans[OF p Bin.IH(2)]) (use Bin.prems in auto)
  moreover have "(2::nat) ^ (nat d div 2) \<le> 2 ^ ((m + 2) div 2)" using d by (intro power_increasing div_le_mono) auto
  ultimately show ?case by simp
qed simp

lemma avl_plug_length: "length (inorder t) \<le> length (inorder (plug C t))"
proof (induction C arbitrary: t)
  case (Cons f C)
  show ?case using Cons.IH[of "plug1 f t"] by (cases f) auto
qed simp

lemma depth_bound:
  assumes "layout h i t" "a \<in> addrs t" "exts h a = Some e"
  shows "0 < depth e \<and> 2 ^ (nat (depth e) div 2) \<le> length (inorder t) + 1"
proof -
  from layout_node[OF assms(1,2)] obtain l d r C where
    C: "plug C (Bin l a d r) = t" "focus h i (Bin l a d r) C" .
  have "avl t" using assms(1) by (simp add: layout_def)
  then have v: "avl (Bin l a d r)" using C(1) avl_plug by blast
  have "depth e = d" using focus_BinD(14)[OF C(2)] assms(3) by (auto simp: tnode_def)
  moreover have "2 ^ (nat d div 2) \<le> length (inorder (Bin l a d r)) + 1" using avl_size[OF v] by simp
  moreover have "length (inorder (Bin l a d r)) \<le> length (inorder t)"
    using avl_plug_length[of "Bin l a d r" C] C(1) by simp
  ultimately show ?thesis using avl_dep_pos[OF v] by simp
qed

section \<open>The extents\<close>

lemma print_extents_correct:
  assumes L: "layout h i t" "inorder t = as @ ds" and o: "owned h i (set (as @ ds))" "ordered h (as @ ds)"
  shows "print_extents (first ds NULL) num h = Some (num + of_nat (length ds))"
  using L(2) o
proof (induction ds arbitrary: as num)
  case Nil
  then show ?case by (subst print_extents.simps) simp
next
  case (Cons a ds)
  from ordered_ext[OF Cons.prems(3), of a] obtain e where e: "exts h a = Some e" by auto
  have a: "a \<in> addrs t" "a \<noteq> NULL" using Cons.prems(1) layout_not_NULL[OF L(1)] by auto
  have "next_e e = first ds NULL"
    using dll_next[of prev_e next_e h NULL as a ds NULL] L(1) Cons.prems(1) e by (simp add: layout_def fld_def)
  moreover have "check_extent a False h = Some ()"
  proof (rule check_extent_ok[OF L(1) Cons.prems(1,2)])
    show "ordered h (as @ [a])" using Cons.prems(3) by (auto simp: ordered_append ordered_Cons)
    show "False \<or> ds = [] \<or> precedes h a (hd ds)"
      using Cons.prems(3) by (cases ds) (auto simp: ordered_append ordered_Cons)
  qed simp
  moreover have "print_extents (first ds NULL) (num + 1) h = Some (num + 1 + of_nat (length ds))"
    using Cons.IH[of "as @ [a]"] Cons.prems by simp
  ultimately show ?case using climb_layout[OF L(1) a(1)] a(2) e
    by (subst print_extents.simps) (simp add: ac_simps)
qed

section \<open>The search tree\<close>

lemma check_bst_correct:
  assumes "tr h p s t" "t \<noteq> Tip" "ordered h (inorder t)"
  shows "\<exists>e f. check_bst (root t) h = Some (off_f f + len f, off_f e) \<and>
    exts h (hd (inorder t)) = Some e \<and> exts h (last (inorder t)) = Some f"
  using assms
proof (induction t arbitrary: p s)
  case (Bin l a d r)
  from Bin.prems(1) obtain x where x: "exts h a = Some x" "left x = root l" "right x = root r"
    and lr: "tr h a (SLeft a) l" "tr h a (SRight a) r" by (auto simp: tnode_def)
  have o: "ordered h (inorder l)" "ordered h (inorder r)" "\<And>b. b \<in> set (inorder l) \<Longrightarrow> precedes h b a"
    using Bin.prems(3) by (auto simp: ordered_append ordered_Cons)
  have NN: "root l = NULL \<longleftrightarrow> l = Tip" "root r = NULL \<longleftrightarrow> r = Tip"
    using tr_root_NULL[OF lr(1)] tr_root_NULL[OF lr(2)] by simp_all
  have L: "\<exists>e. (if left x \<noteq> NULL then do { (cmax, cmin) \<leftarrow> check_bst (left x) h; ensure (cmin \<le> off_f x); Some cmin }
      else Some (off_f x)) = Some (off_f e) \<and> exts h (hd (inorder l @ [a])) = Some e"
  proof (cases "l = Tip")
    case False
    from Bin.IH(1)[OF lr(1) this o(1)] obtain e f where e: "check_bst (root l) h = Some (off_f f + len f, off_f e)"
      "exts h (hd (inorder l)) = Some e" "exts h (last (inorder l)) = Some f" by blast
    have ne: "inorder l \<noteq> []" using False by (cases l) auto
    then have h: "hd (inorder l) \<in> set (inorder l)" by simp
    from ordered_ext[OF o(1) h] e(2) have "proper e" by simp
    then have "off_f e \<le> off_f e + len e" by (rule proper_le)
    also have "\<dots> \<le> off_f x" using o(3)[OF h] e(2) x(1) by (auto simp: precedes_bounds)
    finally have "off_f e \<le> off_f x" .
    with e ne x(2) False NN show ?thesis by simp
  qed (use x NN in simp)
  have R: "\<exists>f. (if right x \<noteq> NULL then do { (cmax, cmin) \<leftarrow> check_bst (right x) h; Some cmax }
      else Some (off_f x + len x)) = Some (off_f f + len f) \<and> exts h (last (a # inorder r)) = Some f"
  proof (cases "r = Tip")
    case False
    from Bin.IH(2)[OF lr(2) this o(2)] obtain e f where "check_bst (root r) h = Some (off_f f + len f, off_f e)"
      "exts h (hd (inorder r)) = Some e" "exts h (last (inorder r)) = Some f" by blast
    moreover have "inorder r \<noteq> []" using False by (cases r) auto
    ultimately show ?thesis using x(3) False NN by simp
  qed (use x NN in simp)
  from L obtain e where e: "(if left x \<noteq> NULL then do { (cmax, cmin) \<leftarrow> check_bst (left x) h; ensure (cmin \<le> off_f x); Some cmin }
      else Some (off_f x)) = Some (off_f e)" "exts h (hd (inorder l @ [a])) = Some e" by blast
  from R obtain f where f: "(if right x \<noteq> NULL then do { (cmax, cmin) \<leftarrow> check_bst (right x) h; Some cmax }
      else Some (off_f x + len x)) = Some (off_f f + len f)" "exts h (last (a # inorder r)) = Some f" by blast
  have "check_bst a h = Some (off_f f + len f, off_f e)"
    by (subst check_bst.simps) (simp only: x(1) Let_def Option.bind.bind_lunit e(1) f(1))
  moreover have "hd (inorder (Bin l a d r)) = hd (inorder l @ [a])" by (cases "inorder l") simp_all
  ultimately show ?case using e(2) f(2) by auto
qed simp

section \<open>print_inode\<close>

lemma rd_un:
  assumes "inos h i = Some n" "rwlock n = LkFree"
  shows "\<exists>k. on_rwlock (lk_rd (self h)) i h = Some k \<and> k = mod_ino i (\<lambda>n. n\<lparr>rwlock := LkRd 1\<rparr>) h \<and>
    on_rwlock lk_un i k = Some h"
proof -
  have "n\<lparr>rwlock := LkFree\<rparr> = n" using assms(2) by (cases n) simp
  then have "mod_ino i (\<lambda>n. n\<lparr>rwlock := LkFree\<rparr>) (mod_ino i (\<lambda>n. n\<lparr>rwlock := LkRd 1\<rparr>) h) = h"
    using assms(1) by (intro store.equality) (auto simp: mod_ino_def fun_eq_iff)
  then show ?thesis using assms by (simp add: on_rwlock_def upd_ino_def)
qed

lemma find_start_zero:
  assumes "file_ok h i xs"
  shows "find_start_extent i 0 h = Some (first xs NULL)"
proof -
  from assms obtain t where t: "layout h i t" "inorder t = xs" and o: "ordered h xs"
    by (auto simp: file_ok_def stage_def)
  have "ends_after h 0 a" if "a \<in> set xs" for a
    using ordered_ext[OF o that] by (auto simp: ends_after_def proper_def)
      (metis less_le_trans word_gt_0 word_zero_le le_less_trans)
  then have "filter (ends_after h 0) xs = xs" by (simp add: filter_id_conv)
  then show ?thesis using find_start_extent_correct[OF t(1), of 0] t(2) o by simp
qed

lemma print_inode_correct:
  assumes f: "file_ok h i xs" and n: "inos h i = Some n" and l: "rwlock n = LkFree" and i: "i \<noteq> NULL"
  shows "print_inode i h = Some h"
proof -
  from rd_un[OF n l] obtain k where k: "on_rwlock (lk_rd (self h)) i h = Some k"
    "k = mod_ino i (\<lambda>n. n\<lparr>rwlock := LkRd 1\<rparr>) h" "on_rwlock lk_un i k = Some h" by blast
  let ?n = "n\<lparr>rwlock := LkRd 1\<rparr>"
  have nk: "inos k i = Some ?n" using n by (simp add: k(2))
  have m: "meta_only (\<lambda>n. n\<lparr>rwlock := LkRd 1\<rparr>)" by (simp add: meta_only_def)
  from f have "stage k i [] [] xs" unfolding k(2) meta_stage[OF m] by (simp add: file_ok_def)
  with f n have fk: "file_ok k i xs" by (auto simp: file_ok_def k(2) meta_view)
  then obtain t where t: "layout k i t" "inorder t = xs" and o: "owned k i (set xs)" "ordered k xs"
    and di: "distinct xs" by (auto simp: file_ok_def stage_def)
  have F: "find_start_extent i 0 k = Some (first xs NULL)" by (rule find_start_zero[OF fk])
  have P: "print_extents (first xs NULL) 0 k = Some (of_nat (length xs))"
    using print_extents_correct[of k i t "[]" xs 0] t o by simp
  have N: "num_exts ?n = of_nat (length xs)" using o(1) nk di by (auto simp: owned_def distinct_card)
  have fl: "flayout ?n = root t" using t(1) nk by (auto simp: layout_def focus_def)
  have B: "(if flayout ?n \<noteq> NULL then do { (mx, mn) \<leftarrow> check_bst (flayout ?n) k; ensure (isize ?n \<ge> mx) } else Some ())
      = Some ()"
  proof (cases "t = Tip")
    case False
    have "tr k NULL (SFlayout i) t" using t(1) by (simp add: layout_def focus_def)
    from check_bst_correct[OF this False] o(2) obtain e f where
      e: "check_bst (root t) k = Some (off_f f + len f, off_f e)" "exts k (hd xs) = Some e"
      "exts k (last xs) = Some f" unfolding t(2) by blast
    have "xs \<noteq> []" using t(2) False by (cases t) auto
    then have "last xs \<in> set xs" by simp
    from file_ok_bound[OF fk nk this] e(3) have "off_f f + len f \<le> isize ?n" by (simp add: ends_by_def)
    with e(1) fl show ?thesis by simp
  qed (simp only: fl root.simps, simp)
  have i': "i = NULL \<longleftrightarrow> False" using i by simp
  show ?thesis
    unfolding print_inode_def i' if_False k(1) Option.bind.bind_lunit nk F P N B
    by (simp add: k(3))
qed

end
