(* ===== verification/Handler_Correct.thy ===== *)
theory Handler_Correct
  imports Clone_Correct Checks Inode_Table Memory
begin

text \<open>
  Requests from end to end: the handler reads its arguments, takes the lock of the inode, works on
  the layout, gives the lock back, and the checks of the debug build pass.
\<close>

section \<open>What a file depends on\<close>

lemma file_same_fresh:
  assumes "exts h' = exts h" "dobs h' = dobs h" "inos h' i = inos h i" "fresh_ok h' = fresh_ok h"
  shows "file_ok h' i xs = file_ok h i xs" "where_is h' xs p = where_is h xs p" "view h' a = view h a"
proof -
  show v: "view h' a = view h a" for a by (simp add: view_def assms)
  show w: "where_is h' xs p = where_is h xs p" for p by (rule where_is_view) (rule v)
  have "ordered h' xs = ordered h xs" by (rule ordered_view) (rule v)
  moreover have "layout h' i t = layout h i t" for t by (rule layout_cong) (simp_all add: null_ok_def assms)
  moreover have "owned h' i X = owned h i X" for X
    using owned_cong[of X h' h i] owned_cong[of X h h' i] assms by auto
  moreover have "fresh_ok h' = fresh_ok h" by (rule assms)
  moreover have "chain h' a [] = chain h a []" for a by simp
  ultimately show "file_ok h' i xs = file_ok h i xs" by (simp add: file_ok_def stage_def w assms)
qed

lemma file_same:
  assumes "exts h' = exts h" "dobs h' = dobs h" "inos h' i = inos h i" "brk h' = brk h"
  shows "file_ok h' i xs = file_ok h i xs" "where_is h' xs p = where_is h xs p" "view h' a = view h a"
  using file_same_fresh[of h' h i] by (simp_all add: fresh_ok_def assms)

lemma file_meta:
  assumes "meta_only g" "\<And>n. isize (g n) = isize n"
  shows "file_ok (mod_ino i g h) i xs = file_ok h i xs"
proof (cases "inos h i")
  case (Some n)
  then show ?thesis using assms(2) by (simp add: file_ok_def meta_stage[OF assms(1)] meta_view)
qed (simp add: file_ok_def)

lemma meta_locks [simp]: "meta_only (\<lambda>n. n\<lparr>rwlock := l\<rparr>)" "meta_only (\<lambda>n. n\<lparr>alive := l\<rparr>)"
  by (simp_all add: meta_only_def)

section \<open>A handler under the lock of its inode\<close>

definition relocks :: "(inode \<Rightarrow> inode) \<Rightarrow> bool" where
  "relocks g \<longleftrightarrow> (\<forall>n l. inode_rest (g (n\<lparr>rwlock := l\<rparr>)) = (inode_rest (g n))\<lparr>rwlock := l\<rparr>)"

lemma relocks_simps [simp]: "relocks (\<lambda>n. touch t (n\<lparr>isize := max (isize n) e\<rparr>))"
  "relocks (\<lambda>n. touch t (n\<lparr>isize := e\<rparr>))" "relocks (\<lambda>n. n)"
  by (simp_all add: relocks_def inode_rest_def touch_def)

lemma locked_op:
  assumes n: "inos h i = Some n" "rwlock n = LkFree" and g: "relocks g"
  defines "k \<equiv> mod_ino i (\<lambda>n. n\<lparr>rwlock := LkWr (self h)\<rparr>) h"
  assumes f: "f (n\<lparr>rwlock := LkWr (self h)\<rparr>) k = Some (ret, fr, k')"
    and e: "edits i k X k' X'" and m: "inos k' i = Some m"
      "inode_rest m = inode_rest (g (n\<lparr>rwlock := LkWr (self h)\<rparr>))" and ok: "file_ok k' i ys"
  shows "\<exists>h' n'. with_wrlock i f h = Some (ret, fr, h') \<and> file_ok h' i ys \<and>
    (\<forall>p. where_is h' ys p = where_is k' ys p) \<and> edits i h X h' X' \<and> inos h' i = Some n' \<and>
    inode_rest n' = (inode_rest (g n))\<lparr>rwlock := LkFree\<rparr> \<and> rx h' = rx k' \<and> do_map n' = do_map m \<and>
    avail h' = avail k'"
proof -
  define h' where "h' = mod_ino i (\<lambda>n. n\<lparr>rwlock := LkFree\<rparr>) k'"
  have rl: "rwlock m = LkWr (self h)"
  proof -
    have "rwlock m = rwlock (inode_rest m)" by (simp add: inode_rest_def)
    with m(2) g show ?thesis by (simp add: relocks_def)
  qed
  have kn: "inos k i = Some (n\<lparr>rwlock := LkWr (self h)\<rparr>)" using n(1) by (simp add: k_def)
  have "with_wrlock i f h = Some (ret, fr, h')"
    using n kn f m(1) rl by (simp add: with_wrlock_def on_rwlock_def upd_ino_def k_def[symmetric] h'_def)
  moreover have "file_ok h' i ys" using ok unfolding h'_def by (subst file_meta) simp_all
  moreover have "where_is h' ys p = where_is k' ys p" for p by (simp add: h'_def meta_view)
  moreover have "edits i h X h' X'"
    unfolding h'_def using edits_trans[OF _ edits_trans[OF e meta_edits[OF _ m(1)]]] meta_edits[OF _ n(1)]
    by (simp add: k_def)
  moreover have "inos h' i = Some (m\<lparr>rwlock := LkFree\<rparr>)" using m(1) by (simp add: h'_def)
  moreover have "inode_rest (m\<lparr>rwlock := LkFree\<rparr>) = (inode_rest (g n))\<lparr>rwlock := LkFree\<rparr>"
  proof -
    have "inode_rest (m\<lparr>rwlock := LkFree\<rparr>) = (inode_rest m)\<lparr>rwlock := LkFree\<rparr>" by (simp add: inode_rest_def)
    then show ?thesis using m(2) g by (simp add: relocks_def)
  qed
  moreover have "rx h' = rx k'" "avail h' = avail k'" by (simp_all add: h'_def)
  ultimately show ?thesis by auto
qed

text \<open>The lock is held while the operation runs.\<close>

lemma locked_file:
  assumes "file_ok h i xs" "inos h i = Some n"
  defines "k \<equiv> mod_ino i (\<lambda>n. n\<lparr>rwlock := LkWr (self h)\<rparr>) h"
  shows "file_ok k i xs" "inos k i = Some (n\<lparr>rwlock := LkWr (self h)\<rparr>)" "\<And>p. where_is k xs p = where_is h xs p"
    "avail k = avail h" "clock k = clock h" "dos_srv k = dos_srv h" "rx k = rx h" "dobs k = dobs h"
  using assms by (simp_all add: file_meta k_def meta_view)

lemma unlocked_rest: "rwlock n = LkFree \<Longrightarrow> relocks g \<Longrightarrow> (inode_rest (g n))\<lparr>rwlock := LkFree\<rparr> = inode_rest (g n)"
proof -
  assume a: "rwlock n = LkFree" "relocks g"
  have "n\<lparr>rwlock := LkFree\<rparr> = n" using a(1) by (cases n) simp
  with a(2) show ?thesis unfolding relocks_def by metis
qed

section \<open>WRITE\<close>

text \<open>A range is written, in a data object that is there or created.\<close>

lemma write_place:
  assumes f: "file_ok k i xs" and n: "inos k i = Some n" and i: "i \<noteq> NULL" and lt: "fo < fo + ln" and av: "3 \<le> avail k"
  shows "\<exists>d k1 k2 ys n2. acquire_dobject hid l i 1 k = Some (d, k1) \<and> pado_write d fo od ln k1 = Some (ret_code SUCCESS, k2) \<and>
    file_ok k2 i ys \<and>
    (\<forall>p. where_is k2 ys p = (if fo \<le> p \<and> p < fo + ln then Some (hid, l, od + (p - fo)) else where_is k xs p)) \<and>
    inos k2 i = Some n2 \<and> inode_rest n2 = inode_rest (touch (clock k) (n\<lparr>isize := max (isize n) (fo + ln)\<rparr>)) \<and>
    edits i k (set xs) k2 (set ys) \<and> avail k \<le> avail k2 + 3 \<and> rx k2 = rx k"
proof -
  from f n have sk: "stage k i [] [] xs" and ok: "ordered k xs"
    and bd: "\<And>p. isize n \<le> p \<Longrightarrow> where_is k xs p = None" by (auto simp: file_ok_def)
  from acquire_dobject_stage[OF sk i n, of 1 hid l] av obtain d k1 n1 x where
    k1: "acquire_dobject hid l i 1 k = Some (d, k1)" "stage k1 i [] [] xs"
    "\<And>a. a \<in> set xs \<Longrightarrow> view k1 a = view k a" "goes i k (set xs) k1 (set xs)" "avail k \<le> Suc (avail k1)"
    "inos k1 i = Some n1" "d \<in> set (do_map n1)" "dobs k1 d = Some x" "host_id (daddr x) = hid" "loid (daddr x) = l"
    by fastforce
  have r1: "inode_rest n1 = inode_rest n" using goes_inode[OF k1(4) n] k1(6) by (metis option.inject)
  have w1: "where_is k1 xs p = where_is k xs p" for p by (rule where_is_view) (rule k1(3))
  have "ordered k1 xs" using ok ordered_view[of xs k1 k, OF k1(3)] by simp
  with k1(2,6) bd inode_rest_isize[OF r1] w1 have f1: "file_ok k1 i xs" by (simp add: file_ok_def)
  have av1: "2 \<le> avail k1" using k1(5) av by simp
  from pado_write_correct[OF f1 k1(6,7,8) lt av1, of od] obtain k2 ys n2 where k2:
    "pado_write d fo od ln k1 = Some (ret_code SUCCESS, k2)" "file_ok k2 i ys"
    "\<And>p. where_is k2 ys p = (if fo \<le> p \<and> p < fo + ln then Some (hid, l, od + (p - fo)) else where_is k1 xs p)"
    "inos k2 i = Some n2" "inode_rest n2 = inode_rest (touch (clock k1) (n1\<lparr>isize := max (isize n1) (fo + ln)\<rparr>))"
    "edits i k1 (set xs) k2 (set ys)" "rx k2 = rx k1" unfolding k1(9,10) by blast
  have e: "edits i k (set xs) k2 (set ys)" by (rule edits_trans[OF goes_edits[OF k1(4)] k2(6)])
  have ck: "clock k1 = clock k" by (rule edits_fields(3)[OF goes_edits[OF k1(4)]])
  have "inode_rest n2 = inode_rest (touch (clock k) (n\<lparr>isize := max (isize n) (fo + ln)\<rparr>))"
    using k2(5) r1 inode_rest_isize[OF r1] by (simp add: ck inode_rest_simps)
  moreover have "avail k \<le> avail k2 + 3" using takes_pado_write[OF k2(1)] k1(5) by (simp add: takes_def)
  moreover have "rx k2 = rx k" using k2(7) goes_rx[OF k1(4)] by simp
  ultimately show ?thesis using k1(1) k2(1,2,4) k2(3)[unfolded w1] e
    by (intro exI[of _ d] exI[of _ k1] exI[of _ k2] exI[of _ ys] exI[of _ n2]) simp
qed

lemma cmd_write_correct:
  assumes f: "file_ok h i xs" and n: "inos h i = Some n" "rwlock n = LkFree" "\<not> is_deleted n" and i: "i \<noteq> NULL"
    and rx: "rx h = le 4 hid @ le 8 l @ le 8 fo @ le 8 od @ le 8 ln @ bs" and lt: "fo < fo + ln" and av: "3 \<le> avail h"
  shows "\<exists>h' ys n'. cmd_write i h = Some (ret_code SUCCESS, False, h') \<and> file_ok h' i ys \<and>
    (\<forall>p. where_is h' ys p = (if fo \<le> p \<and> p < fo + ln then Some (hid, l, od + (p - fo)) else where_is h xs p)) \<and>
    inos h' i = Some n' \<and> inode_rest n' = inode_rest (touch (clock h) (n\<lparr>isize := max (isize n) (fo + ln)\<rparr>)) \<and>
    edits i h (set xs) h' (set ys) \<and> takes 3 h h'"
proof -
  let ?h = "h\<lparr>rx := bs\<rparr>"
  define k where "k = mod_ino i (\<lambda>n. n\<lparr>rwlock := LkWr (self ?h)\<rparr>) ?h"
  have f0: "file_ok ?h i xs" using f by (simp add: file_ok_rx)
  have n0: "inos ?h i = Some n" using n(1) by simp
  note K = locked_file[OF f0 n0, folded k_def]
  let ?n = "n\<lparr>rwlock := LkWr (self ?h)\<rparr>"
  have ck: "clock k = clock h" using K(5) by simp
  let ?g = "\<lambda>n. touch (clock h) (n\<lparr>isize := max (isize n) (fo + ln)\<rparr>)"
  from write_place[OF K(1,2) i lt, of hid l od] K(4) av obtain d k1 k2 ys n2 where k1:
    "acquire_dobject hid l i 1 k = Some (d, k1)" "pado_write d fo od ln k1 = Some (ret_code SUCCESS, k2)" and k2: "file_ok k2 i ys"
    "\<And>p. where_is k2 ys p = (if fo \<le> p \<and> p < fo + ln then Some (hid, l, od + (p - fo)) else where_is k xs p)"
    "inos k2 i = Some n2" "inode_rest n2 = inode_rest (?g ?n)" "edits i k (set xs) k2 (set ys)" "avail k \<le> avail k2 + 3" unfolding ck by auto
  let ?f = "unless_deleted (\<lambda>h. do {
        (d, h) \<leftarrow> acquire_dobject hid l i 1 h;
        (ret, h) \<leftarrow> pado_write d fo od ln h;
        Some (ret, False, h) })"
  have ev: "?f ?n k = Some (ret_code SUCCESS, False, k2)"
    using n(3) k1 by (simp add: unless_deleted_def is_deleted_def)
  from locked_op[where f = ?f and g = ?g, OF n0 n(2) _ ev[unfolded k_def] k2(5)[unfolded k_def] k2(3,4,1)] obtain h' n' where h':
    "with_wrlock i ?f ?h = Some (ret_code SUCCESS, False, h')" "file_ok h' i ys"
    "\<And>p. where_is h' ys p = where_is k2 ys p" "edits i ?h (set xs) h' (set ys)" "inos h' i = Some n'"
    "inode_rest n' = (inode_rest (?g n))\<lparr>rwlock := LkFree\<rparr>" "avail h' = avail k2" by auto
  have tk: "takes 3 h h'" using k2(6) K(4) h'(7) by (simp add: takes_def)
  have "rd_u64 (h\<lparr>rx := le 8 v @ b\<rparr>) = Some (v, h\<lparr>rx := b\<rparr>)" for v b by (subst rd_words(2)) simp_all
  with rd_words(1)[OF rx] i h'(1) have "cmd_write i h = Some (ret_code SUCCESS, False, h')"
    by (simp add: cmd_write_def)
  moreover have "edits i h (set xs) h' (set ys)" by (rule edits_trans[OF edits_rx[OF n(1)] h'(4)])
  moreover have "inode_rest n' = inode_rest (?g n)" using h'(6) unlocked_rest[OF n(2), of ?g] by simp
  moreover have "where_is h' ys p = (if fo \<le> p \<and> p < fo + ln then Some (hid, l, od + (p - fo)) else where_is h xs p)" for p
    using h'(3)[of p] k2(2)[of p] K(3)[of p] by (simp add: rx_view)
  ultimately show ?thesis using h'(2,5) tk by blast
qed

section \<open>TRUNCATE, CLONE_TO, REMOVE_DOBJ\<close>

lemma rd_u64_eval: "rd_u64 (h\<lparr>rx := le 8 v @ b\<rparr>) = Some (v, h\<lparr>rx := b\<rparr>)"
  by (subst rd_words(2)) simp_all

lemma cmd_truncate_correct:
  assumes f: "file_ok h i xs" and n: "inos h i = Some n" "rwlock n = LkFree" "\<not> is_deleted n" and i: "i \<noteq> NULL"
    and rx: "rx h = le 8 new @ bs" and av: "0 < avail h"
  shows "\<exists>h' ys n'. cmd_truncate i h = Some (ret_code SUCCESS, False, h') \<and> file_ok h' i ys \<and>
    (\<forall>p. where_is h' ys p = (if p < new then where_is h xs p else None)) \<and>
    inos h' i = Some n' \<and> inode_rest n' = inode_rest (touch (clock h) (n\<lparr>isize := new\<rparr>)) \<and>
    edits i h (set xs) h' (set ys) \<and> takes 1 h h'"
proof -
  let ?h = "h\<lparr>rx := bs\<rparr>" and ?g = "\<lambda>n. touch (clock h) (n\<lparr>isize := new\<rparr>)"
  define k where "k = mod_ino i (\<lambda>n. n\<lparr>rwlock := LkWr (self ?h)\<rparr>) ?h"
  have f0: "file_ok ?h i xs" using f by (simp add: file_ok_rx)
  have n0: "inos ?h i = Some n" using n(1) by simp
  note K = locked_file[OF f0 n0, folded k_def]
  let ?n = "n\<lparr>rwlock := LkWr (self ?h)\<rparr>"
  from pado_truncate_correct[OF K(1,2), of new] K(4,5) av obtain k2 ys n2 where k2:
    "pado_truncate i new k = Some (ret_code SUCCESS, k2)" "file_ok k2 i ys"
    "\<And>p. where_is k2 ys p = (if p < new then where_is k xs p else None)" "inos k2 i = Some n2"
    "inode_rest n2 = inode_rest (?g ?n)" "edits i k (set xs) k2 (set ys)" by auto
  let ?f = "unless_deleted (\<lambda>h. do { (ret, h) \<leftarrow> pado_truncate i new h; Some (ret, False, h) })"
  have ev: "?f ?n k = Some (ret_code SUCCESS, False, k2)"
    using n(3) k2(1) by (simp add: unless_deleted_def is_deleted_def)
  from locked_op[where f = ?f and g = ?g, OF n0 n(2) _ ev[unfolded k_def] k2(6)[unfolded k_def] k2(4,5,2)]
  obtain h' n' where h': "with_wrlock i ?f ?h = Some (ret_code SUCCESS, False, h')" "file_ok h' i ys"
    "\<And>p. where_is h' ys p = where_is k2 ys p" "edits i ?h (set xs) h' (set ys)" "inos h' i = Some n'"
    "inode_rest n' = (inode_rest (?g n))\<lparr>rwlock := LkFree\<rparr>" "avail h' = avail k2" by auto
  have tk: "takes 1 h h'" using takes_pado_truncate[OF k2(1)] K(4) h'(7) by (simp add: takes_def)
  have "cmd_truncate i h = Some (ret_code SUCCESS, False, h')"
    using rd_words(2)[OF rx] i h'(1) by (simp add: cmd_truncate_def)
  moreover have "edits i h (set xs) h' (set ys)" by (rule edits_trans[OF edits_rx[OF n(1)] h'(4)])
  moreover have "inode_rest n' = inode_rest (?g n)" using h'(6) unlocked_rest[OF n(2), of ?g] by simp
  moreover have "where_is h' ys p = (if p < new then where_is h xs p else None)" for p
    using h'(3)[of p] k2(3)[of p] K(3)[of p] by (simp add: rx_view)
  ultimately show ?thesis using h'(2,5) tk by blast
qed

lemma cmd_clone_correct:
  assumes f: "file_ok h i xs" and n: "inos h i = Some n" "rwlock n = LkFree" "\<not> is_deleted n" and i: "i \<noteq> NULL"
    and rx: "rx h = le 8 start @ le 8 ln @ concat (map seg_bytes gs) @ end_mark @ bs"
    and sg: "segs_ok start (start + ln) start gs" and lt: "start < start + ln"
    and av: "2 * length gs < avail h" and up: "dos_up h"
  shows "\<exists>h' ys n'. cmd_clone_to i h = Some (ret_code SUCCESS, False, h') \<and> file_ok h' i ys \<and>
    (\<forall>p. where_is h' ys p = (if start \<le> p \<and> p < start + ln then seg_at start gs p else where_is h xs p)) \<and>
    inos h' i = Some n' \<and> inode_rest n' = inode_rest (touch (clock h) (n\<lparr>isize := max (isize n) (start + ln)\<rparr>)) \<and>
    edits i h (set xs) h' (set ys) \<and> takes (2 * length gs + 1) h h'"
proof -
  let ?rx = "concat (map seg_bytes gs) @ end_mark @ bs"
  let ?h = "h\<lparr>rx := ?rx\<rparr>" and ?g = "\<lambda>n. touch (clock h) (n\<lparr>isize := max (isize n) (start + ln)\<rparr>)"
  define k where "k = mod_ino i (\<lambda>n. n\<lparr>rwlock := LkWr (self ?h)\<rparr>) ?h"
  have f0: "file_ok ?h i xs" using f by (simp add: file_ok_rx)
  have n0: "inos ?h i = Some n" using n(1) by simp
  note K = locked_file[OF f0 n0, folded k_def]
  let ?n = "n\<lparr>rwlock := LkWr (self ?h)\<rparr>"
  have up': "dos_up k" using up K(6) by (simp add: dos_up_def)
  from pado_clone_correct[OF K(1,2) i _ sg lt _ up'] K(4,5,7) av obtain k2 ys n2 where k2:
    "pado_clone i start (start + ln) k = Some (ret_code SUCCESS, k2)" "file_ok k2 i ys"
    "\<And>p. where_is k2 ys p = (if start \<le> p \<and> p < start + ln then seg_at start gs p else where_is k xs p)"
    "inos k2 i = Some n2" "inode_rest n2 = inode_rest (?g ?n)" "edits i k (set xs) k2 (set ys)"
    "takes (2 * length gs + 1) k k2" by auto
  let ?f = "unless_deleted (\<lambda>h. do { (ret, h) \<leftarrow> pado_clone i start (start + ln) h; Some (ret, False, h) })"
  have ev: "?f ?n k = Some (ret_code SUCCESS, False, k2)"
    using n(3) k2(1) by (simp add: unless_deleted_def is_deleted_def)
  from locked_op[where f = ?f and g = ?g, OF n0 n(2) _ ev[unfolded k_def] k2(6)[unfolded k_def] k2(4,5,2)]
  obtain h' n' where h': "with_wrlock i ?f ?h = Some (ret_code SUCCESS, False, h')" "file_ok h' i ys"
    "\<And>p. where_is h' ys p = where_is k2 ys p" "edits i ?h (set xs) h' (set ys)" "inos h' i = Some n'"
    "inode_rest n' = (inode_rest (?g n))\<lparr>rwlock := LkFree\<rparr>" "avail h' = avail k2" by auto
  have tk: "takes (2 * length gs + 1) h h'" using k2(7) K(4) h'(7) by (simp add: takes_def)
  have "cmd_clone_to i h = Some (ret_code SUCCESS, False, h')"
    using rd_words(2)[OF rx] i h'(1) by (simp add: cmd_clone_to_def rd_u64_eval)
  moreover have "edits i h (set xs) h' (set ys)" by (rule edits_trans[OF edits_rx[OF n(1)] h'(4)])
  moreover have "inode_rest n' = inode_rest (?g n)" using h'(6) unlocked_rest[OF n(2), of ?g] by simp
  moreover have "where_is h' ys p = (if start \<le> p \<and> p < start + ln then seg_at start gs p else where_is h xs p)" for p
    using h'(3)[of p] k2(3)[of p] K(3)[of p] by (simp add: rx_view)
  ultimately show ?thesis using h'(2,5) tk by blast
qed

text \<open>On an inode that is in use, so that it is not to be freed.\<close>

lemma remove_dobject_local: "remove_dobject d False h = Some (r, h') \<Longrightarrow> d \<noteq> NULL \<Longrightarrow> r = ret_code SUCCESS"
  by (auto simp: remove_dobject_def split: bind_splits)

lemma cmd_remove_dobj_correct:
  assumes f: "file_ok h i xs" and n: "inos h i = Some n" "rwlock n = LkFree" "\<not> is_deleted n" and i: "i \<noteq> NULL"
    and rc: "0 <s refcount n"
    and rx: "rx h = le 4 hid @ le 8 l @ fl # bs" and d: "d \<in> set (do_map n)" "dob_key h d = Some (hid, l)"
    and nz: "\<not> (hid = 0 \<and> l = 0)"
  shows "\<exists>ret h' ys n'. cmd_remove_dobj i h = Some (ret, False, h') \<and> file_ok h' i ys \<and>
    (\<forall>p. where_is h' ys p = (case where_is h xs p of None \<Rightarrow> None | Some (hid', l', q) \<Rightarrow>
       if hid' = hid \<and> l' = l then None else Some (hid', l', q))) \<and>
    inos h' i = Some n' \<and> do_map n' = remove1 d (do_map n) \<and> inode_rest n' = inode_rest n \<and>
    edits i h (set xs) h' (set ys) \<and> (fl = 0 \<longrightarrow> ret = ret_code SUCCESS) \<and> takes 0 h h'"
proof -
  let ?h = "h\<lparr>rx := bs\<rparr>" and ?g = "\<lambda>n :: inode. n"
  define k where "k = mod_ino i (\<lambda>n. n\<lparr>rwlock := LkWr (self ?h)\<rparr>) ?h"
  have f0: "file_ok ?h i xs" using f by (simp add: file_ok_rx)
  have n0: "inos ?h i = Some n" using n(1) by simp
  note K = locked_file[OF f0 n0, folded k_def]
  let ?n = "n\<lparr>rwlock := LkWr (self ?h)\<rparr>"
  from d(2) obtain x where x: "dobs k d = Some x" "host_id (daddr x) = hid" "loid (daddr x) = l"
    using K(8) by (auto simp: dob_key_def)
  from K(1) have sk: "stage k i [] [] xs" and ok: "owned k i (set xs)" by (auto simp: file_ok_def stage_def)
  have dk: "d \<in> set (do_map ?n)" using d(1) by simp
  have "fresh_ok k" using sk by (simp add: stage_def)
  have d0: "d \<noteq> NULL" by (rule owned_dob_below(2)[OF ok K(2) \<open>fresh_ok k\<close> dk])
  have aq: "acquire_dobject hid l i 0 k = Some (d, k)"
  proof -
    from acquire_dobject_stage[OF sk i K(2), of 0 hid l] obtain d' k' where k':
      "acquire_dobject hid l i 0 k = Some (d', k')" by auto
    have "keys_unique (dob_key k) (do_map ?n)" using ok K(2) by (auto simp: owned_def)
    from uth.find_unique[OF this dk] x have fd: "find_dobject hid l ?n k = d"
      by (simp add: find_dobject_def dob_key_def)
    obtain rs where "dob_ok k i d rs" by (rule owned_dob[OF ok K(2) dk])
    with d0 show ?thesis using i K(2) fd check_dobject_ok by (simp add: acquire_dobject_def Let_def)
  qed
  from remove_dobject_correct[OF K(1,2) dk x(1), of "fl \<noteq> 0"] obtain ret k2 ys n2 where k2:
    "remove_dobject d (fl \<noteq> 0) k = Some (ret, k2)" "file_ok k2 i ys"
    "\<And>p. where_is k2 ys p = (case where_is k xs p of None \<Rightarrow> None | Some (hid', l', q) \<Rightarrow>
       if hid' = hid \<and> l' = l then None else Some (hid', l', q))"
    "inos k2 i = Some n2" "do_map n2 = remove1 d (do_map ?n)" "inode_rest n2 = inode_rest ?n"
    "edits i k (set xs) k2 (set ys)" unfolding x(2,3) by blast
  have "refcount n2 = refcount n"
  proof -
    have "refcount n2 = refcount (inode_rest n2)" by (simp add: inode_rest_def)
    also have "\<dots> = refcount n" unfolding k2(6) by (simp add: inode_rest_def)
    finally show ?thesis .
  qed
  with rc k2(4) have rl: "release_inode i k2 = Some (False, k2)" by (simp add: release_inode_def)
  let ?f = "\<lambda>n. unless_deleted (\<lambda>h. do {
        (ret, h) \<leftarrow> (if hid = 0 \<and> l = 0 then do {
             h \<leftarrow> upd_ino i unset_shared h;
             Some (if is_shared n then ret_code SUCCESS else err INVALID_DOBJECT, h) }
           else do {
             (d, h) \<leftarrow> acquire_dobject hid l i 0 h;
             remove_dobject d (fl \<noteq> 0) h });
        (fr, h) \<leftarrow> release_inode i h;
        Some (ret, fr, h) }) n"
  have ev: "?f ?n k = Some (ret, False, k2)"
    using n(3) aq k2(1) rl nz by (auto simp: unless_deleted_def is_deleted_def)
  have r2: "inode_rest n2 = inode_rest (?g ?n)" by (rule k2(6))
  from locked_op[where f = ?f and g = ?g, OF n0 n(2) _ ev[unfolded k_def] k2(7)[unfolded k_def] k2(4) r2 k2(2)]
  obtain h' n' where h': "with_wrlock i ?f ?h = Some (ret, False, h')" "file_ok h' i ys"
    "\<And>p. where_is h' ys p = where_is k2 ys p" "edits i ?h (set xs) h' (set ys)" "inos h' i = Some n'"
    "inode_rest n' = (inode_rest (?g n))\<lparr>rwlock := LkFree\<rparr>" "do_map n' = do_map n2" "avail h' = avail k2" by auto
  have tk: "takes 0 h h'" using mem.obs_remove_dobject[OF k2(1)] K(4) h'(8) by (simp add: takes_def)
  have "rd_u8 (h\<lparr>rx := fl # bs\<rparr>) = Some (fl, ?h)" by (simp add: rd_u8_def rd_bytes_def take_bytes_def)
  then have "cmd_remove_dobj i h = Some (ret, False, h')"
    using rd_words(1)[OF rx] i h'(1) by (simp add: cmd_remove_dobj_def rd_u64_eval)
  moreover have "edits i h (set xs) h' (set ys)" by (rule edits_trans[OF edits_rx[OF n(1)] h'(4)])
  moreover have "inode_rest n' = inode_rest n" using h'(6) unlocked_rest[OF n(2), of ?g] by simp
  moreover have "where_is h' ys p = (case where_is h xs p of None \<Rightarrow> None | Some (hid', l', q) \<Rightarrow>
       if hid' = hid \<and> l' = l then None else Some (hid', l', q))" for p
    using h'(3)[of p] k2(3)[of p] K(3)[of p] by (simp add: rx_view)
  moreover have "do_map n' = remove1 d (do_map n)" using h'(7) k2(5) by simp
  moreover have "fl = 0 \<longrightarrow> ret = ret_code SUCCESS" using k2(1) remove_dobject_local d0 by auto
  ultimately show ?thesis using h'(2,5) tk by blast
qed

end
