(* ===== verification/Request_Correct.thy ===== *)
theory Request_Correct
  imports Handler_Correct
begin

text \<open>
  Whole requests: between two requests the files, the table of inodes and the locks are in order,
  and a request on one file leaves the others alone.
\<close>

section \<open>Between requests\<close>

definition sane :: "store \<Rightarrow> bool" where
  "sane h \<longleftrightarrow> files_ok h \<and> table_ok h \<and> idle h"

lemma files_wr: "file_ok (wr bs h) i xs = file_ok h i xs" "where_is (wr bs h) xs p = where_is h xs p"
  by (rule file_same; simp add: wr_def)+

lemma find_rx: "find_inode t (h\<lparr>rx := bs\<rparr>) = find_inode t h"
  by (simp add: find_inode_def ino_key_def[abs_def])

lemma sane_rx: "sane (h\<lparr>rx := bs\<rparr>) = sane h"
  by (simp add: sane_def files_ok_def table_ok_def idle_def busy_on_def file_ok_rx ino_key_def[abs_def])

text \<open>What a request on the file \<open>i\<close> leaves of the others.\<close>

definition others_kept :: "addr \<Rightarrow> store \<Rightarrow> store \<Rightarrow> bool" where
  "others_kept i h h' \<longleftrightarrow> (\<forall>j. j \<noteq> i \<longrightarrow> inos h' j = inos h j \<and>
       (\<forall>zs. file_ok h j zs \<longrightarrow> file_ok h' j zs \<and> (\<forall>p. where_is h' zs p = where_is h zs p))) \<and>
     (\<forall>t. find_inode t h' = find_inode t h) \<and> clock h' = clock h"

lemma sane_edits:
  assumes s: "sane h" and f: "file_ok h i xs" and e: "edits i h (set xs) h' X'" and ok: "file_ok h' i ys"
    and n: "inos h i = Some n" and m: "inos h' i = Some m" "rwlock m = LkFree" "alive m = LkFree" "ino m = ino n"
  shows "sane h'" "others_kept i h h'"
proof -
  from s have F: "files_ok h" "table_ok h" "idle h" by (simp_all add: sane_def)
  note S = edits_fields[OF e]
  have fr: "fresh_ok h'" using ok by (simp add: file_ok_def stage_def)
  have ow: "owned h i (set xs)" using f by (simp add: file_ok_def stage_def)
  have io: "inos h' j = inos h j" if "j \<noteq> i" for j using e that by (auto simp: edits_def)
  have ik: "ino_key h' j = ino_key h j" for j using io n m(1,4) by (cases "j = i") (auto simp: ino_key_def)
  have "find_inode t h' = find_inode t h" for t using ik by (simp add: find_inode_def S(1) ino_key_def[abs_def] fun_eq_iff)
  moreover have "file_ok h' j zs" "where_is h' zs p = where_is h zs p" if j: "j \<noteq> i" "file_ok h j zs" for j zs p
    using file_frame[OF e ow j(2,1) fr] by simp_all
  ultimately show "others_kept i h h'" using io S(3) by (auto simp: others_kept_def)
  have "idle h'" using F(3) io m(1-3) S(7) unfolding idle_def busy_on_def by (metis option.inject)
  moreover have "table_ok h'"
  proof -
    have b: "brk h \<le> brk h'" using e by (auto simp: edits_def)
    have "inos h' a \<noteq> None \<longleftrightarrow> inos h a \<noteq> None" for a
      using ik[of a] by (cases "inos h a"; cases "inos h' a") (auto simp: ino_key_def)
    then show ?thesis using F(2) b keys_unique_cong[of "inode_map h" "ino_key h'" "ino_key h"] ik
      unfolding table_ok_def S(1) by (auto intro: less_le_trans)
  qed
  moreover have "files_ok h'" by (rule files_step[OF F(1) e f ok])
  ultimately show "sane h'" by (simp add: sane_def)
qed

lemma sane_wr: "sane (wr bs h) = sane h"
proof -
  have "files_ok (wr bs h) = files_ok h" by (simp add: files_ok_def files_wr) (simp add: wr_def)
  moreover have "table_ok (wr bs h) = table_ok h" "idle (wr bs h) = idle h"
    by (simp_all add: table_ok_def idle_def busy_on_def wr_def ino_key_def[abs_def])
  ultimately show ?thesis by (simp add: sane_def)
qed

lemma others_wr: "others_kept i h (wr bs h') = others_kept i h h'"
  by (simp add: others_kept_def files_wr) (simp add: wr_def find_inode_def ino_key_def[abs_def])

lemma process_file:
  assumes s: "sane h" and rx: "rx h = le 8 t @ bs" and i: "find_inode t h = i" "i \<noteq> NULL" and n: "inos h i = Some n"
    and c: "com_of com = Some c" "c \<noteq> CREATE_INODE" "c \<noteq> CREATE_OPEN_INODE" "c \<noteq> READ_INODE_WHOLE"
    and f: "file_ok h i xs"
  defines "k \<equiv> mod_ino i (\<lambda>n. n\<lparr>alive := LkRd 1\<rparr>) (h\<lparr>rx := bs\<rparr>)"
  assumes d: "dispatch (Some c) t i k = Some (i, ret, False, wr bs' k2)" "\<bar>ret\<bar> < 24" and ok: "file_ok k2 i ys"
    and e: "edits i k (set xs) k2 X'" and m: "inos k2 i = Some m" "rwlock m = LkFree" "alive m = LkRd 1" "ino m = ino n"
  shows "\<exists>h'. process com h = Some h' \<and> sane h' \<and> file_ok h' i ys \<and> (\<forall>p. where_is h' ys p = where_is k2 ys p) \<and>
    tx h' = tx h @ bs' @ int_bytes ret \<and> others_kept i h h' \<and> find_inode t h' = i \<and>
    inos h' i = Some (m\<lparr>alive := LkFree\<rparr>) \<and> avail h' = avail k2 \<and> dos_srv h' = dos_srv h \<and> with_ms h' = with_ms h"
proof -
  let ?w = "wr bs' k2"
  define h' where "h' = mod_ino i (\<lambda>n. n\<lparr>alive := LkFree\<rparr>) (wr (int_bytes ret) ?w)"
  from s have F: "files_ok h" "table_ok h" "idle h" by (simp_all add: sane_def)
  let ?r = "h\<lparr>rx := bs\<rparr>"
  have F': "idle ?r" "table_ok ?r" "find_inode t ?r = i"
    using F i by (simp_all add: idle_def busy_on_def table_ok_def ino_key_def[abs_def] find_inode_def)
  have aq: "acquire_inode t ?r = Some (i, k)"
    using acquire_inode_correct[OF F'(1,2), of t] F'(3) i(2) by (simp add: k_def)
  have fw: "file_ok ?w i ys" using ok by (simp add: files_wr)
  have mw: "inos ?w i = Some m" using m(1) by (simp add: wr_def)
  have pr: "print_inode i ?w = Some ?w" by (rule print_inode_correct[OF fw mw m(2) i(2)])
  have pc: "process com h = Some h'"
    using rd_words(2)[OF rx] c aq d pr mw m i(2)
    by (simp add: process_def on_alive_def upd_ino_def wr_def h'_def)
  have ek: "edits i h (set xs) k (set xs)"
    unfolding k_def by (rule edits_trans[OF edits_rx[OF n] meta_edits]) (use n in simp_all)
  have e2: "edits i h (set xs) k2 X'" by (rule edits_trans[OF ek e])
  note S = edits_fields[OF e2]
  define k3 where "k3 = mod_ino i (\<lambda>n. n\<lparr>alive := LkFree\<rparr>) k2"
  have h'3: "h' = wr (bs' @ int_bytes ret) k3" by (simp add: h'_def k3_def wr_def mod_ino_def)
  have f3: "file_ok k3 i zs = file_ok k2 i zs" "where_is k3 zs p = where_is k2 zs p" for zs p
    unfolding k3_def by (rule file_meta, simp_all) (simp add: meta_view)
  have e3: "edits i h (set xs) k3 X'" unfolding k3_def by (rule edits_trans[OF e2 meta_edits[OF _ m(1)]]) simp
  have m3: "inos k3 i = Some (m\<lparr>alive := LkFree\<rparr>)" using m(1) by (simp add: k3_def)
  from sane_edits[OF s f e3 _ n m3] ok m have "sane h'" "others_kept i h h'" by (simp_all add: h'3 sane_wr others_wr f3)
  moreover have "find_inode t h' = i" using \<open>others_kept i h h'\<close> i(1) by (simp add: others_kept_def)
  moreover have "tx h' = tx h @ bs' @ int_bytes ret" using S(4) by (simp add: h'_def wr_def)
  moreover have "inos h' i = Some (m\<lparr>alive := LkFree\<rparr>)" using m(1) by (simp add: h'_def wr_def)
  moreover have "dos_srv h' = dos_srv h" "with_ms h' = with_ms h" "avail h' = avail k2"
    using S(2,8) by (simp_all add: h'_def wr_def)
  ultimately show ?thesis using pc ok by (intro exI[of _ h']) (simp add: h'3 files_wr f3)
qed

section \<open>The commands that change a file\<close>

lemma wr_Nil [simp]: "wr [] h = h"
  by (simp add: wr_def)

text \<open>A handler that is given the inode, held alive, and does not free it.\<close>

lemma request_step:
  assumes s: "sane h" and rx: "rx h = le 8 t @ bs" and i: "find_inode t h = i" "i \<noteq> NULL" and n: "inos h i = Some n"
    and c: "com_of com = Some c" "c \<noteq> CREATE_INODE" "c \<noteq> CREATE_OPEN_INODE" "c \<noteq> READ_INODE_WHOLE"
    and f: "file_ok h i xs"
  defines "k \<equiv> mod_ino i (\<lambda>n. n\<lparr>alive := LkRd 1\<rparr>) (h\<lparr>rx := bs\<rparr>)"
  assumes d: "dispatch (Some c) t i k = on_inode cmd i k" and r: "cmd i k = Some (ret, False, k2)" "\<bar>ret\<bar> < 24"
    and ok: "file_ok k2 i ys" and e: "edits i k (set xs) k2 (set ys)" and m: "inos k2 i = Some m"
    and g: "inode_rest m = inode_rest (g (n\<lparr>alive := LkRd 1\<rparr>))"
      "\<And>n. rwlock (g n) = rwlock n \<and> alive (g n) = alive n \<and> ino (g n) = ino n"
  shows "\<exists>h'. process com h = Some h' \<and> sane h' \<and> file_ok h' i ys \<and> (\<forall>p. where_is h' ys p = where_is k2 ys p) \<and>
    tx h' = tx h @ int_bytes ret \<and> others_kept i h h' \<and> find_inode t h' = i \<and>
    inos h' i = Some (m\<lparr>alive := LkFree\<rparr>) \<and> avail h' = avail k2 \<and> dos_srv h' = dos_srv h \<and> with_ms h' = with_ms h"
proof -
  have I: "idle h" using s by (simp add: sane_def)
  have nl: "rwlock n = LkFree" using I n by (auto simp: idle_def busy_on_def)
  have "rwlock m = rwlock (inode_rest m)" "alive m = alive (inode_rest m)" "ino m = ino (inode_rest m)"
    by (simp_all add: inode_rest_def)
  then have mm: "rwlock m = LkFree" "alive m = LkRd 1" "ino m = ino n"
    unfolding g(1) using g(2)[of "n\<lparr>alive := LkRd 1\<rparr>"] nl by (simp_all add: inode_rest_def)
  have dd: "dispatch (Some c) t i k = Some (i, ret, False, wr [] k2)"
    using d r(1) by (simp add: on_inode_def)
  from process_file[OF s rx i n c f dd[unfolded k_def] r(2) ok e[unfolded k_def] m mm] show ?thesis by simp
qed

text \<open>The file as the handler finds it.\<close>

lemma request_file:
  fixes bs :: "u8 list"
  assumes "file_ok h i xs" "inos h i = Some n"
  defines "k \<equiv> mod_ino i (\<lambda>n. n\<lparr>alive := LkRd 1\<rparr>) (h\<lparr>rx := bs\<rparr>)"
  shows "file_ok k i xs" "inos k i = Some (n\<lparr>alive := LkRd 1\<rparr>)" "where_is k xs p = where_is h xs p"
    "rx k = bs" "avail k = avail h" "clock k = clock h" "dos_srv k = dos_srv h" "dobs k = dobs h"
proof -
  have "file_ok (h\<lparr>rx := bs\<rparr>) i xs" using assms(1) by (simp add: file_ok_rx)
  then show "file_ok k i xs" unfolding k_def by (subst file_meta) simp_all
qed (use assms(2) in \<open>simp_all add: k_def meta_view rx_view\<close>)

lemma touch_locks: "rwlock (touch t n) = rwlock n" "alive (touch t n) = alive n" "ino (touch t n) = ino n"
  "isize (touch t n) = isize n" "version (touch t n) = version n + 1" "mtime (touch t n) = t"
  by (simp_all add: touch_def)

lemma write_request:
  assumes s: "sane h" and i: "find_inode t h = i" "i \<noteq> NULL" and n: "inos h i = Some n" "\<not> is_deleted n"
    and c: "com_of com = Some WRITE" and f: "file_ok h i xs"
    and rx: "rx h = le 8 t @ le 4 hid @ le 8 l @ le 8 fo @ le 8 od @ le 8 ln @ bs"
    and lt: "fo < fo + ln" and av: "3 \<le> avail h"
  shows "\<exists>h' ys n'. process com h = Some h' \<and> tx h' = tx h @ int_bytes (ret_code SUCCESS) \<and> sane h' \<and> file_ok h' i ys \<and>
    (\<forall>p. where_is h' ys p = (if fo \<le> p \<and> p < fo + ln then Some (hid, l, od + (p - fo)) else where_is h xs p)) \<and>
    others_kept i h h' \<and> find_inode t h' = i \<and> inos h' i = Some n' \<and> flags n' = flags n \<and>
    isize n' = max (isize n) (fo + ln) \<and> version n' = version n + 1 \<and> mtime n' = clock h \<and> with_ms h' = with_ms h \<and>
    refcount n' = refcount n \<and> dos_srv h' = dos_srv h \<and> takes 3 h h'"
proof -
  have I: "idle h" using s by (simp add: sane_def)
  have nl: "rwlock n = LkFree" using I n by (auto simp: idle_def busy_on_def)
  let ?bs = "le 4 hid @ le 8 l @ le 8 fo @ le 8 od @ le 8 ln @ bs"
  define k where "k = mod_ino i (\<lambda>n. n\<lparr>alive := LkRd 1\<rparr>) (h\<lparr>rx := ?bs\<rparr>)"
  note K = request_file[OF f n(1), of ?bs, folded k_def]
  let ?n = "n\<lparr>alive := LkRd 1\<rparr>"
  have nk: "rwlock ?n = LkFree" "\<not> is_deleted ?n" using nl n(2) by (simp_all add: is_deleted_def)
  have av': "3 \<le> avail k" using av K(5) by simp
  from cmd_write_correct[OF K(1,2) nk i(2) K(4) lt av'] obtain k2 ys m where k2:
    "cmd_write i k = Some (ret_code SUCCESS, False, k2)" "file_ok k2 i ys"
    "\<And>p. where_is k2 ys p = (if fo \<le> p \<and> p < fo + ln then Some (hid, l, od + (p - fo)) else where_is k xs p)"
    "inos k2 i = Some m" "inode_rest m = inode_rest (touch (clock h) (?n\<lparr>isize := max (isize ?n) (fo + ln)\<rparr>))"
    "edits i k (set xs) k2 (set ys)" "takes 3 k k2" unfolding K(6) by blast
  have D: "dispatch (Some WRITE) t i k = on_inode cmd_write i k" by (simp add: dispatch_def)
  let ?g = "\<lambda>n. touch (clock h) (n\<lparr>isize := max (isize n) (fo + ln)\<rparr>)"
  have r: "\<bar>ret_code SUCCESS\<bar> < 24" by simp
  from request_step[where g = ?g and cmd = cmd_write, OF s rx i n(1) c _ _ _ f D[unfolded k_def] k2(1)[unfolded k_def] r k2(2)
      k2(6)[unfolded k_def] k2(4,5)] obtain h' where h':
    "process com h = Some h'" "sane h'" "file_ok h' i ys" "\<And>p. where_is h' ys p = where_is k2 ys p"
    "tx h' = tx h @ int_bytes (ret_code SUCCESS)" "others_kept i h h'" "find_inode t h' = i"
    "inos h' i = Some (m\<lparr>alive := LkFree\<rparr>)" "with_ms h' = with_ms h" "dos_srv h' = dos_srv h" "avail h' = avail k2"
    by (auto simp: touch_locks)
  have "isize m = isize (inode_rest m)" "version m = version (inode_rest m)" "mtime m = mtime (inode_rest m)"
    "flags m = flags (inode_rest m)" "refcount m = refcount (inode_rest m)"
    by (simp_all add: inode_rest_def)
  then have "isize m = max (isize n) (fo + ln)" "version m = version n + 1" "mtime m = clock h" "flags m = flags n"
    "refcount m = refcount n"
    unfolding k2(5) by (simp_all add: inode_rest_def touch_def)
  moreover have "takes 3 h h'" using k2(7) h'(11) K(5) by (simp add: takes_def)
  ultimately show ?thesis using h' k2(3) K(3) by (intro exI[of _ h'] exI[of _ ys] exI[of _ "m\<lparr>alive := LkFree\<rparr>"]) auto
qed

end
