(* ===== verification/Read_Correct.thy ===== *)
theory Read_Correct
  imports Request_Correct
begin

text \<open>
  \<^verbatim>\<open>READ_LAYOUT\<close>, and what a client sees that writes a range and reads it back, or that
  hands the answer of a read to \<^verbatim>\<open>CLONE_TO\<close>.
\<close>

section \<open>READ_LAYOUT\<close>

lemma file_laid_out:
  assumes "file_ok h i xs"
  shows "\<exists>t. laid_out h i t \<and> inorder t = xs"
proof -
  from assms obtain t where t: "layout h i t" "inorder t = xs" and o: "ordered h xs" "owned h i (set xs)"
    by (auto simp: file_ok_def stage_def)
  have "dobs h (dobj e) \<noteq> None" if a: "a \<in> set xs" and e: "exts h a = Some e" for a e
  proof -
    obtain n d rs where "fld dobj h a = Some d" "dob_ok h i d rs" using ownedE[OF o(2) a] by metis
    with e show ?thesis by (auto simp: fld_def dob_ok_def)
  qed
  with t o show ?thesis by (auto simp: laid_out_def)
qed

lemma answers_where:
  assumes "\<And>p. where_is h xs p = where_is k xs p"
  shows "answers h xs b f e w r = answers k xs b f e w r"
proof -
  have "where_based h xs b = where_based k xs b" by (rule ext) (simp add: where_based_def assms)
  with assms show ?thesis by (simp add: answers_def)
qed

definition hole :: "store \<Rightarrow> addr list \<Rightarrow> sz \<Rightarrow> sz \<Rightarrow> bool" where
  "hole h xs f e \<longleftrightarrow> (\<exists>p \<in> set (upto_w f e). where_is h xs p = None)"

lemma cmd_read_correct:
  assumes f: "file_ok h i xs" and n: "inos h i = Some n" "rwlock n = LkFree" "\<not> is_deleted n" and i: "i \<noteq> NULL"
    and rx: "rx h = le 8 fo @ le 8 ln @ fl # bs" and fl: "fl \<noteq> 0" and lt: "fo < min (fo + ln) (isize n)"
  defines "e \<equiv> min (fo + ln) (isize n)" and "b \<equiv> (if with_ms h then base_ino n else ino n)"
  shows "\<exists>gs. cmd_read_layout i h = Some (ret_code SUCCESS, False, wr (concat (map seg_bytes gs) @ end_mark)
      ((if hole h xs fo e then mod_ino i set_shared else id) (h\<lparr>rx := bs\<rparr>))) \<and>
    answers h xs b fo e 0 (gs, hole h xs fo e)"
proof -
  let ?h = "h\<lparr>rx := bs\<rparr>"
  define k where "k = mod_ino i (\<lambda>n. n\<lparr>rwlock := LkRd 1\<rparr>) ?h"
  let ?n = "n\<lparr>rwlock := LkRd 1\<rparr>"
  have kn: "inos k i = Some ?n" using n(1) by (simp add: k_def)
  have "file_ok ?h i xs" using f by (simp add: file_ok_rx)
  then have fk: "file_ok k i xs" unfolding k_def by (subst file_meta) simp_all
  then obtain t where t: "laid_out k i t" "inorder t = xs" using file_laid_out by blast
  have w: "where_is k xs p = where_is h xs p" for p by (simp add: k_def meta_view rx_view)
  have bb: "(if with_ms k then base_ino ?n else ino ?n) = b" "min (fo + ln) (isize ?n) = e"
    by (simp_all add: k_def b_def e_def)
  have lt': "fo < min (fo + ln) (isize ?n)" using lt by simp
  from pado_read_eval[OF t(1) kn lt', unfolded bb t(2)] obtain gs c where gs:
    "pado_read i True fo (fo + ln) k = Some (if c then err BASE_CLONED else ret_code SUCCESS,
      wr (concat (map seg_bytes gs) @ end_mark) k)" "answers k xs b fo e 0 (gs, c)" by blast
  have A: "answers h xs b fo e 0 (gs, c)" using gs(2) answers_where[of k xs h] w by blast
  then have c: "c = hole h xs fo e" by (simp add: answers_def hole_def)
  let ?bs = "concat (map seg_bytes gs) @ end_mark"
  have un: "on_rwlock lk_un i (wr ?bs k) = Some (wr ?bs ?h)"
  proof -
    have "n\<lparr>rwlock := LkFree\<rparr> = n" using n(2) by (cases n) simp
    then have "mod_ino i (\<lambda>n. n\<lparr>rwlock := LkFree\<rparr>) (wr ?bs k) = wr ?bs ?h"
      using n(1) by (intro store.equality) (auto simp: mod_ino_def fun_eq_iff wr_def k_def)
    then show ?thesis using kn by (simp add: on_rwlock_def upd_ino_def wr_def)
  qed
  have lk: "on_rwlock (lk_rd (self ?h)) i ?h = Some k" using n by (simp add: on_rwlock_def upd_ino_def k_def)
  have rd: "with_rdlock i (unless_deleted (\<lambda>h. do {
          (ret, h) \<leftarrow> pado_read i (fl \<noteq> 0) fo (fo + ln) h;
          Some (ret, False, h) })) ?h =
      Some (if c then err BASE_CLONED else ret_code SUCCESS, False, wr ?bs ?h)"
    using lk kn gs(1) un fl n(3) by (simp add: with_rdlock_def unless_deleted_def is_deleted_def)
  have sh: "with_wrlock i (\<lambda>n h. do { h \<leftarrow> upd_ino i set_shared h; Some (ret_code SUCCESS, False, h) }) (wr ?bs ?h) =
      Some (ret_code SUCCESS, False, wr ?bs (mod_ino i set_shared ?h))"
  proof -
    have "(set_shared (n\<lparr>rwlock := LkWr (self h)\<rparr>))\<lparr>rwlock := LkFree\<rparr> = set_shared n"
      using n(2) by (cases n) (simp add: set_shared_def)
    then have "mod_ino i (\<lambda>n. n\<lparr>rwlock := LkFree\<rparr>) (mod_ino i set_shared
        (mod_ino i (\<lambda>n. n\<lparr>rwlock := LkWr (self h)\<rparr>) (wr ?bs ?h))) = wr ?bs (mod_ino i set_shared ?h)"
      using n(1) by (intro store.equality) (auto simp: mod_ino_def fun_eq_iff wr_def)
    then show ?thesis using n
      by (simp add: with_wrlock_def on_rwlock_def upd_ino_def wr_def set_shared_def)
  qed
  have r8: "rd_u8 (h\<lparr>rx := fl # bs\<rparr>) = Some (fl, ?h)" by (simp add: rd_u8_def rd_bytes_def take_bytes_def)
  have "cmd_read_layout i h = Some (ret_code SUCCESS, False, wr ?bs
      ((if hole h xs fo e then mod_ino i set_shared else id) ?h))"
  proof (cases c)
    case True
    with rd sh c rd_words(2)[OF rx] r8 i show ?thesis by (simp add: cmd_read_layout_def rd_u64_eval)
  next
    case False
    have "err BASE_CLONED \<noteq> ret_code SUCCESS" by (simp add: err_def)
    with False rd c rd_words(2)[OF rx] r8 i show ?thesis by (simp add: cmd_read_layout_def rd_u64_eval)
  qed
  with A c show ?thesis by blast
qed

lemma read_request:
  assumes s: "sane h" and i: "find_inode t h = i" "i \<noteq> NULL" and n: "inos h i = Some n" "\<not> is_deleted n"
    and c: "com_of com = Some READ_LAYOUT" and f: "file_ok h i xs"
    and rx: "rx h = le 8 t @ le 8 fo @ le 8 ln @ fl # bs" and fl: "fl \<noteq> 0" and lt: "fo < min (fo + ln) (isize n)"
  defines "e \<equiv> min (fo + ln) (isize n)" and "b \<equiv> (if with_ms h then base_ino n else ino n)"
  shows "\<exists>h' gs. process com h = Some h' \<and>
    tx h' = tx h @ (concat (map seg_bytes gs) @ end_mark) @ int_bytes (ret_code SUCCESS) \<and> sane h' \<and> file_ok h' i xs \<and>
    (\<forall>p. where_is h' xs p = where_is h xs p) \<and> others_kept i h h' \<and> answers h xs b fo e 0 (gs, hole h xs fo e) \<and>
    avail h' = avail h \<and> dos_srv h' = dos_srv h \<and> with_ms h' = with_ms h \<and>
    inos h' i = Some (if hole h xs fo e then set_shared n else n)"
proof -
  have I: "idle h" using s by (simp add: sane_def)
  have nl: "rwlock n = LkFree" using I n by (auto simp: idle_def busy_on_def)
  let ?bs = "le 8 fo @ le 8 ln @ fl # bs"
  define k where "k = mod_ino i (\<lambda>n. n\<lparr>alive := LkRd 1\<rparr>) (h\<lparr>rx := ?bs\<rparr>)"
  note K = request_file[OF f n(1), of ?bs, folded k_def]
  let ?n = "n\<lparr>alive := LkRd 1\<rparr>"
  have nk: "rwlock ?n = LkFree" "\<not> is_deleted ?n" using nl n(2) by (simp_all add: is_deleted_def)
  have lt': "fo < min (fo + ln) (isize ?n)" using lt by simp
  have hk: "hole k xs fo e = hole h xs fo e" by (simp add: hole_def K(3))
  have bk: "(if with_ms k then base_ino ?n else ino ?n) = b" "min (fo + ln) (isize ?n) = e"
    by (simp_all add: b_def e_def k_def)
  define k2 where "k2 = (if hole h xs fo e then mod_ino i set_shared else id) (k\<lparr>rx := bs\<rparr>)"
  from cmd_read_correct[OF K(1,2) nk i(2) K(4) fl lt'] obtain gs where gs:
    "cmd_read_layout i k = Some (ret_code SUCCESS, False, wr (concat (map seg_bytes gs) @ end_mark) k2)"
    "answers k xs b fo e 0 (gs, hole h xs fo e)" unfolding bk hk k2_def by blast
  have A: "answers h xs b fo e 0 (gs, hole h xs fo e)" using gs(2) answers_where[of k xs h] K(3) by blast
  have sm: "meta_only set_shared" "\<And>n. isize (set_shared n) = isize n"
    "rwlock (set_shared n) = rwlock n" "alive (set_shared n) = alive n" "ino (set_shared n) = ino n" for n
    by (simp_all add: meta_only_def set_shared_def)
  have kr: "file_ok (k\<lparr>rx := bs\<rparr>) i xs" "inos (k\<lparr>rx := bs\<rparr>) i = Some ?n" using K(1,2) by (simp_all add: file_ok_rx)
  have ok: "file_ok k2 i xs" using kr(1) file_meta[OF sm(1,2)] by (simp add: k2_def)
  have e2: "edits i k (set xs) k2 (set xs)"
    using edits_trans[OF edits_rx[OF K(2)] meta_edits[OF sm(1) kr(2)]] edits_rx[OF K(2)] by (simp add: k2_def)
  let ?m = "if hole h xs fo e then set_shared n else n"
  have al: "alive n = LkFree" using I n by (auto simp: idle_def busy_on_def)
  obtain m where m: "inos k2 i = Some m" "rwlock m = LkFree" "alive m = LkRd 1" "ino m = ino n" and mm: "m\<lparr>alive := LkFree\<rparr> = ?m"
  proof (cases "hole h xs fo e")
    case True
    with kr(2) nl sm al show ?thesis by (intro that[of "set_shared ?n"]) (simp_all add: k2_def set_shared_def)
  next
    case False
    with kr(2) nl al show ?thesis by (intro that[of ?n]) (simp_all add: k2_def)
  qed
  have D: "dispatch (Some READ_LAYOUT) t i k =
      Some (i, ret_code SUCCESS, False, wr (concat (map seg_bytes gs) @ end_mark) k2)"
    using gs(1) by (simp add: dispatch_def on_inode_def)
  have r: "\<bar>ret_code SUCCESS\<bar> < 24" by simp
  have wk: "where_is k2 xs p = where_is h xs p" for p using K(3) by (simp add: k2_def meta_view rx_view)
  have ak: "avail k2 = avail h" using K(5) by (simp add: k2_def)
  from process_file[OF s rx i n(1) c _ _ _ f D[unfolded k_def] r ok e2[unfolded k_def] m] wk A ak mm
  show ?thesis by auto
qed

section \<open>Reading back what has been written\<close>

lemma set_upto_w': "f \<le> e \<Longrightarrow> p \<in> set (upto_w f e) \<Longrightarrow> f \<le> p \<and> p < e"
  using set_upto_w by blast

lemma write_then_read:
  assumes s: "sane h" and i: "find_inode t h = i" "i \<noteq> NULL" and n: "inos h i = Some n" "\<not> is_deleted n"
    and c: "com_of com = Some WRITE" "com_of com' = Some READ_LAYOUT" and f: "file_ok h i xs"
    and rx: "rx h = le 8 t @ le 4 hid @ le 8 l @ le 8 fo @ le 8 od @ le 8 ln"
    and lt: "fo < fo + ln" and av: "3 \<le> avail h"
  shows "\<exists>h1 h2 gs. process com h = Some h1 \<and>
    process com' (h1\<lparr>rx := le 8 t @ le 8 fo @ le 8 ln @ [1]\<rparr>) = Some h2 \<and>
    tx h2 = tx h @ int_bytes (ret_code SUCCESS) @ concat (map seg_bytes gs) @ end_mark @ int_bytes (ret_code SUCCESS) \<and>
    expand gs = map (\<lambda>p. (hid, l, od + (p - fo))) (upto_w fo (fo + ln)) \<and> contiguous 0 gs"
proof -
  have rx': "rx h = le 8 t @ le 4 hid @ le 8 l @ le 8 fo @ le 8 od @ le 8 ln @ []" using rx by simp
  from write_request[OF s i n c(1) f rx' lt av] obtain h1 ys n1 where h1: "process com h = Some h1"
    "tx h1 = tx h @ int_bytes (ret_code SUCCESS)" "sane h1" "file_ok h1 i ys"
    "\<And>p. where_is h1 ys p = (if fo \<le> p \<and> p < fo + ln then Some (hid, l, od + (p - fo)) else where_is h xs p)"
    "find_inode t h1 = i" "inos h1 i = Some n1" "flags n1 = flags n" "isize n1 = max (isize n) (fo + ln)" by blast
  let ?h = "h1\<lparr>rx := le 8 t @ le 8 fo @ le 8 ln @ [1]\<rparr>"
  have H: "sane ?h" "find_inode t ?h = i" "file_ok ?h i ys" "inos ?h i = Some n1" "\<And>p. where_is ?h ys p = where_is h1 ys p"
    using h1(3,4,6,7) by (simp_all add: sane_rx find_rx file_ok_rx rx_view)
  have nd: "\<not> is_deleted n1" using n(2) h1(8) by (simp add: is_deleted_def)
  have e: "min (fo + ln) (isize n1) = fo + ln" unfolding h1(9) by (simp add: min_absorb1)
  have lt': "fo < min (fo + ln) (isize n1)" using lt e by simp
  have wr: "where_is ?h ys p = Some (hid, l, od + (p - fo))" if "p \<in> set (upto_w fo (fo + ln))" for p
    using set_upto_w'[OF less_imp_le[OF lt] that] H(5) h1(5) by simp
  have nh: "\<not> hole ?h ys fo (fo + ln)" using wr by (auto simp: hole_def)
  have r1: "rx ?h = le 8 t @ le 8 fo @ le 8 ln @ 1 # []" by simp
  from read_request[OF H(1,2) i(2) H(4) nd c(2) H(3) r1 _ lt', unfolded e] obtain h2 gs where h2:
    "process com' ?h = Some h2" "tx h2 = tx ?h @ (concat (map seg_bytes gs) @ end_mark) @ int_bytes (ret_code SUCCESS)"
    "answers ?h ys (if with_ms ?h then base_ino n1 else ino n1) fo (fo + ln) 0 (gs, hole ?h ys fo (fo + ln))" by auto
  have "expand gs = map (\<lambda>p. (hid, l, od + (p - fo))) (upto_w fo (fo + ln))"
    using h2(3) wr by (simp add: answers_def where_based_def)
  with h1(1,2) h2 show ?thesis by (auto simp: answers_def)
qed

end
