(* ===== verification/Request_More.thy ===== *)
theory Request_More
  imports Read_Correct
begin

text \<open>
  Whole requests of the other commands that change a file: \<^verbatim>\<open>TRUNCATE\<close>, \<^verbatim>\<open>CLONE_TO\<close> and
  \<^verbatim>\<open>REMOVE_DOBJ\<close>; and a file that is copied by handing the answer of a read to a clone.
\<close>

section \<open>The step they share\<close>

text \<open>
  What a handler does to its file in place of the whole request: \<open>w\<close> is the new map, \<open>n\<close> the new
  inode apart from its layout, \<open>k\<close> bounds the memory that it takes.
\<close>

definition handles :: "(addr \<Rightarrow> store \<Rightarrow> (int \<times> bool \<times> store) option) \<Rightarrow> addr \<Rightarrow> store \<Rightarrow> addr list \<Rightarrow>
    nat \<Rightarrow> int \<Rightarrow> (sz \<Rightarrow> place option) \<Rightarrow> inode \<Rightarrow> bool" where
  "handles cmd i h xs k ret w n \<longleftrightarrow> (\<exists>h' ys m. cmd i h = Some (ret, False, h') \<and> file_ok h' i ys \<and>
     (\<forall>p. where_is h' ys p = w p) \<and> inos h' i = Some m \<and> inode_rest m = inode_rest n \<and> edits i h (set xs) h' (set ys) \<and>
     takes k h h')"

text \<open>The request has the map \<open>w\<close> as its effect, and it leaves the other files alone.\<close>

definition served :: "u8 \<Rightarrow> ino_t \<Rightarrow> addr \<Rightarrow> store \<Rightarrow> nat \<Rightarrow> u8 list \<Rightarrow> (sz \<Rightarrow> place option) \<Rightarrow> inode \<Rightarrow> bool" where
  "served com t i h k reply w n \<longleftrightarrow> (\<exists>h' ys m. process com h = Some h' \<and> tx h' = tx h @ reply \<and> sane h' \<and>
     file_ok h' i ys \<and> (\<forall>p. where_is h' ys p = w p) \<and> others_kept i h h' \<and> find_inode t h' = i \<and>
     inos h' i = Some m \<and> inode_rest m = inode_rest n \<and> takes k h h' \<and> dos_srv h' = dos_srv h \<and> with_ms h' = with_ms h)"

lemma request_served:
  assumes s: "sane h" and rx: "rx h = le 8 t @ bs" and i: "find_inode t h = i" "i \<noteq> NULL" and n: "inos h i = Some n"
    and c: "com_of com = Some c" "c \<noteq> CREATE_INODE" "c \<noteq> CREATE_OPEN_INODE" "c \<noteq> READ_INODE_WHOLE"
    and f: "file_ok h i xs"
  defines "k \<equiv> mod_ino i (\<lambda>n. n\<lparr>alive := LkRd 1\<rparr>) (h\<lparr>rx := bs\<rparr>)"
  assumes d: "dispatch (Some c) t i k = on_inode cmd i k" and r: "\<bar>ret\<bar> < 24"
    and H: "handles cmd i k xs b ret w (g (n\<lparr>alive := LkRd 1\<rparr>))"
    and g: "\<And>n l. inode_rest ((g (n\<lparr>alive := l\<rparr>))\<lparr>alive := alive n\<rparr>) = inode_rest (g n)"
      "\<And>n. rwlock (g n) = rwlock n \<and> alive (g n) = alive n \<and> ino (g n) = ino n"
  shows "served com t i h b (int_bytes ret) w (g n)"
proof -
  have al: "alive n = LkFree" using s n by (auto simp: sane_def idle_def busy_on_def)
  from H obtain k2 ys m where k2: "cmd i k = Some (ret, False, k2)" "file_ok k2 i ys"
    "\<And>p. where_is k2 ys p = w p" "inos k2 i = Some m" "inode_rest m = inode_rest (g (n\<lparr>alive := LkRd 1\<rparr>))"
    "edits i k (set xs) k2 (set ys)" "takes b k k2" unfolding handles_def by blast
  from request_step[where g = g and cmd = cmd, OF s rx i n c f d[unfolded k_def] k2(1)[unfolded k_def] r k2(2)
      k2(6)[unfolded k_def] k2(4,5) g(2)] obtain h' where h':
    "process com h = Some h'" "sane h'" "file_ok h' i ys" "\<And>p. where_is h' ys p = where_is k2 ys p"
    "tx h' = tx h @ int_bytes ret" "others_kept i h h'" "find_inode t h' = i"
    "inos h' i = Some (m\<lparr>alive := LkFree\<rparr>)" "avail h' = avail k2" "dos_srv h' = dos_srv h"
    "with_ms h' = with_ms h" by blast
  have "takes b h h'" using k2(7) h'(9) by (simp add: takes_def k_def)
  have "inode_rest (m\<lparr>alive := LkFree\<rparr>) = (inode_rest m)\<lparr>alive := LkFree\<rparr>" by (simp add: inode_rest_def)
  also have "\<dots> = inode_rest ((g (n\<lparr>alive := LkRd 1\<rparr>))\<lparr>alive := LkFree\<rparr>)" unfolding k2(5) by (simp add: inode_rest_def)
  also have "\<dots> = inode_rest (g n)" using g(1)[of n] al by simp
  finally show ?thesis unfolding served_def using h' k2(3) \<open>takes b h h'\<close> by auto
qed

section \<open>The commands\<close>

lemma truncate_request:
  assumes s: "sane h" and i: "find_inode t h = i" "i \<noteq> NULL" and n: "inos h i = Some n" "\<not> is_deleted n"
    and c: "com_of com = Some TRUNCATE" and f: "file_ok h i xs" and rx: "rx h = le 8 t @ le 8 new @ bs"
    and av: "0 < avail h"
  shows "served com t i h 1 (int_bytes (ret_code SUCCESS)) (\<lambda>p. if p < new then where_is h xs p else None)
    (touch (clock h) (n\<lparr>isize := new\<rparr>))"
proof -
  have nl: "rwlock n = LkFree" using s n by (auto simp: sane_def idle_def busy_on_def)
  define k where "k = mod_ino i (\<lambda>n. n\<lparr>alive := LkRd 1\<rparr>) (h\<lparr>rx := le 8 new @ bs\<rparr>)"
  note K = request_file[OF f n(1), of "le 8 new @ bs", folded k_def]
  let ?n = "n\<lparr>alive := LkRd 1\<rparr>"
  have nk: "rwlock ?n = LkFree" "\<not> is_deleted ?n" using nl n(2) by (simp_all add: is_deleted_def)
  have av': "0 < avail k" using av K(5) by simp
  from cmd_truncate_correct[OF K(1,2) nk i(2) K(4) av'] have
    H: "handles cmd_truncate i k xs 1 (ret_code SUCCESS) (\<lambda>p. if p < new then where_is h xs p else None)
      (touch (clock h) (?n\<lparr>isize := new\<rparr>))" unfolding handles_def K(3,6) by auto
  show ?thesis
    by (rule request_served[where g = "\<lambda>n. touch (clock h) (n\<lparr>isize := new\<rparr>)", OF s rx i n(1) c _ _ _ f _ _
        H[unfolded k_def]])
      (auto simp: dispatch_def touch_def inode_rest_def)
qed

lemma clone_request:
  assumes s: "sane h" and i: "find_inode t h = i" "i \<noteq> NULL" and n: "inos h i = Some n" "\<not> is_deleted n"
    and c: "com_of com = Some CLONE_TO" and f: "file_ok h i xs"
    and rx: "rx h = le 8 t @ le 8 start @ le 8 ln @ concat (map seg_bytes gs) @ end_mark @ bs"
    and sg: "segs_ok start (start + ln) start gs" and lt: "start < start + ln"
    and av: "2 * length gs < avail h" and up: "dos_up h"
  shows "served com t i h (2 * length gs + 1) (int_bytes (ret_code SUCCESS))
    (\<lambda>p. if start \<le> p \<and> p < start + ln then seg_at start gs p else where_is h xs p)
    (touch (clock h) (n\<lparr>isize := max (isize n) (start + ln)\<rparr>))"
proof -
  have nl: "rwlock n = LkFree" using s n by (auto simp: sane_def idle_def busy_on_def)
  let ?bs = "le 8 start @ le 8 ln @ concat (map seg_bytes gs) @ end_mark @ bs"
  define k where "k = mod_ino i (\<lambda>n. n\<lparr>alive := LkRd 1\<rparr>) (h\<lparr>rx := ?bs\<rparr>)"
  note K = request_file[OF f n(1), of ?bs, folded k_def]
  let ?n = "n\<lparr>alive := LkRd 1\<rparr>"
  have nk: "rwlock ?n = LkFree" "\<not> is_deleted ?n" using nl n(2) by (simp_all add: is_deleted_def)
  have av': "2 * length gs < avail k" and up': "dos_up k" using av up K(5,7) by (simp_all add: dos_up_def)
  from cmd_clone_correct[OF K(1,2) nk i(2) K(4) sg lt av' up'] have
    H: "handles cmd_clone_to i k xs (2 * length gs + 1) (ret_code SUCCESS)
      (\<lambda>p. if start \<le> p \<and> p < start + ln then seg_at start gs p else where_is h xs p)
      (touch (clock h) (?n\<lparr>isize := max (isize ?n) (start + ln)\<rparr>))" unfolding handles_def K(3,6) by auto
  show ?thesis
    by (rule request_served[where g = "\<lambda>n. touch (clock h) (n\<lparr>isize := max (isize n) (start + ln)\<rparr>)",
        OF s rx i n(1) c _ _ _ f _ _ H[unfolded k_def]])
      (auto simp: dispatch_def touch_def inode_rest_def)
qed

lemma remove_request:
  assumes s: "sane h" and i: "find_inode t h = i" "i \<noteq> NULL" and n: "inos h i = Some n" "\<not> is_deleted n"
    and c: "com_of com = Some REMOVE_DOBJ" and f: "file_ok h i xs"
    and rx: "rx h = le 8 t @ le 4 hid @ le 8 l @ 0 # bs"
    and d: "d \<in> set (do_map n)" "dob_key h d = Some (hid, l)" "\<not> (hid = 0 \<and> l = 0)" and rc: "0 <s refcount n"
  shows "served com t i h 0 (int_bytes (ret_code SUCCESS))
    (\<lambda>p. case where_is h xs p of None \<Rightarrow> None | Some (hid', l', q) \<Rightarrow>
       if hid' = hid \<and> l' = l then None else Some (hid', l', q)) n"
proof -
  have nl: "rwlock n = LkFree" using s n by (auto simp: sane_def idle_def busy_on_def)
  let ?bs = "le 4 hid @ le 8 l @ 0 # bs"
  define k where "k = mod_ino i (\<lambda>n. n\<lparr>alive := LkRd 1\<rparr>) (h\<lparr>rx := ?bs\<rparr>)"
  note K = request_file[OF f n(1), of ?bs, folded k_def]
  let ?n = "n\<lparr>alive := LkRd 1\<rparr>"
  have nk: "rwlock ?n = LkFree" "\<not> is_deleted ?n" "0 <s refcount ?n" "d \<in> set (do_map ?n)"
    using nl n(2) rc d(1) by (simp_all add: is_deleted_def)
  have dk: "dob_key k d = Some (hid, l)" using d(2) K(8) by (simp add: dob_key_def)
  from cmd_remove_dobj_correct[OF K(1,2) nk(1,2) i(2) nk(3) K(4) nk(4) dk d(3)] have
    H: "handles cmd_remove_dobj i k xs 0 (ret_code SUCCESS) (\<lambda>p. case where_is h xs p of None \<Rightarrow> None | Some (hid', l', q) \<Rightarrow>
       if hid' = hid \<and> l' = l then None else Some (hid', l', q)) ?n" unfolding handles_def K(3,6) by auto
  show ?thesis
    by (rule request_served[where g = "\<lambda>n. n", OF s rx i n(1) c _ _ _ f _ _ H[unfolded k_def]])
      (auto simp: dispatch_def inode_rest_def)
qed

section \<open>Copying a range\<close>

lemma expand_Cons: "expand (g # gs) =
    map (\<lambda>k. (g_hid g, g_loid g, g_off_do g + of_nat k)) [0..<unat (g_len g)] @ expand gs"
  by (simp add: expand_def)

lemma contiguous_length: "contiguous o' gs \<Longrightarrow> length gs \<le> length (expand gs)"
proof (induction gs arbitrary: o')
  case (Cons g gs)
  then have "0 < unat (g_len g)" "length gs \<le> length (expand gs)" by (auto simp: unat_gt_0)
  then show ?case by (simp add: expand_Cons)
qed simp

text \<open>Segments without a gap are ones that a clone takes, and they keep their meaning.\<close>

lemma contiguous_segs:
  assumes "contiguous o' gs" "unat (start + o') + length (expand gs) = unat e"
    "\<forall>(hid, l, q) \<in> set (expand gs). \<not> (hid = 0 \<and> l = 0)"
  shows "segs_ok start e (start + o') gs \<and>
    (\<forall>k < length (expand gs). seg_at start gs (start + o' + of_nat k) = Some (expand gs ! k))"
  using assms
proof (induction gs arbitrary: o')
  case (Cons g gs)
  define s where "s = start + o'"
  let ?n = "unat (g_len g)"
  have g: "g_offset g = o'" "0 < g_len g" "contiguous (o' + g_len g) gs" using Cons.prems(1) by simp_all
  have n: "0 < ?n" using g(2) by (simp add: unat_gt_0)
  have e: "unat s + (?n + length (expand gs)) = unat e"
    using Cons.prems(2) by (simp add: s_def expand_Cons)
  have "unat e < 2 ^ LENGTH(64)" by (rule unsigned_less)
  then have e64: "unat e < 2 ^ 64" by simp
  have un: "unat (s + of_nat k) = unat s + k" if "k \<le> ?n + length (expand gs)" for k
  proof -
    have "unat (of_nat k :: sz) = k" using that e e64 by (simp add: unat_of_nat take_bit_nat_eq_self)
    with that e e64 show ?thesis by (subst unat_add_lem[THEN iffD1]) simp_all
  qed
  have sl: "s + g_len g = s + of_nat ?n" by simp
  have ul: "unat (s + g_len g) = unat s + ?n" unfolding sl by (rule un) simp
  have al: "start + (o' + g_len g) = s + g_len g" by (simp add: s_def add.assoc)
  have nz: "\<not> (g_hid g = 0 \<and> g_loid g = 0)" "\<forall>(hid, l, q) \<in> set (expand gs). \<not> (hid = 0 \<and> l = 0)"
    using Cons.prems(3) n by (force simp: expand_Cons)+
  have IH: "segs_ok start e (s + g_len g) gs"
    "\<And>k. k < length (expand gs) \<Longrightarrow> seg_at start gs (s + g_len g + of_nat k) = Some (expand gs ! k)"
    using Cons.IH[OF g(3) _ nz(2)] ul e unfolding al by auto
  have "segs_ok start e s (g # gs)" using g(1) nz(1) IH(1) ul n e
    by (simp add: s_def[symmetric] word_less_nat_alt)
  moreover have "seg_at start (g # gs) (s + of_nat k) = Some (expand (g # gs) ! k)" if "k < length (expand (g # gs))" for k
  proof (cases "k < ?n")
    case True
    then have "s \<le> s + of_nat k" "s + of_nat k < s + g_len g"
      using un[of k] ul by (simp_all add: word_le_nat_alt word_less_nat_alt)
    with True show ?thesis using g(1) by (simp add: s_def[symmetric] expand_Cons nth_append)
  next
    case False
    then obtain j where j: "k = ?n + j" by (metis le_Suc_ex not_less)
    have "j < length (expand gs)" using that j by (simp add: expand_Cons)
    moreover have "\<not> s + of_nat k < s + g_len g"
      using un[of k] ul that False by (simp add: word_less_nat_alt expand_Cons)
    moreover have "s + of_nat k = s + g_len g + of_nat j" by (simp add: j)
    ultimately show ?thesis using g(1) IH(2)[of j] False j
      by (simp add: s_def[symmetric] expand_Cons nth_append add.assoc)
  qed
  ultimately show ?case by (simp add: s_def)
qed simp

lemma answers_segs:
  assumes a: "answers h xs b f e 0 (gs, c)" and fe: "f \<le> e" and nw: "start \<le> start + (e - f)"
    and nz: "\<And>p hid l q. f \<le> p \<Longrightarrow> p < e \<Longrightarrow> where_based h xs b p = (hid, l, q) \<Longrightarrow> \<not> (hid = 0 \<and> l = 0)"
  shows "segs_ok start (start + (e - f)) start gs"
    "start \<le> p \<Longrightarrow> p < start + (e - f) \<Longrightarrow> seg_at start gs p = Some (where_based h xs b (f + (p - start)))"
proof -
  let ?W = "where_based h xs b"
  have x: "expand gs = map ?W (upto_w f e)" "contiguous 0 gs" using a by (simp_all add: answers_def)
  have len: "length (expand gs) = unat (e - f)" by (simp add: x(1) upto_w_def)
  have us: "unat (start + (e - f)) = unat start + unat (e - f)"
    using nw no_olen_add_nat unat_plus_simple by blast
  have Z: "\<forall>(hid, l, q) \<in> set (expand gs). \<not> (hid = 0 \<and> l = 0)"
    unfolding x(1) using nz set_upto_w[OF fe] by (auto, metis)
  have u0: "unat (start + 0) + length (expand gs) = unat (start + (e - f))" by (simp add: len us)
  from contiguous_segs[OF x(2) u0 Z] have S: "segs_ok start (start + (e - f)) start gs"
    "\<And>k. k < unat (e - f) \<Longrightarrow> seg_at start gs (start + of_nat k) = Some (expand gs ! k)" by (simp_all add: len)
  show "segs_ok start (start + (e - f)) start gs" by (rule S(1))
  assume p: "start \<le> p" "p < start + (e - f)"
  have up: "unat (p - start) = unat p - unat start" using p(1) by (rule unat_sub)
  have k: "unat (p - start) < unat (e - f)" using p us by (simp add: up word_less_nat_alt word_le_nat_alt)
  from S(2)[OF k] k show "seg_at start gs p = Some (?W (f + (p - start)))"
    by (simp add: x(1) upto_w_def)
qed


text \<open>
  What a read answers for the file \<open>i\<close>, sent to a clone of the file \<open>j\<close>, gives \<open>j\<close> the places of
  \<open>i\<close>, the base object of \<open>i\<close> in its holes.
\<close>

lemma read_then_clone:
  assumes s: "sane h" and i: "find_inode t h = i" "i \<noteq> NULL" and n: "inos h i = Some n" "\<not> is_deleted n"
    and j: "find_inode u h = j" "j \<noteq> NULL" "j \<noteq> i" and m: "inos h j = Some m" "\<not> is_deleted m"
    and c: "com_of com = Some READ_LAYOUT" "com_of com' = Some CLONE_TO"
    and f: "file_ok h i xs" "file_ok h j zs"
    and rx: "rx h = le 8 t @ le 8 fo @ le 8 ln @ [1]" and lt: "fo < fo + ln" "fo + ln \<le> isize n"
      "start < start + ln"
    and up: "dos_up h"
    and nz: "\<And>p hid l q. where_is h xs p = Some (hid, l, q) \<Longrightarrow> \<not> (hid = 0 \<and> l = 0)"
  defines "b \<equiv> (if with_ms h then base_ino n else ino n)"
  assumes b: "b \<noteq> 0" and av: "2 * unat ln < avail h"
  shows "\<exists>gs h1. process com h = Some h1 \<and>
    tx h1 = tx h @ (concat (map seg_bytes gs) @ end_mark) @ int_bytes (ret_code SUCCESS) \<and>
    served com' u j (h1\<lparr>rx := le 8 u @ le 8 start @ le 8 ln @ concat (map seg_bytes gs) @ end_mark\<rparr>)
      (2 * length gs + 1) (int_bytes (ret_code SUCCESS))
      (\<lambda>p. if start \<le> p \<and> p < start + ln then Some (where_based h xs b (fo + (p - start)))
           else where_is h zs p)
      (touch (clock h) (m\<lparr>isize := max (isize m) (start + ln)\<rparr>))"
proof -
  have e: "min (fo + ln) (isize n) = fo + ln" using lt(2) by simp
  have lt': "fo < min (fo + ln) (isize n)" using lt(1) e by simp
  have rx': "rx h = le 8 t @ le 8 fo @ le 8 ln @ 1 # []" using rx by simp
  from read_request[OF s i n c(1) f(1) rx' _ lt', unfolded e, folded b_def] obtain h1 gs where h1: "process com h = Some h1"
    "tx h1 = tx h @ (concat (map seg_bytes gs) @ end_mark) @ int_bytes (ret_code SUCCESS)" "sane h1"
    "others_kept i h h1" "answers h xs b fo (fo + ln) 0 (gs, hole h xs fo (fo + ln))" "avail h1 = avail h"
    "dos_srv h1 = dos_srv h" by auto
  from h1(4) j m f(2) have J: "find_inode u h1 = j" "inos h1 j = Some m" "clock h1 = clock h" "file_ok h1 j zs"
    "\<And>p. where_is h1 zs p = where_is h zs p" by (auto simp: others_kept_def)
  have ln: "fo + ln - fo = ln" by simp
  have nzb: "\<not> (hid = 0 \<and> l = 0)" if "where_based h xs b p = (hid, l, q)" for p hid l q
    using that nz[of p] b by (auto simp: where_based_def split: option.splits)
  note G = answers_segs[OF h1(5) less_imp_le[OF lt(1)], of start, unfolded ln, OF less_imp_le[OF lt(3)] nzb]
  have "length gs \<le> unat ln" using h1(5) contiguous_length[of 0 gs] by (simp add: answers_def upto_w_def)
  with av h1(6) have av': "2 * length gs < avail h1" by linarith
  let ?h = "h1\<lparr>rx := le 8 u @ le 8 start @ le 8 ln @ concat (map seg_bytes gs) @ end_mark\<rparr>"
  have H: "sane ?h" "find_inode u ?h = j" "inos ?h j = Some m" "file_ok ?h j zs" "dos_up ?h" "2 * length gs < avail ?h"
    using h1(3,7) J av' up by (simp_all add: sane_rx find_rx file_ok_rx dos_up_def)
  have rx2: "rx ?h = le 8 u @ le 8 start @ le 8 ln @ concat (map seg_bytes gs) @ end_mark @ []" by simp
  have W: "(\<lambda>p. if start \<le> p \<and> p < start + ln then seg_at start gs p else where_is ?h zs p) =
      (\<lambda>p. if start \<le> p \<and> p < start + ln then Some (where_based h xs b (fo + (p - start))) else where_is h zs p)"
    using G(2) J(5) by (auto simp: fun_eq_iff rx_view)
  from clone_request[OF H(1,2) j(2) H(3) m(2) c(2) H(4) rx2 G(1) lt(3) H(6,5), unfolded W] h1(1,2) J(3)
  show ?thesis by auto
qed

end
