(* ===== verification/Example_Files.thy ===== *)
theory Example_Files
  imports Examples Request_More
begin

text \<open>
  A concrete server between two requests: the file 7 has the three extents of the example before and one
  data object, the file 8 has no extent.
\<close>

definition ex_files :: store where
  "ex_files = ex_store\<lparr>
     exts := [1 \<mapsto> (ex_ext 0 100 10 2 NULL)\<lparr>parent := 2, pivot := SLeft 2, next_e := 2\<rparr>,
       2 \<mapsto> (ex_ext 20 120 10 3 1)\<lparr>depth := 2, pivot := SFlayout 1, left := 1, right := 3,
         prev_e := 1, next_e := 3\<rparr>,
       3 \<mapsto> (ex_ext 30 300 10 NULL 2)\<lparr>parent := 2, pivot := SRight 2, prev_e := 2\<rparr>],
     dobs := [1 \<mapsto> \<lparr>daddr = \<lparr>host_id = 9, loid = 77\<rparr>, d_inode = 1, refs = 3, num_refs = 3\<rparr>],
     inos := [1 \<mapsto> ex_inode\<lparr>num_exts := 3\<rparr>, 2 \<mapsto> ex_empty\<lparr>ino := 8\<rparr>],
     inode_map := [1, 2], dos_srv := (\<lambda>_ _. Some 2)\<rparr>"

lemma ex_files_simps [simp]:
  "inos (ex_files\<lparr>rx := bs\<rparr>) 1 = Some (ex_inode\<lparr>num_exts := 3\<rparr>)" "inos (ex_files\<lparr>rx := bs\<rparr>) 2 = Some (ex_empty\<lparr>ino := 8\<rparr>)"
  "avail ex_files = 100" "with_ms ex_files = False" "dos_up (ex_files\<lparr>rx := bs\<rparr>)"
  "inos ex_files 1 = Some (ex_inode\<lparr>num_exts := 3\<rparr>)" "tx ex_files = []"
  by (simp_all add: ex_files_def ex_store_def dos_up_def)

lemmas ex_files_simps' [simp] = ex_files_simps[unfolded One_nat_def]

lemma ex_files_layout: "layout ex_files 1 ex_tree"
  by (simp add: layout_def focus_def tnode_def null_ok_def fld_def ex_files_def ex_store_def ex_inode_def ex_ext_def ex_tree_def)

lemma ex_files_owned: "owned ex_files 1 {1, 2, 3}"
proof -
  have "users ex_files {1, 2, 3} 1 = set [3, 2, 1]"
    by (auto simp: users_def fld_def ex_files_def ex_store_def ex_ext_def)
  moreover have "dob_ok ex_files 1 1 [3, 2, 1]"
    by (simp add: dob_ok_def ex_files_def ex_store_def ex_ext_def fld_def)
  ultimately have "\<exists>rs. dob_ok ex_files 1 1 rs \<and> set rs = users ex_files {1, 2, 3} 1" by blast
  moreover have "do_map (ex_inode\<lparr>num_exts := 3\<rparr>) = [1]" by (simp add: ex_inode_def)
  moreover have "\<forall>a \<in> {1, 2, 3}. fld dobj ex_files a = Some 1"
    by (simp add: fld_def ex_files_def ex_store_def ex_ext_def)
  ultimately show ?thesis by (simp add: owned_def keys_unique_def)
qed

lemma ex_files_fresh: "fresh_ok ex_files"
  by (simp add: fresh_ok_def ex_files_def ex_store_def)

lemma ex_where: "where_is ex_files [1, 2, 3] p =
    (if p < 10 then Some (9, 77, 100 + p) else if 20 \<le> p \<and> p < 30 then Some (9, 77, 120 + (p - 20))
     else if 30 \<le> p \<and> p < 40 then Some (9, 77, 300 + (p - 30)) else None)"
  by (auto simp: where_is_def covers_def place_in_def ex_files_def ex_store_def ex_ext_def)

lemma ex_files_ok: "file_ok ex_files 1 [1, 2, 3]" "file_ok ex_files 2 []"
proof -
  have "stage ex_files 1 [] [] [1, 2, 3]"
    using ex_files_layout ex_files_owned ex_files_fresh by (auto simp: stage_def intro!: exI[of _ ex_tree])
  moreover have "ordered ex_files [1, 2, 3]"
    by (simp add: ordered_def precedes_def proper_def ex_files_def ex_store_def ex_ext_def)
  moreover have "where_is ex_files [1, 2, 3] p = None" if "50 \<le> p" for p
  proof -
    have "10 < p" "30 < p" "40 < p" by (rule less_le_trans[OF _ that], simp)+
    then have "\<not> p < 10" "\<not> p < 30" "\<not> p < 40" by (simp_all add: not_less less_imp_le)
    then show ?thesis by (subst ex_where) simp
  qed
  ultimately show "file_ok ex_files 1 [1, 2, 3]" by (simp add: file_ok_def ex_inode_def)
  have "stage ex_files 2 [] [] []"
    using ex_files_fresh
    by (auto simp: stage_def layout_def focus_def owned_def ex_files_def ex_store_def ex_empty_def keys_unique_def
        null_ok_def intro!: exI[of _ Tip])
  then show "file_ok ex_files 2 []"
    by (simp add: file_ok_def where_is_def ordered_def) (simp add: ex_files_def)
qed

lemma ex_files_sane: "sane (ex_files\<lparr>rx := bs\<rparr>)"
proof -
  have "files_ok ex_files" using ex_files_ok by (auto simp: files_ok_def) (auto simp: ex_files_def)
  moreover have "table_ok ex_files"
    by (auto simp: table_ok_def keys_unique_def ex_files_def ex_store_def ex_inode_def ex_empty_def ino_key_def)
  moreover have "idle ex_files"
    by (auto simp: idle_def busy_on_def ex_files_def ex_store_def ex_inode_def ex_empty_def split: if_splits)
  ultimately show ?thesis by (simp add: sane_rx) (simp add: sane_def)
qed

lemma ex_files_find: "find_inode 7 (ex_files\<lparr>rx := bs\<rparr>) = 1" "find_inode 8 (ex_files\<lparr>rx := bs\<rparr>) = 2"
  by (simp_all add: find_inode_def hash_find_def ino_key_def ex_files_def ex_store_def ex_inode_def ex_empty_def)

text \<open>The arguments of requests on these files.\<close>

definition ex_write :: "sz \<Rightarrow> u8 list" where
  "ex_write n = le 8 (7 :: ino_t) @ le 4 (3 :: u32) @ le 8 (44 :: loid_t) @ le 8 (5 :: sz) @ le 8 (1000 :: sz) @ le 8 n"

definition ex_read :: "sz \<Rightarrow> u8 list" where
  "ex_read n = le 8 (7 :: ino_t) @ le 8 (5 :: sz) @ le 8 n @ [1]"

definition ex_open :: "ino_t \<Rightarrow> u8 list" where
  "ex_open k = le 8 k @ le 8 (4096 :: sz) @ le 1 (2 :: u8)"

definition ex_clone :: "u8 list" where
  "ex_clone = le 8 (8 :: ino_t) @ le 8 (100 :: sz) @ le 8 (10 :: sz)"

definition ex_segs :: "segment list" where
  "ex_segs = [\<lparr>g_hid = 3, g_loid = 44, g_offset = 2, g_off_do = 1000, g_len = 5\<rparr>]"

lemma ex_coms: "com_of 0 = Some WRITE" "com_of 1 = Some TRUNCATE" "com_of 2 = Some READ_LAYOUT"
  "com_of 3 = Some CLONE_TO" "com_of 9 = Some REMOVE_DOBJ" "com_of 7 = Some CREATE_OPEN_INODE"
  by (simp_all add: com_of_def ins_coms_def)

lemma ex_files_live: "\<not> is_deleted (ex_inode\<lparr>num_exts := 3\<rparr>)" "\<not> is_deleted (ex_empty\<lparr>ino := 8\<rparr>)"
  by (simp_all add: is_deleted_def ex_empty_def ex_inode_def DELETED_def)

lemma ex_files_rx: "file_ok (ex_files\<lparr>rx := bs\<rparr>) 1 [1, 2, 3]" "file_ok (ex_files\<lparr>rx := bs\<rparr>) 2 []"
  "where_is (ex_files\<lparr>rx := bs\<rparr>) xs p = where_is ex_files xs p"
  using ex_files_ok by (simp_all only: file_ok_rx rx_view)

text \<open>The server when it has just been started.\<close>

definition ex_fresh :: store where
  "ex_fresh = ex_files\<lparr>exts := (\<lambda>_. None), dobs := (\<lambda>_. None), inos := (\<lambda>_. None), inode_map := [], brk := 1, avail := 1000\<rparr>"

lemma ex_fresh_sane: "sane ex_fresh" "fresh_ok ex_fresh" "\<not> with_ms ex_fresh" "inode_map ex_fresh = []"
  by (simp_all add: sane_def files_ok_def table_ok_def idle_def busy_on_def fresh_ok_def keys_unique_def ex_fresh_def
      ex_files_def ex_store_def)

end
