(* ===== verification/New_File.thy ===== *)
theory New_File
  imports Request_More
begin

text \<open>
  Files that come into being: a new inode enters the table, as an empty file, and the command that creates
  or opens a file.
\<close>

section \<open>An inode without extents\<close>

lemma empty_file:
  assumes "inos h i = Some n" "flayout n = NULL" "num_exts n = 0" "do_map n = []" "fresh_ok h"
  shows "file_ok h i []"
proof -
  have "layout h i Tip" using assms by (simp add: layout_def focus_def null_ok_def fresh_ok_def)
  moreover have "owned h i {}" using assms by (simp add: owned_def keys_unique_def)
  ultimately have "stage h i [] [] []" using assms(5) by (auto simp: stage_def intro!: exI[of _ Tip])
  then show ?thesis using assms(1) by (simp add: file_ok_def ordered_def)
qed

definition vacant :: "inode \<Rightarrow> bool" where
  "vacant n \<longleftrightarrow> flayout n = NULL \<and> num_exts n = 0 \<and> do_map n = [] \<and> rwlock n = LkFree \<and> alive n = LkFree"

text \<open>The inode \<open>n\<close> enters the table \<open>m\<close>.\<close>

definition enter :: "inode \<Rightarrow> addr list \<Rightarrow> u8 list \<Rightarrow> store \<Rightarrow> store" where
  "enter n m bs g = g\<lparr>inos := (inos g)(brk g \<mapsto> n), inode_map := m @ [brk g], brk := brk g + 1,
     avail := avail g - 1, rx := bs\<rparr>"

lemma enter_sane:
  assumes s: "sane g" and fr: "fresh_ok g" and c: "cleared k g = Some m" and n: "vacant n" "ino n = k"
  shows "sane (enter n m bs g)" "fresh_ok (enter n m bs g)" "file_ok (enter n m bs g) (brk g) []" "brk g \<noteq> NULL"
    "find_inode k (enter n m bs g) = brk g" "j \<noteq> k \<Longrightarrow> find_inode j (enter n m bs g) = find_inode j g"
    "i \<noteq> brk g \<Longrightarrow> file_ok g i xs \<Longrightarrow> file_ok (enter n m bs g) i xs" "where_is (enter n m bs g) xs p = where_is g xs p"
proof -
  let ?h = "enter n m bs g"
  from s have T: "table_ok g" "idle g" "files_ok g" by (simp_all add: sane_def)
  have E: "inos ?h = (inos g)(brk g \<mapsto> n)" "inode_map ?h = m @ [brk g]" "brk ?h = brk g + 1"
    by (simp_all add: enter_def)
  note N = entered_table[OF T(1) c n(2) E]
  show "find_inode k ?h = brk g" by (rule N(2))
  show "j \<noteq> k \<Longrightarrow> find_inode j ?h = find_inode j g" by (rule N(3))
  show fr': "fresh_ok ?h" using fr by (auto simp: fresh_ok_def enter_def)
  then have "fresh_ok ?h = fresh_ok g" using fr by simp
  note F = file_same_fresh[of ?h g, OF _ _ _ this]
  show f: "i \<noteq> brk g \<Longrightarrow> file_ok g i xs \<Longrightarrow> file_ok ?h i xs" for i xs
    using F(1)[of i xs] by (simp add: enter_def)
  show "where_is ?h xs p = where_is g xs p" by (rule where_is_view) (simp add: view_def enter_def)
  show f0: "file_ok ?h (brk g) []"
    by (rule empty_file[OF _ _ _ _ fr', of _ n]) (use n(1) in \<open>simp_all add: enter_def vacant_def\<close>)
  show "brk g \<noteq> NULL" using fr by (simp add: fresh_ok_def)
  have "idle ?h" using T(2) n(1) by (simp add: idle_def busy_on_def enter_def vacant_def)
  moreover have "files_ok ?h" unfolding files_ok_def
  proof
    fix i assume "i \<in> set (inode_map ?h)"
    moreover have "set m \<subseteq> set (inode_map g)" using cleared_keys(2)[OF T(1) c] by blast
    ultimately consider "i = brk g" | "i \<in> set (inode_map g)" "i \<noteq> brk g" by (auto simp: enter_def)
    then show "\<exists>xs. file_ok ?h i xs"
    proof cases
      case 2
      with T(3) f show ?thesis unfolding files_ok_def by blast
    qed (use f0 in blast)
  qed
  ultimately show "sane ?h" using N(1) by (simp add: sane_def)
qed

section \<open>The whole of a file\<close>

text \<open>The segment of an extent, and the answer that describes a whole file.\<close>

definition ext_seg :: "store \<Rightarrow> addr \<Rightarrow> segment" where
  "ext_seg h a = (case exts h a of
     None \<Rightarrow> \<lparr>g_hid = 0, g_loid = 0, g_offset = 0, g_off_do = 0, g_len = 0\<rparr>
   | Some e \<Rightarrow> (let p = place_in h a (off_f e) in
       \<lparr>g_hid = fst p, g_loid = fst (snd p), g_offset = off_f e, g_off_do = off_do e, g_len = len e\<rparr>))"

lemma wr_fields [simp]: "inos (wr bs h) = inos h" "exts (wr bs h) = exts h" "dobs (wr bs h) = dobs h"
  "with_ms (wr bs h) = with_ms h" "wr y (wr x h) = wr (x @ y) h"
  by (simp_all add: wr_def)

lemma ext_seg_same:
  assumes "exts h' = exts h" "dobs h' = dobs h"
  shows "ext_seg h' = ext_seg h"
proof -
  have p: "place_in h' = place_in h" by (intro ext) (unfold place_in_def assms, rule refl)
  show "ext_seg h' = ext_seg h" by (intro ext) (unfold ext_seg_def assms p, rule refl)
qed

lemma layout_bytes_correct:
  assumes f: "file_ok h i (as @ ds)"
  shows "layout_bytes (first ds NULL) h = Some (concat (map (\<lambda>a. seg_bytes (ext_seg h a)) ds))"
  using f
proof (induction ds arbitrary: as)
  case Nil
  then show ?case by (simp add: layout_bytes.simps)
next
  case (Cons a ds)
  from Cons.prems obtain t where t: "layout h i t" "inorder t = as @ a # ds" and o: "ordered h (as @ a # ds)"
    "owned h i (set (as @ a # ds))" by (auto simp: file_ok_def stage_def)
  from ordered_ext[OF o(1), of a] obtain e where e: "exts h a = Some e" by auto
  obtain d rs where "fld dobj h a = Some d" "dob_ok h i d rs" using ownedE[OF o(2), of a] by (metis in_set_conv_decomp)
  with e obtain x where x: "dobs h (dobj e) = Some x" by (auto simp: fld_def dob_ok_def)
  have "a \<noteq> NULL" using t layout_not_NULL[OF t(1)] by auto
  moreover have "next_e e = first ds NULL"
    using dll_next[of prev_e next_e h NULL as a ds NULL] t e by (simp add: layout_def fld_def)
  moreover have "layout_bytes (first ds NULL) h = Some (concat (map (\<lambda>a. seg_bytes (ext_seg h a)) ds))"
    using Cons.IH[of "as @ [a]"] Cons.prems by simp
  ultimately show ?case using e x by (subst layout_bytes.simps) (simp add: seg_bytes_def ext_seg_def place_in_def)
qed

definition whole_bytes :: "store \<Rightarrow> addr list \<Rightarrow> inode \<Rightarrow> u8 list" where
  "whole_bytes h xs n = meta_bytes (with_ms h) (Some n) @ le 4 (of_nat (length xs) :: u32) @
     concat (map seg_bytes (map (ext_seg h) xs))"

lemma getinode_all:
  assumes f: "file_ok h i xs" and n: "inos h i = Some n" and i: "i \<noteq> NULL"
  shows "pado_getinode_all i h = Some (ret_code SUCCESS, wr (whole_bytes h xs n) h)"
proof -
  have F: "file_ok (wr b h) i ([] @ xs)" for b using f by (simp add: files_wr)
  have "distinct xs" "owned h i (set xs)" using f by (auto simp: file_ok_def stage_def)
  then have "num_exts n = of_nat (length xs)" using n by (auto simp: owned_def distinct_card)
  then show ?thesis
    using i n find_start_zero[OF F] layout_bytes_correct[OF F] ext_seg_same[of "wr (meta_bytes (with_ms h) (Some n)) h" h]
    by (simp add: pado_getinode_all_def pado_getinode_meta_def whole_bytes_def comp_def)
qed

section \<open>CREATE_OPEN_INODE\<close>

lemma open_rest:
  assumes s: "sane h" and f: "file_ok h i xs" and n: "inos h i = Some n" and i: "i \<noteq> NULL"
  defines "h1 \<equiv> mod_ino i (alive_update (\<lambda>_. LkRd 1)) h" and "h2 \<equiv> mod_ino i (\<lambda>n. n\<lparr>refcount := refcount n + 1\<rparr>) h"
  shows "do { h \<leftarrow> do { h \<leftarrow> do { h \<leftarrow> on_rwlock (lk_wr (self h1)) i h1; h \<leftarrow> upd_ino i (\<lambda>n. n\<lparr>refcount := refcount n + 1\<rparr>) h;
          on_rwlock lk_un i h }; (r, h) \<leftarrow> pado_getinode_all i h; Some h };
        h \<leftarrow> (if nodp h then Some h else do { ensure (\<bar>ret\<bar> < 24); print_inode i h });
        on_alive lk_un i (wr (int_bytes ret) h) } =
      (if nodp h \<or> \<bar>ret\<bar> < 24 then Some (wr (whole_bytes h xs n @ int_bytes ret) h2) else None)" (is ?eval)
    and "sane h2" "others_kept i h h2" "file_ok h2 i xs" "where_is h2 xs p = where_is h xs p"
    "inos h2 i = Some (n\<lparr>refcount := refcount n + 1\<rparr>)" "fresh_ok h2 = fresh_ok h"
proof -
  have I: "rwlock n = LkFree" "alive n = LkFree" using s n by (auto simp: sane_def idle_def busy_on_def)
  have m: "meta_only (\<lambda>n. n\<lparr>refcount := refcount n + 1\<rparr>)" "meta_only (\<lambda>n. n\<lparr>alive := LkRd 1, refcount := refcount n + 1\<rparr>)"
    by (simp_all add: meta_only_def)
  show n2: "inos h2 i = Some (n\<lparr>refcount := refcount n + 1\<rparr>)" using n by (simp add: h2_def)
  show f2: "file_ok h2 i xs" using f by (simp add: h2_def file_meta[OF m(1)])
  show "where_is h2 xs p = where_is h xs p" by (simp add: h2_def meta_view)
  show "fresh_ok h2 = fresh_ok h" by (simp add: h2_def fresh_ok_def)
  have e: "edits i h (set xs) h2 (set xs)" unfolding h2_def by (rule meta_edits[OF m(1) n])
  show "sane h2" "others_kept i h h2" using sane_edits[OF s f e f2 n n2] I by simp_all
  let ?k = "mod_ino i (\<lambda>n. n\<lparr>alive := LkRd 1, refcount := refcount n + 1\<rparr>) h"
  have k: "file_ok ?k i xs" by (rule iffD2[OF file_meta[OF m(2)] f]) simp
  have kn: "inos ?k i = Some (n\<lparr>alive := LkRd 1, refcount := refcount n + 1\<rparr>)" using n by simp
  have lk: "do { h \<leftarrow> on_rwlock (lk_wr (self h1)) i h1; h \<leftarrow> upd_ino i (\<lambda>n. n\<lparr>refcount := refcount n + 1\<rparr>) h; on_rwlock lk_un i h } = Some ?k"
    using n I by (auto simp: h1_def on_rwlock_def upd_ino_def mod_ino_def intro!: store.equality)
  have w: "whole_bytes ?k xs (n\<lparr>alive := LkRd 1, refcount := refcount n + 1\<rparr>) = whole_bytes h xs n"
    using ext_seg_same[of ?k h] by (simp add: whole_bytes_def meta_bytes_def)
  let ?w = "wr (whole_bytes h xs n) ?k"
  have pr: "print_inode i ?w = Some ?w"
    by (rule print_inode_correct[of _ _ xs "n\<lparr>alive := LkRd 1, refcount := refcount n + 1\<rparr>"]) (use k kn I i in \<open>simp_all add: files_wr\<close>)
  have un: "on_alive lk_un i (wr (int_bytes ret) ?w) = Some (wr (whole_bytes h xs n @ int_bytes ret) h2)"
    using n I by (auto simp: on_alive_def upd_ino_def h2_def mod_ino_def wr_def intro!: store.equality)
  show ?eval
    unfolding lk Option.bind.bind_lunit getinode_all[OF k kn i] w
    using pr un by (cases "nodp h") (auto simp: wr_def)
qed

lemma rd_u8_eval: "rd_u8 (h\<lparr>rx := le 1 v @ b\<rparr>) = Some (v, h\<lparr>rx := b\<rparr>)"
  by (simp add: rd_u8_def rd_bytes_def unle_le)

lemma open_served:
  fixes fl :: u8
  assumes s: "sane g" and f: "file_ok g i xs" and n: "inos g i = Some n" and i: "i \<noteq> NULL"
    and c: "create_inode k s (h\<lparr>rx := bs\<rparr>) = Some (i, ret, mod_ino i (alive_update (\<lambda>_. LkRd 1)) g)"
    and rx: "rx h = le 8 k @ le 8 s @ le 1 fl @ bs" and fl: "1 < fl" and com: "com_of com = Some CREATE_OPEN_INODE"
    and r: "\<bar>ret\<bar> < 24"
  shows "process com h = Some (wr (whole_bytes g xs n @ int_bytes ret) (mod_ino i (\<lambda>n. n\<lparr>refcount := refcount n + 1\<rparr>) g))"
proof -
  have fl': "fl \<noteq> 0" "fl \<noteq> 1" "0 < fl" using fl by (auto simp: word_less_nat_alt unat_eq_zero word_gt_0)
  have rd: "rd_u64 h = Some (k, h\<lparr>rx := le 8 s @ le 1 fl @ bs\<rparr>)"
    "rd_u64 (h\<lparr>rx := le 8 s @ le 1 fl @ bs\<rparr>) = Some (s, h\<lparr>rx := le 1 fl @ bs\<rparr>)"
    "rd_u8 (h\<lparr>rx := le 1 fl @ bs\<rparr>) = Some (fl, h\<lparr>rx := bs\<rparr>)"
    using rd_words(2)[OF rx] rd_words(2)[of "h\<lparr>rx := le 8 s @ le 1 fl @ bs\<rparr>" s]
      rd_u8_eval[of fl bs h] by simp_all
  show ?thesis
    using open_rest(1)[OF s f n i, of ret] r
    by (simp add: process_def dispatch_def cmd_create_open_inode_def com rd c fl' fl i del: One_nat_def)
qed

text \<open>The state after the request, and the inode it answers for.\<close>

definition opened :: "ino_t \<Rightarrow> sz \<Rightarrow> store \<Rightarrow> addr \<Rightarrow> addr list \<Rightarrow> inode \<Rightarrow> bool" where
  "opened k s h i xs n \<longleftrightarrow>
     (if present k h then i = find_inode k h \<and> inos h i = Some n \<and> file_ok h i xs
      else i = brk h \<and> n = new_inode k 0 s 0 \<and> xs = [])"

definition beside :: "addr \<Rightarrow> ino_t \<Rightarrow> store \<Rightarrow> store \<Rightarrow> bool" where
  "beside i k h h' \<longleftrightarrow> (\<forall>t. t \<noteq> k \<longrightarrow> find_inode t h' = find_inode t h) \<and> (\<forall>j. j \<noteq> i \<longrightarrow> inos h' j = inos h j) \<and>
     (\<forall>j xs p. j \<noteq> i \<longrightarrow> file_ok h j xs \<longrightarrow> file_ok h' j xs \<and> where_is h' xs p = where_is h xs p)"

lemma fresh_wr: "fresh_ok (wr b h) = fresh_ok h" "tx (wr b h) = tx h @ b"
    "avail (wr b h) = avail h" "dos_srv (wr b h) = dos_srv h"
    "tx (enter n m bs h) = tx h" "avail (enter n m bs h) = avail h - 1" "dos_srv (enter n m bs h) = dos_srv h"
    "with_ms (enter n m bs h) = with_ms h"
  by (simp_all add: fresh_ok_def wr_def enter_def)

lemma create_open_correct:
  fixes fl :: u8
  assumes s: "sane h" and fr: "fresh_ok h" and av: "0 < avail h" and fl: "1 < fl"
    and rx: "rx h = le 8 k @ le 8 s @ le 1 fl" and com: "com_of com = Some CREATE_OPEN_INODE"
  shows "\<exists>h' i xs n. process com h = Some h' \<and> sane h' \<and> fresh_ok h' \<and> opened k s h i xs n \<and> i \<noteq> NULL \<and>
    find_inode k h' = i \<and> file_ok h' i xs \<and> inos h' i = Some (n\<lparr>refcount := refcount n + 1\<rparr>) \<and>
    (\<forall>p. where_is h' xs p = where_is h xs p) \<and> beside i k h h' \<and>
    tx h' = tx h @ whole_bytes h' xs n @ int_bytes (if present k h then err ALREADY_CREATED else ret_code SUCCESS) \<and>
    with_ms h' = with_ms h \<and> dos_srv h' = dos_srv h \<and> takes 1 h h'"
proof -
  let ?r = "h\<lparr>rx := []\<rparr>" and ?ref = "\<lambda>n. n\<lparr>refcount := refcount n + 1\<rparr>"
  from s fr have r: "sane ?r" "fresh_ok ?r" by (simp_all add: sane_rx fresh_ok_def)
  have fv: "find_inode t ?r = find_inode t h" for t by (simp add: find_rx)
  have T: "table_ok h" "table_ok ?r" "idle ?r" "files_ok h" using s r by (simp_all add: sane_def)
  have im: "imlock ?r = LkFree" using T(3) by (simp add: idle_def busy_on_def)
  have rx': "rx h = le 8 k @ le 8 s @ le 1 fl @ []" using rx by simp
  have fg: "file_ok ?r i zs = file_ok h i zs" "where_is ?r zs p = where_is h zs p" for i zs p
    by (rule file_same; simp)+
  have wb: "whole_bytes (wr b (mod_ino i ?ref g)) zs n = whole_bytes g zs n" for b i g zs n
    using ext_seg_same[of "wr b (mod_ino i ?ref g)" g] by (simp add: whole_bytes_def)
  show ?thesis
  proof (cases "present k h")
    case True
    then obtain n where n: "find_inode k h \<noteq> NULL" "inos h (find_inode k h) = Some n" "\<not> is_deleted n"
      by (auto simp: present_def)
    let ?i = "find_inode k h"
    have "?i \<in> set (inode_map h)" using find_inode_Some(1)[OF T(1) refl n(1)] .
    then obtain xs where f: "file_ok h ?i xs" using T(4) by (auto simp: files_ok_def)
    have a: "alive n = LkFree" using T(3) n(2) by (auto simp: idle_def busy_on_def)
    have c: "create_inode k s ?r = Some (?i, err ALREADY_CREATED, mod_ino ?i (alive_update (\<lambda>_. LkRd 1)) ?r)"
      by (rule create_inode_old[where n = n, OF im]) (use n a in \<open>simp_all add: fv\<close>)
    have nr: "inos ?r ?i = Some n" and f': "file_ok ?r ?i xs" using n f fg by simp_all
    note O = open_rest[OF r(1) f' nr n(1)]
    let ?h = "wr (whole_bytes ?r xs n @ int_bytes (err ALREADY_CREATED)) (mod_ino ?i ?ref ?r)"
    have "process com h = Some ?h"
      by (rule open_served[OF r(1) f' nr n(1) c rx' fl com]) (simp add: err_def)
    moreover have "sane ?h" "fresh_ok ?h" using O(2,7) r(2) by (simp_all add: sane_wr fresh_wr)
    moreover have "others_kept ?i ?r ?h" using O(3) by (simp add: others_wr)
    then have "beside ?i k h ?h" "find_inode k ?h = ?i" using fg fv by (auto simp: beside_def others_kept_def)
    ultimately show ?thesis using n f True O(4,5,6) fg
      by (intro exI[of _ ?h] exI[of _ ?i] exI[of _ xs] exI[of _ n]) (simp add: opened_def files_wr wb fresh_wr takes_def)
  next
    case False
    then have d: "\<exists>n. inos h (find_inode k h) = Some n \<and> is_deleted n" if "find_inode k h \<noteq> NULL"
      using that find_inode_Some(3)[OF T(1) refl that] by (auto simp: present_def)
    obtain m where m: "cleared k ?r = Some m"
      using find_inode_Some(1)[OF T(2) refl, of k]
      by (cases "find_inode k ?r = NULL") (auto simp: cleared_def hash_delete_def)
    let ?n = "new_inode k 0 s 0" and ?i = "brk h"
    let ?g = "enter ?n m [] ?r"
    have v: "vacant ?n" "ino ?n = k" by (simp_all add: vacant_def new_inode_def)
    note E = enter_sane[OF r m v]
    have i: "?i \<noteq> NULL" using E(4) by simp
    have c: "create_inode k s ?r = Some (?i, ret_code SUCCESS, mod_ino ?i (alive_update (\<lambda>_. LkRd 1)) ?g)"
      using create_inode_fresh[OF im m, of s] av i d by (simp add: fv enter_def mod_ino_def)
    have ng: "inos ?g ?i = Some ?n" and f: "file_ok ?g ?i []" using E(3) by (simp_all add: enter_def)
    note O = open_rest[OF E(1) f ng i]
    let ?h = "wr (whole_bytes ?g [] ?n @ int_bytes (ret_code SUCCESS)) (mod_ino ?i ?ref ?g)"
    have "process com h = Some ?h"
      by (rule open_served[OF E(1) f ng i c rx' fl com]) simp
    moreover have "sane ?h" "fresh_ok ?h" using O(2,7) E(2) by (simp_all add: sane_wr fresh_wr)
    moreover have "others_kept ?i ?g ?h" using O(3) by (simp add: others_wr)
    then have "beside ?i k h ?h" "find_inode k ?h = ?i"
      using E(5-8) fg fv by (auto simp: beside_def others_kept_def enter_def)
    ultimately show ?thesis using i False O(4,5,6) E(8) fg
      by (intro exI[of _ ?h] exI[of _ ?i] exI[of _ "[]"] exI[of _ ?n]) (simp add: opened_def files_wr wb fresh_wr takes_def)
  qed
qed

end
