(* ===== verification/Backup_Correct.thy ===== *)
theory Backup_Correct
  imports New_File
begin

text \<open>
  The backup file of the inode server: what \<^verbatim>\<open>do_backup\<close> writes for every file, and that
  \<^verbatim>\<open>do_restore\<close> rebuilds the files from it, extent by extent, through \<^verbatim>\<open>pado_write\<close>.
\<close>

section \<open>The image of a file\<close>

record image =
  f_ino :: ino_t
  f_size :: sz
  f_atime :: time_t
  f_mtime :: time_t
  f_version :: sz
  f_flags :: u8
  f_segs :: "segment list"

definition image_bytes :: "image \<Rightarrow> u8 list" where
  "image_bytes m = le 8 (f_ino m) @ le 8 (f_size m) @ le 8 (f_atime m) @ le 8 (f_mtime m) @ le 8 (f_version m) @
     le 1 (f_flags m) @ le 4 (of_nat (length (f_segs m)) :: u32) @ concat (map seg_bytes (f_segs m))"

definition image_of :: "store \<Rightarrow> addr list \<Rightarrow> inode \<Rightarrow> image" where
  "image_of h xs n = \<lparr>f_ino = ino n, f_size = isize n, f_atime = tv_sec (atime n), f_mtime = tv_sec (mtime n),
     f_version = version n, f_flags = flags n, f_segs = map (ext_seg h) xs\<rparr>"

lemma image_of_same: "exts h' = exts h \<Longrightarrow> dobs h' = dobs h \<Longrightarrow> image_of h' = image_of h"
  using ext_seg_same[of h' h] by (intro ext) (simp add: image_of_def)

lemma file_image:
  assumes f: "file_ok h i xs" and n: "inos h i = Some n" and i: "i \<noteq> NULL" and ms: "\<not> with_ms h"
  shows "pado_getinode_all i (wr (le 8 (ino n)) h) = Some (ret_code SUCCESS, wr (image_bytes (image_of h xs n)) h)"
proof -
  have "file_ok (wr b h) i xs" for b using f by (simp add: files_wr)
  from getinode_all[OF this _ i] n ms ext_seg_same[of "wr (le 8 (ino n)) h" h] show ?thesis
    by (simp add: whole_bytes_def meta_bytes_def image_bytes_def image_of_def)
qed

section \<open>do_backup\<close>

text \<open>The images \<open>ms\<close> are those of the inodes \<open>as\<close> that are not deleted.\<close>

definition imaged :: "store \<Rightarrow> addr list \<Rightarrow> image list \<Rightarrow> bool" where
  "imaged h as ms \<longleftrightarrow> list_all2 (\<lambda>a m. \<exists>n xs. inos h a = Some n \<and> file_ok h a xs \<and> m = image_of h xs n)
     (filter (\<lambda>a. map_option is_deleted (inos h a) = Some False) as) ms"

lemma backup_list_correct:
  assumes "\<forall>a \<in> set as. a \<noteq> NULL \<and> (\<exists>n xs. inos h a = Some n \<and> file_ok h a xs)" "\<not> with_ms h"
  shows "\<exists>ms. imaged h as ms \<and> backup_list as (wr b h) = Some (wr (b @ concat (map image_bytes ms)) h)"
  using assms(1)
proof (induction as arbitrary: b)
  case Nil
  then show ?case by (simp add: imaged_def)
next
  case (Cons a as)
  then obtain n xs where a: "a \<noteq> NULL" "inos h a = Some n" "file_ok h a xs" by auto
  show ?case
  proof (cases "is_deleted n")
    case True
    with Cons a show ?thesis by (simp add: imaged_def)
  next
    case False
    let ?w = "wr b h" and ?m = "image_of h xs n"
    have w: "inos ?w a = Some n" "file_ok ?w a xs" "\<not> with_ms ?w" "image_of ?w xs n = ?m"
      using a assms(2) by (simp_all add: files_wr image_of_same[of ?w h])
    from Cons.IH[of "b @ image_bytes ?m"] Cons.prems obtain ms where ms: "imaged h as ms"
      "backup_list as (wr (b @ image_bytes ?m) h) = Some (wr ((b @ image_bytes ?m) @ concat (map image_bytes ms)) h)" by auto
    have "imaged h (a # as) (?m # ms)" using ms(1) False a by (auto simp: imaged_def)
    moreover have "backup_list (a # as) ?w = Some (wr (b @ concat (map image_bytes (?m # ms))) h)"
    proof -
      have "backup_list (a # as) ?w = do { h \<leftarrow> Some (wr (image_bytes ?m) ?w); backup_list as h }"
        using w(1,3) False file_image[OF w(2,1) a(1) w(3)] unfolding w(4) by (simp del: wr_fields(5))
      then show ?thesis using ms(2) by simp
    qed
    ultimately show ?thesis by blast
  qed
qed

lemma do_backup_correct:
  assumes s: "sane h" and ms: "\<not> with_ms h"
  shows "\<exists>ms. imaged h (inode_map h) ms \<and> do_backup h = Some (wr (concat (map image_bytes ms)) h)"
proof -
  have im: "imlock h = LkFree" using s by (simp add: sane_def idle_def busy_on_def)
  let ?k = "h\<lparr>imlock := LkRd 1\<rparr>"
  have F: "file_ok (h\<lparr>imlock := l\<rparr>) a xs = file_ok h a xs" for a xs l by (rule file_same) simp_all
  have G: "image_of (h\<lparr>imlock := l\<rparr>) = image_of h" for l by (rule image_of_same) simp_all
  have all: "\<forall>a \<in> set (inode_map h). a \<noteq> NULL \<and> (\<exists>n xs. inos ?k a = Some n \<and> file_ok ?k a xs)"
  proof
    fix a assume a: "a \<in> set (inode_map h)"
    with s obtain xs where "file_ok h a xs" by (auto simp: sane_def files_ok_def)
    moreover from this obtain n where "inos h a = Some n" by (auto simp: file_ok_def)
    moreover have "a \<noteq> NULL" using s a by (auto simp: sane_def table_ok_def)
    ultimately show "a \<noteq> NULL \<and> (\<exists>n xs. inos ?k a = Some n \<and> file_ok ?k a xs)" by (simp add: F) blast
  qed
  from backup_list_correct[OF all, of "[]"] ms obtain ms' where m: "imaged ?k (inode_map h) ms'"
    "backup_list (inode_map h) (wr [] ?k) = Some (wr (concat (map image_bytes ms')) ?k)" by auto
  have "imaged h (inode_map h) ms'" using m(1) by (simp add: imaged_def F G)
  moreover have "(wr b ?k)\<lparr>imlock := LkFree\<rparr> = wr b h" for b using im by (cases h) (simp add: wr_def)
  ultimately show ?thesis using m(2) im by (auto simp: do_backup_def on_imlock_def wr_def)
qed

section \<open>The extents of a file\<close>

text \<open>Segments in the order of the file that do not overlap.\<close>

fun apart :: "sz \<Rightarrow> segment list \<Rightarrow> bool" where
  "apart s [] \<longleftrightarrow> True"
| "apart s (g # gs) \<longleftrightarrow> s \<le> g_offset g \<and> g_offset g < g_offset g + g_len g \<and> apart (g_offset g + g_len g) gs"

lemma seg_at_before: "apart s gs \<Longrightarrow> p < s \<Longrightarrow> seg_at 0 gs p = None"
proof (induction gs arbitrary: s)
  case (Cons g gs)
  then have "p < g_offset g" "p < g_offset g + g_len g" by auto
  with Cons show ?case by auto
qed simp

lemma ordered_apart:
  assumes "ordered h xs" "\<forall>a \<in> set xs. \<exists>e. exts h a = Some e \<and> s \<le> off_f e"
  shows "apart s (map (ext_seg h) xs)"
  using assms
proof (induction xs arbitrary: s)
  case (Cons a xs)
  from Cons.prems obtain e where e: "exts h a = Some e" "proper e" "s \<le> off_f e" by (auto simp: ordered_Cons)
  have "\<forall>b \<in> set xs. \<exists>f. exts h b = Some f \<and> off_f e + len e \<le> off_f f"
    using Cons.prems(1) e(1) by (fastforce simp: ordered_Cons precedes_def split: option.splits)
  with Cons.IH Cons.prems(1) e show ?case by (auto simp: ordered_Cons ext_seg_def Let_def proper_def)
qed simp

lemma seg_at_where:
  "ordered h xs \<Longrightarrow> \<forall>a \<in> set xs. \<forall>e. exts h a = Some e \<longrightarrow> dobs h (dobj e) \<noteq> None \<Longrightarrow> seg_at 0 (map (ext_seg h) xs) p = where_is h xs p"
proof (induction xs)
  case (Cons a xs)
  then obtain e where e: "exts h a = Some e" by (auto simp: ordered_Cons)
  then show ?case using Cons
    by (auto simp: ordered_Cons where_is_Cons covers_def ext_seg_def place_in_def Let_def split: option.splits)
qed simp

text \<open>What \<open>k\<close> writes inside the file do to the fields of the inode.\<close>

definition restamp :: "timespec \<Rightarrow> nat \<Rightarrow> inode \<Rightarrow> inode" where
  "restamp t k n = (if k = 0 then n else (touch t n)\<lparr>version := version n + of_nat k\<rparr>)"

lemma restamp_Suc: "inode_rest n1 = inode_rest (touch t n) \<Longrightarrow>
    inode_rest (restamp t k n1) = inode_rest (restamp t (Suc k) n)"
  by (cases n; cases n1) (auto simp: restamp_def touch_def inode_rest_def)

lemma seg_rx:
  assumes "rx h = seg_bytes g @ bs"
  shows "restore_exts (Suc k) i h = do {
     (d, h) \<leftarrow> acquire_dobject (g_hid g) (g_loid g) i 1 (h\<lparr>rx := bs\<rparr>);
     (r, h) \<leftarrow> pado_write d (g_offset g) (g_off_do g) (g_len g) h;
     restore_exts k i h }"
  using rd_words(1)[of h "g_hid g"] assms by (simp add: seg_bytes_def rd_u64_eval)

lemma restore_exts_correct:
  assumes "file_ok h i xs" "inos h i = Some n" "i \<noteq> NULL" "rx h = concat (map seg_bytes gs) @ bs" "apart s gs"
    "\<forall>g \<in> set gs. g_offset g + g_len g \<le> isize n" "3 * length gs \<le> avail h"
  shows "\<exists>h' ys n'. restore_exts (length gs) i h = Some h' \<and> rx h' = bs \<and> file_ok h' i ys \<and>
    (\<forall>p. where_is h' ys p = (case seg_at 0 gs p of None \<Rightarrow> where_is h xs p | Some q \<Rightarrow> Some q)) \<and>
    inos h' i = Some n' \<and> inode_rest n' = inode_rest (restamp (clock h) (length gs) n) \<and>
    edits i h (set xs) h' (set ys) \<and> avail h \<le> avail h' + 3 * length gs"
  using assms
proof (induction gs arbitrary: h xs n s)
  case Nil
  have "h\<lparr>rx := bs\<rparr> = h" using Nil.prems(4) by (cases h) simp
  with edits_rx[OF Nil.prems(2), of "set xs" bs] have "edits i h (set xs) h (set xs)" by simp
  with Nil show ?case by (auto simp: restamp_def)
next
  case (Cons g gs)
  let ?bs = "concat (map seg_bytes gs) @ bs" and ?f = "g_offset g" and ?e = "g_offset g + g_len g"
  let ?h = "h\<lparr>rx := ?bs\<rparr>"
  have f0: "file_ok ?h i xs" using Cons.prems(1) by (simp add: file_ok_rx)
  have lt: "?f < ?e" and ap: "apart ?e gs" using Cons.prems(5) by simp_all
  have n0: "inos ?h i = Some n" "3 \<le> avail ?h" using Cons.prems(2,7) by simp_all
  from write_place[OF f0 n0(1) Cons.prems(3) lt n0(2), of "g_hid g" "g_loid g" "g_off_do g"]
  obtain d k1 k2 ys n2 where w: "acquire_dobject (g_hid g) (g_loid g) i 1 ?h = Some (d, k1)"
    "pado_write d ?f (g_off_do g) (g_len g) k1 = Some (ret_code SUCCESS, k2)" "file_ok k2 i ys"
    "\<And>p. where_is k2 ys p = (if ?f \<le> p \<and> p < ?e then Some (g_hid g, g_loid g, g_off_do g + (p - ?f)) else where_is ?h xs p)"
    "inos k2 i = Some n2" "inode_rest n2 = inode_rest (touch (clock ?h) (n\<lparr>isize := max (isize n) ?e\<rparr>))"
    "edits i ?h (set xs) k2 (set ys)" "avail ?h \<le> avail k2 + 3" "rx k2 = rx ?h"
    by (elim exE conjE) (rule that, assumption+, erule spec, assumption+)
  have rx: "rx k2 = ?bs" using w(9) by simp
  have "max (isize n) ?e = isize n" using Cons.prems(6) by (simp add: max_absorb1)
  then have r2: "inode_rest n2 = inode_rest (touch (clock h) n)" using w(6) by simp
  have e: "edits i h (set xs) k2 (set ys)" by (rule edits_trans[OF edits_rx[OF Cons.prems(2)] w(7)])
  have ck: "clock k2 = clock h" by (rule edits_fields(3)[OF e])
  have sz: "isize n2 = isize n" using inode_rest_isize[OF r2] by (simp add: touch_def)
  from Cons.IH[OF w(3,5) Cons.prems(3) rx ap] Cons.prems(6,7) w(8) sz obtain h' zs n' where
    h': "restore_exts (length gs) i k2 = Some h'" "rx h' = bs" "file_ok h' i zs"
    "\<And>p. where_is h' zs p = (case seg_at 0 gs p of None \<Rightarrow> where_is k2 ys p | Some q \<Rightarrow> Some q)"
    "inos h' i = Some n'" "inode_rest n' = inode_rest (restamp (clock h) (length gs) n2)"
    "edits i k2 (set ys) h' (set zs)" "avail k2 \<le> avail h' + 3 * length gs" unfolding ck by auto
  have "restore_exts (length (g # gs)) i h = Some h'"
    using seg_rx[of h g ?bs "length gs" i] Cons.prems(4) w(1,2) h'(1) by (simp del: restore_exts.simps)
  moreover have "where_is h' zs p = (case seg_at 0 (g # gs) p of None \<Rightarrow> where_is h xs p | Some q \<Rightarrow> Some q)" for p
    using h'(4)[of p] w(4)[of p] seg_at_before[OF ap, of p] by (auto simp: rx_view split: option.splits)
  moreover have "inode_rest n' = inode_rest (restamp (clock h) (length (g # gs)) n)"
    using h'(6) restamp_Suc[OF r2] by simp
  moreover have "edits i h (set xs) h' (set zs)" by (rule edits_trans[OF e h'(7)])
  moreover have "avail h \<le> avail h' + 3 * length (g # gs)" using w(8) h'(8) by simp
  ultimately show ?case using h'(2,3,5) by blast
qed

section \<open>One inode\<close>

definition blank :: "image \<Rightarrow> inode" where
  "blank m = (new_inode (f_ino m) 0 (f_size m) 0)\<lparr>flags := f_flags m, atime := zero_time\<lparr>tv_sec := f_atime m\<rparr>,
     mtime := zero_time\<lparr>tv_sec := f_mtime m\<rparr>, version := f_version m\<rparr>"

text \<open>The inode of an image, created without extents.\<close>

abbreviation entered :: "image \<Rightarrow> u8 list \<Rightarrow> store \<Rightarrow> store" where
  "entered m bs g \<equiv> enter (blank m) (inode_map g) bs g"

lemma blank_vacant: "vacant (blank m)" "ino (blank m) = f_ino m"
  by (simp_all add: vacant_def blank_def new_inode_def)

lemma find_cleared: "find_inode k g = NULL \<Longrightarrow> cleared k g = Some (inode_map g)"
  by (simp add: cleared_def)

lemma create_entered:
  assumes s: "sane g" and fr: "fresh_ok g" and new: "find_inode (f_ino m) g = NULL" and av: "0 < avail g"
  shows "\<exists>h. create_inode (f_ino m) (f_size m) g = Some (brk g, ret_code SUCCESS, h) \<and>
    upd_ino (brk g) (\<lambda>n. n\<lparr>flags := f_flags m, atime := (atime n)\<lparr>tv_sec := f_atime m\<rparr>,
       mtime := (mtime n)\<lparr>tv_sec := f_mtime m\<rparr>, refcount := 0, version := f_version m\<rparr>) h \<bind> on_alive lk_un (brk g) =
    Some (entered m (rx g) g)"
proof -
  have im: "imlock g = LkFree" using s by (simp add: sane_def idle_def busy_on_def)
  have c: "cleared (f_ino m) g = Some (inode_map g)" using new by (simp add: cleared_def)
  have b: "brk g \<noteq> NULL" using fr by (simp add: fresh_ok_def)
  show ?thesis
    unfolding create_inode_fresh[OF im c av b, of "f_size m", simplified new, simplified]
    by (simp add: upd_ino_def on_alive_def mod_ino_def enter_def blank_def new_inode_def zero_time_def)
qed

text \<open>The file of an image is in the store.\<close>

definition holds :: "timespec \<Rightarrow> store \<Rightarrow> image \<Rightarrow> bool" where
  "holds t h m \<longleftrightarrow> (\<exists>i n xs. find_inode (f_ino m) h = i \<and> i \<noteq> NULL \<and> inos h i = Some n \<and> file_ok h i xs \<and>
     (\<forall>p. where_is h xs p = seg_at 0 (f_segs m) p) \<and> inode_rest n = inode_rest (restamp t (length (f_segs m)) (blank m)))"

definition image_ok :: "image \<Rightarrow> bool" where
  "image_ok m \<longleftrightarrow> apart 0 (f_segs m) \<and> (\<forall>g \<in> set (f_segs m). g_offset g + g_len g \<le> f_size m) \<and> length (f_segs m) < 2 ^ 32"

lemma rd_u32_eval: "rd_u32 (h\<lparr>rx := le 4 v @ b\<rparr>) = Some (v, h\<lparr>rx := b\<rparr>)"
  by (subst rd_words(1)) simp_all

lemma restore_inode_correct:
  assumes s: "sane g" and fr: "fresh_ok g" and ms: "\<not> with_ms g" and new: "find_inode (f_ino m) g = NULL" and m: "image_ok m"
    and rx: "rx g = image_bytes m @ bs" and av: "1 + 3 * length (f_segs m) \<le> avail g"
  shows "\<exists>g'. restore_inode g = Some g' \<and> sane g' \<and> fresh_ok g' \<and> \<not> with_ms g' \<and> rx g' = bs \<and> clock g' = clock g \<and>
    avail g \<le> avail g' + (1 + 3 * length (f_segs m)) \<and> holds (clock g) g' m \<and>
    (\<forall>j. j \<noteq> f_ino m \<longrightarrow> find_inode j g' = find_inode j g) \<and> (\<forall>m'. f_ino m' \<noteq> f_ino m \<longrightarrow> holds (clock g) g m' \<longrightarrow> holds (clock g) g' m')"
proof -
  let ?gs = "f_segs m" and ?i = "brk g"
  let ?ne = "of_nat (length ?gs) :: u32"
  let ?b1 = "le 4 ?ne @ concat (map seg_bytes ?gs) @ bs"
  let ?g1 = "g\<lparr>rx := ?b1\<rparr>"
  have s1: "sane ?g1" "fresh_ok ?g1" "find_inode (f_ino m) ?g1 = NULL" "0 < avail ?g1" "brk ?g1 = ?i"
    using s fr new av by (simp_all add: sane_rx fresh_ok_def find_rx)
  from create_entered[OF s1(1-4)] obtain h0 where h0: "create_inode (f_ino m) (f_size m) ?g1 = Some (?i, ret_code SUCCESS, h0)"
    "upd_ino ?i (\<lambda>n. n\<lparr>flags := f_flags m, atime := (atime n)\<lparr>tv_sec := f_atime m\<rparr>,
       mtime := (mtime n)\<lparr>tv_sec := f_mtime m\<rparr>, refcount := 0, version := f_version m\<rparr>) h0 \<bind> on_alive lk_un ?i = Some (entered m ?b1 g)"
    by (auto simp: enter_def)
  then obtain h1 where h1: "upd_ino ?i (\<lambda>n. n\<lparr>flags := f_flags m, atime := (atime n)\<lparr>tv_sec := f_atime m\<rparr>,
       mtime := (mtime n)\<lparr>tv_sec := f_mtime m\<rparr>, refcount := 0, version := f_version m\<rparr>) h0 = Some h1"
    "on_alive lk_un ?i h1 = Some (entered m ?b1 g)" by (auto simp: bind_eq_Some_conv)
  let ?h = "entered m (concat (map seg_bytes ?gs) @ bs) g"
  note E = enter_sane[OF s fr find_cleared[OF new] blank_vacant]
  have i: "?i \<noteq> NULL" by (rule E(4))
  have n: "inos ?h ?i = Some (blank m)" "rx ?h = concat (map seg_bytes ?gs) @ bs" "clock ?h = clock g" "avail ?h = avail g - 1"
    "isize (blank m) = f_size m" by (simp_all add: enter_def blank_def new_inode_def)
  have mk: "apart 0 ?gs" "\<forall>q \<in> set ?gs. g_offset q + g_len q \<le> isize (blank m)" "length ?gs < 2 ^ 32"
    using m n(5) by (simp_all add: image_ok_def)
  have "3 * length ?gs \<le> avail ?h" using av n(4) by simp
  from restore_exts_correct[OF E(3) n(1) i n(2) mk(1,2) this] obtain g' ys n' where
    g': "restore_exts (length ?gs) ?i ?h = Some g'" "rx g' = bs" "file_ok g' ?i ys"
    "\<And>p. where_is g' ys p = (case seg_at 0 ?gs p of None \<Rightarrow> where_is ?h [] p | Some q \<Rightarrow> Some q)"
    "inos g' ?i = Some n'" "inode_rest n' = inode_rest (restamp (clock g) (length ?gs) (blank m))"
    "edits ?i ?h (set []) g' (set ys)" "avail ?h \<le> avail g' + 3 * length ?gs" unfolding n(3) by blast
  note S = edits_fields[OF g'(7)]
  have rest: "rwlock n' = rwlock (inode_rest n')" "alive n' = alive (inode_rest n')" "ino n' = ino (inode_rest n')"
    by (simp_all add: inode_rest_def)
  have lk: "rwlock n' = LkFree" "alive n' = LkFree" "ino n' = ino (blank m)"
    unfolding rest g'(6) by (simp_all add: inode_rest_def restamp_def touch_def blank_def new_inode_def)
  note K = sane_edits[OF E(1) E(3) g'(7) g'(3) n(1) g'(5) lk]
  have pr: "print_inode ?i g' = Some g'" by (rule print_inode_correct[OF g'(3) g'(5) lk(1) i])
  have fi: "find_inode t g' = find_inode t ?h" for t using K(2) by (simp add: others_kept_def)
  have "unat ?ne = length ?gs" using mk(3) by (simp add: unsigned_of_nat take_bit_nat_eq_self)
  moreover have "rd_u32 (entered m ?b1 g) = Some (?ne, ?h)"
    using rd_words(1)[of "entered m ?b1 g" ?ne "concat (map seg_bytes ?gs) @ bs"] by (simp add: enter_def)
  moreover have "rd_u64 g = Some (f_ino m, g\<lparr>rx := le 8 (f_size m) @ le 8 (f_atime m) @ le 8 (f_mtime m) @ le 8 (f_version m) @
      le 1 (f_flags m) @ ?b1\<rparr>)" by (rule rd_words) (simp add: rx image_bytes_def)
  ultimately have "restore_inode g = Some g'"
    using h0(1) h1 ms i g'(1) pr unfolding restore_inode_def by (simp del: restore_exts.simps upd_ino_Some add: rd_u64_eval rd_u8_eval[unfolded One_nat_def])
  moreover have "holds (clock g) g' m"
    unfolding holds_def fi E(5) using i g'(3-6) by (auto split: option.splits)
  moreover have "holds (clock g) g' m'" if m': "f_ino m' \<noteq> f_ino m" "holds (clock g) g m'" for m'
  proof -
    from m'(2) obtain j k xs where j: "find_inode (f_ino m') g = j" "j \<noteq> NULL" "inos g j = Some k" "file_ok g j xs"
      "\<forall>p. where_is g xs p = seg_at 0 (f_segs m') p"
      "inode_rest k = inode_rest (restamp (clock g) (length (f_segs m')) (blank m'))" by (auto simp: holds_def)
    have "j \<noteq> ?i" using find_inode_Some(1)[OF _ j(1,2)] s by (auto simp: sane_def table_ok_def)
    with K(2) E(7)[OF this j(4)] j(3,5) have "file_ok g' j xs" "\<forall>p. where_is g' xs p = seg_at 0 (f_segs m') p" "inos g' j = Some k"
      by (auto simp: others_kept_def E(8)) (simp add: enter_def)
    then show ?thesis using j(1,2,6) fi E(6)[OF m'(1)] by (auto simp: holds_def)
  qed
  moreover have "fresh_ok g'" using g'(3) by (simp add: file_ok_def stage_def)
  ultimately show ?thesis using K(1) g'(2,8) fi E(6) n(3,4) S(2,3) ms av by (auto simp: enter_def)
qed

section \<open>do_restore\<close>

definition memory_of :: "image list \<Rightarrow> nat" where
  "memory_of ms = (\<Sum>m \<leftarrow> ms. 1 + 3 * length (f_segs m))"

lemma length_seg_bytes: "length (seg_bytes q) = 36"
  by (simp add: seg_bytes_def)

lemma length_image: "length (image_bytes m) = 45 + 36 * length (f_segs m)"
proof -
  have "length (concat (map seg_bytes qs)) = 36 * length qs" for qs by (induction qs) (simp_all add: length_seg_bytes)
  then show ?thesis by (simp add: image_bytes_def)
qed

lemma memory_bytes: "memory_of ms \<le> length (concat (map image_bytes ms))"
  by (induction ms) (simp_all add: memory_of_def length_image)

lemma do_restore_correct:
  assumes "sane g" "fresh_ok g" "\<not> with_ms g" "rx g = concat (map image_bytes ms)"
    "\<forall>m \<in> set ms. image_ok m \<and> find_inode (f_ino m) g = NULL" "distinct (map f_ino ms)" "memory_of ms \<le> avail g"
  shows "\<exists>g'. do_restore g = Some g' \<and> sane g' \<and> clock g' = clock g \<and> (\<forall>m \<in> set ms. holds (clock g) g' m) \<and>
    (\<forall>m. f_ino m \<notin> f_ino ` set ms \<longrightarrow> holds (clock g) g m \<longrightarrow> holds (clock g) g' m) \<and>
    (\<forall>k. k \<notin> f_ino ` set ms \<longrightarrow> find_inode k g' = find_inode k g)"
  using assms
proof (induction ms arbitrary: g)
  case Nil
  then show ?case by (simp add: do_restore.simps)
next
  case (Cons m ms)
  let ?bs = "concat (map image_bytes ms)"
  have m: "find_inode (f_ino m) g = NULL" "image_ok m" "rx g = image_bytes m @ ?bs" "1 + 3 * length (f_segs m) \<le> avail g"
    using Cons.prems(4,5,7) by (simp_all add: memory_of_def)
  from restore_inode_correct[OF Cons.prems(1-3) m] obtain g1 where
    g1: "restore_inode g = Some g1" "sane g1" "fresh_ok g1" "\<not> with_ms g1" "rx g1 = ?bs" "clock g1 = clock g"
      "avail g \<le> avail g1 + (1 + 3 * length (f_segs m))" "holds (clock g) g1 m"
      "\<And>j. j \<noteq> f_ino m \<Longrightarrow> find_inode j g1 = find_inode j g"
      "\<And>m'. f_ino m' \<noteq> f_ino m \<Longrightarrow> holds (clock g) g m' \<Longrightarrow> holds (clock g) g1 m'" by blast
  have new: "\<forall>m \<in> set ms. image_ok m \<and> find_inode (f_ino m) g1 = NULL"
    using Cons.prems(5,6) g1(9) by (auto simp: image_iff)
  have "memory_of ms \<le> avail g1" using Cons.prems(7) g1(7) by (simp add: memory_of_def)
  from Cons.IH[OF g1(2-5) new _ this] Cons.prems(6) obtain g' where g': "do_restore g1 = Some g'" "sane g'" "clock g' = clock g"
    "\<forall>m \<in> set ms. holds (clock g) g' m" "\<And>m. f_ino m \<notin> f_ino ` set ms \<Longrightarrow> holds (clock g) g1 m \<Longrightarrow> holds (clock g) g' m"
    "\<And>k. k \<notin> f_ino ` set ms \<Longrightarrow> find_inode k g' = find_inode k g1" unfolding g1(6) by auto
  note g' = g'(1,2,4-6) and ck = g'(3)
  have "image_bytes m \<noteq> []" using length_image[of m] by auto
  then have "do_restore g = Some g'" using m(3) g1(1) g'(1) by (subst do_restore.simps) simp
  moreover have "holds (clock g) g' m" using g'(4)[OF _ g1(8)] Cons.prems(6) by simp
  moreover have "holds (clock g) g' m'" if "f_ino m' \<notin> f_ino ` set (m # ms)" "holds (clock g) g m'" for m'
    using that by (intro g'(4) g1(10)) auto
  moreover have "find_inode k g' = find_inode k g" if "k \<notin> f_ino ` set (m # ms)" for k
    using g'(5)[of k] g1(9)[of k] that by auto
  ultimately show ?case using g'(2,3) ck by (intro exI[of _ g']) simp
qed

section \<open>Backup and restore\<close>

text \<open>
  The file with the number \<open>k\<close> has the same map, size and flags in both stores; every extent has counted its
  version up, and the time of a file that has extents is the time of the restoration.
\<close>

definition restored :: "store \<Rightarrow> store \<Rightarrow> ino_t \<Rightarrow> bool" where
  "restored h g k \<longleftrightarrow> (\<exists>n xs n' ys. inos h (find_inode k h) = Some n \<and> file_ok h (find_inode k h) xs \<and>
     find_inode k g \<noteq> NULL \<and> inos g (find_inode k g) = Some n' \<and> file_ok g (find_inode k g) ys \<and>
     (\<forall>p. where_is g ys p = where_is h xs p) \<and> isize n' = isize n \<and> flags n' = flags n \<and> refcount n' = 0 \<and>
     version n' = version n + of_nat (length xs) \<and>
     tv_sec (mtime n') = (if xs = [] then tv_sec (mtime n) else tv_sec (clock g)))"

lemma file_segs:
  assumes f: "file_ok h i xs"
  shows "seg_at 0 (map (ext_seg h) xs) p = where_is h xs p"
proof -
  have o: "ordered h xs" using f by (simp add: file_ok_def)
  from file_laid_out[OF f] obtain t where "laid_out h i t" "inorder t = xs" by blast
  then have "\<forall>a \<in> set xs. \<forall>e. exts h a = Some e \<longrightarrow> dobs h (dobj e) \<noteq> None" by (auto simp: laid_out_def)
  with seg_at_where[OF o] show ?thesis by simp
qed

lemma image_of_ok:
  assumes f: "file_ok h i xs" and n: "inos h i = Some n" and l: "length xs < 2 ^ 32"
  shows "image_ok (image_of h xs n)" "seg_at 0 (f_segs (image_of h xs n)) p = where_is h xs p"
proof -
  have o: "ordered h xs" using f by (simp add: file_ok_def)
  have a0: "\<forall>a \<in> set xs. \<exists>e. exts h a = Some e \<and> 0 \<le> off_f e" using ordered_ext[OF o] by fastforce
  have "g_offset (ext_seg h a) + g_len (ext_seg h a) \<le> isize n" if a: "a \<in> set xs" for a
  proof -
    obtain e where "exts h a = Some e" using ordered_ext[OF o a] by blast
    with file_ok_bound[OF f n a] show ?thesis by (simp add: ends_by_def ext_seg_def Let_def)
  qed
  with ordered_apart[OF o a0] l show "image_ok (image_of h xs n)" by (simp add: image_ok_def image_of_def)
  show "seg_at 0 (f_segs (image_of h xs n)) p = where_is h xs p" using file_segs[OF f] by (simp add: image_of_def)
qed

lemma list_all2_member:
  "list_all2 P xs ys \<Longrightarrow> x \<in> set xs \<Longrightarrow> \<exists>y \<in> set ys. P x y" "list_all2 P xs ys \<Longrightarrow> y \<in> set ys \<Longrightarrow> \<exists>x \<in> set xs. P x y"
  by (induction rule: list_all2_induct) auto

lemma imaged_distinct:
  assumes s: "sane h" and m: "imaged h (inode_map h) ms"
  shows "distinct (map f_ino ms)"
    "\<And>m. m \<in> set ms \<Longrightarrow> \<exists>i n xs. find_inode (f_ino m) h = i \<and> i \<noteq> NULL \<and> inos h i = Some n \<and> \<not> is_deleted n \<and> file_ok h i xs \<and> m = image_of h xs n"
    "\<And>k. present k h \<Longrightarrow> k \<in> f_ino ` set ms"
proof -
  from s have T: "table_ok h" by (simp add: sane_def)
  let ?P = "\<lambda>a. map_option is_deleted (inos h a) = Some False"
  let ?Q = "\<lambda>a m. \<exists>n xs. inos h a = Some n \<and> file_ok h a xs \<and> m = image_of h xs n"
  have l: "list_all2 ?Q (filter ?P (inode_map h)) ms" using m by (simp add: imaged_def)
  then have "map f_ino ms = map (\<lambda>a. the (ino_key h a)) (filter ?P (inode_map h))"
    by (induction rule: list_all2_induct) (auto simp: image_of_def ino_key_def)
  moreover have "inj_on (\<lambda>a. the (ino_key h a)) (set (inode_map h))"
  proof (rule inj_onI)
    fix a b assume ab: "a \<in> set (inode_map h)" "b \<in> set (inode_map h)" "the (ino_key h a) = the (ino_key h b)"
    with T obtain m n where "inos h a = Some m" "inos h b = Some n" unfolding table_ok_def by blast
    with ab(3) have "ino_key h a = ino_key h b" by (simp add: ino_key_def)
    with T ab(1,2) show "a = b" by (simp add: table_ok_def keys_unique_def)
  qed
  moreover have "distinct (inode_map h)" using T by (simp add: table_ok_def keys_unique_def)
  ultimately show "distinct (map f_ino ms)" by (simp add: distinct_map inj_on_def)
  show "\<exists>i n xs. find_inode (f_ino m) h = i \<and> i \<noteq> NULL \<and> inos h i = Some n \<and> \<not> is_deleted n \<and> file_ok h i xs \<and> m = image_of h xs n"
    if mm: "m \<in> set ms" for m
  proof -
    from list_all2_member(2)[OF l mm] obtain a where a: "a \<in> set (filter ?P (inode_map h))" "?Q a m" by blast
    then obtain n xs where n: "inos h a = Some n" "file_ok h a xs" "m = image_of h xs n" by blast
    have "find_inode (f_ino m) h = a" using a(1) n by (intro find_inode_eq[OF T]) (auto simp: ino_key_def image_of_def)
    moreover have "a \<noteq> NULL" using T a(1) by (auto simp: table_ok_def)
    ultimately show ?thesis using a(1) n by auto
  qed
  show "k \<in> f_ino ` set ms" if pk: "present k h" for k
  proof -
    from pk obtain n where n: "find_inode k h \<noteq> NULL" "inos h (find_inode k h) = Some n" "\<not> is_deleted n" by (auto simp: present_def)
    from find_inode_Some[OF T refl n(1)] n(2) have k: "find_inode k h \<in> set (inode_map h)" "ino n = k" by auto
    with n have "find_inode k h \<in> set (filter ?P (inode_map h))" by simp
    from list_all2_member(1)[OF l this] obtain m where "m \<in> set ms" "?Q (find_inode k h) m" by blast
    moreover from this(2) n(2) k(2) have "f_ino m = k" by (auto simp: image_of_def)
    ultimately show ?thesis by blast
  qed
qed

lemma backup_then_restore:
  assumes h: "sane h" "\<not> with_ms h" and l: "\<forall>i \<in> set (inode_map h). \<forall>xs. file_ok h i xs \<longrightarrow> length xs < 2 ^ 32"
    and g: "sane g" "fresh_ok g" "\<not> with_ms g" "inode_map g = []"
  shows "\<exists>bs. do_backup h = Some (wr bs h) \<and> (length bs \<le> avail g \<longrightarrow> (\<exists>g'. do_restore (g\<lparr>rx := bs\<rparr>) = Some g' \<and> sane g' \<and>
    (\<forall>k. if present k h then restored h g' k else find_inode k g' = NULL)))"
proof -
  from do_backup_correct[OF h] obtain ms where ms: "imaged h (inode_map h) ms" "do_backup h = Some (wr (concat (map image_bytes ms)) h)"
    by blast
  note I = imaged_distinct[OF h(1) ms(1)]
  let ?bs = "concat (map image_bytes ms)"
  let ?g = "g\<lparr>rx := ?bs\<rparr>"
  have "\<exists>g'. do_restore ?g = Some g' \<and> sane g' \<and> (\<forall>k. if present k h then restored h g' k else find_inode k g' = NULL)"
    if av: "length ?bs \<le> avail g"
  proof -
    have none: "find_inode k ?g = NULL" for k using g(4) by (simp add: find_inode_def hash_find_def)
    have ok: "image_ok m" if "m \<in> set ms" for m
    proof -
      from I(2)[OF that] obtain i n xs where "find_inode (f_ino m) h = i" "i \<noteq> NULL" "inos h i = Some n" "file_ok h i xs"
        "m = image_of h xs n" by blast
      with l find_inode_Some(1) h(1) image_of_ok(1) show ?thesis unfolding sane_def by metis
    qed
    have "sane ?g" "fresh_ok ?g" "\<not> with_ms ?g" using g by (simp_all add: sane_rx fresh_ok_def)
    from do_restore_correct[OF this _ _ I(1)] ok none av memory_bytes[of ms] obtain g' where
      g': "do_restore ?g = Some g'" "sane g'" "clock g' = clock g" "\<forall>m \<in> set ms. holds (clock g) g' m"
      "\<forall>k. k \<notin> f_ino ` set ms \<longrightarrow> find_inode k g' = NULL" by force
    have "restored h g' k" if pk: "present k h" for k
    proof -
      from I(3)[OF pk] obtain m where m: "m \<in> set ms" "f_ino m = k" by blast
      from I(2)[OF m(1)] m(2) obtain n xs where n: "find_inode k h \<noteq> NULL" "inos h (find_inode k h) = Some n"
        "file_ok h (find_inode k h) xs" "m = image_of h xs n" by blast
      have len: "length xs < 2 ^ 32" using l find_inode_Some(1)[OF _ refl n(1)] h(1) n(3) by (simp add: sane_def)
      from g'(4) m obtain n' ys where n': "find_inode k g' \<noteq> NULL" "inos g' (find_inode k g') = Some n'"
        "file_ok g' (find_inode k g') ys" "\<And>p. where_is g' ys p = seg_at 0 (f_segs m) p"
        "inode_rest n' = inode_rest (restamp (clock g) (length (f_segs m)) (blank m))" by (auto simp: holds_def)
      have "isize n' = isize (inode_rest n')" "flags n' = flags (inode_rest n')" "refcount n' = refcount (inode_rest n')"
        "version n' = version (inode_rest n')" "mtime n' = mtime (inode_rest n')" by (simp_all add: inode_rest_def)
      then have "isize n' = isize n" "flags n' = flags n" "refcount n' = 0" "version n' = version n + of_nat (length xs)"
        "tv_sec (mtime n') = (if xs = [] then tv_sec (mtime n) else tv_sec (clock g))"
        unfolding n'(5) by (auto simp: inode_rest_def restamp_def touch_def blank_def new_inode_def n(4) image_of_def)
      moreover have "where_is g' ys p = where_is h xs p" for p using n'(4)[of p] image_of_ok(2)[OF n(3,2) len, of p] n(4) by simp
      ultimately show ?thesis unfolding restored_def using n(2,3) n'(1-3) g'(3)
        by (intro exI[of _ n] exI[of _ xs] exI[of _ n'] exI[of _ ys]) simp
    qed
    moreover have "find_inode k g' = NULL" if "\<not> present k h" for k
    proof -
      have "k \<notin> f_ino ` set ms" using I(2) that by (force simp: present_def)
      with g'(5) show ?thesis by blast
    qed
    ultimately show ?thesis using g'(1,2) by auto
  qed
  with ms(2) show ?thesis by blast
qed

text \<open>A file has fewer extents than the store has addresses.\<close>

lemma file_length: "file_ok h i xs \<Longrightarrow> length xs \<le> brk h"
proof -
  assume f: "file_ok h i xs"
  then have d: "distinct xs" and fr: "fresh_ok h" by (auto simp: file_ok_def stage_def)
  have "set xs \<subseteq> {..< brk h}"
  proof
    fix a assume "a \<in> set xs"
    with f obtain e where "exts h a = Some e" using ordered_ext[of h xs a] by (auto simp: file_ok_def)
    moreover have "exts h a = None" if "brk h \<le> a" using fr that unfolding fresh_ok_def by blast
    ultimately show "a \<in> {..< brk h}" by (cases "brk h \<le> a") auto
  qed
  then have "card (set xs) \<le> card {..< brk h}" by (intro card_mono) auto
  then show ?thesis using d by (simp add: distinct_card)
qed

end
