(* ===== verification/Client.thy ===== *)
theory Client
  imports File_Ops
begin

text \<open>
  The client of \<^verbatim>\<open>testremote.c\<close> (built without a mapping server): the messages that it writes after the
  command byte, and how it reads the replies. A \<^verbatim>\<open>read\<close> that finds too few bytes leaves its variable as it
  was; here it is \<open>None\<close>.
\<close>

section \<open>Messages\<close>

text \<open>The driver writes \<^verbatim>\<open>start\<close> for both offsets of a \<^verbatim>\<open>WRITE\<close>.\<close>

definition open_msg :: "ino_t \<Rightarrow> sz \<Rightarrow> u8 list" where
  "open_msg bino s = le 8 bino @ le 8 s @ le 1 (2 :: u8)"

definition write_msg :: "ino_t \<Rightarrow> u32 \<Rightarrow> loid_t \<Rightarrow> sz \<Rightarrow> sz \<Rightarrow> sz \<Rightarrow> u8 list" where
  "write_msg tino hid l f od ln = le 8 tino @ le 4 hid @ le 8 l @ le 8 f @ le 8 od @ le 8 ln"

definition read_msg :: "ino_t \<Rightarrow> sz \<Rightarrow> sz \<Rightarrow> u8 list" where
  "read_msg tino f ln = le 8 tino @ le 8 f @ le 8 ln @ le 1 (1 :: u8)"

definition clone_msg :: "ino_t \<Rightarrow> sz \<Rightarrow> sz \<Rightarrow> u8 list" where
  "clone_msg tino od ln = le 8 tino @ le 8 od @ le 8 ln"

section \<open>Replies\<close>

definition get_word :: "nat \<Rightarrow> u8 list \<Rightarrow> ('a::len word \<times> u8 list) option" where
  "get_word n b = do { (x, b) \<leftarrow> take_bytes n b; Some (unle x, b) }"

lemma get_word_le [simp]: "LENGTH('a) \<le> 8 * n \<Longrightarrow> get_word n (le n (w :: 'a::len word) @ b) = Some (w, b)"
  by (simp add: get_word_def unle_le)

text \<open>The extents in the reply to an open.\<close>

fun get_exts :: "nat \<Rightarrow> u8 list \<Rightarrow> (segment list \<times> u8 list) option" where
  "get_exts 0 b = Some ([], b)"
| "get_exts (Suc j) b = do {
     (hid, b) \<leftarrow> get_word 4 b; (l, b) \<leftarrow> get_word 8 b;
     (f, b) \<leftarrow> get_word 8 b; (od, b) \<leftarrow> get_word 8 b; (ln, b) \<leftarrow> get_word 8 b;
     (gs, b) \<leftarrow> get_exts j b;
     Some (\<lparr>g_hid = hid, g_loid = l, g_offset = f, g_off_do = od, g_len = ln\<rparr> # gs, b) }"

record opened_file =
  o_size :: sz
  o_atime :: "64 word"
  o_mtime :: "64 word"
  o_ver :: sz
  o_flags :: u8
  o_exts :: "segment list"
  o_ret :: u32

definition get_opened :: "u8 list \<Rightarrow> opened_file option" where
  "get_opened b = do {
     (s, b) \<leftarrow> get_word 8 b; (at, b) \<leftarrow> get_word 8 b; (mt, b) \<leftarrow> get_word 8 b; (ver, b) \<leftarrow> get_word 8 b;
     (fl, b) \<leftarrow> get_word 1 b; (ne, b) \<leftarrow> get_word 4 b;
     (gs, b) \<leftarrow> get_exts (unat (ne :: u32)) b;
     (ret, b) \<leftarrow> get_word 4 b;
     Some \<lparr>o_size = s, o_atime = at, o_mtime = mt, o_ver = ver, o_flags = fl, o_exts = gs, o_ret = ret\<rparr> }"

text \<open>The loop that hands the segments of one connection to the other: what it writes, and what is left to read.\<close>

partial_function (option) copy_loop :: "u8 list \<Rightarrow> (u8 list \<times> u8 list) option" where
  "copy_loop b = do {
     (hid, b) \<leftarrow> get_word 4 b; (l, b) \<leftarrow> get_word 8 b;
     let out = le 4 (hid :: u32) @ le 8 (l :: loid_t);
     (if hid = 0 \<and> l = 0 then Some (out, b)
      else do {
        (f, b) \<leftarrow> get_word 8 b; (od, b) \<leftarrow> get_word 8 b; (ln, b) \<leftarrow> get_word 8 b;
        (rest, b) \<leftarrow> copy_loop b;
        Some (out @ le 8 (f :: sz) @ le 8 (od :: sz) @ le 8 (ln :: sz) @ rest, b) }) }"

declare copy_loop.simps [code]

lemma le_one: "le (Suc 0) (w :: u8) = [w]"
  by (simp add: le_def)

lemmas msgs = open_msg_def write_msg_def read_msg_def clone_msg_def

section \<open>The replies of the server are read as they were written\<close>

lemma get_exts_bytes: "get_exts (length gs) (concat (map seg_bytes gs) @ b) = Some (gs, b)"
  by (induction gs) (simp_all add: seg_bytes_def)

lemma get_opened_bytes:
  assumes "length gs < 2 ^ 32"
  shows "get_opened (le 8 s @ le 8 at @ le 8 mt @ le 8 ver @ le 1 fl @ le 4 (of_nat (length gs) :: u32) @
      concat (map seg_bytes gs) @ le 4 ret) =
    Some \<lparr>o_size = s, o_atime = at, o_mtime = mt, o_ver = ver, o_flags = fl, o_exts = gs, o_ret = ret\<rparr>"
proof -
  have "unat (of_nat (length gs) :: u32) = length gs" using assms by (simp add: unat_of_nat take_bit_nat_eq_self)
  then show ?thesis using get_word_le[of 4 ret "[]"] get_word_le[of 1 fl] by (simp add: get_opened_def get_exts_bytes)
qed

lemma copy_loop_bytes:
  assumes "\<forall>g \<in> set gs. \<not> (g_hid g = 0 \<and> g_loid g = 0)"
  shows "copy_loop (concat (map seg_bytes gs) @ end_mark @ b) = Some (concat (map seg_bytes gs) @ end_mark, b)"
  using assms
proof (induction gs)
  case Nil
  then show ?case by (subst copy_loop.simps) (simp add: end_mark_def)
next
  case (Cons g gs)
  then show ?case by (subst copy_loop.simps) (auto simp: seg_bytes_def[of g])
qed

end
