(* ===== verification/Service.thy ===== *)
theory Service
  imports Backup_Correct Client
begin

text \<open>
  The service of the inode server as a client sees it: the requests of the client programs
  (\<^verbatim>\<open>testremote.c\<close>) with the bytes that they send, a file system that is a map from numbers to
  files, each a size, a map from offsets to places, a count of references and a mark, and a step on it for every
  request. The server, request by request, simulates these steps.
\<close>

section \<open>Requests\<close>

datatype client_req =
    Open ino_t sz
  | Write ino_t u32 loid_t sz sz sz
  | Truncate ino_t sz
  | Clone ino_t sz sz "segment list"
  | Read ino_t sz sz
  | Remove ino_t u32 loid_t
  | Unref ino_t

text \<open>The command byte and what a client writes after it.\<close>

fun req_com :: "client_req \<Rightarrow> u8" where
  "req_com (Open k s) = 7"
| "req_com (Write k hid l fo od ln) = 0"
| "req_com (Truncate k s) = 1"
| "req_com (Clone k st ln gs) = 3"
| "req_com (Read k fo ln) = 2"
| "req_com (Remove k hid l) = 9"
| "req_com (Unref k) = 15"

fun req_bytes :: "client_req \<Rightarrow> u8 list" where
  "req_bytes (Open k s) = open_msg k s"
| "req_bytes (Write k hid l fo od ln) = write_msg k hid l fo od ln"
| "req_bytes (Truncate k s) = le 8 k @ le 8 s"
| "req_bytes (Clone k st ln gs) = clone_msg k st ln @ concat (map seg_bytes gs) @ end_mark"
| "req_bytes (Read k fo ln) = read_msg k fo ln"
| "req_bytes (Remove k hid l) = le 8 k @ le 4 hid @ le 8 l @ [0]"
| "req_bytes (Unref k) = le 8 k"

lemma req_coms: "com_of 7 = Some CREATE_OPEN_INODE" "com_of 0 = Some WRITE" "com_of 1 = Some TRUNCATE"
  "com_of 3 = Some CLONE_TO" "com_of 2 = Some READ_LAYOUT" "com_of 9 = Some REMOVE_DOBJ" "com_of 15 = Some UNREF"
  by (simp_all add: com_of_def ins_coms_def)

text \<open>A connection: the request is read from it, the reply is written to it.\<close>

definition serve :: "client_req \<Rightarrow> store \<Rightarrow> (u8 list \<times> store) option" where
  "serve r h = do { h \<leftarrow> process (req_com r) (h\<lparr>rx := req_bytes r, tx := []\<rparr>); Some (tx h, h) }"

fun serve_all :: "client_req list \<Rightarrow> store \<Rightarrow> (u8 list list \<times> store) option" where
  "serve_all [] h = Some ([], h)"
| "serve_all (r # rs) h = do {
     (b, h) \<leftarrow> serve r h;
     (bs, h) \<leftarrow> serve_all rs h;
     Some (b # bs, h) }"

section \<open>The abstract file system\<close>

record afile =
  a_size :: sz
  a_map :: "sz \<Rightarrow> place option"
  a_refs :: u32
  a_shared :: bool

type_synonym afs = "ino_t \<rightharpoonup> afile"

definition new_file :: "sz \<Rightarrow> afile" where
  "new_file s = \<lparr>a_size = s, a_map = Map.empty, a_refs = 0, a_shared = False\<rparr>"

definition put_range :: "sz \<Rightarrow> sz \<Rightarrow> (sz \<Rightarrow> place option) \<Rightarrow> afile \<Rightarrow> afile" where
  "put_range fo ln w a = a\<lparr>a_size := max (a_size a) (fo + ln),
     a_map := (\<lambda>p. if fo \<le> p \<and> p < fo + ln then w p else a_map a p)\<rparr>"

definition has_hole :: "sz \<Rightarrow> sz \<Rightarrow> afile \<Rightarrow> bool" where
  "has_hole f e a \<longleftrightarrow> (\<exists>p \<in> set (upto_w f e). a_map a p = None)"

definition unref_to :: "u32 \<Rightarrow> u32" where
  "unref_to c = (if c - 1 <s 0 then 0 else c - 1)"

text \<open>What a request does to the file that it names; \<open>None\<close> when the file goes away.\<close>

fun on_file :: "client_req \<Rightarrow> afile \<Rightarrow> afile option" where
  "on_file (Open k s) a = Some (a\<lparr>a_refs := a_refs a + 1\<rparr>)"
| "on_file (Write k hid l fo od ln) a = Some (put_range fo ln (\<lambda>p. Some (hid, l, od + (p - fo))) a)"
| "on_file (Truncate k s) a = Some (a\<lparr>a_size := s, a_map := (\<lambda>p. if p < s then a_map a p else None)\<rparr>)"
| "on_file (Clone k st ln gs) a = Some (put_range st ln (seg_at st gs) a)"
| "on_file (Read k fo ln) a =
     Some (a\<lparr>a_shared := a_shared a \<or> has_hole fo (min (fo + ln) (a_size a)) a\<rparr>)"
| "on_file (Remove k hid l) a = Some (a\<lparr>a_map := (\<lambda>p. case a_map a p of None \<Rightarrow> None
     | Some (hid', l', q) \<Rightarrow> if hid' = hid \<and> l' = l then None else Some (hid', l', q))\<rparr>)"
| "on_file (Unref k) a =
     (if unref_to (a_refs a) = 0 \<and> a_map a = Map.empty \<and> \<not> a_shared a then None
      else Some (a\<lparr>a_refs := unref_to (a_refs a)\<rparr>))"

fun req_ino :: "client_req \<Rightarrow> ino_t" where
  "req_ino (Open k s) = k" | "req_ino (Write k hid l fo od ln) = k" | "req_ino (Truncate k s) = k"
| "req_ino (Clone k st ln gs) = k" | "req_ino (Read k fo ln) = k" | "req_ino (Remove k hid l) = k"
| "req_ino (Unref k) = k"

fun creates :: "client_req \<Rightarrow> afile option" where
  "creates (Open k s) = Some (new_file s)"
| "creates r = None"

text \<open>One step: the file that is there, or the one that the request creates, changes; a request for a number
  that has no file does nothing.\<close>

definition fs_step :: "client_req \<Rightarrow> afs \<Rightarrow> afs" where
  "fs_step r F = (case (case F (req_ino r) of None \<Rightarrow> creates r | Some a \<Rightarrow> Some a) of
     None \<Rightarrow> F
   | Some a \<Rightarrow> F(req_ino r := on_file r a))"

text \<open>The requests a client may send in a state: ranges are not empty and do not wrap around; segments are
  ordered; a data object that is removed is one of the file's, which is open.\<close>

fun suits :: "client_req \<Rightarrow> afile \<Rightarrow> bool" where
  "suits (Write k hid l fo od ln) a \<longleftrightarrow> fo < fo + ln"
| "suits (Clone k st ln gs) a \<longleftrightarrow> st < st + ln \<and> segs_ok st (st + ln) st gs"
| "suits (Read k fo ln) a \<longleftrightarrow> fo < min (fo + ln) (a_size a)"
| "suits (Remove k hid l) a \<longleftrightarrow> 0 <s a_refs a \<and> \<not> (hid = 0 \<and> l = 0) \<and> (\<exists>p q. a_map a p = Some (hid, l, q))"
| "suits (Open k s) a \<longleftrightarrow> True"
| "suits (Truncate k s) a \<longleftrightarrow> True"
| "suits (Unref k) a \<longleftrightarrow> True"

definition allowed :: "client_req \<Rightarrow> afs \<Rightarrow> bool" where
  "allowed r F \<longleftrightarrow> (\<forall>a. F (req_ino r) = Some a \<longrightarrow> suits r a)"

fun all_allowed :: "client_req list \<Rightarrow> afs \<Rightarrow> bool" where
  "all_allowed [] F \<longleftrightarrow> True"
| "all_allowed (r # rs) F \<longleftrightarrow> allowed r F \<and> all_allowed rs (fs_step r F)"

text \<open>The memory that a request needs at most.\<close>

fun mem_need :: "client_req \<Rightarrow> nat" where
  "mem_need (Open k s) = 1"
| "mem_need (Write k hid l fo od ln) = 3"
| "mem_need (Truncate k s) = 1"
| "mem_need (Clone k st ln gs) = 2 * length gs + 1"
| "mem_need (Read k fo ln) = 0"
| "mem_need (Remove k hid l) = 0"
| "mem_need (Unref k) = 0"

text \<open>The reply.\<close>

definition based :: "afile \<Rightarrow> ino_t \<Rightarrow> sz \<Rightarrow> place" where
  "based a k p = (case a_map a p of Some q \<Rightarrow> q | None \<Rightarrow> (0, k, p))"

fun reply_ok :: "client_req \<Rightarrow> afile option \<Rightarrow> u8 list \<Rightarrow> bool" where
  "reply_ok (Open k s) f b \<longleftrightarrow> (let a = (case f of None \<Rightarrow> new_file s | Some a \<Rightarrow> a) in
     \<exists>times fl gs. length times = 24 \<and> b = le 8 (a_size a) @ times @ le 1 fl @ le 4 (of_nat (length gs) :: u32) @
       concat (map seg_bytes gs) @ int_bytes (if f = None then ret_code SUCCESS else err ALREADY_CREATED) \<and>
       (\<forall>p. seg_at 0 gs p = a_map a p) \<and> (fl AND SHARED \<noteq> (0 :: u8) \<longleftrightarrow> a_shared a))"
| "reply_ok (Read k fo ln) None b \<longleftrightarrow> b = end_mark @ int_bytes (err INVALID_INO)"
| "reply_ok (Read k fo ln) (Some a) b \<longleftrightarrow> (\<exists>gs. b = concat (map seg_bytes gs) @ end_mark @ int_bytes (ret_code SUCCESS) \<and>
     expand gs = map (based a k) (upto_w fo (min (fo + ln) (a_size a))) \<and> contiguous 0 gs)"
| "reply_ok (Unref k) (Some a) b \<longleftrightarrow>
     b = int_bytes (if a_refs a - 1 <s 0 then err INVALID_UNREF else ret_code SUCCESS)"
| "reply_ok r None b \<longleftrightarrow> b = int_bytes (err INVALID_INO)"
| "reply_ok r (Some a) b \<longleftrightarrow> b = int_bytes (ret_code SUCCESS)"

section \<open>The simulation relation\<close>

definition shows_file :: "store \<Rightarrow> addr \<Rightarrow> afile \<Rightarrow> bool" where
  "shows_file h i a \<longleftrightarrow> (\<exists>n xs. inos h i = Some n \<and> \<not> is_deleted n \<and> file_ok h i xs \<and> isize n = a_size a \<and>
     refcount n = a_refs a \<and> is_shared n = a_shared a \<and> (\<forall>p. where_is h xs p = a_map a p))"

definition shows_fs :: "store \<Rightarrow> afs \<Rightarrow> bool" where
  "shows_fs h F \<longleftrightarrow> sane h \<and> fresh_ok h \<and> \<not> with_ms h \<and> dos_up h \<and>
     (\<forall>k. case F k of None \<Rightarrow> find_inode k h = NULL
        | Some a \<Rightarrow> find_inode k h \<noteq> NULL \<and> shows_file h (find_inode k h) a)"

lemma shows_fileE:
  assumes "shows_fs h F" "F k = Some a"
  obtains i n xs where "find_inode k h = i" "i \<noteq> NULL" "inos h i = Some n" "\<not> is_deleted n" "file_ok h i xs" "isize n = a_size a"
    "refcount n = a_refs a" "is_shared n = a_shared a" "\<forall>p. where_is h xs p = a_map a p"
proof -
  from assms have "find_inode k h \<noteq> NULL \<and> shows_file h (find_inode k h) a" by (auto simp: shows_fs_def dest!: spec[of _ k])
  then show ?thesis using that unfolding shows_file_def by blast
qed

lemma shows_none: "shows_fs h F \<Longrightarrow> F k = None \<Longrightarrow> find_inode k h = NULL"
  by (auto simp: shows_fs_def dest!: spec[of _ k])

lemma shows_start: "shows_fs h F \<Longrightarrow> shows_fs (h\<lparr>rx := b, tx := c\<rparr>) F"
proof -
  have v: "find_inode k (h\<lparr>rx := b, tx := c\<rparr>) = find_inode k h" for k
    by (simp add: find_inode_def ino_key_def[abs_def])
  have f: "file_ok (h\<lparr>rx := b, tx := c\<rparr>) i xs = file_ok h i xs" "where_is (h\<lparr>rx := b, tx := c\<rparr>) xs p = where_is h xs p" for i xs p
    by (rule file_same; simp)+
  have t: "table_ok (h\<lparr>rx := b, tx := c\<rparr>) = table_ok h" "idle (h\<lparr>rx := b, tx := c\<rparr>) = idle h"
    by (simp_all add: table_ok_def idle_def busy_on_def ino_key_def[abs_def])
  show "shows_fs h F \<Longrightarrow> shows_fs (h\<lparr>rx := b, tx := c\<rparr>) F"
    by (simp add: shows_fs_def shows_file_def sane_def files_ok_def v f t fresh_ok_def dos_up_def cong: option.case_cong)
qed

text \<open>One file changes, and the rest is kept.\<close>

lemma shows_change:
  assumes S: "shows_fs h F" and i: "find_inode k h = i" "i \<noteq> NULL" and s: "sane h'" "others_kept i h h'" "with_ms h' = with_ms h"
    "dos_srv h' = dos_srv h" and f: "shows_file h' i a"
  shows "shows_fs h' (F(k \<mapsto> a))"
proof -
  have T: "table_ok h" using S by (simp add: shows_fs_def sane_def)
  from s(2) have K: "\<And>j. j \<noteq> i \<Longrightarrow> inos h' j = inos h j" "\<And>t. find_inode t h' = find_inode t h"
    "\<And>j zs. j \<noteq> i \<Longrightarrow> file_ok h j zs \<Longrightarrow> file_ok h' j zs \<and> (\<forall>p. where_is h' zs p = where_is h zs p)"
    by (auto simp: others_kept_def)
  have "fresh_ok h'" using f by (auto simp: shows_file_def file_ok_def stage_def)
  moreover have "case (F(k \<mapsto> a)) j of None \<Rightarrow> find_inode j h' = NULL
      | Some a \<Rightarrow> find_inode j h' \<noteq> NULL \<and> shows_file h' (find_inode j h') a" for j
  proof (cases "j = k")
    case True
    then show ?thesis using i f K(2) by simp
  next
    case False
    then have ji: "find_inode j h \<noteq> i" using i find_inode_Some(2)[OF T, of j i] find_inode_Some(2)[OF T i] by auto
    show ?thesis
    proof (cases "F j")
      case None
      then show ?thesis using shows_none[OF S None] False K(2) by simp
    next
      case (Some b)
      from shows_fileE[OF S Some] obtain l n xs where l: "find_inode j h = l" "l \<noteq> NULL" "inos h l = Some n" "\<not> is_deleted n"
        "file_ok h l xs" "isize n = a_size b" "refcount n = a_refs b" "is_shared n = a_shared b" "\<forall>p. where_is h xs p = a_map b p" .
      have "shows_file h' l b" unfolding shows_file_def
        by (intro exI[of _ n] exI[of _ xs]) (use l K(1)[of l] K(3)[of l xs] ji in simp)
      then show ?thesis using l False Some K(2) by simp
    qed
  qed
  ultimately show ?thesis using S s by (simp add: shows_fs_def dos_up_def)
qed

lemma rest_fields: "inode_rest m = inode_rest n \<Longrightarrow> isize m = isize n \<and> refcount m = refcount n \<and> flags m = flags n"
  by (cases m; cases n) (simp add: inode_rest_def)

lemma flags_fields: "is_deleted n = (flags n AND DELETED \<noteq> 0)" "is_shared n = (flags n AND SHARED \<noteq> 0)"
  by (simp_all add: is_deleted_def is_shared_def)

lemma served_shows:
  assumes S: "shows_fs h F" and i: "find_inode k h = i" "i \<noteq> NULL" and v: "served com k i h c reply w n"
    and n: "\<not> is_deleted n" "isize n = a_size b" "refcount n = a_refs b" "is_shared n = a_shared b" "\<And>p. w p = a_map b p"
  shows "\<exists>h'. process com h = Some h' \<and> tx h' = tx h @ reply \<and> shows_fs h' (F(k \<mapsto> b)) \<and> takes c h h'"
proof -
  from v obtain h' ys m where h': "process com h = Some h'" "tx h' = tx h @ reply" "sane h'" "file_ok h' i ys"
    "\<And>p. where_is h' ys p = w p" "others_kept i h h'" "inos h' i = Some m" "inode_rest m = inode_rest n" "takes c h h'"
    "dos_srv h' = dos_srv h" "with_ms h' = with_ms h" unfolding served_def by blast
  have "shows_file h' i b"
    unfolding shows_file_def using h'(4,5,7) n rest_fields[OF h'(8)] by (intro exI[of _ m] exI[of _ ys]) (simp add: flags_fields)
  from shows_change[OF S i h'(3,6,11,10) this] h'(1,2,9) show ?thesis by blast
qed

section \<open>The requests on a file that is there\<close>

abbreviation does :: "client_req \<Rightarrow> store \<Rightarrow> afs \<Rightarrow> afile option \<Rightarrow> bool" where
  "does r h F f \<equiv> \<exists>h'. process (req_com r) h = Some h' \<and> (\<exists>b. tx h' = tx h @ b \<and> reply_ok r f b) \<and>
     shows_fs h' (fs_step r F) \<and> takes (mem_need r) h h'"

lemma touched: "is_deleted (touch t n) = is_deleted n" "is_shared (touch t n) = is_shared n" "refcount (touch t n) = refcount n"
  "isize (touch t n) = isize n" "is_deleted (n\<lparr>isize := s\<rparr>) = is_deleted n" "is_shared (n\<lparr>isize := s\<rparr>) = is_shared n"
  by (simp_all add: touch_def is_deleted_def is_shared_def)

lemma does_write:
  assumes S: "shows_fs h F" and a: "F k = Some a" and p: "fo < fo + ln" and m: "3 \<le> avail h"
    and rx: "rx h = req_bytes (Write k hid l fo od ln)"
  shows "does (Write k hid l fo od ln) h F (Some a)"
proof -
  from shows_fileE[OF S a] obtain i n xs where i: "find_inode k h = i" "i \<noteq> NULL" "inos h i = Some n" "\<not> is_deleted n"
    "file_ok h i xs" "isize n = a_size a" "refcount n = a_refs a" "is_shared n = a_shared a" "\<forall>p. where_is h xs p = a_map a p" .
  have s: "sane h" using S by (simp add: shows_fs_def)
  have rx': "rx h = le 8 k @ le 4 hid @ le 8 l @ le 8 fo @ le 8 od @ le 8 ln @ []" using rx by (simp add: msgs le_one)
  from write_request[OF s i(1-4) req_coms(2) i(5) rx' p m] obtain h' ys n' where h': "process 0 h = Some h'"
    "tx h' = tx h @ int_bytes (ret_code SUCCESS)" "sane h'" "file_ok h' i ys"
    "\<And>p. where_is h' ys p = (if fo \<le> p \<and> p < fo + ln then Some (hid, l, od + (p - fo)) else where_is h xs p)"
    "others_kept i h h'" "inos h' i = Some n'" "flags n' = flags n" "isize n' = max (isize n) (fo + ln)"
    "with_ms h' = with_ms h" "refcount n' = refcount n" "dos_srv h' = dos_srv h" "takes 3 h h'" by blast
  have "shows_file h' i (put_range fo ln (\<lambda>p. Some (hid, l, od + (p - fo))) a)"
    unfolding shows_file_def put_range_def
    by (intro exI[of _ n'] exI[of _ ys]) (use h' i(4-9) in \<open>simp add: flags_fields\<close>)
  from shows_change[OF S i(1,2) h'(3,6,10,12) this] h'(1,2,13) a show ?thesis by (auto simp: fs_step_def)
qed

lemma does_truncate:
  assumes S: "shows_fs h F" and a: "F k = Some a" and m: "0 < avail h" and rx: "rx h = req_bytes (Truncate k s)"
  shows "does (Truncate k s) h F (Some a)"
proof -
  from shows_fileE[OF S a] obtain i n xs where i: "find_inode k h = i" "i \<noteq> NULL" "inos h i = Some n" "\<not> is_deleted n"
    "file_ok h i xs" "isize n = a_size a" "refcount n = a_refs a" "is_shared n = a_shared a" "\<forall>p. where_is h xs p = a_map a p" .
  have s: "sane h" using S by (simp add: shows_fs_def)
  have rx': "rx h = le 8 k @ le 8 s @ []" using rx by (simp add: msgs le_one)
  from served_shows[OF S i(1,2) truncate_request[OF s i(1-4) req_coms(3) i(5) rx' m],
      of "a\<lparr>a_size := s, a_map := (\<lambda>p. if p < s then a_map a p else None)\<rparr>"]
  show ?thesis using i a by (auto simp: fs_step_def touched)
qed

lemma does_clone:
  assumes S: "shows_fs h F" and a: "F k = Some a" and p: "st < st + ln" "segs_ok st (st + ln) st gs"
    and m: "2 * length gs < avail h" and rx: "rx h = req_bytes (Clone k st ln gs)"
  shows "does (Clone k st ln gs) h F (Some a)"
proof -
  from shows_fileE[OF S a] obtain i n xs where i: "find_inode k h = i" "i \<noteq> NULL" "inos h i = Some n" "\<not> is_deleted n"
    "file_ok h i xs" "isize n = a_size a" "refcount n = a_refs a" "is_shared n = a_shared a" "\<forall>p. where_is h xs p = a_map a p" .
  have s: "sane h" "dos_up h" using S by (simp_all add: shows_fs_def)
  have rx': "rx h = le 8 k @ le 8 st @ le 8 ln @ concat (map seg_bytes gs) @ end_mark @ []" using rx by (simp add: msgs le_one)
  from served_shows[OF S i(1,2) clone_request[OF s(1) i(1-4) req_coms(4) i(5) rx' p(2,1) m s(2)], of "put_range st ln (seg_at st gs) a"]
  show ?thesis using i a by (auto simp: fs_step_def touched put_range_def)
qed

lemma shared_flags: "is_deleted (set_shared n) = is_deleted n" "is_shared (set_shared n)" "refcount (set_shared n) = refcount n"
  "isize (set_shared n) = isize n"
  by (simp_all add: is_deleted_def is_shared_def set_shared_def SHARED_def DELETED_def bit.conj_disj_distrib2)

lemma does_read:
  assumes S: "shows_fs h F" and a: "F k = Some a" and p: "fo < min (fo + ln) (a_size a)" and rx: "rx h = req_bytes (Read k fo ln)"
  shows "does (Read k fo ln) h F (Some a)"
proof -
  from shows_fileE[OF S a] obtain i n xs where i: "find_inode k h = i" "i \<noteq> NULL" "inos h i = Some n" "\<not> is_deleted n"
    "file_ok h i xs" "isize n = a_size a" "refcount n = a_refs a" "is_shared n = a_shared a" "\<forall>p. where_is h xs p = a_map a p" .
  have s: "sane h" "table_ok h" "\<not> with_ms h" using S by (simp_all add: shows_fs_def sane_def)
  let ?e = "min (fo + ln) (a_size a)"
  have b: "ino n = k" using find_inode_Some(3)[OF s(2) i(1,2)] i(3) by simp
  have rx': "rx h = le 8 k @ le 8 fo @ le 8 ln @ 1 # []" using rx by (simp add: msgs le_one)
  have p': "fo < min (fo + ln) (isize n)" using p i(6) by simp
  have hole: "hole h xs fo ?e = has_hole fo ?e a" using i(9) by (simp add: hole_def has_hole_def)
  let ?n = "if has_hole fo ?e a then set_shared n else n"
  from read_request[OF s(1) i(1-4) req_coms(5) i(5) rx' _ p'] s(3) obtain h' gs where h': "process 2 h = Some h'"
    "tx h' = tx h @ (concat (map seg_bytes gs) @ end_mark) @ int_bytes (ret_code SUCCESS)" "sane h'" "file_ok h' i xs"
    "\<And>p. where_is h' xs p = where_is h xs p" "others_kept i h h'" "answers h xs k fo ?e 0 (gs, has_hole fo ?e a)"
    "avail h' = avail h" "dos_srv h' = dos_srv h" "with_ms h' = with_ms h" "inos h' i = Some ?n"
    unfolding i(6) hole b by auto
  let ?a = "a\<lparr>a_shared := a_shared a \<or> has_hole fo ?e a\<rparr>"
  have "shows_file h' i ?a" unfolding shows_file_def
    by (intro exI[of _ ?n] exI[of _ xs]) (use h'(4,5,11) i(4-9) in \<open>simp add: shared_flags\<close>)
  from shows_change[OF S i(1,2) h'(3,6,10,9) this] have "shows_fs h' (fs_step (Read k fo ln) F)" using a by (simp add: fs_step_def)
  moreover have "where_based h xs k = based a k" using i(9) by (simp add: fun_eq_iff where_based_def based_def)
  then have "reply_ok (Read k fo ln) (Some a) ((concat (map seg_bytes gs) @ end_mark) @ int_bytes (ret_code SUCCESS))"
    using h'(7) by (auto simp: answers_def)
  ultimately show ?thesis using h'(1,2,8) by (auto simp: takes_def simp del: reply_ok.simps)
qed

lemma where_has_object:
  assumes f: "file_ok h i xs" and n: "inos h i = Some n" and p: "where_is h xs p = Some (hid, l, q)"
  shows "\<exists>d \<in> set (do_map n). dob_key h d = Some (hid, l)"
proof -
  have o: "ordered h xs" "owned h i (set xs)" using f by (simp_all add: file_ok_def stage_def)
  from p obtain a where "List.find (covers h p) xs = Some a" "place_in h a p = (hid, l, q)" by (auto simp: where_is_def)
  then have a: "a \<in> set xs" by (auto simp: find_Some_iff)
  from ownedE[OF o(2) a] obtain d rs where d: "d \<in> set (do_map n)" "fld dobj h a = Some d" "dob_ok h i d rs"
    using n by (metis option.inject)
  then obtain e x where "exts h a = Some e" "dobj e = d" "dobs h d = Some x" by (auto simp: fld_def dob_ok_def)
  with \<open>place_in h a p = (hid, l, q)\<close> d(1) show ?thesis by (auto simp: place_in_def dob_key_def)
qed

lemma does_remove:
  assumes S: "shows_fs h F" and a: "F k = Some a" and p: "suits (Remove k hid l) a" and rx: "rx h = req_bytes (Remove k hid l)"
  shows "does (Remove k hid l) h F (Some a)"
proof -
  from shows_fileE[OF S a] obtain i n xs where i: "find_inode k h = i" "i \<noteq> NULL" "inos h i = Some n" "\<not> is_deleted n"
    "file_ok h i xs" "isize n = a_size a" "refcount n = a_refs a" "is_shared n = a_shared a" "\<forall>p. where_is h xs p = a_map a p" .
  have s: "sane h" using S by (simp add: shows_fs_def)
  have rx': "rx h = le 8 k @ le 4 hid @ le 8 l @ 0 # []" using rx by (simp add: msgs le_one)
  from p i(9) obtain q o' where "where_is h xs q = Some (hid, l, o')" by auto
  from where_has_object[OF i(5,3) this] obtain d where d: "d \<in> set (do_map n)" "dob_key h d = Some (hid, l)" by blast
  have nz: "\<not> (hid = 0 \<and> l = 0)" "0 <s refcount n" using p i(7) by simp_all
  from served_shows[OF S i(1,2) remove_request[OF s i(1-4) req_coms(6) i(5) rx' d nz],
      of "a\<lparr>a_map := (\<lambda>p. case a_map a p of None \<Rightarrow> None
     | Some (hid', l', q) \<Rightarrow> if hid' = hid \<and> l' = l then None else Some (hid', l', q))\<rparr>"]
  show ?thesis using i a by (auto simp: fs_step_def)
qed

section \<open>Opening\<close>

text \<open>The extents of a file are determined by the store.\<close>

lemma tr_unique:
  assumes "tr h p s t" "tr h p' s' t'" "root t = root t'"
  shows "t = t'"
  using assms
proof (induction t arbitrary: p s p' s' t')
  case Tip
  then show ?case by (cases t') (auto simp: tnode_def)
next
  case (Bin l a d r)
  then obtain l' d' r' where t': "t' = Bin l' a d' r'" by (cases t') (auto simp: tnode_def)
  with Bin.prems have "root l = root l'" "root r = root r'" "d = d'" by (auto simp: tnode_def)
  with Bin t' show ?case by auto
qed

lemma file_unique:
  assumes "file_ok h i xs" "file_ok h i ys"
  shows "xs = ys"
proof -
  from assms obtain t t' where t: "layout h i t" "inorder t = xs" "layout h i t'" "inorder t' = ys"
    by (auto simp: file_ok_def stage_def)
  then have "root t = root t'" "tr h NULL (SFlayout i) t" "tr h NULL (SFlayout i) t'"
    by (auto simp: layout_def focus_def)
  from tr_unique[OF this(2,3,1)] t show ?thesis by simp
qed

lemma shows_opened:
  assumes S: "shows_fs h F" and s: "sane h'" "fresh_ok h'" "beside i k h h'" "with_ms h' = with_ms h" "dos_srv h' = dos_srv h"
    and i: "find_inode k h' = i" "i \<noteq> NULL" and o: "find_inode k h = i \<or> find_inode k h = NULL \<and> i = brk h"
    and f: "shows_file h' i a"
  shows "shows_fs h' (F(k \<mapsto> a))"
proof -
  have T: "table_ok h" using S by (simp add: shows_fs_def sane_def)
  from s(3) have K: "\<And>t. t \<noteq> k \<Longrightarrow> find_inode t h' = find_inode t h" "\<And>j. j \<noteq> i \<Longrightarrow> inos h' j = inos h j"
    "\<And>j xs p. j \<noteq> i \<Longrightarrow> file_ok h j xs \<Longrightarrow> file_ok h' j xs \<and> where_is h' xs p = where_is h xs p" by (auto simp: beside_def)
  have "case (F(k \<mapsto> a)) j of None \<Rightarrow> find_inode j h' = NULL
      | Some a \<Rightarrow> find_inode j h' \<noteq> NULL \<and> shows_file h' (find_inode j h') a" for j
  proof (cases "j = k \<or> F j = None")
    case True
    then show ?thesis using i f K(1) shows_none[OF S, of j] by auto
  next
    case False
    then obtain b where b: "F j = Some b" "j \<noteq> k" by auto
    from shows_fileE[OF S b(1)] obtain l n xs where l: "find_inode j h = l" "l \<noteq> NULL" "inos h l = Some n" "\<not> is_deleted n"
      "file_ok h l xs" "isize n = a_size b" "refcount n = a_refs b" "is_shared n = a_shared b" "\<forall>p. where_is h xs p = a_map b p" .
    have "l \<noteq> i" using o find_inode_Some(1,2)[OF T l(1,2)] find_inode_Some(2)[OF T, of k i] i(2) b(2) T
      by (auto simp: table_ok_def)
    then have "shows_file h' l b" unfolding shows_file_def
      by (intro exI[of _ n] exI[of _ xs]) (use l K(2)[of l] K(3)[of l xs] in simp)
    then show ?thesis using l b K(1) by simp
  qed
  then show ?thesis using S s by (simp add: shows_fs_def dos_up_def)
qed

lemma does_open:
  assumes S: "shows_fs h F" and m: "0 < avail h" and rx: "rx h = req_bytes (Open k s)"
  shows "does (Open k s) h F (F k)"
proof -
  define a where "a = (case F k of None \<Rightarrow> new_file s | Some a \<Rightarrow> a)"
  let ?a = "a\<lparr>a_refs := a_refs a + 1\<rparr>"
  have s: "sane h" "table_ok h" "fresh_ok h" "\<not> with_ms h" using S by (simp_all add: shows_fs_def sane_def)
  have rx': "rx h = le 8 k @ le 8 s @ le 1 (2 :: u8)" using rx by (simp add: msgs le_one)
  from create_open_correct[OF s(1,3) m _ rx' req_coms(1)] obtain h' i xs n where h': "process 7 h = Some h'" "sane h'" "fresh_ok h'"
    "opened k s h i xs n" "i \<noteq> NULL" "find_inode k h' = i" "file_ok h' i xs" "inos h' i = Some (n\<lparr>refcount := refcount n + 1\<rparr>)"
    "\<And>p. where_is h' xs p = where_is h xs p" "beside i k h h'"
    "tx h' = tx h @ whole_bytes h' xs n @ int_bytes (if present k h then err ALREADY_CREATED else ret_code SUCCESS)"
    "with_ms h' = with_ms h" "dos_srv h' = dos_srv h" "takes 1 h h'" by auto
  have pr: "present k h \<longleftrightarrow> F k \<noteq> None"
    using shows_none[OF S] shows_fileE[OF S] by (cases "F k") (fastforce simp: present_def)+
  have o: "find_inode k h = i \<or> find_inode k h = NULL \<and> i = brk h" and
    fa: "\<not> is_deleted n \<and> isize n = a_size a \<and> refcount n = a_refs a \<and> is_shared n = a_shared a \<and> (\<forall>p. where_is h xs p = a_map a p)"
  proof -
    have "(find_inode k h = i \<or> find_inode k h = NULL \<and> i = brk h) \<and>
      (\<not> is_deleted n \<and> isize n = a_size a \<and> refcount n = a_refs a \<and> is_shared n = a_shared a \<and> (\<forall>p. where_is h xs p = a_map a p))"
    proof (cases "F k")
      case None
      with shows_none[OF S None] pr h'(4) show ?thesis
        by (simp add: opened_def a_def new_file_def new_inode_def flags_fields where_is_def fun_eq_iff)
    next
      case (Some c)
      from shows_fileE[OF S Some] obtain l m ys where l: "find_inode k h = l" "l \<noteq> NULL" "inos h l = Some m" "\<not> is_deleted m"
        "file_ok h l ys" "isize m = a_size c" "refcount m = a_refs c" "is_shared m = a_shared c" "\<forall>p. where_is h ys p = a_map c p" .
      with pr Some h'(4) have "i = l" "n = m" "file_ok h l xs" by (auto simp: opened_def)
      with file_unique[OF l(5), of xs] l Some show ?thesis by (simp add: a_def)
    qed
    then show "find_inode k h = i \<or> find_inode k h = NULL \<and> i = brk h"
      "\<not> is_deleted n \<and> isize n = a_size a \<and> refcount n = a_refs a \<and> is_shared n = a_shared a \<and> (\<forall>p. where_is h xs p = a_map a p)"
      by blast+
  qed
  have "shows_file h' i ?a" unfolding shows_file_def
    by (intro exI[of _ "n\<lparr>refcount := refcount n + 1\<rparr>"] exI[of _ xs]) (use h'(7-9) fa in \<open>simp add: flags_fields\<close>)
  from shows_opened[OF S h'(2,3,10,12,13,6,5) o this] have "shows_fs h' (fs_step (Open k s) F)"
    by (cases "F k") (auto simp: fs_step_def a_def)
  moreover have "reply_ok (Open k s) (F k) (whole_bytes h' xs n @ int_bytes (if present k h then err ALREADY_CREATED else ret_code SUCCESS))"
    unfolding reply_ok.simps Let_def a_def[symmetric]
    by (intro exI[of _ "le 8 (tv_sec (atime n)) @ le 8 (tv_sec (mtime n)) @ le 8 (version n)"] exI[of _ "flags n"]
        exI[of _ "map (ext_seg h') xs"])
      (use fa pr s(4) h'(9,12) file_segs[OF h'(7)] in \<open>simp add: whole_bytes_def meta_bytes_def flags_fields\<close>)
  ultimately show ?thesis using h'(1,11,14) by auto
qed

section \<open>Giving a reference back\<close>

lemma file_empty:
  assumes f: "file_ok h i xs" and n: "inos h i = Some n"
  shows "flayout n = NULL \<longleftrightarrow> xs = []" "xs = [] \<longleftrightarrow> (\<forall>p. where_is h xs p = None)"
proof -
  from f obtain t where t: "layout h i t" "inorder t = xs" by (auto simp: file_ok_def stage_def)
  then have "flayout n = root t" "tr h NULL (SFlayout i) t" using n by (auto simp: layout_def focus_def)
  with t(2) show "flayout n = NULL \<longleftrightarrow> xs = []" by (cases t) (auto simp: tnode_def)
  have o: "ordered h xs" using f by (simp add: file_ok_def)
  have "\<exists>p. where_is h xs p \<noteq> None" if "xs \<noteq> []"
  proof -
    from that obtain a ys where a: "xs = a # ys" by (cases xs) auto
    from ordered_ext[OF o, of a] a obtain e where e: "exts h a = Some e" "off_f e < off_f e + len e"
      by (auto simp: proper_def)
    then have "covers h (off_f e) a" by (simp add: covers_def)
    then show ?thesis using a by (auto simp: where_is_def intro!: exI[of _ "off_f e"])
  qed
  then show "xs = [] \<longleftrightarrow> (\<forall>p. where_is h xs p = None)" by (cases "xs = []") (auto simp: where_is_def)
qed

lemma unref_to_zero: "unref_to c = 0 \<longleftrightarrow> \<not> 0 <s unref_to c"
proof -
  have "\<not> unref_to c <s 0" by (simp add: unref_to_def)
  then show ?thesis by (auto simp: word_sless_alt intro!: signed_word_eqI)
qed

lemma frees_iff:
  assumes "file_ok h i xs" "inos h i = Some n" "\<forall>p. where_is h xs p = a_map a p" "refcount n = a_refs a" "is_shared n = a_shared a"
  shows "unref_frees n \<longleftrightarrow> unref_to (a_refs a) = 0 \<and> a_map a = Map.empty \<and> \<not> a_shared a" "unref_count n = unref_to (a_refs a)"
proof -
  show c: "unref_count n = unref_to (a_refs a)" using assms(4) by (simp add: unref_count_def unref_to_def)
  have "a_map a = Map.empty \<longleftrightarrow> (\<forall>p. where_is h xs p = None)" using assms(3) by (auto simp: fun_eq_iff)
  then show "unref_frees n \<longleftrightarrow> unref_to (a_refs a) = 0 \<and> a_map a = Map.empty \<and> \<not> a_shared a"
    using file_empty[OF assms(1,2)] assms(5) unfolding unref_frees_def c unref_to_zero by simp
qed

lemma meta_inos: "inos h i = Some n \<Longrightarrow> h\<lparr>inos := (inos h)(i \<mapsto> f n)\<rparr> = mod_ino i f h"
  by (auto simp: mod_ino_def intro!: store.equality)

lemma unref_meta: "meta_only (\<lambda>n. n\<lparr>refcount := c\<rparr>)" "meta_only (\<lambda>n. set_deleted (n\<lparr>refcount := c\<rparr>))"
  "is_deleted (n\<lparr>refcount := c\<rparr>) = is_deleted n" "is_shared (n\<lparr>refcount := c\<rparr>) = is_shared n"
  by (simp_all add: meta_only_def set_deleted_def flags_fields)

lemma does_unref_kept:
  assumes S: "shows_fs h F" and a: "F k = Some a" and rx: "rx h = req_bytes (Unref k)"
    and kp: "\<not> (unref_to (a_refs a) = 0 \<and> a_map a = Map.empty \<and> \<not> a_shared a)"
  shows "does (Unref k) h F (Some a)"
proof -
  from shows_fileE[OF S a] obtain i n xs where i: "find_inode k h = i" "i \<noteq> NULL" "inos h i = Some n" "\<not> is_deleted n"
    "file_ok h i xs" "isize n = a_size a" "refcount n = a_refs a" "is_shared n = a_shared a" "\<forall>p. where_is h xs p = a_map a p" .
  have s: "sane h" "\<not> with_ms h" using S by (simp_all add: shows_fs_def)
  have nl: "rwlock n = LkFree" using s i(3) by (auto simp: sane_def idle_def busy_on_def)
  have rx': "rx h = le 8 k @ []" using rx by (simp add: msgs le_one)
  define g where "g = mod_ino i (\<lambda>n. n\<lparr>alive := LkRd 1\<rparr>) (h\<lparr>rx := []\<rparr>)"
  note K = request_file[OF i(5,3), of "[]", folded g_def]
  let ?n = "n\<lparr>alive := LkRd 1\<rparr>" and ?c = "unref_to (a_refs a)"
  let ?u = "\<lambda>n :: inode. n\<lparr>refcount := ?c\<rparr>"
  have wk: "\<forall>p. where_is g xs p = a_map a p" using K(3) i(9) by simp
  note U = frees_iff[OF K(1,2) wk, of, simplified, OF i(7)]
  have sh: "is_shared ?n = a_shared a" "\<not> is_deleted ?n" "rwlock ?n = LkFree" using i(4,8) nl by (simp_all add: flags_fields)
  let ?ret = "if a_refs a - 1 <s 0 then err INVALID_UNREF else ret_code SUCCESS"
  have c: "cmd_unref i g = Some (?ret, False, mod_ino i ?u g)"
    using cmd_unref_eval[OF K(2) sh(3,2) i(2)] U sh(1) kp s(2) i(7) meta_inos[OF K(2), of ?u] by (simp add: g_def)
  have "file_ok (mod_ino i ?u g) i xs" using K(1) by (simp add: file_meta[OF unref_meta(1)])
  moreover have "edits i g (set xs) (mod_ino i ?u g) (set xs)" by (rule meta_edits[OF unref_meta(1) K(2)])
  ultimately have H: "handles cmd_unref i g xs 0 ?ret (a_map a) (?u ?n)"
    unfolding handles_def using c K(2) wk by (auto simp: meta_view takes_def)
  have r: "\<bar>?ret\<bar> < 24" by (simp add: err_def)
  have V: "served 15 k i h 0 (int_bytes ?ret) (a_map a) (?u n)"
    by (rule request_served[where g = ?u, OF s(1) rx' i(1-3) req_coms(7) _ _ _ i(5) _ r H[unfolded g_def]])
      (auto simp: dispatch_def inode_rest_def)
  from served_shows[OF S i(1,2) V, of "a\<lparr>a_refs := ?c\<rparr>"] show ?thesis
    using i a kp by (auto simp: fs_step_def flags_fields)
qed

text \<open>The last reference to an empty file: the inode leaves the table.\<close>

lemma shows_removed:
  assumes S: "shows_fs h F" and i: "find_inode k h = i" "i \<noteq> NULL" and g: "sane g" "fresh_ok g" "others_kept i h g" "with_ms g = with_ms h"
    "dos_srv g = dos_srv h" and n: "inos g i = Some n" "ino n = k" "flayout n = NULL" "num_exts n = 0" "refcount n = 0"
  defines "g' \<equiv> g\<lparr>inos := (inos g)(i := None), inode_map := remove1 i (inode_map g)\<rparr>"
  shows "free_inode i g = Some g'" "shows_fs g' (F(k := None))"
proof -
  have T: "table_ok g" "idle g" "files_ok g" "table_ok h" using g(1) S by (simp_all add: sane_def shows_fs_def)
  have K: "find_inode t g = find_inode t h" for t using g(3) by (simp add: others_kept_def)
  have im: "i \<in> set (inode_map g)" using find_inode_Some(1)[OF T(1)] K i by metis
  from free_inode_eval[OF T(2,1) n(1) im n(3-5)] show e: "free_inode i g = Some g'" by (simp add: g'_def)
  from free_inode_correct[OF T(2,1) n(1) im n(3-5)] e have F: "table_ok g'" "find_inode k g' = NULL"
    "\<And>j. j \<noteq> k \<Longrightarrow> find_inode j g' = find_inode j h" using n(2) K by auto
  have fr: "fresh_ok g'" using g(2) by (simp add: g'_def fresh_ok_def)
  have f: "file_ok g' j zs = file_ok g j zs" "where_is g' zs p = where_is g zs p" if "j \<noteq> i" for j zs p
    by (rule file_same_fresh[where i = j]; use that fr g(2) in \<open>simp add: g'_def\<close>)+
  have "files_ok g'" unfolding files_ok_def
  proof
    fix j assume j: "j \<in> set (inode_map g')"
    then have "j \<noteq> i" using F(1) T(1) by (auto simp: g'_def table_ok_def)
    moreover have "j \<in> set (inode_map g)" using j set_remove1_subset[of i "inode_map g"] by (auto simp: g'_def)
    ultimately show "\<exists>xs. file_ok g' j xs" using T(3) f by (auto simp: files_ok_def)
  qed
  moreover have "idle g'" using T(2) by (simp add: g'_def idle_def busy_on_def)
  moreover have "case (F(k := None)) j of None \<Rightarrow> find_inode j g' = NULL
      | Some b \<Rightarrow> find_inode j g' \<noteq> NULL \<and> shows_file g' (find_inode j g') b" for j
  proof (cases "j = k \<or> F j = None")
    case True
    then show ?thesis using F(2,3) shows_none[OF S, of j] by auto
  next
    case False
    then obtain b where b: "F j = Some b" "j \<noteq> k" by auto
    from shows_fileE[OF S b(1)] obtain l m xs where l: "find_inode j h = l" "l \<noteq> NULL" "inos h l = Some m" "\<not> is_deleted m"
      "file_ok h l xs" "isize m = a_size b" "refcount m = a_refs b" "is_shared m = a_shared b" "\<forall>p. where_is h xs p = a_map b p" .
    have "l \<noteq> i" using find_inode_Some(2)[OF T(4) l(1,2)] find_inode_Some(2)[OF T(4) i] b(2) by auto
    moreover from this g(3) l have "inos g l = Some m" "file_ok g l xs" "\<forall>p. where_is g xs p = a_map b p"
      by (auto simp: others_kept_def)
    ultimately have "shows_file g' l b" unfolding shows_file_def
      by (intro exI[of _ m] exI[of _ xs]) (use l f[of l] in \<open>simp add: g'_def\<close>)
    then show ?thesis using l b F(3) by simp
  qed
  moreover have "\<not> with_ms g'" "dos_up g'" using S g(4,5) by (simp_all add: g'_def shows_fs_def dos_up_def)
  ultimately show "shows_fs g' (F(k := None))" using F(1) fr unfolding shows_fs_def sane_def by blast
qed

lemma does_unref_freed:
  assumes S: "shows_fs h F" and a: "F k = Some a" and rx: "rx h = req_bytes (Unref k)"
    and fr: "unref_to (a_refs a) = 0" "a_map a = Map.empty" "\<not> a_shared a"
  shows "does (Unref k) h F (Some a)"
proof -
  from shows_fileE[OF S a] obtain i n xs where i: "find_inode k h = i" "i \<noteq> NULL" "inos h i = Some n" "\<not> is_deleted n"
    "file_ok h i xs" "isize n = a_size a" "refcount n = a_refs a" "is_shared n = a_shared a" "\<forall>p. where_is h xs p = a_map a p" .
  have s: "sane h" "\<not> with_ms h" "fresh_ok h" "table_ok h" using S by (simp_all add: shows_fs_def sane_def)
  have nl: "rwlock n = LkFree" "alive n = LkFree" using s i(3) by (auto simp: sane_def idle_def busy_on_def)
  have xs: "xs = []" "flayout n = NULL" using file_empty[OF i(5,3)] i(9) fr(2) by simp_all
  have ne: "num_exts n = 0" using i(3,5) xs(1) by (auto simp: file_ok_def stage_def owned_def)
  let ?r = "h\<lparr>rx := []\<rparr>" and ?n = "n\<lparr>alive := LkRd 1\<rparr>"
  define g where "g = mod_ino i (\<lambda>n. n\<lparr>alive := LkRd 1\<rparr>) ?r"
  note K = request_file[OF i(5,3), of "[]", folded g_def]
  have wk: "\<forall>p. where_is g xs p = a_map a p" using K(3) i(9) by simp
  note U = frees_iff[OF K(1,2) wk, of, simplified, OF i(7)]
  have sh: "is_shared ?n = a_shared a" "\<not> is_deleted ?n" "rwlock ?n = LkFree" using i(4,8) nl by (simp_all add: flags_fields)
  let ?ret = "if a_refs a - 1 <s 0 then err INVALID_UNREF else ret_code SUCCESS"
  let ?u = "\<lambda>n :: inode. set_deleted (n\<lparr>refcount := 0\<rparr>)"
  have c: "cmd_unref i g = Some (?ret, True, mod_ino i ?u g)"
    using cmd_unref_eval[OF K(2) sh(3,2) i(2)] U sh(1) fr s(2) i(7) meta_inos[OF K(2), of ?u] by (simp add: g_def)
  let ?w = "mod_ino i ?u g"
  have u: "isize (?u m) = isize m" "rwlock (?u m) = rwlock m" "alive (?u m) = alive m" "ino (?u m) = ino m" for m
    by (simp_all add: set_deleted_def)
  have fw: "file_ok ?w i []" using K(1) xs(1) by (subst file_meta[OF unref_meta(2) u(1)]) simp
  have pr: "print_inode i ?w = Some ?w" by (rule print_inode_correct[OF fw _ _ i(2), of "?u ?n"]) (use K(2) nl u in simp_all)
  define e where "e = mod_ino i ?u ?r"
  have un: "on_alive lk_un i (wr b ?w) = Some (wr b e)" for b
    using i(3) nl(2) u
    by (auto simp: on_alive_def upd_ino_def e_def g_def mod_ino_def wr_def set_deleted_def intro!: store.equality inode.equality)
  have aq: "acquire_inode k ?r = Some (i, g)"
    using acquire_inode_correct[of ?r k] s i(1,2) find_rx[where h = h and bs = "[]"] sane_rx[where h = h and bs = "[]"] by (simp add: sane_def g_def)
  have ed: "edits i h (set xs) e (set xs)"
    unfolding e_def by (rule edits_trans[OF edits_rx[OF i(3)] meta_edits[OF unref_meta(2)]]) (use i(3) in simp)
  have fe: "file_ok e i xs" using i(5) by (simp add: e_def file_meta[OF unref_meta(2) u(1)] file_ok_rx)
  have ne': "inos e i = Some (?u n)" using i(3) by (simp add: e_def)
  note E = sane_edits[OF s(1) i(5) ed fe i(3) ne', unfolded u, OF nl refl]
  let ?g = "wr (int_bytes ?ret) e"
  have G: "sane ?g" "fresh_ok ?g" "others_kept i h ?g" "with_ms ?g = with_ms h" "dos_srv ?g = dos_srv h" "inos ?g i = Some (?u n)"
    using E fe ne' by (simp_all add: sane_wr fresh_wr others_wr file_ok_def stage_def e_def)
  have kn: "ino (?u n) = k" using find_inode_Some(3)[OF s(4) i(1,2)] i(3) u by simp
  note R = shows_removed[OF S i(1,2) G kn]
  have "flayout (?u n) = NULL" "num_exts (?u n) = 0" "refcount (?u n) = 0" using xs ne by (simp_all add: set_deleted_def)
  note R = R[OF this]
  have "rd_u64 h = Some (k, ?r)" by (rule rd_words(2)) (use rx in simp)
  then have "process 15 h = Some (?g\<lparr>inos := (inos ?g)(i := None), inode_map := remove1 i (inode_map ?g)\<rparr>)"
    using aq c pr un R(1) i(2) by (simp add: process_def req_coms(7) dispatch_def on_inode_def err_def)
  then show ?thesis using R(2) a fr by (auto simp: fs_step_def takes_def fresh_wr e_def)
qed

section \<open>A number that has no file\<close>

lemma absent_process:
  assumes S: "shows_fs h F" and k: "F k = None" and rx: "rx h = le 8 k @ b"
    and c: "com_of com = Some c" "c \<noteq> CREATE_INODE" "c \<noteq> CREATE_OPEN_INODE"
    and d: "dispatch (Some c) k NULL (h\<lparr>rx := b\<rparr>) = Some (NULL, err INVALID_INO, False, wr z (h\<lparr>rx := b'\<rparr>))"
  shows "\<exists>h'. process com h = Some h' \<and> tx h' = tx h @ z @ int_bytes (err INVALID_INO) \<and> shows_fs h' F \<and> takes m h h'"
proof -
  have s: "sane (h\<lparr>rx := b\<rparr>)" using S by (simp add: sane_rx shows_fs_def)
  have "acquire_inode k (h\<lparr>rx := b\<rparr>) = Some (NULL, h\<lparr>rx := b\<rparr>)"
    using acquire_inode_correct[of "h\<lparr>rx := b\<rparr>" k] s shows_none[OF S k] find_rx[where h = h and bs = b] by (simp add: sane_def)
  then have "process com h = Some (wr (int_bytes (err INVALID_INO)) (wr z (h\<lparr>rx := b'\<rparr>)))"
    using rd_words(2)[OF rx] c d by (simp add: process_def print_inode_def err_def)
  moreover have "shows_fs (wr y (h\<lparr>rx := b'\<rparr>)) F" for y using shows_start[OF S, where b = b' and c = "tx h @ y"] by (simp add: wr_def)
  ultimately show ?thesis by (auto simp: fresh_wr takes_def)
qed

lemma rd_one: "rd_u8 (h\<lparr>rx := x # b\<rparr>) = Some (x, h\<lparr>rx := b\<rparr>)"
  by (simp add: rd_u8_def rd_bytes_def take_bytes_def)

lemma rd_u64_last: "rd_u64 (h\<lparr>rx := le 8 v\<rparr>) = Some (v, h\<lparr>rx := []\<rparr>)"
  using rd_u64_eval[of v "[]" h] by simp

lemma does_absent:
  assumes S: "shows_fs h F" and k: "F (req_ino r) = None" and n: "creates r = None" and rx: "rx h = req_bytes r"
  shows "does r h F None"
proof (cases r)
  case (Open k s)
  with n show ?thesis by simp
next
  case (Write k' hid l fo od ln)
  from absent_process[OF S k, of "le 4 hid @ le 8 l @ le 8 fo @ le 8 od @ le 8 ln @ []" 0 WRITE "[]" "[]"] rx k show ?thesis
    by (simp add: Write msgs fs_step_def req_coms dispatch_def on_inode_def cmd_write_def rd_u32_eval rd_u64_eval rd_u64_last no_inode_def)
next
  case (Truncate k' s)
  from absent_process[OF S k, of "le 8 s @ []" 1 TRUNCATE "[]" "[]"] rx k show ?thesis
    by (simp add: Truncate fs_step_def req_coms dispatch_def on_inode_def cmd_truncate_def rd_u64_eval rd_u64_last no_inode_def)
next
  case (Clone k' st ln gs)
  let ?b = "concat (map seg_bytes gs) @ end_mark"
  from absent_process[OF S k, of "le 8 st @ le 8 ln @ ?b" 3 CLONE_TO "[]" ?b] rx k show ?thesis
    by (simp add: Clone msgs fs_step_def req_coms dispatch_def on_inode_def cmd_clone_to_def rd_u64_eval no_inode_def)
next
  case (Read k' fo ln)
  from absent_process[OF S k, of "le 8 fo @ le 8 ln @ [1]" 2 READ_LAYOUT end_mark "[]"] rx k show ?thesis
    by (simp add: Read msgs le_one fs_step_def req_coms dispatch_def on_inode_def cmd_read_layout_def rd_u64_eval rd_one no_inode_def)
next
  case (Remove k' hid l)
  from absent_process[OF S k, of "le 4 hid @ le 8 l @ [0]" 9 REMOVE_DOBJ "[]" "[]"] rx k show ?thesis
    by (simp add: Remove fs_step_def req_coms dispatch_def on_inode_def cmd_remove_dobj_def rd_u32_eval rd_u64_eval rd_one no_inode_def)
next
  case (Unref k')
  from absent_process[OF S k, of "[]" 15 UNREF "[]" "[]"] rx k show ?thesis
    by (simp add: Unref fs_step_def req_coms dispatch_def on_inode_def cmd_unref_def no_inode_def)
qed

section \<open>Every request, and sequences of them\<close>

lemma does_request:
  assumes S: "shows_fs h F" and p: "allowed r F" and m: "mem_need r \<le> avail h" and rx: "rx h = req_bytes r"
  shows "does r h F (F (req_ino r))"
proof (cases "F (req_ino r)")
  case None
  show ?thesis
  proof (cases r)
    case (Open k s)
    with does_open[OF S _ rx[unfolded Open]] m show ?thesis by simp
  qed (use does_absent[OF S None _ rx] None in simp_all)
next
  case (Some a)
  with p have q: "suits r a" by (simp add: allowed_def)
  show ?thesis
  proof (cases r)
    case (Open k s)
    with does_open[OF S _ rx[unfolded Open]] m show ?thesis by simp
  next
    case (Write k hid l fo od ln)
    with does_write[OF S _ _ _ rx[unfolded Write]] Some q m show ?thesis by simp
  next
    case (Truncate k s)
    with does_truncate[OF S _ _ rx[unfolded Truncate]] Some m show ?thesis by simp
  next
    case (Clone k st ln gs)
    with does_clone[OF S _ _ _ _ rx[unfolded Clone]] Some q m show ?thesis by simp
  next
    case (Read k fo ln)
    with does_read[OF S _ _ rx[unfolded Read]] Some q show ?thesis by simp
  next
    case (Remove k hid l)
    with does_remove[OF S _ q[unfolded Remove] rx[unfolded Remove]] Some show ?thesis by simp
  next
    case (Unref k)
    with does_unref_kept[OF S _ rx[unfolded Unref]] does_unref_freed[OF S _ rx[unfolded Unref]] Some show ?thesis
      by (cases "unref_to (a_refs a) = 0 \<and> a_map a = Map.empty \<and> \<not> a_shared a") simp_all
  qed
qed

lemma serve_correct:
  assumes S: "shows_fs h F" and p: "allowed r F" and m: "mem_need r \<le> avail h"
  shows "\<exists>b h'. serve r h = Some (b, h') \<and> reply_ok r (F (req_ino r)) b \<and> shows_fs h' (fs_step r F) \<and>
    avail h \<le> avail h' + mem_need r"
proof -
  let ?h = "h\<lparr>rx := req_bytes r, tx := []\<rparr>"
  have "mem_need r \<le> avail ?h" "rx ?h = req_bytes r" "tx ?h = []" using m by simp_all
  with does_request[OF shows_start[OF S] p, where b1 = "req_bytes r" and c1 = "[]"] show ?thesis by (auto simp: serve_def takes_def)
qed

text \<open>The replies that go with a sequence of requests.\<close>

fun replies_ok :: "client_req list \<Rightarrow> afs \<Rightarrow> u8 list list \<Rightarrow> bool" where
  "replies_ok [] F bs \<longleftrightarrow> bs = []"
| "replies_ok (r # rs) F bs \<longleftrightarrow> (\<exists>b cs. bs = b # cs \<and> reply_ok r (F (req_ino r)) b \<and> replies_ok rs (fs_step r F) cs)"

lemma serve_all_correct:
  assumes "shows_fs h F" "all_allowed rs F" "sum_list (map mem_need rs) \<le> avail h"
  shows "\<exists>bs h'. serve_all rs h = Some (bs, h') \<and> replies_ok rs F bs \<and> shows_fs h' (fold fs_step rs F)"
  using assms
proof (induction rs arbitrary: h F)
  case (Cons r rs)
  from serve_correct[OF Cons.prems(1), of r] Cons.prems(2,3) obtain b h1 where h1: "serve r h = Some (b, h1)"
    "reply_ok r (F (req_ino r)) b" "shows_fs h1 (fs_step r F)" "avail h \<le> avail h1 + mem_need r" by auto
  have "sum_list (map mem_need rs) \<le> avail h1" using h1(4) Cons.prems(3) by simp
  with Cons.IH[OF h1(3)] Cons.prems(2) h1(1,2) show ?case by fastforce
qed simp

section \<open>The client that copies a range\<close>

text \<open>
  \<^verbatim>\<open>READ_LAYOUT\<close> of the range on one connection, \<^verbatim>\<open>CLONE_TO\<close> on another, which is fed
  from the first; and the two results. The server serves the first request before it serves the second.
\<close>

definition copy_range :: "ino_t \<Rightarrow> sz \<Rightarrow> sz \<Rightarrow> ino_t \<Rightarrow> sz \<Rightarrow> store \<Rightarrow> (u32 \<times> u32 \<times> store) option" where
  "copy_range t f ln u od h = do {
     h \<leftarrow> process 2 (h\<lparr>rx := read_msg t f ln, tx := []\<rparr>);
     (out, b) \<leftarrow> copy_loop (tx h);
     (r1, b) \<leftarrow> get_word 4 b;
     h \<leftarrow> process 3 (h\<lparr>rx := clone_msg u od ln @ out, tx := []\<rparr>);
     (r2, b) \<leftarrow> get_word 4 (tx h);
     Some (r1, r2, h) }"

lemma get_ret: "get_word 4 (int_bytes r) = Some (word_of_int r :: u32, [])"
  using get_word_le[of 4 "word_of_int r :: u32" "[]"] by (simp add: int_bytes_def)

lemma segs_named: "segs_ok st e s gs \<Longrightarrow> \<forall>g \<in> set gs. \<not> (g_hid g = 0 \<and> g_loid g = 0)"
  by (induction gs arbitrary: s) auto

lemma copy_range_correct:
  assumes S: "shows_fs h F" and a: "F t = Some a" and c: "F u = Some c" "u \<noteq> t"
    and lt: "f < f + ln" "f + ln \<le> a_size a" "od < od + ln"
    and nz: "\<forall>p hid l q. a_map a p = Some (hid, l, q) \<longrightarrow> \<not> (hid = 0 \<and> l = 0)" "t \<noteq> 0" and m: "2 * unat ln < avail h"
  shows "\<exists>h'. copy_range t f ln u od h = Some (2, 2, h') \<and> shows_fs h'
    (F(t \<mapsto> a\<lparr>a_shared := a_shared a \<or> has_hole f (f + ln) a\<rparr>, u \<mapsto> put_range od ln (\<lambda>p. Some (based a t (f + (p - od)))) c))"
proof -
  have e: "min (f + ln) (a_size a) = f + ln" using lt(2) by simp
  let ?r = "h\<lparr>rx := read_msg t f ln, tx := []\<rparr>"
  have Sr: "shows_fs ?r F" by (rule shows_start[OF S])
  from does_read[OF Sr a, of f ln] lt(1) e obtain h1 gs where h1: "process 2 ?r = Some h1"
    "tx h1 = concat (map seg_bytes gs) @ end_mark @ int_bytes (ret_code SUCCESS)"
    "expand gs = map (based a t) (upto_w f (f + ln))" "contiguous 0 gs"
    "shows_fs h1 (F(t \<mapsto> a\<lparr>a_shared := a_shared a \<or> has_hole f (f + ln) a\<rparr>))" "avail h \<le> avail h1"
    by (auto simp: a fs_step_def takes_def)
  from shows_fileE[OF S a] obtain xs where "\<forall>p. where_is h xs p = a_map a p" by metis
  then have w: "where_based h xs t = based a t" by (simp add: fun_eq_iff where_based_def based_def)
  have an: "answers h xs t f (f + ln) 0 (gs, \<exists>p \<in> set (upto_w f (f + ln)). where_is h xs p = None)"
    using h1(3,4) by (simp add: answers_def w)
  have nzb: "\<not> (hid = 0 \<and> l = 0)" if "where_based h xs t p = (hid, l, q)" for p hid l q
    using that nz unfolding w by (auto simp: based_def split: option.splits)
  have ln: "f + ln - f = ln" by simp
  note G = answers_segs[OF an less_imp_le[OF lt(1)], of od, unfolded ln w, OF less_imp_le[OF lt(3)] nzb[unfolded w]]
  note g0 = segs_named[OF G(1)]
  have len: "length gs \<le> unat ln" using contiguous_length[OF h1(4)] h1(3) by (simp add: upto_w_def)
  let ?F = "F(t \<mapsto> a\<lparr>a_shared := a_shared a \<or> has_hole f (f + ln) a\<rparr>)"
  let ?k = "h1\<lparr>rx := req_bytes (Clone u od ln gs), tx := []\<rparr>"
  have Sk: "shows_fs ?k ?F" by (rule shows_start[OF h1(5)])
  have av: "2 * length gs < avail ?k" using len m h1(6) by simp
  from does_clone[OF Sk, of u c od ln gs] c lt(3) G(1) av obtain h2 where h2: "process 3 ?k = Some h2"
    "tx h2 = int_bytes (ret_code SUCCESS)" "shows_fs h2 (fs_step (Clone u od ln gs) ?F)" by auto
  have P: "put_range od ln (seg_at od gs) c = put_range od ln (\<lambda>p. Some (based a t (f + (p - od)))) c"
    using G(2) by (auto simp: put_range_def fun_eq_iff)
  have "copy_range t f ln u od h = Some (2, 2, h2)"
    using h1(1,2) h2(1,2) copy_loop_bytes[OF g0, where b = "int_bytes 2"] get_ret[of 2] by (simp add: copy_range_def)
  moreover have "fs_step (Clone u od ln gs) ?F = ?F(u \<mapsto> put_range od ln (\<lambda>p. Some (based a t (f + (p - od)))) c)"
    using c P by (simp add: fs_step_def)
  ultimately show ?thesis using h2(3) by auto
qed

end
