(* ===== verification/Example_Service.thy ===== *)
theory Example_Service
  imports Example_Files Service
begin

text \<open>
  The file system that the example server shows, a server that has just been started, and requests of a client.
\<close>

lemma started_shows:
  assumes "sane h" "fresh_ok h" "\<not> with_ms h" "dos_up h" "inode_map h = []"
  shows "shows_fs h Map.empty"
  using assms by (simp add: shows_fs_def find_inode_def hash_find_def)

lemma ex_fresh_shows: "shows_fs ex_fresh Map.empty" "avail ex_fresh = 1000"
  using ex_fresh_sane ex_files_simps(5)[of "rx ex_files"]
  by (auto intro!: started_shows simp: ex_fresh_def dos_up_def)

definition ex_fs :: afs where
  "ex_fs = [7 \<mapsto> \<lparr>a_size = 50, a_map = where_is ex_files [1, 2, 3], a_refs = 1, a_shared = False\<rparr>,
     8 \<mapsto> \<lparr>a_size = 50, a_map = Map.empty, a_refs = 0, a_shared = False\<rparr>]"

lemma ex_files_shows: "shows_fs ex_files ex_fs"
proof -
  have f: "find_inode 7 ex_files = 1" "find_inode 8 ex_files = 2" using ex_files_find[of "rx ex_files"] by simp_all
  have n: "find_inode k ex_files = NULL" if "k \<noteq> 7" "k \<noteq> 8" for k
    using that by (simp add: find_inode_def hash_find_def ino_key_def ex_files_def ex_store_def ex_inode_def ex_empty_def)
  have "shows_file ex_files 1 \<lparr>a_size = 50, a_map = where_is ex_files [1, 2, 3], a_refs = 1, a_shared = False\<rparr>"
    unfolding shows_file_def using ex_files_ok(1) ex_files_live(1)
    by (intro exI[of _ "ex_inode\<lparr>num_exts := 3\<rparr>"] exI[of _ "[1, 2, 3]"]) (simp add: ex_inode_def is_shared_def)
  moreover have "shows_file ex_files 2 \<lparr>a_size = 50, a_map = Map.empty, a_refs = 0, a_shared = False\<rparr>"
    unfolding shows_file_def using ex_files_ok(2) ex_files_live(2) ex_files_simps(2)[of "rx ex_files"]
    by (intro exI[of _ "ex_empty\<lparr>ino := 8\<rparr>"] exI[of _ "[]"]) (simp add: ex_empty_def ex_inode_def is_shared_def where_is_def)
  moreover have "sane ex_files" "dos_up ex_files" using ex_files_sane[of "rx ex_files"] ex_files_simps(5)[of "rx ex_files"] by simp_all
  ultimately show ?thesis using f n ex_files_fresh by (simp add: shows_fs_def ex_fs_def)
qed

definition ex_requests :: "client_req list" where
  "ex_requests = [Open 100 4096, Write 100 3 44 0 0 50, Read 100 10 20, Open 101 4096, Unref 101, Write 101 3 44 0 0 50]"

lemma ex_requests_allowed: "all_allowed ex_requests Map.empty" "sum_list (map mem_need ex_requests) = 8"
  by (simp_all add: ex_requests_def allowed_def fs_step_def new_file_def put_range_def unref_to_def)

lemma ex_requests_end: "fold fs_step ex_requests Map.empty 101 = None"
  "\<exists>a. fold fs_step ex_requests Map.empty 100 = Some a \<and> a_map a 7 = Some (3, 44, 7) \<and> a_refs a = 1"
  by (simp_all add: ex_requests_def fs_step_def new_file_def put_range_def unref_to_def)

end
