(* ===== verification/Work_Queue.thy ===== *)
theory Work_Queue
  imports Store "HOL-Library.Multiset"
begin

text \<open>
  The accept loop and the worker threads of \<^verbatim>\<open>inserver.c\<close> around the queue of requests: a
  fixed pool of entries (\<^verbatim>\<open>rqhead\<close>, a stack), the queue (\<^verbatim>\<open>wqhead\<close>, first in first out),
  and the shutdown. Each critical section of the two mutexes is one step; the processing of a
  request is one step as well (\<^verbatim>\<open>Inode_Server\<close> says what it does).
\<close>

section \<open>State\<close>

definition NUM_THREADS :: nat where "NUM_THREADS = 4"
definition WQ_LENGTH :: nat where "WQ_LENGTH = 128"

text \<open>A request: the command byte and the descriptor of its connection.\<close>

type_synonym request = "u8 \<times> nat"

datatype worker = WIdle | WTaken nat | WBusy request | WDone

datatype master = MAccept | MHave nat request | MClosing | MJoined

record wstate =
  pool :: "nat list"
  queue :: "nat list"
  entry :: "nat \<Rightarrow> request"
  workers :: "nat \<Rightarrow> worker"
  master :: master
  cont :: bool
  queued :: "request list"
  started :: "request list"
  finished :: "request list"
  rejected :: "request list"

text \<open>\<open>queued\<close>, \<open>started\<close>, \<open>finished\<close> and \<open>rejected\<close> record what has happened.\<close>

definition init_queue :: wstate where
  "init_queue = \<lparr>pool = rev [0..<WQ_LENGTH], queue = [], entry = (\<lambda>_. (0, 0)),
     workers = (\<lambda>i. if i < NUM_THREADS then WIdle else WDone), master = MAccept, cont = True,
     queued = [], started = [], finished = [], rejected = []\<rparr>"

definition stop_com :: "u8 \<Rightarrow> bool" where
  "stop_com c \<longleftrightarrow> com_of c = Some BACKUP_AND_STOP \<or> com_of c = Some STAGEOUT_ALL"

section \<open>Steps\<close>

text \<open>
  \<open>ends s r\<close> says whether the processing of \<open>r\<close> comes to its end in \<open>s\<close>. It is a parameter: a
  handler may wait for ever, for a client that sends nothing more or for a lock that an earlier request
  has kept, and its thread then stays where it is.
\<close>

inductive wq_step :: "(wstate \<Rightarrow> request \<Rightarrow> bool) \<Rightarrow> wstate \<Rightarrow> wstate \<Rightarrow> bool"
  for ends :: "wstate \<Rightarrow> request \<Rightarrow> bool" where
  busy: "master s = MAccept \<Longrightarrow> \<not> stop_com c \<Longrightarrow> pool s = [] \<Longrightarrow>
    wq_step ends s (s\<lparr>rejected := rejected s @ [(c, fd)]\<rparr>)"
| grab: "master s = MAccept \<Longrightarrow> \<not> stop_com c \<Longrightarrow> pool s = e # p \<Longrightarrow>
    wq_step ends s (s\<lparr>pool := p, master := MHave e (c, fd)\<rparr>)"
| enqueue: "master s = MHave e r \<Longrightarrow>
    wq_step ends s (s\<lparr>entry := (entry s)(e := r), queue := queue s @ [e], master := MAccept,
      queued := queued s @ [r]\<rparr>)"
| stop: "master s = MAccept \<Longrightarrow> stop_com c \<Longrightarrow>
    wq_step ends s (s\<lparr>master := MClosing, cont := False\<rparr>)"
| take: "workers s i = WIdle \<Longrightarrow> queue s = e # q \<Longrightarrow>
    wq_step ends s (s\<lparr>queue := q, workers := (workers s)(i := WTaken e), started := started s @ [entry s e]\<rparr>)"
| recycle: "workers s i = WTaken e \<Longrightarrow>
    wq_step ends s (s\<lparr>pool := e # pool s, workers := (workers s)(i := WBusy (entry s e))\<rparr>)"
| serve: "workers s i = WBusy r \<Longrightarrow> ends s r \<Longrightarrow>
    wq_step ends s (s\<lparr>workers := (workers s)(i := WIdle), finished := finished s @ [r]\<rparr>)"
| quit: "workers s i = WIdle \<Longrightarrow> queue s = [] \<Longrightarrow> \<not> cont s \<Longrightarrow>
    wq_step ends s (s\<lparr>workers := (workers s)(i := WDone)\<rparr>)"
| join: "master s = MClosing \<Longrightarrow> (\<forall>i < NUM_THREADS. workers s i = WDone) \<Longrightarrow>
    wq_step ends s (s\<lparr>master := MJoined\<rparr>)"

inductive reachable :: "(wstate \<Rightarrow> request \<Rightarrow> bool) \<Rightarrow> wstate \<Rightarrow> bool"
  for ends :: "wstate \<Rightarrow> request \<Rightarrow> bool" where
  start: "reachable ends init_queue"
| step: "reachable ends s \<Longrightarrow> wq_step ends s t \<Longrightarrow> reachable ends t"

section \<open>The invariant\<close>

fun held_by :: "worker \<Rightarrow> nat list" where
  "held_by (WTaken e) = [e]"
| "held_by _ = []"

fun held_main :: "master \<Rightarrow> nat list" where
  "held_main (MHave e r) = [e]"
| "held_main _ = []"

definition held :: "wstate \<Rightarrow> nat list" where
  "held s = concat (map (\<lambda>i. held_by (workers s i)) [0..<NUM_THREADS])"

text \<open>Where the entries are: every entry is in one place.\<close>

definition places :: "wstate \<Rightarrow> nat list" where
  "places s = pool s @ queue s @ held_main (master s) @ held s"

fun busy_of :: "worker \<Rightarrow> request list" where
  "busy_of (WBusy r) = [r]"
| "busy_of _ = []"

text \<open>The requests that a worker has taken and not finished.\<close>

definition in_service :: "wstate \<Rightarrow> request list" where
  "in_service s = concat (map (\<lambda>i. busy_of (workers s i) @ map (entry s) (held_by (workers s i)))
     [0..<NUM_THREADS])"

text \<open>
  Each entry is in one place; the requests in the queue are the ones queued and not yet started, in
  their order; a started request is finished or in service; and a worker only leaves when the queue
  is empty and no more requests are accepted.
\<close>

definition open_master :: "master \<Rightarrow> bool" where
  "open_master m \<longleftrightarrow> (case m of MClosing \<Rightarrow> False | MJoined \<Rightarrow> False | _ \<Rightarrow> True)"

definition wq_inv :: "wstate \<Rightarrow> bool" where
  "wq_inv s \<longleftrightarrow>
     mset (places s) = mset [0..<WQ_LENGTH] \<and>
     queued s = started s @ map (entry s) (queue s) \<and>
     mset (started s) = mset (finished s) + mset (in_service s) \<and>
     (\<forall>i \<ge> NUM_THREADS. workers s i = WDone) \<and>
     (cont s \<longleftrightarrow> open_master (master s)) \<and>
     ((\<exists>i < NUM_THREADS. workers s i = WDone) \<longrightarrow> queue s = [] \<and> \<not> cont s) \<and>
     (master s = MJoined \<longrightarrow> (\<forall>i. workers s i = WDone))"

lemma mset_workers_upd:
  assumes "i < n"
  shows "mset (concat (map (\<lambda>j. f j ((w(i := x)) j)) [0..<n])) + mset (f i (w i)) =
    mset (concat (map (\<lambda>j. f j (w j)) [0..<n])) + mset (f i x)"
  using assms
proof (induction n)
  case (Suc n)
  show ?case
  proof (cases "i = n")
    case True
    have "concat (map (\<lambda>j. f j ((w(n := x)) j)) [0..<n]) = concat (map (\<lambda>j. f j (w j)) [0..<n])"
      by (intro arg_cong[where f = concat] map_cong) auto
    then have "mset (concat (map (\<lambda>j. f j ((w(n := x)) j)) [0..<n])) =
        mset (concat (map (\<lambda>j. f j (w j)) [0..<n]))" by (rule arg_cong)
    then show ?thesis unfolding True upt_Suc
      by (simp del: fun_upd_apply mset_concat add: fun_upd_same ac_simps)
  next
    case False
    with Suc show ?thesis by (auto simp: ac_simps)
  qed
qed simp

lemma held_upd:
  assumes "i < NUM_THREADS"
  shows "mset (held (s\<lparr>workers := (workers s)(i := x)\<rparr>)) + mset (held_by (workers s i)) =
    mset (held s) + mset (held_by x)"
  using mset_workers_upd[OF assms, of "\<lambda>_. held_by" "workers s" x] by (simp add: held_def)

lemma in_service_upd:
  assumes "i < NUM_THREADS"
  shows "mset (in_service (s\<lparr>workers := (workers s)(i := x)\<rparr>)) +
      mset (busy_of (workers s i) @ map (entry s) (held_by (workers s i))) =
    mset (in_service s) + mset (busy_of x @ map (entry s) (held_by x))"
  using mset_workers_upd[OF assms, of "\<lambda>_ w. busy_of w @ map (entry s) (held_by w)" "workers s" x]
  by (simp add: in_service_def)

lemma held_frame [simp]:
  "held (s\<lparr>pool := p\<rparr>) = held s" "held (s\<lparr>queue := q\<rparr>) = held s" "held (s\<lparr>master := m\<rparr>) = held s"
  "held (s\<lparr>entry := e\<rparr>) = held s" "held (s\<lparr>cont := c\<rparr>) = held s" "held (s\<lparr>queued := rs\<rparr>) = held s"
  "held (s\<lparr>started := rs\<rparr>) = held s" "held (s\<lparr>finished := rs\<rparr>) = held s"
  "held (s\<lparr>rejected := rs\<rparr>) = held s"
  by (simp_all add: held_def)

lemma in_service_frame [simp]:
  "in_service (s\<lparr>pool := p\<rparr>) = in_service s" "in_service (s\<lparr>queue := q\<rparr>) = in_service s"
  "in_service (s\<lparr>master := m\<rparr>) = in_service s" "in_service (s\<lparr>cont := c\<rparr>) = in_service s"
  "in_service (s\<lparr>queued := rs\<rparr>) = in_service s" "in_service (s\<lparr>started := rs\<rparr>) = in_service s"
  "in_service (s\<lparr>finished := rs\<rparr>) = in_service s" "in_service (s\<lparr>rejected := rs\<rparr>) = in_service s"
  by (simp_all add: in_service_def)

lemma in_service_entry:
  assumes "e \<notin> set (held s)"
  shows "in_service (s\<lparr>entry := (entry s)(e := r)\<rparr>) = in_service s"
proof -
  have "map ((entry s)(e := r)) (held_by (workers s i)) = map (entry s) (held_by (workers s i))"
    if "i < NUM_THREADS" for i using that assms by (auto simp: held_def)
  then show ?thesis unfolding in_service_def by (auto intro!: arg_cong[where f = concat])
qed

lemma wq_inv_init: "wq_inv init_queue"
proof -
  have "held init_queue = []" "in_service init_queue = []"
    by (auto simp: held_def in_service_def init_queue_def)
  then show ?thesis
    by (auto simp: wq_inv_def places_def open_master_def init_queue_def simp del: mset_upt)
qed

lemma wq_inv_distinct: "wq_inv s \<Longrightarrow> distinct (places s)"
  by (metis distinct_upt mset_eq_imp_distinct_iff wq_inv_def)

lemma thread_bound: "wq_inv s \<Longrightarrow> workers s i \<noteq> WDone \<Longrightarrow> i < NUM_THREADS"
  by (meson leI wq_inv_def)

lemma wq_inv_step:
  assumes "wq_step ends s t" "wq_inv s"
  shows "wq_inv t"
  using assms(1)
proof cases
  case (busy c fd)
  with assms(2) show ?thesis by (auto simp: wq_inv_def places_def)
next
  case (grab c e p fd)
  with assms(2) show ?thesis by (auto simp: wq_inv_def places_def open_master_def)
next
  case (enqueue e r)
  from wq_inv_distinct[OF assms(2)] enqueue have e: "e \<notin> set (held s)" "e \<notin> set (queue s)"
    by (auto simp: places_def)
  then have m: "map ((entry s)(e := r)) (queue s) = map (entry s) (queue s)" by simp
  from assms(2) enqueue have "\<forall>i < NUM_THREADS. workers s i \<noteq> WDone"
    by (auto simp: wq_inv_def open_master_def)
  with assms(2) enqueue m in_service_entry[OF e(1), of r] show ?thesis
    by (auto simp: wq_inv_def places_def open_master_def ac_simps)
next
  case (stop c)
  with assms(2) show ?thesis by (auto simp: wq_inv_def places_def open_master_def)
next
  case (take i e q)
  have i: "i < NUM_THREADS" by (rule thread_bound[OF assms(2)]) (simp add: take)
  from held_upd[OF i, of "s\<lparr>queue := q\<rparr>" "WTaken e"]
    in_service_upd[OF i, of "s\<lparr>queue := q\<rparr>" "WTaken e"] take
  have "mset (held t) = mset (held s) + {#e#}"
    "mset (in_service t) = mset (in_service s) + {#entry s e#}"
    by simp_all
  with assms(2) take show ?thesis by (auto simp: wq_inv_def places_def ac_simps)
next
  case (recycle i e)
  have i: "i < NUM_THREADS" by (rule thread_bound[OF assms(2)]) (simp add: recycle)
  from held_upd[OF i, of "s\<lparr>pool := e # pool s\<rparr>" "WBusy (entry s e)"]
    in_service_upd[OF i, of "s\<lparr>pool := e # pool s\<rparr>" "WBusy (entry s e)"] recycle
  have m: "mset (held s) = mset (held t) + {#e#}"
    "mset (in_service t) = mset (in_service s)"
    by simp_all
  with assms(2) recycle show ?thesis by (auto simp: wq_inv_def places_def ac_simps)
next
  case (serve i r)
  have i: "i < NUM_THREADS" by (rule thread_bound[OF assms(2)]) (simp add: serve)
  from held_upd[OF i, of s WIdle] in_service_upd[OF i, of s WIdle] serve
  have "mset (held t) = mset (held s)" "mset (in_service s) = mset (in_service t) + {#r#}"
    by simp_all
  with assms(2) serve show ?thesis by (auto simp: wq_inv_def places_def ac_simps)
next
  case (quit i)
  have i: "i < NUM_THREADS" by (rule thread_bound[OF assms(2)]) (simp add: quit)
  from held_upd[OF i, of s WDone] in_service_upd[OF i, of s WDone] quit
  have "mset (held t) = mset (held s)" "mset (in_service t) = mset (in_service s)"
    by simp_all
  with assms(2) quit show ?thesis by (auto simp: wq_inv_def places_def open_master_def)
next
  case join
  from join assms(2) have "workers s i = WDone" for i
    by (cases "i < NUM_THREADS") (auto simp: wq_inv_def)
  with join assms(2) show ?thesis by (auto simp: wq_inv_def places_def open_master_def)
qed

lemma reachable_inv: "reachable ends s \<Longrightarrow> wq_inv s"
  by (induction rule: reachable.induct) (auto intro: wq_inv_init wq_inv_step)

section \<open>Progress\<close>

text \<open>
  After the stop command the remaining work can be counted: every step from then on lowers the
  number, so the server comes to rest, and where no step is possible all threads have been joined.
\<close>

fun worker_work :: "worker \<Rightarrow> nat" where
  "worker_work WIdle = 1"
| "worker_work (WTaken e) = 3"
| "worker_work (WBusy r) = 2"
| "worker_work WDone = 0"

definition work_left :: "wstate \<Rightarrow> nat" where
  "work_left s = 3 * length (queue s) + (\<Sum>i<NUM_THREADS. worker_work (workers s i)) +
     (if master s = MJoined then 0 else 1)"

lemma sum_upd:
  fixes f :: "nat \<Rightarrow> nat"
  assumes "i < n"
  shows "(\<Sum>j<n. if j = i then x else f j) + f i = (\<Sum>j<n. f j) + x"
  using assms
proof (induction n)
  case (Suc n)
  show ?case
  proof (cases "i = n")
    case True
    then have "(\<Sum>j<n. if j = i then x else f j) = (\<Sum>j<n. f j)" by (intro sum.cong) auto
    with True show ?thesis by simp
  next
    case False
    with Suc show ?thesis by simp
  qed
qed simp

lemma worker_work_upd:
  assumes "i < NUM_THREADS"
  shows "(\<Sum>j<NUM_THREADS. worker_work (((workers s)(i := w)) j)) + worker_work (workers s i) =
    (\<Sum>j<NUM_THREADS. worker_work (workers s j)) + worker_work w"
proof -
  have "(\<Sum>j<NUM_THREADS. worker_work (((workers s)(i := w)) j)) =
      (\<Sum>j<NUM_THREADS. if j = i then worker_work w else worker_work (workers s j))"
    by (intro sum.cong) auto
  with sum_upd[OF assms, of "worker_work w" "\<lambda>j. worker_work (workers s j)"] show ?thesis by simp
qed

lemma closing_step:
  assumes "wq_step ends s t" "wq_inv s" "master s = MClosing"
  shows "work_left t < work_left s \<and> master t \<in> {MClosing, MJoined}"
  using assms(1)
proof cases
  case (take i e q)
  have i: "i < NUM_THREADS" by (rule thread_bound[OF assms(2)]) (simp add: take)
  from worker_work_upd[OF i, of s "WTaken e"] take assms(3) show ?thesis by (simp add: work_left_def)
next
  case (recycle i e)
  have i: "i < NUM_THREADS" by (rule thread_bound[OF assms(2)]) (simp add: recycle)
  from worker_work_upd[OF i, of s "WBusy (entry s e)"] recycle assms(3) show ?thesis
    by (simp add: work_left_def)
next
  case (serve i r)
  have i: "i < NUM_THREADS" by (rule thread_bound[OF assms(2)]) (simp add: serve)
  from worker_work_upd[OF i, of s WIdle] serve assms(3) show ?thesis by (simp add: work_left_def)
next
  case (quit i)
  have i: "i < NUM_THREADS" by (rule thread_bound[OF assms(2)]) (simp add: quit)
  from worker_work_upd[OF i, of s WDone] quit assms(3) show ?thesis by (simp add: work_left_def)
qed (use assms(3) in \<open>simp_all add: work_left_def\<close>)

text \<open>A thread is at rest when it has left, or its request does not end.\<close>

definition at_rest :: "(wstate \<Rightarrow> request \<Rightarrow> bool) \<Rightarrow> wstate \<Rightarrow> nat \<Rightarrow> bool" where
  "at_rest ends s i \<longleftrightarrow> (case workers s i of WDone \<Rightarrow> True | WBusy r \<Rightarrow> \<not> ends s r | _ \<Rightarrow> False)"

lemma closing_progress:
  assumes "wq_inv s" "master s = MClosing" "\<And>t. \<not> wq_step ends s t"
  shows "(\<forall>i < NUM_THREADS. at_rest ends s i) \<and> (\<exists>i < NUM_THREADS. workers s i \<noteq> WDone)"
proof
  have c: "\<not> cont s"
    using assms(1,2) by (simp add: wq_inv_def open_master_def)
  show "\<forall>i < NUM_THREADS. at_rest ends s i"
  proof (intro allI impI)
    fix i
    assume "i < NUM_THREADS"
    show "at_rest ends s i"
    proof (cases "workers s i")
      case WIdle
      with c assms(3) show ?thesis
        by (cases "queue s") (blast intro: wq_step.take wq_step.quit)+
    next
      case (WTaken e)
      with assms(3) show ?thesis
        by (blast intro: wq_step.recycle)
    next
      case (WBusy r)
      with assms(3) wq_step.serve[of s i r ends] show ?thesis
        by (auto simp: at_rest_def)
    qed (simp add: at_rest_def)
  qed
  show "\<exists>i < NUM_THREADS. workers s i \<noteq> WDone"
    using assms(2,3) by (blast intro: wq_step.join)
qed

lemma closing_rest:
  assumes "wq_inv s" "master s = MClosing" "\<And>t. \<not> wq_step ends s t"
  shows "(\<exists>i < NUM_THREADS. \<exists>r. workers s i = WBusy r \<and> \<not> ends s r) \<and> (\<forall>i < NUM_THREADS. at_rest ends s i)"
proof -
  from closing_progress[OF assms] obtain i where i: "i < NUM_THREADS" "workers s i \<noteq> WDone" "at_rest ends s i"
    by blast
  from i(2,3) have "\<exists>r. workers s i = WBusy r \<and> \<not> ends s r"
    by (auto simp: at_rest_def split: worker.splits)
  with i(1) closing_progress[OF assms] show ?thesis
    by blast
qed

inductive_cases wq_step_joined: "wq_step ends s t"

text \<open>A run: the states one after the other.\<close>

fun wq_run :: "(wstate \<Rightarrow> request \<Rightarrow> bool) \<Rightarrow> wstate \<Rightarrow> wstate list \<Rightarrow> bool" where
  "wq_run ends s [] \<longleftrightarrow> True"
| "wq_run ends s (t # ts) \<longleftrightarrow> wq_step ends s t \<and> wq_run ends t ts"

lemma joined_stuck:
  assumes "wq_inv s" "master s = MJoined"
  shows "\<not> wq_step ends s t"
proof
  assume "wq_step ends s t"
  then show False using assms by cases (auto simp: wq_inv_def)
qed

lemma closing_run_bound:
  assumes "wq_inv s" "master s \<in> {MClosing, MJoined}" "wq_run ends s ts"
  shows "length ts \<le> work_left s"
  using assms
proof (induction ts arbitrary: s)
  case (Cons t ts)
  then have st: "wq_step ends s t" "wq_run ends t ts" by auto
  with Cons.prems have m: "master s = MClosing" using joined_stuck by blast
  from closing_step[OF st(1) Cons.prems(1) m] Cons.IH[OF wq_inv_step[OF st(1) Cons.prems(1)] _ st(2)]
  show ?case by simp
qed simp

section \<open>Consequences\<close>

lemma length_held: "length (held s) \<le> NUM_THREADS"
proof -
  have "length (concat (map (\<lambda>i. held_by (f i)) [0..<n])) \<le> n" for n and f :: "nat \<Rightarrow> worker"
  proof (induction n)
    case (Suc n)
    have "length (held_by w) \<le> 1" for w by (cases w) auto
    from Suc this[of "f n"] show ?case by simp
  qed simp
  then show ?thesis by (simp add: held_def)
qed

lemma wq_inv_length: "wq_inv s \<Longrightarrow> length (places s) = WQ_LENGTH"
  by (metis diff_zero length_upt size_mset wq_inv_def)

lemma joined_empty:
  assumes "wq_inv s" "master s = MJoined"
  shows "queue s = []" "held s = []" "in_service s = []"
proof -
  from assms have d: "workers s i = WDone" for i by (simp add: wq_inv_def)
  then have "workers s 0 = WDone" "0 < NUM_THREADS" by (auto simp: NUM_THREADS_def)
  with assms(1) show "queue s = []" unfolding wq_inv_def by blast
  show "held s = []" "in_service s = []" using d by (simp_all add: held_def in_service_def)
qed

lemma run_last:
  "wq_run ends s ts \<Longrightarrow> wq_inv s \<Longrightarrow> master s \<in> {MClosing, MJoined} \<Longrightarrow>
     wq_inv (last (s # ts)) \<and> master (last (s # ts)) \<in> {MClosing, MJoined}"
proof (induction ts arbitrary: s)
  case (Cons t ts)
  then have st: "wq_step ends s t" "wq_run ends t ts" by auto
  with Cons.prems have "master s = MClosing" using joined_stuck by blast
  from closing_step[OF st(1) Cons.prems(2) this] Cons.IH[OF st(2) wq_inv_step[OF st(1) Cons.prems(2)]]
  show ?case by auto
qed simp

section \<open>A run\<close>

text \<open>One request is accepted, queued, served and finished; then the server is stopped.\<close>

definition ex_q1 :: wstate where
  "ex_q1 = init_queue\<lparr>pool := tl (pool init_queue), master := MHave 127 (0, 5)\<rparr>"
definition ex_q2 :: wstate where
  "ex_q2 = ex_q1\<lparr>entry := (entry ex_q1)(127 := (0, 5)), queue := queue ex_q1 @ [127], master := MAccept,
     queued := queued ex_q1 @ [(0, 5)]\<rparr>"
definition ex_q3 :: wstate where
  "ex_q3 = ex_q2\<lparr>queue := [], workers := (workers ex_q2)(0 := WTaken 127),
     started := started ex_q2 @ [entry ex_q2 127]\<rparr>"
definition ex_q4 :: wstate where
  "ex_q4 = ex_q3\<lparr>pool := 127 # pool ex_q3, workers := (workers ex_q3)(0 := WBusy (entry ex_q3 127))\<rparr>"
definition ex_q5 :: wstate where
  "ex_q5 = ex_q4\<lparr>workers := (workers ex_q4)(0 := WIdle), finished := finished ex_q4 @ [(0, 5)]\<rparr>"
definition ex_q6 :: wstate where
  "ex_q6 = ex_q5\<lparr>master := MClosing, cont := False\<rparr>"
definition ex_q7 :: wstate where
  "ex_q7 = ex_q6\<lparr>workers := (workers ex_q6)(0 := WDone)\<rparr>"
definition ex_q8 :: wstate where
  "ex_q8 = ex_q7\<lparr>workers := (workers ex_q7)(1 := WDone)\<rparr>"
definition ex_q9 :: wstate where
  "ex_q9 = ex_q8\<lparr>workers := (workers ex_q8)(2 := WDone)\<rparr>"
definition ex_q10 :: wstate where
  "ex_q10 = ex_q9\<lparr>workers := (workers ex_q9)(3 := WDone)\<rparr>"
definition ex_q11 :: wstate where
  "ex_q11 = ex_q10\<lparr>master := MJoined\<rparr>"

lemmas ex_q_defs = ex_q1_def ex_q2_def ex_q3_def ex_q4_def ex_q5_def ex_q6_def ex_q7_def ex_q8_def
  ex_q9_def ex_q10_def ex_q11_def init_queue_def NUM_THREADS_def

lemma stop_com_codes: "stop_com 12" "\<not> stop_com 0"
  by (simp_all add: stop_com_def com_of_def ins_coms_def)

lemma ex_pool: "pool init_queue = 127 # tl (pool init_queue)"
proof -
  have n: "Suc 127 = (128 :: nat)" by simp
  have "[0..<128] = [0..<127] @ [127]" using upt_Suc_append[of 0 127] unfolding n by simp
  then show ?thesis by (simp only: init_queue_def WQ_LENGTH_def wstate.select_convs) simp
qed

lemma ex_reach2: "reachable ends ex_q1" "reachable ends ex_q2" "reachable ends ex_q3"
proof -
  show 1: "reachable ends ex_q1"
    by (rule reachable.step[OF reachable.start]) (unfold ex_q1_def,
      rule grab[OF _ stop_com_codes(2) ex_pool], simp add: init_queue_def)
  show 2: "reachable ends ex_q2"
    by (rule reachable.step[OF 1]) (unfold ex_q2_def, rule enqueue, simp add: ex_q1_def)
  show "reachable ends ex_q3"
    by (rule reachable.step[OF 2]) (unfold ex_q3_def, rule wq_step.take; simp add: ex_q_defs)
qed

abbreviation always :: "wstate \<Rightarrow> request \<Rightarrow> bool" where
  "always \<equiv> \<lambda>s r. True"

lemma ex_reach6: "reachable always ex_q4" "reachable always ex_q5" "reachable always ex_q6"
proof -
  show 4: "reachable always ex_q4"
    by (rule reachable.step[OF ex_reach2(3)]) (unfold ex_q4_def, rule recycle, simp add: ex_q_defs)
  show 5: "reachable always ex_q5"
    by (rule reachable.step[OF 4]) (unfold ex_q5_def, rule serve, simp add: ex_q_defs, simp)
  show "reachable always ex_q6"
    by (rule reachable.step[OF 5]) (unfold ex_q6_def, rule stop[OF _ stop_com_codes(1)], simp add: ex_q_defs)
qed

text \<open>The fields that the threads look at when they end.\<close>

lemma ex_at_6: "master ex_q6 = MClosing" "queue ex_q6 = []" "workers ex_q6 = (\<lambda>i. if i < 4 then WIdle else WDone)" "\<not> cont ex_q6"
  by (simp_all add: ex_q_defs fun_eq_iff)

lemma ex_end:
  "master ex_q7 = MClosing" "queue ex_q7 = []" "workers ex_q7 = (\<lambda>i. if 0 < i \<and> i < 4 then WIdle else WDone)" "\<not> cont ex_q7"
  "master ex_q8 = MClosing" "queue ex_q8 = []" "workers ex_q8 = (\<lambda>i. if 1 < i \<and> i < 4 then WIdle else WDone)" "\<not> cont ex_q8"
  "master ex_q9 = MClosing" "queue ex_q9 = []" "workers ex_q9 = (\<lambda>i. if 2 < i \<and> i < 4 then WIdle else WDone)" "\<not> cont ex_q9"
  "master ex_q10 = MClosing" "queue ex_q10 = []" "workers ex_q10 = (\<lambda>i. WDone)" "\<not> cont ex_q10"
  by (auto simp: ex_at_6 ex_q7_def ex_q8_def ex_q9_def ex_q10_def fun_eq_iff)

lemma ex_run: "wq_run ends ex_q6 [ex_q7, ex_q8, ex_q9, ex_q10, ex_q11]"
proof -
  have "wq_step ends ex_q6 ex_q7" by (unfold ex_q7_def, rule quit; simp add: ex_at_6 NUM_THREADS_def)
  moreover have "wq_step ends ex_q7 ex_q8" by (unfold ex_q8_def, rule quit; simp add: ex_end NUM_THREADS_def)
  moreover have "wq_step ends ex_q8 ex_q9" by (unfold ex_q9_def, rule quit; simp add: ex_end NUM_THREADS_def)
  moreover have "wq_step ends ex_q9 ex_q10" by (unfold ex_q10_def, rule quit; simp add: ex_end NUM_THREADS_def)
  moreover have "wq_step ends ex_q10 ex_q11" unfolding ex_q11_def by (intro join) (simp_all add: ex_end)
  ultimately show ?thesis by simp
qed

lemma reachable_run: "wq_run ends s ts \<Longrightarrow> reachable ends s \<Longrightarrow> reachable ends (last (s # ts))"
proof (induction ts arbitrary: s)
  case (Cons t ts)
  from Cons.prems have "reachable ends t" by (auto intro: reachable.step)
  with Cons.IH[of t] Cons.prems(1) show ?case by simp
qed simp

lemma ex_reach11: "reachable always ex_q11"
  using reachable_run[OF ex_run ex_reach6(3)] by simp

text \<open>A server whose pool is exhausted can be reached.\<close>

lemma ex_fill: "n \<le> WQ_LENGTH \<Longrightarrow> \<exists>s. reachable ends s \<and> master s = MAccept \<and> length (pool s) = WQ_LENGTH - n"
proof (induction n)
  case 0
  show ?case by (intro exI[of _ init_queue] conjI reachable.start) (simp_all add: init_queue_def)
next
  case (Suc n)
  then obtain s where s: "reachable ends s" "master s = MAccept" "length (pool s) = WQ_LENGTH - n" by auto
  with Suc.prems obtain e p where p: "pool s = e # p" by (cases "pool s") auto
  let ?t = "s\<lparr>pool := p, master := MHave e (0, 5)\<rparr>"
  have "reachable ends ?t" by (rule reachable.step[OF s(1) grab[OF s(2) stop_com_codes(2) p]])
  from reachable.step[OF this enqueue[of ?t e "(0, 5)"]] s(3) p Suc.prems show ?case
    by (intro exI[of _ "?t\<lparr>entry := (entry ?t)(e := (0, 5)), queue := queue ?t @ [e], master := MAccept,
      queued := queued ?t @ [(0, 5)]\<rparr>"]) auto
qed

end
