(* ===== verification/Uthash_Heap.thy ===== *)
theory Uthash_Heap
  imports Uthash
begin

text \<open>
  The hash table of \<^verbatim>\<open>uthash.h\<close> as its macros build it: hash handles inside the elements,
  linked in the order of addition and in the chain of their bucket, and a table that doubles its buckets.
  The element and its handle are identified (\<^verbatim>\<open>ELMT_FROM_HH\<close>, \<^verbatim>\<open>HH_FROM_ELMT\<close>), the
  bytes behind \<^verbatim>\<open>key\<close> are kept in the handle, and the memory that \<^verbatim>\<open>malloc\<close> can
  still give to the buckets of a table is a number: a failure is \<^verbatim>\<open>exit(-1)\<close>, here a fault. The
  table is built as the servers build it, without Bloom filter, debug checks and key emission.
\<close>

section \<open>State\<close>

record handle =
  h_prev :: addr
  h_next :: addr
  hh_prev :: addr
  hh_next :: addr
  hkey :: "u8 list"
  hashv :: u32

record bucket =
  hh_head :: addr
  bcount :: u32
  expand_mult :: u32

record uh_table =
  buckets :: "bucket list"
  num_buckets :: u32
  log2_num_buckets :: u32
  num_items :: u32
  uh_tail :: addr
  ideal_chain_maxlen :: u32
  nonideal_items :: u32
  ineff_expands :: u32
  noexpand :: u32

text \<open>The variable \<open>head\<close>, the table it leads to, the handles, and the largest number of buckets there is memory for.\<close>

record uthash =
  uh_head :: addr
  tbl :: "uh_table option"
  hhs :: "addr \<Rightarrow> handle option"
  room :: nat

definition upd_hh :: "addr \<Rightarrow> (handle \<Rightarrow> handle) \<Rightarrow> uthash \<Rightarrow> uthash option" where
  "upd_hh a f t = (case hhs t a of None \<Rightarrow> None | Some e \<Rightarrow> Some (t\<lparr>hhs := (hhs t)(a \<mapsto> f e)\<rparr>))"

definition nth_bkt :: "bucket list \<Rightarrow> u32 \<Rightarrow> bucket option" where
  "nth_bkt bs i = (if unat i < length bs then Some (bs ! unat i) else None)"

section \<open>Hashing\<close>

definition HASH_INITIAL_NUM_BUCKETS :: u32 where "HASH_INITIAL_NUM_BUCKETS = 32"
definition HASH_INITIAL_NUM_BUCKETS_LOG2 :: u32 where "HASH_INITIAL_NUM_BUCKETS_LOG2 = 5"
definition HASH_BKT_CAPACITY_THRESH :: u32 where "HASH_BKT_CAPACITY_THRESH = 10"

definition to_bkt :: "u32 \<Rightarrow> u32 \<Rightarrow> u32" where
  "to_bkt hv n = hv AND (n - 1)"

definition jen_mix :: "u32 \<times> u32 \<times> u32 \<Rightarrow> u32 \<times> u32 \<times> u32" where
  "jen_mix = (\<lambda>(a, b, c).
     let a = a - b; a = a - c; a = a XOR drop_bit 13 c;
         b = b - c; b = b - a; b = b XOR push_bit 8 a;
         c = c - a; c = c - b; c = c XOR drop_bit 13 b;
         a = a - b; a = a - c; a = a XOR drop_bit 12 c;
         b = b - c; b = b - a; b = b XOR push_bit 16 a;
         c = c - a; c = c - b; c = c XOR drop_bit 5 b;
         a = a - b; a = a - c; a = a XOR drop_bit 3 c;
         b = b - c; b = b - a; b = b XOR push_bit 10 a;
         c = c - a; c = c - b; c = c XOR drop_bit 15 b
     in (a, b, c))"

text \<open>Byte \<open>n\<close> of the key, shifted.\<close>

definition kb :: "u8 list \<Rightarrow> nat \<Rightarrow> nat \<Rightarrow> u32" where
  "kb ks n s = push_bit s (ucast (ks ! n))"

function jen_loop :: "u8 list \<Rightarrow> u32 \<times> u32 \<times> u32 \<Rightarrow> u8 list \<times> u32 \<times> u32 \<times> u32" where
  "jen_loop ks (i, j, hv) =
     (if 12 \<le> length ks then
        jen_loop (drop 12 ks) (jen_mix (
          i + (kb ks 0 0 + kb ks 1 8 + kb ks 2 16 + kb ks 3 24),
          j + (kb ks 4 0 + kb ks 5 8 + kb ks 6 16 + kb ks 7 24),
          hv + (kb ks 8 0 + kb ks 9 8 + kb ks 10 16 + kb ks 11 24)))
      else (ks, i, j, hv))"
  by pat_completeness auto
termination by (relation "measure (length \<circ> fst)") auto

text \<open>A case of the \<^verbatim>\<open>switch\<close> that is reached, by itself or from above.\<close>

definition jen_case :: "u8 list \<Rightarrow> nat \<Rightarrow> nat \<Rightarrow> u32 \<Rightarrow> u32" where
  "jen_case ks n s x = (if n \<le> length ks then x + kb ks (n - 1) s else x)"

definition hash_jen :: "u8 list \<Rightarrow> u32" where
  "hash_jen key = (
     let (ks, i, j, hv) = jen_loop key (0x9e3779b9, 0x9e3779b9, 0xfeedbeef);
         hv = hv + of_nat (length key);
         hv = jen_case ks 9 8 (jen_case ks 10 16 (jen_case ks 11 24 hv));
         j = jen_case ks 5 0 (jen_case ks 6 8 (jen_case ks 7 16 (jen_case ks 8 24 j)));
         i = jen_case ks 1 0 (jen_case ks 2 8 (jen_case ks 3 16 (jen_case ks 4 24 i)));
         (i, j, hv) = jen_mix (i, j, hv)
     in hv)"

section \<open>Finding\<close>

partial_function (option) find_in_chain :: "u8 list \<Rightarrow> u32 \<Rightarrow> addr \<Rightarrow> uthash \<Rightarrow> addr option" where
  "find_in_chain k hv out t =
     (if out = NULL then Some NULL
      else do {
        e \<leftarrow> hhs t out;
        (if hashv e = hv \<and> length (hkey e) = length k \<and> hkey e = k then Some out
         else find_in_chain k hv (hh_next e) t) })"

declare find_in_chain.simps [code]

definition find_byhashvalue :: "u8 list \<Rightarrow> u32 \<Rightarrow> uthash \<Rightarrow> addr option" where
  "find_byhashvalue k hv t =
     (if uh_head t = NULL then Some NULL
      else do {
        tb \<leftarrow> tbl t;
        b \<leftarrow> nth_bkt (buckets tb) (to_bkt hv (num_buckets tb));
        find_in_chain k hv (hh_head b) t })"

definition HASH_FIND :: "u8 list \<Rightarrow> uthash \<Rightarrow> addr option" where
  "HASH_FIND k t = find_byhashvalue k (hash_jen k) t"

section \<open>Expanding\<close>

text \<open>One handle goes to the front of its chain in the new buckets.\<close>

definition move_one :: "addr \<Rightarrow> bucket list \<Rightarrow> uh_table \<Rightarrow> uthash \<Rightarrow> (bucket list \<times> uh_table \<times> uthash) option" where
  "move_one a nbs tb t = do {
     e \<leftarrow> hhs t a;
     let j = to_bkt (hashv e) (num_buckets tb * 2);
     nb \<leftarrow> nth_bkt nbs j;
     let nb = nb\<lparr>bcount := bcount nb + 1\<rparr>;
     (nb, tb) \<leftarrow> (if bcount nb > ideal_chain_maxlen tb then do {
           ensure (ideal_chain_maxlen tb \<noteq> 0);
           Some (nb\<lparr>expand_mult := bcount nb div ideal_chain_maxlen tb\<rparr>,
                 tb\<lparr>nonideal_items := nonideal_items tb + 1\<rparr>) }
         else Some (nb, tb));
     t \<leftarrow> upd_hh a (\<lambda>e. e\<lparr>hh_prev := NULL, hh_next := hh_head nb\<rparr>) t;
     t \<leftarrow> (if hh_head nb \<noteq> NULL then upd_hh (hh_head nb) (\<lambda>e. e\<lparr>hh_prev := a\<rparr>) t else Some t);
     Some (nbs[unat j := nb\<lparr>hh_head := a\<rparr>], tb, t) }"

partial_function (option) move_chain ::
  "addr \<Rightarrow> bucket list \<Rightarrow> uh_table \<Rightarrow> uthash \<Rightarrow> (bucket list \<times> uh_table \<times> uthash) option" where
  "move_chain a nbs tb t =
     (if a = NULL then Some (nbs, tb, t)
      else do {
        e \<leftarrow> hhs t a;
        (nbs, tb, t) \<leftarrow> move_one a nbs tb t;
        move_chain (hh_next e) nbs tb t })"

declare move_chain.simps [code]

fun move_all :: "bucket list \<Rightarrow> bucket list \<Rightarrow> uh_table \<Rightarrow> uthash \<Rightarrow> (bucket list \<times> uh_table \<times> uthash) option" where
  "move_all [] nbs tb t = Some (nbs, tb, t)"
| "move_all (b # bs) nbs tb t = do {
     (nbs, tb, t) \<leftarrow> move_chain (hh_head b) nbs tb t;
     move_all bs nbs tb t }"

definition empty_bkt :: bucket where
  "empty_bkt = \<lparr>hh_head = NULL, bcount = 0, expand_mult = 0\<rparr>"

definition expand_buckets :: "uthash \<Rightarrow> uthash option" where
  "expand_buckets t = do {
     tb \<leftarrow> tbl t;
     ensure (2 * unat (num_buckets tb) \<le> room t);
     let nbs = replicate (2 * unat (num_buckets tb)) empty_bkt;
     let tb = tb\<lparr>ideal_chain_maxlen := drop_bit (unat (log2_num_buckets tb + 1)) (num_items tb) +
           (if num_items tb AND (num_buckets tb * 2 - 1) \<noteq> 0 then 1 else 0),
         nonideal_items := 0\<rparr>;
     (nbs, tb, t) \<leftarrow> move_all (buckets tb) nbs tb t;
     let tb = tb\<lparr>num_buckets := num_buckets tb * 2, log2_num_buckets := log2_num_buckets tb + 1, buckets := nbs,
         ineff_expands := (if nonideal_items tb > drop_bit 1 (num_items tb) then ineff_expands tb + 1 else 0)\<rparr>;
     let tb = (if ineff_expands tb > 1 then tb\<lparr>noexpand := 1\<rparr> else tb);
     Some (t\<lparr>tbl := Some tb\<rparr>) }"

section \<open>Adding\<close>

definition make_table :: "addr \<Rightarrow> uthash \<Rightarrow> uthash option" where
  "make_table a t = do {
     ensure (unat HASH_INITIAL_NUM_BUCKETS \<le> room t);
     Some (t\<lparr>tbl := Some \<lparr>buckets = replicate (unat HASH_INITIAL_NUM_BUCKETS) empty_bkt,
       num_buckets = HASH_INITIAL_NUM_BUCKETS, log2_num_buckets = HASH_INITIAL_NUM_BUCKETS_LOG2, num_items = 0,
       uh_tail = a, ideal_chain_maxlen = 0, nonideal_items = 0, ineff_expands = 0, noexpand = 0\<rparr>\<rparr>) }"

definition append_list :: "addr \<Rightarrow> uthash \<Rightarrow> uthash option" where
  "append_list a t = do {
     tb \<leftarrow> tbl t;
     t \<leftarrow> upd_hh a (\<lambda>e. e\<lparr>h_next := NULL, h_prev := uh_tail tb\<rparr>) t;
     t \<leftarrow> upd_hh (uh_tail tb) (\<lambda>e. e\<lparr>h_next := a\<rparr>) t;
     Some (t\<lparr>tbl := Some (tb\<lparr>uh_tail := a\<rparr>)\<rparr>) }"

definition add_to_bkt :: "u32 \<Rightarrow> addr \<Rightarrow> uthash \<Rightarrow> uthash option" where
  "add_to_bkt i a t = do {
     tb \<leftarrow> tbl t;
     b \<leftarrow> nth_bkt (buckets tb) i;
     let b = b\<lparr>bcount := bcount b + 1\<rparr>;
     t \<leftarrow> upd_hh a (\<lambda>e. e\<lparr>hh_prev := NULL, hh_next := hh_head b\<rparr>) t;
     t \<leftarrow> (if hh_head b \<noteq> NULL then upd_hh (hh_head b) (\<lambda>e. e\<lparr>hh_prev := a\<rparr>) t else Some t);
     let b = b\<lparr>hh_head := a\<rparr>;
     let t = t\<lparr>tbl := Some (tb\<lparr>buckets := (buckets tb)[unat i := b]\<rparr>)\<rparr>;
     (if bcount b \<ge> (expand_mult b + 1) * HASH_BKT_CAPACITY_THRESH \<and> noexpand tb = 0
      then expand_buckets t else Some t) }"

definition add_to_table :: "u32 \<Rightarrow> addr \<Rightarrow> uthash \<Rightarrow> uthash option" where
  "add_to_table hv a t = do {
     tb \<leftarrow> tbl t;
     let tb = tb\<lparr>num_items := num_items tb + 1\<rparr>;
     add_to_bkt (to_bkt hv (num_buckets tb)) a (t\<lparr>tbl := Some tb\<rparr>) }"

definition add_keyptr_byhashvalue :: "u8 list \<Rightarrow> u32 \<Rightarrow> addr \<Rightarrow> uthash \<Rightarrow> uthash option" where
  "add_keyptr_byhashvalue k hv a t = do {
     t \<leftarrow> upd_hh a (\<lambda>e. e\<lparr>hashv := hv, hkey := k\<rparr>) t;
     t \<leftarrow> (if uh_head t = NULL then do {
            t \<leftarrow> upd_hh a (\<lambda>e. e\<lparr>h_next := NULL, h_prev := NULL\<rparr>) t;
            t \<leftarrow> make_table a t;
            Some (t\<lparr>uh_head := a\<rparr>) }
          else append_list a t);
     add_to_table hv a t }"

definition HASH_ADD :: "u8 list \<Rightarrow> addr \<Rightarrow> uthash \<Rightarrow> uthash option" where
  "HASH_ADD k a t = add_keyptr_byhashvalue k (hash_jen k) a t"

section \<open>Deleting\<close>

definition del_in_bkt :: "u32 \<Rightarrow> addr \<Rightarrow> uthash \<Rightarrow> uthash option" where
  "del_in_bkt i d t = do {
     tb \<leftarrow> tbl t;
     b \<leftarrow> nth_bkt (buckets tb) i;
     e \<leftarrow> hhs t d;
     let b = b\<lparr>bcount := bcount b - 1\<rparr>;
     let b = (if hh_head b = d then b\<lparr>hh_head := hh_next e\<rparr> else b);
     t \<leftarrow> (if hh_prev e \<noteq> NULL then upd_hh (hh_prev e) (\<lambda>x. x\<lparr>hh_next := hh_next e\<rparr>) t else Some t);
     t \<leftarrow> (if hh_next e \<noteq> NULL then upd_hh (hh_next e) (\<lambda>x. x\<lparr>hh_prev := hh_prev e\<rparr>) t else Some t);
     Some (t\<lparr>tbl := Some (tb\<lparr>buckets := (buckets tb)[unat i := b]\<rparr>)\<rparr>) }"

definition HASH_DELETE :: "addr \<Rightarrow> uthash \<Rightarrow> uthash option" where
  "HASH_DELETE d t = do {
     e \<leftarrow> hhs t d;
     (if h_prev e = NULL \<and> h_next e = NULL then do {
        ensure (uh_head t \<noteq> NULL);
        Some (t\<lparr>uh_head := NULL, tbl := None\<rparr>) }
      else do {
        tb \<leftarrow> tbl t;
        let tb = (if d = uh_tail tb then tb\<lparr>uh_tail := h_prev e\<rparr> else tb);
        t \<leftarrow> (if h_prev e \<noteq> NULL then upd_hh (h_prev e) (\<lambda>x. x\<lparr>h_next := h_next e\<rparr>) t
             else Some (t\<lparr>uh_head := h_next e\<rparr>));
        t \<leftarrow> (if h_next e \<noteq> NULL then upd_hh (h_next e) (\<lambda>x. x\<lparr>h_prev := h_prev e\<rparr>) t else Some t);
        t \<leftarrow> del_in_bkt (to_bkt (hashv e) (num_buckets tb)) d (t\<lparr>tbl := Some tb\<rparr>);
        tb \<leftarrow> tbl t;
        Some (t\<lparr>tbl := Some (tb\<lparr>num_items := num_items tb - 1\<rparr>)\<rparr>) }) }"

section \<open>Iterating and counting\<close>

text \<open>The elements that \<^verbatim>\<open>HASH_ITER\<close> runs through.\<close>

partial_function (option) iter_from :: "addr \<Rightarrow> uthash \<Rightarrow> addr list option" where
  "iter_from el t =
     (if el = NULL then Some []
      else do { e \<leftarrow> hhs t el; xs \<leftarrow> iter_from (h_next e) t; Some (el # xs) })"

declare iter_from.simps [code]

definition HASH_ITER :: "uthash \<Rightarrow> addr list option" where
  "HASH_ITER t = iter_from (uh_head t) t"

definition HASH_COUNT :: "uthash \<Rightarrow> u32 option" where
  "HASH_COUNT t = (if uh_head t = NULL then Some 0 else map_option num_items (tbl t))"

end
