(* ===== verification/Uthash_Correct.thy ===== *)
theory Uthash_Correct
  imports Uthash_Heap
begin

text \<open>
  The hash table keeps the contract of \<open>Uthash\<close>: the elements in the order of addition, each in the chain
  of its bucket, found by its key, before and after the table has been expanded.
\<close>

section \<open>Linked lists\<close>

text \<open>A list linked by a map from the elements to their two neighbours.\<close>

fun linked :: "(addr \<Rightarrow> (addr \<times> addr) option) \<Rightarrow> addr \<Rightarrow> addr list \<Rightarrow> addr \<Rightarrow> bool" where
  "linked L p [] q \<longleftrightarrow> True"
| "linked L p (a # xs) q \<longleftrightarrow> a \<noteq> NULL \<and> L a = Some (p, first xs q) \<and> linked L a xs q"

lemma linked_append: "linked L p (xs @ ys) q \<longleftrightarrow> linked L p xs (first ys q) \<and> linked L (final p xs) ys q"
  by (induction xs arbitrary: p) (auto simp: first_append)

lemma linked_cong: "(\<And>a. a \<in> set xs \<Longrightarrow> L' a = L a) \<Longrightarrow> linked L' p xs q = linked L p xs q"
  by (induction xs arbitrary: p) auto

lemma linked_upd [simp]: "a \<notin> set xs \<Longrightarrow> linked (L(a := x)) p xs q = linked L p xs q"
  by (rule linked_cong) auto

lemma linked_not_NULL: "linked L p xs q \<Longrightarrow> NULL \<notin> set xs"
  by (induction xs arbitrary: p) auto

lemma linked_in: "linked L p xs q \<Longrightarrow> a \<in> set xs \<Longrightarrow> \<exists>x. L a = Some x"
  by (induction xs arbitrary: p) auto

lemma first_NULL: "NULL \<notin> set xs \<Longrightarrow> first xs NULL = NULL \<longleftrightarrow> xs = []"
  by (cases xs) auto

lemma final_NULL: "NULL \<notin> set xs \<Longrightarrow> final NULL xs = NULL \<longleftrightarrow> xs = []"
  by (cases xs rule: rev_cases) auto

text \<open>Pushing in front of a chain.\<close>

lemma linked_push:
  assumes "linked L NULL c NULL" "a \<notin> set c" "a \<noteq> NULL" "distinct c"
    and "L' a = Some (NULL, first c NULL)" "c \<noteq> [] \<Longrightarrow> L' (first c NULL) = Some (a, snd (the (L (first c NULL))))"
    and "\<And>b. b \<in> set c \<Longrightarrow> b \<noteq> first c NULL \<Longrightarrow> L' b = L b"
  shows "linked L' NULL (a # c) NULL"
proof (cases c)
  case (Cons b d)
  then have "linked L' b d NULL = linked L b d NULL" using assms(4,7) by (intro linked_cong) auto
  with Cons assms show ?thesis by auto
qed (use assms in simp)

text \<open>Appending at the tail.\<close>

lemma linked_snoc:
  assumes "linked L NULL xs NULL" "a \<notin> set xs" "a \<noteq> NULL" "distinct xs" "xs \<noteq> []"
    and "L' a = Some (last xs, NULL)" "L' (last xs) = Some (fst (the (L (last xs))), a)"
    and "\<And>b. b \<in> set xs \<Longrightarrow> b \<noteq> last xs \<Longrightarrow> L' b = L b"
  shows "linked L' NULL (xs @ [a]) NULL"
proof -
  obtain ys l where x: "xs = ys @ [l]" using assms(5) by (cases xs rule: rev_cases) auto
  have "linked L' NULL ys l = linked L NULL ys l" using assms(4,8) x by (intro linked_cong) auto
  with assms x show ?thesis by (auto simp: linked_append)
qed

text \<open>Unlinking an element.\<close>

lemma linked_remove:
  assumes "linked L NULL (xs @ a # ys) NULL" "distinct (xs @ a # ys)"
    and "xs \<noteq> [] \<Longrightarrow> L' (last xs) = Some (fst (the (L (last xs))), first ys NULL)"
    and "ys \<noteq> [] \<Longrightarrow> L' (first ys NULL) = Some (final NULL xs, snd (the (L (first ys NULL))))"
    and "\<And>b. b \<in> set (xs @ ys) \<Longrightarrow> xs \<noteq> [] \<longrightarrow> b \<noteq> last xs \<Longrightarrow> b \<noteq> first ys NULL \<Longrightarrow> L' b = L b"
  shows "linked L' NULL (xs @ ys) NULL"
proof -
  have L: "linked L NULL xs a" "linked L a ys NULL" "a \<noteq> NULL" using assms(1) by (auto simp: linked_append)
  have nn: "NULL \<notin> set (xs @ ys)" using linked_not_NULL[OF assms(1)] by auto
  have "linked L' NULL xs (first ys NULL)"
  proof (cases xs rule: rev_cases)
    case (snoc us l)
    have "first ys NULL \<notin> set us" using assms(2) nn by (cases ys) (auto simp: snoc)
    then have "linked L' NULL us l = linked L NULL us l"
      using assms(2,5) by (intro linked_cong) (auto simp: snoc)
    with L(1) assms(3) snoc nn show ?thesis by (auto simp: linked_append)
  qed simp
  moreover have "linked L' (final NULL xs) ys NULL"
  proof (cases ys)
    case (Cons y vs)
    have "\<And>b. b \<in> set vs \<Longrightarrow> xs \<noteq> [] \<longrightarrow> b \<noteq> last xs"
      using assms(2) Cons by (fastforce dest: last_in_set)
    then have "linked L' y vs NULL = linked L y vs NULL"
      using assms(2,5) Cons by (intro linked_cong) auto
    with L(2) assms(4) Cons nn show ?thesis by auto
  qed simp
  ultimately show ?thesis by (simp add: linked_append)
qed

section \<open>A well formed table\<close>

definition app :: "uthash \<Rightarrow> addr \<Rightarrow> (addr \<times> addr) option" where
  "app t a = map_option (\<lambda>e. (h_prev e, h_next e)) (hhs t a)"

definition chn :: "uthash \<Rightarrow> addr \<Rightarrow> (addr \<times> addr) option" where
  "chn t a = map_option (\<lambda>e. (hh_prev e, hh_next e)) (hhs t a)"

definition hkv :: "uthash \<Rightarrow> addr \<Rightarrow> (u8 list \<times> u32) option" where
  "hkv t a = map_option (\<lambda>e. (hkey e, hashv e)) (hhs t a)"

text \<open>The bucket of an element, in a table of \<open>n\<close> buckets.\<close>

definition slot_of :: "uthash \<Rightarrow> u32 \<Rightarrow> addr \<Rightarrow> nat" where
  "slot_of t n a = unat (to_bkt (snd (the (hkv t a))) n)"

text \<open>The buckets \<open>bs\<close> hold the elements \<open>X\<close>; \<open>ch\<close> are their chains.\<close>

definition chained :: "uthash \<Rightarrow> u32 \<Rightarrow> bucket list \<Rightarrow> (nat \<Rightarrow> addr list) \<Rightarrow> addr set \<Rightarrow> bool" where
  "chained t n bs ch X \<longleftrightarrow> (\<forall>i < length bs. linked (chn t) NULL (ch i) NULL \<and> distinct (ch i) \<and>
     set (ch i) = {a \<in> X. slot_of t n a = i} \<and> hh_head (bs ! i) = first (ch i) NULL \<and>
     bcount (bs ! i) = of_nat (length (ch i)))"

definition sized :: "u32 \<Rightarrow> u32 \<Rightarrow> nat \<Rightarrow> bool" where
  "sized n l k \<longleftrightarrow> unat n = 2 ^ unat l \<and> 0 < unat l \<and> unat l < 32 \<and> k = unat n"

definition table_of :: "uthash \<Rightarrow> uh_table \<Rightarrow> addr list \<Rightarrow> bool" where
  "table_of t tb xs \<longleftrightarrow> linked (app t) NULL xs NULL \<and> uh_tail tb = final NULL xs \<and>
     sized (num_buckets tb) (log2_num_buckets tb) (length (buckets tb)) \<and>
     (\<forall>a \<in> set xs. \<exists>k. hkv t a = Some (k, hash_jen k)) \<and>
     (\<exists>ch. chained t (num_buckets tb) (buckets tb) ch (set xs))"

definition uh_ok :: "uthash \<Rightarrow> addr list \<Rightarrow> bool" where
  "uh_ok t xs \<longleftrightarrow> distinct xs \<and> length xs < 2 ^ 32 \<and> room t < 2 ^ 32 \<and> uh_head t = first xs NULL \<and> NULL \<notin> set xs \<and>
     (xs = [] \<longrightarrow> tbl t = None) \<and> (xs \<noteq> [] \<longrightarrow> (\<exists>tb. tbl t = Some tb \<and> table_of t tb xs \<and> num_items tb = of_nat (length xs)))"

definition key_at :: "uthash \<Rightarrow> addr \<Rightarrow> u8 list option" where
  "key_at t a = map_option hkey (hhs t a)"

lemma key_at_hkv: "key_at t a = map_option fst (hkv t a)"
  by (simp add: key_at_def hkv_def option.map_comp comp_def)

lemma view_simps [simp]:
  "app (t\<lparr>tbl := x\<rparr>) = app t" "chn (t\<lparr>tbl := x\<rparr>) = chn t" "hkv (t\<lparr>tbl := x\<rparr>) = hkv t"
  "app (t\<lparr>uh_head := a\<rparr>) = app t" "chn (t\<lparr>uh_head := a\<rparr>) = chn t" "hkv (t\<lparr>uh_head := a\<rparr>) = hkv t"
  by (simp_all add: app_def chn_def hkv_def fun_eq_iff)

lemma chained_simps [simp]:
  "chained (t\<lparr>tbl := x\<rparr>) n bs ch X = chained t n bs ch X"
  "chained (t\<lparr>uh_head := a\<rparr>) n bs ch X = chained t n bs ch X"
  by (simp_all add: chained_def slot_of_def)

section \<open>The bucket of a hash value\<close>

lemma to_bkt_take:
  assumes "sized n l k"
  shows "to_bkt hv n = take_bit (unat l) hv"
proof -
  from assms have n: "unat n = 2 ^ unat l" by (simp add: sized_def)
  have "n = of_nat (unat n)" by simp
  then have "n = 2 ^ unat l" unfolding n by simp
  then have "n - 1 = mask (unat l)" by (simp add: mask_eq_decr_exp)
  then show ?thesis by (simp add: to_bkt_def take_bit_eq_mask)
qed

lemma sized_mask:
  assumes "sized n l k"
  shows "unat (to_bkt hv n) < k"
  unfolding to_bkt_take[OF assms] unsigned_take_bit_eq using assms by (simp add: take_bit_eq_mod sized_def)

lemma sized_double:
  assumes "sized n l k" "2 * unat n < 2 ^ 32"
  shows "sized (n * 2) (l + 1) (2 * unat n)"
proof -
  have "unat (n * 2) = 2 * unat n" using assms(2) by (simp add: unat_word_ariths(2))
  moreover have "unat (l + 1) = unat l + 1" using assms(1) by (simp add: sized_def unat_word_ariths(1))
  moreover have "unat l + 1 < 32"
  proof (rule ccontr)
    assume "\<not> unat l + 1 < 32"
    then have "(2::nat) ^ 32 \<le> 2 ^ (unat l + 1)" by (intro power_increasing) auto
    with assms show False by (simp add: sized_def)
  qed
  ultimately show ?thesis using assms(1) by (simp add: sized_def)
qed

lemma ideal_pos:
  assumes "sized n l k" "N \<noteq> 0"
  shows "drop_bit (unat l) N + (if N AND (n - 1) \<noteq> 0 then 1 else 0) \<noteq> (0 :: u32)"
proof -
  have l: "0 < unat l" using assms(1) by (simp add: sized_def)
  have t: "N AND (n - 1) = take_bit (unat l) N" using to_bkt_take[OF assms(1)] by (simp add: to_bkt_def)
  have d: "unat (drop_bit (unat l) N) = unat N div 2 ^ unat l" using drop_bit_eq_div[of "unat l" "unat N"] by (simp only: unat_drop_bit_eq)
  show ?thesis
  proof (cases "take_bit (unat l) N = 0")
    case True
    then have "unat N mod 2 ^ unat l = 0" by (metis unat_0 unsigned_take_bit_eq take_bit_eq_mod)
    moreover have "unat N \<noteq> 0" using assms(2) by (simp add: unat_eq_zero)
    ultimately have "unat N div 2 ^ unat l \<noteq> 0" by (metis div_mult_mod_eq add_0_right mult_0)
    then have "drop_bit (unat l) N \<noteq> 0" using d by (metis unat_0)
    with True t show ?thesis by simp
  next
    case False
    have "unat N < 2 ^ 32" using unsigned_less[of N] by simp
    moreover have "(2::nat) ^ 1 \<le> 2 ^ unat l" using l by (intro power_increasing) auto
    ultimately have "unat N div 2 ^ unat l < 2 ^ 31" by (simp add: div_less_iff_less_mult)
    then have "unat (drop_bit (unat l) N + 1) = unat N div 2 ^ unat l + 1"
      using d by (simp add: unat_word_ariths(1))
    then have "drop_bit (unat l) N + 1 \<noteq> 0" by (metis unat_0 add_is_0 zero_neq_one)
    with False t show ?thesis by simp
  qed
qed

section \<open>HASH_FIND\<close>

lemma find_in_chain_correct:
  assumes "linked (chn t) p c NULL" "\<And>a. a \<in> set c \<Longrightarrow> \<exists>k. hkv t a = Some (k, hash_jen k)"
  shows "find_in_chain k (hash_jen k) (first c NULL) t = Some (first (filter (\<lambda>a. key_at t a = Some k) c) NULL)"
  using assms
proof (induction c arbitrary: p)
  case (Cons a c)
  then obtain k' where "hkv t a = Some (k', hash_jen k')" by auto
  then obtain e where e: "hhs t a = Some e" "hkey e = k'" "hashv e = hash_jen k'" by (auto simp: hkv_def)
  moreover have "hh_next e = first c NULL" "a \<noteq> NULL" using Cons.prems(1) e by (auto simp: chn_def)
  moreover have "find_in_chain k (hash_jen k) (first c NULL) t = Some (first (filter (\<lambda>a. key_at t a = Some k) c) NULL)"
    using Cons by (intro Cons.IH) auto
  ultimately show ?case by (subst find_in_chain.simps) (auto simp: key_at_def)
qed (simp add: find_in_chain.simps)

lemma HASH_FIND_correct:
  assumes "uh_ok t xs"
  shows "\<exists>r. HASH_FIND k t = Some r \<and> (r = NULL \<longleftrightarrow> (\<forall>a \<in> set xs. key_at t a \<noteq> Some k)) \<and>
    (r \<noteq> NULL \<longrightarrow> r \<in> set xs \<and> key_at t r = Some k)"
proof (cases "xs = []")
  case True
  with assms show ?thesis by (simp add: HASH_FIND_def find_byhashvalue_def uh_ok_def)
next
  case False
  with assms obtain tb ch where tb: "tbl t = Some tb" "table_of t tb xs" "uh_head t = first xs NULL" "NULL \<notin> set xs"
    and ch: "chained t (num_buckets tb) (buckets tb) ch (set xs)" by (auto simp: uh_ok_def table_of_def)
  let ?hv = "hash_jen k" and ?n = "num_buckets tb"
  let ?i = "unat (to_bkt ?hv ?n)"
  from tb(2) have sz: "sized ?n (log2_num_buckets tb) (length (buckets tb))" by (simp add: table_of_def)
  have i: "?i < length (buckets tb)" by (rule sized_mask[OF sz])
  have c: "linked (chn t) NULL (ch ?i) NULL" "set (ch ?i) = {a \<in> set xs. slot_of t ?n a = ?i}"
    "hh_head (buckets tb ! ?i) = first (ch ?i) NULL" using ch i by (auto simp: chained_def)
  have hk: "\<exists>k. hkv t a = Some (k, hash_jen k)" if "a \<in> set (ch ?i)" for a
    using tb(2) c(2) that by (auto simp: table_of_def)
  let ?F = "filter (\<lambda>a. key_at t a = Some k) (ch ?i)"
  have "uh_head t \<noteq> NULL" using tb(3,4) False by (simp add: first_NULL)
  then have "HASH_FIND k t = find_in_chain k ?hv (first (ch ?i) NULL) t"
    using tb(1) i c(3) by (simp add: HASH_FIND_def find_byhashvalue_def nth_bkt_def)
  then have "HASH_FIND k t = Some (first ?F NULL)" using find_in_chain_correct[OF c(1) hk] by simp
  moreover have "NULL \<notin> set (ch ?i)" using linked_not_NULL[OF c(1)] .
  moreover have "a \<in> set (ch ?i)" if "a \<in> set xs" "key_at t a = Some k" for a
  proof -
    from tb(2) that(1) obtain k' where k': "hkv t a = Some (k', hash_jen k')" by (auto simp: table_of_def)
    with that(2) have "k' = k" by (simp add: key_at_hkv)
    with k' have "slot_of t ?n a = ?i" by (simp add: slot_of_def)
    with that(1) c(2) show ?thesis by blast
  qed
  moreover have "set ?F \<subseteq> set xs" using c(2) by auto
  moreover have "set ?F \<subseteq> {a. key_at t a = Some k}" by auto
  ultimately have F: "HASH_FIND k t = Some (first ?F NULL)" "NULL \<notin> set ?F" "set ?F = {a \<in> set xs. key_at t a = Some k}"
    by auto
  show ?thesis
  proof (cases ?F)
    case Nil
    with F(1,3) show ?thesis by auto
  next
    case (Cons r rs)
    then have "r \<in> set ?F" by simp
    with F Cons show ?thesis by auto
  qed
qed

section \<open>Pushing an element to its bucket\<close>

definition same_rest :: "uthash \<Rightarrow> uthash \<Rightarrow> bool" where
  "same_rest t t' \<longleftrightarrow> t' = t\<lparr>hhs := hhs t'\<rparr> \<and> dom (hhs t') = dom (hhs t) \<and> hkv t' = hkv t"

lemma same_rest_refl: "same_rest t t"
  by (simp add: same_rest_def)

lemma same_rest_trans: "same_rest t u \<Longrightarrow> same_rest u v \<Longrightarrow> same_rest t v"
  unfolding same_rest_def by (metis uthash.surjective uthash.update_convs(3))

lemma same_rest_slot: "same_rest t t' \<Longrightarrow> slot_of t' n a = slot_of t n a"
  by (simp add: same_rest_def slot_of_def)

lemma push_hh:
  assumes "hhs t a = Some e" "hh \<noteq> NULL \<Longrightarrow> hhs t hh = Some x" "hh \<noteq> a"
  shows "\<exists>t'. (do { t \<leftarrow> upd_hh a (\<lambda>e. e\<lparr>hh_prev := NULL, hh_next := hh\<rparr>) t;
      if hh \<noteq> NULL then upd_hh hh (\<lambda>e. e\<lparr>hh_prev := a\<rparr>) t else Some t }) = Some t' \<and> same_rest t t' \<and>
    app t' = app t \<and> chn t' a = Some (NULL, hh) \<and> (hh \<noteq> NULL \<longrightarrow> chn t' hh = Some (a, snd (the (chn t hh)))) \<and>
    (\<forall>b. b \<noteq> a \<longrightarrow> b = NULL \<or> b \<noteq> hh \<longrightarrow> chn t' b = chn t b)"
proof (cases "hh = NULL")
  case True
  with assms(1) show ?thesis
    by (auto simp: upd_hh_def same_rest_def app_def chn_def hkv_def fun_eq_iff)
next
  case False
  with assms show ?thesis
    by (auto simp: upd_hh_def same_rest_def app_def chn_def hkv_def fun_eq_iff)
qed

lemma chained_push:
  assumes ch: "chained t n bs ch X" and a: "a \<notin> X" "a \<noteq> NULL" and j: "slot_of t n a = j" "j < length bs"
    and t': "same_rest t t'" "chn t' a = Some (NULL, first (ch j) NULL)"
      "ch j \<noteq> [] \<Longrightarrow> chn t' (first (ch j) NULL) = Some (a, snd (the (chn t (first (ch j) NULL))))"
      "\<And>b. b \<in> X \<Longrightarrow> b \<noteq> first (ch j) NULL \<Longrightarrow> chn t' b = chn t b"
    and b': "hh_head b' = a" "bcount b' = bcount (bs ! j) + 1"
  shows "chained t' n (bs[j := b']) (ch(j := a # ch j)) (insert a X)"
  unfolding chained_def
proof (intro allI impI)
  fix i assume "i < length (bs[j := b'])"
  then have i: "i < length bs" by simp
  have C: "linked (chn t) NULL (ch i) NULL" "distinct (ch i)" "set (ch i) = {a \<in> X. slot_of t n a = i}"
    "hh_head (bs ! i) = first (ch i) NULL" "bcount (bs ! i) = of_nat (length (ch i))"
    if "i < length bs" for i using ch that by (auto simp: chained_def)
  note sl = same_rest_slot[OF t'(1)]
  show "linked (chn t') NULL ((ch(j := a # ch j)) i) NULL \<and> distinct ((ch(j := a # ch j)) i) \<and>
     set ((ch(j := a # ch j)) i) = {b \<in> insert a X. slot_of t' n b = i} \<and>
     hh_head (bs[j := b'] ! i) = first ((ch(j := a # ch j)) i) NULL \<and>
     bcount (bs[j := b'] ! i) = of_nat (length ((ch(j := a # ch j)) i))"
  proof (cases "i = j")
    case True
    have "linked (chn t') NULL (a # ch j) NULL"
    proof (rule linked_push[OF C(1)[OF j(2)] _ a(2) C(2)[OF j(2)] t'(2,3)])
      show "a \<notin> set (ch j)" using C(3)[OF j(2)] a(1) by simp
      show "chn t' b = chn t b" if "b \<in> set (ch j)" "b \<noteq> first (ch j) NULL" for b
        using that C(3)[OF j(2)] t'(4) by simp
    qed
    with True C[OF j(2)] a(1) j b' show ?thesis by (auto simp: sl)
  next
    case False
    have "chn t' b = chn t b" if "b \<in> set (ch i)" for b
    proof (rule t'(4))
      show "b \<in> X" using that C(3)[OF i] by simp
      show "b \<noteq> first (ch j) NULL"
      proof (cases "ch j")
        case Nil
        with linked_not_NULL[OF C(1)[OF i]] that show ?thesis by (cases "b = NULL") auto
      next
        case (Cons y ys)
        then have "slot_of t n y = j" using C(3)[OF j(2)] by auto
        moreover have "slot_of t n b = i" using that C(3)[OF i] by simp
        ultimately show ?thesis using False Cons by auto
      qed
    qed
    then have "linked (chn t') NULL (ch i) NULL = linked (chn t) NULL (ch i) NULL" by (rule linked_cong)
    with False C[OF i] a(1) j(1) show ?thesis by (auto simp: sl)
  qed
qed

section \<open>Expanding the buckets\<close>

lemma chained_head:
  assumes "chained t n bs ch X" "i < length bs"
  shows "hh_head (bs ! i) = first (ch i) NULL" "first (ch i) NULL \<noteq> NULL \<Longrightarrow> first (ch i) NULL \<in> X \<and> (\<exists>x. hhs t (first (ch i) NULL) = Some x)"
    "ch i \<noteq> [] \<Longrightarrow> first (ch i) NULL \<noteq> NULL"
proof -
  have c: "linked (chn t) NULL (ch i) NULL" "set (ch i) = {a \<in> X. slot_of t n a = i}" "hh_head (bs ! i) = first (ch i) NULL"
    using assms by (auto simp: chained_def)
  show "hh_head (bs ! i) = first (ch i) NULL" by (rule c)
  show "ch i \<noteq> [] \<Longrightarrow> first (ch i) NULL \<noteq> NULL" using linked_not_NULL[OF c(1)] by (simp add: first_NULL)
  assume "first (ch i) NULL \<noteq> NULL"
  then obtain b d where b: "ch i = b # d" by (cases "ch i") auto
  with c show "first (ch i) NULL \<in> X \<and> (\<exists>x. hhs t (first (ch i) NULL) = Some x)"
    by (auto simp: chn_def)
qed

lemma move_one_correct:
  assumes ch: "chained t n2 nbs ch M" and n2: "n2 = num_buckets tb * 2" "sized n2 l2 (length nbs)"
    and a: "a \<notin> M" "a \<noteq> NULL" "hhs t a = Some e" and id: "ideal_chain_maxlen tb \<noteq> 0"
  shows "\<exists>nbs' tb' t' ch'. move_one a nbs tb t = Some (nbs', tb', t') \<and> chained t' n2 nbs' ch' (insert a M) \<and>
    length nbs' = length nbs \<and> tb' = tb\<lparr>nonideal_items := nonideal_items tb'\<rparr> \<and> same_rest t t' \<and> app t' = app t \<and>
    (\<forall>b. b \<notin> insert a M \<longrightarrow> chn t' b = chn t b)"
proof -
  let ?j = "to_bkt (hashv e) n2"
  have j: "unat ?j < length nbs" by (rule sized_mask[OF n2(2)])
  have sl: "slot_of t n2 a = unat ?j" using a(3) by (simp add: slot_of_def hkv_def)
  note H = chained_head[OF ch j]
  let ?hh = "first (ch (unat ?j)) NULL" and ?b = "nbs ! unat ?j"
  have ha: "?hh \<noteq> a" using H(2) a by auto
  obtain x where "?hh \<noteq> NULL \<Longrightarrow> hhs t ?hh = Some x" using H(2) by blast
  from push_hh[OF a(3) this ha] obtain t' where t': "(do { t \<leftarrow> upd_hh a (\<lambda>e. e\<lparr>hh_prev := NULL, hh_next := ?hh\<rparr>) t;
      if ?hh \<noteq> NULL then upd_hh ?hh (\<lambda>e. e\<lparr>hh_prev := a\<rparr>) t else Some t }) = Some t'" "same_rest t t'"
    "app t' = app t" "chn t' a = Some (NULL, ?hh)" "?hh \<noteq> NULL \<Longrightarrow> chn t' ?hh = Some (a, snd (the (chn t ?hh)))"
    "\<And>b. b \<noteq> a \<Longrightarrow> b = NULL \<or> b \<noteq> ?hh \<Longrightarrow> chn t' b = chn t b" by blast
  have keep: "chn t' b = chn t b" if "b \<notin> insert a M" for b
    using that H(2) by (intro t'(6)) auto
  have X: "chn t' b = chn t b" if "b \<in> M" "b \<noteq> ?hh" for b using that a(1) by (intro t'(6)) auto
  define b1 where "b1 = ?b\<lparr>bcount := bcount ?b + 1\<rparr>"
  define big where "big \<longleftrightarrow> bcount b1 > ideal_chain_maxlen tb"
  define b2 where "b2 = (if big then b1\<lparr>expand_mult := bcount b1 div ideal_chain_maxlen tb\<rparr> else b1)"
  define tb2 where "tb2 = (if big then tb\<lparr>nonideal_items := nonideal_items tb + 1\<rparr> else tb)"
  have hb: "hh_head b2 = ?hh" by (simp add: b2_def b1_def H(1))
  from t'(1) obtain t1 where t1: "upd_hh a (\<lambda>e. e\<lparr>hh_prev := NULL, hh_next := ?hh\<rparr>) t = Some t1"
    "(if ?hh \<noteq> NULL then upd_hh ?hh (\<lambda>e. e\<lparr>hh_prev := a\<rparr>) t1 else Some t1) = Some t'" by (auto simp: mon)
  have "move_one a nbs tb t = Some (nbs[unat ?j := b2\<lparr>hh_head := a\<rparr>], tb2, t')"
  proof (cases big)
    case True
    then show ?thesis using a(3) j t1 id H(1)
      by (cases "?hh = NULL") (simp_all add: move_one_def nth_bkt_def Let_def b1_def b2_def tb2_def big_def n2(1)[symmetric])
  next
    case False
    then show ?thesis using a(3) j t1 id H(1)
      by (cases "?hh = NULL") (simp_all add: move_one_def nth_bkt_def Let_def b1_def b2_def tb2_def big_def n2(1)[symmetric])
  qed
  moreover have "chained t' n2 (nbs[unat ?j := b2\<lparr>hh_head := a\<rparr>]) (ch(unat ?j := a # ch (unat ?j))) (insert a M)"
    by (rule chained_push[OF ch a(1,2) sl j t'(2,4) _ X]) (use t'(5) H(3) in \<open>auto simp: b2_def b1_def\<close>)
  moreover have "tb2 = tb\<lparr>nonideal_items := nonideal_items tb2\<rparr>" by (simp add: tb2_def)
  ultimately show ?thesis using t'(2,3) keep
    by (intro exI[of _ "nbs[unat ?j := b2\<lparr>hh_head := a\<rparr>]"] exI[of _ tb2] exI[of _ t']) auto
qed

definition moved :: "u32 \<Rightarrow> uh_table \<Rightarrow> uthash \<Rightarrow> nat \<Rightarrow> addr set \<Rightarrow> bucket list \<times> uh_table \<times> uthash \<Rightarrow> bool" where
  "moved n2 tb t len M r \<longleftrightarrow> (case r of (nbs, tb', t') \<Rightarrow> (\<exists>ch. chained t' n2 nbs ch M) \<and> length nbs = len \<and>
     tb' = tb\<lparr>nonideal_items := nonideal_items tb'\<rparr> \<and> same_rest t t' \<and> app t' = app t \<and>
     (\<forall>b. b \<notin> M \<longrightarrow> chn t' b = chn t b))"

lemma moved_trans:
  assumes "moved n2 tb t len M (nbs, tb1, t1)" "moved n2 tb1 t1 len M' r" "M \<subseteq> M'"
  shows "moved n2 tb t len M' r"
proof -
  obtain nbs2 tb2 t2 where r: "r = (nbs2, tb2, t2)" by (cases r)
  have "tb1 = tb\<lparr>nonideal_items := nonideal_items tb1\<rparr>" "tb2 = tb1\<lparr>nonideal_items := nonideal_items tb2\<rparr>"
    "same_rest t t1" "same_rest t1 t2" using assms(1,2) by (simp_all add: moved_def r)
  then have "tb2 = tb\<lparr>nonideal_items := nonideal_items tb2\<rparr>"
    by (metis uh_table.update_convs(7) uh_table.surjective)
  moreover have "same_rest t t2" using \<open>same_rest t t1\<close> \<open>same_rest t1 t2\<close> by (rule same_rest_trans)
  moreover note this
  ultimately show ?thesis using assms by (auto simp: moved_def r)
qed

lemma move_chain_correct:
  assumes "chained t n2 nbs ch M" "n2 = num_buckets tb * 2" "sized n2 l2 (length nbs)" "ideal_chain_maxlen tb \<noteq> 0"
    "linked (chn t) p c NULL" "distinct c" "set c \<inter> M = {}"
  shows "\<exists>r. move_chain (first c NULL) nbs tb t = Some r \<and> moved n2 tb t (length nbs) (M \<union> set c) r"
  using assms
proof (induction c arbitrary: t nbs ch M tb p)
  case Nil
  then show ?case by (subst move_chain.simps) (auto simp: moved_def same_rest_refl)
next
  case (Cons a c)
  from Cons.prems(5) have l: "a \<noteq> NULL" "linked (chn t) a c NULL" "chn t a = Some (p, first c NULL)" by auto
  then obtain e where "hhs t a = Some e" "hh_next e = first c NULL" by (auto simp: chn_def)
  note e = l(1) this l(2)
  have aM: "a \<notin> M" using Cons.prems(7) by simp
  from move_one_correct[OF Cons.prems(1,2,3) aM e(1,2) Cons.prems(4)] obtain nbs' tb' t' ch' where
    m: "move_one a nbs tb t = Some (nbs', tb', t')" "chained t' n2 nbs' ch' (insert a M)" "length nbs' = length nbs"
      "tb' = tb\<lparr>nonideal_items := nonideal_items tb'\<rparr>" "same_rest t t'" "app t' = app t"
      "\<And>b. b \<notin> insert a M \<Longrightarrow> chn t' b = chn t b" by blast
  have tb': "num_buckets tb' = num_buckets tb" "ideal_chain_maxlen tb' = ideal_chain_maxlen tb" by (subst m(4), simp)+
  have "linked (chn t') a c NULL = linked (chn t) a c NULL"
    using Cons.prems(6,7) by (intro linked_cong m(7)) auto
  then obtain r where r: "move_chain (first c NULL) nbs' tb' t' = Some r"
    "moved n2 tb' t' (length nbs') (insert a M \<union> set c) r"
    using Cons.IH[OF m(2), of tb' a] Cons.prems(2,3,4,6,7) m(3) tb' e(4) by auto
  have "moved n2 tb t (length nbs) (insert a M) (nbs', tb', t')" using m by (auto simp: moved_def)
  from moved_trans[OF this r(2)[unfolded m(3)]] have "moved n2 tb t (length nbs) (M \<union> set (a # c)) r"
    by (simp add: subset_insertI2)
  moreover have "move_chain a nbs tb t = Some r" using e(1,2,3) m(1) r(1) by (subst move_chain.simps) simp
  ultimately show ?case by auto
qed

lemma move_all_correct:
  assumes "chained t n2 nbs ch M" "n2 = num_buckets tb * 2" "sized n2 l2 (length nbs)" "ideal_chain_maxlen tb \<noteq> 0"
    "list_all2 (\<lambda>b c. linked (chn t) NULL c NULL \<and> hh_head b = first c NULL) bs cs" "distinct (concat cs)"
    "set (concat cs) \<inter> M = {}"
  shows "\<exists>r. move_all bs nbs tb t = Some r \<and> moved n2 tb t (length nbs) (M \<union> set (concat cs)) r"
  using assms
proof (induction bs arbitrary: cs t nbs ch M tb)
  case Nil
  then show ?case by (auto simp: moved_def same_rest_refl)
next
  case (Cons b bs)
  from Cons.prems(5) obtain c cs' where cs: "cs = c # cs'" "linked (chn t) NULL c NULL" "hh_head b = first c NULL"
    "list_all2 (\<lambda>b c. linked (chn t) NULL c NULL \<and> hh_head b = first c NULL) bs cs'"
    by (auto simp: list_all2_Cons1)
  have d: "distinct c" "distinct (concat cs')" "set c \<inter> set (concat cs') = {}" "set c \<inter> M = {}" "set (concat cs') \<inter> M = {}"
    using Cons.prems(6,7) cs(1) by auto
  from move_chain_correct[OF Cons.prems(1-4) cs(2) d(1,4)] obtain nbs' tb' t' where
    r: "move_chain (first c NULL) nbs tb t = Some (nbs', tb', t')" "moved n2 tb t (length nbs) (M \<union> set c) (nbs', tb', t')"
    by (metis prod_cases3)
  from r(2) obtain ch' where m: "chained t' n2 nbs' ch' (M \<union> set c)" "length nbs' = length nbs"
    "tb' = tb\<lparr>nonideal_items := nonideal_items tb'\<rparr>" "\<And>b. b \<notin> M \<union> set c \<Longrightarrow> chn t' b = chn t b"
    by (auto simp: moved_def)
  have tb': "num_buckets tb' = num_buckets tb" "ideal_chain_maxlen tb' = ideal_chain_maxlen tb" by (subst m(3), simp)+
  have "list_all2 (\<lambda>b c. linked (chn t') NULL c NULL \<and> hh_head b = first c NULL) bs cs'"
  proof (rule list.rel_mono_strong[OF cs(4)])
    fix b d assume d': "d \<in> set cs'" "linked (chn t) NULL d NULL \<and> hh_head b = first d NULL"
    have "linked (chn t') NULL d NULL = linked (chn t) NULL d NULL"
      by (intro linked_cong m(4)) (use d'(1) d(3,5) in auto)
    with d'(2) show "linked (chn t') NULL d NULL \<and> hh_head b = first d NULL" by simp
  qed
  moreover have "set (concat cs') \<inter> (M \<union> set c) = {}" using d(3,5) by blast
  ultimately obtain q where q: "move_all bs nbs' tb' t' = Some q" "moved n2 tb' t' (length nbs') (M \<union> set c \<union> set (concat cs')) q"
    using Cons.IH[OF m(1), of tb' cs'] Cons.prems(2-4) m(2) tb' d(2) by (metis)
  from moved_trans[OF r(2) q(2)[unfolded m(2)]] have "moved n2 tb t (length nbs) (M \<union> set (concat cs)) q"
    by (auto simp: cs(1) Un_assoc)
  moreover have "move_all (b # bs) nbs tb t = Some q" using r(1) q(1) cs(3) by simp
  ultimately show ?case by blast
qed

lemma empty_chained: "chained t n (replicate k empty_bkt) (\<lambda>_. []) {}"
  by (simp add: chained_def empty_bkt_def)

text \<open>The chains of the buckets, one after the other.\<close>

lemma chained_concat:
  assumes ch: "chained t n bs ch X" and sl: "\<And>a. a \<in> X \<Longrightarrow> slot_of t n a < length bs"
  defines "cs \<equiv> map ch [0..<length bs]"
  shows "list_all2 (\<lambda>b c. linked (chn t) NULL c NULL \<and> hh_head b = first c NULL) bs cs"
    "distinct (concat cs)" "set (concat cs) = X"
proof -
  have C: "linked (chn t) NULL (ch i) NULL" "distinct (ch i)" "set (ch i) = {a \<in> X. slot_of t n a = i}"
    "hh_head (bs ! i) = first (ch i) NULL" if "i < length bs" for i using ch that by (auto simp: chained_def)
  show "list_all2 (\<lambda>b c. linked (chn t) NULL c NULL \<and> hh_head b = first c NULL) bs cs"
    by (simp add: list_all2_conv_all_nth cs_def C)
  show "set (concat cs) = X" using C(3) sl by (auto simp: cs_def)
  have "distinct (concat (map ch [0..<k]))" if "k \<le> length bs" for k
    using that by (induction k) (auto simp: C)
  then show "distinct (concat cs)" by (simp add: cs_def)
qed

text \<open>A table with the same elements in the order of addition, and with the elements \<open>X\<close> in its buckets.\<close>

definition rehashed :: "uthash \<Rightarrow> uh_table \<Rightarrow> addr set \<Rightarrow> uthash \<Rightarrow> bool" where
  "rehashed t tb X t' \<longleftrightarrow> (\<exists>tb' ch. tbl t' = Some tb' \<and> num_items tb' = num_items tb \<and> uh_tail tb' = uh_tail tb \<and>
     sized (num_buckets tb') (log2_num_buckets tb') (length (buckets tb')) \<and>
     chained t' (num_buckets tb') (buckets tb') ch X) \<and> t' = t\<lparr>hhs := hhs t', tbl := tbl t'\<rparr> \<and>
     dom (hhs t') = dom (hhs t) \<and> hkv t' = hkv t \<and> app t' = app t"

lemma rehashed_fields:
  assumes "rehashed t tb X t'" shows "room t' = room t" "uh_head t' = uh_head t"
proof -
  have e: "t' = t\<lparr>hhs := hhs t', tbl := tbl t'\<rparr>" using assms unfolding rehashed_def by blast
  show "room t' = room t" "uh_head t' = uh_head t" by (subst e, simp)+
qed

lemma rehashed_trans:
  assumes "rehashed t tb X t1" "tbl t1 = Some tb1" "num_items tb1 = num_items tb" "uh_tail tb1 = uh_tail tb"
    and "rehashed t1 tb1 X' t2"
  shows "rehashed t tb X' t2"
proof -
  have "t1 = t\<lparr>hhs := hhs t1, tbl := tbl t1\<rparr>" "t2 = t1\<lparr>hhs := hhs t2, tbl := tbl t2\<rparr>"
    using assms(1,5) unfolding rehashed_def by blast+
  then have "uh_head t2 = uh_head t" "room t2 = room t" using rehashed_fields assms(1,5) by metis+
  then have "t2 = t\<lparr>hhs := hhs t2, tbl := tbl t2\<rparr>" by (intro uthash.equality) simp_all
  with assms show ?thesis unfolding rehashed_def by simp
qed

lemma expand_correct:
  assumes tb: "tbl t = Some tb" and sz: "sized (num_buckets tb) (log2_num_buckets tb) (length (buckets tb))"
    and ch: "chained t (num_buckets tb) (buckets tb) ch X" and ni: "num_items tb \<noteq> 0"
    and room: "room t < 2 ^ 32" "2 * unat (num_buckets tb) \<le> room t"
  shows "\<exists>t'. expand_buckets t = Some t' \<and> rehashed t tb X t'"
proof -
  let ?n = "num_buckets tb" and ?l = "log2_num_buckets tb"
  define len where "len = 2 * unat ?n"
  have sz2: "sized (?n * 2) (?l + 1) len" unfolding len_def using sized_double[OF sz] room by simp
  define tb1 where "tb1 = tb\<lparr>ideal_chain_maxlen := drop_bit (unat (?l + 1)) (num_items tb) +
           (if num_items tb AND (?n * 2 - 1) \<noteq> 0 then 1 else 0), nonideal_items := 0\<rparr>"
  have id: "ideal_chain_maxlen tb1 \<noteq> 0" using ideal_pos[OF sz2 ni] by (simp add: tb1_def)
  have sl: "slot_of t ?n a < length (buckets tb)" for a unfolding slot_of_def by (rule sized_mask[OF sz])
  note cs = chained_concat[OF ch sl]
  have n2: "?n * 2 = num_buckets tb1 * 2" by (simp add: tb1_def)
  have "\<exists>r. move_all (buckets tb) (replicate len empty_bkt) tb1 t = Some r \<and>
    moved (?n * 2) tb1 t (length (replicate len empty_bkt)) ({} \<union> set (concat (map ch [0..<length (buckets tb)]))) r"
    by (rule move_all_correct[OF empty_chained n2 _ id cs(1,2)]) (use sz2 in auto)
  then obtain nbs tb2 t2 where
    r: "move_all (buckets tb) (replicate len empty_bkt) tb1 t = Some (nbs, tb2, t2)"
      "moved (?n * 2) tb1 t len X (nbs, tb2, t2)" unfolding cs(3) by auto
  from r(2) obtain ch' where m: "chained t2 (?n * 2) nbs ch' X" "length nbs = len"
    "tb2 = tb1\<lparr>nonideal_items := nonideal_items tb2\<rparr>" "same_rest t t2" "app t2 = app t"
    "\<And>b. b \<notin> X \<Longrightarrow> chn t2 b = chn t b" by (auto simp: moved_def)
  define tb3 where "tb3 = tb2\<lparr>num_buckets := num_buckets tb2 * 2, log2_num_buckets := log2_num_buckets tb2 + 1, buckets := nbs,
         ineff_expands := (if nonideal_items tb2 > drop_bit 1 (num_items tb2) then ineff_expands tb2 + 1 else 0)\<rparr>"
  define tb4 where "tb4 = (if ineff_expands tb3 > 1 then tb3\<lparr>noexpand := 1\<rparr> else tb3)"
  have ev: "expand_buckets t = Some (t2\<lparr>tbl := Some tb4\<rparr>)"
    using tb room(2) r(1) by (simp add: expand_buckets_def Let_def tb1_def[symmetric] len_def[symmetric] tb3_def tb4_def)
  have "num_buckets tb2 = ?n" "log2_num_buckets tb2 = ?l" "num_items tb2 = num_items tb" "uh_tail tb2 = uh_tail tb"
    by (subst m(3), simp add: tb1_def)+
  then have f: "num_buckets tb4 = ?n * 2" "log2_num_buckets tb4 = ?l + 1" "num_items tb4 = num_items tb"
    "uh_tail tb4 = uh_tail tb" "buckets tb4 = nbs" by (simp_all add: tb4_def tb3_def)
  have e: "t2\<lparr>tbl := Some tb4\<rparr> = t\<lparr>hhs := hhs t2, tbl := Some tb4\<rparr>"
    using m(4) unfolding same_rest_def by (metis uthash.update_convs(2))
  have d: "dom (hhs t2) = dom (hhs t)" "hkv t2 = hkv t" using m(4) by (simp_all only: same_rest_def)
  have "rehashed t tb X (t2\<lparr>tbl := Some tb4\<rparr>)" unfolding rehashed_def
  proof (intro exI conjI)
    show "t2\<lparr>tbl := Some tb4\<rparr> = t\<lparr>hhs := hhs (t2\<lparr>tbl := Some tb4\<rparr>), tbl := tbl (t2\<lparr>tbl := Some tb4\<rparr>)\<rparr>"
      using e by simp
    show "chained (t2\<lparr>tbl := Some tb4\<rparr>) (num_buckets tb4) (buckets tb4) ch' X" using m(1) by (simp add: f)
    show "sized (num_buckets tb4) (log2_num_buckets tb4) (length (buckets tb4))" using sz2 m(2) by (simp add: f)
  qed (use d m(5) in \<open>simp_all add: f\<close>)
  with ev show ?thesis by blast
qed

section \<open>HASH_ADD\<close>

lemma chained_cong:
  assumes "\<And>b. b \<in> X \<Longrightarrow> chn t' b = chn t b \<and> hkv t' b = hkv t b" "chained t n bs ch X"
  shows "chained t' n bs ch X"
  unfolding chained_def
proof (intro allI impI)
  fix i assume i: "i < length bs"
  with assms(2) have C: "linked (chn t) NULL (ch i) NULL" "distinct (ch i)" "set (ch i) = {a \<in> X. slot_of t n a = i}"
    "hh_head (bs ! i) = first (ch i) NULL" "bcount (bs ! i) = of_nat (length (ch i))" by (auto simp: chained_def)
  have "linked (chn t') NULL (ch i) NULL = linked (chn t) NULL (ch i) NULL"
    using assms(1) C(3) by (intro linked_cong) auto
  moreover have "slot_of t' n a = slot_of t n a" if "a \<in> X" for a using assms(1)[OF that] by (simp add: slot_of_def)
  then have "{a \<in> X. slot_of t' n a = i} = {a \<in> X. slot_of t n a = i}" by auto
  ultimately show "linked (chn t') NULL (ch i) NULL \<and> distinct (ch i) \<and> set (ch i) = {a \<in> X. slot_of t' n a = i} \<and>
    hh_head (bs ! i) = first (ch i) NULL \<and> bcount (bs ! i) = of_nat (length (ch i))" using C by simp
qed

lemma add_to_bkt_correct:
  assumes tb: "tbl t = Some tb" and sz: "sized (num_buckets tb) (log2_num_buckets tb) (length (buckets tb))"
    and ch: "chained t (num_buckets tb) (buckets tb) ch X" and ni: "num_items tb \<noteq> 0" and room: "room t < 2 ^ 32"
    and a: "a \<notin> X" "a \<noteq> NULL" "hhs t a = Some e" and i: "i = to_bkt (hashv e) (num_buckets tb)"
  shows "(\<exists>t'. add_to_bkt i a t = Some t' \<and> rehashed t tb (insert a X) t') \<or>
    add_to_bkt i a t = None \<and> room t < 2 * unat (num_buckets tb)"
proof -
  let ?n = "num_buckets tb"
  have j: "unat i < length (buckets tb)" unfolding i by (rule sized_mask[OF sz])
  have sl: "slot_of t ?n a = unat i" using a(3) by (simp add: slot_of_def hkv_def i)
  note H = chained_head[OF ch j]
  let ?hh = "first (ch (unat i)) NULL" and ?b = "buckets tb ! unat i"
  have ha: "?hh \<noteq> a" using H(2) a by auto
  obtain x where "?hh \<noteq> NULL \<Longrightarrow> hhs t ?hh = Some x" using H(2) by blast
  from push_hh[OF a(3) this ha] obtain t1 where t1: "(do { t \<leftarrow> upd_hh a (\<lambda>e. e\<lparr>hh_prev := NULL, hh_next := ?hh\<rparr>) t;
      if ?hh \<noteq> NULL then upd_hh ?hh (\<lambda>e. e\<lparr>hh_prev := a\<rparr>) t else Some t }) = Some t1" "same_rest t t1"
    "app t1 = app t" "chn t1 a = Some (NULL, ?hh)" "?hh \<noteq> NULL \<Longrightarrow> chn t1 ?hh = Some (a, snd (the (chn t ?hh)))"
    "\<And>b. b \<noteq> a \<Longrightarrow> b = NULL \<or> b \<noteq> ?hh \<Longrightarrow> chn t1 b = chn t b" by blast
  have X: "chn t1 b = chn t b" if "b \<in> X" "b \<noteq> ?hh" for b using that a(1) by (intro t1(6)) auto
  define b1 where "b1 = ?b\<lparr>bcount := bcount ?b + 1, hh_head := a\<rparr>"
  define tb1 where "tb1 = tb\<lparr>buckets := (buckets tb)[unat i := b1]\<rparr>"
  define t2 where "t2 = t1\<lparr>tbl := Some tb1\<rparr>"
  define full where "full \<longleftrightarrow> bcount b1 \<ge> (expand_mult b1 + 1) * HASH_BKT_CAPACITY_THRESH \<and> noexpand tb = 0"
  have ev: "add_to_bkt i a t = (if full then expand_buckets t2 else Some t2)"
  proof -
    from t1(1) obtain t0 where "upd_hh a (\<lambda>e. e\<lparr>hh_prev := NULL, hh_next := ?hh\<rparr>) t = Some t0"
      "(if ?hh \<noteq> NULL then upd_hh ?hh (\<lambda>e. e\<lparr>hh_prev := a\<rparr>) t0 else Some t0) = Some t1" by (auto simp: mon)
    then show ?thesis using tb j H(1)
      by (cases "?hh = NULL") (simp_all add: add_to_bkt_def nth_bkt_def Let_def t2_def tb1_def b1_def full_def)
  qed
  have ch1: "chained t1 ?n ((buckets tb)[unat i := b1]) (ch(unat i := a # ch (unat i))) (insert a X)"
    by (rule chained_push[OF ch a(1,2) sl j t1(2,4) _ X]) (use t1(5) H(3) in \<open>auto simp: b1_def\<close>)
  have d: "dom (hhs t1) = dom (hhs t)" "hkv t1 = hkv t" using t1(2) by (simp_all only: same_rest_def)
  have e: "t1\<lparr>tbl := x\<rparr> = t\<lparr>hhs := hhs t1, tbl := x\<rparr>" for x
    using t1(2) unfolding same_rest_def by (metis uthash.update_convs(2))
  have r: "rehashed t tb (insert a X) t2" unfolding rehashed_def
  proof (intro exI conjI)
    show "t2 = t\<lparr>hhs := hhs t2, tbl := tbl t2\<rparr>" using e by (simp add: t2_def)
    show "chained t2 (num_buckets tb1) (buckets tb1) (ch(unat i := a # ch (unat i))) (insert a X)"
      using ch1 by (simp add: t2_def tb1_def)
    show "sized (num_buckets tb1) (log2_num_buckets tb1) (length (buckets tb1))" using sz by (simp add: tb1_def)
  qed (use d t1(3) in \<open>simp_all add: t2_def tb1_def\<close>)
  show ?thesis
  proof (cases "full \<and> room t < 2 * unat ?n")
    case True
    have "room t2 = room t" by (rule rehashed_fields[OF r])
    then have "room t1 = room t" by (simp add: t2_def)
    with True have "expand_buckets t2 = None" by (simp add: expand_buckets_def t2_def tb1_def mon)
    with True ev show ?thesis by simp
  next
    case False
    show ?thesis
    proof (cases full)
      case True
      have rt: "room t2 = room t" by (rule rehashed_fields[OF r])
      from r obtain ch' where R: "tbl t2 = Some tb1" "num_items tb1 = num_items tb" "uh_tail tb1 = uh_tail tb"
        "sized (num_buckets tb1) (log2_num_buckets tb1) (length (buckets tb1))"
        "chained t2 (num_buckets tb1) (buckets tb1) ch' (insert a X)" "num_buckets tb1 = ?n"
        by (auto simp: rehashed_def t2_def tb1_def)
      from expand_correct[OF R(1,4,5)] R ni room False True rt obtain t' where
        t': "expand_buckets t2 = Some t'" "rehashed t2 tb1 (insert a X) t'" by auto
      have "rehashed t tb (insert a X) t'" by (rule rehashed_trans[OF r R(1-3) t'(2)])
      with ev True t'(1) show ?thesis by auto
    next
      case False
      with ev r show ?thesis by auto
    qed
  qed
qed

lemma of_nat_pos: "0 < n \<Longrightarrow> n < 2 ^ 32 \<Longrightarrow> (of_nat n :: u32) \<noteq> 0"
  by (auto simp: word_of_nat_eq_0_iff dest: dvd_imp_le)

text \<open>The number of buckets for which there has to be memory when an element is added.\<close>

definition buckets_needed :: "uthash \<Rightarrow> nat" where
  "buckets_needed t = 2 * (case tbl t of None \<Rightarrow> 32 | Some tb \<Rightarrow> unat (num_buckets tb))"

lemma add_to_table_correct:
  assumes tb: "tbl t = Some tb" "sized (num_buckets tb) (log2_num_buckets tb) (length (buckets tb))"
      "chained t (num_buckets tb) (buckets tb) ch (set xs)" "num_items tb = of_nat (length xs)"
    and len: "length xs + 1 < 2 ^ 32" and room: "room t < 2 ^ 32"
    and a: "a \<notin> set xs" "a \<noteq> NULL" "hkv t a = Some (k, hash_jen k)"
  shows "(\<exists>t' tb'. add_to_table (hash_jen k) a t = Some t' \<and> tbl t' = Some tb' \<and> uh_tail tb' = uh_tail tb \<and>
      num_items tb' = of_nat (length (xs @ [a])) \<and>
      sized (num_buckets tb') (log2_num_buckets tb') (length (buckets tb')) \<and>
      (\<exists>ch. chained t' (num_buckets tb') (buckets tb') ch (set (xs @ [a]))) \<and> uh_head t' = uh_head t \<and>
      room t' = room t \<and> dom (hhs t') = dom (hhs t) \<and> hkv t' = hkv t \<and> app t' = app t) \<or>
    add_to_table (hash_jen k) a t = None \<and> room t < 2 * unat (num_buckets tb)"
proof -
  define tb1 where "tb1 = tb\<lparr>num_items := num_items tb + 1\<rparr>"
  define t1 where "t1 = t\<lparr>tbl := Some tb1\<rparr>"
  obtain e where e: "hhs t1 a = Some e" "hashv e = hash_jen k" using a(3) by (auto simp: hkv_def t1_def)
  have ni: "num_items tb1 = of_nat (length (xs @ [a]))" using tb(4) by (simp add: tb1_def)
  have "length (xs @ [a]) < 2 ^ 32" using len by simp
  then have "(of_nat (length (xs @ [a])) :: u32) \<noteq> 0" by (intro of_nat_pos) simp_all
  then have nz: "num_items tb1 \<noteq> 0" using ni by metis
  have t1: "tbl t1 = Some tb1" "sized (num_buckets tb1) (log2_num_buckets tb1) (length (buckets tb1))"
    "chained t1 (num_buckets tb1) (buckets tb1) ch (set xs)" "room t1 < 2 ^ 32"
    using tb room by (simp_all add: t1_def tb1_def)
  let ?i = "to_bkt (hash_jen k) (num_buckets tb1)"
  have ev: "add_to_table (hash_jen k) a t = add_to_bkt ?i a t1" using tb(1) by (simp add: add_to_table_def t1_def tb1_def)
  from add_to_bkt_correct[OF t1(1-3) nz t1(4) a(1,2) e(1), of ?i] e(2)
  consider t' where "add_to_bkt ?i a t1 = Some t'" "rehashed t1 tb1 (insert a (set xs)) t'" |
    "add_to_bkt ?i a t1 = None" "room t1 < 2 * unat (num_buckets tb1)" by auto
  then show ?thesis
  proof cases
    case 1
    with rehashed_fields[OF 1(2)] ev ni show ?thesis by (auto simp: rehashed_def t1_def tb1_def)
  next
    case 2
    with ev show ?thesis by (simp add: t1_def tb1_def)
  qed
qed

lemma HASH_ADD_correct:
  assumes ok: "uh_ok t xs" and a: "a \<notin> set xs" "a \<noteq> NULL" "hhs t a \<noteq> None" and len: "length xs + 1 < 2 ^ 32"
  shows "(\<exists>t'. HASH_ADD k a t = Some t' \<and> uh_ok t' (xs @ [a]) \<and> hkv t' = (hkv t)(a \<mapsto> (k, hash_jen k)) \<and>
      room t' = room t \<and> dom (hhs t') = dom (hhs t)) \<or>
    HASH_ADD k a t = None \<and> room t < buckets_needed t"
proof -
  from a(3) obtain e where e: "hhs t a = Some e" by auto
  define t0 where "t0 = t\<lparr>hhs := (hhs t)(a \<mapsto> e\<lparr>hashv := hash_jen k, hkey := k\<rparr>)\<rparr>"
  have t0: "app t0 = app t" "chn t0 = chn t" "hkv t0 = (hkv t)(a \<mapsto> (k, hash_jen k))" "dom (hhs t0) = dom (hhs t)"
    using e by (auto simp: t0_def app_def chn_def hkv_def fun_eq_iff)
  have ev0: "upd_hh a (\<lambda>e. e\<lparr>hashv := hash_jen k, hkey := k\<rparr>) t = Some t0" using e by (simp add: upd_hh_def t0_def)
  have ok': "distinct xs" "room t < 2 ^ 32" "uh_head t = first xs NULL" "NULL \<notin> set xs" using ok by (auto simp: uh_ok_def)
  show ?thesis
  proof (cases "xs = []")
    case True
    let ?e = "e\<lparr>hashv := hash_jen k, hkey := k, h_next := NULL, h_prev := NULL\<rparr>"
    define tb where "tb = \<lparr>buckets = replicate 32 empty_bkt, num_buckets = 32, log2_num_buckets = 5, num_items = 0,
       uh_tail = a, ideal_chain_maxlen = 0, nonideal_items = 0, ineff_expands = 0, noexpand = 0\<rparr>"
    define t1 where "t1 = t\<lparr>hhs := (hhs t)(a \<mapsto> ?e), tbl := Some tb, uh_head := a\<rparr>"
    have ev: "HASH_ADD k a t = (if 32 \<le> room t then add_to_table (hash_jen k) a t1 else None)"
      using e True ok'(3) unfolding HASH_ADD_def add_keyptr_byhashvalue_def ev0
      by (simp add: t0_def upd_hh_def make_table_def HASH_INITIAL_NUM_BUCKETS_def
        HASH_INITIAL_NUM_BUCKETS_LOG2_def t1_def tb_def mon)
    have t1: "app t1 a = Some (NULL, NULL)" "hkv t1 = (hkv t)(a \<mapsto> (k, hash_jen k))" "dom (hhs t1) = dom (hhs t)"
      "room t1 = room t" "uh_head t1 = a" "tbl t1 = Some tb" using e
      by (auto simp: t1_def app_def hkv_def fun_eq_iff)
    have ch: "chained t1 (num_buckets tb) (buckets tb) (\<lambda>_. []) (set [])" unfolding tb_def by (simp add: empty_chained)
    have sz: "sized (num_buckets tb) (log2_num_buckets tb) (length (buckets tb))" by (simp add: tb_def sized_def)
    have need: "buckets_needed t = 64" using ok True by (simp add: buckets_needed_def uh_ok_def)
    from add_to_table_correct[where xs = "[]" and a = a and k = k, OF t1(6) sz ch]
    consider t' tb' where "add_to_table (hash_jen k) a t1 = Some t'" "tbl t' = Some tb'" "uh_tail tb' = uh_tail tb"
        "num_items tb' = 1" "sized (num_buckets tb') (log2_num_buckets tb') (length (buckets tb'))"
        "\<exists>ch. chained t' (num_buckets tb') (buckets tb') ch {a}" "uh_head t' = a" "room t' = room t"
        "dom (hhs t') = dom (hhs t)" "hkv t' = (hkv t)(a \<mapsto> (k, hash_jen k))" "app t' = app t1" |
      "add_to_table (hash_jen k) a t1 = None" "room t < 64"
      using t1 a(2) ok'(2) by (auto simp: tb_def)
    then show ?thesis
    proof cases
      case 1
      have "uh_ok t' ([] @ [a])" using 1 ok'(2) a(2) t1(1) by (simp add: uh_ok_def table_of_def tb_def)
      with 1 ev need True show ?thesis by (cases "32 \<le> room t") auto
    next
      case 2
      with ev need show ?thesis by simp
    qed
  next
    case False
    with ok obtain tb ch where tb: "tbl t = Some tb" "num_items tb = of_nat (length xs)" "linked (app t) NULL xs NULL"
      "uh_tail tb = last xs" "sized (num_buckets tb) (log2_num_buckets tb) (length (buckets tb))"
      "\<And>b. b \<in> set xs \<Longrightarrow> \<exists>k. hkv t b = Some (k, hash_jen k)" "chained t (num_buckets tb) (buckets tb) ch (set xs)"
      by (auto simp: uh_ok_def table_of_def final_def)
    let ?l = "last xs"
    have l: "?l \<in> set xs" "?l \<noteq> a" using False a(1) by auto
    from linked_in[OF tb(3) l(1)] obtain x where x: "hhs t ?l = Some x" by (auto simp: app_def)
    define t1 where "t1 = t0\<lparr>hhs := (hhs t0)(a \<mapsto> e\<lparr>hashv := hash_jen k, hkey := k, h_next := NULL, h_prev := ?l\<rparr>,
      ?l \<mapsto> x\<lparr>h_next := a\<rparr>), tbl := Some (tb\<lparr>uh_tail := a\<rparr>)\<rparr>"
    have ev1: "append_list a t0 = Some t1" using tb(1,4) l(2) x e
      by (simp add: append_list_def upd_hh_def t0_def t1_def fun_upd_twist)
    have t1: "app t1 a = Some (?l, NULL)" "app t1 ?l = Some (fst (the (app t ?l)), a)" "chn t1 = chn t"
      "hkv t1 = (hkv t)(a \<mapsto> (k, hash_jen k))" "dom (hhs t1) = dom (hhs t)" "room t1 = room t" "uh_head t1 = uh_head t"
      "\<And>b. b \<noteq> a \<Longrightarrow> b \<noteq> ?l \<Longrightarrow> app t1 b = app t b"
      using e x l(2) by (auto simp: t1_def t0_def app_def chn_def hkv_def fun_eq_iff)
    have ev: "HASH_ADD k a t = add_to_table (hash_jen k) a t1"
      using False ok'(3,4) unfolding HASH_ADD_def add_keyptr_byhashvalue_def ev0
      by (simp add: first_NULL t0_def[symmetric] ev1) (simp add: t0_def first_NULL)
    have lk: "linked (app t1) NULL (xs @ [a]) NULL"
    proof (rule linked_snoc[OF tb(3) a(1,2) ok'(1) False t1(1,2)])
      show "app t1 b = app t b" if "b \<in> set xs" "b \<noteq> ?l" for b by (rule t1(8)) (use that a(1) in auto)
    qed
    define tb1 where "tb1 = tb\<lparr>uh_tail := a\<rparr>"
    have tb1: "tbl t1 = Some tb1" "sized (num_buckets tb1) (log2_num_buckets tb1) (length (buckets tb1))"
      "num_items tb1 = of_nat (length xs)" using tb(2,5) by (simp_all add: t1_def tb1_def)
    have "chained t1 (num_buckets tb) (buckets tb) ch (set xs)"
      by (rule chained_cong[OF _ tb(7)]) (use t1(3,4) a(1) in auto)
    then have ch1: "chained t1 (num_buckets tb1) (buckets tb1) ch (set xs)" by (simp add: tb1_def)
    have hk: "hkv t1 a = Some (k, hash_jen k)" by (simp add: t1(4))
    have r1: "room t1 < 2 ^ 32" using ok'(2) t1(6) by simp
    have need: "buckets_needed t = 2 * unat (num_buckets tb1)" using tb(1) by (simp add: buckets_needed_def tb1_def)
    from add_to_table_correct[OF tb1(1,2) ch1 tb1(3) len r1 a(1,2) hk]
    consider t' tb' where "add_to_table (hash_jen k) a t1 = Some t'" "tbl t' = Some tb'" "uh_tail tb' = a"
        "num_items tb' = of_nat (length (xs @ [a]))" "sized (num_buckets tb') (log2_num_buckets tb') (length (buckets tb'))"
        "\<exists>ch. chained t' (num_buckets tb') (buckets tb') ch (set (xs @ [a]))" "uh_head t' = uh_head t" "room t' = room t"
        "dom (hhs t') = dom (hhs t)" "hkv t' = (hkv t)(a \<mapsto> (k, hash_jen k))" "app t' = app t1" |
      "add_to_table (hash_jen k) a t1 = None" "room t < 2 * unat (num_buckets tb1)"
      using t1(4,5,6,7) by (auto simp: tb1_def)
    then show ?thesis
    proof cases
      case 1
      have "table_of t' tb' (xs @ [a])" unfolding table_of_def
        using 1(3,5,6,10,11) lk tb(6) by (auto simp: final_def)
      then have "uh_ok t' (xs @ [a])" unfolding uh_ok_def
        using 1(2,4,7,8) ok' len a(1,2) False by (cases xs) auto
      with 1(1,8-10) ev show ?thesis by auto
    next
      case 2
      with ev need show ?thesis by simp
    qed
  qed
qed

section \<open>HASH_DELETE\<close>

lemma del_in_bkt_correct:
  assumes tb: "tbl t = Some tb" "sized (num_buckets tb) l (length (buckets tb))"
    and ch: "chained t (num_buckets tb) (buckets tb) ch X"
    and a: "a \<in> X" "hhs t a = Some e" and i: "i = to_bkt (hashv e) (num_buckets tb)"
  shows "\<exists>t' bs ch'. del_in_bkt i a t = Some t' \<and> tbl t' = Some (tb\<lparr>buckets := bs\<rparr>) \<and> length bs = length (buckets tb) \<and>
    chained t' (num_buckets tb) bs ch' (X - {a}) \<and> app t' = app t \<and> hkv t' = hkv t \<and> dom (hhs t') = dom (hhs t) \<and>
    uh_head t' = uh_head t \<and> room t' = room t"
proof -
  let ?n = "num_buckets tb" and ?b = "buckets tb ! unat i"
  have j: "unat i < length (buckets tb)" unfolding i by (rule sized_mask[OF tb(2)])
  have sl: "slot_of t ?n a = unat i" using a(2) by (simp add: slot_of_def hkv_def i)
  have C: "linked (chn t) NULL (ch i) NULL" "distinct (ch i)" "set (ch i) = {a \<in> X. slot_of t ?n a = i}"
    "hh_head (buckets tb ! i) = first (ch i) NULL" "bcount (buckets tb ! i) = of_nat (length (ch i))"
    if "i < length (buckets tb)" for i using ch that by (auto simp: chained_def)
  have "a \<in> set (ch (unat i))" using C(3)[OF j] a(1) sl by simp
  then obtain us vs where uv: "ch (unat i) = us @ a # vs" by (auto dest: split_list)
  have L: "linked (chn t) NULL (us @ a # vs) NULL" "distinct (us @ a # vs)" using C(1,2)[OF j] uv by simp_all
  have nn: "NULL \<notin> set (us @ a # vs)" by (rule linked_not_NULL[OF L(1)])
  let ?p = "final NULL us" and ?q = "first vs NULL"
  have e: "hh_prev e = ?p" "hh_next e = ?q" using L(1) a(2) by (auto simp: linked_append chn_def)
  have pq: "?p \<noteq> a" "?q \<noteq> a" "?p \<noteq> NULL \<Longrightarrow> ?p \<noteq> ?q" "?p = NULL \<longleftrightarrow> us = []" "?q = NULL \<longleftrightarrow> vs = []"
    using L(2) nn by (cases us rule: rev_cases; cases vs; auto)+
  have ex: "?p \<noteq> NULL \<Longrightarrow> \<exists>x. hhs t ?p = Some x" "?q \<noteq> NULL \<Longrightarrow> \<exists>x. hhs t ?q = Some x"
    using linked_in[OF L(1), of ?p] linked_in[OF L(1), of ?q] pq(4,5)
    by (cases us rule: rev_cases; cases vs; force simp: chn_def)+
  obtain t1 where t1: "(if ?p \<noteq> NULL then upd_hh ?p (\<lambda>x. x\<lparr>hh_next := ?q\<rparr>) t else Some t) = Some t1"
    "app t1 = app t" "hkv t1 = hkv t" "dom (hhs t1) = dom (hhs t)" "uh_head t1 = uh_head t" "room t1 = room t" "tbl t1 = tbl t"
    "?p \<noteq> NULL \<Longrightarrow> chn t1 ?p = Some (fst (the (chn t ?p)), ?q)" "\<And>b. b \<noteq> ?p \<or> ?p = NULL \<Longrightarrow> hhs t1 b = hhs t b"
  proof (cases "?p = NULL")
    case True
    then show ?thesis by (intro that[of t]) simp_all
  next
    case False
    with ex(1) obtain x where x: "hhs t ?p = Some x" by blast
    show ?thesis
      by (rule that[of "t\<lparr>hhs := (hhs t)(?p \<mapsto> x\<lparr>hh_next := ?q\<rparr>)\<rparr>"])
        (use x False in \<open>auto simp: upd_hh_def app_def chn_def hkv_def fun_eq_iff\<close>)
  qed
  obtain t2 where t2: "(if ?q \<noteq> NULL then upd_hh ?q (\<lambda>x. x\<lparr>hh_prev := ?p\<rparr>) t1 else Some t1) = Some t2"
    "app t2 = app t1" "hkv t2 = hkv t1" "dom (hhs t2) = dom (hhs t1)" "uh_head t2 = uh_head t1" "room t2 = room t1" "tbl t2 = tbl t1"
    "?q \<noteq> NULL \<Longrightarrow> chn t2 ?q = Some (?p, snd (the (chn t1 ?q)))" "\<And>b. b \<noteq> ?q \<or> ?q = NULL \<Longrightarrow> hhs t2 b = hhs t1 b"
  proof (cases "?q = NULL")
    case True
    then show ?thesis by (intro that[of t1]) simp_all
  next
    case False
    with ex(2) t1(9)[of ?q] pq(3) obtain x where x: "hhs t1 ?q = Some x" by (cases "?p = NULL") auto
    show ?thesis
      by (rule that[of "t1\<lparr>hhs := (hhs t1)(?q \<mapsto> x\<lparr>hh_prev := ?p\<rparr>)\<rparr>"])
        (use x False in \<open>auto simp: upd_hh_def app_def chn_def hkv_def fun_eq_iff\<close>)
  qed
  define b where "b = (if hh_head ?b = a then ?b\<lparr>bcount := bcount ?b - 1, hh_head := ?q\<rparr> else ?b\<lparr>bcount := bcount ?b - 1\<rparr>)"
  define bs where "bs = (buckets tb)[unat i := b]"
  define t3 where "t3 = t2\<lparr>tbl := Some (tb\<lparr>buckets := bs\<rparr>)\<rparr>"
  have ev: "del_in_bkt i a t = Some t3"
    using tb(1) j a(2) e t1(1) t2(1)
    by (cases "?p = NULL"; cases "?q = NULL") (simp_all add: del_in_bkt_def nth_bkt_def Let_def t3_def bs_def b_def)
  have K: "chn t2 c = chn t c" if "c \<noteq> ?p \<or> ?p = NULL" "c \<noteq> ?q \<or> ?q = NULL" for c
    using t1(9)[of c] t2(9)[of c] that by (simp add: chn_def)
  have cp: "?p \<noteq> NULL \<Longrightarrow> chn t2 ?p = Some (fst (the (chn t ?p)), ?q)"
    using t1(8) t2(9)[of ?p] pq(3) by (simp add: chn_def)
  have cq: "?q \<noteq> NULL \<Longrightarrow> chn t2 ?q = Some (?p, snd (the (chn t ?q)))"
    using t2(8) t1(9)[of ?q] pq(3) by (cases "?p = NULL") (auto simp: chn_def)
  have "linked (chn t2) NULL (us @ vs) NULL"
  proof (rule linked_remove[OF L])
    show "us \<noteq> [] \<Longrightarrow> chn t2 (last us) = Some (fst (the (chn t (last us))), ?q)" using cp pq(4) by (simp add: final_def)
    show "vs \<noteq> [] \<Longrightarrow> chn t2 ?q = Some (?p, snd (the (chn t ?q)))" using cq pq(5) by simp
    show "chn t2 c = chn t c" if "c \<in> set (us @ vs)" "us \<noteq> [] \<longrightarrow> c \<noteq> last us" "c \<noteq> ?q" for c
      using that by (intro K) (auto simp: final_def)
  qed
  moreover have "hh_head b = first (us @ vs) NULL" "bcount b = of_nat (length (us @ vs))"
    using C(4,5)[OF j] uv L(2) by (cases us; auto simp: b_def)+
  moreover have "linked (chn t2) NULL (ch m) NULL" if m: "m < length (buckets tb)" "m \<noteq> unat i" for m
  proof -
    have dj: "set (ch m) \<inter> set (ch (unat i)) = {}" using C(3)[OF m(1)] C(3)[OF j] m(2) by auto
    have "?p = NULL \<or> ?p \<in> set (ch (unat i))" "?q = NULL \<or> ?q \<in> set (ch (unat i))"
      using pq(4,5) uv by (cases us rule: rev_cases; cases vs; auto)+
    then have "linked (chn t2) NULL (ch m) NULL = linked (chn t) NULL (ch m) NULL"
      using dj by (intro linked_cong K) auto
    with C(1)[OF m(1)] show ?thesis by simp
  qed
  moreover have "slot_of t2 ?n c = slot_of t ?n c" for c using t1(3) t2(3) by (simp add: slot_of_def)
  ultimately have "chained t2 ?n bs (ch(unat i := us @ vs)) (X - {a})"
    unfolding chained_def
  proof (intro allI impI, goal_cases)
    case (1 m)
    then have m: "m < length (buckets tb)" by (simp add: bs_def)
    show ?case
    proof (cases "m = unat i")
      case True
      have "set (us @ vs) = {c \<in> X - {a}. slot_of t ?n c = unat i}" using C(3)[OF j] uv L(2) by auto
      with True 1(1-3,5) j L(2) show ?thesis by (simp add: bs_def)
    next
      case False
      with C(2-5)[OF m] 1(4)[OF m False] 1(5) sl show ?thesis by (auto simp: bs_def)
    qed
  qed
  then show ?thesis using ev t1(2-6) t2(2-6) by (auto simp: t3_def bs_def intro!: exI[of _ "(buckets tb)[unat i := b]"])
qed

lemma HASH_DELETE_correct:
  assumes ok: "uh_ok t (xs @ a # ys)"
  shows "\<exists>t'. HASH_DELETE a t = Some t' \<and> uh_ok t' (xs @ ys) \<and> hkv t' = hkv t \<and> room t' = room t \<and>
    dom (hhs t') = dom (hhs t)"
proof -
  from ok have d: "distinct (xs @ a # ys)" "length (xs @ a # ys) < 2 ^ 32" "room t < 2 ^ 32"
      "uh_head t = first (xs @ a # ys) NULL" "NULL \<notin> set (xs @ a # ys)" unfolding uh_ok_def by blast+
  have "xs @ a # ys \<noteq> []" by simp
  with ok obtain tb where t0: "tbl t = Some tb" "num_items tb = of_nat (length (xs @ a # ys))" "table_of t tb (xs @ a # ys)"
    unfolding uh_ok_def by blast
  then obtain ch where tb: "tbl t = Some tb" "num_items tb = of_nat (length (xs @ a # ys))" "linked (app t) NULL (xs @ a # ys) NULL"
      "uh_tail tb = final NULL (xs @ a # ys)" "sized (num_buckets tb) (log2_num_buckets tb) (length (buckets tb))"
      "\<And>b. b \<in> set (xs @ a # ys) \<Longrightarrow> \<exists>k. hkv t b = Some (k, hash_jen k)"
      "chained t (num_buckets tb) (buckets tb) ch (set (xs @ a # ys))"
    unfolding table_of_def by blast
  let ?p = "final NULL xs" and ?q = "first ys NULL"
  have "app t a = Some (?p, ?q)" using tb(3) by (simp add: linked_append)
  then obtain e where e: "hhs t a = Some e" "h_prev e = ?p" "h_next e = ?q" by (auto simp: app_def)
  have pq: "?p \<noteq> a" "?q \<noteq> a" "?p \<noteq> NULL \<Longrightarrow> ?p \<noteq> ?q" "?p = NULL \<longleftrightarrow> xs = []" "?q = NULL \<longleftrightarrow> ys = []"
    using d(1,5) by (cases xs rule: rev_cases; cases ys; auto)+
  show ?thesis
  proof (cases "xs = [] \<and> ys = []")
    case True
    have "HASH_DELETE a t = Some (t\<lparr>uh_head := NULL, tbl := None\<rparr>)"
      using e True d(4,5) by (simp add: HASH_DELETE_def)
    moreover have "uh_ok (t\<lparr>uh_head := NULL, tbl := None\<rparr>) []" using d(3) by (simp add: uh_ok_def)
    ultimately show ?thesis using True by auto
  next
    case False
    have ex: "?p \<noteq> NULL \<Longrightarrow> \<exists>x. hhs t ?p = Some x" "?q \<noteq> NULL \<Longrightarrow> \<exists>x. hhs t ?q = Some x"
      using linked_in[OF tb(3), of ?p] linked_in[OF tb(3), of ?q] pq(4,5)
      by (cases xs rule: rev_cases; cases ys; force simp: app_def)+
    obtain t1 where t1: "(if ?p \<noteq> NULL then upd_hh ?p (\<lambda>x. x\<lparr>h_next := ?q\<rparr>) t else Some (t\<lparr>uh_head := ?q\<rparr>)) = Some t1"
      "chn t1 = chn t" "hkv t1 = hkv t" "dom (hhs t1) = dom (hhs t)" "uh_head t1 = first (xs @ ys) NULL" "room t1 = room t"
      "tbl t1 = tbl t"
      "?p \<noteq> NULL \<Longrightarrow> app t1 ?p = Some (fst (the (app t ?p)), ?q)" "\<And>b. b \<noteq> ?p \<or> ?p = NULL \<Longrightarrow> hhs t1 b = hhs t b"
    proof (cases "?p = NULL")
      case True
      then have "xs = []" using pq(4) by simp
      with True show ?thesis by (intro that[of "t\<lparr>uh_head := ?q\<rparr>"]) simp_all
    next
      case False
      with ex(1) obtain x where x: "hhs t ?p = Some x" by blast
      from False pq(4) have "uh_head t = first (xs @ ys) NULL" using d(4) by (cases xs) auto
      with x False show ?thesis
        by (intro that[of "t\<lparr>hhs := (hhs t)(?p \<mapsto> x\<lparr>h_next := ?q\<rparr>)\<rparr>"])
          (auto simp: upd_hh_def app_def chn_def hkv_def fun_eq_iff)
    qed
    obtain t2 where t2: "(if ?q \<noteq> NULL then upd_hh ?q (\<lambda>x. x\<lparr>h_prev := ?p\<rparr>) t1 else Some t1) = Some t2"
      "chn t2 = chn t1" "hkv t2 = hkv t1" "dom (hhs t2) = dom (hhs t1)" "uh_head t2 = uh_head t1" "room t2 = room t1"
      "tbl t2 = tbl t1"
      "?q \<noteq> NULL \<Longrightarrow> app t2 ?q = Some (?p, snd (the (app t1 ?q)))" "\<And>b. b \<noteq> ?q \<or> ?q = NULL \<Longrightarrow> hhs t2 b = hhs t1 b"
    proof (cases "?q = NULL")
      case True
      then show ?thesis by (intro that[of t1]) simp_all
    next
      case False
      with ex(2) t1(9)[of ?q] pq(3) obtain x where x: "hhs t1 ?q = Some x" by (cases "?p = NULL") auto
      show ?thesis
        by (rule that[of "t1\<lparr>hhs := (hhs t1)(?q \<mapsto> x\<lparr>h_prev := ?p\<rparr>)\<rparr>"])
          (use x False in \<open>auto simp: upd_hh_def app_def chn_def hkv_def fun_eq_iff\<close>)
    qed
    define tb1 where "tb1 = (if a = uh_tail tb then tb\<lparr>uh_tail := ?p\<rparr> else tb)"
    define t3 where "t3 = t2\<lparr>tbl := Some tb1\<rparr>"
    have tb1: "num_buckets tb1 = num_buckets tb" "log2_num_buckets tb1 = log2_num_buckets tb" "buckets tb1 = buckets tb"
      "num_items tb1 = num_items tb" by (simp_all add: tb1_def)
    have tail: "uh_tail tb1 = final NULL (xs @ ys)"
      using tb(4) d(1) by (cases ys rule: rev_cases) (auto simp: tb1_def final_def)
    have K: "app t2 c = app t c" if "c \<noteq> ?p \<or> ?p = NULL" "c \<noteq> ?q \<or> ?q = NULL" for c
      using t1(9)[of c] t2(9)[of c] that by (simp add: app_def)
    have cp: "?p \<noteq> NULL \<Longrightarrow> app t2 ?p = Some (fst (the (app t ?p)), ?q)"
      using t1(8) t2(9)[of ?p] pq(3) by (simp add: app_def)
    have cq: "?q \<noteq> NULL \<Longrightarrow> app t2 ?q = Some (?p, snd (the (app t ?q)))"
      using t2(8) t1(9)[of ?q] pq(3) by (cases "?p = NULL") (auto simp: app_def)
    have lk: "linked (app t2) NULL (xs @ ys) NULL"
    proof (rule linked_remove[OF tb(3) d(1)])
      show "xs \<noteq> [] \<Longrightarrow> app t2 (last xs) = Some (fst (the (app t (last xs))), ?q)" using cp pq(4) by (simp add: final_def)
      show "ys \<noteq> [] \<Longrightarrow> app t2 ?q = Some (?p, snd (the (app t ?q)))" using cq pq(5) by simp
      show "app t2 c = app t c" if "c \<in> set (xs @ ys)" "xs \<noteq> [] \<longrightarrow> c \<noteq> last xs" "c \<noteq> ?q" for c
        using that by (intro K) (auto simp: final_def)
    qed
    have e3: "hhs t3 a = Some e" using e(1) t1(9)[of a] t2(9)[of a] pq(1,2) by (simp add: t3_def)
    have c3: "chained t3 (num_buckets tb1) (buckets tb1) ch (set (xs @ a # ys))"
      by (rule chained_cong[OF _ tb(7)[folded tb1]]) (simp add: t3_def t1(2,3) t2(2,3))
    have "tbl t3 = Some tb1" by (simp add: t3_def)
    from del_in_bkt_correct[OF this tb(5)[folded tb1] c3 _ e3 refl] obtain t4 bs ch' where
      t4: "del_in_bkt (to_bkt (hashv e) (num_buckets tb1)) a t3 = Some t4" "tbl t4 = Some (tb1\<lparr>buckets := bs\<rparr>)"
      "length bs = length (buckets tb1)" "chained t4 (num_buckets tb1) bs ch' (set (xs @ a # ys) - {a})"
      "app t4 = app t3" "hkv t4 = hkv t3" "dom (hhs t4) = dom (hhs t3)" "uh_head t4 = uh_head t3" "room t4 = room t3"
      by auto
    define tb4 where "tb4 = tb1\<lparr>buckets := bs, num_items := num_items tb1 - 1\<rparr>"
    define t5 where "t5 = t4\<lparr>tbl := Some tb4\<rparr>"
    have ne: "\<not> (?p = NULL \<and> ?q = NULL)" using False pq(4,5) by simp
    have "HASH_DELETE a t = Some t5"
      using e tb(1) t1(1) t2(1) t4(1,2) ne
      by (cases "?p = NULL"; cases "?q = NULL"; cases "a = uh_tail tb")
        (simp_all add: HASH_DELETE_def tb1_def t3_def t5_def tb4_def)
    moreover have "uh_ok t5 (xs @ ys)"
    proof -
      have "set (xs @ a # ys) - {a} = set (xs @ ys)" using d(1) by auto
      with t4(4) have "chained t5 (num_buckets tb4) (buckets tb4) ch' (set (xs @ ys))" by (simp add: t5_def tb4_def)
      moreover have "sized (num_buckets tb4) (log2_num_buckets tb4) (length (buckets tb4))" using tb(5) t4(3) by (simp add: tb4_def tb1)
      moreover have "\<exists>k. hkv t5 b = Some (k, hash_jen k)" if "b \<in> set (xs @ ys)" for b
        using tb(6)[of b] that t4(6) t1(3) t2(3) by (simp add: t5_def t3_def)
      ultimately have "table_of t5 tb4 (xs @ ys)" unfolding table_of_def
        using lk t4(5) tail by (auto simp: t5_def tb4_def t3_def)
      then show ?thesis using d False t1(5,6) t2(5,6) t4(8,9) tb(2)
        by (auto simp: uh_ok_def t5_def tb4_def t3_def tb1(4))
    qed
    ultimately show ?thesis using t1(3,4,6) t2(3,4,6) t4(6,7,9) by (auto simp: t5_def t3_def)
  qed
qed

section \<open>HASH_ITER and HASH_COUNT\<close>

lemma iter_linked: "linked (app t) p xs NULL \<Longrightarrow> iter_from (first xs NULL) t = Some xs"
proof (induction xs arbitrary: p)
  case (Cons a xs)
  then have "a \<noteq> NULL" "app t a = Some (p, first xs NULL)" "iter_from (first xs NULL) t = Some xs" by auto
  then show ?case by (subst first_simps, subst iter_from.simps) (auto simp: app_def)
qed (simp add: iter_from.simps)

lemma HASH_ITER_correct: "uh_ok t xs \<Longrightarrow> HASH_ITER t = Some xs \<and> HASH_COUNT t = Some (of_nat (length xs))"
proof (cases "xs = []")
  case False
  assume ok: "uh_ok t xs"
  with False obtain tb where tb: "tbl t = Some tb" "linked (app t) NULL xs NULL" "num_items tb = of_nat (length xs)"
    "uh_head t = first xs NULL" "NULL \<notin> set xs" by (auto simp: uh_ok_def table_of_def)
  with iter_linked[OF tb(2)] False show ?thesis by (simp add: HASH_ITER_def HASH_COUNT_def first_NULL)
qed (simp add: uh_ok_def HASH_ITER_def HASH_COUNT_def iter_from.simps)

section \<open>The contract\<close>

text \<open>A table of the elements \<open>xs\<close>, with distinct keys.\<close>

definition uh_keyed :: "uthash \<Rightarrow> addr list \<Rightarrow> bool" where
  "uh_keyed t xs \<longleftrightarrow> uh_ok t xs \<and> keys_unique (key_at t) xs"

lemma HASH_FIND_keyed:
  assumes "uh_keyed t xs"
  shows "HASH_FIND k t = Some (case hash_find (key_at t) k xs of None \<Rightarrow> NULL | Some a \<Rightarrow> a)"
proof -
  from assms have ok: "uh_ok t xs" and u: "keys_unique (key_at t) xs" by (simp_all add: uh_keyed_def)
  from HASH_FIND_correct[OF ok, of k] obtain r where r: "HASH_FIND k t = Some r"
    "r = NULL \<longleftrightarrow> (\<forall>a \<in> set xs. key_at t a \<noteq> Some k)" "r \<noteq> NULL \<longrightarrow> r \<in> set xs \<and> key_at t r = Some k" by blast
  show ?thesis
  proof (cases "r = NULL")
    case True
    with r(2) have "hash_find (key_at t) k xs = None" by (simp add: uth.find_None)
    with r(1) True show ?thesis by simp
  next
    case False
    with r(3) have "hash_find (key_at t) k xs = Some r" by (intro uth.find_unique[OF u]) auto
    with r(1) show ?thesis by simp
  qed
qed

lemma HASH_ADD_keyed:
  assumes "uh_keyed t xs" "HASH_FIND k t = Some NULL" "a \<notin> set xs" "a \<noteq> NULL" "hhs t a \<noteq> None" "length xs + 1 < 2 ^ 32"
  shows "(\<exists>t'. HASH_ADD k a t = Some t' \<and> uh_keyed t' (hash_add a xs) \<and> key_at t' = (key_at t)(a \<mapsto> k) \<and>
      dom (hhs t') = dom (hhs t) \<and> room t' = room t) \<or>
    HASH_ADD k a t = None \<and> room t < buckets_needed t"
proof -
  from assms(1) have ok: "uh_ok t xs" and u: "keys_unique (key_at t) xs" by (simp_all add: uh_keyed_def)
  have nk: "key_at t b \<noteq> Some k" if "b \<in> set xs" for b using HASH_FIND_correct[OF ok, of k] assms(2) that by auto
  show ?thesis
  proof (cases "HASH_ADD k a t")
    case None
    with HASH_ADD_correct[OF ok assms(3-6), of k] show ?thesis by simp
  next
    case (Some t')
    with HASH_ADD_correct[OF ok assms(3-6), of k] have t': "uh_ok t' (xs @ [a])" "hkv t' = (hkv t)(a \<mapsto> (k, hash_jen k))"
      "dom (hhs t') = dom (hhs t)" "room t' = room t" by auto
    then have ka: "key_at t' = (key_at t)(a \<mapsto> k)" by (auto simp: key_at_hkv fun_eq_iff)
    have "key_at t' b = key_at t b" if "b \<in> set xs" for b using ka that assms(3) by auto
    then have "keys_unique (key_at t') (xs @ [a])"
      using u ka nk nk[symmetric] assms(3) by (auto simp: keys_unique_def)
    with Some t' ka show ?thesis by (simp add: uh_keyed_def hash_add_def)
  qed
qed

lemma HASH_DELETE_keyed:
  assumes "uh_keyed t xs" "a \<in> set xs"
  shows "\<exists>t' ys. HASH_DELETE a t = Some t' \<and> hash_delete a xs = Some ys \<and> uh_keyed t' ys \<and> key_at t' = key_at t \<and>
    dom (hhs t') = dom (hhs t) \<and> room t' = room t"
proof -
  from assms(2) obtain us vs where x: "xs = us @ a # vs" by (auto dest: split_list)
  from assms(1) have ok: "uh_ok t (us @ a # vs)" and u: "keys_unique (key_at t) xs" by (simp_all add: uh_keyed_def x)
  from HASH_DELETE_correct[OF ok] obtain t' where t': "HASH_DELETE a t = Some t'" "uh_ok t' (us @ vs)" "hkv t' = hkv t"
    "room t' = room t" "dom (hhs t') = dom (hhs t)" by blast
  have "a \<notin> set us" using ok by (simp add: uh_ok_def)
  then have d: "hash_delete a xs = Some (us @ vs)" by (simp add: hash_delete_def x remove1_append)
  have ka: "key_at t' = key_at t" using t'(3) by (simp add: key_at_hkv fun_eq_iff)
  with uth.unique_del[OF u d] t' d show ?thesis by (auto simp: uh_keyed_def)
qed

text \<open>Deleting a handle that has no neighbours drops the table, whether the handle is in it or not.\<close>

lemma HASH_DELETE_alone:
  assumes "hhs t a = Some e" "h_prev e = NULL" "h_next e = NULL" "uh_head t \<noteq> NULL"
  shows "HASH_DELETE a t = Some (t\<lparr>uh_head := NULL, tbl := None\<rparr>)"
  using assms by (simp add: HASH_DELETE_def)

section \<open>An example\<close>

definition uh_blank :: handle where
  "uh_blank = \<lparr>h_prev = NULL, h_next = NULL, hh_prev = NULL, hh_next = NULL, hkey = [], hashv = 0\<rparr>"

text \<open>Two elements outside an empty table.\<close>

definition uh_ex :: uthash where
  "uh_ex = \<lparr>uh_head = NULL, tbl = None, hhs = [1 \<mapsto> uh_blank, 2 \<mapsto> uh_blank], room = 1000\<rparr>"

lemma uh_ex_keyed: "uh_keyed uh_ex []"
  by (simp add: uh_keyed_def keys_unique_def uh_ok_def uh_ex_def)

lemma HASH_ADD_first:
  assumes "uh_head t = NULL" "hhs t a = Some e" "HASH_ADD k a t = Some t'"
  shows "(\<exists>tb. tbl t' = Some tb \<and> num_buckets tb = 32) \<and> uh_head t' = a \<and> (\<forall>b. b \<noteq> a \<longrightarrow> hhs t' b = hhs t b) \<and>
    (\<exists>e'. hhs t' a = Some e' \<and> h_prev e' = NULL \<and> h_next e' = NULL)"
  using assms
  by (cases "32 \<le> room t") (auto simp: word_le_nat_alt HASH_ADD_def add_keyptr_byhashvalue_def make_table_def add_to_table_def add_to_bkt_def nth_bkt_def
      upd_hh_def empty_bkt_def HASH_INITIAL_NUM_BUCKETS_def HASH_BKT_CAPACITY_THRESH_def Let_def split: if_splits)

lemma uh_ex_two:
  "\<exists>t t'. HASH_ADD [7] 1 uh_ex = Some t \<and> uh_keyed t [1] \<and> HASH_FIND [9] t = Some NULL \<and> hhs t 2 \<noteq> None \<and> room t = 1000 \<and>
    HASH_ADD [9] 2 t = Some t' \<and> uh_keyed t' [1, 2] \<and> key_at t' = [1 \<mapsto> [7], 2 \<mapsto> [9]]"
proof -
  have f: "HASH_FIND [7] uh_ex = Some NULL" using HASH_FIND_keyed[OF uh_ex_keyed] by (simp add: hash_find_def)
  have m: "hhs uh_ex 1 \<noteq> None" "room uh_ex = 1000" "buckets_needed uh_ex = 64" "dom (hhs uh_ex) = {1, 2}"
    "key_at uh_ex = [1 \<mapsto> [], 2 \<mapsto> []]"
    by (auto simp: uh_ex_def buckets_needed_def key_at_def uh_blank_def fun_eq_iff)
  from HASH_ADD_keyed[OF uh_ex_keyed f _ _ m(1)] obtain t where
    t: "HASH_ADD [7] 1 uh_ex = Some t" "uh_keyed t [1]" "key_at t = [1 \<mapsto> [7], 2 \<mapsto> []]" "dom (hhs t) = {1, 2}" "room t = 1000"
    using m(2-5) by (auto simp: hash_add_def fun_upd_twist)
  have g: "HASH_FIND [9] t = Some NULL" using HASH_FIND_keyed[OF t(2), of "[9]"] t(3) by (simp add: hash_find_def)
  have d: "hhs t 2 \<noteq> None" using t(4) by auto
  obtain tb where "tbl t = Some tb" "num_buckets tb = 32"
    using HASH_ADD_first[OF _ _ t(1)] by (auto simp: uh_ex_def)
  then have "buckets_needed t \<le> 1000" by (simp add: buckets_needed_def)
  with HASH_ADD_keyed[OF t(2) g _ _ d] t(3,5) obtain t' where
    "HASH_ADD [9] 2 t = Some t'" "uh_keyed t' [1, 2]" "key_at t' = [1 \<mapsto> [7], 2 \<mapsto> [9]]" by (auto simp: hash_add_def)
  with t g d show ?thesis by blast
qed

text \<open>The first element is added and deleted, then the second one is added: the handle of the first has no neighbours.\<close>

lemma uh_ex_stale:
  "\<exists>t t' t'' e. HASH_ADD [7] 1 uh_ex = Some t \<and> HASH_DELETE 1 t = Some t' \<and> HASH_ADD [7] 2 t' = Some t'' \<and> uh_keyed t'' [2] \<and>
    hhs t'' 1 = Some e \<and> h_prev e = NULL \<and> h_next e = NULL \<and> uh_head t'' \<noteq> NULL"
proof -
  from uh_ex_two obtain t where t: "HASH_ADD [7] 1 uh_ex = Some t" "uh_keyed t [1]" "hhs t 2 \<noteq> None" "room t = 1000" by auto
  have "hhs uh_ex 1 = Some uh_blank" "uh_head uh_ex = NULL" by (simp_all add: uh_ex_def)
  from HASH_ADD_first[OF this(2,1) t(1)] obtain e where e: "hhs t 1 = Some e" "h_prev e = NULL" "h_next e = NULL" "uh_head t = 1" by auto
  have d: "HASH_DELETE 1 t = Some (t\<lparr>uh_head := NULL, tbl := None\<rparr>)" using e by (intro HASH_DELETE_alone) auto
  let ?t = "t\<lparr>uh_head := NULL, tbl := None\<rparr>"
  from HASH_DELETE_keyed[OF t(2), of 1] d have k: "uh_keyed ?t []" by (auto simp: hash_delete_def)
  have f: "HASH_FIND [7] ?t = Some NULL" using HASH_FIND_keyed[OF k] by (simp add: hash_find_def)
  have "buckets_needed ?t = 64" by (simp add: buckets_needed_def)
  with HASH_ADD_keyed[OF k f, of 2] t(3,4) obtain t'' where t'': "HASH_ADD [7] 2 ?t = Some t''" "uh_keyed t'' [2]"
    by (auto simp: hash_add_def)
  from t(3) obtain e2 where "hhs ?t 2 = Some e2" by auto
  with HASH_ADD_first[OF _ this t''(1)] e have "hhs t'' 1 = Some e" "uh_head t'' \<noteq> NULL" by auto
  with t(1) d t'' e show ?thesis by blast
qed

end
