(* ===== verification/Wrapfs_Kernel.thy ===== *)
theory Wrapfs_Kernel
  imports Prelude "HOL-Library.State_Monad" "HOL-Library.Multiset"
begin

text \<open>
  The ground the kernel module \<open>src/wrapfs\<close> stands on. The module is a stackable file system: each
  of its operations calls the kernel's VFS on the objects of the file system below. The kernel is
  not under \<open>src\<close>, so it is a parameter: a \<open>kernel\<close> answers each call (\<open>k_ret\<close>) and
  each read of a field of one of its structures (\<open>k_view\<close>) by any function of the calls made so far.
  A program of the module is a term of the state monad over \<open>kst\<close>: the kernel, the log of the
  calls made (newest first) with their results, and the module's own private data, which are the
  only things the module itself keeps.

  Pointers are integers as the kernel's \<open>ERR_PTR\<close> convention has them: 0 is \<open>NULL\<close>, a
  negative number an error, a positive number an address. What an operation must keep is stated by
  the ledger: \<open>ledger l\<close> is the multiset of the references, locks and allocations that the calls
  of \<open>l\<close> have taken and not given back, and \<open>None\<close> once a call used an object without holding a
  reference to it, gave back what was not held, took a lock twice, or went through a null pointer.
\<close>

section \<open>Constants of the kernel's interface\<close>

abbreviation (input) ENOENT :: int where "ENOENT \<equiv> 2"
abbreviation (input) ECHILD :: int where "ECHILD \<equiv> 10"
abbreviation (input) ENOMEM :: int where "ENOMEM \<equiv> 12"
abbreviation (input) EBUSY :: int where "EBUSY \<equiv> 16"
abbreviation (input) EXDEV :: int where "EXDEV \<equiv> 18"
abbreviation (input) EINVAL :: int where "EINVAL \<equiv> 22"
abbreviation (input) ENOTTY :: int where "ENOTTY \<equiv> 25"
abbreviation (input) ENOTEMPTY :: int where "ENOTEMPTY \<equiv> 39"
abbreviation (input) EOPNOTSUPP :: int where "EOPNOTSUPP \<equiv> 95"
abbreviation (input) ESTALE :: int where "ESTALE \<equiv> 116"
abbreviation (input) EIOCBQUEUED :: int where "EIOCBQUEUED \<equiv> 529"

definition LOOKUP_FOLLOW :: int where "LOOKUP_FOLLOW = 1"
definition LOOKUP_DIRECTORY :: int where "LOOKUP_DIRECTORY = 2"
definition LOOKUP_RCU :: int where "LOOKUP_RCU = 64"
definition LOOKUP_CREATE :: int where "LOOKUP_CREATE = 512"
definition LOOKUP_RENAME_TARGET :: int where "LOOKUP_RENAME_TARGET = 2048"
definition ATTR_MODE :: int where "ATTR_MODE = 1"
definition ATTR_SIZE :: int where "ATTR_SIZE = 8"
definition ATTR_KILL_SUID :: int where "ATTR_KILL_SUID = 2048"
definition ATTR_KILL_SGID :: int where "ATTR_KILL_SGID = 4096"
definition ATTR_FILE :: int where "ATTR_FILE = 8192"
definition MS_RDONLY :: int where "MS_RDONLY = 1"
definition MS_MANDLOCK :: int where "MS_MANDLOCK = 64"
definition MS_SILENT :: int where "MS_SILENT = 32768"
definition VM_WRITE :: int where "VM_WRITE = 2"
definition VM_SHARED :: int where "VM_SHARED = 8"
definition XATTR_REPLACE :: int where "XATTR_REPLACE = 2"
definition IOP_XATTR :: int where "IOP_XATTR = 8"
definition PAGE_SIZE :: int where "PAGE_SIZE = 4096"

text \<open>\<open>IS_ERR\<close> of a pointer, and the conversion of a \<open>long\<close> to an \<open>int\<close>.\<close>

definition IS_ERR :: "int \<Rightarrow> bool" where "IS_ERR p = (p < 0)"

definition to_int :: "int \<Rightarrow> int" where "to_int x = (x + 2 ^ 31) mod 2 ^ 32 - 2 ^ 31"

lemma to_int_id [simp]: "- (2 ^ 31) \<le> x \<Longrightarrow> x < 2 ^ 31 \<Longrightarrow> to_int x = x"
  by (simp add: to_int_def)

section \<open>The calls into the kernel\<close>

text \<open>A \<open>struct path\<close>: a directory entry and the mount it is reached through.\<close>

record lpath =
  p_dentry :: int
  p_mnt :: int

definition path_of :: "int \<Rightarrow> int \<Rightarrow> lpath" where
  "path_of d m = \<lparr>p_dentry = d, p_mnt = m\<rparr>"

lemma path_of_simps [simp]: "p_dentry (path_of d m) = d" "p_mnt (path_of d m) = m"
  by (simp_all add: path_of_def)

text \<open>
  The operations of the file systems and of the VFS that take no reference and give none: the
  lower file system's (on lower objects), the attribute copies of \<open>fs_stack.h\<close>, and the updates of
  the VFS's own objects. Names, buffers, modes and iterators are passed through as opaque values.
\<close>

datatype (plugins only: code) vfs =
    VfsCreate int int int int | VfsLink int int int | VfsUnlink int int | VfsSymlink int int int
  | VfsMkdir int int int | VfsRmdir int int | VfsMknod int int int int
  | VfsRename int int int int | VfsReadlink int int int | InodePermission int int
  | SetattrPrepare int int | InodeNewsizeOk int int | TruncateSetsize int int
  | NotifyChange int int int | VfsGetattr lpath | GenericFillattr int int
  | VfsSetxattr int int int int int | VfsGetxattr int int int int | VfsListxattr int int int
  | VfsRemovexattr int int | DRevalidate int int | VfsStatfs lpath int
  | VfsRead int int int int | VfsWrite int int int int | IterateDir int int
  | UnlockedIoctl int int int | CompatIoctl int int int | LowerMmap int int
  | FileAccessed int | FilemapWriteAndWait int | LowerFlush int int
  | GenericFileFsync int int int int | VfsFsyncRange int int int int | LowerFasync int int int
  | GenericFileLlseek int int int | LowerReadIter int int int | LowerWriteIter int int int
  | LowerFault int int int | LowerPageMkwrite int int int | UmountBegin int

datatype (plugins only: code) field =
    IIno | IVersion | IOp | IFop | IAops | ITimes | ICtime | FPos | VmOps | FAops | KiFilp
  | SMaxbytes | STimeGran | SOp | SXattr | SExportOp | SRoot | StatBlocks | BufFType | BufEnd

datatype copy = AttrTimes | AttrAtime | AttrAll | InodeSize

datatype (plugins only: code) call =
    Fault
  | SpinInit int | SpinLock int | SpinUnlock int
  | PathGet lpath | PathPut lpath | GotPath lpath
  | Dget int | Dput int | DgetParent int | Mntget int
  | InodeLock int | InodeUnlock int | LockRename int int | UnlockRename int int
  | Igrab int | Iput int | Ilookup int int | Iget5 int int int | UnlockNewInode int
  | InitSpecialInode int int int | TruncatePages int | ClearInode int
  | DSetDOp int | DSpliceAlias int int | DLookup int int int | DAlloc int int int | DAdd int
  | DDrop int | DRehash int | DMakeRoot int | SetNlink int int | ClearNlink int
  | ISizeWrite int int
  | GetFile int | Fput int | DentryOpen lpath int int
  | Kzalloc | Kmalloc int | Kfree int | CacheAlloc int | CacheFree int int
  | CacheCreate bool | CacheDestroy int | SActiveInc int | SActiveDec int
  | VfsPathLookup int int int | KernPath int int | RegisterFs | UnregisterFs
  | SetFs int | SetDelayedCall int int
  | Assign field int int
  | Copy copy int int
  | Lower vfs

text \<open>The fields of kernel structures that the module reads.\<close>

datatype (plugins only: code) query =
    DInode int | DSb int | DName int | IsRoot int | DUnhashed int | HasRevalidate int
  | NfsRenamed int | ISb int | IIsNew int | INumber int | IMode int | IRdev int | INlink int
  | IsDir int | IsLnk int | IsSpecial int | ISize int | IHasReadlink int | IOpflags int
  | FDentry int | FFlags int | FInode int | FPosition int | FOp int | HasIoctl int
  | HasCompatIoctl int | HasFlush int | HasFasync int | HasReadIter int | HasWriteIter int
  | HasWritepage int | VmaFlags int | VmaOps int | VmaFile int | HasPageMkwrite int
  | OutDentry | OutMnt | NameHash int int | CurrentCred | CurrentFs | LowerBlocks
  | SMaxbytesOf int | IVer int | IocbFile int | HasUmountBegin int

type_synonym klog = "(call \<times> int) list"

record kernel =
  k_ret :: "klog \<Rightarrow> call \<Rightarrow> int"
  k_view :: "klog \<Rightarrow> query \<Rightarrow> int"

section \<open>The state of the module\<close>

text \<open>
  The module's private data. A structure that is allocated carries its address, which is what is
  freed. \<open>d_fsdata\<close>, \<open>private_data\<close> and \<open>s_fs_info\<close> are \<open>None\<close> where the pointer is null or
  its structure has been freed, so that a dereference then faults. The \<open>wrapfs_inode_info\<close> is the
  container of the inode, so \<open>WRAPFS_I\<close> of an inode is always there.
\<close>

record wrapfs_dentry_info =
  di_addr :: int
  lower_path :: lpath

record wrapfs_file_info =
  fi_addr :: int
  lower_file :: int
  lower_vm_ops :: int

record wrapfs_sb_info =
  si_addr :: int
  lower_sb :: int

record kst =
  kern :: kernel
  calls :: klog
  d_fsdata :: "int \<Rightarrow> wrapfs_dentry_info option"
  lower_inode :: "int \<Rightarrow> int"
  private_data :: "int \<Rightarrow> wrapfs_file_info option"
  s_fs_info :: "int \<Rightarrow> wrapfs_sb_info option"
  wrapfs_inode_cachep :: int
  wrapfs_dentry_cachep :: int

definition kret :: "kst \<Rightarrow> call \<Rightarrow> int" where
  "kret s c = k_ret (kern s) (calls s) c"

definition kview :: "kst \<Rightarrow> query \<Rightarrow> int" where
  "kview s q = k_view (kern s) (calls s) q"

definition log_call :: "call \<Rightarrow> int \<Rightarrow> kst \<Rightarrow> kst" where
  "log_call c r s = s\<lparr>calls := (c, r) # calls s\<rparr>"

text \<open>The programs: a call, a read of a field, a dereference of null, an update of private data.\<close>

type_synonym 'a prog = "(kst, 'a) state"

definition kcall :: "call \<Rightarrow> int prog" where
  "kcall c = State (\<lambda>s. (kret s c, log_call c (kret s c) s))"

definition peek :: "query \<Rightarrow> int prog" where
  "peek q = State (\<lambda>s. (kview s q, s))"

definition gets :: "(kst \<Rightarrow> 'a) \<Rightarrow> 'a prog" where
  "gets f = State (\<lambda>s. (f s, s))"

definition modify :: "(kst \<Rightarrow> kst) \<Rightarrow> unit prog" where
  "modify f = State (\<lambda>s. ((), f s))"

abbreviation ret :: "'a \<Rightarrow> 'a prog" where "ret \<equiv> State_Monad.return"

section \<open>The ledger\<close>

datatype res =
    RDentry int | RMnt int | RInode int | RFile int | RSuper int | RMem int | RCache int
  | RSpin int | RLock int | RRename int int

definition path_refs :: "lpath \<Rightarrow> res multiset" where
  "path_refs p = (if p_dentry p = 0 then {#} else {#RDentry (p_dentry p)#}) +
    (if p_mnt p = 0 then {#} else {#RMnt (p_mnt p)#})"

definition take_res :: "res \<Rightarrow> res multiset \<Rightarrow> res multiset option" where
  "take_res x H = (if x \<in># H then Some (H - {#x#}) else None)"

definition take_lock :: "res \<Rightarrow> res multiset \<Rightarrow> res multiset option" where
  "take_lock x H = (if x \<in># H then None else Some (add_mset x H))"

definition gain :: "bool \<Rightarrow> res \<Rightarrow> res multiset \<Rightarrow> res multiset option" where
  "gain b x H = Some (if b then add_mset x H else H)"

definition need :: "res list \<Rightarrow> res multiset \<Rightarrow> res multiset option" where
  "need xs H = (if \<forall>x\<in>set xs. x \<in># H then Some H else None)"

text \<open>What a lower operation is called with, and must not be called without.\<close>

fun uses :: "vfs \<Rightarrow> res list" where
  "uses (VfsCreate dir d mode excl) = [RDentry d, RLock dir]"
| "uses (VfsLink old dir new) = [RDentry old, RDentry new, RLock dir]"
| "uses (VfsUnlink dir d) = [RDentry d, RLock dir]"
| "uses (VfsSymlink dir d nm) = [RDentry d, RLock dir]"
| "uses (VfsMkdir dir d mode) = [RDentry d, RLock dir]"
| "uses (VfsRmdir dir d) = [RDentry d, RLock dir]"
| "uses (VfsMknod dir d mode dev) = [RDentry d, RLock dir]"
| "uses (VfsRename od old nd new) = [RDentry old, RDentry new]"
| "uses (VfsReadlink d buf n) = [RDentry d]"
| "uses (InodePermission i msk) = [RInode i]"
| "uses (NotifyChange d valid file) = [RDentry d]"
| "uses (VfsGetattr p) = [RDentry (p_dentry p), RMnt (p_mnt p)]"
| "uses (VfsSetxattr d nm v n flags) = [RDentry d]"
| "uses (VfsGetxattr d nm b n) = [RDentry d]"
| "uses (VfsListxattr d b n) = [RDentry d]"
| "uses (VfsRemovexattr d nm) = [RDentry d]"
| "uses (DRevalidate d flags) = [RDentry d]"
| "uses (VfsStatfs p buf) = [RDentry (p_dentry p), RMnt (p_mnt p)]"
| "uses (VfsRead f buf n pos) = [RFile f]"
| "uses (VfsWrite f buf n pos) = [RFile f]"
| "uses (IterateDir f ctx) = [RFile f]"
| "uses (UnlockedIoctl f cmd arg) = [RFile f]"
| "uses (CompatIoctl f cmd arg) = [RFile f]"
| "uses (LowerMmap f vma) = [RFile f]"
| "uses (LowerFlush f i) = [RFile f]"
| "uses (VfsFsyncRange f a b ds) = [RFile f]"
| "uses (LowerFasync fd f flag) = [RFile f]"
| "uses (LowerReadIter f iocb iter) = [RFile f]"
| "uses (LowerWriteIter f iocb iter) = [RFile f]"
| "uses (LowerFault ops f vmf) = [RFile f]"
| "uses (LowerPageMkwrite ops f vmf) = [RFile f]"
| "uses (UmountBegin sb) = [RSuper sb]"
| "uses _ = []"

text \<open>
  What a call with its result does to what is held. \<open>d_splice_alias\<close> and \<open>d_make_root\<close> take over
  the reference to the inode whatever they return; \<open>set_delayed_call\<close> hands the buffer to the VFS,
  which frees it when the link has been followed (an error pointer cannot be freed); a path that a lookup fills in (\<open>GotPath\<close>) comes
  with a reference to its directory entry and to its mount.
\<close>

fun eff :: "call \<Rightarrow> int \<Rightarrow> res multiset \<Rightarrow> res multiset option" where
  "eff Fault r H = None"
| "eff (SpinInit a) r H = need [RMem a] H"
| "eff (SpinLock a) r H = (if RMem a \<in># H then take_lock (RSpin a) H else None)"
| "eff (SpinUnlock a) r H = take_res (RSpin a) H"
| "eff (PathGet p) r H = (if path_refs p \<subseteq># H then Some (path_refs p + H) else None)"
| "eff (PathPut p) r H = (if path_refs p \<subseteq># H then Some (H - path_refs p) else None)"
| "eff (GotPath p) r H = Some (path_refs p + H)"
| "eff (Dget d) r H = (if RDentry d \<in># H then Some (add_mset (RDentry d) H) else None)"
| "eff (Dput d) r H = take_res (RDentry d) H"
| "eff (DgetParent d) r H = gain True (RDentry r) H"
| "eff (Mntget m) r H =
     (if m = 0 then Some H else if RMnt m \<in># H then Some (add_mset (RMnt m) H) else None)"
| "eff (InodeLock i) r H = (if i = 0 then None else take_lock (RLock i) H)"
| "eff (InodeUnlock i) r H = take_res (RLock i) H"
| "eff (LockRename a b) r H = take_lock (RRename a b) H"
| "eff (UnlockRename a b) r H = take_res (RRename a b) H"
| "eff (Igrab i) r H = (if i = 0 then None else gain (r \<noteq> 0) (RInode i) H)"
| "eff (Iput i) r H = (if i = 0 then Some H else take_res (RInode i) H)"
| "eff (Ilookup sb n) r H = gain (r \<noteq> 0) (RInode r) H"
| "eff (Iget5 sb n i) r H = gain (r \<noteq> 0) (RInode r) H"
| "eff (DSpliceAlias i d) r H =
     Option.bind (take_res (RInode i) H) (gain (0 < r) (RDentry r))"
| "eff (DLookup d nm h) r H = gain (r \<noteq> 0) (RDentry r) H"
| "eff (DAlloc d nm h) r H = gain (r \<noteq> 0) (RDentry r) H"
| "eff (DAdd d) r H = need [RDentry d] H"
| "eff (DMakeRoot i) r H =
     Option.bind (take_res (RInode i) H) (gain (r \<noteq> 0) (RDentry r))"
| "eff (GetFile f) r H = (if RFile f \<in># H then Some (add_mset (RFile f) H) else None)"
| "eff (Fput f) r H = take_res (RFile f) H"
| "eff (DentryOpen p flags cred) r H =
     (if path_refs p \<subseteq># H then gain (0 < r) (RFile r) H else None)"
| "eff Kzalloc r H = gain (r \<noteq> 0) (RMem r) H"
| "eff (Kmalloc n) r H = gain (r \<noteq> 0) (RMem r) H"
| "eff (CacheAlloc c) r H = gain (r \<noteq> 0) (RMem r) H"
| "eff (Kfree a) r H = take_res (RMem a) H"
| "eff (CacheFree c a) r H = take_res (RMem a) H"
| "eff (CacheCreate b) r H = gain (r \<noteq> 0) (RCache r) H"
| "eff (CacheDestroy c) r H = take_res (RCache c) H"
| "eff (SActiveInc sb) r H = (if sb = 0 then None else gain True (RSuper sb) H)"
| "eff (SActiveDec sb) r H = take_res (RSuper sb) H"
| "eff (VfsPathLookup d m nm) r H = need [RDentry d, RMnt m] H"
| "eff (SetDelayedCall b link) r H = (if b < 0 then None else take_res (RMem b) H)"
| "eff (Lower v) r H = need (uses v) H"
| "eff _ r H = Some H"

fun ledger :: "klog \<Rightarrow> res multiset option" where
  "ledger [] = Some {#}"
| "ledger ((c, r) # l) = Option.bind (ledger l) (eff c r)"

definition holding :: "kst \<Rightarrow> res multiset option" where
  "holding s = ledger (calls s)"


section \<open>What the kernel is taken to do\<close>

text \<open>
  What the module relies on, by the kernel's documentation, and the only facts used. A directory entry that is
  referenced keeps its inode (a removal by the VFS turns an entry negative only when the reference
  of its caller is the last: \<open>d_delete\<close>); \<open>dget_parent\<close> returns an entry, with a
  reference, and it is positive; a lookup of a path that succeeds fills in a positive entry of a mount; every entry has a super block; an
  operation that creates an entry makes it positive; \<open>d_splice_alias\<close> and \<open>dentry_open\<close> return
  a pointer or an error pointer, \<open>d_make_root\<close> and \<open>kmalloc\<close> a pointer or null.
  \<open>iget5_locked\<close> returns an inode or null, and marks an inode as new only when it has just been
  made, that is, when it is not one it has returned before that was not evicted since.
\<close>

fun removes :: "call \<Rightarrow> int \<Rightarrow> bool" where
  "removes (Lower (VfsUnlink dir d')) d = (d' = d)"
| "removes (Lower (VfsRmdir dir d')) d = (d' = d)"
| "removes (Lower (VfsRename od old nd new)) d = (new = d)"
| "removes _ d = False"

text \<open>The entry that an operation makes positive when it succeeds.\<close>

fun made_by :: "vfs \<Rightarrow> int" where
  "made_by (VfsCreate dir d mode excl) = d"
| "made_by (VfsSymlink dir d nm) = d"
| "made_by (VfsMkdir dir d mode) = d"
| "made_by (VfsMknod dir d mode dev) = d"
| "made_by _ = 0"

definition finds_path :: "call \<Rightarrow> bool" where
  "finds_path c = (case c of VfsPathLookup d m nm \<Rightarrow> True | KernPath nm f \<Rightarrow> True | _ \<Rightarrow> False)"

definition keeps_dentry :: "klog \<Rightarrow> call \<Rightarrow> int \<Rightarrow> bool" where
  "keeps_dentry l c d = (case ledger l of None \<Rightarrow> False
     | Some H \<Rightarrow> (if removes c d then 2 else 1) \<le> count H (RDentry d))"

fun live_inodes :: "klog \<Rightarrow> int set" where
  "live_inodes [] = {}"
| "live_inodes ((c, r) # l) = (case c of Iget5 sb n i \<Rightarrow> insert r (live_inodes l)
     | ClearInode i \<Rightarrow> live_inodes l - {i} | _ \<Rightarrow> live_inodes l)"

definition vfs_kernel :: "kernel \<Rightarrow> bool" where
  "vfs_kernel k \<longleftrightarrow>
     (\<forall>l c r d. keeps_dentry l c d \<longrightarrow> keeps_dentry ((c, r) # l) c d \<longrightarrow> k_view k l (DInode d) \<noteq> 0 \<longrightarrow>
        k_view k ((c, r) # l) (DInode d) = k_view k l (DInode d)) \<and>
     (\<forall>l d. let p = k_ret k l (DgetParent d) in
        0 < p \<and> k_view k ((DgetParent d, p) # l) (DInode p) \<noteq> 0) \<and>
     (\<forall>l c r. finds_path c \<longrightarrow> k_ret k l c = 0 \<longrightarrow>
        (let l' = (c, 0) # l; d' = k_view k l' OutDentry; m' = k_view k l' OutMnt in
          0 < d' \<and> 0 < m' \<and> k_view k ((GotPath (path_of d' m'), r) # l') (DInode d') \<noteq> 0)) \<and>
     (\<forall>l d. d \<noteq> 0 \<longrightarrow> k_view k l (DSb d) \<noteq> 0) \<and>
     (\<forall>l sb n i. let j = k_ret k l (Iget5 sb n i) in
        k_view k ((Iget5 sb n i, j) # l) (IIsNew j) \<noteq> 0 \<longrightarrow> j \<notin> live_inodes l) \<and>
     (\<forall>l v. k_ret k l (Lower v) = 0 \<longrightarrow> made_by v \<noteq> 0 \<longrightarrow>
        k_view k ((Lower v, 0) # l) (DInode (made_by v)) \<noteq> 0) \<and>
     (\<forall>l d m nm. k_ret k l (VfsPathLookup d m nm) \<le> 0) \<and>
     (\<forall>l i d. - 4095 \<le> k_ret k l (DSpliceAlias i d)) \<and>
     (\<forall>l p f c. - 4095 \<le> k_ret k l (DentryOpen p f c)) \<and>
     (\<forall>l sb n i. 0 \<le> k_ret k l (Iget5 sb n i)) \<and>
     (\<forall>l i. 0 \<le> k_ret k l (DMakeRoot i)) \<and>
     (\<forall>l n. 0 \<le> k_ret k l (Kmalloc n))"

section \<open>Weakest preconditions\<close>

text \<open>\<open>after m Q s\<close>: the run of \<open>m\<close> from \<open>s\<close> ends with a result and a state that \<open>Q\<close> holds of.\<close>

definition after :: "'a prog \<Rightarrow> ('a \<Rightarrow> kst \<Rightarrow> bool) \<Rightarrow> kst \<Rightarrow> bool" where
  "after m Q s = (case run_state m s of (x, s') \<Rightarrow> Q x s')"

named_theorems wp \<open>rules for the weakest precondition of a program\<close>

lemma after_return [wp]: "Q x s \<Longrightarrow> after (ret x) Q s"
  by (simp add: after_def)

lemma after_bind [wp]: "after m (\<lambda>x. after (f x) Q) s \<Longrightarrow> after (m \<bind> f) Q s"
  by (simp add: after_def split: prod.splits)

lemma after_kcall:
  "(\<And>r. kret s c = r \<Longrightarrow> Q r (log_call c r s)) \<Longrightarrow> after (kcall c) Q s"
  by (simp add: after_def kcall_def)

lemma after_peek: "(\<And>v. kview s q = v \<Longrightarrow> Q v s) \<Longrightarrow> after (peek q) Q s"
  by (simp add: after_def peek_def)

lemma after_gets [wp]: "Q (f s) s \<Longrightarrow> after (gets f) Q s"
  by (simp add: after_def gets_def)

lemma after_modify [wp]: "Q () (f s) \<Longrightarrow> after (modify f) Q s"
  by (simp add: after_def modify_def)

lemma after_if [wp]:
  "(b \<Longrightarrow> after m Q s) \<Longrightarrow> (\<not> b \<Longrightarrow> after n Q s) \<Longrightarrow> after (if b then m else n) Q s"
  by simp

lemma after_option [wp]:
  "(x = None \<Longrightarrow> after m Q s) \<Longrightarrow> (\<And>y. x = Some y \<Longrightarrow> after (f y) Q s) \<Longrightarrow>
    after (case x of None \<Rightarrow> m | Some y \<Rightarrow> f y) Q s"
  by (cases x) simp_all

lemma after_let [wp]: "after (f e) Q s \<Longrightarrow> after (let x = e in f x) Q s"
  by simp

lemma after_mono: "after m P s \<Longrightarrow> (\<And>x s'. P x s' \<Longrightarrow> Q x s') \<Longrightarrow> after m Q s"
  by (simp add: after_def split: prod.splits)

lemma after_conj: "after m (\<lambda>x s'. P x s' \<and> Q x s') s \<longleftrightarrow> after m P s \<and> after m Q s"
  by (simp add: after_def split: prod.splits)

lemma run_after: "run_state m s = (x, s') \<Longrightarrow> after m Q s \<Longrightarrow> Q x s'"
  by (simp add: after_def)

text \<open>Where it does not matter what a call returns, the rules walk through a program of themselves.\<close>

lemma any_kcall: "(\<And>r. Q r (log_call c r s)) \<Longrightarrow> after (kcall c) Q s"
  by (rule after_kcall)

lemmas walk = after_bind after_return any_kcall after_peek after_gets after_modify after_if after_option
  after_let

text \<open>A call changes the log alone, an update of private data everything but the log.\<close>

lemma log_call_simps [simp]:
  "kern (log_call c r s) = kern s" "calls (log_call c r s) = (c, r) # calls s"
  "d_fsdata (log_call c r s) = d_fsdata s" "lower_inode (log_call c r s) = lower_inode s"
  "private_data (log_call c r s) = private_data s" "s_fs_info (log_call c r s) = s_fs_info s"
  "wrapfs_inode_cachep (log_call c r s) = wrapfs_inode_cachep s"
  "wrapfs_dentry_cachep (log_call c r s) = wrapfs_dentry_cachep s"
  by (simp_all add: log_call_def)

lemma held_log_call [simp]: "holding (log_call c r s) = Option.bind (holding s) (eff c r)"
  by (simp add: holding_def)

lemma held_updates [simp]:
  "holding (s\<lparr>d_fsdata := x\<rparr>) = holding s" "holding (s\<lparr>lower_inode := y\<rparr>) = holding s"
  "holding (s\<lparr>private_data := z\<rparr>) = holding s" "holding (s\<lparr>s_fs_info := u\<rparr>) = holding s"
  "holding (s\<lparr>wrapfs_inode_cachep := v\<rparr>) = holding s" "holding (s\<lparr>wrapfs_dentry_cachep := w\<rparr>) = holding s"
  by (simp_all add: holding_def)

lemma kview_updates [simp]:
  "kview (s\<lparr>d_fsdata := x\<rparr>) q = kview s q" "kview (s\<lparr>lower_inode := y\<rparr>) q = kview s q"
  "kview (s\<lparr>private_data := z\<rparr>) q = kview s q" "kview (s\<lparr>s_fs_info := u\<rparr>) q = kview s q"
  by (simp_all add: kview_def)

lemma need_Nil [simp]: "need [] H = Some H"
  by (simp add: need_def)

lemma gain_simps [simp]:
  "gain True x H = Some (add_mset x H)" "gain False x H = Some H"
  by (simp_all add: gain_def)

lemma take_res_in [simp]: "x \<in># H \<Longrightarrow> take_res x H = Some (H - {#x#})"
  by (simp add: take_res_def)

lemma take_lock_new [simp]: "x \<notin># H \<Longrightarrow> take_lock x H = Some (add_mset x H)"
  by (simp add: take_lock_def)

end
