(* ===== verification/Wrapfs_Private.thy ===== *)
theory Wrapfs_Private
  imports Wrapfs_Kernel
begin

text \<open>
  \<open>src/wrapfs/wrapfs.h\<close>: the accessors of the private data of entries, inodes, files and super
  blocks, and the helpers of the lower path and of the parent's lock; with the facts that the
  operations' proofs use of them.
\<close>

section \<open>Accessors\<close>

text \<open>A dereference of the private data of an object that has none is a fault.\<close>

definition null_deref :: "'a \<Rightarrow> 'a prog" where
  "null_deref x = do { _ \<leftarrow> kcall Fault; ret x }"

definition WRAPFS_D :: "int \<Rightarrow> wrapfs_dentry_info prog" where
  "WRAPFS_D d = do {
     x \<leftarrow> gets (\<lambda>s. d_fsdata s d);
     (case x of
        None \<Rightarrow> null_deref \<lparr>di_addr = 0, lower_path = path_of 0 0\<rparr>
      | Some i \<Rightarrow> ret i) }"

definition WRAPFS_F :: "int \<Rightarrow> wrapfs_file_info prog" where
  "WRAPFS_F f = do {
     x \<leftarrow> gets (\<lambda>s. private_data s f);
     (case x of
        None \<Rightarrow> null_deref \<lparr>fi_addr = 0, lower_file = 0, lower_vm_ops = 0\<rparr>
      | Some i \<Rightarrow> ret i) }"

definition WRAPFS_SB :: "int \<Rightarrow> wrapfs_sb_info prog" where
  "WRAPFS_SB sb = do {
     x \<leftarrow> gets (\<lambda>s. s_fs_info s sb);
     (case x of
        None \<Rightarrow> null_deref \<lparr>si_addr = 0, lower_sb = 0\<rparr>
      | Some i \<Rightarrow> ret i) }"

definition wrapfs_lower_file :: "int \<Rightarrow> int prog" where
  "wrapfs_lower_file f = do { i \<leftarrow> WRAPFS_F f; ret (lower_file i) }"

definition wrapfs_set_lower_file :: "int \<Rightarrow> int \<Rightarrow> unit prog" where
  "wrapfs_set_lower_file f val = do {
     i \<leftarrow> WRAPFS_F f;
     modify (\<lambda>s. s\<lparr>private_data := (private_data s)(f \<mapsto> i\<lparr>lower_file := val\<rparr>)\<rparr>) }"

definition wrapfs_lower_inode :: "int \<Rightarrow> int prog" where
  "wrapfs_lower_inode i = gets (\<lambda>s. lower_inode s i)"

definition wrapfs_set_lower_inode :: "int \<Rightarrow> int \<Rightarrow> unit prog" where
  "wrapfs_set_lower_inode i val = modify (\<lambda>s. s\<lparr>lower_inode := (lower_inode s)(i := val)\<rparr>)"

definition wrapfs_lower_super :: "int \<Rightarrow> int prog" where
  "wrapfs_lower_super sb = do { i \<leftarrow> WRAPFS_SB sb; ret (lower_sb i) }"

definition wrapfs_set_lower_super :: "int \<Rightarrow> int \<Rightarrow> unit prog" where
  "wrapfs_set_lower_super sb val = do {
     i \<leftarrow> WRAPFS_SB sb;
     modify (\<lambda>s. s\<lparr>s_fs_info := (s_fs_info s)(sb \<mapsto> i\<lparr>lower_sb := val\<rparr>)\<rparr>) }"

section \<open>The lower path of an entry\<close>

text \<open>Each helper takes the spin lock of the entry's private data around its copy.\<close>

definition assign_lower_path :: "int \<Rightarrow> lpath \<Rightarrow> unit prog" where
  "assign_lower_path d p = do {
     i \<leftarrow> WRAPFS_D d;
     modify (\<lambda>s. s\<lparr>d_fsdata := (d_fsdata s)(d \<mapsto> i\<lparr>lower_path := p\<rparr>)\<rparr>) }"

definition wrapfs_get_lower_path :: "int \<Rightarrow> lpath prog" where
  "wrapfs_get_lower_path d = do {
     i \<leftarrow> WRAPFS_D d;
     _ \<leftarrow> kcall (SpinLock (di_addr i));
     i \<leftarrow> WRAPFS_D d;
     let p = lower_path i;
     _ \<leftarrow> kcall (PathGet p);
     i \<leftarrow> WRAPFS_D d;
     _ \<leftarrow> kcall (SpinUnlock (di_addr i));
     ret p }"

definition wrapfs_put_lower_path :: "int \<Rightarrow> lpath \<Rightarrow> int prog" where
  "wrapfs_put_lower_path d p = kcall (PathPut p)"

definition wrapfs_set_lower_path :: "int \<Rightarrow> lpath \<Rightarrow> int prog" where
  "wrapfs_set_lower_path d p = do {
     i \<leftarrow> WRAPFS_D d;
     _ \<leftarrow> kcall (SpinLock (di_addr i));
     assign_lower_path d p;
     i \<leftarrow> WRAPFS_D d;
     kcall (SpinUnlock (di_addr i)) }"

definition wrapfs_reset_lower_path :: "int \<Rightarrow> int prog" where
  "wrapfs_reset_lower_path d = do {
     i \<leftarrow> WRAPFS_D d;
     _ \<leftarrow> kcall (SpinLock (di_addr i));
     assign_lower_path d (path_of 0 0);
     i \<leftarrow> WRAPFS_D d;
     kcall (SpinUnlock (di_addr i)) }"

definition wrapfs_put_reset_lower_path :: "int \<Rightarrow> int prog" where
  "wrapfs_put_reset_lower_path d = do {
     i \<leftarrow> WRAPFS_D d;
     _ \<leftarrow> kcall (SpinLock (di_addr i));
     i \<leftarrow> WRAPFS_D d;
     let p = lower_path i;
     assign_lower_path d (path_of 0 0);
     i \<leftarrow> WRAPFS_D d;
     _ \<leftarrow> kcall (SpinUnlock (di_addr i));
     kcall (PathPut p) }"

section \<open>The lock of the parent\<close>

definition lock_parent :: "int \<Rightarrow> int prog" where
  "lock_parent d = do {
     dir \<leftarrow> kcall (DgetParent d);
     i \<leftarrow> peek (DInode dir);
     _ \<leftarrow> kcall (InodeLock i);
     ret dir }"

definition unlock_dir :: "int \<Rightarrow> int prog" where
  "unlock_dir dir = do {
     i \<leftarrow> peek (DInode dir);
     _ \<leftarrow> kcall (InodeUnlock i);
     kcall (Dput dir) }"

section \<open>Their effect\<close>

text \<open>
  What every operation finds and must leave: \<open>holds s H\<close> says that the ledger balances with
  \<open>H\<close> held and no lock among them, on a kernel as described.
\<close>

definition is_lock :: "res \<Rightarrow> bool" where
  "is_lock x = (case x of RSpin a \<Rightarrow> True | RLock i \<Rightarrow> True | RRename a b \<Rightarrow> True | _ \<Rightarrow> False)"

lemma is_lock_simps [simp]:
  "is_lock (RSpin a)" "is_lock (RLock a)" "is_lock (RRename a b)" "\<not> is_lock (RDentry a)"
  "\<not> is_lock (RMnt a)" "\<not> is_lock (RInode a)" "\<not> is_lock (RFile a)" "\<not> is_lock (RSuper a)"
  "\<not> is_lock (RMem a)" "\<not> is_lock (RCache a)"
  by (simp_all add: is_lock_def)

definition no_lock :: "res multiset \<Rightarrow> bool" where
  "no_lock H \<longleftrightarrow> (\<forall>x. x \<in># H \<longrightarrow> \<not> is_lock x)"

lemma no_lockD [simp]:
  assumes "no_lock H"
  shows "RSpin a \<notin># H" "RLock i \<notin># H" "RRename a b \<notin># H"
  using assms by (auto simp: no_lock_def dest!: spec)

lemma no_lock_add [simp]: "no_lock (add_mset x H) \<longleftrightarrow> \<not> is_lock x \<and> no_lock H"
  by (auto simp: no_lock_def)

lemma no_lock_empty [simp]: "no_lock {#}"
  by (simp add: no_lock_def)

lemma no_lock_plus [simp]: "no_lock (A + B) \<longleftrightarrow> no_lock A \<and> no_lock B"
  by (auto simp: no_lock_def)

lemma refs_no_lock [simp]: "no_lock (path_refs p)"
  by (simp add: path_refs_def)

end
