(* ===== verification/Wrapfs_Lookup.thy ===== *)
theory Wrapfs_Lookup
  imports Wrapfs_Private
begin

text \<open>
  \<open>src/wrapfs/lookup.c\<close> and \<open>dentry.c\<close>: the private data of entries, the inodes that stand for
  lower inodes (\<open>wrapfs_iget\<close>), interposing an entry on a lower one, \<open>wrapfs_lookup\<close>, and the
  operations \<open>d_revalidate\<close> and \<open>d_release\<close> of entries.
\<close>

section \<open>Private data of entries\<close>

definition wrapfs_init_dentry_cache :: "int prog" where
  "wrapfs_init_dentry_cache = do {
     c \<leftarrow> kcall (CacheCreate False);
     modify (\<lambda>s. s\<lparr>wrapfs_dentry_cachep := c\<rparr>);
     ret (if c \<noteq> 0 then 0 else - ENOMEM) }"

definition wrapfs_destroy_dentry_cache :: "int prog" where
  "wrapfs_destroy_dentry_cache = do {
     c \<leftarrow> gets wrapfs_dentry_cachep;
     if c \<noteq> 0 then kcall (CacheDestroy c) else ret 0 }"

definition free_dentry_private_data :: "int \<Rightarrow> unit prog" where
  "free_dentry_private_data dentry = do {
     x \<leftarrow> gets (\<lambda>s. d_fsdata s dentry);
     (case x of
        None \<Rightarrow> ret ()
      | Some i \<Rightarrow>
          if dentry = 0 then ret ()
          else do {
            c \<leftarrow> gets wrapfs_dentry_cachep;
            _ \<leftarrow> kcall (CacheFree c (di_addr i));
            modify (\<lambda>s. s\<lparr>d_fsdata := (d_fsdata s)(dentry := None)\<rparr>) }) }"

definition new_dentry_private_data :: "int \<Rightarrow> int prog" where
  "new_dentry_private_data dentry = do {
     c \<leftarrow> gets wrapfs_dentry_cachep;
     a \<leftarrow> kcall (CacheAlloc c);
     if a = 0 then ret (- ENOMEM)
     else do {
       _ \<leftarrow> kcall (SpinInit a);
       modify (\<lambda>s. s\<lparr>d_fsdata :=
         (d_fsdata s)(dentry \<mapsto> \<lparr>di_addr = a, lower_path = path_of 0 0\<rparr>)\<rparr>);
       ret 0 } }"

section \<open>Inodes\<close>

definition wrapfs_inode_test :: "int \<Rightarrow> int \<Rightarrow> int prog" where
  "wrapfs_inode_test inode candidate_lower_inode = do {
     current_lower_inode \<leftarrow> wrapfs_lower_inode inode;
     ret (if current_lower_inode = candidate_lower_inode then 1 else 0) }"

definition wrapfs_inode_set :: "int \<Rightarrow> int \<Rightarrow> int prog" where
  "wrapfs_inode_set inode li = ret 0"

text \<open>The operations an inode and its files are given, by the type of the lower inode.\<close>

definition main_ops :: int where "main_ops = 1"
definition dir_ops :: int where "dir_ops = 2"
definition symlink_ops :: int where "symlink_ops = 3"

definition wrapfs_iget :: "int \<Rightarrow> int \<Rightarrow> int prog" where
  "wrapfs_iget sb li = do {
     g \<leftarrow> kcall (Igrab li);
     if g = 0 then ret (- ESTALE)
     else do {
       ino \<leftarrow> peek (INumber li);
       inode \<leftarrow> kcall (Iget5 sb ino li);
       if inode = 0 then do { _ \<leftarrow> kcall (Iput li); ret (- ENOMEM) }
       else do {
         new \<leftarrow> peek (IIsNew inode);
         if new = 0 then do { _ \<leftarrow> kcall (Iput li); ret inode }
         else do {
           n \<leftarrow> peek (INumber li);
           _ \<leftarrow> kcall (Assign IIno inode n);
           wrapfs_set_lower_inode inode li;
           ver \<leftarrow> peek (IVer inode);
           _ \<leftarrow> kcall (Assign IVersion inode (ver + 1));
           isdir \<leftarrow> peek (IsDir li);
           islnk \<leftarrow> peek (IsLnk li);
           _ \<leftarrow> kcall (Assign IOp inode
             (if isdir \<noteq> 0 then dir_ops else if islnk \<noteq> 0 then symlink_ops else main_ops));
           _ \<leftarrow> kcall (Assign IFop inode (if isdir \<noteq> 0 then dir_ops else main_ops));
           _ \<leftarrow> kcall (Assign IAops inode main_ops);
           _ \<leftarrow> kcall (Assign ITimes inode 0);
           special \<leftarrow> peek (IsSpecial li);
           mode \<leftarrow> peek (IMode li);
           rdev \<leftarrow> peek (IRdev li);
           _ \<leftarrow> (if special \<noteq> 0 then kcall (InitSpecialInode inode mode rdev) else ret 0);
           _ \<leftarrow> kcall (Copy AttrAll inode li);
           _ \<leftarrow> kcall (Copy InodeSize inode li);
           _ \<leftarrow> kcall (UnlockNewInode inode);
           ret inode } } } }"

section \<open>Interposing\<close>

definition interpose :: "int \<Rightarrow> int \<Rightarrow> lpath \<Rightarrow> int prog" where
  "interpose dentry sb p = do {
     li \<leftarrow> peek (DInode (p_dentry p));
     lsb \<leftarrow> wrapfs_lower_super sb;
     _ \<leftarrow> (if li = 0 then kcall Fault else ret 0);
     isb \<leftarrow> peek (ISb li);
     if isb \<noteq> lsb then ret (- EXDEV)
     else do {
       inode \<leftarrow> wrapfs_iget sb li;
       if IS_ERR inode then ret inode
       else kcall (DSpliceAlias inode dentry) } }"

text \<open>\<open>wrapfs_interpose\<close> returns \<open>PTR_ERR\<close> of the result, a \<open>long\<close>, as its \<open>int\<close>.\<close>

definition wrapfs_interpose :: "int \<Rightarrow> int \<Rightarrow> lpath \<Rightarrow> int prog" where
  "wrapfs_interpose dentry sb p = do {
     ret_dentry \<leftarrow> interpose dentry sb p;
     ret (to_int ret_dentry) }"

section \<open>Lookup\<close>

text \<open>The positive case of \<open>__wrapfs_lookup\<close>, and the negative entry it makes otherwise.\<close>

definition lookup_positive :: "int \<Rightarrow> int prog" where
  "lookup_positive dentry = do {
     ld \<leftarrow> peek OutDentry;
     lm \<leftarrow> peek OutMnt;
     _ \<leftarrow> kcall (GotPath (path_of ld lm));
     _ \<leftarrow> wrapfs_set_lower_path dentry (path_of ld lm);
     sb \<leftarrow> peek (DSb dentry);
     r \<leftarrow> interpose dentry sb (path_of ld lm);
     if IS_ERR r then do {
       _ \<leftarrow> wrapfs_put_reset_lower_path dentry;
       ret (to_int r) }
     else ret r }"

definition lookup_negative :: "int \<Rightarrow> lpath \<Rightarrow> int \<Rightarrow> int prog" where
  "lookup_negative dentry parent nm = do {
     h \<leftarrow> peek (NameHash (p_dentry parent) nm);
     l1 \<leftarrow> kcall (DLookup (p_dentry parent) nm h);
     ld \<leftarrow> (if l1 \<noteq> 0 then ret l1
            else do {
              l2 \<leftarrow> kcall (DAlloc (p_dentry parent) nm h);
              _ \<leftarrow> (if l2 \<noteq> 0 then kcall (DAdd l2) else ret 0);
              ret l2 });
     if ld = 0 then ret (- ENOMEM)
     else do {
       _ \<leftarrow> kcall (Mntget (p_mnt parent));
       _ \<leftarrow> wrapfs_set_lower_path dentry (path_of ld (p_mnt parent));
       ret 0 } }"

text \<open>
  The result of \<open>__wrapfs_lookup\<close>. Its test of the flags after the negative entry is set up is
  always true, since the error there is \<open>ENOENT\<close>.
\<close>

definition lookup :: "int \<Rightarrow> int \<Rightarrow> lpath \<Rightarrow> int prog" where
  "lookup dentry flags parent = do {
     _ \<leftarrow> kcall (DSetDOp dentry);
     root \<leftarrow> peek (IsRoot dentry);
     if root \<noteq> 0 then ret 0
     else do {
       nm \<leftarrow> peek (DName dentry);
       err \<leftarrow> kcall (VfsPathLookup (p_dentry parent) (p_mnt parent) nm);
       if err = 0 then lookup_positive dentry
       else if err \<noteq> - ENOENT then ret err
       else do {
         r \<leftarrow> lookup_negative dentry parent nm;
         let err = (if r < 0 then r
                    else if err = - ENOENT \<or>
                      flags AND (LOOKUP_CREATE OR LOOKUP_RENAME_TARGET) \<noteq> 0 then 0 else err);
         ret err } } }"

definition wrapfs_lookup :: "int \<Rightarrow> int \<Rightarrow> int \<Rightarrow> int prog" where
  "wrapfs_lookup dir dentry flags = do {
     parent \<leftarrow> kcall (DgetParent dentry);
     lp \<leftarrow> wrapfs_get_lower_path parent;
     err \<leftarrow> new_dentry_private_data dentry;
     r \<leftarrow> (if err \<noteq> 0 then ret err
          else do {
            r \<leftarrow> lookup dentry flags lp;
            if IS_ERR r then ret r
            else do {
              let d = (if r \<noteq> 0 then r else dentry);
              i \<leftarrow> peek (DInode d);
              _ \<leftarrow> (if i \<noteq> 0
                   then do { li \<leftarrow> wrapfs_lower_inode i; kcall (Copy AttrTimes i li) }
                   else ret 0);
              pi \<leftarrow> peek (DInode parent);
              lpi \<leftarrow> wrapfs_lower_inode pi;
              _ \<leftarrow> kcall (Copy AttrAtime pi lpi);
              ret r } });
     _ \<leftarrow> wrapfs_put_lower_path parent lp;
     _ \<leftarrow> kcall (Dput parent);
     ret r }"

section \<open>Operations of entries\<close>

definition wrapfs_d_revalidate :: "int \<Rightarrow> int \<Rightarrow> int prog" where
  "wrapfs_d_revalidate dentry flags = do {
     if flags AND LOOKUP_RCU \<noteq> 0 then ret (- ECHILD)
     else do {
       p \<leftarrow> wrapfs_get_lower_path dentry;
       has \<leftarrow> peek (HasRevalidate (p_dentry p));
       err \<leftarrow> (if has = 0 then ret 1 else kcall (Lower (DRevalidate (p_dentry p) flags)));
       _ \<leftarrow> wrapfs_put_lower_path dentry p;
       ret err } }"

definition wrapfs_d_release :: "int \<Rightarrow> unit prog" where
  "wrapfs_d_release dentry = do {
     _ \<leftarrow> wrapfs_put_reset_lower_path dentry;
     free_dentry_private_data dentry }"

end
