(* ===== verification/Wrapfs_Inode.thy ===== *)
theory Wrapfs_Inode
  imports Wrapfs_Lookup
begin

text \<open>
  \<open>src/wrapfs/inode.c\<close>: the operations on directories and inodes. Each takes the lower path of its
  entry (with references), locks the lower parent where the lower operation needs it, calls the
  lower file system, brings the upper inode up to date when that succeeded, and gives everything back
  on every path.
\<close>

section \<open>Creating and removing entries\<close>

definition wrapfs_create :: "int \<Rightarrow> int \<Rightarrow> int \<Rightarrow> int \<Rightarrow> int prog" where
  "wrapfs_create dir dentry mode want_excl = do {
     p \<leftarrow> wrapfs_get_lower_path dentry;
     let lower_dentry = p_dentry p;
     lower_parent \<leftarrow> lock_parent lower_dentry;
     pi \<leftarrow> peek (DInode lower_parent);
     err \<leftarrow> kcall (Lower (VfsCreate pi lower_dentry mode want_excl));
     err \<leftarrow> (if err \<noteq> 0 then ret err
            else do {
              sb \<leftarrow> peek (ISb dir);
              err \<leftarrow> wrapfs_interpose dentry sb p;
              if err \<noteq> 0 then ret err
              else do {
                li \<leftarrow> wrapfs_lower_inode dir;
                _ \<leftarrow> kcall (Copy AttrTimes dir li);
                pi \<leftarrow> peek (DInode lower_parent);
                _ \<leftarrow> kcall (Copy InodeSize dir pi);
                ret 0 } });
     _ \<leftarrow> unlock_dir lower_parent;
     _ \<leftarrow> wrapfs_put_lower_path dentry p;
     ret err }"

definition wrapfs_link :: "int \<Rightarrow> int \<Rightarrow> int \<Rightarrow> int prog" where
  "wrapfs_link old_dentry dir new_dentry = do {
     oi \<leftarrow> peek (DInode old_dentry);
     file_size_save \<leftarrow> peek (ISize oi);
     op \<leftarrow> wrapfs_get_lower_path old_dentry;
     np \<leftarrow> wrapfs_get_lower_path new_dentry;
     let lower_old = p_dentry op;
     let lower_new = p_dentry np;
     lower_dir \<leftarrow> lock_parent lower_new;
     ldi \<leftarrow> peek (DInode lower_dir);
     err \<leftarrow> kcall (Lower (VfsLink lower_old ldi lower_new));
     lni \<leftarrow> peek (DInode lower_new);
     err \<leftarrow> (if err \<noteq> 0 \<or> lni = 0 then ret err
            else do {
              sb \<leftarrow> peek (ISb dir);
              err \<leftarrow> wrapfs_interpose new_dentry sb np;
              if err \<noteq> 0 then ret err
              else do {
                lni \<leftarrow> peek (DInode lower_new);
                _ \<leftarrow> kcall (Copy AttrTimes dir lni);
                lni \<leftarrow> peek (DInode lower_new);
                _ \<leftarrow> kcall (Copy InodeSize dir lni);
                oi \<leftarrow> peek (DInode old_dentry);
                loi \<leftarrow> wrapfs_lower_inode oi;
                n \<leftarrow> peek (INlink loi);
                _ \<leftarrow> kcall (SetNlink oi n);
                ni \<leftarrow> peek (DInode new_dentry);
                _ \<leftarrow> kcall (ISizeWrite ni file_size_save);
                ret 0 } });
     _ \<leftarrow> unlock_dir lower_dir;
     _ \<leftarrow> wrapfs_put_lower_path old_dentry op;
     _ \<leftarrow> wrapfs_put_lower_path new_dentry np;
     ret err }"

text \<open>\<open>vfs_unlink\<close> is called with the lower inode of \<open>dir\<close>, not the inode of the locked parent.\<close>

definition wrapfs_unlink :: "int \<Rightarrow> int \<Rightarrow> int prog" where
  "wrapfs_unlink dir dentry = do {
     lower_dir_inode \<leftarrow> wrapfs_lower_inode dir;
     p \<leftarrow> wrapfs_get_lower_path dentry;
     let lower_dentry = p_dentry p;
     _ \<leftarrow> kcall (Dget lower_dentry);
     lower_dir \<leftarrow> lock_parent lower_dentry;
     err \<leftarrow> kcall (Lower (VfsUnlink lower_dir_inode lower_dentry));
     silly \<leftarrow> peek (NfsRenamed lower_dentry);
     let err = (if err = - EBUSY \<and> silly \<noteq> 0 then 0 else err);
     _ \<leftarrow> (if err \<noteq> 0 then ret 0
          else do {
            _ \<leftarrow> kcall (Copy AttrTimes dir lower_dir_inode);
            _ \<leftarrow> kcall (Copy InodeSize dir lower_dir_inode);
            i \<leftarrow> peek (DInode dentry);
            li \<leftarrow> wrapfs_lower_inode i;
            n \<leftarrow> peek (INlink li);
            _ \<leftarrow> kcall (SetNlink i n);
            i \<leftarrow> peek (DInode dentry);
            _ \<leftarrow> kcall (Assign ICtime i dir);
            kcall (DDrop dentry) });
     _ \<leftarrow> unlock_dir lower_dir;
     _ \<leftarrow> kcall (Dput lower_dentry);
     _ \<leftarrow> wrapfs_put_lower_path dentry p;
     ret err }"

definition wrapfs_symlink :: "int \<Rightarrow> int \<Rightarrow> int \<Rightarrow> int prog" where
  "wrapfs_symlink dir dentry symname = do {
     p \<leftarrow> wrapfs_get_lower_path dentry;
     let lower_dentry = p_dentry p;
     lower_parent \<leftarrow> lock_parent lower_dentry;
     pi \<leftarrow> peek (DInode lower_parent);
     err \<leftarrow> kcall (Lower (VfsSymlink pi lower_dentry symname));
     err \<leftarrow> (if err \<noteq> 0 then ret err
            else do {
              sb \<leftarrow> peek (ISb dir);
              err \<leftarrow> wrapfs_interpose dentry sb p;
              if err \<noteq> 0 then ret err
              else do {
                li \<leftarrow> wrapfs_lower_inode dir;
                _ \<leftarrow> kcall (Copy AttrTimes dir li);
                pi \<leftarrow> peek (DInode lower_parent);
                _ \<leftarrow> kcall (Copy InodeSize dir pi);
                ret 0 } });
     _ \<leftarrow> unlock_dir lower_parent;
     _ \<leftarrow> wrapfs_put_lower_path dentry p;
     ret err }"

definition wrapfs_mkdir :: "int \<Rightarrow> int \<Rightarrow> int \<Rightarrow> int prog" where
  "wrapfs_mkdir dir dentry mode = do {
     p \<leftarrow> wrapfs_get_lower_path dentry;
     let lower_dentry = p_dentry p;
     lower_parent \<leftarrow> lock_parent lower_dentry;
     pi \<leftarrow> peek (DInode lower_parent);
     err \<leftarrow> kcall (Lower (VfsMkdir pi lower_dentry mode));
     err \<leftarrow> (if err \<noteq> 0 then ret err
            else do {
              sb \<leftarrow> peek (ISb dir);
              err \<leftarrow> wrapfs_interpose dentry sb p;
              if err \<noteq> 0 then ret err
              else do {
                li \<leftarrow> wrapfs_lower_inode dir;
                _ \<leftarrow> kcall (Copy AttrTimes dir li);
                pi \<leftarrow> peek (DInode lower_parent);
                _ \<leftarrow> kcall (Copy InodeSize dir pi);
                li \<leftarrow> wrapfs_lower_inode dir;
                n \<leftarrow> peek (INlink li);
                _ \<leftarrow> kcall (SetNlink dir n);
                ret 0 } });
     _ \<leftarrow> unlock_dir lower_parent;
     _ \<leftarrow> wrapfs_put_lower_path dentry p;
     ret err }"

definition wrapfs_rmdir :: "int \<Rightarrow> int \<Rightarrow> int prog" where
  "wrapfs_rmdir dir dentry = do {
     p \<leftarrow> wrapfs_get_lower_path dentry;
     let lower_dentry = p_dentry p;
     lower_dir \<leftarrow> lock_parent lower_dentry;
     ldi \<leftarrow> peek (DInode lower_dir);
     err \<leftarrow> kcall (Lower (VfsRmdir ldi lower_dentry));
     _ \<leftarrow> (if err \<noteq> 0 then ret 0
          else do {
            _ \<leftarrow> kcall (DDrop dentry);
            i \<leftarrow> peek (DInode dentry);
            _ \<leftarrow> (if i \<noteq> 0 then kcall (ClearNlink i) else ret 0);
            ldi \<leftarrow> peek (DInode lower_dir);
            _ \<leftarrow> kcall (Copy AttrTimes dir ldi);
            ldi \<leftarrow> peek (DInode lower_dir);
            _ \<leftarrow> kcall (Copy InodeSize dir ldi);
            ldi \<leftarrow> peek (DInode lower_dir);
            n \<leftarrow> peek (INlink ldi);
            kcall (SetNlink dir n) });
     _ \<leftarrow> unlock_dir lower_dir;
     _ \<leftarrow> wrapfs_put_lower_path dentry p;
     ret err }"

definition wrapfs_mknod :: "int \<Rightarrow> int \<Rightarrow> int \<Rightarrow> int \<Rightarrow> int prog" where
  "wrapfs_mknod dir dentry mode dev = do {
     p \<leftarrow> wrapfs_get_lower_path dentry;
     let lower_dentry = p_dentry p;
     lower_parent \<leftarrow> lock_parent lower_dentry;
     pi \<leftarrow> peek (DInode lower_parent);
     err \<leftarrow> kcall (Lower (VfsMknod pi lower_dentry mode dev));
     err \<leftarrow> (if err \<noteq> 0 then ret err
            else do {
              sb \<leftarrow> peek (ISb dir);
              err \<leftarrow> wrapfs_interpose dentry sb p;
              if err \<noteq> 0 then ret err
              else do {
                li \<leftarrow> wrapfs_lower_inode dir;
                _ \<leftarrow> kcall (Copy AttrTimes dir li);
                pi \<leftarrow> peek (DInode lower_parent);
                _ \<leftarrow> kcall (Copy InodeSize dir pi);
                ret 0 } });
     _ \<leftarrow> unlock_dir lower_parent;
     _ \<leftarrow> wrapfs_put_lower_path dentry p;
     ret err }"

text \<open>
  Renaming: both lower parents are locked by \<open>lock_rename\<close>, which returns the ancestor of the two
  (if one is above the other); neither entry may be that ancestor.
\<close>

definition wrapfs_rename :: "int \<Rightarrow> int \<Rightarrow> int \<Rightarrow> int \<Rightarrow> int \<Rightarrow> int prog" where
  "wrapfs_rename old_dir old_dentry new_dir new_dentry flags = do {
     if flags \<noteq> 0 then ret (- EINVAL)
     else do {
       op \<leftarrow> wrapfs_get_lower_path old_dentry;
       np \<leftarrow> wrapfs_get_lower_path new_dentry;
       let lower_old = p_dentry op;
       let lower_new = p_dentry np;
       old_parent \<leftarrow> kcall (DgetParent lower_old);
       new_parent \<leftarrow> kcall (DgetParent lower_new);
       trap \<leftarrow> kcall (LockRename old_parent new_parent);
       err \<leftarrow> (if trap = lower_old then ret (- EINVAL)
              else if trap = lower_new then ret (- ENOTEMPTY)
              else do {
                oi \<leftarrow> peek (DInode old_parent);
                ni \<leftarrow> peek (DInode new_parent);
                err \<leftarrow> kcall (Lower (VfsRename oi lower_old ni lower_new));
                if err \<noteq> 0 then ret err
                else do {
                  ni \<leftarrow> peek (DInode new_parent);
                  _ \<leftarrow> kcall (Copy AttrAll new_dir ni);
                  ni \<leftarrow> peek (DInode new_parent);
                  _ \<leftarrow> kcall (Copy InodeSize new_dir ni);
                  if new_dir \<noteq> old_dir then do {
                    oi \<leftarrow> peek (DInode old_parent);
                    _ \<leftarrow> kcall (Copy AttrAll old_dir oi);
                    oi \<leftarrow> peek (DInode old_parent);
                    _ \<leftarrow> kcall (Copy InodeSize old_dir oi);
                    ret 0 }
                  else ret 0 } });
       _ \<leftarrow> kcall (UnlockRename old_parent new_parent);
       _ \<leftarrow> kcall (Dput old_parent);
       _ \<leftarrow> kcall (Dput new_parent);
       _ \<leftarrow> wrapfs_put_lower_path old_dentry op;
       _ \<leftarrow> wrapfs_put_lower_path new_dentry np;
       ret err } }"

section \<open>Links\<close>

definition wrapfs_readlink :: "int \<Rightarrow> int \<Rightarrow> int \<Rightarrow> int prog" where
  "wrapfs_readlink dentry buf bufsiz = do {
     p \<leftarrow> wrapfs_get_lower_path dentry;
     let lower_dentry = p_dentry p;
     li \<leftarrow> peek (DInode lower_dentry);
     has \<leftarrow> peek (IHasReadlink li);
     err \<leftarrow> (if has = 0 then ret (- EINVAL)
            else do {
              err \<leftarrow> kcall (Lower (VfsReadlink lower_dentry buf bufsiz));
              _ \<leftarrow> (if err < 0 then ret 0
                   else do {
                     i \<leftarrow> peek (DInode dentry);
                     li \<leftarrow> peek (DInode lower_dentry);
                     kcall (Copy AttrAtime i li) });
              ret err });
     _ \<leftarrow> wrapfs_put_lower_path dentry p;
     ret err }"

text \<open>
  The buffer has \<open>PAGE_SIZE\<close> bytes, so the terminating null at index \<open>err\<close> is a fault when the link
  fills it. On an error the buffer is freed and the error pointer is what is registered to be freed.
\<close>

definition wrapfs_get_link :: "int \<Rightarrow> int \<Rightarrow> int \<Rightarrow> int prog" where
  "wrapfs_get_link dentry inode link = do {
     if dentry = 0 then ret (- ECHILD)
     else do {
       buf \<leftarrow> kcall (Kmalloc PAGE_SIZE);
       if buf = 0 then ret (- ENOMEM)
       else do {
         old_fs \<leftarrow> peek CurrentFs;
         _ \<leftarrow> kcall (SetFs 0);
         err \<leftarrow> wrapfs_readlink dentry buf PAGE_SIZE;
         _ \<leftarrow> kcall (SetFs old_fs);
         res \<leftarrow> (if err < 0 then do { _ \<leftarrow> kcall (Kfree buf); ret err }
                else do {
                  _ \<leftarrow> (if err < PAGE_SIZE then kcall (Assign BufEnd buf err) else kcall Fault);
                  ret buf });
         _ \<leftarrow> kcall (SetDelayedCall res link);
         ret res } } }"

section \<open>Attributes\<close>

definition wrapfs_permission :: "int \<Rightarrow> int \<Rightarrow> int prog" where
  "wrapfs_permission inode msk = do {
     li \<leftarrow> wrapfs_lower_inode inode;
     kcall (Lower (InodePermission li msk)) }"

record iattr =
  ia_valid :: int
  ia_size :: int
  ia_file :: int

definition wrapfs_setattr :: "int \<Rightarrow> iattr \<Rightarrow> int prog" where
  "wrapfs_setattr dentry ia = do {
     inode \<leftarrow> peek (DInode dentry);
     err \<leftarrow> kcall (Lower (SetattrPrepare dentry (ia_valid ia)));
     if err \<noteq> 0 then ret err
     else do {
       p \<leftarrow> wrapfs_get_lower_path dentry;
       let lower_dentry = p_dentry p;
       lower_inode \<leftarrow> wrapfs_lower_inode inode;
       lower_file \<leftarrow> (if ia_valid ia AND ATTR_FILE \<noteq> 0 then wrapfs_lower_file (ia_file ia)
                     else ret (ia_file ia));
       err \<leftarrow> (if ia_valid ia AND ATTR_SIZE \<noteq> 0 then do {
                err \<leftarrow> kcall (Lower (InodeNewsizeOk inode (ia_size ia)));
                _ \<leftarrow> (if err \<noteq> 0 then ret 0 else kcall (Lower (TruncateSetsize inode (ia_size ia))));
                ret err }
              else ret 0);
       err \<leftarrow> (if err \<noteq> 0 then ret err
              else do {
                let lower_valid = (if ia_valid ia AND (ATTR_KILL_SUID OR ATTR_KILL_SGID) \<noteq> 0
                  then ia_valid ia AND NOT ATTR_MODE else ia_valid ia);
                li \<leftarrow> peek (DInode lower_dentry);
                _ \<leftarrow> kcall (InodeLock li);
                err \<leftarrow> kcall (Lower (NotifyChange lower_dentry lower_valid lower_file));
                li \<leftarrow> peek (DInode lower_dentry);
                _ \<leftarrow> kcall (InodeUnlock li);
                _ \<leftarrow> (if err \<noteq> 0 then ret 0 else kcall (Copy AttrAll inode lower_inode));
                ret err });
       _ \<leftarrow> wrapfs_put_lower_path dentry p;
       ret err } }"

definition wrapfs_getattr :: "int \<Rightarrow> int \<Rightarrow> int \<Rightarrow> int prog" where
  "wrapfs_getattr mnt dentry stat = do {
     p \<leftarrow> wrapfs_get_lower_path dentry;
     err \<leftarrow> kcall (Lower (VfsGetattr p));
     _ \<leftarrow> (if err \<noteq> 0 then ret 0
          else do {
            blocks \<leftarrow> peek LowerBlocks;
            i \<leftarrow> peek (DInode dentry);
            li \<leftarrow> peek (DInode (p_dentry p));
            _ \<leftarrow> kcall (Copy AttrAll i li);
            i \<leftarrow> peek (DInode dentry);
            _ \<leftarrow> kcall (Lower (GenericFillattr i stat));
            kcall (Assign StatBlocks stat blocks) });
     _ \<leftarrow> wrapfs_put_lower_path dentry p;
     ret err }"

section \<open>Extended attributes\<close>

definition wrapfs_setxattr :: "int \<Rightarrow> int \<Rightarrow> int \<Rightarrow> int \<Rightarrow> int \<Rightarrow> int \<Rightarrow> int prog" where
  "wrapfs_setxattr dentry inode nm val n flags = do {
     p \<leftarrow> wrapfs_get_lower_path dentry;
     let lower_dentry = p_dentry p;
     li \<leftarrow> peek (DInode lower_dentry);
     opflags \<leftarrow> peek (IOpflags li);
     err \<leftarrow> (if opflags AND IOP_XATTR = 0 then ret (- EOPNOTSUPP)
            else do {
              err \<leftarrow> kcall (Lower (VfsSetxattr lower_dentry nm val n flags));
              _ \<leftarrow> (if err \<noteq> 0 then ret 0
                   else do {
                     i \<leftarrow> peek (DInode dentry);
                     li \<leftarrow> peek (DInode (p_dentry p));
                     kcall (Copy AttrAll i li) });
              ret err });
     _ \<leftarrow> wrapfs_put_lower_path dentry p;
     ret err }"

text \<open>The result of \<open>vfs_getxattr\<close>, a size or an error, is kept in an \<open>int\<close>.\<close>

definition wrapfs_getxattr :: "int \<Rightarrow> int \<Rightarrow> int \<Rightarrow> int \<Rightarrow> int \<Rightarrow> int prog" where
  "wrapfs_getxattr dentry inode nm buf n = do {
     p \<leftarrow> wrapfs_get_lower_path dentry;
     let lower_dentry = p_dentry p;
     lower_inode \<leftarrow> wrapfs_lower_inode inode;
     li \<leftarrow> peek (DInode lower_dentry);
     opflags \<leftarrow> peek (IOpflags li);
     err \<leftarrow> (if opflags AND IOP_XATTR = 0 then ret (- EOPNOTSUPP)
            else do {
              r \<leftarrow> kcall (Lower (VfsGetxattr lower_dentry nm buf n));
              let err = to_int r;
              _ \<leftarrow> (if err \<noteq> 0 then ret 0
                   else do {
                     i \<leftarrow> peek (DInode dentry);
                     li \<leftarrow> peek (DInode (p_dentry p));
                     kcall (Copy AttrAtime i li) });
              ret err });
     _ \<leftarrow> wrapfs_put_lower_path dentry p;
     ret err }"

definition wrapfs_listxattr :: "int \<Rightarrow> int \<Rightarrow> int \<Rightarrow> int prog" where
  "wrapfs_listxattr dentry buf n = do {
     p \<leftarrow> wrapfs_get_lower_path dentry;
     let lower_dentry = p_dentry p;
     li \<leftarrow> peek (DInode lower_dentry);
     opflags \<leftarrow> peek (IOpflags li);
     err \<leftarrow> (if opflags AND IOP_XATTR = 0 then ret (- EOPNOTSUPP)
            else do {
              r \<leftarrow> kcall (Lower (VfsListxattr lower_dentry buf n));
              let err = to_int r;
              _ \<leftarrow> (if err \<noteq> 0 then ret 0
                   else do {
                     i \<leftarrow> peek (DInode dentry);
                     li \<leftarrow> peek (DInode (p_dentry p));
                     kcall (Copy AttrAtime i li) });
              ret err });
     _ \<leftarrow> wrapfs_put_lower_path dentry p;
     ret err }"

definition wrapfs_removexattr :: "int \<Rightarrow> int \<Rightarrow> int \<Rightarrow> int prog" where
  "wrapfs_removexattr dentry inode nm = do {
     p \<leftarrow> wrapfs_get_lower_path dentry;
     let lower_dentry = p_dentry p;
     lower_inode \<leftarrow> wrapfs_lower_inode inode;
     opflags \<leftarrow> peek (IOpflags lower_inode);
     err \<leftarrow> (if opflags AND IOP_XATTR = 0 then ret (- EOPNOTSUPP)
            else do {
              err \<leftarrow> kcall (Lower (VfsRemovexattr lower_dentry nm));
              _ \<leftarrow> (if err \<noteq> 0 then ret 0
                   else do {
                     i \<leftarrow> peek (DInode dentry);
                     kcall (Copy AttrAll i lower_inode) });
              ret err });
     _ \<leftarrow> wrapfs_put_lower_path dentry p;
     ret err }"

definition wrapfs_xattr_get :: "int \<Rightarrow> int \<Rightarrow> int \<Rightarrow> int \<Rightarrow> int \<Rightarrow> int prog" where
  "wrapfs_xattr_get dentry inode nm buf n = wrapfs_getxattr dentry inode nm buf n"

definition wrapfs_xattr_set :: "int \<Rightarrow> int \<Rightarrow> int \<Rightarrow> int \<Rightarrow> int \<Rightarrow> int \<Rightarrow> int prog" where
  "wrapfs_xattr_set dentry inode nm val n flags = do {
     if val \<noteq> 0 then wrapfs_setxattr dentry inode nm val n flags
     else do {
       _ \<leftarrow> (if flags \<noteq> XATTR_REPLACE then kcall Fault else ret 0);
       wrapfs_removexattr dentry inode nm } }"

end
