(* ===== verification/Wrapfs_Rules.thy ===== *)
theory Wrapfs_Rules
  imports Wrapfs_Inode
begin

text \<open>
  A small program logic for the module: \<open>st \<sigma> K W s\<close> describes a state of a run by the private data
  \<open>\<sigma>\<close>, what is held (\<open>K\<close>) and the inodes known of referenced entries (\<open>W\<close>). The
  rules (collected in \<open>wp\<close>) give the effect of each kind of call and of each helper of
  \<open>wrapfs.h\<close> on such descriptions, so that the proof of an operation is a walk along its calls.
\<close>

section \<open>Descriptions of states\<close>

definition priv :: "kst \<Rightarrow> kst" where
  "priv s = s\<lparr>calls := []\<rparr>"

lemma priv_log_call [simp]: "priv (log_call c r s) = priv s"
  by (simp add: priv_def log_call_def)

definition covered :: "kst \<Rightarrow> bool" where
  "covered s \<longleftrightarrow> (\<forall>i. lower_inode s i \<noteq> 0 \<longrightarrow> i \<in> live_inodes (calls s))"

text \<open>
  References the module hands to the VFS: the alias that \<open>d_splice_alias\<close> returned, which
  \<open>wrapfs_lookup\<close> returns in its turn, and the root entry of a mount.
\<close>

fun handed :: "klog \<Rightarrow> res multiset" where
  "handed [] = {#}"
| "handed ((c, r) # l) = (case c of
       DSpliceAlias i d \<Rightarrow> (if 0 < r then add_mset (RDentry r) (handed l) else handed l)
     | DMakeRoot i \<Rightarrow> (if r \<noteq> 0 then add_mset (RDentry r) (handed l) else handed l)
     | _ \<Rightarrow> handed l)"

lemma handed_no_lock [simp]: "no_lock (handed l)"
  by (induction l rule: handed.induct) (simp_all split: call.splits)

definition st :: "kst \<Rightarrow> res multiset \<Rightarrow> (int \<times> int) set \<Rightarrow> kst \<Rightarrow> bool" where
  "st \<sigma> K W s \<longleftrightarrow> priv s = \<sigma> \<and> vfs_kernel (kern s) \<and> holding s = Some (K + handed (calls s)) \<and>
     covered s \<and> (\<forall>(d, i) \<in> W. kview s (DInode d) = i \<and> i \<noteq> 0)"

lemma st_fields:
  assumes "st \<sigma> K W s"
  shows "d_fsdata s = d_fsdata \<sigma>" "lower_inode s = lower_inode \<sigma>" "private_data s = private_data \<sigma>"
    "s_fs_info s = s_fs_info \<sigma>" "wrapfs_inode_cachep s = wrapfs_inode_cachep \<sigma>"
    "wrapfs_dentry_cachep s = wrapfs_dentry_cachep \<sigma>" "kern s = kern \<sigma>"
    "holding s = Some (K + handed (calls s))"
  using assms by (auto simp: st_def priv_def)

lemma st_weaken: "st \<sigma> K W s \<Longrightarrow> st \<sigma> K {} s"
  by (simp add: st_def)

definition stays :: "call \<Rightarrow> (int \<times> int) set \<Rightarrow> res multiset \<Rightarrow> res multiset \<Rightarrow> bool" where
  "stays c W K K' \<longleftrightarrow> (\<forall>(d, i) \<in> W. (if removes c d then 2 else 1) \<le> count K (RDentry d) \<and>
     (if removes c d then 2 else 1) \<le> count K' (RDentry d))"

lemma stays_simps [simp]:
  "stays c {} K K'"
  "stays c {(d, i)} K K' \<longleftrightarrow> (if removes c d then 2 else 1) \<le> count K (RDentry d) \<and>
     (if removes c d then 2 else 1) \<le> count K' (RDentry d)"
  by (simp_all add: stays_def)

lemma covered_log_call:
  "covered s \<Longrightarrow> (\<And>i. c \<noteq> ClearInode i) \<Longrightarrow> covered (log_call c r s)"
  unfolding covered_def by (cases c) auto

lemma pinned_inode:
  assumes "vfs_kernel (kern s)" "holding s = Some K" "holding (log_call c r s) = Some K'"
    "stays c {(d, i)} K K'" "kview s (DInode d) = i" "i \<noteq> 0"
  shows "kview (log_call c r s) (DInode d) = i"
  using assms unfolding vfs_kernel_def holding_def kview_def keeps_dentry_def stays_def
  by (auto simp del: bind_eq_Some_conv)

text \<open>What the VFS has been handed does not enter into what a call needs or changes.\<close>

lemma take_res_frame: "take_res x K = Some K' \<Longrightarrow> take_res x (K + A) = Some (K' + A)"
  by (auto simp: take_res_def split: if_splits)

lemma take_lock_frame:
  "take_lock x K = Some K' \<Longrightarrow> x \<notin># A \<Longrightarrow> take_lock x (K + A) = Some (K' + A)"
  by (auto simp: take_lock_def split: if_splits)

lemma need_frame: "need xs K = Some K' \<Longrightarrow> need xs (K + A) = Some (K' + A)"
  by (auto simp: need_def split: if_splits)

lemma gain_frame: "gain b x K = Some K' \<Longrightarrow> gain b x (K + A) = Some (K' + A)"
  by (auto simp: gain_def split: if_splits)

lemma subset_frame: "M \<subseteq># K \<Longrightarrow> M \<subseteq># K + A"
  by (simp add: subset_mset.add_increasing2)

lemma diff_frame: "M \<subseteq># K \<Longrightarrow> K + A - M = K - M + (A :: res multiset)"
  by (metis add.commute multiset_diff_union_assoc)

definition hands_over :: "call \<Rightarrow> bool" where
  "hands_over c = (case c of DSpliceAlias i d \<Rightarrow> True | DMakeRoot i \<Rightarrow> True | _ \<Rightarrow> False)"

lemma eff_frame:
  assumes "eff c r K = Some K'" "no_lock A" "\<not> hands_over c"
  shows "eff c r (K + A) = Some (K' + A)"
proof -
  have A: "RSpin a \<notin># A" "RLock a \<notin># A" "RRename a b \<notin># A" for a b
    using assms(2) by simp_all
  note frame = take_res_frame take_lock_frame need_frame gain_frame
  show ?thesis
  proof (cases c)
    case (PathPut p)
    with assms(1) have h: "path_refs p \<subseteq># K" "K' = K - path_refs p"
      by (simp_all split: if_splits)
    show ?thesis
      by (simp only: PathPut h(2) eff.simps subset_frame[OF h(1)] diff_frame[OF h(1)] if_True)
  next
    case (PathGet p)
    with assms(1) have h: "path_refs p \<subseteq># K" "K' = path_refs p + K"
      by (simp_all split: if_splits)
    show ?thesis
      by (simp only: PathGet h(2) eff.simps subset_frame[OF h(1)] if_True add.assoc)
  next
    case (DentryOpen p f u)
    with assms(1) have h: "path_refs p \<subseteq># K" "gain (0 < r) (RFile r) K = Some K'"
      by (simp_all split: if_splits)
    show ?thesis
      by (simp only: DentryOpen eff.simps subset_frame[OF h(1)] if_True gain_frame[OF h(2)])
  next
    case (SpinLock a)
    with assms(1) show ?thesis
      by (simp add: A take_lock_frame split: if_splits)
  next
    case (SetDelayedCall b link)
    with assms(1) show ?thesis
      by (simp add: take_res_frame split: if_splits)
  next
    case (Igrab i)
    with assms(1) show ?thesis
      by (simp add: gain_frame del: gain_simps split: if_splits)
  qed (insert assms(1,3), simp_all add: hands_over_def A frame del: gain_simps split: if_splits)
qed

lemma handed_log: "\<not> hands_over c \<Longrightarrow> handed ((c, r) # l) = handed l"
  by (cases c) (simp_all add: hands_over_def)

lemma st_log_held:
  assumes "st \<sigma> K W s" "stays c W K K'" "\<And>i. c \<noteq> ClearInode i"
    "eff c r (K + handed (calls s)) = Some (K' + handed ((c, r) # calls s))"
  shows "st \<sigma> K' W (log_call c r s)"
proof -
  have s: "vfs_kernel (kern s)" "holding s = Some (K + handed (calls s))" "covered s"
    "\<And>d i. (d, i) \<in> W \<Longrightarrow> kview s (DInode d) = i \<and> i \<noteq> 0"
    using assms(1) by (auto simp: st_def)
  have h: "holding (log_call c r s) = Some (K' + handed ((c, r) # calls s))"
    using s(2) assms(4) by simp
  have "kview (log_call c r s) (DInode d) = i \<and> i \<noteq> 0" if "(d, i) \<in> W" for d i
  proof -
    have "stays c {(d, i)} (K + handed (calls s)) (K' + handed ((c, r) # calls s))"
      using assms(2) that by (auto simp: stays_def trans_le_add1)
    then show ?thesis
      using pinned_inode[OF s(1,2) h] s(4)[OF that] by blast
  qed
  then show ?thesis
    using assms(1) h covered_log_call[OF s(3) assms(3)] by (auto simp: st_def)
qed

lemma st_log_call:
  assumes "st \<sigma> K W s" "eff c r K = Some K'" "stays c W K K'" "\<And>i. c \<noteq> ClearInode i"
    "\<not> hands_over c"
  shows "st \<sigma> K' W (log_call c r s)"
  by (rule st_log_held[OF assms(1,3,4)])
    (simp add: handed_log[OF assms(5)] eff_frame[OF assms(2) handed_no_lock assms(5)]
      del: handed.simps)

section \<open>Calls\<close>

lemma kcall_st:
  assumes "st \<sigma> K W s" "\<And>i. c \<noteq> ClearInode i" "\<not> hands_over c" "\<And>r. eff c r K = Some (K' r)"
    "\<And>r. stays c W K (K' r)" "\<And>r s'. st \<sigma> (K' r) W s' \<Longrightarrow> Q r s'"
  shows "after (kcall c) Q s"
  using assms(6)[OF st_log_call[OF assms(1,4,5,2,3)]] by (simp add: after_def kcall_def)

text \<open>A call that leaves what is held as it is.\<close>

definition neutral :: "call \<Rightarrow> bool" where
  "neutral c \<longleftrightarrow> (\<forall>r K. eff c r K = Some K) \<and> (\<forall>d. \<not> removes c d) \<and> (\<forall>i. c \<noteq> ClearInode i) \<and>
     \<not> hands_over c"

lemma neutral_simps [simp]:
  "neutral (Copy k a b)" "neutral (Assign f a b)" "neutral (SetNlink a n)" "neutral (ClearNlink a)"
  "neutral (ISizeWrite a n)" "neutral (DDrop a)" "neutral (DRehash a)" "neutral (DSetDOp a)"
  "neutral (InitSpecialInode a m n)" "neutral (SetFs n)" "neutral (TruncatePages a)"
  "neutral (UnlockNewInode a)" "neutral RegisterFs" "neutral UnregisterFs"
  by (simp_all add: neutral_def hands_over_def)

definition pinned :: "(int \<times> int) set \<Rightarrow> res multiset \<Rightarrow> bool" where
  "pinned W K \<longleftrightarrow> (\<forall>(d, i) \<in> W. RDentry d \<in># K)"

lemma pinned_simps [simp]: "pinned {} K" "pinned {(d, i)} K \<longleftrightarrow> RDentry d \<in># K"
  by (simp_all add: pinned_def)

lemma neutral_st:
  assumes "neutral c" "st \<sigma> K W s" "pinned W K" "\<And>r s'. st \<sigma> K W s' \<Longrightarrow> Q r s'"
  shows "after (kcall c) Q s"
  by (rule kcall_st[OF assms(2)]) (use assms in \<open>auto simp: neutral_def stays_def pinned_def\<close>)

lemmas neutral_calls [wp] = neutral_simps[THEN neutral_st]

lemma lower_st [wp]:
  assumes "st \<sigma> K W s" "\<forall>x\<in>set (uses v). x \<in># K" "stays (Lower v) W K K"
    "\<And>r s'. st \<sigma> K W s' \<Longrightarrow> Q r s'"
  shows "after (kcall (Lower v)) Q s"
  by (rule kcall_st[OF assms(1)]) (use assms in \<open>auto simp: need_def hands_over_def\<close>)

lemma path_put_st [wp]:
  assumes "st \<sigma> K W s" "path_refs p \<subseteq># K" "pinned W (K - path_refs p)" "\<And>r s'. st \<sigma> (K - path_refs p) W s' \<Longrightarrow> Q r s'"
  shows "after (kcall (PathPut p)) Q s"
  by (rule kcall_st[OF assms(1)])
    (use assms in \<open>auto simp: hands_over_def stays_def pinned_def count_eq_zero_iff Suc_le_eq dest: in_diffD\<close>)

lemma dput_st [wp]:
  assumes "st \<sigma> K {} s" "RDentry d \<in># K" "\<And>r s'. st \<sigma> (K - {#RDentry d#}) {} s' \<Longrightarrow> Q r s'"
  shows "after (kcall (Dput d)) Q s"
  by (rule kcall_st[OF assms(1)]) (use assms in \<open>auto simp: hands_over_def\<close>)

lemma dget_st [wp]:
  assumes "st \<sigma> K {} s" "RDentry d \<in># K" "\<And>r s'. st \<sigma> (add_mset (RDentry d) K) {} s' \<Longrightarrow> Q r s'"
  shows "after (kcall (Dget d)) Q s"
  by (rule kcall_st[OF assms(1)]) (use assms in \<open>auto simp: hands_over_def\<close>)

lemma peek_inode_st:
  assumes "st \<sigma> K {(d, i)} s" "Q i s"
  shows "after (peek (DInode d)) Q s"
  using assms by (simp add: after_def peek_def st_def)

lemma peek_any [wp]: "(\<And>v. Q v s) \<Longrightarrow> after (peek q) Q s"
  by (simp add: after_def peek_def)

lemma lower_quiet_st:
  assumes "st \<sigma> K W s" "\<forall>x\<in>set (uses v). x \<in># K" "\<And>d. \<not> removes (Lower v) d" "pinned W K"
    "\<And>r s'. st \<sigma> K W s' \<Longrightarrow> Q r s'"
  shows "after (kcall (Lower v)) Q s"
  by (rule lower_st[OF assms(1,2)])
    (use assms(3-5) in \<open>auto simp: stays_def pinned_def Suc_le_eq\<close>)

section \<open>The helpers of \<open>wrapfs.h\<close>\<close>

lemma WRAPFS_D_wp [wp]: "d_fsdata s d = Some i \<Longrightarrow> Q i s \<Longrightarrow> after (WRAPFS_D d) Q s"
  by (simp add: WRAPFS_D_def after_def gets_def)

lemma WRAPFS_F_wp [wp]: "private_data s f = Some i \<Longrightarrow> Q i s \<Longrightarrow> after (WRAPFS_F f) Q s"
  by (simp add: WRAPFS_F_def after_def gets_def)

lemma WRAPFS_SB_wp [wp]: "s_fs_info s d = Some i \<Longrightarrow> Q i s \<Longrightarrow> after (WRAPFS_SB d) Q s"
  by (simp add: WRAPFS_SB_def after_def gets_def)

text \<open>An entry that is linked to a lower one: the module owns the references of its lower path.\<close>

definition stands_on :: "kst \<Rightarrow> res multiset \<Rightarrow> int \<Rightarrow> lpath \<Rightarrow> bool" where
  "stands_on \<sigma> H d p \<longleftrightarrow> (\<exists>i. d_fsdata \<sigma> d = Some i \<and> lower_path i = p \<and>
     RMem (di_addr i) \<in># H \<and> path_refs p \<subseteq># H \<and> p_dentry p \<noteq> 0 \<and> p_mnt p \<noteq> 0)"

lemma refs_iff [simp]:
  "RDentry d \<in># path_refs p \<longleftrightarrow> p_dentry p = d \<and> d \<noteq> 0" "RMnt m \<in># path_refs p \<longleftrightarrow> p_mnt p = m \<and> m \<noteq> 0"
  "count (path_refs p) (RDentry d) = (if p_dentry p = d \<and> d \<noteq> 0 then 1 else 0)"
  by (auto simp: path_refs_def)

lemma linked_mono:
  assumes "stands_on \<sigma> H d p" "H \<subseteq># K"
  shows "stands_on \<sigma> K d p"
proof -
  obtain i where "d_fsdata \<sigma> d = Some i \<and> lower_path i = p \<and>
     RMem (di_addr i) \<in># H \<and> path_refs p \<subseteq># H \<and> p_dentry p \<noteq> 0 \<and> p_mnt p \<noteq> 0"
    using assms(1) by (auto simp: stands_on_def)
  then have "d_fsdata \<sigma> d = Some i \<and> lower_path i = p \<and>
     RMem (di_addr i) \<in># K \<and> path_refs p \<subseteq># K \<and> p_dentry p \<noteq> 0 \<and> p_mnt p \<noteq> 0"
    using assms(2) by (meson mset_subset_eqD subset_mset.trans)
  then show ?thesis
    unfolding stands_on_def by blast
qed

lemma linked_plus: "stands_on \<sigma> H d p \<Longrightarrow> stands_on \<sigma> (A + H) d p"
  by (erule linked_mono) (rule mset_subset_eq_add_right)

lemma refs_in: "p_dentry p \<noteq> 0 \<Longrightarrow> p_mnt p \<noteq> 0 \<Longrightarrow> path_refs p \<subseteq># K \<Longrightarrow>
    RDentry (p_dentry p) \<in># K \<and> RMnt (p_mnt p) \<in># K"
  by (auto simp: path_refs_def insert_subset_eq_iff dest: in_diffD)

lemma linked_dentry [simp]:
  assumes "stands_on \<sigma> H d p"
  shows "RDentry (p_dentry p) \<in># H" "RMnt (p_mnt p) \<in># H" "p_dentry p \<noteq> 0" "p_mnt p \<noteq> 0"
  using assms by (auto simp: stands_on_def refs_in)

lemma spin_lock_st:
  assumes "st \<sigma> K W s" "RMem a \<in># K" "no_lock K" "pinned W K"
    "\<And>r s'. st \<sigma> (add_mset (RSpin a) K) W s' \<Longrightarrow> Q r s'"
  shows "after (kcall (SpinLock a)) Q s"
  by (rule kcall_st[OF assms(1)]) (use assms in \<open>auto simp: hands_over_def stays_def pinned_def Suc_le_eq\<close>)

lemma spin_unlock_st:
  assumes "st \<sigma> (add_mset (RSpin a) K) W s" "pinned W K" "\<And>r s'. st \<sigma> K W s' \<Longrightarrow> Q r s'"
  shows "after (kcall (SpinUnlock a)) Q s"
  by (rule kcall_st[OF assms(1)]) (use assms in \<open>auto simp: hands_over_def stays_def pinned_def Suc_le_eq\<close>)

lemma path_get_st:
  assumes "st \<sigma> (add_mset (RSpin a) K) {} s" "path_refs p \<subseteq># K"
    "\<And>r s'. st \<sigma> (add_mset (RSpin a) (path_refs p + K)) {} s' \<Longrightarrow> Q r s'"
  shows "after (kcall (PathGet p)) Q s"
proof (rule kcall_st[OF assms(1)])
  have "path_refs p \<subseteq># add_mset (RSpin a) K"
    using assms(2) by (rule subset_mset.order_trans) simp
  then show "eff (PathGet p) r (add_mset (RSpin a) K) = Some (add_mset (RSpin a) (path_refs p + K))" for r
    by simp
qed (simp_all add: assms(3) hands_over_def)

lemma get_lower_path_st [wp]:
  assumes s: "st \<sigma> K {} s" and l: "stands_on \<sigma> K d p" and n: "no_lock K"
    and Q: "\<And>s'. st \<sigma> (path_refs p + K) {} s' \<Longrightarrow> Q p s'"
  shows "after (wrapfs_get_lower_path d) Q s"
proof -
  obtain i where i: "d_fsdata \<sigma> d = Some i" "lower_path i = p" "RMem (di_addr i) \<in># K"
    "path_refs p \<subseteq># K"
    using l unfolding stands_on_def by blast
  have d: "after (WRAPFS_D d) P s'" if "st \<sigma> K' W s'" "P i s'" for P K' W s'
    by (rule WRAPFS_D_wp[where Q = P, OF _ that(2)]) (simp add: st_fields(1)[OF that(1)] i(1))
  show ?thesis
    unfolding wrapfs_get_lower_path_def
    apply (rule after_bind, rule d[OF s])
    apply (rule after_bind, rule spin_lock_st[OF s i(3) n], simp)
    apply (rule after_bind, rule d, assumption)
    apply (rule after_let, rule after_bind, unfold i(2), rule path_get_st, assumption, rule i(4))
    apply (rule after_bind, rule d, assumption)
    apply (rule after_bind, rule spin_unlock_st, assumption, simp)
    apply (rule after_return, erule Q)
    done
qed

lemma lock_parent_st [wp]:
  assumes s: "st \<sigma> K {} s" and n: "no_lock K"
    and Q: "\<And>dir i s'. 0 < dir \<Longrightarrow> i \<noteq> 0 \<Longrightarrow>
      st \<sigma> (add_mset (RLock i) (add_mset (RDentry dir) K)) {(dir, i)} s' \<Longrightarrow> Q dir s'"
  shows "after (lock_parent d) Q s"
proof -
  let ?p = "kret s (DgetParent d)" and ?s = "log_call (DgetParent d) (kret s (DgetParent d)) s"
  let ?i = "kview ?s (DInode ?p)"
  have p: "0 < ?p \<and> ?i \<noteq> 0"
    using s by (simp add: st_def vfs_kernel_def kret_def kview_def Let_def)
  have "st \<sigma> (add_mset (RDentry ?p) K) {} ?s"
    by (rule st_log_call[OF s]) (simp_all add: hands_over_def)
  then have s1: "st \<sigma> (add_mset (RDentry ?p) K) {(?p, ?i)} ?s"
    using p by (simp add: st_def)
  have "after (kcall (InodeLock ?i)) (\<lambda>_. Q ?p) ?s"
    by (rule kcall_st[OF s1, where K' = "\<lambda>r. add_mset (RLock ?i) (add_mset (RDentry ?p) K)"])
      (use p n Q in \<open>auto simp: hands_over_def\<close>)
  then show ?thesis
    unfolding lock_parent_def by (simp add: after_def kcall_def peek_def)
qed

lemma unlock_dir_st [wp]:
  assumes s: "st \<sigma> (add_mset (RLock i) (add_mset (RDentry dir) K)) {(dir, i)} s"
    and Q: "\<And>r s'. st \<sigma> K {} s' \<Longrightarrow> Q r s'"
  shows "after (unlock_dir dir) Q s"
  unfolding unlock_dir_def
  apply (rule after_bind, rule peek_inode_st[OF s])
  apply (rule after_bind)
  apply (rule kcall_st[OF s, where K' = "\<lambda>r. add_mset (RDentry dir) K"],
      simp_all add: hands_over_def)
  apply (rule dput_st)
    apply (erule st_weaken)
   apply (simp_all add: Q)
  done

end
