(* ===== verification/Wrapfs_Owned.thy ===== *)
theory Wrapfs_Owned
  imports Wrapfs_Rules
begin

text \<open>
  What the module's private data own: each structure owns its memory and the references of what it
  points to. \<open>stored\<close> collects them, \<open>grown\<close> is how an operation may extend them by inodes that now
  stand for lower inodes, and the rules of \<open>wrapfs_iget\<close> and \<open>wrapfs_interpose\<close> follow.
\<close>

section \<open>What the private data own\<close>

definition owned_by :: "('a \<Rightarrow> 'b option) \<Rightarrow> ('b \<Rightarrow> res multiset) \<Rightarrow> res multiset" where
  "owned_by m f = (\<Sum>x \<in> dom m. f (the (m x)))"

lemma owned_remove:
  assumes "finite (dom m)" "m x = Some y"
  shows "owned_by m f = f y + owned_by (m(x := None)) f"
proof -
  have x: "x \<in> dom m"
    using assms(2) by (simp add: domI)
  have "owned_by (m(x := None)) f = (\<Sum>z \<in> dom m - {x}. f (the (m z)))"
    unfolding owned_by_def by (rule sum.cong) auto
  then show ?thesis
    unfolding owned_by_def using sum.remove[OF assms(1) x] assms(2) by (metis option.sel)
qed

lemma owned_fresh:
  assumes "finite (dom m)" "m x = None"
  shows "owned_by (m(x \<mapsto> y)) f = f y + owned_by m f"
proof -
  have "(m(x \<mapsto> y))(x := None) = m"
    using assms(2) by (auto simp: fun_eq_iff)
  then show ?thesis
    using owned_remove[of "m(x \<mapsto> y)" x y f] assms(1) by simp
qed

lemma owned_replaced:
  assumes "finite (dom m)" "m x = Some y"
  shows "owned_by (m(x \<mapsto> z)) f + f y = owned_by m f + f z"
  using owned_remove[OF assms, of f] owned_remove[of "m(x \<mapsto> z)" x z f] assms(1)
  by (simp add: ac_simps)

definition ref_if :: "(int \<Rightarrow> res) \<Rightarrow> int \<Rightarrow> res multiset" where
  "ref_if R x = (if x = 0 then {#} else {#R x#})"

lemma ref_if_simps [simp]: "ref_if R 0 = {#}" "x \<noteq> 0 \<Longrightarrow> ref_if R x = {#R x#}"
  by (simp_all add: ref_if_def)

definition d_owns :: "wrapfs_dentry_info \<Rightarrow> res multiset" where
  "d_owns i = add_mset (RMem (di_addr i)) (path_refs (lower_path i))"

definition f_owns :: "wrapfs_file_info \<Rightarrow> res multiset" where
  "f_owns i = add_mset (RMem (fi_addr i)) (ref_if RFile (lower_file i))"

definition s_owns :: "wrapfs_sb_info \<Rightarrow> res multiset" where
  "s_owns i = add_mset (RMem (si_addr i)) (ref_if RSuper (lower_sb i))"

definition lower_of :: "kst \<Rightarrow> int \<Rightarrow> int option" where
  "lower_of \<sigma> i = (if lower_inode \<sigma> i = 0 then None else Some (lower_inode \<sigma> i))"

definition stored :: "kst \<Rightarrow> res multiset" where
  "stored \<sigma> = owned_by (d_fsdata \<sigma>) d_owns + owned_by (lower_of \<sigma>) (\<lambda>i. {#RInode i#}) +
     owned_by (private_data \<sigma>) f_owns + owned_by (s_fs_info \<sigma>) s_owns +
     ref_if RCache (wrapfs_inode_cachep \<sigma>) + ref_if RCache (wrapfs_dentry_cachep \<sigma>)"

definition finite_priv :: "kst \<Rightarrow> bool" where
  "finite_priv \<sigma> \<longleftrightarrow> finite (dom (d_fsdata \<sigma>)) \<and> finite (dom (lower_of \<sigma>)) \<and>
     finite (dom (private_data \<sigma>)) \<and> finite (dom (s_fs_info \<sigma>))"

text \<open>
  The invariant: exactly what the private data own is held, besides what has been handed to the VFS,
  and every inode that stands for a lower one has been initialised and not evicted since.
\<close>

definition tidy :: "kst \<Rightarrow> bool" where
  "tidy s \<longleftrightarrow> finite_priv s \<and> covered s \<and> holding s = Some (stored s + handed (calls s))"

lemma sum_no_lock: "(\<And>y. no_lock (f y)) \<Longrightarrow> no_lock (sum f A)"
  by (induction A rule: infinite_finite_induct) simp_all

lemma stored_no_lock [simp]: "no_lock (stored \<sigma>)"
  by (simp add: stored_def owned_by_def sum_no_lock d_owns_def f_owns_def s_owns_def ref_if_def)

lemma stored_priv [simp]: "stored (priv s) = stored s"
proof -
  have "lower_of (priv s) = lower_of s"
    by (simp add: lower_of_def priv_def fun_eq_iff)
  then show ?thesis
    by (simp add: stored_def) (simp add: priv_def)
qed

lemma finite_priv_priv [simp]: "finite_priv (priv s) = finite_priv s"
proof -
  have "lower_of (priv s) = lower_of s"
    by (simp add: lower_of_def priv_def fun_eq_iff)
  then show ?thesis
    by (simp add: finite_priv_def) (simp add: priv_def)
qed

lemma tidy_st: "tidy s \<Longrightarrow> vfs_kernel (kern s) \<Longrightarrow> st (priv s) (stored s) {} s"
  by (simp add: st_def tidy_def)

lemma st_tidy: "st \<sigma> (stored \<sigma>) W s \<Longrightarrow> finite_priv \<sigma> \<Longrightarrow> tidy s"
  by (auto simp: st_def tidy_def)

lemma d_owns_stored:
  assumes "finite_priv \<sigma>" "d_fsdata \<sigma> d = Some i"
  shows "d_owns i \<subseteq># stored \<sigma>"
proof -
  have "d_owns i \<subseteq># owned_by (d_fsdata \<sigma>) d_owns"
    using owned_remove[of "d_fsdata \<sigma>" d i d_owns] assms by (simp add: finite_priv_def)
  then show ?thesis
    unfolding stored_def by (simp add: subset_mset.add_increasing2)
qed

lemma linked_stored:
  assumes "finite_priv \<sigma>" "d_fsdata \<sigma> d = Some i" "p_dentry (lower_path i) \<noteq> 0"
    "p_mnt (lower_path i) \<noteq> 0"
  shows "stands_on \<sigma> (stored \<sigma>) d (lower_path i)"
proof -
  have "path_refs (lower_path i) \<subseteq># d_owns i" "RMem (di_addr i) \<in># d_owns i"
    by (simp_all add: d_owns_def)
  then have "path_refs (lower_path i) \<subseteq># stored \<sigma>" "RMem (di_addr i) \<in># stored \<sigma>"
    using d_owns_stored[OF assms(1,2)] by (meson subset_mset.trans, meson mset_subset_eqD)
  then show ?thesis
    unfolding stands_on_def using assms(2-4) by blast
qed

section \<open>Inodes that stand for lower inodes\<close>

definition grown :: "kst \<Rightarrow> res multiset \<Rightarrow> kst \<Rightarrow> bool" where
  "grown \<sigma> L \<sigma>' \<longleftrightarrow> (\<exists>g. \<sigma>' = \<sigma>\<lparr>lower_inode := g\<rparr> \<and>
       (\<forall>i. lower_inode \<sigma> i \<noteq> 0 \<longrightarrow> g i = lower_inode \<sigma> i)) \<and>
     stored \<sigma>' = L + stored \<sigma> \<and> finite_priv \<sigma>' \<and> no_lock L"

lemma grown_refl: "finite_priv \<sigma> \<Longrightarrow> grown \<sigma> {#} \<sigma>"
  by (auto simp: grown_def intro!: exI[of _ "lower_inode \<sigma>"])

lemma grown_new:
  assumes "finite_priv \<sigma>" "lower_inode \<sigma> j = 0" "li \<noteq> 0"
  shows "grown \<sigma> {#RInode li#} (\<sigma>\<lparr>lower_inode := (lower_inode \<sigma>)(j := li)\<rparr>)"
proof -
  have m: "lower_of (\<sigma>\<lparr>lower_inode := (lower_inode \<sigma>)(j := li)\<rparr>) = (lower_of \<sigma>)(j \<mapsto> li)"
    using assms(3) by (auto simp: lower_of_def fun_eq_iff)
  have "lower_of \<sigma> j = None"
    using assms(2) by (simp add: lower_of_def)
  then have "owned_by ((lower_of \<sigma>)(j \<mapsto> li)) (\<lambda>i. {#RInode i#}) =
      {#RInode li#} + owned_by (lower_of \<sigma>) (\<lambda>i. {#RInode i#})"
    using assms(1) by (intro owned_fresh) (simp_all add: finite_priv_def)
  then show ?thesis
    using assms(1,2) unfolding grown_def stored_def finite_priv_def m by auto
qed

lemma pinned_add [simp]: "pinned W K \<Longrightarrow> pinned W (add_mset x K)"
  by (auto simp: pinned_def)

lemma pinned_plus [simp]: "pinned W K \<Longrightarrow> pinned W (A + K)"
  by (auto simp: pinned_def)

lemma igrab_st [wp]:
  assumes "st \<sigma> K W s" "li \<noteq> 0" "pinned W K"
    "\<And>s'. st \<sigma> K W s' \<Longrightarrow> Q 0 s'" "\<And>r s'. r \<noteq> 0 \<Longrightarrow> st \<sigma> (add_mset (RInode li) K) W s' \<Longrightarrow> Q r s'"
  shows "after (kcall (Igrab li)) Q s"
  by (rule kcall_st[OF assms(1), where K' = "\<lambda>r. if r = 0 then K else add_mset (RInode li) K"])
    (use assms in \<open>auto simp: hands_over_def stays_def pinned_def Suc_le_eq split: if_splits\<close>)

lemma iput_st [wp]:
  assumes "st \<sigma> (add_mset (RInode li) K) W s" "li \<noteq> 0" "pinned W K"
    "\<And>r s'. st \<sigma> K W s' \<Longrightarrow> Q r s'"
  shows "after (kcall (Iput li)) Q s"
  by (rule kcall_st[OF assms(1)])
    (use assms in \<open>auto simp: hands_over_def stays_def pinned_def Suc_le_eq\<close>)

lemma iget5_st:
  assumes s: "st \<sigma> K W s" and p: "pinned W K"
    and Q: "\<And>j s'. 0 \<le> j \<Longrightarrow> st \<sigma> (ref_if RInode j + K) W s' \<Longrightarrow> j \<in> live_inodes (calls s') \<Longrightarrow>
      (kview s' (IIsNew j) \<noteq> 0 \<longrightarrow> lower_inode \<sigma> j = 0) \<Longrightarrow> Q j s'"
  shows "after (kcall (Iget5 sb n i)) Q s"
proof -
  let ?j = "kret s (Iget5 sb n i)"
  let ?s = "log_call (Iget5 sb n i) ?j s"
  have k: "0 \<le> ?j" "kview ?s (IIsNew ?j) \<noteq> 0 \<longrightarrow> ?j \<notin> live_inodes (calls s)"
    using s by (simp_all add: st_def vfs_kernel_def kret_def kview_def Let_def)
  have "?j \<notin> live_inodes (calls s) \<Longrightarrow> lower_inode \<sigma> ?j = 0"
    using s st_fields(2)[OF s] by (auto simp: st_def covered_def)
  moreover have "st \<sigma> (ref_if RInode ?j + K) W ?s"
    by (rule st_log_call[OF s])
      (use p in \<open>auto simp: hands_over_def stays_def pinned_def Suc_le_eq ref_if_def\<close>)
  ultimately show ?thesis
    using Q[of ?j ?s] k by (simp add: after_def kcall_def)
qed

lemma set_lower_inode_st:
  assumes s: "st \<sigma> K W s" and j: "j \<in> live_inodes (calls s)"
    and Q: "\<And>s'. st (\<sigma>\<lparr>lower_inode := (lower_inode \<sigma>)(j := li)\<rparr>) K W s' \<Longrightarrow> Q () s'"
  shows "after (wrapfs_set_lower_inode j li) Q s"
proof -
  let ?s = "s\<lparr>lower_inode := (lower_inode s)(j := li)\<rparr>"
  have "priv ?s = \<sigma>\<lparr>lower_inode := (lower_inode \<sigma>)(j := li)\<rparr>"
    using s st_fields(2)[OF s] by (auto simp: st_def priv_def)
  then have "st (\<sigma>\<lparr>lower_inode := (lower_inode \<sigma>)(j := li)\<rparr>) K W ?s"
    using s j by (auto simp: st_def covered_def)
  then show ?thesis
    using Q by (simp add: after_def wrapfs_set_lower_inode_def modify_def)
qed

lemma neutral_any_st:
  assumes "st \<sigma> K W s" "neutral c" "pinned W K"
  shows "st \<sigma> K W (log_call c r s)"
  by (rule st_log_call[OF assms(1)]) (use assms in \<open>auto simp: neutral_def stays_def pinned_def\<close>)

text \<open>
  \<open>wrapfs_iget\<close>: an error leaves all as it was; else the result is referenced, and when it is new it
  stands for the lower inode and owns the reference that \<open>igrab\<close> took.
\<close>

lemma wrapfs_iget_st [wp]:
  assumes s: "st \<sigma> K W s" and p: "pinned W K" and li: "li \<noteq> 0" and f: "finite_priv \<sigma>"
    and Q0: "\<And>r s'. r < 0 \<Longrightarrow> - 4095 \<le> r \<Longrightarrow> st \<sigma> K W s' \<Longrightarrow> Q r s'"
    and Q: "\<And>r s' \<sigma>' L. 0 < r \<Longrightarrow> grown \<sigma> L \<sigma>' \<Longrightarrow>
      st \<sigma>' (add_mset (RInode r) (L + K)) W s' \<Longrightarrow> Q r s'"
  shows "after (wrapfs_iget sb li) Q s"
proof -
  note g0 = grown_refl[OF f]
  have Q1: "Q r s'" if "0 < r" "st \<sigma> (add_mset (RInode r) K) W s'" for r s'
    using Q[OF that(1) g0, of s'] that by simp
  note p' = p pinned_add
  have existing: "after (do { _ \<leftarrow> kcall (Iput li); ret j }) Q t"
    if "st \<sigma> (add_mset (RInode li) (add_mset (RInode j) K)) W t" "0 < j" for j t
    by (rule after_bind, rule iput_st[where K = "add_mset (RInode j) K"])
      (use that p' li Q1 in \<open>auto simp: add_mset_commute intro: after_return\<close>)
  have fresh: "after (do {
         n \<leftarrow> peek (INumber li);
         _ \<leftarrow> kcall (Assign IIno j n);
         wrapfs_set_lower_inode j li;
         m }) Q t"
    if t: "st \<sigma> (add_mset (RInode li) (add_mset (RInode j) K)) W t" "0 < j"
      "j \<in> live_inodes (calls t)" "lower_inode \<sigma> j = 0"
      and m: "\<And>\<tau> u. st \<tau> (add_mset (RInode li) (add_mset (RInode j) K)) W u \<Longrightarrow>
        (\<And>u'. st \<tau> (add_mset (RInode li) (add_mset (RInode j) K)) W u' \<Longrightarrow> Q j u') \<Longrightarrow>
        after m Q u" for j t m
  proof -
    let ?K = "add_mset (RInode li) (add_mset (RInode j) K)" and ?\<tau> = "\<sigma>\<lparr>lower_inode := (lower_inode \<sigma>)(j := li)\<rparr>"
    have g: "grown \<sigma> {#RInode li#} ?\<tau>"
      by (rule grown_new[OF f t(4) li])
    have Q2: "Q j u" if "st ?\<tau> ?K W u" for u
      using Q[OF t(2) g, of u] that by (simp add: add_mset_commute)
    have set: "after (wrapfs_set_lower_inode j li) (\<lambda>_. after m Q) (log_call (Assign IIno j n) r t)"
      for n r
      using t p' by (intro set_lower_inode_st neutral_any_st m Q2) auto
    show ?thesis
      by (rule after_bind, rule peek_any, rule after_bind, rule after_kcall, rule after_bind, rule set)
  qed
  show ?thesis
    unfolding wrapfs_iget_def
    apply (rule after_bind, rule igrab_st[OF s li p])
     apply (simp add: Q0 after_return)
    apply simp
    apply (rule after_bind, rule peek_any)
    apply (rule after_bind, rule iget5_st, assumption, simp add: p')
    apply (rule after_if)
     apply (simp, rule after_bind, rule iput_st, assumption, rule li, rule p)
     apply (rule after_return, rule Q0, simp, simp, assumption)
    apply simp
    apply (rule after_bind, rule after_peek)
    apply (rule after_if)
     apply (rule existing, assumption, simp)
    apply (rule fresh, assumption, simp, assumption, simp)
    by (rule wp | assumption | simp add: p')+
qed

section \<open>Interposing\<close>

lemma splice_st:
  assumes s: "st \<sigma> (add_mset (RInode i) K) W s" and p: "pinned W K"
    and Q: "\<And>r s'. - 4095 \<le> r \<Longrightarrow> st \<sigma> K W s' \<Longrightarrow> Q r s'"
  shows "after (kcall (DSpliceAlias i d)) Q s"
proof -
  have "st \<sigma> K W (log_call (DSpliceAlias i d) r s)" for r
    by (rule st_log_held[OF s])
      (use p in \<open>auto simp: stays_def pinned_def Suc_le_eq gain_def\<close>)
  moreover have "- 4095 \<le> kret s (DSpliceAlias i d)"
    using s by (simp add: st_def vfs_kernel_def kret_def)
  ultimately show ?thesis
    using Q by (simp add: after_def kcall_def)
qed

text \<open>An entry of a file system whose super block is mounted, whenever it is read.\<close>

definition mounted :: "kst \<Rightarrow> (int \<Rightarrow> query) \<Rightarrow> int \<Rightarrow> bool" where
  "mounted \<sigma> q x \<longleftrightarrow> (\<forall>l. s_fs_info \<sigma> (k_view (kern \<sigma>) l (q x)) \<noteq> None)"

lemma mounted_peek:
  assumes "st \<sigma> K W s" "mounted \<sigma> q x" "\<And>sb. s_fs_info \<sigma> sb \<noteq> None \<Longrightarrow> Q sb s"
  shows "after (peek (q x)) Q s"
  using assms(2,3) st_fields(7)[OF assms(1)]
  by (simp add: after_def peek_def kview_def mounted_def)

lemma lower_super_wp:
  assumes "st \<sigma> K W s" "s_fs_info \<sigma> sb \<noteq> None" "\<And>x. Q x s"
  shows "after (wrapfs_lower_super sb) Q s"
  using assms(2,3) st_fields(4)[OF assms(1)]
  by (auto simp: wrapfs_lower_super_def after_def WRAPFS_SB_def gets_def)

text \<open>
  Interposing, whether it succeeds, finds an alias or fails, leaves the references as they were, but
  for those of an inode that now stands for the lower one.
\<close>

lemma interpose_st:
  assumes s: "st \<sigma> K W s" "pinned W K" "finite_priv \<sigma>" "s_fs_info \<sigma> sb \<noteq> None"
    "kview s (DInode (p_dentry p)) \<noteq> 0"
    and Q: "\<And>r s' \<sigma>' L. - 4095 \<le> r \<Longrightarrow> grown \<sigma> L \<sigma>' \<Longrightarrow> st \<sigma>' (L + K) W s' \<Longrightarrow> Q r s'"
  shows "after (interpose dentry sb p) Q s"
proof -
  have err: "Q r s'" if "- 4095 \<le> r" "st \<sigma> K W s'" for r s'
    using Q[OF that(1) grown_refl[OF s(3)], of s'] that(2) by simp
  show ?thesis
    unfolding interpose_def
    apply (rule after_bind, rule after_peek)
    apply (rule after_bind, rule lower_super_wp[OF s(1,4)])
    apply (rule after_bind, rule after_if)
     apply (use s(5) in simp)
    apply (rule after_return, rule after_bind, rule peek_any)
    apply (rule after_if)
     apply (rule after_return, rule err, simp, rule s(1))
    apply (rule after_bind, rule wrapfs_iget_st[OF s(1,2) _ s(3)])
     apply (use s(5) in simp)
     apply (simp add: IS_ERR_def, rule after_return, rule err, assumption, assumption)
    apply (simp add: IS_ERR_def)
    apply (rule splice_st, assumption)
     apply (use s(2) in simp)
    apply (rule Q, assumption, assumption, assumption)
    done
qed

lemma wrapfs_interpose_st:
  assumes "st \<sigma> K W s" "pinned W K" "finite_priv \<sigma>" "s_fs_info \<sigma> sb \<noteq> None"
    "kview s (DInode (p_dentry p)) \<noteq> 0"
    "\<And>r s' \<sigma>' L. grown \<sigma> L \<sigma>' \<Longrightarrow> st \<sigma>' (L + K) W s' \<Longrightarrow> Q r s'"
  shows "after (wrapfs_interpose dentry sb p) Q s"
  unfolding wrapfs_interpose_def
  by (rule after_bind, rule interpose_st[OF assms(1-5)], rule after_return, rule assms(6))

lemma creating_st:
  assumes s: "st \<sigma> K W s" and v: "\<forall>x\<in>set (uses v). x \<in># K" "stays (Lower v) W K K" "made_by v \<noteq> 0"
    and Q: "\<And>r s'. st \<sigma> K W s' \<Longrightarrow> (r = 0 \<longrightarrow> kview s' (DInode (made_by v)) \<noteq> 0) \<Longrightarrow> Q r s'"
  shows "after (kcall (Lower v)) Q s"
proof -
  let ?s = "log_call (Lower v) (kret s (Lower v)) s"
  have "kret s (Lower v) = 0 \<longrightarrow> kview ?s (DInode (made_by v)) \<noteq> 0"
    using s v(3) by (auto simp: st_def vfs_kernel_def kret_def kview_def)
  moreover have "st \<sigma> K W ?s"
    by (rule st_log_call[OF s]) (use v in \<open>auto simp: need_def hands_over_def\<close>)
  ultimately show ?thesis
    using Q by (simp add: after_def kcall_def)
qed

lemma grown_tidy: "grown \<sigma> L \<sigma>' \<Longrightarrow> st \<sigma>' (L + stored \<sigma>) W s' \<Longrightarrow> tidy s'"
  unfolding grown_def by (metis st_tidy)

section \<open>Programs that hold nothing new\<close>

text \<open>
  The steps between taking a lower path and giving it back: whatever they read and update, and
  whatever lower operation they call on what is in \<open>U\<close>, they leave what is held, the private data
  and the inodes of referenced entries as they are.
\<close>

definition unchanging :: "res set \<Rightarrow> 'a prog \<Rightarrow> bool" where
  "unchanging U m \<longleftrightarrow> (\<forall>\<sigma> K W s. st \<sigma> K W s \<longrightarrow> pinned W K \<longrightarrow> U \<subseteq> set_mset K \<longrightarrow>
     after m (\<lambda>r. st \<sigma> K W) s)"

lemma quiet_st:
  "unchanging U m \<Longrightarrow> st \<sigma> K W s \<Longrightarrow> pinned W K \<Longrightarrow> U \<subseteq> set_mset K \<Longrightarrow>
    (\<And>r s'. st \<sigma> K W s' \<Longrightarrow> Q r s') \<Longrightarrow> after m Q s"
  unfolding unchanging_def by (blast intro: after_mono)

named_theorems unchanging \<open>programs that hold nothing new\<close>

lemma quiet_ret [unchanging]: "unchanging U (ret x)"
  by (simp add: unchanging_def after_def)

lemma quiet_peek [unchanging]: "unchanging U (peek q)"
  by (simp add: unchanging_def after_def peek_def)

lemma quiet_gets [unchanging]: "unchanging U (gets f)"
  by (simp add: unchanging_def after_def gets_def)

lemma quiet_lower_inode [unchanging]: "unchanging U (wrapfs_lower_inode i)"
  by (simp add: wrapfs_lower_inode_def quiet_gets)

lemma quiet_neutral: "neutral c \<Longrightarrow> unchanging U (kcall c)"
  unfolding unchanging_def by (auto intro: neutral_st)

lemmas quiet_calls [unchanging] = neutral_simps[THEN quiet_neutral]

lemma quiet_lower [unchanging]:
  assumes "set (uses v) \<subseteq> U" "\<And>d. \<not> removes (Lower v) d"
  shows "unchanging U (kcall (Lower v))"
  unfolding unchanging_def
proof (intro allI impI)
  fix \<sigma> K W s
  assume s: "st \<sigma> K W s" "pinned W K" "U \<subseteq> set_mset K"
  then have u: "\<forall>x\<in>set (uses v). x \<in># K"
    using assms(1) by auto
  have "stays (Lower v) W K K"
    using s(2) assms(2) by (auto simp: stays_def pinned_def Suc_le_eq)
  from lower_st[OF s(1) u this, of "\<lambda>r. st \<sigma> K W"]
  show "after (kcall (Lower v)) (\<lambda>r. st \<sigma> K W) s"
    by simp
qed

lemma quiet_bind [unchanging]: "unchanging U m \<Longrightarrow> (\<And>x. unchanging U (f x)) \<Longrightarrow> unchanging U (m \<bind> f)"
  unfolding unchanging_def by (blast intro: after_bind after_mono)

lemma quiet_if [unchanging]: "unchanging U m \<Longrightarrow> unchanging U n \<Longrightarrow> unchanging U (if b then m else n)"
  by simp

lemma quiet_let [unchanging]: "unchanging U (f e) \<Longrightarrow> unchanging U (let x = e in f x)"
  by simp

text \<open>A quiet program that ends by giving back the lower path.\<close>

definition puts :: "lpath \<Rightarrow> res set \<Rightarrow> 'a prog \<Rightarrow> bool" where
  "puts p U m \<longleftrightarrow> (\<forall>\<sigma> K s. st \<sigma> (path_refs p + K) {} s \<longrightarrow> U \<subseteq> set_mset K \<longrightarrow> after m (\<lambda>r. st \<sigma> K {}) s)"

lemma puts_final: "puts p U (do { _ \<leftarrow> wrapfs_put_lower_path d p; ret x })"
  unfolding puts_def wrapfs_put_lower_path_def
proof (intro allI impI)
  fix \<sigma> K s
  assume "st \<sigma> (path_refs p + K) {} s"
  then show "after (kcall (PathPut p) \<bind> (\<lambda>_. ret x)) (\<lambda>r. st \<sigma> K {}) s"
    by (rule after_bind[OF path_put_st]) (simp_all add: after_return)
qed

lemma puts_bind: "unchanging U m \<Longrightarrow> (\<And>x. puts p U (f x)) \<Longrightarrow> puts p U (m \<bind> f)"
  unfolding puts_def
proof (intro allI impI)
  fix \<sigma> K s
  assume m: "unchanging U m" and f: "\<And>x. \<forall>\<sigma> K s. st \<sigma> (path_refs p + K) {} s \<longrightarrow> U \<subseteq> set_mset K \<longrightarrow>
      after (f x) (\<lambda>r. st \<sigma> K {}) s"
    and s: "st \<sigma> (path_refs p + K) {} s" "U \<subseteq> set_mset K"
  show "after (m \<bind> f) (\<lambda>r. st \<sigma> K {}) s"
    by (rule after_bind, rule quiet_st[OF m s(1)]) (use s(2) f in auto)
qed

lemma puts_let: "puts p U (f e) \<Longrightarrow> puts p U (let x = e in f x)"
  by simp

lemma puts_if: "puts p U m \<Longrightarrow> puts p U n \<Longrightarrow> puts p U (if b then m else n)"
  by simp

section \<open>Sound states\<close>

definition sound :: "kst \<Rightarrow> bool" where
  "sound s \<longleftrightarrow> tidy s \<and> vfs_kernel (kern s)"

lemma sound_st:
  assumes "sound s"
  shows "st (priv s) (stored (priv s)) {} s" "finite_priv (priv s)" "no_lock (stored (priv s))"
  using assms by (simp_all add: sound_def tidy_st) (simp add: tidy_def)

lemma st_sound: "st \<sigma> (stored \<sigma>) W s \<Longrightarrow> finite_priv \<sigma> \<Longrightarrow> sound s"
  unfolding sound_def by (metis st_tidy st_def)

lemma grown_sound: "grown \<sigma> L \<sigma>' \<Longrightarrow> st \<sigma>' (L + stored \<sigma>) W s' \<Longrightarrow> sound s'"
  unfolding grown_def by (metis st_sound)

text \<open>An entry with a lower path.\<close>

definition bound :: "kst \<Rightarrow> int \<Rightarrow> bool" where
  "bound s d \<longleftrightarrow> (case d_fsdata s d of None \<Rightarrow> False
     | Some i \<Rightarrow> p_dentry (lower_path i) \<noteq> 0 \<and> p_mnt (lower_path i) \<noteq> 0)"

lemma bound_linked:
  assumes "sound s" "bound s d"
  obtains p where "stands_on (priv s) (stored (priv s)) d p"
proof -
  obtain i where "d_fsdata (priv s) d = Some i" "p_dentry (lower_path i) \<noteq> 0"
    "p_mnt (lower_path i) \<noteq> 0"
    using assms(2) by (auto simp: bound_def priv_def split: option.splits)
  from that[OF linked_stored[OF sound_st(2)[OF assms(1)] this]] show ?thesis .
qed

lemma with_path_sound:
  assumes "sound s" "bound s d"
    "\<And>p. puts p {RDentry (p_dentry p), RMnt (p_mnt p)} (f p)"
  shows "after (wrapfs_get_lower_path d \<bind> f) (\<lambda>r. sound) s"
proof -
  obtain p where l: "stands_on (priv s) (stored (priv s)) d p"
    using bound_linked[OF assms(1,2)] .
  note s = sound_st[OF assms(1)]
  have "after (f p) (\<lambda>r. sound) s'" if "st (priv s) (path_refs p + stored (priv s)) {} s'" for s'
  proof -
    have "after (f p) (\<lambda>r. st (priv s) (stored (priv s)) {}) s'"
      using assms(3)[of p] that l by (simp add: puts_def)
    then show ?thesis
      by (rule after_mono) (rule st_sound[OF _ s(2)])
  qed
  then show ?thesis
    by (intro after_bind get_lower_path_st[OF s(1) l s(3)])
qed

lemma quiet_sound: "sound s \<Longrightarrow> unchanging {} m \<Longrightarrow> after m (\<lambda>r. sound) s"
  by (rule quiet_st, assumption, erule sound_st(1), simp, simp, erule st_sound, erule sound_st(2))

end
