(* ===== verification/Wrapfs_Inode_Correct.thy ===== *)
theory Wrapfs_Inode_Correct
  imports Wrapfs_Owned
begin

text \<open>
  Every operation of \<open>inode.c\<close> keeps the module tidy, on every path and for every answer of the
  kernel: it gives back each reference and each lock it took, uses no lower object without holding
  it, and changes directories only with the lock of the lower parent held.
\<close>

section \<open>Operations that make an entry\<close>

text \<open>
  The four operations that create an object differ in the call they make and in how they bring the
  directory up to date.
\<close>

lemma create_sound:
  assumes "sound s" "bound s dentry" "mounted (priv s) ISb dir"
    and v: "\<And>pi d. uses (v pi d) = [RDentry d, RLock pi]" "\<And>pi d. made_by (v pi d) = d"
      "\<And>pi d x. \<not> removes (Lower (v pi d)) x"
    and u: "\<And>lp. unchanging {} (update lp)"
  shows "after (do {
     p \<leftarrow> wrapfs_get_lower_path dentry;
     let lower_dentry = p_dentry p;
     lower_parent \<leftarrow> lock_parent lower_dentry;
     pi \<leftarrow> peek (DInode lower_parent);
     err \<leftarrow> kcall (Lower (v pi lower_dentry));
     err \<leftarrow> (if err \<noteq> 0 then ret err
            else do {
              sb \<leftarrow> peek (ISb dir);
              err \<leftarrow> wrapfs_interpose dentry sb p;
              if err \<noteq> 0 then ret err else update lower_parent });
     _ \<leftarrow> unlock_dir lower_parent;
     _ \<leftarrow> wrapfs_put_lower_path dentry p;
     ret (err :: int) }) (\<lambda>r. sound) s"
proof -
  obtain p where l: "stands_on (priv s) (stored (priv s)) dentry p"
    using bound_linked[OF assms(1,2)] .
  note s = sound_st[OF assms(1)]
  show ?thesis
    unfolding wrapfs_put_lower_path_def
    apply (rule after_bind, rule get_lower_path_st[OF s(1) l s(3)])
    apply (rule after_let, rule after_bind, rule lock_parent_st, assumption)
     apply (simp add: s)
    apply (rule after_bind, rule peek_inode_st, assumption)
    apply (rule after_bind, rule creating_st, assumption)
       apply (use l v in simp; fail)
      apply (use l v in simp; fail)
     apply (use l v in simp; fail)
    apply (rule after_bind, rule after_if)
     apply (rule after_return, rule after_bind, rule unlock_dir_st, assumption)
     apply (rule after_bind, rule path_put_st, assumption)
       apply simp
      apply simp
     apply (rule after_return, rule grown_sound[OF grown_refl[OF s(2)]], simp)
    apply (rule after_bind, rule mounted_peek, assumption, rule assms(3))
    apply (rule after_bind, rule wrapfs_interpose_st, assumption)
        apply (use s v in simp_all)[4]
    apply (rule quiet_st[where U = "{}" and m = "if _ then _ else _"])
       apply (intro unchanging u)
      apply assumption
     apply simp
     apply simp
    apply (rule after_bind, rule unlock_dir_st)
     apply simp
    apply (rule after_bind, rule path_put_st, assumption)
      apply simp
     apply simp
    apply (rule after_return, rule grown_sound, assumption)
    apply simp
    done
qed

lemma wrapfs_create_sound:
  assumes "sound s" "bound s dentry" "mounted (priv s) ISb dir"
  shows "after (wrapfs_create dir dentry mode want_excl) (\<lambda>r. sound) s"
  unfolding wrapfs_create_def
  by (rule create_sound[OF assms, where v = "\<lambda>pi d. VfsCreate pi d mode want_excl"])
    (simp_all, intro unchanging)

lemma wrapfs_symlink_sound:
  assumes "sound s" "bound s dentry" "mounted (priv s) ISb dir"
  shows "after (wrapfs_symlink dir dentry symname) (\<lambda>r. sound) s"
  unfolding wrapfs_symlink_def
  by (rule create_sound[OF assms, where v = "\<lambda>pi d. VfsSymlink pi d symname"])
    (simp_all, intro unchanging)

lemma wrapfs_mkdir_sound:
  assumes "sound s" "bound s dentry" "mounted (priv s) ISb dir"
  shows "after (wrapfs_mkdir dir dentry mode) (\<lambda>r. sound) s"
  unfolding wrapfs_mkdir_def
  by (rule create_sound[OF assms, where v = "\<lambda>pi d. VfsMkdir pi d mode"])
    (simp_all, intro unchanging)

lemma wrapfs_mknod_sound:
  assumes "sound s" "bound s dentry" "mounted (priv s) ISb dir"
  shows "after (wrapfs_mknod dir dentry mode dev) (\<lambda>r. sound) s"
  unfolding wrapfs_mknod_def
  by (rule create_sound[OF assms, where v = "\<lambda>pi d. VfsMknod pi d mode dev"])
    (simp_all, intro unchanging)

section \<open>Operations on the entry alone\<close>

lemma wrapfs_readlink_sound:
  assumes "sound s" "bound s dentry"
  shows "after (wrapfs_readlink dentry buf bufsiz) (\<lambda>r. sound) s"
  unfolding wrapfs_readlink_def
  by (rule with_path_sound[OF assms])
    (rule puts_final | rule puts_bind puts_let | rule unchanging | simp)+

lemma wrapfs_getattr_sound:
  assumes "sound s" "bound s dentry"
  shows "after (wrapfs_getattr mnt dentry stat) (\<lambda>r. sound) s"
  unfolding wrapfs_getattr_def
  by (rule with_path_sound[OF assms])
    (rule puts_final | rule puts_bind puts_let | rule unchanging | simp)+

lemma wrapfs_setxattr_sound:
  assumes "sound s" "bound s dentry"
  shows "after (wrapfs_setxattr dentry inode nm val n flags) (\<lambda>r. sound) s"
  unfolding wrapfs_setxattr_def
  by (rule with_path_sound[OF assms])
    (rule puts_final | rule puts_bind puts_let | rule unchanging | simp)+

lemma wrapfs_getxattr_sound:
  assumes "sound s" "bound s dentry"
  shows "after (wrapfs_getxattr dentry inode nm buf n) (\<lambda>r. sound) s"
  unfolding wrapfs_getxattr_def
  by (rule with_path_sound[OF assms])
    (rule puts_final | rule puts_bind puts_let | rule unchanging | simp)+

lemma wrapfs_listxattr_sound:
  assumes "sound s" "bound s dentry"
  shows "after (wrapfs_listxattr dentry buf n) (\<lambda>r. sound) s"
  unfolding wrapfs_listxattr_def
  by (rule with_path_sound[OF assms])
    (rule puts_final | rule puts_bind puts_let | rule unchanging | simp)+

lemma wrapfs_removexattr_sound:
  assumes "sound s" "bound s dentry"
  shows "after (wrapfs_removexattr dentry inode nm) (\<lambda>r. sound) s"
  unfolding wrapfs_removexattr_def
  by (rule with_path_sound[OF assms])
    (rule puts_final | rule puts_bind puts_let | rule unchanging | simp)+

lemma wrapfs_xattr_set_sound:
  assumes "sound s" "bound s dentry" "val = 0 \<Longrightarrow> flags = XATTR_REPLACE"
  shows "after (wrapfs_xattr_set dentry inode nm val n flags) (\<lambda>r. sound) s"
  using assms(3) unfolding wrapfs_xattr_set_def
  by (auto intro!: wrapfs_setxattr_sound wrapfs_removexattr_sound assms(1,2))

lemma wrapfs_permission_sound:
  assumes "sound s" "lower_inode s inode \<noteq> 0"
  shows "after (wrapfs_permission inode msk) (\<lambda>r. sound) s"
proof -
  note s = sound_st[OF assms(1)]
  have "lower_of (priv s) inode = Some (lower_inode s inode)"
    using assms(2) by (simp add: lower_of_def priv_def)
  then have "RInode (lower_inode s inode) \<in># stored (priv s)"
    using owned_remove[of "lower_of (priv s)" inode "lower_inode s inode" "\<lambda>i. {#RInode i#}"] s(2)
    by (simp add: finite_priv_def stored_def del: stored_priv)
  then show ?thesis
    unfolding wrapfs_permission_def wrapfs_lower_inode_def
    by (intro after_bind after_gets lower_st[OF s(1)])
      (auto intro: st_sound[OF _ s(2)])
qed

section \<open>Attributes\<close>

text \<open>The entry's lower entry is positive, whenever it is looked at.\<close>

definition lower_positive :: "kst \<Rightarrow> int \<Rightarrow> bool" where
  "lower_positive s d \<longleftrightarrow> (\<forall>l i. d_fsdata s d = Some i \<longrightarrow>
     k_view (kern s) l (DInode (p_dentry (lower_path i))) \<noteq> 0)"

lemma peek_pin:
  assumes "st \<sigma> K {} s" "\<And>l. k_view (kern \<sigma>) l (DInode d) \<noteq> 0"
    "\<And>i. i \<noteq> 0 \<Longrightarrow> st \<sigma> K {(d, i)} s \<Longrightarrow> Q i s"
  shows "after (peek (DInode d)) Q s"
  using assms st_fields(7)[OF assms(1)] by (simp add: after_def peek_def st_def kview_def)

lemma inode_lock_st:
  assumes "st \<sigma> K W s" "i \<noteq> 0" "no_lock K" "pinned W K"
    "\<And>r s'. st \<sigma> (add_mset (RLock i) K) W s' \<Longrightarrow> Q r s'"
  shows "after (kcall (InodeLock i)) Q s"
  by (rule kcall_st[OF assms(1)])
    (use assms in \<open>auto simp: hands_over_def stays_def pinned_def Suc_le_eq\<close>)

lemma inode_unlock_st:
  assumes "st \<sigma> (add_mset (RLock i) K) W s" "pinned W K"
    "\<And>r s'. st \<sigma> K {} s' \<Longrightarrow> Q r s'"
  shows "after (kcall (InodeUnlock i)) Q s"
  by (rule kcall_st[OF assms(1)])
    (use assms in \<open>auto simp: hands_over_def stays_def pinned_def Suc_le_eq intro: st_weaken\<close>)

lemma wrapfs_setattr_sound:
  assumes "sound s" "bound s dentry" "lower_positive s dentry"
    "ia_valid ia AND ATTR_FILE \<noteq> 0 \<Longrightarrow> private_data s (ia_file ia) \<noteq> None"
  shows "after (wrapfs_setattr dentry ia) (\<lambda>r. sound) s"
proof -
  obtain p where l: "stands_on (priv s) (stored (priv s)) dentry p"
    using bound_linked[OF assms(1,2)] .
  have pos: "k_view (kern (priv s)) l (DInode (p_dentry p)) \<noteq> 0" for l
  proof -
    obtain i where "d_fsdata (priv s) dentry = Some i" "lower_path i = p"
      using l unfolding stands_on_def by blast
    then show ?thesis
      using assms(3) by (auto simp: lower_positive_def priv_def)
  qed
  note s = sound_st[OF assms(1)] and d = linked_dentry[OF l, unfolded stored_priv]
  let ?K = "path_refs p + stored (priv s)"
  have att: "after (if ia_valid ia AND ATTR_FILE \<noteq> 0 then wrapfs_lower_file (ia_file ia)
      else ret (ia_file ia)) Q t" if t: "st (priv s) ?K {} t" "\<And>f. Q f t" for Q t
    using assms(4) t st_fields(3)[OF t(1)]
    by (auto simp: after_def wrapfs_lower_file_def WRAPFS_F_def gets_def priv_def)
  have tail: "after (do { _ \<leftarrow> wrapfs_put_lower_path dentry p; ret e }) (\<lambda>r. sound) t"
    if "st (priv s) ?K {} t" for e t
    unfolding wrapfs_put_lower_path_def
    by (rule after_bind, rule path_put_st[OF that])
      (simp_all add: after_return st_sound[OF _ s(2)] del: stored_priv)
  show ?thesis
    unfolding wrapfs_setattr_def
    apply (rule after_bind, rule peek_any, rule after_bind)
    apply (rule lower_quiet_st[OF s(1)], simp, simp, simp)
    apply (rule after_if, rule after_return, rule st_sound[OF _ s(2)], assumption)
    apply (rule after_bind, rule get_lower_path_st[OF _ l s(3)], assumption)
    apply (rule after_let, rule after_bind, unfold wrapfs_lower_inode_def, rule after_gets)
    apply (rule after_bind, rule att, assumption)
    apply (rule after_bind, rule quiet_st[where U = "{}" and m = "if _ then _ else _"])
        apply (rule unchanging | assumption | (simp; fail))+
    apply (rule after_bind, rule after_if)
     apply (rule after_return, rule tail, assumption)
    apply (rule after_let, rule after_bind, rule peek_pin, assumption, rule pos)
    apply (rule after_bind, rule inode_lock_st[where W = "{(_, _)}"], assumption, assumption)
      apply (simp add: s)
     apply (simp add: d)
    apply (rule after_bind, rule lower_quiet_st, assumption)
       apply (simp add: d)
      apply simp
     apply (simp add: d)
    apply (rule after_bind, rule peek_inode_st, assumption)
    apply (rule after_bind, rule inode_unlock_st, assumption)
     apply (simp add: d)
    apply (rule after_bind, rule quiet_st[where U = "{}" and m = "if _ then _ else _"])
        apply (rule unchanging | assumption | (simp; fail))+
    apply (rule after_return, rule tail, assumption)
    done
qed

section \<open>Removing and linking\<close>

lemma wrapfs_rmdir_sound:
  assumes "sound s" "bound s dentry"
  shows "after (wrapfs_rmdir dir dentry) (\<lambda>r. sound) s"
proof -
  obtain p where l: "stands_on (priv s) (stored (priv s)) dentry p"
    using bound_linked[OF assms(1,2)] .
  note s = sound_st[OF assms(1)] and d = linked_dentry[OF l, unfolded stored_priv]
  show ?thesis
    unfolding wrapfs_rmdir_def wrapfs_put_lower_path_def
    apply (rule after_bind, rule get_lower_path_st[OF s(1) l s(3)])
    apply (rule after_let, rule after_bind, rule lock_parent_st, assumption)
     apply (simp add: s)
    apply (rule after_bind, rule peek_inode_st, assumption)
    apply (rule after_bind, rule lower_st, assumption)
      apply (simp add: d)
     apply (simp add: d Suc_le_eq)
    apply (rule after_bind, rule quiet_st[where U = "{}" and m = "if _ then _ else _"])
        apply (rule unchanging | assumption | (simp; fail))+
    apply (rule after_bind, rule unlock_dir_st, assumption)
    apply (rule after_bind, rule path_put_st, assumption)
      apply simp
     apply simp
    apply (rule after_return, rule st_sound[OF _ s(2)], simp)
    done
qed

text \<open>
  \<open>wrapfs_unlink\<close> removes the entry from the lower inode of \<open>dir\<close> while it holds the lock of
  the lower entry's parent, so it needs that the two agree: that the lower entry has not been moved
  behind the back of the module.
\<close>

definition same_parent :: "kst \<Rightarrow> int \<Rightarrow> int \<Rightarrow> bool" where
  "same_parent s dir d \<longleftrightarrow> (\<forall>l l' i. d_fsdata s d = Some i \<longrightarrow>
     k_view (kern s) l' (DInode (k_ret (kern s) l (DgetParent (p_dentry (lower_path i))))) =
       lower_inode s dir)"

lemma lock_parent_at_st:
  assumes s: "st \<sigma> K {} s" and n: "no_lock K"
    and at: "\<And>l l'. k_view (kern \<sigma>) l' (DInode (k_ret (kern \<sigma>) l (DgetParent d))) = j"
    and Q: "\<And>dir s'. 0 < dir \<Longrightarrow> j \<noteq> 0 \<Longrightarrow>
      st \<sigma> (add_mset (RLock j) (add_mset (RDentry dir) K)) {(dir, j)} s' \<Longrightarrow> Q dir s'"
  shows "after (lock_parent d) Q s"
proof -
  have "after (lock_parent d) (\<lambda>dir s'. \<forall>i. i \<noteq> 0 \<longrightarrow> 0 < dir \<longrightarrow>
      kview s' (DInode dir) = j) s"
    using at st_fields(7)[OF s]
    by (simp add: lock_parent_def after_def kcall_def peek_def kret_def kview_def)
  moreover have "after (lock_parent d) (\<lambda>dir s'. \<exists>i. 0 < dir \<and> i \<noteq> 0 \<and>
      st \<sigma> (add_mset (RLock i) (add_mset (RDentry dir) K)) {(dir, i)} s') s"
    by (rule lock_parent_st[OF s n]) blast
  ultimately have "after (lock_parent d) (\<lambda>dir s'. 0 < dir \<and> j \<noteq> 0 \<and>
      st \<sigma> (add_mset (RLock j) (add_mset (RDentry dir) K)) {(dir, j)} s') s"
    unfolding after_def by (auto simp: st_def split: prod.splits)
  then show ?thesis
    by (rule after_mono) (use Q in blast)
qed

lemma wrapfs_unlink_sound:
  assumes "sound s" "bound s dentry" "same_parent s dir dentry"
  shows "after (wrapfs_unlink dir dentry) (\<lambda>r. sound) s"
proof -
  obtain p where l: "stands_on (priv s) (stored (priv s)) dentry p"
    using bound_linked[OF assms(1,2)] .
  have par: "k_view (kern (priv s)) l' (DInode (k_ret (kern (priv s)) l (DgetParent (p_dentry p)))) =
      lower_inode s dir" for l l'
  proof -
    obtain i where "d_fsdata (priv s) dentry = Some i" "lower_path i = p"
      using l unfolding stands_on_def by blast
    then show ?thesis
      using assms(3) by (simp add: same_parent_def priv_def)
  qed
  note s = sound_st[OF assms(1)] and d = linked_dentry[OF l, unfolded stored_priv]
  show ?thesis
    unfolding wrapfs_unlink_def wrapfs_put_lower_path_def wrapfs_lower_inode_def
    apply (rule after_bind, rule after_gets)
    apply (rule after_bind, rule get_lower_path_st[OF s(1) l s(3)])
    apply (rule after_let, rule after_bind, rule dget_st, assumption)
     apply (simp add: d)
    apply (rule after_bind, rule lock_parent_at_st, assumption)
      apply (simp add: s)
     apply (rule par)
    apply (rule after_bind, rule lower_st, assumption)
      apply (simp add: d)
     apply (simp add: d Suc_le_eq)
    apply (rule after_bind, rule peek_any, rule after_let)
    apply (rule after_bind, rule quiet_st[where U = "{}" and m = "if _ then _ else _"])
        apply (rule unchanging | assumption | (simp; fail))+
    apply (rule after_bind, rule unlock_dir_st, assumption)
    apply (rule after_bind, rule dput_st, assumption)
     apply simp
    apply (rule after_bind, rule path_put_st, assumption)
      apply simp
     apply simp
    apply (rule after_return, rule st_sound[OF _ s(2)], simp)
    done
qed

text \<open>Operations on two entries hold both lower paths.\<close>

lemma put_two_st:
  assumes "st \<sigma> (L + (path_refs q + (path_refs p + K))) {} s" "\<And>s'. st \<sigma> (L + K) {} s' \<Longrightarrow> Q x s'"
  shows "after (do { _ \<leftarrow> wrapfs_put_lower_path d p; _ \<leftarrow> wrapfs_put_lower_path e q; ret x }) Q s"
proof -
  have a: "st \<sigma> (path_refs p + (L + (path_refs q + K))) {} s" and
    b: "L + (path_refs q + K) - path_refs q = L + K"
    using assms(1) by (simp_all add: ac_simps)
  show ?thesis
    unfolding wrapfs_put_lower_path_def
    apply (rule after_bind, rule path_put_st[OF a])
      apply simp
     apply simp
    apply (rule after_bind, rule path_put_st)
       apply (simp only: add_diff_cancel_left')
      apply (simp add: subset_mset.add_increasing)
     apply simp
    apply (rule after_return, rule assms(2))
    apply (simp only: add_diff_cancel_left' b)
    done
qed

lemma wrapfs_link_sound:
  assumes "sound s" "bound s old_dentry" "bound s new_dentry" "mounted (priv s) ISb dir"
  shows "after (wrapfs_link old_dentry dir new_dentry) (\<lambda>r. sound) s"
proof -
  obtain p where p: "stands_on (priv s) (stored (priv s)) old_dentry p"
    using bound_linked[OF assms(1,2)] .
  obtain q where q: "stands_on (priv s) (stored (priv s)) new_dentry q"
    using bound_linked[OF assms(1,3)] .
  note s = sound_st[OF assms(1)] and
    d = linked_dentry[OF p, unfolded stored_priv] linked_dentry[OF q, unfolded stored_priv]
  have put: "after (do { _ \<leftarrow> wrapfs_put_lower_path old_dentry p;
      _ \<leftarrow> wrapfs_put_lower_path new_dentry q; ret x }) (\<lambda>r. sound) t"
    if "grown (priv s) L \<sigma>" "st \<sigma> (L + (path_refs q + (path_refs p + stored (priv s)))) {} t" for L \<sigma> t x
    by (rule put_two_st[OF that(2)]) (rule grown_sound[OF that(1)])
  show ?thesis
    unfolding wrapfs_link_def
    apply (rule after_bind, rule peek_any, rule after_bind, rule peek_any)
    apply (rule after_bind, rule get_lower_path_st[OF s(1) p s(3)])
    apply (rule after_bind, rule get_lower_path_st, assumption, rule linked_plus[OF q])
     apply (simp add: s)
    apply (rule after_let, rule after_let, rule after_bind, rule lock_parent_st, assumption)
     apply (simp add: s)
    apply (rule after_bind, rule peek_inode_st, assumption)
    apply (rule after_bind, rule lower_quiet_st, assumption)
       apply (simp add: d)
      apply simp
     apply simp
    apply (rule after_bind, rule after_peek, rule after_bind, rule after_if)
     apply (rule after_return, rule after_bind, rule unlock_dir_st, assumption)
     apply (rule put[OF grown_refl[OF s(2)]], simp)
    apply (rule after_bind, rule mounted_peek, assumption, rule assms(4))
    apply (rule after_bind, rule wrapfs_interpose_st, assumption)
        apply (simp, rule s(2), assumption, simp)
    apply (rule quiet_st[where U = "{}" and m = "if _ then _ else _"])
        apply (rule unchanging | assumption | (simp; fail))+
    apply (rule after_bind, rule unlock_dir_st)
     apply simp
    apply (rule put, assumption, simp)
    done
qed

lemma dget_parent_st:
  assumes "st \<sigma> K {} s" "\<And>r s'. st \<sigma> (add_mset (RDentry r) K) {} s' \<Longrightarrow> Q r s'"
  shows "after (kcall (DgetParent d)) Q s"
  by (rule kcall_st[OF assms(1)]) (use assms in \<open>auto simp: hands_over_def\<close>)

lemma wrapfs_rename_sound:
  assumes "sound s" "bound s old_dentry" "bound s new_dentry"
  shows "after (wrapfs_rename old_dir old_dentry new_dir new_dentry flags) (\<lambda>r. sound) s"
proof (cases "flags = 0")
  case False
  then show ?thesis
    using assms(1) by (simp add: wrapfs_rename_def after_return)
next
  case True
  obtain p where p: "stands_on (priv s) (stored (priv s)) old_dentry p"
    using bound_linked[OF assms(1,2)] .
  obtain q where q: "stands_on (priv s) (stored (priv s)) new_dentry q"
    using bound_linked[OF assms(1,3)] .
  note [simp del] = stored_priv
  note s = sound_st[OF assms(1)] and
    d = linked_dentry[OF p] linked_dentry[OF q]
  let ?K = "path_refs q + (path_refs p + stored (priv s))"
  have ren: "after (if b then ret e else if c then ret f else do {
                oi \<leftarrow> peek (DInode a);
                ni \<leftarrow> peek (DInode a');
                err \<leftarrow> kcall (Lower (VfsRename oi (p_dentry p) ni (p_dentry q)));
                m err }) Q t"
    if "st (priv s) (add_mset (RRename a a') (add_mset (RDentry a') (add_mset (RDentry a) ?K))) {} t"
      "\<And>err. unchanging {} (m err)"
      "\<And>r t. st (priv s) (add_mset (RRename a a') (add_mset (RDentry a') (add_mset (RDentry a) ?K))) {} t
        \<Longrightarrow> Q r t" for b c e f m a a' Q t
    apply (rule after_if, rule after_return, rule that(3), rule that(1))
    apply (rule after_if, rule after_return, rule that(3), rule that(1))
    apply (rule after_bind, rule peek_any, rule after_bind, rule peek_any)
    apply (rule after_bind, rule lower_st[OF that(1)])
      apply (simp add: d)
     apply simp
    apply (rule quiet_st[OF that(2)], assumption)
      apply simp
     apply simp
    apply (erule that(3))
    done
  show ?thesis
    unfolding wrapfs_rename_def
    apply (simp only: True if_False simp_thms)
    apply (rule after_bind, rule get_lower_path_st[OF s(1) p s(3)])
    apply (rule after_bind, rule get_lower_path_st, assumption, rule linked_plus[OF q])
     apply (simp add: s)
    apply (rule after_let, rule after_let)
    apply (rule after_bind, rule dget_parent_st, assumption)
    apply (rule after_bind, rule dget_parent_st, assumption)
    apply (rule after_bind)
    apply (rule kcall_st, assumption, simp, simp add: hands_over_def, simp add: s, simp)
    apply (rule after_bind, rule ren, assumption)
     apply (intro unchanging)
    apply (rule after_bind, rule kcall_st, assumption, simp, simp add: hands_over_def, simp, simp)
    apply (rule after_bind, rule dput_st, assumption, simp)
    apply (rule after_bind, rule dput_st, assumption, simp)
    apply (rule put_two_st[where L = "{#}"])
     apply simp
    apply (rule st_sound[OF _ s(2)], simp)
    done
qed

section \<open>Following a link\<close>

text \<open>What \<open>readlink\<close> returns: \<open>EINVAL\<close>, or the answer of the lower file system.\<close>

lemma wrapfs_readlink_st:
  assumes s: "st \<sigma> K {} s" "stands_on \<sigma> K dentry p" "no_lock K"
    and P: "P (- EINVAL)" "\<And>l d b n. P (k_ret (kern \<sigma>) l (Lower (VfsReadlink d b n)))"
    and Q: "\<And>r s'. P r \<Longrightarrow> st \<sigma> K {} s' \<Longrightarrow> Q r s'"
  shows "after (wrapfs_readlink dentry buf n) Q s"
proof -
  have low: "after (kcall (Lower (VfsReadlink d b m))) R t"
    if t: "st \<sigma> (path_refs p + K) {} t" "d = p_dentry p"
      and R: "\<And>r t'. P r \<Longrightarrow> st \<sigma> (path_refs p + K) {} t' \<Longrightarrow> R r t'" for d b m R t
  proof -
    have "after (kcall (Lower (VfsReadlink d b m))) (\<lambda>r. st \<sigma> (path_refs p + K) {}) t"
      by (rule lower_quiet_st[OF t(1)]) (use s(2) t(2) in simp_all)
    then show ?thesis
      using P(2)[of "calls t" d b m] R st_fields(7)[OF t(1)]
      by (simp add: after_def kcall_def kret_def)
  qed
  have put: "after (do { _ \<leftarrow> wrapfs_put_lower_path dentry p; ret x }) Q t"
    if "P x" "st \<sigma> (path_refs p + K) {} t" for x t
    unfolding wrapfs_put_lower_path_def
    by (rule after_bind, rule path_put_st[OF that(2)]) (simp_all add: after_return Q that(1))
  show ?thesis
    unfolding wrapfs_readlink_def
    apply (rule after_bind, rule get_lower_path_st[OF s])
    apply (rule after_let, rule after_bind, rule peek_any, rule after_bind, rule peek_any)
    apply (rule after_bind, rule after_if)
     apply (rule after_return, rule put, rule P(1), assumption)
    apply (rule after_bind, rule low, assumption, rule refl)
    apply (rule after_bind, rule quiet_st[where U = "{}" and m = "if _ then _ else _"])
        apply (rule unchanging | assumption | (simp; fail))+
    apply (rule after_return, rule put, assumption, assumption)
    done
qed

text \<open>The state of \<open>wrapfs_get_link\<close> once it has its buffer.\<close>

lemma get_link_buffer:
  assumes s: "sound s" "bound s dentry" "dentry \<noteq> 0" and k: "0 < kret s (Kmalloc PAGE_SIZE)"
    and P: "P (- EINVAL)" "\<And>l d b n. P (k_ret (kern s) l (Lower (VfsReadlink d b n)))"
    and Q: "\<And>buf err fs s'. 0 < buf \<Longrightarrow> P err \<Longrightarrow> st (priv s) (add_mset (RMem buf) (stored (priv s))) {} s' \<Longrightarrow>
      after (do {
         _ \<leftarrow> kcall (SetFs fs);
         res \<leftarrow> (if err < 0 then do { _ \<leftarrow> kcall (Kfree buf); ret err }
                else do {
                  _ \<leftarrow> (if err < PAGE_SIZE then kcall (Assign BufEnd buf err) else kcall Fault);
                  ret buf });
         _ \<leftarrow> kcall (SetDelayedCall res link);
         ret res }) Q s'"
  shows "after (wrapfs_get_link dentry inode link) Q s"
proof -
  obtain p where l: "stands_on (priv s) (stored (priv s)) dentry p"
    using bound_linked[OF s(1,2)] .
  note [simp del] = stored_priv
  note t = sound_st[OF s(1)]
  let ?buf = "kret s (Kmalloc PAGE_SIZE)"
  let ?s = "log_call (Kmalloc PAGE_SIZE) ?buf s" and ?K = "add_mset (RMem ?buf) (stored (priv s))"
  have b: "st (priv s) ?K {} ?s"
    by (rule st_log_call[OF t(1)]) (use k in \<open>simp_all add: hands_over_def\<close>)
  have l': "stands_on (priv s) ?K dentry p"
    by (rule linked_mono[OF l]) simp
  have "after (do {
         old_fs \<leftarrow> peek CurrentFs;
         _ \<leftarrow> kcall (SetFs 0);
         err \<leftarrow> wrapfs_readlink dentry ?buf PAGE_SIZE;
         _ \<leftarrow> kcall (SetFs old_fs);
         res \<leftarrow> (if err < 0 then do { _ \<leftarrow> kcall (Kfree ?buf); ret err }
                else do {
                  _ \<leftarrow> (if err < PAGE_SIZE then kcall (Assign BufEnd ?buf err) else kcall Fault);
                  ret ?buf });
         _ \<leftarrow> kcall (SetDelayedCall res link);
         ret res }) Q ?s"
    apply (rule after_bind, rule peek_any)
    apply (rule after_bind, rule quiet_st[OF _ b, where U = "{}"])
       apply (rule unchanging | (simp; fail))+
    apply (rule after_bind, rule wrapfs_readlink_st[where P = P], assumption, rule l')
       apply (use t in simp)
      apply (rule P(1))
     apply (use P(2) in \<open>simp add: priv_def\<close>)
    apply (rule Q[OF k], assumption, assumption)
    done
  then show ?thesis
    using s(3) k by (simp add: wrapfs_get_link_def after_def kcall_def)
qed

lemma get_link_error:
  assumes "sound s" "bound s dentry" "dentry \<noteq> 0" "0 < kret s (Kmalloc PAGE_SIZE)"
  shows "after (wrapfs_get_link dentry inode link) (\<lambda>r s'. r < 0 \<longrightarrow> holding s' = None) s"
proof (rule get_link_buffer[OF assms, where P = "\<lambda>e. True"])
  fix buf err fs t
  assume t: "0 < buf" "st (priv s) (add_mset (RMem buf) (stored (priv s))) {} t"
  have free: "after (do { _ \<leftarrow> kcall (SetDelayedCall err link); ret err })
      (\<lambda>r s'. r < 0 \<longrightarrow> holding s' = None) u" if "err < 0" for u
    using that by (cases "holding u") (simp_all add: after_def kcall_def)
  have keep: "after (do { _ \<leftarrow> kcall (SetDelayedCall buf link); ret buf })
      (\<lambda>r s'. r < 0 \<longrightarrow> holding s' = None) u" for u
    using t(1) by (simp add: after_def kcall_def)
  show "after (do {
         _ \<leftarrow> kcall (SetFs fs);
         res \<leftarrow> (if err < 0 then do { _ \<leftarrow> kcall (Kfree buf); ret err }
                else do {
                  _ \<leftarrow> (if err < PAGE_SIZE then kcall (Assign BufEnd buf err) else kcall Fault);
                  ret buf });
         _ \<leftarrow> kcall (SetDelayedCall res link);
         ret res }) (\<lambda>r s'. r < 0 \<longrightarrow> holding s' = None) t"
    apply (rule after_bind, rule after_kcall, rule after_bind, rule after_if)
     apply (rule after_bind, rule after_kcall, rule after_return, erule free)
    apply (rule after_bind, rule after_if)
     apply (rule after_kcall, rule after_return, rule keep)
    apply (rule after_kcall, rule after_return, rule keep)
    done
qed simp_all

lemma set_delayed_call_st:
  assumes "st \<sigma> (add_mset (RMem b) K) {} s" "0 < b" "\<And>r s'. st \<sigma> K {} s' \<Longrightarrow> Q r s'"
  shows "after (kcall (SetDelayedCall b link)) Q s"
  by (rule kcall_st[OF assms(1)]) (use assms in \<open>auto simp: hands_over_def\<close>)

text \<open>
  What the log shows of a link that could not be followed: the buffer was freed before it was registered
  to be freed, or the terminator was written behind it.
\<close>

fun link_spoilt :: "klog \<Rightarrow> bool" where
  "link_spoilt ((SetDelayedCall r k, x) # (c, y) # l) = (case c of Kfree a \<Rightarrow> True | Fault \<Rightarrow> True | _ \<Rightarrow> False)"
| "link_spoilt l = False"

lemma get_link_sound:
  assumes "sound s" "dentry \<noteq> 0 \<Longrightarrow> bound s dentry" "0 \<le> kret s (Kmalloc PAGE_SIZE)"
  shows "after (wrapfs_get_link dentry inode link) (\<lambda>r s'. \<not> link_spoilt (calls s') \<longrightarrow> sound s') s"
proof -
  note t = sound_st[OF assms(1)]
  consider "dentry = 0" | "dentry \<noteq> 0" "kret s (Kmalloc PAGE_SIZE) = 0"
    | "dentry \<noteq> 0" "0 < kret s (Kmalloc PAGE_SIZE)"
    using assms(3) by linarith
  then show ?thesis
  proof cases
    case 1
    then show ?thesis
      using assms(1) by (simp add: wrapfs_get_link_def after_def)
  next
    case 2
    have "st (priv s) (stored (priv s)) {} (log_call (Kmalloc PAGE_SIZE) 0 s)"
      by (rule st_log_call[OF t(1)]) (simp_all add: hands_over_def)
    then have "sound (log_call (Kmalloc PAGE_SIZE) 0 s)"
      by (rule st_sound[OF _ t(2)])
    with 2 show ?thesis
      by (simp add: wrapfs_get_link_def after_def kcall_def)
  next
    case 3
    show ?thesis
    proof (rule get_link_buffer[OF assms(1) assms(2)[OF 3(1)] 3, where P = "\<lambda>e. True"])
      fix buf err fs u
      assume u: "0 < buf" "st (priv s) (add_mset (RMem buf) (stored (priv s))) {} u"
      have spoilt: "after (do { _ \<leftarrow> kcall (SetDelayedCall b link); ret b })
          (\<lambda>r s'. \<not> link_spoilt (calls s') \<longrightarrow> sound s') (log_call c x v)"
        if "c = Kfree a \<or> c = Fault" for a b c x v
        using that by (auto simp: after_def kcall_def)
      show "after (do {
             _ \<leftarrow> kcall (SetFs fs);
             res \<leftarrow> (if err < 0 then do { _ \<leftarrow> kcall (Kfree buf); ret err }
                    else do {
                      _ \<leftarrow> (if err < PAGE_SIZE then kcall (Assign BufEnd buf err) else kcall Fault);
                      ret buf });
             _ \<leftarrow> kcall (SetDelayedCall res link);
             ret res }) (\<lambda>r s'. \<not> link_spoilt (calls s') \<longrightarrow> sound s') u"
        apply (rule after_bind, rule quiet_st[OF _ u(2), where U = "{}"])
           apply (rule unchanging | (simp; fail))+
        apply (rule after_bind, rule after_if)
         apply (rule after_bind, rule after_kcall, rule after_return, rule spoilt, blast)
        apply (rule after_bind, rule after_if)
         apply (rule quiet_st[where U = "{}"])
             apply (rule unchanging | assumption | (simp; fail))+
         apply (rule after_return, rule after_bind, rule set_delayed_call_st, assumption, rule u(1))
         apply (rule after_return)
         apply (blast intro: st_sound t(2))
        apply (rule after_kcall, rule after_return, rule spoilt, blast)
        done
    qed simp_all
  qed
qed

end
