(* ===== verification/Wrapfs_Lookup_Correct.thy ===== *)
theory Wrapfs_Lookup_Correct
  imports Wrapfs_Owned
begin

text \<open>
  The operations of \<open>lookup.c\<close> and \<open>dentry.c\<close> keep the module sound: a lookup leaves its entry with
  the lower path it found (and the references that come with it), with a new negative lower entry,
  or with none, and its release gives all of that back.
\<close>

section \<open>Updates of the private data of an entry\<close>

definition d_set :: "int \<Rightarrow> wrapfs_dentry_info option \<Rightarrow> kst \<Rightarrow> kst" where
  "d_set d x \<sigma> = \<sigma>\<lparr>d_fsdata := (d_fsdata \<sigma>)(d := x)\<rparr>"

lemma d_set_simps [simp]:
  "d_fsdata (d_set d x \<sigma>) = (d_fsdata \<sigma>)(d := x)" "lower_inode (d_set d x \<sigma>) = lower_inode \<sigma>"
  "private_data (d_set d x \<sigma>) = private_data \<sigma>" "s_fs_info (d_set d x \<sigma>) = s_fs_info \<sigma>"
  "wrapfs_inode_cachep (d_set d x \<sigma>) = wrapfs_inode_cachep \<sigma>"
  "wrapfs_dentry_cachep (d_set d x \<sigma>) = wrapfs_dentry_cachep \<sigma>" "kern (d_set d x \<sigma>) = kern \<sigma>"
  "d_set d y (d_set d x \<sigma>) = d_set d y \<sigma>"
  by (simp_all add: d_set_def)

lemma lower_of_d_set [simp]: "lower_of (d_set d x \<sigma>) = lower_of \<sigma>"
  by (simp add: lower_of_def fun_eq_iff)

lemma finite_d_set [simp]: "finite_priv \<sigma> \<Longrightarrow> finite_priv (d_set d x \<sigma>)"
  by (cases x) (simp_all add: finite_priv_def)

lemma stored_d_new:
  "finite_priv \<sigma> \<Longrightarrow> d_fsdata \<sigma> d = None \<Longrightarrow> stored (d_set d (Some i) \<sigma>) = d_owns i + stored \<sigma>"
  by (simp add: stored_def finite_priv_def owned_fresh)

lemma stored_d_free:
  "finite_priv \<sigma> \<Longrightarrow> d_fsdata \<sigma> d = Some i \<Longrightarrow> stored \<sigma> = d_owns i + stored (d_set d None \<sigma>)"
  by (simp add: stored_def finite_priv_def owned_remove[of "d_fsdata \<sigma>" d i])

lemma stored_d_path:
  assumes "finite_priv \<sigma>" "d_fsdata \<sigma> d = Some i"
  shows "stored (d_set d (Some (i\<lparr>lower_path := p\<rparr>)) \<sigma>) + path_refs (lower_path i) = path_refs p + stored \<sigma>"
proof -
  have "stored (d_set d (Some (i\<lparr>lower_path := p\<rparr>)) \<sigma>) =
      d_owns (i\<lparr>lower_path := p\<rparr>) + stored (d_set d None \<sigma>)"
    using stored_d_new[of "d_set d None \<sigma>" d "i\<lparr>lower_path := p\<rparr>"] assms(1) by simp
  then show ?thesis
    using stored_d_free[OF assms] by (simp add: d_owns_def ac_simps)
qed

lemma d_set_st: "st \<sigma> K W s \<Longrightarrow> st (d_set d x \<sigma>) K W (d_set d x s)"
  by (auto simp: st_def priv_def d_set_def covered_def)

lemma assign_lower_path_st:
  assumes s: "st \<sigma> K W s" "d_fsdata \<sigma> d = Some i"
    and Q: "\<And>s'. st (d_set d (Some (i\<lparr>lower_path := p\<rparr>)) \<sigma>) K W s' \<Longrightarrow> Q () s'"
  shows "after (assign_lower_path d p) Q s"
proof -
  have "d_fsdata s d = Some i"
    using s st_fields(1)[OF s(1)] by simp
  then show ?thesis
    unfolding assign_lower_path_def
    by (intro after_bind WRAPFS_D_wp after_modify)
      (use Q d_set_st[OF s(1)] in \<open>auto simp: d_set_def\<close>)
qed

lemma WRAPFS_D_st: "st \<sigma> K W s \<Longrightarrow> d_fsdata \<sigma> d = Some i \<Longrightarrow> Q i s \<Longrightarrow> after (WRAPFS_D d) Q s"
  by (rule WRAPFS_D_wp) (simp_all add: st_fields(1))

lemma wrapfs_set_lower_path_st:
  assumes s: "st \<sigma> K W s" "d_fsdata \<sigma> d = Some i" "RMem (di_addr i) \<in># K" "no_lock K" "pinned W K"
    and Q: "\<And>r s'. st (d_set d (Some (i\<lparr>lower_path := p\<rparr>)) \<sigma>) K W s' \<Longrightarrow> Q r s'"
  shows "after (wrapfs_set_lower_path d p) Q s"
  unfolding wrapfs_set_lower_path_def
  apply (rule after_bind, rule WRAPFS_D_st[OF s(1,2)])
  apply (rule after_bind, rule spin_lock_st[OF s(1,3,4,5)])
  apply (rule after_bind, rule assign_lower_path_st, assumption, rule s(2))
  apply (rule after_bind, rule WRAPFS_D_st, assumption, simp)
  apply (rule spin_unlock_st)
    apply simp
   apply (rule s(5))
  apply (erule Q)
  done

lemma wrapfs_put_reset_lower_path_st:
  assumes s: "st \<sigma> K {} s" "d_fsdata \<sigma> d = Some i" "RMem (di_addr i) \<in># K" "no_lock K"
    "path_refs (lower_path i) \<subseteq># K"
    and Q: "\<And>r s'. st (d_set d (Some (i\<lparr>lower_path := path_of 0 0\<rparr>)) \<sigma>) (K - path_refs (lower_path i)) {} s' \<Longrightarrow> Q r s'"
  shows "after (wrapfs_put_reset_lower_path d) Q s"
  unfolding wrapfs_put_reset_lower_path_def
  apply (rule after_bind, rule WRAPFS_D_st[OF s(1,2)])
  apply (rule after_bind, rule spin_lock_st[OF s(1,3,4)], simp)
  apply (rule after_bind, rule WRAPFS_D_st, assumption, rule s(2), rule after_let)
  apply (rule after_bind, rule assign_lower_path_st, assumption, rule s(2))
  apply (rule after_bind, rule WRAPFS_D_st, assumption, simp)
  apply (rule after_bind, rule spin_unlock_st)
    apply simp
   apply simp
  apply (rule path_put_st, assumption, rule s(5), simp)
  apply (erule Q)
  done

section \<open>States of a lookup\<close>

text \<open>Sound but for what the operation itself holds (\<open>X\<close>).\<close>

definition sound_but :: "res multiset \<Rightarrow> (kst \<Rightarrow> bool) \<Rightarrow> kst \<Rightarrow> bool" where
  "sound_but X P s \<longleftrightarrow> (\<exists>\<sigma>. st \<sigma> (X + stored \<sigma>) {} s \<and> finite_priv \<sigma> \<and> P \<sigma>)"

lemma sound_butI: "st \<sigma> (X + stored \<sigma>) W s \<Longrightarrow> finite_priv \<sigma> \<Longrightarrow> P \<sigma> \<Longrightarrow> sound_but X P s"
  unfolding sound_but_def using st_weaken by blast

text \<open>The entry of a lookup that returns no error has a lower path.\<close>

abbreviation looked_up :: "res multiset \<Rightarrow> int \<Rightarrow> int \<Rightarrow> kst \<Rightarrow> bool" where
  "looked_up X d r \<equiv> sound_but X (\<lambda>\<sigma>. 0 \<le> r \<longrightarrow> bound \<sigma> d)"

lemma bound_d_set [simp]:
  "bound (d_set d (Some i) \<sigma>) d \<longleftrightarrow> p_dentry (lower_path i) \<noteq> 0 \<and> p_mnt (lower_path i) \<noteq> 0"
  by (simp add: bound_def)

lemma new_dentry_private_data_st:
  assumes s: "st \<sigma> (X + stored \<sigma>) {} s" "finite_priv \<sigma>" "d_fsdata \<sigma> d = None"
    and Q0: "\<And>s'. st \<sigma> (X + stored \<sigma>) {} s' \<Longrightarrow> Q (- ENOMEM) s'"
    and Q: "\<And>a \<sigma>' s'. \<sigma>' = d_set d (Some \<lparr>di_addr = a, lower_path = path_of 0 0\<rparr>) \<sigma> \<Longrightarrow>
      st \<sigma>' (X + stored \<sigma>') {} s' \<Longrightarrow> finite_priv \<sigma>' \<Longrightarrow> Q 0 s'"
  shows "after (new_dentry_private_data d) Q s"
proof -
  let ?i = "\<lambda>a. \<lparr>di_addr = a, lower_path = path_of 0 0\<rparr>"
  have n: "stored (d_set d (Some (?i a)) \<sigma>) = add_mset (RMem a) (stored \<sigma>)" for a
    using stored_d_new[OF s(2,3), of "?i a"] by (simp add: d_owns_def path_refs_def)
  have alloc: "after (kcall (CacheAlloc c)) R s"
    if "\<And>s'. st \<sigma> (X + stored \<sigma>) {} s' \<Longrightarrow> R 0 s'"
      "\<And>a s'. a \<noteq> 0 \<Longrightarrow> st \<sigma> (add_mset (RMem a) (X + stored \<sigma>)) {} s' \<Longrightarrow> R a s'" for c R
    by (rule kcall_st[OF s(1), where K' = "\<lambda>r. if r = 0 then X + stored \<sigma> else
          add_mset (RMem r) (X + stored \<sigma>)"])
      (use that in \<open>auto simp: hands_over_def split: if_splits\<close>)
  have init: "after (kcall (SpinInit a)) R t"
    if "st \<sigma> (add_mset (RMem a) (X + stored \<sigma>)) {} t"
      "\<And>r s'. st \<sigma> (add_mset (RMem a) (X + stored \<sigma>)) {} s' \<Longrightarrow> R r s'" for a R t
    by (rule kcall_st[OF that(1)]) (use that(2) in \<open>auto simp: hands_over_def need_def\<close>)
  have upd: "Q 0 (t\<lparr>d_fsdata := (d_fsdata t)(d \<mapsto> ?i a)\<rparr>)"
    if "st \<sigma> (add_mset (RMem a) (X + stored \<sigma>)) {} t" for a t
    using Q[OF refl, of a "d_set d (Some (?i a)) t"] d_set_st[OF that, of d "Some (?i a)"] s(2)
    by (simp add: n) (simp add: d_set_def)
  show ?thesis
    unfolding new_dentry_private_data_def
    apply (rule after_bind, rule after_gets, rule after_bind, rule alloc)
     apply (simp add: after_return Q0)
    apply (simp, rule after_bind, rule init, assumption)
    apply (rule after_bind, rule after_modify, rule after_return, erule upd)
    done
qed

section \<open>Looking up\<close>

lemma find_path_st:
  assumes s: "st \<sigma> K {} s" "finds_path c" "\<And>r. eff c r K = Some K"
    and Q0: "\<And>s'. st \<sigma> K {} s' \<Longrightarrow> (\<And>r. 0 < kview s' OutDentry \<and> 0 < kview s' OutMnt \<and>
      kview (log_call (GotPath (path_of (kview s' OutDentry) (kview s' OutMnt))) r s')
        (DInode (kview s' OutDentry)) \<noteq> 0) \<Longrightarrow> Q 0 s'"
    and Q: "\<And>r s'. r \<noteq> 0 \<Longrightarrow> r = kret s c \<Longrightarrow> st \<sigma> K {} s' \<Longrightarrow> Q r s'"
  shows "after (kcall c) Q s"
proof -
  let ?r = "kret s c"
  let ?s = "log_call c ?r s"
  have c: "\<not> hands_over c" "\<And>i. c \<noteq> ClearInode i"
    using s(2) by (auto simp: finds_path_def hands_over_def split: call.splits)
  have t: "st \<sigma> K {} ?s"
    by (rule st_log_call[OF s(1,3)]) (simp_all add: c)
  have "Q ?r ?s"
  proof (cases "?r = 0")
    case True
    have "0 < kview ?s OutDentry \<and> 0 < kview ?s OutMnt \<and>
        kview (log_call (GotPath (path_of (kview ?s OutDentry) (kview ?s OutMnt))) r ?s)
          (DInode (kview ?s OutDentry)) \<noteq> 0" for r
    proof -
      have "vfs_kernel (kern s)"
        using s(1) by (simp add: st_def)
      then have "\<forall>l c r. finds_path c \<longrightarrow> k_ret (kern s) l c = 0 \<longrightarrow>
        (let l' = (c, 0) # l; d' = k_view (kern s) l' OutDentry; m' = k_view (kern s) l' OutMnt in
          0 < d' \<and> 0 < m' \<and> k_view (kern s) ((GotPath (path_of d' m'), r) # l') (DInode d') \<noteq> 0)"
        unfolding vfs_kernel_def by (elim conjE)
      from this[rule_format, OF s(2), of "calls s" r] True show ?thesis
        by (simp add: kret_def kview_def Let_def)
    qed
    with t True Q0 show ?thesis
      by metis
  next
    case False
    with t Q show ?thesis
      by blast
  qed
  then show ?thesis
    by (simp add: after_def kcall_def)
qed

lemma path_lookup_st:
  assumes s: "st \<sigma> K {} s" "RDentry d \<in># K" "RMnt m \<in># K"
    and Q0: "\<And>s'. st \<sigma> K {} s' \<Longrightarrow> (\<And>r. 0 < kview s' OutDentry \<and> 0 < kview s' OutMnt \<and>
      kview (log_call (GotPath (path_of (kview s' OutDentry) (kview s' OutMnt))) r s')
        (DInode (kview s' OutDentry)) \<noteq> 0) \<Longrightarrow> Q 0 s'"
    and Q: "\<And>r s'. r < 0 \<Longrightarrow> st \<sigma> K {} s' \<Longrightarrow> Q r s'"
  shows "after (kcall (VfsPathLookup d m nm)) Q s"
proof (rule find_path_st[OF s(1)])
  have "kret s (VfsPathLookup d m nm) \<le> 0"
    using s(1) by (simp add: st_def vfs_kernel_def kret_def)
  then show "Q r s'" if "r \<noteq> 0" "r = kret s (VfsPathLookup d m nm)" "st \<sigma> K {} s'" for r s'
    using that Q by simp
qed (use s Q0 in \<open>simp_all add: finds_path_def need_def\<close>)

lemma got_path_st:
  assumes s: "st \<sigma> K {} s" "d \<noteq> 0" "\<And>r. kview (log_call (GotPath (path_of d m)) r s) (DInode d) \<noteq> 0"
    and Q: "\<And>r i s'. i \<noteq> 0 \<Longrightarrow> st \<sigma> (path_refs (path_of d m) + K) {(d, i)} s' \<Longrightarrow> Q r s'"
  shows "after (kcall (GotPath (path_of d m))) Q s"
proof -
  let ?r = "kret s (GotPath (path_of d m))"
  let ?s = "log_call (GotPath (path_of d m)) ?r s"
  have "st \<sigma> (path_refs (path_of d m) + K) {} ?s"
    by (rule st_log_call[OF s(1)]) (simp_all add: hands_over_def)
  then have "st \<sigma> (path_refs (path_of d m) + K) {(d, kview ?s (DInode d))} ?s"
    using s(3) by (simp add: st_def)
  from Q[OF s(3) this] show ?thesis
    by (simp add: after_def kcall_def)
qed

lemma lookup_positive_st:
  assumes s: "st \<sigma> (X + stored \<sigma>) {} s" "finite_priv \<sigma>"
    and d: "d_fsdata \<sigma> dentry = Some i" "lower_path i = path_of 0 0"
    and X: "no_lock X" "mounted \<sigma> DSb dentry"
    and out: "\<And>r. 0 < kview s OutDentry \<and> 0 < kview s OutMnt \<and>
      kview (log_call (GotPath (path_of (kview s OutDentry) (kview s OutMnt))) r s)
        (DInode (kview s OutDentry)) \<noteq> 0"
  shows "after (lookup_positive dentry) (looked_up X dentry) s"
proof -
  note [simp del] = stored_priv
  have pos: "kview s OutDentry \<noteq> 0" "kview s OutMnt \<noteq> 0"
    using out by auto
  let ?p = "path_of (kview s OutDentry) (kview s OutMnt)"
  let ?\<tau> = "d_set dentry (Some (i\<lparr>lower_path := ?p\<rparr>)) \<sigma>"
  have \<tau>: "stored ?\<tau> = path_refs ?p + stored \<sigma>" "finite_priv ?\<tau>"
    using stored_d_path[OF s(2) d(1), of ?p] s(2) by (simp_all add: d(2) path_refs_def)
  have mem: "RMem (di_addr i) \<in># stored \<sigma>"
    using stored_d_free[OF s(2) d(1)] by (simp add: d_owns_def)
  have rest: "after (if IS_ERR r then do {
       _ \<leftarrow> wrapfs_put_reset_lower_path dentry;
       ret (to_int r) } else ret r) (looked_up X dentry) t"
    if r: "- 4095 \<le> r" and g: "grown ?\<tau> L \<tau>'" and t: "st \<tau>' (L + (path_refs ?p + (X + stored \<sigma>))) W t" for L \<tau>' W t r
  proof -
    have st': "stored \<tau>' = L + (path_refs ?p + stored \<sigma>)" "finite_priv \<tau>'" "no_lock L"
      "d_fsdata \<tau>' dentry = Some (i\<lparr>lower_path := ?p\<rparr>)"
      using g \<tau>(1) by (auto simp: grown_def)
    have t': "st \<tau>' (X + stored \<tau>') {} t"
      using st_weaken[OF t] st'(1) by (simp add: ac_simps)
    let ?u = "d_set dentry (Some (i\<lparr>lower_path := path_of 0 0\<rparr>)) \<tau>'"
    have u: "stored ?u + path_refs ?p = stored \<tau>'"
      using stored_d_path[OF st'(2,4), of "path_of 0 0"] by (simp add: path_refs_def[of "path_of 0 0"])
    have "after (wrapfs_put_reset_lower_path dentry) (\<lambda>r. sound_but X (\<lambda>\<sigma>. True)) t"
    proof (rule wrapfs_put_reset_lower_path_st[OF t' st'(4)])
      show "RMem (di_addr (i\<lparr>lower_path := ?p\<rparr>)) \<in># X + stored \<tau>'"
        using mem st'(1) by simp
      show "no_lock (X + stored \<tau>')"
        using X by simp
      show "path_refs (lower_path (i\<lparr>lower_path := ?p\<rparr>)) \<subseteq># X + stored \<tau>'"
        unfolding u[symmetric] by (simp add: subset_mset.add_increasing)
    next
      fix r s'
      have "X + stored \<tau>' - path_refs ?p = X + stored ?u"
        unfolding u[symmetric] add.assoc[symmetric] by (rule add_diff_cancel_right')
      moreover assume "st (d_set dentry (Some ((i\<lparr>lower_path := ?p\<rparr>)\<lparr>lower_path := path_of 0 0\<rparr>)) \<tau>')
          (X + stored \<tau>' - path_refs (lower_path (i\<lparr>lower_path := ?p\<rparr>))) {} s'"
      ultimately have "st ?u (X + stored ?u) {} s'"
        by simp
      then show "sound_but X (\<lambda>\<sigma>. True) s'"
        by (rule sound_butI) (simp_all add: st'(2))
    qed
    moreover have "bound \<tau>' dentry"
      using pos st'(4) by (simp add: bound_def)
    ultimately show ?thesis
    proof (intro after_if)
      assume b: "bound \<tau>' dentry" and ok: "\<not> IS_ERR r"
      show "after (ret r) (looked_up X dentry) t"
        by (rule after_return, rule sound_butI[OF t' st'(2)]) (simp add: b)
    next
      assume e: "IS_ERR r"
        and m: "after (wrapfs_put_reset_lower_path dentry) (\<lambda>r. sound_but X (\<lambda>\<sigma>. True)) t"
      show "after (do { _ \<leftarrow> wrapfs_put_reset_lower_path dentry; ret (to_int r) }) (looked_up X dentry) t"
        by (rule after_bind, rule after_mono[OF m], rule after_return)
          (use e r in \<open>auto simp: IS_ERR_def sound_but_def\<close>)
    qed
  qed
  show ?thesis
    unfolding lookup_positive_def
    apply (rule after_bind, rule after_peek, rule after_bind, rule after_peek)
    apply (rule after_bind, hypsubst, rule got_path_st[OF s(1)])
      apply (rule pos)
     apply (use out in blast)
    apply (rule after_bind, rule wrapfs_set_lower_path_st, assumption, rule d(1))
       apply (simp add: mem)
      apply (simp add: X)
     apply (simp add: pos)
    apply (rule after_bind, rule mounted_peek, assumption)
     apply (use X(2) in \<open>simp add: mounted_def\<close>)
    apply (rule after_bind, rule interpose_st, assumption)
        apply (simp add: pos)
       apply (rule \<tau>(2))
      apply assumption
     apply (simp add: st_def)
    apply (rule rest, assumption, assumption, assumption)
    done
qed

lemma gives_dentry_st:
  assumes "st \<sigma> K {} s" "\<And>r. eff c r K = gain (r \<noteq> 0) (RDentry r) K" "\<And>i. c \<noteq> ClearInode i"
    "\<not> hands_over c" "\<And>s'. st \<sigma> K {} s' \<Longrightarrow> Q 0 s'"
    "\<And>r s'. r \<noteq> 0 \<Longrightarrow> st \<sigma> (add_mset (RDentry r) K) {} s' \<Longrightarrow> Q r s'"
  shows "after (kcall c) Q s"
  by (rule kcall_st[OF assms(1), where K' = "\<lambda>r. if r = 0 then K else add_mset (RDentry r) K"])
    (use assms in \<open>auto split: if_splits\<close>)

lemma lookup_negative_st:
  assumes s: "st \<sigma> (X + stored \<sigma>) {} s" "finite_priv \<sigma>"
    and d: "d_fsdata \<sigma> dentry = Some i" "lower_path i = path_of 0 0"
    and X: "no_lock X" "RMnt (p_mnt parent) \<in># X" "p_mnt parent \<noteq> 0"
  shows "after (lookup_negative dentry parent nm) (looked_up X dentry) s"
proof -
  note [simp del] = stored_priv
  have mem: "RMem (di_addr i) \<in># stored \<sigma>"
    using stored_d_free[OF s(2) d(1)] by (simp add: d_owns_def)
  have found: "after (do {
       _ \<leftarrow> kcall (Mntget (p_mnt parent));
       _ \<leftarrow> wrapfs_set_lower_path dentry (path_of ld (p_mnt parent));
       ret (0 :: int) }) (looked_up X dentry) t"
    if t: "ld \<noteq> 0" "st \<sigma> (add_mset (RDentry ld) (X + stored \<sigma>)) {} t" for ld t
  proof -
    let ?p = "path_of ld (p_mnt parent)"
    let ?\<tau> = "d_set dentry (Some (i\<lparr>lower_path := ?p\<rparr>)) \<sigma>"
    have \<tau>: "stored ?\<tau> = path_refs ?p + stored \<sigma>" "finite_priv ?\<tau>"
      using stored_d_path[OF s(2) d(1), of ?p] s(2) by (simp_all add: d(2) path_refs_def[of "path_of 0 0"])
    have p: "path_refs ?p = {#RDentry ld, RMnt (p_mnt parent)#}"
      using t(1) X(3) by (simp add: path_refs_def)
    have mnt: "after (kcall (Mntget (p_mnt parent))) R t"
      if "\<And>r s'. st \<sigma> (path_refs ?p + (X + stored \<sigma>)) {} s' \<Longrightarrow> R r s'" for R
      by (rule kcall_st[OF t(2)]) (use X that in \<open>auto simp: hands_over_def p add_mset_commute\<close>)
    show ?thesis
      apply (rule after_bind, rule mnt)
      apply (rule after_bind, rule wrapfs_set_lower_path_st, assumption, rule d(1))
         apply (simp add: mem)
        apply (simp add: X)
       apply simp
      apply (rule after_return, rule sound_butI[OF _ \<tau>(2)])
       apply (simp add: \<tau>(1) ac_simps)
      apply (simp add: t(1) X(3))
      done
  qed
  have alloc: "after (do {
              l2 \<leftarrow> kcall (DAlloc (p_dentry parent) nm h);
              _ \<leftarrow> (if l2 \<noteq> 0 then kcall (DAdd l2) else ret 0);
              ret l2 }) R t"
    if t: "st \<sigma> (X + stored \<sigma>) {} t"
      and R: "\<And>s'. st \<sigma> (X + stored \<sigma>) {} s' \<Longrightarrow> R 0 s'"
        "\<And>r s'. r \<noteq> 0 \<Longrightarrow> st \<sigma> (add_mset (RDentry r) (X + stored \<sigma>)) {} s' \<Longrightarrow> R r s'" for h R t
  proof -
    have add: "after (kcall (DAdd r)) R' u"
      if "st \<sigma> (add_mset (RDentry r) K) {} u"
        "\<And>x s'. st \<sigma> (add_mset (RDentry r) K) {} s' \<Longrightarrow> R' x s'" for r K R' u
      by (rule kcall_st[OF that(1)]) (use that(2) in \<open>auto simp: hands_over_def need_def\<close>)
    show ?thesis
      apply (rule after_bind, rule gives_dentry_st[OF t])
          apply (simp_all add: hands_over_def)[3]
       apply (simp add: after_bind[OF after_return] after_return R(1))
      apply (rule after_bind, rule after_if)
       apply (rule add, assumption, rule after_return, rule R(2), assumption, assumption)
      apply simp
      done
  qed
  show ?thesis
    unfolding lookup_negative_def
    apply (rule after_bind, rule peek_any)
    apply (rule after_bind, rule gives_dentry_st[OF s(1)])
        apply (simp_all add: hands_over_def)[3]
     apply (simp only: simp_thms if_False, rule after_bind, rule alloc, assumption)
      apply (simp, rule after_return, erule sound_butI, rule s(2), simp)
     apply (simp, rule found, assumption, assumption)
    apply (simp, rule found, assumption, assumption)
    done
qed

lemma lookup_st:
  assumes s: "st \<sigma> (X + stored \<sigma>) {} s" "finite_priv \<sigma>"
    and d: "d_fsdata \<sigma> dentry = Some i" "lower_path i = path_of 0 0"
    and root: "\<And>l. k_view (kern \<sigma>) l (IsRoot dentry) = 0"
    and X: "no_lock X" "mounted \<sigma> DSb dentry" "RDentry (p_dentry parent) \<in># X"
      "RMnt (p_mnt parent) \<in># X" "p_mnt parent \<noteq> 0"
  shows "after (lookup dentry flags parent) (looked_up X dentry) s"
proof -
  have peek_root: "after (peek (IsRoot dentry)) Q t" if "st \<sigma> K {} t" "Q 0 t" for K Q t
    using that root st_fields(7)[OF that(1)] by (simp add: after_def peek_def kview_def)
  show ?thesis
    unfolding lookup_def
    apply (rule after_bind, rule quiet_st[OF _ s(1), where U = "{}"])
       apply (rule unchanging | (simp; fail))+
    apply (rule after_bind, rule peek_root, assumption, simp)
    apply (rule after_bind, rule peek_any)
    apply (rule after_bind, rule path_lookup_st, assumption)
       apply (simp add: X)
      apply (simp add: X)
     apply (simp, rule lookup_positive_st, assumption, rule s(2), rule d(1), rule d(2), rule X(1),
        rule X(2), blast)
    apply (rule after_if, simp)
    apply (rule after_if, rule after_return, rule sound_butI, assumption, rule s(2), simp)
    apply (rule after_bind, rule after_mono, rule lookup_negative_st, assumption, rule s(2),
        rule d(1), rule d(2), rule X(1), rule X(4), rule X(5))
    apply (rule after_let, rule after_return)
    apply (auto simp: sound_but_def)
    done
qed

text \<open>
  \<open>wrapfs_lookup\<close> of an entry that has no private data yet, under a parent that has a lower path:
  whatever the lower lookup answers, the state is sound, and unless an error is returned the entry
  has a lower path.
\<close>

lemma wrapfs_lookup_sound:
  assumes "sound s" "d_fsdata s dentry = None" "bound s (kret s (DgetParent dentry))"
    "mounted (priv s) DSb dentry" and root: "\<And>l. k_view (kern s) l (IsRoot dentry) = 0"
  shows "after (wrapfs_lookup dir dentry flags) (\<lambda>r s'. sound s' \<and> (0 \<le> r \<longrightarrow> bound s' dentry)) s"
proof -
  note [simp del] = stored_priv
  note s = sound_st[OF assms(1)]
  let ?d = "kret s (DgetParent dentry)"
  let ?s = "log_call (DgetParent dentry) ?d s"
  obtain p where l: "stands_on (priv s) (stored (priv s)) ?d p"
    using bound_linked[OF assms(1,3)] .
  let ?X = "path_refs p + {#RDentry ?d#}"
  have X: "no_lock ?X" "RDentry (p_dentry p) \<in># ?X" "RMnt (p_mnt p) \<in># ?X" "p_mnt p \<noteq> 0"
    using linked_dentry[OF l] by simp_all
  have s1: "st (priv s) (add_mset (RDentry ?d) (stored (priv s))) {} ?s"
    by (rule st_log_call[OF s(1)]) (simp_all add: hands_over_def)
  have l1: "stands_on (priv s) (add_mset (RDentry ?d) (stored (priv s))) ?d p"
    by (rule linked_mono[OF l]) simp
  have n: "d_fsdata (priv s) dentry = None"
    using assms(2) by (simp add: priv_def)
  have put: "after (do { _ \<leftarrow> wrapfs_put_lower_path ?d p; _ \<leftarrow> kcall (Dput ?d); ret x }) (\<lambda>r s'. sound s' \<and> (0 \<le> r \<longrightarrow> bound s' dentry)) t"
    if b: "looked_up ?X dentry x t" for x t
  proof -
    obtain \<sigma> where "st \<sigma> (?X + stored \<sigma>) {} t" and f: "finite_priv \<sigma>"
      "0 \<le> x \<longrightarrow> bound \<sigma> dentry"
      using b unfolding sound_but_def by blast
    then have \<sigma>: "st \<sigma> (path_refs p + add_mset (RDentry ?d) (stored \<sigma>)) {} t"
      by simp
    show ?thesis
      unfolding wrapfs_put_lower_path_def
      apply (rule after_bind, rule path_put_st[OF \<sigma>])
        apply simp
       apply simp
      apply (rule after_bind, rule dput_st, assumption, simp)
      apply (rule after_return, rule conjI, rule st_sound[OF _ f(1)], simp)
      apply (use f(2) in \<open>simp add: bound_def st_fields(1)\<close>)
      done
  qed
  have copy: "after m Q t" if q: "unchanging {} m" and b: "looked_up ?X dentry r t"
    and Q: "\<And>x u. looked_up ?X dentry r u \<Longrightarrow> Q x u" for m :: "int prog" and Q t r
  proof -
    obtain \<sigma> where \<sigma>: "st \<sigma> (?X + stored \<sigma>) {} t" "finite_priv \<sigma>" "0 \<le> r \<longrightarrow> bound \<sigma> dentry"
      using b unfolding sound_but_def by blast
    show ?thesis
      by (rule quiet_st[OF q \<sigma>(1)], simp, simp, rule Q, erule sound_butI, rule \<sigma>(2), rule \<sigma>(3))
  qed
  have body: "after (wrapfs_get_lower_path ?d \<bind> f) Q ?s"
    if "\<And>s'. st (priv s) (?X + stored (priv s)) {} s' \<Longrightarrow> after (f p) Q s'" for f :: "_ \<Rightarrow> int prog" and Q
    by (rule after_bind, rule get_lower_path_st[OF s1 l1]) (use s(3) that in simp_all)
  have "after (wrapfs_get_lower_path ?d \<bind> (\<lambda>lp. do {
     err \<leftarrow> new_dentry_private_data dentry;
     r \<leftarrow> (if err \<noteq> 0 then ret err
          else do {
            r \<leftarrow> lookup dentry flags lp;
            if IS_ERR r then ret r
            else do {
              let d = (if r \<noteq> 0 then r else dentry);
              i \<leftarrow> peek (DInode d);
              _ \<leftarrow> (if i \<noteq> 0
                   then do { li \<leftarrow> wrapfs_lower_inode i; kcall (Copy AttrTimes i li) }
                   else ret 0);
              pi \<leftarrow> peek (DInode ?d);
              lpi \<leftarrow> wrapfs_lower_inode pi;
              _ \<leftarrow> kcall (Copy AttrAtime pi lpi);
              ret r } });
     _ \<leftarrow> wrapfs_put_lower_path ?d lp;
     _ \<leftarrow> kcall (Dput ?d);
     ret r })) (\<lambda>r s'. sound s' \<and> (0 \<le> r \<longrightarrow> bound s' dentry)) ?s"
    apply (rule body)
    apply (rule after_bind, rule new_dentry_private_data_st, assumption, rule s(2), rule n)
     apply (rule after_bind, rule after_if)
      apply (rule after_return, rule put, rule sound_butI, assumption, rule s(2), simp)
     apply simp
    apply (rule after_bind, rule after_if, simp)
    apply (rule after_bind, rule after_mono, rule lookup_st, assumption, assumption)
           apply simp
          apply simp
         apply (use root in \<open>simp add: priv_def\<close>)
        apply (rule X(1))
       apply (use assms(4) in \<open>simp add: mounted_def\<close>)
      apply (rule X)+
    apply (rule after_if, rule after_return, erule put)
    apply (rule after_let, rule after_bind, rule peek_any)
    apply (rule after_bind, rule copy[where m = "if _ then _ else _"])
      apply (rule unchanging | assumption | (simp; fail))+
    apply (rule after_bind, rule peek_any, rule after_bind, rule copy, rule unchanging, assumption)
    apply (rule after_bind, rule copy, rule unchanging, assumption)
    apply (rule after_return, erule put)
    done
  then show ?thesis
    by (simp add: wrapfs_lookup_def after_def kcall_def)
qed

section \<open>Operations of entries\<close>

lemma wrapfs_d_revalidate_sound:
  assumes "sound s" "bound s dentry"
  shows "after (wrapfs_d_revalidate dentry flags) (\<lambda>r. sound) s"
  unfolding wrapfs_d_revalidate_def
  apply (rule after_if, rule after_return, rule assms(1))
  apply (rule with_path_sound[OF assms])
  apply (rule puts_final | rule puts_bind puts_let | rule unchanging | (simp; fail))+
  done

lemma wrapfs_d_release_sound:
  assumes "sound s" "d_fsdata s dentry \<noteq> None" "dentry \<noteq> 0"
  shows "after (wrapfs_d_release dentry) (\<lambda>r s'. sound s' \<and> d_fsdata s' dentry = None) s"
proof -
  note [simp del] = stored_priv
  note s = sound_st[OF assms(1)]
  obtain i where i: "d_fsdata (priv s) dentry = Some i"
    using assms(2) by (auto simp: priv_def)
  let ?\<tau> = "d_set dentry (Some (i\<lparr>lower_path := path_of 0 0\<rparr>)) (priv s)"
  have \<tau>: "stored ?\<tau> + path_refs (lower_path i) = stored (priv s)" "finite_priv ?\<tau>"
    using stored_d_path[OF s(2) i, of "path_of 0 0"] s(2) by (simp_all add: path_refs_def[of "path_of 0 0"])
  let ?\<upsilon> = "d_set dentry None (priv s)"
  have \<upsilon>: "stored ?\<tau> = add_mset (RMem (di_addr i)) (stored ?\<upsilon>)" "finite_priv ?\<upsilon>"
    using stored_d_free[OF \<tau>(2), of dentry] s(2) by (simp_all add: d_owns_def path_refs_def)
  have free: "after (free_dentry_private_data dentry)
      (\<lambda>r s'. sound s' \<and> d_fsdata s' dentry = None) t" if t: "st ?\<tau> (stored ?\<tau>) {} t" for t
  proof -
    have f: "d_fsdata t dentry = Some (i\<lparr>lower_path := path_of 0 0\<rparr>)"
      using st_fields(1)[OF t] by simp
    have addr: "di_addr (i\<lparr>lower_path := path_of 0 0\<rparr>) = di_addr i"
      by simp
    have cache: "after (kcall (CacheFree c (di_addr i)))
        (\<lambda>r u. sound (d_set dentry None u)) t" for c
    proof (rule kcall_st[OF t, where K' = "\<lambda>r. stored ?\<upsilon>"])
      fix u
      assume "st ?\<tau> (stored ?\<upsilon>) {} u"
      from st_sound[OF d_set_st[OF this, of dentry None, simplified] \<upsilon>(2)]
      show "sound (d_set dentry None u)" .
    qed (simp_all add: hands_over_def \<upsilon>(1))
    show ?thesis
      unfolding free_dentry_private_data_def
      apply (rule after_bind, rule after_gets)
      apply (simp only: f option.case assms(3) if_False addr)
      apply (rule after_bind, rule after_gets, rule after_bind, rule after_mono[OF cache])
      apply (rule after_modify, simp add: d_set_def)
      done
  qed
  show ?thesis
    unfolding wrapfs_d_release_def
    apply (rule after_bind, rule wrapfs_put_reset_lower_path_st[OF s(1) i])
       apply (simp add: stored_d_free[OF s(2) i] d_owns_def)
      apply (rule s(3))
     apply (simp flip: \<tau>(1))
    apply (rule free)
    apply (simp flip: \<tau>(1))
    done
qed

end
