(* ===== verification/Wrapfs_File.thy ===== *)
theory Wrapfs_File
  imports Wrapfs_Inode
begin

text \<open>
  \<open>src/wrapfs/file.c\<close> and \<open>mmap.c\<close>: the operations on open files and on mapped memory. An open
  file of the module holds the lower file that \<open>dentry_open\<close> returned, and each operation is passed
  to it. A function whose local \<open>err\<close> is an \<open>int\<close> cuts the lower result to 32 bits (\<open>to_int\<close>).
\<close>

section \<open>Reading and writing\<close>

definition wrapfs_read :: "int \<Rightarrow> int \<Rightarrow> int \<Rightarrow> int \<Rightarrow> int prog" where
  "wrapfs_read filp buf nbytes ppos = do {
     dentry \<leftarrow> peek (FDentry filp);
     lf \<leftarrow> wrapfs_lower_file filp;
     r \<leftarrow> kcall (Lower (VfsRead lf buf nbytes ppos));
     let err = to_int r;
     _ \<leftarrow> (if err \<ge> 0 then do {
            i \<leftarrow> peek (DInode dentry);
            li \<leftarrow> peek (FInode lf);
            kcall (Copy AttrAtime i li) }
          else ret 0);
     ret err }"

definition wrapfs_write :: "int \<Rightarrow> int \<Rightarrow> int \<Rightarrow> int \<Rightarrow> int prog" where
  "wrapfs_write filp buf nbytes ppos = do {
     dentry \<leftarrow> peek (FDentry filp);
     lf \<leftarrow> wrapfs_lower_file filp;
     r \<leftarrow> kcall (Lower (VfsWrite lf buf nbytes ppos));
     let err = to_int r;
     _ \<leftarrow> (if err \<ge> 0 then do {
            i \<leftarrow> peek (DInode dentry);
            li \<leftarrow> peek (FInode lf);
            _ \<leftarrow> kcall (Copy InodeSize i li);
            i \<leftarrow> peek (DInode dentry);
            li \<leftarrow> peek (FInode lf);
            kcall (Copy AttrTimes i li) }
          else ret 0);
     ret err }"

definition wrapfs_readdir :: "int \<Rightarrow> int \<Rightarrow> int prog" where
  "wrapfs_readdir filp ctx = do {
     dentry \<leftarrow> peek (FDentry filp);
     lf \<leftarrow> wrapfs_lower_file filp;
     err \<leftarrow> kcall (Lower (IterateDir lf ctx));
     pos \<leftarrow> peek (FPosition lf);
     _ \<leftarrow> kcall (Assign FPos filp pos);
     _ \<leftarrow> (if err \<ge> 0 then do {
            i \<leftarrow> peek (DInode dentry);
            li \<leftarrow> peek (FInode lf);
            kcall (Copy AttrAtime i li) }
          else ret 0);
     ret err }"

definition wrapfs_unlocked_ioctl :: "int \<Rightarrow> int \<Rightarrow> int \<Rightarrow> int prog" where
  "wrapfs_unlocked_ioctl filp cmd arg = do {
     lf \<leftarrow> wrapfs_lower_file filp;
     fop \<leftarrow> peek (FOp lf);
     if lf = 0 \<or> fop = 0 then ret (- ENOTTY)
     else do {
       has \<leftarrow> peek (HasIoctl lf);
       err \<leftarrow> (if has \<noteq> 0 then kcall (Lower (UnlockedIoctl lf cmd arg)) else ret (- ENOTTY));
       _ \<leftarrow> (if err = 0 then do {
              i \<leftarrow> peek (FInode filp);
              li \<leftarrow> peek (FInode lf);
              kcall (Copy AttrAll i li) }
            else ret 0);
       ret err } }"

definition wrapfs_compat_ioctl :: "int \<Rightarrow> int \<Rightarrow> int \<Rightarrow> int prog" where
  "wrapfs_compat_ioctl filp cmd arg = do {
     lf \<leftarrow> wrapfs_lower_file filp;
     fop \<leftarrow> peek (FOp lf);
     if lf = 0 \<or> fop = 0 then ret (- ENOTTY)
     else do {
       has \<leftarrow> peek (HasCompatIoctl lf);
       if has \<noteq> 0 then kcall (Lower (CompatIoctl lf cmd arg)) else ret (- ENOTTY) } }"

section \<open>Mapping\<close>

definition wrapfs_mmap :: "int \<Rightarrow> int \<Rightarrow> int prog" where
  "wrapfs_mmap filp vma = do {
     vm_flags \<leftarrow> peek (VmaFlags vma);
     let willwrite = (vm_flags OR VM_SHARED OR VM_WRITE = vm_flags);
     lf \<leftarrow> wrapfs_lower_file filp;
     writepage \<leftarrow> peek (HasWritepage lf);
     if willwrite \<and> writepage = 0 then ret (- EINVAL)
     else do {
       info \<leftarrow> WRAPFS_F filp;
       r \<leftarrow> (if lower_vm_ops info = 0 then do {
              err \<leftarrow> kcall (Lower (LowerMmap lf vma));
              ops \<leftarrow> peek (VmaOps vma);
              ret (err, if err \<noteq> 0 then 0 else ops) }
            else ret (0, 0));
       if fst r \<noteq> 0 then ret (fst r)
       else do {
         _ \<leftarrow> kcall (Lower (FileAccessed filp));
         _ \<leftarrow> kcall (Assign VmOps vma main_ops);
         _ \<leftarrow> kcall (Assign FAops filp main_ops);
         info \<leftarrow> WRAPFS_F filp;
         _ \<leftarrow> (if lower_vm_ops info = 0
              then modify (\<lambda>s. s\<lparr>private_data :=
                (private_data s)(filp \<mapsto> info\<lparr>lower_vm_ops := snd r\<rparr>)\<rparr>)
              else ret ());
         ret 0 } } }"

definition wrapfs_fault :: "int \<Rightarrow> int \<Rightarrow> int prog" where
  "wrapfs_fault vma vmf = do {
     filp \<leftarrow> peek (VmaFile vma);
     info \<leftarrow> WRAPFS_F filp;
     _ \<leftarrow> (if lower_vm_ops info = 0 then kcall Fault else ret 0);
     lf \<leftarrow> wrapfs_lower_file filp;
     kcall (Lower (LowerFault (lower_vm_ops info) lf vmf)) }"

definition wrapfs_page_mkwrite :: "int \<Rightarrow> int \<Rightarrow> int prog" where
  "wrapfs_page_mkwrite vma vmf = do {
     filp \<leftarrow> peek (VmaFile vma);
     info \<leftarrow> WRAPFS_F filp;
     _ \<leftarrow> (if lower_vm_ops info = 0 then kcall Fault else ret 0);
     has \<leftarrow> peek (HasPageMkwrite (lower_vm_ops info));
     if has = 0 then ret 0
     else do {
       lf \<leftarrow> wrapfs_lower_file filp;
       kcall (Lower (LowerPageMkwrite (lower_vm_ops info) lf vmf)) } }"

definition wrapfs_direct_IO :: "int \<Rightarrow> int \<Rightarrow> int prog" where
  "wrapfs_direct_IO iocb iter = ret (- EINVAL)"

section \<open>Opening and closing\<close>

text \<open>After \<open>kfree\<close> the structure is gone, whether or not the pointer to it is cleared.\<close>

definition free_file_info :: "int \<Rightarrow> unit prog" where
  "free_file_info filp = do {
     info \<leftarrow> WRAPFS_F filp;
     _ \<leftarrow> kcall (Kfree (fi_addr info));
     modify (\<lambda>s. s\<lparr>private_data := (private_data s)(filp := None)\<rparr>) }"

definition wrapfs_open :: "int \<Rightarrow> int \<Rightarrow> int prog" where
  "wrapfs_open inode filp = do {
     dentry \<leftarrow> peek (FDentry filp);
     unhashed \<leftarrow> peek (DUnhashed dentry);
     if unhashed \<noteq> 0 then ret (- ENOENT)
     else do {
       a \<leftarrow> kcall Kzalloc;
       modify (\<lambda>s. s\<lparr>private_data := (private_data s)(filp :=
         (if a = 0 then None else Some \<lparr>fi_addr = a, lower_file = 0, lower_vm_ops = 0\<rparr>))\<rparr>);
       if a = 0 then ret (- ENOMEM)
       else do {
         dentry \<leftarrow> peek (FDentry filp);
         p \<leftarrow> wrapfs_get_lower_path dentry;
         flags \<leftarrow> peek (FFlags filp);
         cred \<leftarrow> peek CurrentCred;
         lf \<leftarrow> kcall (DentryOpen p flags cred);
         _ \<leftarrow> kcall (PathPut p);
         err \<leftarrow> (if IS_ERR lf then do {
                  old \<leftarrow> wrapfs_lower_file filp;
                  _ \<leftarrow> (if old \<noteq> 0 then do {
                         wrapfs_set_lower_file filp 0;
                         kcall (Fput old) }
                       else ret 0);
                  ret (to_int lf) }
                else do {
                  wrapfs_set_lower_file filp lf;
                  ret 0 });
         _ \<leftarrow> (if err \<noteq> 0 then free_file_info filp
              else do {
                li \<leftarrow> wrapfs_lower_inode inode;
                _ \<leftarrow> kcall (Copy AttrAll inode li);
                ret () });
         ret err } } }"

definition wrapfs_flush :: "int \<Rightarrow> int \<Rightarrow> int prog" where
  "wrapfs_flush filp owner = do {
     lf \<leftarrow> wrapfs_lower_file filp;
     fop \<leftarrow> peek (FOp lf);
     has \<leftarrow> peek (HasFlush lf);
     if lf \<noteq> 0 \<and> fop \<noteq> 0 \<and> has \<noteq> 0 then do {
       _ \<leftarrow> kcall (Lower (FilemapWriteAndWait filp));
       kcall (Lower (LowerFlush lf owner)) }
     else ret 0 }"

definition wrapfs_file_release :: "int \<Rightarrow> int \<Rightarrow> int prog" where
  "wrapfs_file_release inode filp = do {
     lf \<leftarrow> wrapfs_lower_file filp;
     _ \<leftarrow> (if lf \<noteq> 0 then do {
            wrapfs_set_lower_file filp 0;
            kcall (Fput lf) }
          else ret 0);
     free_file_info filp;
     ret 0 }"

section \<open>Synchronising, seeking\<close>

definition wrapfs_fsync :: "int \<Rightarrow> int \<Rightarrow> int \<Rightarrow> int \<Rightarrow> int prog" where
  "wrapfs_fsync filp lo hi datasync = do {
     dentry \<leftarrow> peek (FDentry filp);
     err \<leftarrow> kcall (Lower (GenericFileFsync filp lo hi datasync));
     if err \<noteq> 0 then ret err
     else do {
       lf \<leftarrow> wrapfs_lower_file filp;
       p \<leftarrow> wrapfs_get_lower_path dentry;
       err \<leftarrow> kcall (Lower (VfsFsyncRange lf lo hi datasync));
       _ \<leftarrow> wrapfs_put_lower_path dentry p;
       ret err } }"

definition wrapfs_fasync :: "int \<Rightarrow> int \<Rightarrow> int \<Rightarrow> int prog" where
  "wrapfs_fasync fd filp flag = do {
     lf \<leftarrow> wrapfs_lower_file filp;
     fop \<leftarrow> peek (FOp lf);
     has \<leftarrow> peek (HasFasync lf);
     if fop \<noteq> 0 \<and> has \<noteq> 0 then kcall (Lower (LowerFasync fd lf flag)) else ret 0 }"

definition wrapfs_file_llseek :: "int \<Rightarrow> int \<Rightarrow> int \<Rightarrow> int prog" where
  "wrapfs_file_llseek filp offset whence = do {
     r \<leftarrow> kcall (Lower (GenericFileLlseek filp offset whence));
     let err = to_int r;
     if err < 0 then ret err
     else do {
       lf \<leftarrow> wrapfs_lower_file filp;
       r \<leftarrow> kcall (Lower (GenericFileLlseek lf offset whence));
       ret (to_int r) } }"

section \<open>Iterators\<close>

text \<open>The lower file is referenced while the request is pointed at it.\<close>

definition wrapfs_read_iter :: "int \<Rightarrow> int \<Rightarrow> int prog" where
  "wrapfs_read_iter iocb iter = do {
     filp \<leftarrow> peek (IocbFile iocb);
     lf \<leftarrow> wrapfs_lower_file filp;
     has \<leftarrow> peek (HasReadIter lf);
     if has = 0 then ret (- EINVAL)
     else do {
       _ \<leftarrow> kcall (GetFile lf);
       _ \<leftarrow> kcall (Assign KiFilp iocb lf);
       r \<leftarrow> kcall (Lower (LowerReadIter lf iocb iter));
       let err = to_int r;
       _ \<leftarrow> kcall (Assign KiFilp iocb filp);
       _ \<leftarrow> kcall (Fput lf);
       _ \<leftarrow> (if err \<ge> 0 \<or> err = - EIOCBQUEUED then do {
              d \<leftarrow> peek (FDentry filp);
              i \<leftarrow> peek (DInode d);
              li \<leftarrow> peek (FInode lf);
              kcall (Copy AttrAtime i li) }
            else ret 0);
       ret err } }"

definition wrapfs_write_iter :: "int \<Rightarrow> int \<Rightarrow> int prog" where
  "wrapfs_write_iter iocb iter = do {
     filp \<leftarrow> peek (IocbFile iocb);
     lf \<leftarrow> wrapfs_lower_file filp;
     has \<leftarrow> peek (HasWriteIter lf);
     if has = 0 then ret (- EINVAL)
     else do {
       _ \<leftarrow> kcall (GetFile lf);
       _ \<leftarrow> kcall (Assign KiFilp iocb lf);
       r \<leftarrow> kcall (Lower (LowerWriteIter lf iocb iter));
       let err = to_int r;
       _ \<leftarrow> kcall (Assign KiFilp iocb filp);
       _ \<leftarrow> kcall (Fput lf);
       _ \<leftarrow> (if err \<ge> 0 \<or> err = - EIOCBQUEUED then do {
              d \<leftarrow> peek (FDentry filp);
              i \<leftarrow> peek (DInode d);
              li \<leftarrow> peek (FInode lf);
              _ \<leftarrow> kcall (Copy InodeSize i li);
              d \<leftarrow> peek (FDentry filp);
              i \<leftarrow> peek (DInode d);
              li \<leftarrow> peek (FInode lf);
              kcall (Copy AttrTimes i li) }
            else ret 0);
       ret err } }"

end
