(* ===== verification/Wrapfs_File_Correct.thy ===== *)
theory Wrapfs_File_Correct
  imports Wrapfs_Owned Wrapfs_File
begin

text \<open>
  The operations of \<open>file.c\<close> and \<open>mmap.c\<close> keep the module sound: they pass on a lower file only
  while its reference is held, opening takes one reference and one structure and gives both back
  when it fails, and releasing gives both back.
\<close>

section \<open>Updates of the private data of a file\<close>

definition f_set :: "int \<Rightarrow> wrapfs_file_info option \<Rightarrow> kst \<Rightarrow> kst" where
  "f_set f x \<sigma> = \<sigma>\<lparr>private_data := (private_data \<sigma>)(f := x)\<rparr>"

lemma f_set_simps [simp]:
  "d_fsdata (f_set f x \<sigma>) = d_fsdata \<sigma>" "lower_inode (f_set f x \<sigma>) = lower_inode \<sigma>"
  "private_data (f_set f x \<sigma>) = (private_data \<sigma>)(f := x)" "s_fs_info (f_set f x \<sigma>) = s_fs_info \<sigma>"
  "wrapfs_inode_cachep (f_set f x \<sigma>) = wrapfs_inode_cachep \<sigma>"
  "wrapfs_dentry_cachep (f_set f x \<sigma>) = wrapfs_dentry_cachep \<sigma>" "kern (f_set f x \<sigma>) = kern \<sigma>"
  "f_set f y (f_set f x \<sigma>) = f_set f y \<sigma>"
  by (simp_all add: f_set_def)

lemma lower_of_f_set [simp]: "lower_of (f_set f x \<sigma>) = lower_of \<sigma>"
  by (simp add: lower_of_def fun_eq_iff)

lemma finite_f_set [simp]: "finite_priv \<sigma> \<Longrightarrow> finite_priv (f_set f x \<sigma>)"
  by (cases x) (simp_all add: finite_priv_def)

lemma f_set_same: "private_data \<sigma> f = x \<Longrightarrow> f_set f x \<sigma> = \<sigma>"
  by (auto simp: f_set_def fun_upd_idem)

lemma stored_f_free:
  "finite_priv \<sigma> \<Longrightarrow> private_data \<sigma> f = Some i \<Longrightarrow> stored \<sigma> = f_owns i + stored (f_set f None \<sigma>)"
  by (simp add: stored_def finite_priv_def owned_remove[of "private_data \<sigma>" f i])

lemma stored_f_set:
  assumes "finite_priv \<sigma>"
  shows "stored (f_set f (Some i) \<sigma>) = f_owns i + stored (f_set f None \<sigma>)"
  using stored_f_free[of "f_set f (Some i) \<sigma>" f i] assms by simp

lemma f_set_st: "st \<sigma> K W s \<Longrightarrow> st (f_set f x \<sigma>) K W (f_set f x s)"
  by (auto simp: st_def priv_def f_set_def covered_def)

lemma WRAPFS_F_st: "st \<sigma> K W s \<Longrightarrow> private_data \<sigma> f = Some i \<Longrightarrow> Q i s \<Longrightarrow> after (WRAPFS_F f) Q s"
  by (rule WRAPFS_F_wp) (simp_all add: st_fields(3))

lemma lower_file_st:
  "st \<sigma> K W s \<Longrightarrow> private_data \<sigma> f = Some i \<Longrightarrow> Q (lower_file i) s \<Longrightarrow> after (wrapfs_lower_file f) Q s"
  unfolding wrapfs_lower_file_def by (rule after_bind, rule WRAPFS_F_st) (auto intro: after_return)

lemma set_lower_file_st:
  assumes s: "st \<sigma> K W s" "private_data \<sigma> f = Some i"
    and Q: "\<And>s'. st (f_set f (Some (i\<lparr>lower_file := v\<rparr>)) \<sigma>) K W s' \<Longrightarrow> Q () s'"
  shows "after (wrapfs_set_lower_file f v) Q s"
  unfolding wrapfs_set_lower_file_def
  by (rule after_bind, rule WRAPFS_F_st[OF s], rule after_modify)
    (use Q f_set_st[OF s(1)] in \<open>auto simp: f_set_def\<close>)

lemma kfree_st:
  assumes "st \<sigma> (add_mset (RMem a) K) W s" "pinned W K" "\<And>r s'. st \<sigma> K W s' \<Longrightarrow> Q r s'"
  shows "after (kcall (Kfree a)) Q s"
  by (rule kcall_st[OF assms(1)])
    (use assms in \<open>auto simp: hands_over_def stays_def pinned_def Suc_le_eq\<close>)

lemma fput_st:
  assumes "st \<sigma> (add_mset (RFile a) K) W s" "pinned W K" "\<And>r s'. st \<sigma> K W s' \<Longrightarrow> Q r s'"
  shows "after (kcall (Fput a)) Q s"
  by (rule kcall_st[OF assms(1)])
    (use assms in \<open>auto simp: hands_over_def stays_def pinned_def Suc_le_eq\<close>)

lemma get_file_st:
  assumes "st \<sigma> K W s" "RFile a \<in># K" "pinned W K"
    "\<And>r s'. st \<sigma> (add_mset (RFile a) K) W s' \<Longrightarrow> Q r s'"
  shows "after (kcall (GetFile a)) Q s"
  by (rule kcall_st[OF assms(1)])
    (use assms in \<open>auto simp: hands_over_def stays_def pinned_def Suc_le_eq\<close>)

section \<open>Open files\<close>

definition file_opened :: "kst \<Rightarrow> int \<Rightarrow> bool" where
  "file_opened s f \<longleftrightarrow> (case private_data s f of None \<Rightarrow> False | Some i \<Rightarrow> lower_file i \<noteq> 0)"

lemma opened_file:
  assumes "sound s" "file_opened s f"
  obtains i where "private_data (priv s) f = Some i" "RFile (lower_file i) \<in># stored (priv s)"
    "lower_file i \<noteq> 0"
proof -
  obtain i where i: "private_data (priv s) f = Some i" "lower_file i \<noteq> 0"
    using assms(2) by (auto simp: file_opened_def priv_def split: option.splits)
  have "RFile (lower_file i) \<in># stored (priv s)"
    using stored_f_free[OF sound_st(2)[OF assms(1)] i(1)] i(2) by (simp add: f_owns_def del: stored_priv)
  then show ?thesis
    using that i by blast
qed

lemma with_file_sound:
  assumes "sound s" "file_opened s f" "\<And>lf. unchanging {RFile lf} (g lf)"
  shows "after (wrapfs_lower_file f \<bind> g) (\<lambda>r. sound) s"
proof -
  note s = sound_st[OF assms(1)]
  obtain i where i: "private_data (priv s) f = Some i" "RFile (lower_file i) \<in># stored (priv s)"
    using opened_file[OF assms(1,2)] .
  show ?thesis
    by (rule after_bind, rule lower_file_st[OF s(1) i(1)], rule quiet_st[OF assms(3) s(1)])
      (use i(2) in \<open>auto intro: st_sound[OF _ s(2)] simp del: stored_priv\<close>)
qed

lemma wrapfs_read_sound:
  assumes "sound s" "file_opened s filp"
  shows "after (wrapfs_read filp buf nbytes ppos) (\<lambda>r. sound) s"
  unfolding wrapfs_read_def
  by (rule after_bind, rule peek_any, rule with_file_sound[OF assms])
    (rule unchanging | (simp; fail))+

lemma wrapfs_write_sound:
  assumes "sound s" "file_opened s filp"
  shows "after (wrapfs_write filp buf nbytes ppos) (\<lambda>r. sound) s"
  unfolding wrapfs_write_def
  by (rule after_bind, rule peek_any, rule with_file_sound[OF assms])
    (rule unchanging | (simp; fail))+

lemma wrapfs_readdir_sound:
  assumes "sound s" "file_opened s filp"
  shows "after (wrapfs_readdir filp ctx) (\<lambda>r. sound) s"
  unfolding wrapfs_readdir_def
  by (rule after_bind, rule peek_any, rule with_file_sound[OF assms])
    (rule unchanging | (simp; fail))+

lemma wrapfs_unlocked_ioctl_sound:
  assumes "sound s" "file_opened s filp"
  shows "after (wrapfs_unlocked_ioctl filp cmd arg) (\<lambda>r. sound) s"
  unfolding wrapfs_unlocked_ioctl_def
  by (rule with_file_sound[OF assms]) (rule unchanging | (simp; fail))+

lemma wrapfs_compat_ioctl_sound:
  assumes "sound s" "file_opened s filp"
  shows "after (wrapfs_compat_ioctl filp cmd arg) (\<lambda>r. sound) s"
  unfolding wrapfs_compat_ioctl_def
  by (rule with_file_sound[OF assms]) (rule unchanging | (simp; fail))+

lemma wrapfs_flush_sound:
  assumes "sound s" "file_opened s filp"
  shows "after (wrapfs_flush filp owner) (\<lambda>r. sound) s"
  unfolding wrapfs_flush_def
  by (rule with_file_sound[OF assms]) (rule unchanging | (simp; fail))+

lemma wrapfs_fasync_sound:
  assumes "sound s" "file_opened s filp"
  shows "after (wrapfs_fasync fd filp flag) (\<lambda>r. sound) s"
  unfolding wrapfs_fasync_def
  by (rule with_file_sound[OF assms]) (rule unchanging | (simp; fail))+

lemma wrapfs_file_llseek_sound:
  assumes "sound s" "file_opened s filp"
  shows "after (wrapfs_file_llseek filp offset whence) (\<lambda>r. sound) s"
proof -
  note s = sound_st[OF assms(1)]
  obtain i where i: "private_data (priv s) filp = Some i"
    using opened_file[OF assms] .
  show ?thesis
    unfolding wrapfs_file_llseek_def
    apply (rule after_bind, rule lower_quiet_st[OF s(1)], simp, simp, simp)
    apply (rule after_let, rule after_if, rule after_return, erule st_sound, rule s(2))
    apply (rule after_bind, rule lower_file_st, assumption, rule i)
    apply (rule after_bind, rule lower_quiet_st, assumption, simp, simp, simp)
    apply (rule after_return, erule st_sound, rule s(2))
    done
qed

lemma wrapfs_fsync_sound:
  assumes "sound s" "file_opened s filp" "\<And>l. bound s (k_view (kern s) l (FDentry filp))"
  shows "after (wrapfs_fsync filp lo hi datasync) (\<lambda>r. sound) s"
proof -
  note s = sound_st[OF assms(1)]
  obtain i where i: "private_data (priv s) filp = Some i" "RFile (lower_file i) \<in># stored (priv s)"
    using opened_file[OF assms(1,2)] .
  have d: "bound s (kview s (FDentry filp))"
    using assms(3) by (simp add: kview_def)
  obtain p where l: "stands_on (priv s) (stored (priv s)) (kview s (FDentry filp)) p"
    using bound_linked[OF assms(1) d] .
  show ?thesis
    unfolding wrapfs_fsync_def wrapfs_put_lower_path_def
    apply (rule after_bind, rule after_peek, hypsubst)
    apply (rule after_bind, rule lower_quiet_st[OF s(1)], simp, simp, simp)
    apply (rule after_if, rule after_return, erule st_sound, rule s(2))
    apply (rule after_bind, rule lower_file_st, assumption, rule i(1))
    apply (rule after_bind, rule get_lower_path_st, assumption, rule l, rule s(3))
    apply (rule after_bind, rule lower_quiet_st, assumption)
       apply (use i(2) in \<open>simp del: stored_priv\<close>)
      apply simp
     apply simp
    apply (rule after_bind, rule path_put_st, assumption)
      apply simp
     apply simp
    apply (rule after_return, rule st_sound[OF _ s(2)], simp)
    done
qed

section \<open>Iterators\<close>

text \<open>Between \<open>get_file\<close> and \<open>fput\<close> the lower file is held once more.\<close>

lemma file_bracket:
  assumes "sound s" "private_data (priv s) f = Some i" "RFile (lower_file i) \<in># stored (priv s)"
    "set (uses v) \<subseteq> {RFile (lower_file i)}" "\<And>d. \<not> removes (Lower v) d" "\<And>x. unchanging {} (g x)"
  shows "after (do {
       _ \<leftarrow> kcall (GetFile (lower_file i));
       _ \<leftarrow> kcall (Assign KiFilp iocb (lower_file i));
       r \<leftarrow> kcall (Lower v);
       let err = to_int r;
       _ \<leftarrow> kcall (Assign KiFilp iocb f);
       _ \<leftarrow> kcall (Fput (lower_file i));
       g err }) (\<lambda>r. sound) s"
proof -
  note [simp del] = stored_priv
  note s = sound_st[OF assms(1)]
  show ?thesis
    apply (rule after_bind, rule get_file_st[OF s(1) assms(3)], simp)
    apply (rule after_bind, rule quiet_st[where U = "{}"], rule unchanging, assumption, simp, simp)
    apply (rule after_bind, rule lower_quiet_st, assumption)
       apply (use assms(4) in auto)[1]
      apply (rule assms(5))
     apply simp
    apply (rule after_let, rule after_bind, rule quiet_st[where U = "{}"], rule unchanging, assumption,
        simp, simp)
    apply (rule after_bind, rule fput_st, assumption, simp)
    apply (rule quiet_st[OF assms(6)], assumption, simp, simp)
    apply (erule st_sound, rule s(2))
    done
qed

lemma wrapfs_read_iter_sound:
  assumes "sound s" "file_opened s (kview s (IocbFile iocb))"
  shows "after (wrapfs_read_iter iocb iter) (\<lambda>r. sound) s"
proof -
  note s = sound_st[OF assms(1)]
  obtain i where i: "private_data (priv s) (kview s (IocbFile iocb)) = Some i"
      "RFile (lower_file i) \<in># stored (priv s)"
    using opened_file[OF assms] .
  show ?thesis
    unfolding wrapfs_read_iter_def
    apply (rule after_bind, rule after_peek, hypsubst)
    apply (rule after_bind, rule lower_file_st[OF s(1) i(1)])
    apply (rule after_bind, rule peek_any, rule after_if, rule after_return, rule assms(1))
    apply (rule file_bracket[OF assms(1) i])
      apply (rule unchanging | (simp; fail))+
    done
qed

lemma wrapfs_write_iter_sound:
  assumes "sound s" "file_opened s (kview s (IocbFile iocb))"
  shows "after (wrapfs_write_iter iocb iter) (\<lambda>r. sound) s"
proof -
  note s = sound_st[OF assms(1)]
  obtain i where i: "private_data (priv s) (kview s (IocbFile iocb)) = Some i"
      "RFile (lower_file i) \<in># stored (priv s)"
    using opened_file[OF assms] .
  show ?thesis
    unfolding wrapfs_write_iter_def
    apply (rule after_bind, rule after_peek, hypsubst)
    apply (rule after_bind, rule lower_file_st[OF s(1) i(1)])
    apply (rule after_bind, rule peek_any, rule after_if, rule after_return, rule assms(1))
    apply (rule file_bracket[OF assms(1) i])
      apply (rule unchanging | (simp; fail))+
    done
qed

section \<open>Mapping\<close>

lemma stored_f_vm:
  assumes "finite_priv \<sigma>" "private_data \<sigma> f = Some i"
  shows "stored (f_set f (Some (i\<lparr>lower_vm_ops := v\<rparr>)) \<sigma>) = stored \<sigma>"
  using stored_f_set[OF assms(1), of f] stored_f_free[OF assms] by (simp add: f_owns_def)

lemma wrapfs_mmap_sound:
  assumes "sound s" "file_opened s filp"
  shows "after (wrapfs_mmap filp vma) (\<lambda>r. sound) s"
proof -
  note [simp del] = stored_priv
  note s = sound_st[OF assms(1)]
  obtain i where i: "private_data (priv s) filp = Some i" "RFile (lower_file i) \<in># stored (priv s)"
    using opened_file[OF assms] .
  have map1: "after (if lower_vm_ops i = 0 then do {
              err \<leftarrow> kcall (Lower (LowerMmap (lower_file i) vma));
              ops \<leftarrow> peek (VmaOps vma);
              ret (err, if err \<noteq> 0 then 0 else ops) }
            else ret (0, 0)) Q s" if "\<And>r s'. st (priv s) (stored (priv s)) {} s' \<Longrightarrow> Q r s'" for Q
    by (rule quiet_st[OF _ s(1), where U = "{RFile (lower_file i)}"])
      (use i(2) that in \<open>auto intro!: unchanging\<close>)
  have upd: "after (if lower_vm_ops i = 0
              then modify (\<lambda>s. s\<lparr>private_data := (private_data s)(filp \<mapsto> i\<lparr>lower_vm_ops := v\<rparr>)\<rparr>)
              else ret ()) (\<lambda>r. sound) t" if t: "st (priv s) (stored (priv s)) {} t" for v t
  proof (intro after_if after_modify after_return)
    let ?\<tau> = "f_set filp (Some (i\<lparr>lower_vm_ops := v\<rparr>)) (priv s)"
    have "st ?\<tau> (stored ?\<tau>) {} (f_set filp (Some (i\<lparr>lower_vm_ops := v\<rparr>)) t)"
      using f_set_st[OF t] stored_f_vm[OF s(2) i(1)] by simp
    from st_sound[OF this finite_f_set[OF s(2)]]
    show "sound (t\<lparr>private_data := (private_data t)(filp \<mapsto> i\<lparr>lower_vm_ops := v\<rparr>)\<rparr>)"
      by (simp add: f_set_def)
    show "sound t"
      by (rule st_sound[OF t s(2)])
  qed
  show ?thesis
    unfolding wrapfs_mmap_def
    apply (rule after_bind, rule peek_any, rule after_let)
    apply (rule after_bind, rule lower_file_st[OF s(1) i(1)])
    apply (rule after_bind, rule peek_any, rule after_if, rule after_return, rule assms(1))
    apply (rule after_bind, rule WRAPFS_F_st[OF s(1) i(1)])
    apply (rule after_bind, rule map1)
    apply (rule after_if, rule after_return, erule st_sound, rule s(2))
    apply (rule after_bind, rule lower_quiet_st, assumption, simp, simp, simp)
    apply (rule after_bind, rule quiet_st[where U = "{}"], rule unchanging, assumption, simp, simp)
    apply (rule after_bind, rule quiet_st[where U = "{}"], rule unchanging, assumption, simp, simp)
    apply (rule after_bind, rule WRAPFS_F_st, assumption, rule i(1))
    apply (rule after_bind, rule after_mono, erule upd)
    apply (erule after_return)
    done
qed

text \<open>A mapping that \<open>wrapfs_mmap\<close> made has the lower operations its faults are passed to.\<close>

definition mapped :: "kst \<Rightarrow> int \<Rightarrow> bool" where
  "mapped s f \<longleftrightarrow> file_opened s f \<and>
     (case private_data s f of None \<Rightarrow> False | Some i \<Rightarrow> lower_vm_ops i \<noteq> 0)"

lemma mapped_file:
  assumes "sound s" "mapped s f"
  obtains i where "private_data (priv s) f = Some i" "RFile (lower_file i) \<in># stored (priv s)"
    "lower_vm_ops i \<noteq> 0"
proof -
  have "file_opened s f"
    using assms(2) by (simp add: mapped_def)
  from opened_file[OF assms(1) this] obtain i where
    i: "private_data (priv s) f = Some i" "RFile (lower_file i) \<in># stored (priv s)" .
  moreover have "lower_vm_ops i \<noteq> 0"
    using assms(2) i(1) by (simp add: mapped_def priv_def)
  ultimately show ?thesis
    using that by blast
qed

lemma wrapfs_fault_sound:
  assumes "sound s" "mapped s (kview s (VmaFile vma))"
  shows "after (wrapfs_fault vma vmf) (\<lambda>r. sound) s"
proof -
  note [simp del] = stored_priv
  note s = sound_st[OF assms(1)]
  obtain i where i: "private_data (priv s) (kview s (VmaFile vma)) = Some i"
    "RFile (lower_file i) \<in># stored (priv s)" "lower_vm_ops i \<noteq> 0"
    using mapped_file[OF assms] .
  show ?thesis
    unfolding wrapfs_fault_def
    apply (rule after_bind, rule after_peek, hypsubst)
    apply (rule after_bind, rule WRAPFS_F_st[OF s(1) i(1)])
    apply (rule after_bind, rule after_if, simp add: i(3), rule after_return)
    apply (rule after_bind, rule lower_file_st[OF s(1) i(1)])
    apply (rule lower_quiet_st[OF s(1)])
       apply (simp add: i(2))
      apply simp
     apply simp
    apply (erule st_sound, rule s(2))
    done
qed

lemma wrapfs_page_mkwrite_sound:
  assumes "sound s" "mapped s (kview s (VmaFile vma))"
  shows "after (wrapfs_page_mkwrite vma vmf) (\<lambda>r. sound) s"
proof -
  note [simp del] = stored_priv
  note s = sound_st[OF assms(1)]
  obtain i where i: "private_data (priv s) (kview s (VmaFile vma)) = Some i"
    "RFile (lower_file i) \<in># stored (priv s)" "lower_vm_ops i \<noteq> 0"
    using mapped_file[OF assms] .
  show ?thesis
    unfolding wrapfs_page_mkwrite_def
    apply (rule after_bind, rule after_peek, hypsubst)
    apply (rule after_bind, rule WRAPFS_F_st[OF s(1) i(1)])
    apply (rule after_bind, rule after_if, simp add: i(3), rule after_return)
    apply (rule after_bind, rule peek_any, rule after_if, rule after_return, rule assms(1))
    apply (rule after_bind, rule lower_file_st[OF s(1) i(1)])
    apply (rule lower_quiet_st[OF s(1)])
       apply (simp add: i(2))
      apply simp
     apply simp
    apply (erule st_sound, rule s(2))
    done
qed

section \<open>Opening and closing\<close>

lemma free_file_info_st:
  assumes t: "st \<sigma> (stored \<sigma>) {} t" "finite_priv \<sigma>" "private_data \<sigma> f = Some i" "lower_file i = 0"
  shows "after (free_file_info f) (\<lambda>r s'. sound s' \<and> private_data s' f = None) t"
proof -
  have k: "stored \<sigma> = add_mset (RMem (fi_addr i)) (stored (f_set f None \<sigma>))"
    using stored_f_free[OF t(2,3)] t(4) by (simp add: f_owns_def)
  have "sound (f_set f None u)" if "st \<sigma> (stored (f_set f None \<sigma>)) {} u" for u
    by (rule st_sound[OF f_set_st[OF that]]) (simp add: t(2))
  then show ?thesis
    unfolding free_file_info_def
    apply (intro after_bind WRAPFS_F_st[OF t(1,3)] kfree_st[OF t(1)[unfolded k]] after_modify)
     apply simp
    apply (simp add: f_set_def)
    done
qed

lemma wrapfs_file_release_sound:
  assumes "sound s" "private_data s filp \<noteq> None"
  shows "after (wrapfs_file_release inode filp) (\<lambda>r s'. sound s' \<and> private_data s' filp = None) s"
proof -
  note [simp del] = stored_priv
  note s = sound_st[OF assms(1)]
  obtain i where i: "private_data (priv s) filp = Some i"
    using assms(2) by (auto simp: priv_def)
  let ?\<tau> = "f_set filp (Some (i\<lparr>lower_file := 0\<rparr>)) (priv s)"
  have \<tau>: "stored (priv s) = add_mset (RFile (lower_file i)) (stored ?\<tau>)" if "lower_file i \<noteq> 0"
    using that stored_f_free[OF s(2) i] stored_f_set[OF s(2), of filp "i\<lparr>lower_file := 0\<rparr>"]
    by (simp add: f_owns_def)
  have free: "after (do { _ \<leftarrow> free_file_info filp; ret (0 :: int) })
      (\<lambda>r s'. sound s' \<and> private_data s' filp = None) t"
    if "st \<sigma> (stored \<sigma>) {} t" "finite_priv \<sigma>" "private_data \<sigma> filp = Some j" "lower_file j = 0" for \<sigma> j t
    by (rule after_bind, rule after_mono, rule free_file_info_st[OF that]) (erule after_return)
  have put: "after (kcall (Fput (lower_file i))) Q t" if "lower_file i \<noteq> 0"
    "st ?\<tau> (stored (priv s)) {} t" "\<And>r s'. st ?\<tau> (stored ?\<tau>) {} s' \<Longrightarrow> Q r s'" for Q t
    by (rule fput_st[OF that(2)[unfolded \<tau>[OF that(1)]]]) (simp_all add: that(3))
  show ?thesis
    unfolding wrapfs_file_release_def
    apply (rule after_bind, rule lower_file_st[OF s(1) i])
    apply (rule after_bind, rule after_if)
     apply (rule after_bind, rule set_lower_file_st[OF s(1) i])
     apply (rule put, assumption, assumption)
     apply (rule free[where \<sigma> = ?\<tau> and j = "i\<lparr>lower_file := 0\<rparr>"], assumption)
       apply (rule finite_f_set[OF s(2)])
      apply simp
     apply simp
    apply (rule after_return, rule free[OF s(1,2) i])
    apply simp
    done
qed

lemma dentry_open_st:
  assumes s: "st \<sigma> K {} s" "path_refs p \<subseteq># K"
    and Q: "\<And>r s'. - 4095 \<le> r \<Longrightarrow> r \<le> 0 \<Longrightarrow> st \<sigma> K {} s' \<Longrightarrow> Q r s'"
      "\<And>r s'. 0 < r \<Longrightarrow> st \<sigma> (add_mset (RFile r) K) {} s' \<Longrightarrow> Q r s'"
  shows "after (kcall (DentryOpen p flags cred)) Q s"
proof -
  let ?r = "kret s (DentryOpen p flags cred)"
  let ?K = "if 0 < ?r then add_mset (RFile ?r) K else K"
  have "st \<sigma> ?K {} (log_call (DentryOpen p flags cred) ?r s)"
    by (rule st_log_call[OF s(1)]) (use s(2) in \<open>simp_all add: hands_over_def\<close>)
  moreover have "- 4095 \<le> ?r"
    using s(1) by (simp add: st_def vfs_kernel_def kret_def)
  ultimately show ?thesis
    using Q by (simp add: after_def kcall_def split: if_splits)
qed

lemma linked_f_set [simp]: "stands_on (f_set f x \<sigma>) = stands_on \<sigma>"
  by (intro ext) (simp only: stands_on_def f_set_simps)

text \<open>
  Opening: the file has a structure exactly when no error is returned, and the lower file it was given
  is the module's.
\<close>

lemma wrapfs_open_sound:
  assumes "sound s" "private_data s filp = None" "\<And>l. bound s (k_view (kern s) l (FDentry filp))"
  shows "after (wrapfs_open inode filp)
    (\<lambda>r s'. sound s' \<and> (private_data s' filp = None \<longleftrightarrow> r \<noteq> 0)) s"
    (is "after _ ?Q s")
proof -
  note [simp del] = stored_priv finite_priv_priv
  note s = sound_st[OF assms(1)]
  let ?i = "\<lambda>a f. \<lparr>fi_addr = a, lower_file = f, lower_vm_ops = 0\<rparr>"
  let ?\<tau> = "\<lambda>a f. f_set filp (Some (?i a f)) (priv s)"
  have none: "private_data (priv s) filp = None"
    using assms(2) by (simp add: priv_def)
  have \<tau>: "stored (?\<tau> a f) = add_mset (RMem a) (ref_if RFile f + stored (priv s))"
    "finite_priv (?\<tau> a f)" for a f
    using stored_f_set[OF s(2)] s(2) by (simp_all add: f_owns_def f_set_same[OF none])
  have fail: "after (do { _ \<leftarrow> free_file_info filp; ret err }) ?Q t"
    if "st (?\<tau> a 0) (stored (?\<tau> a 0)) {} t" "err \<noteq> 0" for a err t
    by (rule after_bind, rule after_mono, rule free_file_info_st[OF that(1) \<tau>(2), of filp "?i a 0"])
      (use that(2) in \<open>auto intro!: after_return\<close>)
  have fail': "after (free_file_info filp) (\<lambda>_. after (ret err) ?Q) t"
    if "st (?\<tau> a 0) (stored (?\<tau> a 0)) {} t" "err \<noteq> 0" for a err t
    by (rule after_mono, rule free_file_info_st[OF that(1) \<tau>(2), of filp "?i a 0"])
      (use that(2) in \<open>auto intro!: after_return\<close>)
  have sound_none: "sound (t\<lparr>private_data := (private_data t)(filp := None)\<rparr>)"
    if "st (priv s) (stored (priv s)) {} t" for t
    using st_sound[OF f_set_st[OF that, of filp None, unfolded f_set_same[OF none]] s(2)]
    by (simp add: f_set_def)
  have new: "st (?\<tau> a 0) (stored (?\<tau> a 0)) {} (t\<lparr>private_data := (private_data t)(filp \<mapsto> ?i a 0)\<rparr>)"
    if "st (priv s) (add_mset (RMem a) (stored (priv s))) {} t" for a t
    using f_set_st[OF that, of filp "Some (?i a 0)"] by (simp add: \<tau>) (simp add: f_set_def)
  have ok: "after (do {
         li \<leftarrow> wrapfs_lower_inode inode;
         _ \<leftarrow> kcall (Copy AttrAll inode li);
         ret () } \<bind> (\<lambda>_. ret 0)) ?Q t"
    if "st (?\<tau> a f) (stored (?\<tau> a f)) {} t" for a f t
  proof (rule after_bind, rule quiet_st[OF _ that, where U = "{}"])
    fix r s'
    assume u: "st (?\<tau> a f) (stored (?\<tau> a f)) {} s'"
    have "private_data s' filp \<noteq> None"
      using st_fields(3)[OF u] by simp
    then show "after (ret 0) ?Q s'"
      using st_sound[OF u \<tau>(2)] by (simp add: after_return)
  qed (intro unchanging, simp_all)
  have alloc: "after (kcall Kzalloc) Q s"
    if "\<And>s'. st (priv s) (stored (priv s)) {} s' \<Longrightarrow> Q 0 s'"
      "\<And>a s'. a \<noteq> 0 \<Longrightarrow> st (priv s) (add_mset (RMem a) (stored (priv s))) {} s' \<Longrightarrow> Q a s'" for Q
    by (rule kcall_st[OF s(1), where K' = "\<lambda>r. if r = 0 then stored (priv s) else
          add_mset (RMem r) (stored (priv s))"])
      (use that in \<open>auto simp: hands_over_def split: if_splits\<close>)
  have body: "after (do {
         dentry \<leftarrow> peek (FDentry filp);
         p \<leftarrow> wrapfs_get_lower_path dentry;
         flags \<leftarrow> peek (FFlags filp);
         cred \<leftarrow> peek CurrentCred;
         lf \<leftarrow> kcall (DentryOpen p flags cred);
         _ \<leftarrow> kcall (PathPut p);
         err \<leftarrow> (if IS_ERR lf then do {
                  old \<leftarrow> wrapfs_lower_file filp;
                  _ \<leftarrow> (if old \<noteq> 0 then do {
                         wrapfs_set_lower_file filp 0;
                         kcall (Fput old) }
                       else ret 0);
                  ret (to_int lf) }
                else do {
                  wrapfs_set_lower_file filp lf;
                  ret 0 });
         _ \<leftarrow> (if err \<noteq> 0 then free_file_info filp
              else do {
                li \<leftarrow> wrapfs_lower_inode inode;
                _ \<leftarrow> kcall (Copy AttrAll inode li);
                ret () });
         ret err }) ?Q t" if t: "st (?\<tau> a 0) (stored (?\<tau> a 0)) {} t" for a t
  proof -
    let ?d = "kview t (FDentry filp)"
    have "bound s ?d"
      using assms(3) st_fields(7)[OF t] by (simp add: kview_def priv_def)
    then obtain p where p: "stands_on (priv s) (stored (priv s)) ?d p"
      using bound_linked[OF assms(1)] by blast
    have l: "stands_on (?\<tau> a 0) (stored (?\<tau> a 0)) ?d p"
      unfolding linked_f_set by (rule linked_mono[OF p]) (simp add: \<tau>)
    have set: "after (wrapfs_set_lower_file filp f) Q u"
      if u: "st (?\<tau> a 0) (ref_if RFile f + stored (?\<tau> a 0)) {} u"
        "\<And>s'. st (?\<tau> a f) (stored (?\<tau> a f)) {} s' \<Longrightarrow> Q () s'" for f Q u
    proof (rule set_lower_file_st[OF u(1), of filp "?i a 0"])
      fix s'
      assume "st (f_set filp (Some (?i a 0\<lparr>lower_file := f\<rparr>)) (?\<tau> a 0))
        (ref_if RFile f + stored (?\<tau> a 0)) {} s'"
      then show "Q () s'"
        by (intro u(2)) (simp add: \<tau>)
    qed simp
    have good: "after (wrapfs_set_lower_file filp f \<bind> (\<lambda>_. ret 0)) (\<lambda>err. after (do {
         _ \<leftarrow> (if err \<noteq> 0 then free_file_info filp
              else do {
                li \<leftarrow> wrapfs_lower_inode inode;
                _ \<leftarrow> kcall (Copy AttrAll inode li);
                ret () });
         ret err }) ?Q) u" if "st (?\<tau> a 0) (ref_if RFile f + stored (?\<tau> a 0)) {} u" for f u
      apply (rule after_bind, rule set[OF that], rule after_return)
      apply (simp only: simp_thms if_False)
      apply (erule ok)
      done
    show ?thesis
      apply (rule after_bind, rule after_peek, hypsubst)
      apply (rule after_bind, rule get_lower_path_st[OF t l], simp)
      apply (rule after_bind, rule peek_any, rule after_bind, rule peek_any)
      apply (rule after_bind, rule dentry_open_st, assumption)
        apply simp
       apply (rule after_bind, rule path_put_st, assumption)
         apply simp
        apply simp
       apply (rule after_bind, rule after_if)
        apply (rule after_bind, rule lower_file_st, assumption, simp)
        apply (rule after_bind, simp, rule after_return, rule after_return)
        apply (rule after_bind, rule after_if)
         apply (rule fail'[where a = a], simp, simp add: IS_ERR_def)
        apply (simp add: IS_ERR_def)
       apply (rule good, simp add: IS_ERR_def)
      apply (rule after_bind, rule path_put_st, assumption)
        apply (simp add: subset_mset.add_increasing2)
       apply simp
      apply (rule after_bind, rule after_if, simp add: IS_ERR_def)
      apply (rule good, simp)
      done
  qed
  show ?thesis
    unfolding wrapfs_open_def
    apply (rule after_bind, rule peek_any, rule after_bind, rule peek_any)
    apply (rule after_if, rule after_return, simp add: assms(1,2))
    apply (rule after_bind, rule alloc)
     apply (rule after_bind, rule after_modify, simp only: simp_thms if_True, rule after_return)
     apply (simp add: sound_none)
    apply (rule after_bind, rule after_modify, simp only: if_False)
    apply (rule body, rule new, assumption)
    done
qed

end
