(* ===== verification/Wrapfs_Super.thy ===== *)
theory Wrapfs_Super
  imports Wrapfs_File
begin

text \<open>
  \<open>src/wrapfs/super.c\<close> and \<open>main.c\<close>: super blocks, the caches of inodes, mounting
  (\<open>wrapfs_read_super\<close>), and loading and unloading the module.
\<close>

section \<open>Super blocks\<close>

definition free_sb_info :: "int \<Rightarrow> unit prog" where
  "free_sb_info sb = do {
     info \<leftarrow> WRAPFS_SB sb;
     _ \<leftarrow> kcall (Kfree (si_addr info));
     modify (\<lambda>s. s\<lparr>s_fs_info := (s_fs_info s)(sb := None)\<rparr>) }"

definition wrapfs_put_super :: "int \<Rightarrow> unit prog" where
  "wrapfs_put_super sb = do {
     spd \<leftarrow> gets (\<lambda>s. s_fs_info s sb);
     (case spd of
        None \<Rightarrow> ret ()
      | Some i \<Rightarrow> do {
          lsb \<leftarrow> wrapfs_lower_super sb;
          wrapfs_set_lower_super sb 0;
          _ \<leftarrow> kcall (SActiveDec lsb);
          free_sb_info sb }) }"

definition wrapfs_statfs :: "int \<Rightarrow> int \<Rightarrow> int prog" where
  "wrapfs_statfs dentry buf = do {
     p \<leftarrow> wrapfs_get_lower_path dentry;
     err \<leftarrow> kcall (Lower (VfsStatfs p buf));
     _ \<leftarrow> wrapfs_put_lower_path dentry p;
     _ \<leftarrow> kcall (Assign BufFType buf 0xb550ca10);
     ret err }"

definition wrapfs_remount_fs :: "int \<Rightarrow> int \<Rightarrow> int prog" where
  "wrapfs_remount_fs sb flags =
     ret (if flags AND NOT (MS_RDONLY OR MS_MANDLOCK OR MS_SILENT) \<noteq> 0 then - EINVAL else 0)"

definition wrapfs_evict_inode :: "int \<Rightarrow> int prog" where
  "wrapfs_evict_inode inode = do {
     _ \<leftarrow> kcall (TruncatePages inode);
     _ \<leftarrow> kcall (ClearInode inode);
     li \<leftarrow> wrapfs_lower_inode inode;
     wrapfs_set_lower_inode inode 0;
     kcall (Iput li) }"

definition wrapfs_alloc_inode :: "int \<Rightarrow> int prog" where
  "wrapfs_alloc_inode sb = do {
     c \<leftarrow> gets wrapfs_inode_cachep;
     i \<leftarrow> kcall (CacheAlloc c);
     if i = 0 then ret 0
     else do {
       wrapfs_set_lower_inode i 0;
       _ \<leftarrow> kcall (Assign IVersion i 1);
       ret i } }"

definition wrapfs_destroy_inode :: "int \<Rightarrow> int prog" where
  "wrapfs_destroy_inode inode = do {
     c \<leftarrow> gets wrapfs_inode_cachep;
     kcall (CacheFree c inode) }"

definition wrapfs_init_inode_cache :: "int prog" where
  "wrapfs_init_inode_cache = do {
     c \<leftarrow> kcall (CacheCreate True);
     modify (\<lambda>s. s\<lparr>wrapfs_inode_cachep := c\<rparr>);
     ret (if c = 0 then - ENOMEM else 0) }"

definition wrapfs_destroy_inode_cache :: "int prog" where
  "wrapfs_destroy_inode_cache = do {
     c \<leftarrow> gets wrapfs_inode_cachep;
     if c \<noteq> 0 then kcall (CacheDestroy c) else ret 0 }"

definition wrapfs_umount_begin :: "int \<Rightarrow> int prog" where
  "wrapfs_umount_begin sb = do {
     lsb \<leftarrow> wrapfs_lower_super sb;
     has \<leftarrow> peek (HasUmountBegin lsb);
     if lsb \<noteq> 0 \<and> has \<noteq> 0 then kcall (Lower (UmountBegin lsb)) else ret 0 }"

text \<open>For NFS: the inode of a lower inode number. \<open>ilookup\<close> returns a reference, or null.\<close>

definition wrapfs_nfs_get_inode :: "int \<Rightarrow> int \<Rightarrow> int \<Rightarrow> int prog" where
  "wrapfs_nfs_get_inode sb ino generation = do {
     lsb \<leftarrow> wrapfs_lower_super sb;
     li \<leftarrow> kcall (Ilookup lsb ino);
     wrapfs_iget sb li }"

section \<open>Mounting\<close>

text \<open>
  The error exits of \<open>wrapfs_read_super\<close>, in the order its labels have them: each runs all that
  follow it.
\<close>

definition read_super_out_free :: "int \<Rightarrow> lpath \<Rightarrow> int \<Rightarrow> int prog" where
  "read_super_out_free sb p err = do {
     _ \<leftarrow> kcall (PathPut p);
     ret err }"

definition read_super_out_sput :: "int \<Rightarrow> int \<Rightarrow> lpath \<Rightarrow> int \<Rightarrow> int prog" where
  "read_super_out_sput sb lsb p err = do {
     _ \<leftarrow> kcall (SActiveDec lsb);
     free_sb_info sb;
     read_super_out_free sb p err }"

definition read_super_out_iput :: "int \<Rightarrow> int \<Rightarrow> lpath \<Rightarrow> int \<Rightarrow> int \<Rightarrow> int prog" where
  "read_super_out_iput sb lsb p inode err = do {
     _ \<leftarrow> kcall (Iput inode);
     read_super_out_sput sb lsb p err }"

definition read_super_out_freeroot :: "int \<Rightarrow> int \<Rightarrow> lpath \<Rightarrow> int \<Rightarrow> int \<Rightarrow> int \<Rightarrow> int prog" where
  "read_super_out_freeroot sb lsb p inode root err = do {
     _ \<leftarrow> kcall (Dput root);
     read_super_out_iput sb lsb p inode err }"

text \<open>The root inode has been obtained: the root entry is made and linked to the lower path.\<close>

definition read_super_root :: "int \<Rightarrow> int \<Rightarrow> lpath \<Rightarrow> int \<Rightarrow> int prog" where
  "read_super_root sb lsb p inode = do {
     root \<leftarrow> kcall (DMakeRoot inode);
     _ \<leftarrow> kcall (Assign SRoot sb root);
     if root = 0 then read_super_out_iput sb lsb p inode (- ENOMEM)
     else do {
       _ \<leftarrow> kcall (DSetDOp root);
       modify (\<lambda>s. s\<lparr>d_fsdata := (d_fsdata s)(root := None)\<rparr>);
       err \<leftarrow> new_dentry_private_data root;
       if err \<noteq> 0 then read_super_out_freeroot sb lsb p inode root err
       else do {
         _ \<leftarrow> wrapfs_set_lower_path root p;
         _ \<leftarrow> kcall (DRehash root);
         ret 0 } } }"

definition wrapfs_read_super :: "int \<Rightarrow> int \<Rightarrow> int \<Rightarrow> int prog" where
  "wrapfs_read_super sb dev_name silent = do {
     if dev_name = 0 then ret (- EINVAL)
     else do {
       err \<leftarrow> kcall (KernPath dev_name (LOOKUP_FOLLOW OR LOOKUP_DIRECTORY));
       if err \<noteq> 0 then ret err
       else do {
         ld \<leftarrow> peek OutDentry;
         lm \<leftarrow> peek OutMnt;
         let p = path_of ld lm;
         _ \<leftarrow> kcall (GotPath p);
         a \<leftarrow> kcall Kzalloc;
         modify (\<lambda>s. s\<lparr>s_fs_info := (s_fs_info s)(sb :=
           (if a = 0 then None else Some \<lparr>si_addr = a, lower_sb = 0\<rparr>))\<rparr>);
         if a = 0 then read_super_out_free sb p (- ENOMEM)
         else do {
           lsb \<leftarrow> peek (DSb (p_dentry p));
           _ \<leftarrow> kcall (SActiveInc lsb);
           wrapfs_set_lower_super sb lsb;
           maxbytes \<leftarrow> peek (SMaxbytesOf lsb);
           _ \<leftarrow> kcall (Assign SMaxbytes sb maxbytes);
           _ \<leftarrow> kcall (Assign STimeGran sb 1);
           _ \<leftarrow> kcall (Assign SOp sb main_ops);
           _ \<leftarrow> kcall (Assign SXattr sb main_ops);
           _ \<leftarrow> kcall (Assign SExportOp sb main_ops);
           li \<leftarrow> peek (DInode (p_dentry p));
           inode \<leftarrow> wrapfs_iget sb li;
           if IS_ERR inode then read_super_out_sput sb lsb p (to_int inode)
           else read_super_root sb lsb p inode } } } }"

section \<open>The module\<close>

definition init_wrapfs_fs :: "int prog" where
  "init_wrapfs_fs = do {
     err \<leftarrow> wrapfs_init_inode_cache;
     err \<leftarrow> (if err \<noteq> 0 then ret err
            else do {
              err \<leftarrow> wrapfs_init_dentry_cache;
              if err \<noteq> 0 then ret err else kcall RegisterFs });
     _ \<leftarrow> (if err \<noteq> 0 then do {
            _ \<leftarrow> wrapfs_destroy_inode_cache;
            wrapfs_destroy_dentry_cache }
          else ret 0);
     ret err }"

definition exit_wrapfs_fs :: "int prog" where
  "exit_wrapfs_fs = do {
     _ \<leftarrow> wrapfs_destroy_inode_cache;
     _ \<leftarrow> wrapfs_destroy_dentry_cache;
     kcall UnregisterFs }"

end
