(* ===== verification/Wrapfs_Super_Correct.thy ===== *)
theory Wrapfs_Super_Correct
  imports Wrapfs_Lookup_Correct Wrapfs_File_Correct Wrapfs_Super
begin

text \<open>
  Super blocks, eviction, mounting and loading: what keeps the module sound, and the two places that
  do not: a mount that fails when it makes its root entry gives the root inode back twice, and the
  inode of an NFS handle keeps the reference that \<open>ilookup\<close> took.
\<close>

section \<open>Updates of the private data of a super block\<close>

definition s_set :: "int \<Rightarrow> wrapfs_sb_info option \<Rightarrow> kst \<Rightarrow> kst" where
  "s_set f x \<sigma> = \<sigma>\<lparr>s_fs_info := (s_fs_info \<sigma>)(f := x)\<rparr>"

lemma s_set_simps [simp]:
  "d_fsdata (s_set f x \<sigma>) = d_fsdata \<sigma>" "lower_inode (s_set f x \<sigma>) = lower_inode \<sigma>"
  "private_data (s_set f x \<sigma>) = private_data \<sigma>" "s_fs_info (s_set f x \<sigma>) = (s_fs_info \<sigma>)(f := x)"
  "wrapfs_inode_cachep (s_set f x \<sigma>) = wrapfs_inode_cachep \<sigma>"
  "wrapfs_dentry_cachep (s_set f x \<sigma>) = wrapfs_dentry_cachep \<sigma>" "kern (s_set f x \<sigma>) = kern \<sigma>"
  "s_set f y (s_set f x \<sigma>) = s_set f y \<sigma>"
  by (simp_all add: s_set_def)

lemma lower_of_s_set [simp]: "lower_of (s_set f x \<sigma>) = lower_of \<sigma>"
  by (simp add: lower_of_def fun_eq_iff)

lemma finite_s_set [simp]: "finite_priv \<sigma> \<Longrightarrow> finite_priv (s_set f x \<sigma>)"
  by (cases x) (simp_all add: finite_priv_def)

lemma s_set_same: "s_fs_info \<sigma> f = x \<Longrightarrow> s_set f x \<sigma> = \<sigma>"
  by (auto simp: s_set_def fun_upd_idem)

lemma stored_s_free:
  "finite_priv \<sigma> \<Longrightarrow> s_fs_info \<sigma> f = Some i \<Longrightarrow> stored \<sigma> = s_owns i + stored (s_set f None \<sigma>)"
  by (simp add: stored_def finite_priv_def owned_remove[of "s_fs_info \<sigma>" f i])

lemma stored_s_set:
  assumes "finite_priv \<sigma>"
  shows "stored (s_set f (Some i) \<sigma>) = s_owns i + stored (s_set f None \<sigma>)"
  using stored_s_free[of "s_set f (Some i) \<sigma>" f i] assms by simp

lemma s_set_st: "st \<sigma> K W s \<Longrightarrow> st (s_set f x \<sigma>) K W (s_set f x s)"
  by (auto simp: st_def priv_def s_set_def covered_def)

lemma WRAPFS_SB_st: "st \<sigma> K W s \<Longrightarrow> s_fs_info \<sigma> f = Some i \<Longrightarrow> Q i s \<Longrightarrow> after (WRAPFS_SB f) Q s"
  by (rule WRAPFS_SB_wp) (simp_all add: st_fields(4))

lemma lower_super_st:
  "st \<sigma> K W s \<Longrightarrow> s_fs_info \<sigma> f = Some i \<Longrightarrow> Q (lower_sb i) s \<Longrightarrow> after (wrapfs_lower_super f) Q s"
  unfolding wrapfs_lower_super_def by (rule after_bind, rule WRAPFS_SB_st) (auto intro: after_return)

lemma set_lower_super_st:
  assumes s: "st \<sigma> K W s" "s_fs_info \<sigma> f = Some i"
    and Q: "\<And>s'. st (s_set f (Some (i\<lparr>lower_sb := v\<rparr>)) \<sigma>) K W s' \<Longrightarrow> Q () s'"
  shows "after (wrapfs_set_lower_super f v) Q s"
  unfolding wrapfs_set_lower_super_def
  by (rule after_bind, rule WRAPFS_SB_st[OF s], rule after_modify)
    (use Q s_set_st[OF s(1)] in \<open>auto simp: s_set_def\<close>)

lemma s_active_dec_st:
  assumes "st \<sigma> (add_mset (RSuper a) K) W s" "pinned W K" "\<And>r s'. st \<sigma> K W s' \<Longrightarrow> Q r s'"
  shows "after (kcall (SActiveDec a)) Q s"
  by (rule kcall_st[OF assms(1)])
    (use assms in \<open>auto simp: hands_over_def stays_def pinned_def Suc_le_eq\<close>)

lemma s_active_inc_st:
  assumes "st \<sigma> K W s" "a \<noteq> 0" "pinned W K"
    "\<And>r s'. st \<sigma> (add_mset (RSuper a) K) W s' \<Longrightarrow> Q r s'"
  shows "after (kcall (SActiveInc a)) Q s"
  by (rule kcall_st[OF assms(1)])
    (use assms in \<open>auto simp: hands_over_def stays_def pinned_def Suc_le_eq\<close>)

lemma free_sb_info_st:
  assumes t: "st \<sigma> (X + stored \<sigma>) {} t" "finite_priv \<sigma>" "s_fs_info \<sigma> sb = Some i" "lower_sb i = 0"
    and Q: "\<And>s'. st (s_set sb None \<sigma>) (X + stored (s_set sb None \<sigma>)) {} s' \<Longrightarrow> Q () s'"
  shows "after (free_sb_info sb) Q t"
proof -
  have k: "X + stored \<sigma> = add_mset (RMem (si_addr i)) (X + stored (s_set sb None \<sigma>))"
    using stored_s_free[OF t(2,3)] t(4) by (simp add: s_owns_def)
  have m: "Q () (u\<lparr>s_fs_info := (s_fs_info u)(sb := None)\<rparr>)"
    if "st \<sigma> (X + stored (s_set sb None \<sigma>)) {} u" for u
    using Q[OF s_set_st[OF that]] by (simp add: s_set_def)
  show ?thesis
    unfolding free_sb_info_def
    by (intro after_bind WRAPFS_SB_st[OF t(1,3)] kfree_st[OF t(1)[unfolded k]] after_modify m) simp_all
qed

section \<open>Operations of super blocks\<close>

lemma wrapfs_put_super_sound:
  assumes "sound s" "\<And>i. s_fs_info s sb = Some i \<Longrightarrow> lower_sb i \<noteq> 0"
  shows "after (wrapfs_put_super sb) (\<lambda>r s'. sound s' \<and> s_fs_info s' sb = None) s"
proof -
  note [simp del] = stored_priv finite_priv_priv
  note s = sound_st[OF assms(1)]
  show ?thesis
  proof (cases "s_fs_info s sb")
    case None
    then show ?thesis
      using assms(1) by (simp add: wrapfs_put_super_def after_def gets_def)
  next
    case (Some i)
    then have i: "s_fs_info (priv s) sb = Some i" "lower_sb i \<noteq> 0"
      using assms(2) by (simp_all add: priv_def)
    let ?\<tau> = "s_set sb (Some (i\<lparr>lower_sb := 0\<rparr>)) (priv s)"
    have \<tau>: "stored (priv s) = add_mset (RSuper (lower_sb i)) (stored ?\<tau>)"
      using i(2) stored_s_free[OF s(2) i(1)] stored_s_set[OF s(2), of sb "i\<lparr>lower_sb := 0\<rparr>"]
      by (simp add: s_owns_def)
    have end1: "after (free_sb_info sb) (\<lambda>r s'. sound s' \<and> s_fs_info s' sb = None) t"
      if "st ?\<tau> (stored ?\<tau>) {} t" for t
    proof (rule free_sb_info_st[where X = "{#}" and \<sigma> = ?\<tau> and i = "i\<lparr>lower_sb := 0\<rparr>"])
      fix u
      assume u: "st (s_set sb None ?\<tau>) ({#} + stored (s_set sb None ?\<tau>)) {} u"
      then show "sound u \<and> s_fs_info u sb = None"
        using st_sound[of "s_set sb None ?\<tau>" "{}" u] s(2) st_fields(4)[OF u] by simp
    qed (use that s(2) in simp_all)
    have m: "after (do {
          lsb \<leftarrow> wrapfs_lower_super sb;
          wrapfs_set_lower_super sb 0;
          _ \<leftarrow> kcall (SActiveDec lsb);
          free_sb_info sb }) (\<lambda>r s'. sound s' \<and> s_fs_info s' sb = None) s"
      apply (rule after_bind, rule lower_super_st[OF s(1) i(1)])
      apply (rule after_bind, rule set_lower_super_st[OF s(1) i(1)])
      apply (rule after_bind, rule s_active_dec_st, simp only: \<tau>, simp)
      apply (erule end1)
      done
    show ?thesis
      using m Some by (simp add: wrapfs_put_super_def after_def gets_def)
  qed
qed

lemma wrapfs_statfs_sound:
  assumes "sound s" "bound s dentry"
  shows "after (wrapfs_statfs dentry buf) (\<lambda>r. sound) s"
proof -
  note s = sound_st[OF assms(1)]
  obtain p where p: "stands_on (priv s) (stored (priv s)) dentry p"
    using bound_linked[OF assms] .
  note [simp del] = stored_priv
  show ?thesis
    unfolding wrapfs_statfs_def wrapfs_put_lower_path_def
    apply (rule after_bind, rule get_lower_path_st[OF s(1) p s(3)])
    apply (rule after_bind, rule lower_quiet_st, assumption)
       apply (simp add: linked_dentry[OF p])
      apply simp
     apply simp
    apply (rule after_bind, rule path_put_st, assumption, simp, simp)
    apply (rule after_bind, rule quiet_st[where U = "{}"], rule unchanging, assumption, simp, simp)
    apply (rule after_return, rule st_sound[OF _ s(2)], simp)
    done
qed

lemma wrapfs_umount_begin_sound:
  assumes "sound s" "s_fs_info s sb = Some i"
  shows "after (wrapfs_umount_begin sb) (\<lambda>r. sound) s"
proof -
  note [simp del] = stored_priv
  note s = sound_st[OF assms(1)]
  have i: "s_fs_info (priv s) sb = Some i"
    using assms(2) by (simp add: priv_def)
  have holding: "RSuper (lower_sb i) \<in># stored (priv s)" if "lower_sb i \<noteq> 0"
    using stored_s_free[OF s(2) i] that by (simp add: s_owns_def)
  show ?thesis
    unfolding wrapfs_umount_begin_def
    apply (rule after_bind, rule lower_super_st[OF s(1) i])
    apply (rule after_bind, rule peek_any, rule after_if)
     apply (rule lower_quiet_st[OF s(1)])
        apply (simp add: holding)
       apply simp
      apply simp
     apply (erule st_sound, rule s(2))
    apply (rule after_return, rule assms(1))
    done
qed

section \<open>Evicting an inode\<close>

lemma stored_i_free:
  assumes "finite_priv \<sigma>"
  shows "stored \<sigma> = ref_if RInode (lower_inode \<sigma> i) + stored (\<sigma>\<lparr>lower_inode := (lower_inode \<sigma>)(i := 0)\<rparr>)"
    "finite_priv (\<sigma>\<lparr>lower_inode := (lower_inode \<sigma>)(i := 0)\<rparr>)"
proof -
  let ?\<tau> = "\<sigma>\<lparr>lower_inode := (lower_inode \<sigma>)(i := 0)\<rparr>"
  have m: "lower_of ?\<tau> = (lower_of \<sigma>)(i := None)"
    by (auto simp: lower_of_def fun_eq_iff)
  have f: "finite (dom (lower_of \<sigma>))"
    using assms by (simp add: finite_priv_def)
  have "owned_by (lower_of \<sigma>) (\<lambda>i. {#RInode i#}) =
      ref_if RInode (lower_inode \<sigma> i) + owned_by ((lower_of \<sigma>)(i := None)) (\<lambda>i. {#RInode i#})"
  proof (cases "lower_inode \<sigma> i = 0")
    case True
    then have "(lower_of \<sigma>)(i := None) = lower_of \<sigma>"
      by (auto simp: lower_of_def fun_eq_iff)
    then show ?thesis
      using True by simp
  next
    case False
    then have "lower_of \<sigma> i = Some (lower_inode \<sigma> i)"
      by (simp add: lower_of_def)
    from owned_remove[OF f this] False show ?thesis
      by simp
  qed
  then show "stored \<sigma> = ref_if RInode (lower_inode \<sigma> i) + stored ?\<tau>"
    by (simp add: stored_def m)
  show "finite_priv ?\<tau>"
    using assms by (simp add: finite_priv_def m)
qed

text \<open>
  Evicting gives back the reference to the lower inode and leaves the inode standing for none.
\<close>

lemma wrapfs_evict_inode_sound:
  assumes "sound s"
  shows "after (wrapfs_evict_inode inode) (\<lambda>r s'. sound s' \<and> lower_inode s' inode = 0) s"
proof -
  note s = sound_st[OF assms]
  let ?li = "lower_inode s inode"
  let ?up = "\<lambda>u. u\<lparr>lower_inode := (lower_inode u)(inode := 0)\<rparr>"
  have fr: "stored s = ref_if RInode ?li + stored (?up s)" "finite_priv (?up s)"
    using stored_i_free[of s inode] s(2) by simp_all
  have h: "holding s = Some (ref_if RInode ?li + stored (?up s) + handed (calls s))"
    using assms fr(1) by (simp add: sound_def tidy_def)
  have "sound (log_call (Iput ?li) r3 (?up (log_call (ClearInode inode) r2
      (log_call (TruncatePages inode) r1 s))))" (is "sound ?u") for r1 r2 r3
  proof -
    have "stored ?u = stored (?up s)"
      using stored_priv[of ?u] stored_priv[of "?up s"] by (simp add: priv_def log_call_def)
    moreover have "finite_priv ?u"
      using finite_priv_priv[of ?u] finite_priv_priv[of "?up s"] fr(2)
      by (simp add: priv_def log_call_def)
    moreover have "holding ?u = Some (stored (?up s) + handed (calls ?u))"
      using h by (auto simp: ref_if_def)
    moreover have "covered ?u"
      using assms by (auto simp: sound_def tidy_def covered_def)
    ultimately show ?thesis
      using assms by (simp add: sound_def tidy_def)
  qed
  then show ?thesis
    by (simp add: wrapfs_evict_inode_def after_def kcall_def wrapfs_lower_inode_def gets_def
      wrapfs_set_lower_inode_def modify_def)
qed

section \<open>Mounting\<close>

lemma kzalloc_st:
  assumes s: "st \<sigma> K W s" "pinned W K"
    and Q: "\<And>s'. st \<sigma> K W s' \<Longrightarrow> Q 0 s'" "\<And>a s'. a \<noteq> 0 \<Longrightarrow> st \<sigma> (add_mset (RMem a) K) W s' \<Longrightarrow> Q a s'"
  shows "after (kcall Kzalloc) Q s"
  by (rule kcall_st[OF s(1), where K' = "\<lambda>r. if r = 0 then K else add_mset (RMem r) K"])
    (use s(2) Q in \<open>auto simp: hands_over_def stays_def pinned_def Suc_le_eq split: if_splits\<close>)

lemma make_root_st:
  assumes s: "st \<sigma> (add_mset (RInode i) K) W s" and p: "pinned W K"
    and Q: "\<And>s'. st \<sigma> K W s' \<Longrightarrow> Q (kret s (DMakeRoot i)) s'"
  shows "after (kcall (DMakeRoot i)) Q s"
proof -
  have "st \<sigma> K W (log_call (DMakeRoot i) r s)" for r
    by (rule st_log_held[OF s])
      (use p in \<open>auto simp: stays_def pinned_def Suc_le_eq gain_def\<close>)
  then show ?thesis
    using Q by (simp add: after_def kcall_def)
qed

lemma mount_exit:
  assumes s: "st \<sigma> (path_refs p + stored \<sigma>) W s" "finite_priv \<sigma>" "s_fs_info \<sigma> sb = Some i" "lower_sb i = lsb"
    "lsb \<noteq> 0"
  shows "after (read_super_out_sput sb lsb p err) (\<lambda>r. sound) s"
proof -
  note [simp del] = stored_priv finite_priv_priv
  let ?\<tau> = "s_set sb (Some (i\<lparr>lower_sb := 0\<rparr>)) \<sigma>"
  have "s_owns i = add_mset (RSuper lsb) {#RMem (si_addr i)#}"
    using s(4,5) by (simp add: s_owns_def)
  then have k: "stored \<sigma> = add_mset (RSuper lsb) (add_mset (RMem (si_addr i)) (stored (s_set sb None \<sigma>)))"
    using stored_s_free[OF s(2,3)] by simp
  have out: "after (read_super_out_free sb p err) (\<lambda>r. sound) t"
    if "st (s_set sb None \<sigma>) (path_refs p + stored (s_set sb None \<sigma>)) {} t" for t
    unfolding read_super_out_free_def
    apply (rule after_bind, rule path_put_st[OF that], simp, simp)
    apply (rule after_return, rule st_sound[of "s_set sb None \<sigma>"], simp, simp add: s(2))
    done
  have mem: "after (free_sb_info sb) (\<lambda>_. after (read_super_out_free sb p err) (\<lambda>r. sound)) t"
    if t: "st \<sigma> (path_refs p + add_mset (RMem (si_addr i)) (stored (s_set sb None \<sigma>))) {} t" for t
  proof -
    have t': "st \<sigma> (add_mset (RMem (si_addr i)) (path_refs p + stored (s_set sb None \<sigma>))) {} t"
      using t by simp
    have m: "after (read_super_out_free sb p err) (\<lambda>r. sound)
        (u\<lparr>s_fs_info := (s_fs_info u)(sb := None)\<rparr>)"
      if "st \<sigma> (path_refs p + stored (s_set sb None \<sigma>)) {} u" for u
      using out[OF s_set_st[OF that]] by (simp add: s_set_def)
    show ?thesis
      unfolding free_sb_info_def
      by (intro after_bind WRAPFS_SB_st[OF t s(3)] kfree_st[OF t'] after_modify m) simp_all
  qed
  have t: "st \<sigma> (add_mset (RSuper lsb) (path_refs p + add_mset (RMem (si_addr i)) (stored (s_set sb None \<sigma>)))) {} s"
    using st_weaken[OF s(1)] k by simp
  show ?thesis
    unfolding read_super_out_sput_def
    by (rule after_bind, rule s_active_dec_st[OF t], simp, rule after_bind, erule mem)
qed

lemma mount_prefix:
  assumes sound: "sound s" "s_fs_info s sb = None"
    and out: "\<And>r t. sound t \<Longrightarrow> Q r t"
    and root: "\<And>a lsb p inode \<tau> W t. 0 < inode \<Longrightarrow> lsb \<noteq> 0 \<Longrightarrow> p_dentry p \<noteq> 0 \<Longrightarrow> p_mnt p \<noteq> 0 \<Longrightarrow>
      d_fsdata \<tau> = d_fsdata (priv s) \<Longrightarrow> kern \<tau> = kern s \<Longrightarrow>
      s_fs_info \<tau> sb = Some \<lparr>si_addr = a, lower_sb = lsb\<rparr> \<Longrightarrow> finite_priv \<tau> \<Longrightarrow>
      st \<tau> (add_mset (RInode inode) (path_refs p + stored \<tau>)) W t \<Longrightarrow> pinned W (path_refs p) \<Longrightarrow>
      after (read_super_root sb lsb p inode) Q t"
  shows "after (wrapfs_read_super sb dev_name silent) Q s"
proof (cases "dev_name = 0")
  case True
  then show ?thesis
    by (simp add: wrapfs_read_super_def after_return out sound(1))
next
  case False
  note [simp del] = stored_priv finite_priv_priv
  note s = sound_st[OF sound(1)]
  have none: "s_fs_info (priv s) sb = None"
    using sound(2) by (simp add: priv_def)
  let ?i = "\<lambda>a f. \<lparr>si_addr = a, lower_sb = f\<rparr>"
  let ?\<tau> = "\<lambda>a f. s_set sb (Some (?i a f)) (priv s)"
  have \<tau>: "stored (?\<tau> a f) = add_mset (RMem a) (ref_if RSuper f + stored (priv s))"
    "finite_priv (?\<tau> a f)" for a f
    using stored_s_set[OF s(2)] s(2) by (simp_all add: s_owns_def s_set_same[OF none])
  have fail: "after (read_super_out_free sb p err) Q (t\<lparr>s_fs_info := (s_fs_info t)(sb := None)\<rparr>)"
    if "st (priv s) (path_refs p + stored (priv s)) W t" for p err W t
  proof -
    have t: "st (priv s) (path_refs p + stored (priv s)) {} (t\<lparr>s_fs_info := (s_fs_info t)(sb := None)\<rparr>)"
      using s_set_st[OF st_weaken[OF that], of sb None]
      unfolding s_set_same[OF none] by (simp add: s_set_def)
    show ?thesis
      unfolding read_super_out_free_def
      by (rule after_bind, rule path_put_st[OF t], simp, simp, rule after_return, rule out,
          rule st_sound[OF _ s(2)], simp)
  qed
  have new: "st (?\<tau> a 0) (path_refs p + stored (?\<tau> a 0)) W (t\<lparr>s_fs_info := (s_fs_info t)(sb \<mapsto> ?i a 0)\<rparr>)"
    if "st (priv s) (add_mset (RMem a) (path_refs p + stored (priv s))) W t" for p a W t
    using s_set_st[OF that, of sb "Some (?i a 0)"] by (simp add: \<tau>) (simp add: s_set_def)
  have body: "after (do {
           lsb \<leftarrow> peek (DSb (p_dentry p));
           _ \<leftarrow> kcall (SActiveInc lsb);
           wrapfs_set_lower_super sb lsb;
           maxbytes \<leftarrow> peek (SMaxbytesOf lsb);
           _ \<leftarrow> kcall (Assign SMaxbytes sb maxbytes);
           _ \<leftarrow> kcall (Assign STimeGran sb 1);
           _ \<leftarrow> kcall (Assign SOp sb main_ops);
           _ \<leftarrow> kcall (Assign SXattr sb main_ops);
           _ \<leftarrow> kcall (Assign SExportOp sb main_ops);
           li \<leftarrow> peek (DInode (p_dentry p));
           inode \<leftarrow> wrapfs_iget sb li;
           if IS_ERR inode then read_super_out_sput sb lsb p (to_int inode)
           else read_super_root sb lsb p inode }) Q t"
    if "st (?\<tau> a 0) (path_refs p + stored (?\<tau> a 0)) {(e, i)} t" "i \<noteq> 0" "p_dentry p \<noteq> 0" "p_mnt p \<noteq> 0"
      "p_dentry p = e" for p a e i t
  proof -
    have t: "st (?\<tau> a 0) (path_refs p + stored (?\<tau> a 0)) {(p_dentry p, i)} t" "i \<noteq> 0" "p_dentry p \<noteq> 0"
      "p_mnt p \<noteq> 0"
      using that by simp_all
    let ?lsb = "kview t (DSb (p_dentry p))" and ?W = "{(p_dentry p, i)}"
    have lsb: "?lsb \<noteq> 0"
      using t(1,3) by (simp add: st_def vfs_kernel_def kview_def)
    let ?K = "path_refs p + stored (?\<tau> a ?lsb)"
    have pin: "pinned ?W (path_refs p)" "pinned ?W ?K"
      using t(3) by simp_all
    have set: "after (wrapfs_set_lower_super sb ?lsb) R u"
      if u: "st (?\<tau> a 0) (add_mset (RSuper ?lsb) (path_refs p + stored (?\<tau> a 0))) ?W u"
        "\<And>s'. st (?\<tau> a ?lsb) ?K ?W s' \<Longrightarrow> R () s'" for R u
    proof (rule set_lower_super_st[OF u(1), of sb "?i a 0"])
      fix s'
      assume "st (s_set sb (Some (?i a 0\<lparr>lower_sb := ?lsb\<rparr>)) (?\<tau> a 0))
        (add_mset (RSuper ?lsb) (path_refs p + stored (?\<tau> a 0))) ?W s'"
      then show "R () s'"
        by (intro u(2)) (simp add: \<tau> lsb add_mset_commute)
    qed simp
    have made: "after (read_super_root sb ?lsb p r) Q u"
      if g: "0 < r" "grown (?\<tau> a ?lsb) L \<upsilon>" "st \<upsilon> (add_mset (RInode r) (L + ?K)) ?W u" for r L \<upsilon> u
    proof (rule root[OF g(1) lsb t(3,4), of \<upsilon> a])
      show "st \<upsilon> (add_mset (RInode r) (path_refs p + stored \<upsilon>)) ?W u"
        using g(2,3) by (simp add: grown_def ac_simps)
    qed (use g(2) pin(1) in \<open>auto simp: grown_def priv_def\<close>)
    show ?thesis
      apply (rule after_bind, rule after_peek, hypsubst)
      apply (rule after_bind, rule s_active_inc_st[OF t(1) lsb], simp add: t(3))
      apply (rule after_bind, rule set, assumption, rule after_bind, rule peek_any)
      apply (rule after_bind, rule quiet_st[where U = "{}" and K = ?K], rule unchanging, assumption, rule pin(2), simp)
      apply (rule after_bind, rule quiet_st[where U = "{}" and K = ?K], rule unchanging, assumption, rule pin(2), simp)
      apply (rule after_bind, rule quiet_st[where U = "{}" and K = ?K], rule unchanging, assumption, rule pin(2), simp)
      apply (rule after_bind, rule quiet_st[where U = "{}" and K = ?K], rule unchanging, assumption, rule pin(2), simp)
      apply (rule after_bind, rule quiet_st[where U = "{}" and K = ?K], rule unchanging, assumption, rule pin(2), simp)
      apply (rule after_bind, rule peek_inode_st, assumption)
      apply (rule after_bind, rule wrapfs_iget_st[where K = ?K], assumption, rule pin(2), rule t(2), rule \<tau>(2))
       apply (simp add: IS_ERR_def, rule after_mono, rule mount_exit, assumption, rule \<tau>(2), simp, simp, rule lsb)
       apply (erule out)
      apply (rule after_if, simp add: IS_ERR_def)
      apply (rule made, assumption, assumption, assumption)
      done
  qed
  show ?thesis
    unfolding wrapfs_read_super_def
    apply (rule after_if, rule after_return, rule out, rule sound(1))
    apply (rule after_bind, rule find_path_st[OF s(1)])
       apply (simp add: finds_path_def)
      apply simp
     apply (rule after_if, simp)
     apply (rule after_bind, rule after_peek, rule after_bind, rule after_peek, rule after_let)
     apply (hypsubst, rule after_bind, rule got_path_st, assumption)
       apply (metis less_numeral_extra(3))
      apply blast
     apply (rule after_bind, rule kzalloc_st, assumption)
       apply (simp, metis less_numeral_extra(3))
      apply (rule after_bind, rule after_modify)
      apply (simp only: simp_thms if_True, rule fail, assumption)
     apply (rule after_bind, rule after_modify)
     apply (simp only: if_False)
     apply (rule body[where p = "path_of _ _"])
         apply (simp only: simp_thms if_False)
         apply (erule new)
        apply assumption
       apply (simp, metis less_numeral_extra(3))
      apply (simp, metis less_numeral_extra(3))
     apply simp
    apply (rule after_if, rule after_return, rule out, erule st_sound, rule s(2))
    apply simp
    done
qed

text \<open>
  The root entry of the mount under way: what \<open>d_make_root\<close> has returned since the path of the lower
  directory was looked up, if it has been called.
\<close>

fun new_root :: "klog \<Rightarrow> int option" where
  "new_root [] = None"
| "new_root ((c, r) # l) = (case c of KernPath nm f \<Rightarrow> None | DMakeRoot i \<Rightarrow> Some r | _ \<Rightarrow> new_root l)"

lemma freeroot_result: "after (read_super_out_freeroot sb lsb p inode root err) (\<lambda>r s'. r = err) s"
  by (auto simp: read_super_out_freeroot_def read_super_out_iput_def read_super_out_sput_def
      read_super_out_free_def free_sb_info_def WRAPFS_SB_def null_deref_def intro!: walk)

lemma read_super_root_log:
  "after (read_super_root sb lsb p inode) (\<lambda>r s'. new_root (calls s') = Some (kret t (DMakeRoot inode)) \<and>
    (kret t (DMakeRoot inode) = 0 \<longrightarrow> r = - ENOMEM)) t"
  unfolding read_super_root_def
  by (rule after_bind, rule after_kcall)
    (auto simp: read_super_out_freeroot_def read_super_out_iput_def read_super_out_sput_def
      read_super_out_free_def free_sb_info_def WRAPFS_SB_def WRAPFS_D_def null_deref_def
      new_dentry_private_data_def wrapfs_set_lower_path_def assign_lower_path_def intro!: walk)

text \<open>
  A mount keeps the module sound, whether it succeeds or fails, unless it fails after \<open>d_make_root\<close> has
  been called. (An entry that has just been made has no private data.)
\<close>

lemma wrapfs_read_super_sound:
  assumes s: "sound s" "s_fs_info s sb = None"
  shows "after (wrapfs_read_super sb dev_name silent) (\<lambda>r s'.
    (\<forall>d. new_root (calls s') = Some d \<longrightarrow> r = 0 \<and> d_fsdata s d = None) \<longrightarrow> sound s') s"
    (is "after _ ?Q s")
proof (rule mount_prefix[OF s])
  note [simp del] = stored_priv finite_priv_priv
  fix a lsb p inode \<tau> W t
  assume p: "p_dentry p \<noteq> 0" "p_mnt p \<noteq> 0" and k: "d_fsdata \<tau> = d_fsdata (priv s)" "kern \<tau> = kern s"
    and \<tau>: "finite_priv \<tau>" and t: "st \<tau> (add_mset (RInode inode) (path_refs p + stored \<tau>)) W t"
    and pin: "pinned W (path_refs p)"
  let ?root = "kret t (DMakeRoot inode)"
  have pin2: "pinned W (path_refs p + stored \<tau>)"
    using pin by (auto simp: pinned_def)
  have k': "kern t = kern s"
    using st_fields(7)[OF t] k(2) by simp
  have pos: "0 \<le> ?root"
    using t by (simp add: st_def vfs_kernel_def kret_def)
  show "after (read_super_root sb lsb p inode) ?Q t"
  proof (cases "?root \<noteq> 0 \<and> d_fsdata s ?root = None")
    case False
    then show ?thesis
      by (intro after_mono[OF read_super_root_log]) auto
  next
    case True
    then have r: "0 < ?root" "d_fsdata \<tau> ?root = None"
      using pos k(1) by (simp_all add: priv_def)
    have same: "d_set ?root None \<tau> = \<tau>"
      using r(2) by (auto simp: d_set_def fun_upd_idem)
    have clear: "st \<tau> K {} (u\<lparr>d_fsdata := (d_fsdata u)(?root := None)\<rparr>)" if "st \<tau> K {} u" for K u
      using d_set_st[OF that, of ?root None] unfolding same by (simp add: d_set_def)
    have link: "after (do { _ \<leftarrow> wrapfs_set_lower_path ?root p; _ \<leftarrow> kcall (DRehash ?root); ret 0 })
        (\<lambda>r s'. r = (0 :: int) \<longrightarrow> sound s') u"
      if \<sigma>: "\<sigma>' = d_set ?root (Some \<lparr>di_addr = a, lower_path = path_of 0 0\<rparr>) \<tau>"
        "st \<sigma>' (path_refs p + stored \<sigma>') {} u" "finite_priv \<sigma>'" for \<sigma>' a u
    proof -
      have i: "d_fsdata \<sigma>' ?root = Some \<lparr>di_addr = a, lower_path = path_of 0 0\<rparr>" (is "_ = Some ?i")
        using \<sigma>(1) by simp
      let ?\<upsilon> = "d_set ?root (Some (?i\<lparr>lower_path := p\<rparr>)) \<sigma>'"
      have "stored ?\<upsilon> = path_refs p + stored \<sigma>'"
        using stored_d_path[OF \<sigma>(3) i, of p] by (simp add: path_refs_def[of "path_of 0 0"])
      moreover have "RMem (di_addr ?i) \<in># stored \<sigma>'"
        using stored_d_free[OF \<sigma>(3) i] by (simp add: d_owns_def)
      ultimately show ?thesis
        using \<sigma>(3)
        by (intro after_bind wrapfs_set_lower_path_st[OF \<sigma>(2) i] neutral_st[where W = "{}"]
            after_return impI st_sound[where \<sigma> = ?\<upsilon> and W = "{}"]) simp_all
    qed
    have out: "after (read_super_out_freeroot sb lsb p inode ?root err) (\<lambda>r s'. r = 0 \<longrightarrow> sound s') u"
      if "err \<noteq> 0" for err u
      by (rule after_mono[OF freeroot_result]) (simp add: that)
    have "after (read_super_root sb lsb p inode) (\<lambda>r s'. r = 0 \<longrightarrow> sound s') t"
      unfolding read_super_root_def
      apply (rule after_bind, rule make_root_st[OF t pin2])
      apply (rule after_bind, rule quiet_st[where U = "{}"], rule unchanging, erule st_weaken, simp, simp)
      apply (rule after_if, simp add: r(1)[THEN less_imp_neq, symmetric])
      apply (rule after_bind, rule quiet_st[where U = "{}"], rule unchanging, assumption, simp, simp)
      apply (rule after_bind, rule after_modify, rule after_bind)
      apply (rule new_dentry_private_data_st[OF clear _ r(2)], assumption, rule \<tau>)
       apply (rule after_if, rule out, assumption, simp)
      apply (rule after_if, simp)
      apply (rule link, assumption, assumption, assumption)
      done
    then show ?thesis
      by (rule after_mono[OF after_conj[THEN iffD2, OF conjI[OF _ read_super_root_log]]]) auto
  qed
qed (blast)

section \<open>A mount that fails to make its root entry\<close>

text \<open>States in which a reference of \<open>K\<close>, the \<open>x\<close>, has been given back that was not the module's.\<close>

definition short :: "res \<Rightarrow> kst \<Rightarrow> res multiset \<Rightarrow> kst \<Rightarrow> bool" where
  "short x \<sigma> K s \<longleftrightarrow> priv s = \<sigma> \<and>
     (holding s = None \<or> (\<exists>H. holding s = Some H \<and> add_mset x H = K + handed (calls s)))"

lemma short_log_call:
  assumes "short x \<sigma> K s" "\<not> is_lock x" "eff c r K = Some K'" "\<not> hands_over c"
  shows "short x \<sigma> K' (log_call c r s)"
proof (cases "holding (log_call c r s)")
  case None
  then show ?thesis
    using assms(1) by (simp add: short_def)
next
  case (Some H')
  then obtain H where H: "holding s = Some H" "eff c r H = Some H'"
    by (auto simp: bind_eq_Some_conv)
  have "eff c r (H + {#x#}) = Some (H' + {#x#})"
    by (rule eff_frame[OF H(2) _ assms(4)]) (simp add: assms(2))
  moreover have "eff c r (K + handed (calls s)) = Some (K' + handed (calls s))"
    by (rule eff_frame[OF assms(3) handed_no_lock assms(4)])
  moreover have "H + {#x#} = K + handed (calls s)"
    using assms(1) H(1) by (simp add: short_def)
  ultimately show ?thesis
    using assms(1) Some handed_log[OF assms(4), of r "calls s"] by (simp add: short_def del: handed.simps)
qed

lemma short_kcall:
  assumes "short x \<sigma> K s" "\<not> is_lock x" "\<And>r. eff c r K = Some K'" "\<not> hands_over c"
    "\<And>r s'. short x \<sigma> K' s' \<Longrightarrow> Q r s'"
  shows "after (kcall c) Q s"
  using assms(5)[OF short_log_call[OF assms(1-4)]] by (simp add: after_def kcall_def)

lemma short_unbalanced: "short x \<sigma> (stored \<sigma>) s \<Longrightarrow>
    holding s \<noteq> Some (stored s + handed (calls s))"
proof
  assume s: "short x \<sigma> (stored \<sigma>) s" "holding s = Some (stored s + handed (calls s))"
  have "stored s = stored \<sigma>"
    using s(1) stored_priv[of s] by (simp add: short_def)
  then show False
    using s by (auto simp: short_def)
qed

text \<open>
  The state in which \<open>wrapfs_read_super\<close> makes the root entry: the lower path and the reference to
  the root inode are held besides what is stored.
\<close>

definition root_ready :: "int \<Rightarrow> int \<Rightarrow> lpath \<Rightarrow> int \<Rightarrow> kst \<Rightarrow> bool" where
  "root_ready sb lsb p inode s \<longleftrightarrow>
     st (priv s) (add_mset (RInode inode) (path_refs p + stored s)) {} s \<and> finite_priv s \<and>
     (\<exists>a. s_fs_info s sb = Some \<lparr>si_addr = a, lower_sb = lsb\<rparr>) \<and> lsb \<noteq> 0 \<and> inode \<noteq> 0"

text \<open>
  \<open>d_make_root\<close> has taken the inode over even when it fails, but the exit taken then puts it again.
\<close>

lemma read_super_root_overputs:
  assumes r: "root_ready sb lsb p inode s" and fails: "kret s (DMakeRoot inode) = 0"
  shows "after (read_super_root sb lsb p inode) (\<lambda>r s'. r = - ENOMEM \<and> holding s' \<noteq> Some (stored s' + handed (calls s'))) s"
proof -
  note [simp del] = stored_priv finite_priv_priv
  let ?\<sigma> = "priv s" and ?x = "RInode inode"
  obtain a where i: "s_fs_info ?\<sigma> sb = Some \<lparr>si_addr = a, lower_sb = lsb\<rparr>" (is "_ = Some ?i")
    and t: "st ?\<sigma> (add_mset ?x (path_refs p + stored ?\<sigma>)) {} s" and f: "finite_priv ?\<sigma>"
    and nz: "lsb \<noteq> 0" "inode \<noteq> 0"
    using r stored_priv[of s] finite_priv_priv[of s] by (auto simp: root_ready_def priv_def)
  let ?\<tau> = "s_set sb None ?\<sigma>"
  have k: "stored ?\<sigma> = add_mset (RSuper lsb) (add_mset (RMem a) (stored ?\<tau>))"
    using stored_s_free[OF f i] nz(1) by (simp add: s_owns_def)
  have put: "after (kcall (Iput inode)) Q u"
    if u: "st ?\<sigma> K {} u" "\<And>r s'. short ?x ?\<sigma> K s' \<Longrightarrow> Q r s'" for K Q u
  proof -
    have h: "holding u = Some (K + handed (calls u))" "priv u = ?\<sigma>"
      using u(1) by (simp_all add: st_def)
    have "short ?x ?\<sigma> K (log_call (Iput inode) r u)" for r
      using h nz(2) by (auto simp: short_def take_res_def)
    then show ?thesis
      using u(2) by (simp add: after_def kcall_def)
  qed
  have final: "after (read_super_out_free sb p err) (\<lambda>r s'. r = err \<and> holding s' \<noteq> Some (stored s' + handed (calls s'))) u"
    if u: "short ?x ?\<tau> (path_refs p + stored ?\<tau>) u" for err u
    unfolding read_super_out_free_def
    apply (rule after_bind, rule short_kcall[OF u, where K' = "stored ?\<tau>"])
       apply (simp_all add: hands_over_def)[3]
    apply (rule after_return, simp add: short_unbalanced)
    done
  have free: "after (free_sb_info sb) (\<lambda>_. after (read_super_out_free sb p err) (\<lambda>r s'. r = err \<and> holding s' \<noteq> Some (stored s' + handed (calls s')))) u"
    if u: "short ?x ?\<sigma> (path_refs p + add_mset (RMem a) (stored ?\<tau>)) u" for err u
  proof -
    have "s_fs_info u sb = s_fs_info (priv u) sb"
      by (simp add: priv_def)
    then have sb: "s_fs_info u sb = Some ?i"
      using u i by (simp add: short_def)
    have upd: "short ?x ?\<tau> K (v\<lparr>s_fs_info := (s_fs_info v)(sb := None)\<rparr>)" if v: "short ?x ?\<sigma> K v" for K v
    proof -
      have "priv (v\<lparr>s_fs_info := (s_fs_info v)(sb := None)\<rparr>) = s_set sb None (priv v)"
        by (simp add: priv_def s_set_def)
      then show ?thesis
        using v by (simp add: short_def)
    qed
    show ?thesis
      unfolding free_sb_info_def
      apply (rule after_bind, rule WRAPFS_SB_wp[OF sb])
      apply (rule after_bind, rule short_kcall[OF u, where K' = "path_refs p + stored ?\<tau>"])
         apply (simp_all add: hands_over_def)[3]
      apply (rule after_modify, rule final, erule upd)
      done
  qed
  have super: "after (read_super_out_sput sb lsb p err) (\<lambda>r s'. r = err \<and> holding s' \<noteq> Some (stored s' + handed (calls s'))) u"
    if u: "short ?x ?\<sigma> (path_refs p + stored ?\<sigma>) u" for err u
    unfolding read_super_out_sput_def
    apply (rule after_bind, rule short_kcall[OF u, where K' = "path_refs p + add_mset (RMem a) (stored ?\<tau>)"])
       apply (simp_all add: hands_over_def k)[3]
    apply (rule after_bind, erule free)
    done
  show ?thesis
    unfolding read_super_root_def read_super_out_iput_def
    apply (rule after_bind, rule make_root_st[OF t], simp)
    apply (rule after_bind, rule quiet_st[where U = "{}"], rule unchanging, assumption, simp, simp)
    apply (simp only: fails simp_thms if_True)
    apply (rule after_bind, rule put, assumption, erule super)
    done
qed

section \<open>Inodes of NFS handles\<close>

lemma ilookup_st:
  assumes "st \<sigma> K {} s" "\<And>r s'. st \<sigma> (ref_if RInode r + K) {} s' \<Longrightarrow> r = kret s (Ilookup sb n) \<Longrightarrow> Q r s'"
  shows "after (kcall (Ilookup sb n)) Q s"
proof -
  let ?r = "kret s (Ilookup sb n)"
  have "st \<sigma> (ref_if RInode ?r + K) {} (log_call (Ilookup sb n) ?r s)"
    by (rule st_log_call[OF assms(1)]) (simp_all add: hands_over_def ref_if_def)
  then show ?thesis
    using assms(2) by (simp add: after_def kcall_def)
qed

text \<open>
  The reference that \<open>ilookup\<close> took is still held when the inode (with the reference that goes to
  the caller) is returned.
\<close>

lemma wrapfs_nfs_get_inode_leaks:
  assumes s: "sound s" "s_fs_info s sb = Some i" and li: "kret s (Ilookup (lower_sb i) ino) = li" "li \<noteq> 0"
  shows "after (wrapfs_nfs_get_inode sb ino gen) (\<lambda>r s'. holding s' = Some (add_mset (RInode li)
      ((if 0 < r then {#RInode r#} else {#}) + stored s' + handed (calls s')))) s"
proof -
  note [simp del] = stored_priv finite_priv_priv
  note t = sound_st[OF s(1)]
  have i: "s_fs_info (priv s) sb = Some i"
    using s(2) by (simp add: priv_def)
  have h: "holding u = Some (K + handed (calls u)) \<and> stored u = stored \<sigma>" if "st \<sigma> K W u" for \<sigma> K W u
    using that stored_priv[of u] by (auto simp: st_def)
  have fin0: "holding u = Some (add_mset (RInode li)
      ((if 0 < r then {#RInode r#} else {#}) + stored u + handed (calls u)))"
    if "r < 0" "st (priv s) (ref_if RInode li + stored (priv s)) W u" for r W u
    using h[OF that(2)] that(1) li(2) by simp
  have fin: "holding u = Some (add_mset (RInode li)
      ((if 0 < r then {#RInode r#} else {#}) + stored u + handed (calls u)))"
    if "0 < r" "grown (priv s) L \<sigma>"
      "st \<sigma> (add_mset (RInode r) (L + (ref_if RInode li + stored (priv s)))) W u" for r L \<sigma> W u
    using h[OF that(3)] that(1,2) li(2) by (simp add: grown_def add_mset_commute)
  show ?thesis
    unfolding wrapfs_nfs_get_inode_def
    apply (rule after_bind, rule lower_super_st[OF t(1) i])
    apply (rule after_bind, rule ilookup_st[OF t(1)], simp only: li)
    apply (rule wrapfs_iget_st, assumption, simp, rule li(2), rule t(2))
     apply (rule fin0, assumption, assumption)
    apply (rule fin, assumption, assumption, assumption)
    done
qed

lemma wrapfs_nfs_get_inode_null:
  assumes s: "s_fs_info s sb = Some i" and li: "kret s (Ilookup (lower_sb i) ino) = 0"
    and k: "\<And>l. k_ret (kern s) l (Igrab 0) = 0"
  shows "after (wrapfs_nfs_get_inode sb ino gen) (\<lambda>r s'. r = - ESTALE \<and> holding s' = None) s"
proof -
  have "holding (log_call (Igrab 0) r t) = None" for r t
    by (cases "holding t") simp_all
  then show ?thesis
    using s li k
    by (simp add: wrapfs_nfs_get_inode_def wrapfs_lower_super_def WRAPFS_SB_def wrapfs_iget_def
      after_def gets_def kcall_def kret_def)
qed

section \<open>Loading the module\<close>

text \<open>When registering fails at any step, the caches that were made are given back.\<close>

lemma init_wrapfs_fs_fails_clean:
  assumes "holding s = Some {#}" "wrapfs_inode_cachep s = 0" "wrapfs_dentry_cachep s = 0"
  shows "after init_wrapfs_fs (\<lambda>r s'. holding s' = Some (if r \<noteq> 0 then {#} else
    {#RCache (wrapfs_inode_cachep s'), RCache (wrapfs_dentry_cachep s')#})) s"
  using assms
  by (auto simp: init_wrapfs_fs_def wrapfs_init_inode_cache_def wrapfs_init_dentry_cache_def
    wrapfs_destroy_inode_cache_def wrapfs_destroy_dentry_cache_def after_def kcall_def gets_def
    modify_def gain_def split: prod.splits)

lemma exit_wrapfs_fs_clean:
  assumes "holding s = Some {#RCache (wrapfs_inode_cachep s), RCache (wrapfs_dentry_cachep s)#}"
    "wrapfs_inode_cachep s \<noteq> 0" "wrapfs_dentry_cachep s \<noteq> 0"
  shows "after exit_wrapfs_fs (\<lambda>r s'. holding s' = Some {#}) s"
  using assms
  by (simp add: exit_wrapfs_fs_def wrapfs_destroy_inode_cache_def wrapfs_destroy_dentry_cache_def
    after_def kcall_def gets_def)

end
