(* ===== verification/Wrapfs_Stack.thy ===== *)
theory Wrapfs_Stack
  imports Wrapfs_File_Correct Wrapfs_Super
begin

text \<open>
  What the module is for: it stacks. A request of the VFS on an object of the module becomes the same
  request on the lower object that the private data name. \<open>lower_request\<close> is that specification;
  the lemmas show of each handler that the lower file system sees this request and no other, at most
  once, that a request that does not get there is refused with an error, and that the errors of the lower
  file system come back.
\<close>

section \<open>Requests and what they become\<close>

datatype (plugins only: code) request_op =
    QRead int int int int
  | QWrite int int int int
  | QReaddir int int
  | QIoctl int int int
  | QCompatIoctl int int int
  | QReadIter int int
  | QWriteIter int int
  | QPermission int int
  | QReadlink int int int
  | QSetxattr int int int int int int
  | QGetxattr int int int int int
  | QListxattr int int int
  | QRemovexattr int int int
  | QStatfs int int
  | QCreate int int int int
  | QSymlink int int int
  | QMkdir int int int
  | QMknod int int int int
  | QRmdir int int
  | QUnlink int int
  | QLink int int int
  | QRename int int int int int

definition lower_file_of :: "kst \<Rightarrow> int \<Rightarrow> int" where
  "lower_file_of s f = (case private_data s f of None \<Rightarrow> 0 | Some i \<Rightarrow> lower_file i)"

definition lower_path_of :: "kst \<Rightarrow> int \<Rightarrow> lpath" where
  "lower_path_of s d = (case d_fsdata s d of None \<Rightarrow> path_of 0 0 | Some i \<Rightarrow> lower_path i)"

definition lower_dentry_of :: "kst \<Rightarrow> int \<Rightarrow> int" where
  "lower_dentry_of s d = p_dentry (lower_path_of s d)"

text \<open>
  Requests on entries work in a lower directory: the inode of the parent that the handler has asked for and
  locked. \<open>parents l\<close> are the parents that have been asked for, with the answers, newest first; \<open>lower_dir s l n d\<close> is the
  inode of the answer to the \<open>n\<close>th last of these questions, at the time of the log \<open>l\<close>, if the
  question was about \<open>d\<close>, and null if it was about another entry. (Only \<^verbatim>\<open>wrapfs_unlink\<close> does
  not work in that inode, but in the lower inode of its directory.)
\<close>

definition view_at :: "kst \<Rightarrow> klog \<Rightarrow> query \<Rightarrow> int" where
  "view_at s l q = k_view (kern s) l q"

fun parents :: "klog \<Rightarrow> (int \<times> int) list" where
  "parents [] = []"
| "parents ((c, r) # l) = (case c of DgetParent d \<Rightarrow> (d, r) # parents l | _ \<Rightarrow> parents l)"

definition lower_dir :: "kst \<Rightarrow> klog \<Rightarrow> nat \<Rightarrow> int \<Rightarrow> int" where
  "lower_dir s l n d = (case drop n (parents l) of [] \<Rightarrow> 0
     | x # xs \<Rightarrow> (if fst x = d then view_at s l (DInode (snd x)) else 0))"

text \<open>What a request becomes, in the state in which it arrives, at the time of the log \<open>l\<close>.\<close>

fun lower_request :: "kst \<Rightarrow> klog \<Rightarrow> request_op \<Rightarrow> vfs" where
  "lower_request s l (QRead f b n pos) =
     VfsRead (lower_file_of s f) b n pos"
| "lower_request s l (QWrite f b n pos) =
     VfsWrite (lower_file_of s f) b n pos"
| "lower_request s l (QReaddir f ctx) =
     IterateDir (lower_file_of s f) ctx"
| "lower_request s l (QIoctl f cmd arg) =
     UnlockedIoctl (lower_file_of s f) cmd arg"
| "lower_request s l (QCompatIoctl f cmd arg) =
     CompatIoctl (lower_file_of s f) cmd arg"
| "lower_request s l (QReadIter iocb iter) =
     LowerReadIter (lower_file_of s (kview s (IocbFile iocb))) iocb iter"
| "lower_request s l (QWriteIter iocb iter) =
     LowerWriteIter (lower_file_of s (kview s (IocbFile iocb))) iocb iter"
| "lower_request s l (QPermission i msk) =
     InodePermission (lower_inode s i) msk"
| "lower_request s l (QReadlink d b n) =
     VfsReadlink (lower_dentry_of s d) b n"
| "lower_request s l (QSetxattr d i nm val n flags) =
     VfsSetxattr (lower_dentry_of s d) nm val n flags"
| "lower_request s l (QGetxattr d i nm b n) =
     VfsGetxattr (lower_dentry_of s d) nm b n"
| "lower_request s l (QListxattr d b n) =
     VfsListxattr (lower_dentry_of s d) b n"
| "lower_request s l (QRemovexattr d i nm) =
     VfsRemovexattr (lower_dentry_of s d) nm"
| "lower_request s l (QStatfs d b) =
     VfsStatfs (lower_path_of s d) b"
| "lower_request s l (QCreate dir d mode excl) =
     VfsCreate (lower_dir s l 0 (lower_dentry_of s d)) (lower_dentry_of s d) mode excl"
| "lower_request s l (QSymlink dir d nm) =
     VfsSymlink (lower_dir s l 0 (lower_dentry_of s d)) (lower_dentry_of s d) nm"
| "lower_request s l (QMkdir dir d mode) =
     VfsMkdir (lower_dir s l 0 (lower_dentry_of s d)) (lower_dentry_of s d) mode"
| "lower_request s l (QMknod dir d mode dev) =
     VfsMknod (lower_dir s l 0 (lower_dentry_of s d)) (lower_dentry_of s d) mode dev"
| "lower_request s l (QRmdir dir d) =
     VfsRmdir (lower_dir s l 0 (lower_dentry_of s d)) (lower_dentry_of s d)"
| "lower_request s l (QUnlink dir d) =
     VfsUnlink (lower_inode s dir) (lower_dentry_of s d)"
| "lower_request s l (QLink old dir d) =
     VfsLink (lower_dentry_of s old) (lower_dir s l 0 (lower_dentry_of s d)) (lower_dentry_of s d)"
| "lower_request s l (QRename od old nd d flags) =
     VfsRename (lower_dir s l 1 (lower_dentry_of s old)) (lower_dentry_of s old)
       (lower_dir s l 0 (lower_dentry_of s d)) (lower_dentry_of s d)"

text \<open>The handler of each request, and the private data that it must find.\<close>

fun request_prog :: "request_op \<Rightarrow> int prog" where
  "request_prog (QRead f b n pos) = wrapfs_read f b n pos"
| "request_prog (QWrite f b n pos) = wrapfs_write f b n pos"
| "request_prog (QReaddir f ctx) = wrapfs_readdir f ctx"
| "request_prog (QIoctl f cmd arg) = wrapfs_unlocked_ioctl f cmd arg"
| "request_prog (QCompatIoctl f cmd arg) = wrapfs_compat_ioctl f cmd arg"
| "request_prog (QReadIter iocb iter) = wrapfs_read_iter iocb iter"
| "request_prog (QWriteIter iocb iter) = wrapfs_write_iter iocb iter"
| "request_prog (QPermission i msk) = wrapfs_permission i msk"
| "request_prog (QReadlink d b n) = wrapfs_readlink d b n"
| "request_prog (QSetxattr d i nm val n flags) = wrapfs_setxattr d i nm val n flags"
| "request_prog (QGetxattr d i nm b n) = wrapfs_getxattr d i nm b n"
| "request_prog (QListxattr d b n) = wrapfs_listxattr d b n"
| "request_prog (QRemovexattr d i nm) = wrapfs_removexattr d i nm"
| "request_prog (QStatfs d b) = wrapfs_statfs d b"
| "request_prog (QCreate dir d mode excl) = wrapfs_create dir d mode excl"
| "request_prog (QSymlink dir d nm) = wrapfs_symlink dir d nm"
| "request_prog (QMkdir dir d mode) = wrapfs_mkdir dir d mode"
| "request_prog (QMknod dir d mode dev) = wrapfs_mknod dir d mode dev"
| "request_prog (QRmdir dir d) = wrapfs_rmdir dir d"
| "request_prog (QUnlink dir d) = wrapfs_unlink dir d"
| "request_prog (QLink old dir d) = wrapfs_link old dir d"
| "request_prog (QRename od old nd d flags) = wrapfs_rename od old nd d flags"

fun has_lower :: "kst \<Rightarrow> request_op \<Rightarrow> bool" where
  "has_lower s (QRead f b n pos) \<longleftrightarrow> private_data s f \<noteq> None"
| "has_lower s (QWrite f b n pos) \<longleftrightarrow> private_data s f \<noteq> None"
| "has_lower s (QReaddir f ctx) \<longleftrightarrow> private_data s f \<noteq> None"
| "has_lower s (QIoctl f cmd arg) \<longleftrightarrow> private_data s f \<noteq> None"
| "has_lower s (QCompatIoctl f cmd arg) \<longleftrightarrow> private_data s f \<noteq> None"
| "has_lower s (QReadIter iocb iter) \<longleftrightarrow> private_data s (kview s (IocbFile iocb)) \<noteq> None"
| "has_lower s (QWriteIter iocb iter) \<longleftrightarrow> private_data s (kview s (IocbFile iocb)) \<noteq> None"
| "has_lower s (QPermission i msk) \<longleftrightarrow> True"
| "has_lower s (QReadlink d b n) \<longleftrightarrow> d_fsdata s d \<noteq> None"
| "has_lower s (QSetxattr d i nm val n flags) \<longleftrightarrow> d_fsdata s d \<noteq> None"
| "has_lower s (QGetxattr d i nm b n) \<longleftrightarrow> d_fsdata s d \<noteq> None"
| "has_lower s (QListxattr d b n) \<longleftrightarrow> d_fsdata s d \<noteq> None"
| "has_lower s (QRemovexattr d i nm) \<longleftrightarrow> d_fsdata s d \<noteq> None"
| "has_lower s (QStatfs d b) \<longleftrightarrow> d_fsdata s d \<noteq> None"
| "has_lower s (QCreate dir d mode excl) \<longleftrightarrow> d_fsdata s d \<noteq> None"
| "has_lower s (QSymlink dir d nm) \<longleftrightarrow> d_fsdata s d \<noteq> None"
| "has_lower s (QMkdir dir d mode) \<longleftrightarrow> d_fsdata s d \<noteq> None"
| "has_lower s (QMknod dir d mode dev) \<longleftrightarrow> d_fsdata s d \<noteq> None"
| "has_lower s (QRmdir dir d) \<longleftrightarrow> d_fsdata s d \<noteq> None"
| "has_lower s (QUnlink dir d) \<longleftrightarrow> d_fsdata s d \<noteq> None"
| "has_lower s (QLink old dir d) \<longleftrightarrow> d_fsdata s old \<noteq> None \<and> d_fsdata s d \<noteq> None"
| "has_lower s (QRename od old nd d flags) \<longleftrightarrow> d_fsdata s old \<noteq> None \<and> d_fsdata s d \<noteq> None"

text \<open>The requests that the lower file system has seen, each with its result and the log before it.\<close>

fun sent :: "klog \<Rightarrow> (klog \<times> vfs \<times> int) list" where
  "sent [] = []"
| "sent ((c, r) # l) = (case c of Lower v \<Rightarrow> (l, v, r) # sent l | _ \<Rightarrow> sent l)"

text \<open>
  The requests that may be turned down, each with its reason and its error: the lower file does not have
  the operation, the lower inode has no link or no extended attributes, a renaming with flags, or of an
  ancestor of the other entry (\<open>trap_of\<close>, the answer of \<open>lock_rename\<close>). \<open>l\<close> is the log at
  the end, and its tail the log before the path was put.
\<close>

fun trap_of :: "klog \<Rightarrow> int" where
  "trap_of [] = 0"
| "trap_of ((c, r) # l) = (case c of LockRename a b \<Rightarrow> r | _ \<Rightarrow> trap_of l)"

definition no_xattr :: "kst \<Rightarrow> klog \<Rightarrow> int \<Rightarrow> bool" where
  "no_xattr s l i \<longleftrightarrow> view_at s l (IOpflags i) AND IOP_XATTR = 0"

fun turned_down :: "kst \<Rightarrow> klog \<Rightarrow> request_op \<Rightarrow> int \<Rightarrow> bool" where
  "turned_down s l (QIoctl f cmd arg) x \<longleftrightarrow> x = - ENOTTY \<and> (lower_file_of s f = 0 \<or>
     view_at s l (FOp (lower_file_of s f)) = 0 \<or> view_at s l (HasIoctl (lower_file_of s f)) = 0)"
| "turned_down s l (QCompatIoctl f cmd arg) x \<longleftrightarrow> x = - ENOTTY \<and> (lower_file_of s f = 0 \<or>
     view_at s l (FOp (lower_file_of s f)) = 0 \<or> view_at s l (HasCompatIoctl (lower_file_of s f)) = 0)"
| "turned_down s l (QReadIter iocb iter) x \<longleftrightarrow> x = - EINVAL \<and>
     view_at s l (HasReadIter (lower_file_of s (kview s (IocbFile iocb)))) = 0"
| "turned_down s l (QWriteIter iocb iter) x \<longleftrightarrow> x = - EINVAL \<and>
     view_at s l (HasWriteIter (lower_file_of s (kview s (IocbFile iocb)))) = 0"
| "turned_down s l (QReadlink d b n) x \<longleftrightarrow> x = - EINVAL \<and>
     view_at s (tl l) (IHasReadlink (view_at s (tl l) (DInode (lower_dentry_of s d)))) = 0"
| "turned_down s l (QSetxattr d i nm val n flags) x \<longleftrightarrow> x = - EOPNOTSUPP \<and>
     no_xattr s (tl l) (view_at s (tl l) (DInode (lower_dentry_of s d)))"
| "turned_down s l (QGetxattr d i nm b n) x \<longleftrightarrow> x = - EOPNOTSUPP \<and>
     no_xattr s (tl l) (view_at s (tl l) (DInode (lower_dentry_of s d)))"
| "turned_down s l (QListxattr d b n) x \<longleftrightarrow> x = - EOPNOTSUPP \<and>
     no_xattr s (tl l) (view_at s (tl l) (DInode (lower_dentry_of s d)))"
| "turned_down s l (QRemovexattr d i nm) x \<longleftrightarrow> x = - EOPNOTSUPP \<and>
     no_xattr s (tl l) (lower_inode s i)"
| "turned_down s l (QRename od old nd d flags) x \<longleftrightarrow>
     (if flags \<noteq> 0 \<or> trap_of l = lower_dentry_of s old then x = - EINVAL
      else trap_of l = lower_dentry_of s d \<and> x = - ENOTEMPTY)"
| "turned_down s l _ x \<longleftrightarrow> False"

text \<open>A request that must not be sent on, whatever the lower file system would say to it.\<close>

fun sendable :: "request_op \<Rightarrow> bool" where
  "sendable (QRename od old nd d flags) \<longleftrightarrow> flags = 0"
| "sendable _ \<longleftrightarrow> True"

text \<open>A handler that has made an entry goes on to interpose it, which may fail in its turn.\<close>

fun interposes :: "request_op \<Rightarrow> bool" where
  "interposes (QCreate dir d mode excl) = True"
| "interposes (QSymlink dir d nm) = True"
| "interposes (QMkdir dir d mode) = True"
| "interposes (QMknod dir d mode dev) = True"
| "interposes (QLink old dir d) = True"
| "interposes _ = False"

text \<open>
  What comes back: the result of the lower file system, but for an unlink that finds the entry busy because
  NFS has renamed the file instead, which is a success.
\<close>

fun answer :: "kst \<Rightarrow> klog \<Rightarrow> request_op \<Rightarrow> int \<Rightarrow> int" where
  "answer s l (QUnlink dir d) r =
     (if r = - EBUSY \<and> view_at s l (NfsRenamed (lower_dentry_of s d)) \<noteq> 0 then 0 else r)"
| "answer s l _ r = r"

text \<open>
  The specification of a handler: it sends the lower request and no other, once, and returns its answer if
  that fits into an \<open>int\<close> (always if it is an error; of a success, if no entry has to be
  interposed); or it turns the request down.
\<close>

definition stacked :: "kst \<Rightarrow> request_op \<Rightarrow> int \<Rightarrow> kst \<Rightarrow> bool" where
  "stacked s q x s' \<longleftrightarrow> (sent (calls s') = sent (calls s) \<and> turned_down s (calls s') q x) \<or>
     (\<exists>l r. sent (calls s') = (l, lower_request s l q, r) # sent (calls s) \<and> sendable q \<and>
        (- (2 ^ 31) \<le> r \<and> r < 2 ^ 31 \<and> (r \<noteq> 0 \<or> \<not> interposes q) \<longrightarrow>
          x = answer s ((Lower (lower_request s l q), r) # l) q r))"

section \<open>The handlers\<close>

lemmas evaluate = WRAPFS_D_def WRAPFS_F_def wrapfs_lower_file_def wrapfs_lower_inode_def
  wrapfs_set_lower_inode_def WRAPFS_SB_def wrapfs_lower_super_def wrapfs_get_lower_path_def
  wrapfs_put_lower_path_def lock_parent_def unlock_dir_def lower_file_of_def lower_dentry_of_def
  lower_path_of_def lower_dir_def view_at_def no_xattr_def kview_def

text \<open>Interposing an entry sends nothing to the lower file system.\<close>

lemma interpose_passes:
  assumes "\<And>x s'. sent (calls s') = sent (calls s) \<Longrightarrow> Q x s'"
  shows "after (wrapfs_interpose d sb p) Q s"
proof (rule after_mono)
  show "after (wrapfs_interpose d sb p) (\<lambda>x s'. sent (calls s') = sent (calls s)) s"
    by (auto simp: wrapfs_interpose_def interpose_def wrapfs_iget_def null_deref_def evaluate intro!: walk)
qed (rule assms)

lemma read_stacked:
  "has_lower s (QRead f b n pos) \<Longrightarrow>
    after (wrapfs_read f b n pos) (stacked s (QRead f b n pos)) s"
  by (auto simp: wrapfs_read_def stacked_def evaluate intro!: walk interpose_passes)

lemma write_stacked:
  "has_lower s (QWrite f b n pos) \<Longrightarrow>
    after (wrapfs_write f b n pos) (stacked s (QWrite f b n pos)) s"
  by (auto simp: wrapfs_write_def stacked_def evaluate intro!: walk interpose_passes)

lemma readdir_stacked:
  "has_lower s (QReaddir f ctx) \<Longrightarrow>
    after (wrapfs_readdir f ctx) (stacked s (QReaddir f ctx)) s"
  by (auto simp: wrapfs_readdir_def stacked_def evaluate intro!: walk interpose_passes)

lemma ioctl_stacked:
  "has_lower s (QIoctl f cmd arg) \<Longrightarrow>
    after (wrapfs_unlocked_ioctl f cmd arg) (stacked s (QIoctl f cmd arg)) s"
  by (auto simp: wrapfs_unlocked_ioctl_def stacked_def evaluate intro!: walk interpose_passes)

lemma compat_ioctl_stacked:
  "has_lower s (QCompatIoctl f cmd arg) \<Longrightarrow>
    after (wrapfs_compat_ioctl f cmd arg) (stacked s (QCompatIoctl f cmd arg)) s"
  by (auto simp: wrapfs_compat_ioctl_def stacked_def evaluate intro!: walk interpose_passes)

lemma read_iter_stacked:
  "has_lower s (QReadIter iocb iter) \<Longrightarrow>
    after (wrapfs_read_iter iocb iter) (stacked s (QReadIter iocb iter)) s"
  by (auto simp: wrapfs_read_iter_def stacked_def evaluate intro!: walk interpose_passes)

lemma write_iter_stacked:
  "has_lower s (QWriteIter iocb iter) \<Longrightarrow>
    after (wrapfs_write_iter iocb iter) (stacked s (QWriteIter iocb iter)) s"
  by (auto simp: wrapfs_write_iter_def stacked_def evaluate intro!: walk interpose_passes)

lemma permission_stacked:
  "has_lower s (QPermission i msk) \<Longrightarrow>
    after (wrapfs_permission i msk) (stacked s (QPermission i msk)) s"
  by (auto simp: wrapfs_permission_def stacked_def evaluate intro!: walk interpose_passes)

lemma readlink_stacked:
  "has_lower s (QReadlink d b n) \<Longrightarrow>
    after (wrapfs_readlink d b n) (stacked s (QReadlink d b n)) s"
  by (auto simp: wrapfs_readlink_def stacked_def evaluate intro!: walk interpose_passes)

lemma setxattr_stacked:
  "has_lower s (QSetxattr d i nm val n flags) \<Longrightarrow>
    after (wrapfs_setxattr d i nm val n flags) (stacked s (QSetxattr d i nm val n flags)) s"
  by (auto simp: wrapfs_setxattr_def stacked_def evaluate intro!: walk interpose_passes)

lemma getxattr_stacked:
  "has_lower s (QGetxattr d i nm b n) \<Longrightarrow>
    after (wrapfs_getxattr d i nm b n) (stacked s (QGetxattr d i nm b n)) s"
  by (auto simp: wrapfs_getxattr_def stacked_def evaluate intro!: walk interpose_passes)

lemma listxattr_stacked:
  "has_lower s (QListxattr d b n) \<Longrightarrow>
    after (wrapfs_listxattr d b n) (stacked s (QListxattr d b n)) s"
  by (auto simp: wrapfs_listxattr_def stacked_def evaluate intro!: walk interpose_passes)

lemma removexattr_stacked:
  "has_lower s (QRemovexattr d i nm) \<Longrightarrow>
    after (wrapfs_removexattr d i nm) (stacked s (QRemovexattr d i nm)) s"
  by (auto simp: wrapfs_removexattr_def stacked_def evaluate intro!: walk interpose_passes)

lemma statfs_stacked:
  "has_lower s (QStatfs d b) \<Longrightarrow>
    after (wrapfs_statfs d b) (stacked s (QStatfs d b)) s"
  by (auto simp: wrapfs_statfs_def stacked_def evaluate intro!: walk interpose_passes)

lemma create_stacked:
  "has_lower s (QCreate dir d mode excl) \<Longrightarrow>
    after (wrapfs_create dir d mode excl) (stacked s (QCreate dir d mode excl)) s"
  by (auto simp: wrapfs_create_def stacked_def evaluate intro!: walk interpose_passes)

lemma symlink_stacked:
  "has_lower s (QSymlink dir d nm) \<Longrightarrow>
    after (wrapfs_symlink dir d nm) (stacked s (QSymlink dir d nm)) s"
  by (auto simp: wrapfs_symlink_def stacked_def evaluate intro!: walk interpose_passes)

lemma mkdir_stacked:
  "has_lower s (QMkdir dir d mode) \<Longrightarrow>
    after (wrapfs_mkdir dir d mode) (stacked s (QMkdir dir d mode)) s"
  by (auto simp: wrapfs_mkdir_def stacked_def evaluate intro!: walk interpose_passes)

lemma mknod_stacked:
  "has_lower s (QMknod dir d mode dev) \<Longrightarrow>
    after (wrapfs_mknod dir d mode dev) (stacked s (QMknod dir d mode dev)) s"
  by (auto simp: wrapfs_mknod_def stacked_def evaluate intro!: walk interpose_passes)

lemma rmdir_stacked:
  "has_lower s (QRmdir dir d) \<Longrightarrow>
    after (wrapfs_rmdir dir d) (stacked s (QRmdir dir d)) s"
  by (auto simp: wrapfs_rmdir_def stacked_def evaluate intro!: walk interpose_passes)

lemma unlink_stacked:
  "has_lower s (QUnlink dir d) \<Longrightarrow>
    after (wrapfs_unlink dir d) (stacked s (QUnlink dir d)) s"
  by (auto simp: wrapfs_unlink_def stacked_def evaluate intro!: walk interpose_passes split: if_splits)

lemma link_stacked:
  "has_lower s (QLink old dir d) \<Longrightarrow>
    after (wrapfs_link old dir d) (stacked s (QLink old dir d)) s"
  by (auto simp: wrapfs_link_def stacked_def evaluate intro!: walk interpose_passes)

lemma rename_stacked:
  "has_lower s (QRename od old nd d flags) \<Longrightarrow>
    after (wrapfs_rename od old nd d flags) (stacked s (QRename od old nd d flags)) s"
  by (auto simp: wrapfs_rename_def stacked_def evaluate intro!: walk interpose_passes)

text \<open>All of them.\<close>

lemma request_stacked: "has_lower s q \<Longrightarrow> after (request_prog q) (stacked s q) s"
  by (cases q) (simp_all only: request_prog.simps read_stacked write_stacked readdir_stacked
      ioctl_stacked compat_ioctl_stacked read_iter_stacked write_iter_stacked
      permission_stacked readlink_stacked setxattr_stacked getxattr_stacked listxattr_stacked
      removexattr_stacked statfs_stacked create_stacked symlink_stacked mkdir_stacked
      mknod_stacked rmdir_stacked unlink_stacked link_stacked rename_stacked)

section \<open>Opening and closing a file\<close>

text \<open>Both change the private data of their file and nothing else of the module's.\<close>

lemma priv_file [simp]:
  "priv (s\<lparr>private_data := g\<rparr>) = (priv s)\<lparr>private_data := g\<rparr>"
  by (simp add: priv_def)

lemma private_priv [simp]: "private_data (priv s) = private_data s"
  by (simp add: priv_def)

lemma open_frame:
  "after (wrapfs_open inode filp) (\<lambda>r s'. f_set filp None (priv s') = f_set filp None (priv s)) s"
  by (auto simp: wrapfs_open_def free_file_info_def wrapfs_set_lower_file_def null_deref_def evaluate f_set_def
    fun_upd_same intro!: walk)

lemma release_frame:
  "after (wrapfs_file_release inode filp)
    (\<lambda>r s'. f_set filp None (priv s') = f_set filp None (priv s)) s"
  by (auto simp: wrapfs_file_release_def free_file_info_def wrapfs_set_lower_file_def null_deref_def evaluate
    f_set_def intro!: walk)

text \<open>What is opened and then closed, if opening succeeded, leaves the module as it was.\<close>

lemma open_release:
  assumes "sound s" "private_data s filp = None" "\<And>l. bound s (k_view (kern s) l (FDentry filp))"
  shows "after (do {
      r \<leftarrow> wrapfs_open inode filp;
      if r = 0 then wrapfs_file_release inode filp else ret r }) (\<lambda>r s'. sound s' \<and> priv s' = priv s) s"
proof (rule after_bind, rule after_mono, rule after_conj[THEN iffD2], rule conjI)
  show "after (wrapfs_open inode filp)
      (\<lambda>r s'. sound s' \<and> (private_data s' filp = None \<longleftrightarrow> r \<noteq> 0)) s"
    by (rule wrapfs_open_sound[OF assms])
  show "after (wrapfs_open inode filp) (\<lambda>r s'. f_set filp None (priv s') = f_set filp None (priv s)) s"
    by (rule open_frame)
next
  fix r :: int and t
  assume t: "(sound t \<and> (private_data t filp = None \<longleftrightarrow> r \<noteq> 0)) \<and>
    f_set filp None (priv t) = f_set filp None (priv s)"
  have s: "f_set filp None (priv s) = priv s"
    using assms(2) by (simp add: f_set_same)
  show "after (if r = 0 then wrapfs_file_release inode filp else ret r)
      (\<lambda>r s'. sound s' \<and> priv s' = priv s) t"
  proof (rule after_if)
    assume "r = 0"
    with t have o: "sound t" "private_data t filp \<noteq> None"
      by simp_all
    show "after (wrapfs_file_release inode filp) (\<lambda>r s'. sound s' \<and> priv s' = priv s) t"
    proof (rule after_mono[OF after_conj[THEN iffD2, OF conjI[OF wrapfs_file_release_sound[OF o] release_frame]]])
      fix x s'
      assume u: "(sound s' \<and> private_data s' filp = None) \<and> f_set filp None (priv s') = f_set filp None (priv t)"
      then have "f_set filp None (priv s') = priv s'"
        by (intro f_set_same) simp
      with u t s show "sound s' \<and> priv s' = priv s"
        by simp
    qed
  next
    assume "r \<noteq> 0"
    with t have "f_set filp None (priv t) = priv t"
      by (intro f_set_same) simp
    with t s show "after (ret r) (\<lambda>r s'. sound s' \<and> priv s' = priv s) t"
      by (auto intro: after_return)
  qed
qed

end
