(* ===== verification/Wrapfs_History.thy ===== *)
theory Wrapfs_History
  imports Wrapfs_Inode_Correct Wrapfs_Lookup_Correct Wrapfs_Super_Correct Wrapfs_Stack
begin

text \<open>
  Histories of the module: the VFS calls its operations one after the other, in any order its own
  rules allow. Each rule of \<open>vfs_step\<close> is one call, with the condition under which the VFS makes it:
  an operation on an entry finds the entry linked to a lower one, one on an open file finds it open, a
  lookup is made on an entry without private data. What the kernel answers is left to \<open>vfs_kernel\<close>,
  and every allocation and every lower operation may fail in any of the calls.

  Three kinds of calls are left out, because they do not keep the module sound; each is the subject of
  a lemma of its own. A mount that comes to call \<^verbatim>\<open>d_make_root\<close> and then fails
  (\<open>read_super_root_overputs\<close>): the rule \<open>mount\<close> asks that after \<^verbatim>\<open>d_make_root\<close> the mount
  succeeds; a mount that fails before is a step. A link that is followed, but cannot be read or fills the
  page (\<open>get_link_error\<close>): the rule \<open>get_link\<close> asks that the log shows neither; failing to get the
  page is a step. The inodes of NFS handles (\<open>wrapfs_nfs_get_inode_leaks\<close>). Left out are also
  \<^verbatim>\<open>wrapfs_alloc_inode\<close> and \<^verbatim>\<open>wrapfs_destroy_inode\<close>, which the kernel calls from within the calls
  that the module makes of it, and calls that overlap.
\<close>

definition did :: "'a prog \<Rightarrow> kst \<Rightarrow> kst \<Rightarrow> bool" where
  "did m s s' = (snd (run_state m s) = s')"

lemma did_after: "did m s s' \<Longrightarrow> after m Q s \<Longrightarrow> \<exists>r. Q r s'"
  by (auto simp: did_def after_def split: prod.splits)

lemma did_sound: "did m s s' \<Longrightarrow> after m (\<lambda>r. sound) s \<Longrightarrow> sound s'"
  using did_after[of m s s' "\<lambda>r. sound"] by simp

lemma did_sound2: "did m s s' \<Longrightarrow> after m (\<lambda>r s'. sound s' \<and> P r s') s \<Longrightarrow> sound s'"
  using did_after[of m s s' "\<lambda>r s'. sound s' \<and> P r s'"] by auto

text \<open>With its result, where the condition of a step is about that.\<close>

definition gives :: "'a prog \<Rightarrow> 'a \<Rightarrow> kst \<Rightarrow> kst \<Rightarrow> bool" where
  "gives m r s s' \<longleftrightarrow> run_state m s = (r, s')"

lemma gives_after: "gives m r s s' \<Longrightarrow> after m Q s \<Longrightarrow> Q r s'"
  by (simp add: gives_def after_def)

inductive vfs_step :: "kst \<Rightarrow> kst \<Rightarrow> bool" where
  create: "bound s dentry \<Longrightarrow> mounted (priv s) ISb dir \<Longrightarrow>
    did (wrapfs_create dir dentry mode excl) s s' \<Longrightarrow> vfs_step s s'"
| link: "bound s old \<Longrightarrow> bound s dentry \<Longrightarrow> mounted (priv s) ISb dir \<Longrightarrow>
    did (wrapfs_link old dir dentry) s s' \<Longrightarrow> vfs_step s s'"
| unlink: "bound s dentry \<Longrightarrow> same_parent s dir dentry \<Longrightarrow> did (wrapfs_unlink dir dentry) s s' \<Longrightarrow>
    vfs_step s s'"
| symlink: "bound s dentry \<Longrightarrow> mounted (priv s) ISb dir \<Longrightarrow>
    did (wrapfs_symlink dir dentry symname) s s' \<Longrightarrow> vfs_step s s'"
| mkdir: "bound s dentry \<Longrightarrow> mounted (priv s) ISb dir \<Longrightarrow> did (wrapfs_mkdir dir dentry mode) s s' \<Longrightarrow>
    vfs_step s s'"
| rmdir: "bound s dentry \<Longrightarrow> did (wrapfs_rmdir dir dentry) s s' \<Longrightarrow> vfs_step s s'"
| mknod: "bound s dentry \<Longrightarrow> mounted (priv s) ISb dir \<Longrightarrow> did (wrapfs_mknod dir dentry mode dev) s s' \<Longrightarrow>
    vfs_step s s'"
| rename: "bound s old \<Longrightarrow> bound s dentry \<Longrightarrow> did (wrapfs_rename od old nd dentry flags) s s' \<Longrightarrow>
    vfs_step s s'"
| readlink: "bound s dentry \<Longrightarrow> did (wrapfs_readlink dentry buf n) s s' \<Longrightarrow> vfs_step s s'"
| permission: "lower_inode s inode \<noteq> 0 \<Longrightarrow> did (wrapfs_permission inode msk) s s' \<Longrightarrow> vfs_step s s'"
| setattr: "bound s dentry \<Longrightarrow> lower_positive s dentry \<Longrightarrow> (ia_valid ia AND ATTR_FILE \<noteq> 0 \<Longrightarrow>
    private_data s (ia_file ia) \<noteq> None) \<Longrightarrow> did (wrapfs_setattr dentry ia) s s' \<Longrightarrow> vfs_step s s'"
| getattr: "bound s dentry \<Longrightarrow> did (wrapfs_getattr mnt dentry stat) s s' \<Longrightarrow> vfs_step s s'"
| xattr_get: "bound s dentry \<Longrightarrow> did (wrapfs_xattr_get dentry inode nm buf n) s s' \<Longrightarrow> vfs_step s s'"
| xattr_set: "bound s dentry \<Longrightarrow> (val = 0 \<Longrightarrow> flags = XATTR_REPLACE) \<Longrightarrow>
    did (wrapfs_xattr_set dentry inode nm val n flags) s s' \<Longrightarrow> vfs_step s s'"
| listxattr: "bound s dentry \<Longrightarrow> did (wrapfs_listxattr dentry buf n) s s' \<Longrightarrow> vfs_step s s'"
| lookup: "d_fsdata s dentry = None \<Longrightarrow> bound s (kret s (DgetParent dentry)) \<Longrightarrow>
    mounted (priv s) DSb dentry \<Longrightarrow> (\<And>l. k_view (kern s) l (IsRoot dentry) = 0) \<Longrightarrow>
    did (wrapfs_lookup dir dentry flags) s s' \<Longrightarrow> vfs_step s s'"
| revalidate: "bound s dentry \<Longrightarrow> did (wrapfs_d_revalidate dentry flags) s s' \<Longrightarrow> vfs_step s s'"
| release: "d_fsdata s dentry \<noteq> None \<Longrightarrow> dentry \<noteq> 0 \<Longrightarrow> did (wrapfs_d_release dentry) s s' \<Longrightarrow>
    vfs_step s s'"
| vread: "file_opened s filp \<Longrightarrow> did (wrapfs_read filp buf n ppos) s s' \<Longrightarrow> vfs_step s s'"
| vwrite: "file_opened s filp \<Longrightarrow> did (wrapfs_write filp buf n ppos) s s' \<Longrightarrow> vfs_step s s'"
| readdir: "file_opened s filp \<Longrightarrow> did (wrapfs_readdir filp ctx) s s' \<Longrightarrow> vfs_step s s'"
| ioctl: "file_opened s filp \<Longrightarrow> did (wrapfs_unlocked_ioctl filp cmd arg) s s' \<Longrightarrow> vfs_step s s'"
| compat_ioctl: "file_opened s filp \<Longrightarrow> did (wrapfs_compat_ioctl filp cmd arg) s s' \<Longrightarrow> vfs_step s s'"
| mmap: "file_opened s filp \<Longrightarrow> did (wrapfs_mmap filp vma) s s' \<Longrightarrow> vfs_step s s'"
| fault: "mapped s (kview s (VmaFile vma)) \<Longrightarrow> did (wrapfs_fault vma vmf) s s' \<Longrightarrow> vfs_step s s'"
| page_mkwrite: "mapped s (kview s (VmaFile vma)) \<Longrightarrow> did (wrapfs_page_mkwrite vma vmf) s s' \<Longrightarrow>
    vfs_step s s'"
| open_file: "private_data s filp = None \<Longrightarrow> (\<And>l. bound s (k_view (kern s) l (FDentry filp))) \<Longrightarrow>
    did (wrapfs_open inode filp) s s' \<Longrightarrow> vfs_step s s'"
| flush: "file_opened s filp \<Longrightarrow> did (wrapfs_flush filp owner) s s' \<Longrightarrow> vfs_step s s'"
| file_release: "private_data s filp \<noteq> None \<Longrightarrow> did (wrapfs_file_release inode filp) s s' \<Longrightarrow>
    vfs_step s s'"
| fsync: "file_opened s filp \<Longrightarrow> (\<And>l. bound s (k_view (kern s) l (FDentry filp))) \<Longrightarrow>
    did (wrapfs_fsync filp lo hi datasync) s s' \<Longrightarrow> vfs_step s s'"
| fasync: "file_opened s filp \<Longrightarrow> did (wrapfs_fasync fd filp flag) s s' \<Longrightarrow> vfs_step s s'"
| llseek: "file_opened s filp \<Longrightarrow> did (wrapfs_file_llseek filp offset whence) s s' \<Longrightarrow> vfs_step s s'"
| read_iter: "file_opened s (kview s (IocbFile iocb)) \<Longrightarrow> did (wrapfs_read_iter iocb iter) s s' \<Longrightarrow>
    vfs_step s s'"
| write_iter: "file_opened s (kview s (IocbFile iocb)) \<Longrightarrow> did (wrapfs_write_iter iocb iter) s s' \<Longrightarrow>
    vfs_step s s'"
| mount: "s_fs_info s sb = None \<Longrightarrow> gives (wrapfs_read_super sb dev_name silent) r s s' \<Longrightarrow>
    (\<And>d. dev_name \<noteq> 0 \<Longrightarrow> new_root (calls s') = Some d \<Longrightarrow> r = 0 \<and> d_fsdata s d = None) \<Longrightarrow>
    vfs_step s s'"
| get_link: "(dentry \<noteq> 0 \<Longrightarrow> bound s dentry) \<Longrightarrow> did (wrapfs_get_link dentry inode lnk) s s' \<Longrightarrow>
    \<not> link_spoilt (calls s') \<Longrightarrow> vfs_step s s'"
| remount: "did (wrapfs_remount_fs sb flags) s s' \<Longrightarrow> vfs_step s s'"
| direct_IO: "did (wrapfs_direct_IO iocb iter) s s' \<Longrightarrow> vfs_step s s'"
| put_super: "(\<And>i. s_fs_info s sb = Some i \<Longrightarrow> lower_sb i \<noteq> 0) \<Longrightarrow> did (wrapfs_put_super sb) s s' \<Longrightarrow>
    vfs_step s s'"
| statfs: "bound s dentry \<Longrightarrow> did (wrapfs_statfs dentry buf) s s' \<Longrightarrow> vfs_step s s'"
| umount: "s_fs_info s sb = Some i \<Longrightarrow> did (wrapfs_umount_begin sb) s s' \<Longrightarrow> vfs_step s s'"
| evict: "did (wrapfs_evict_inode inode) s s' \<Longrightarrow> vfs_step s s'"

text \<open>The module is loaded and nothing is mounted.\<close>

definition loaded :: "kst \<Rightarrow> bool" where
  "loaded s \<longleftrightarrow> d_fsdata s = (\<lambda>x. None) \<and> lower_inode s = (\<lambda>x. 0) \<and>
     private_data s = (\<lambda>x. None) \<and> s_fs_info s = (\<lambda>x. None) \<and>
     wrapfs_inode_cachep s \<noteq> 0 \<and> wrapfs_dentry_cachep s \<noteq> 0 \<and> vfs_kernel (kern s) \<and>
     handed (calls s) = {#} \<and>
     holding s = Some {#RCache (wrapfs_inode_cachep s), RCache (wrapfs_dentry_cachep s)#}"

lemma loaded_sound:
  assumes "loaded s"
  shows "sound s"
proof -
  have l: "lower_of s = (\<lambda>x. None)"
    using assms by (simp add: loaded_def lower_of_def fun_eq_iff)
  then have "stored s = {#RCache (wrapfs_inode_cachep s), RCache (wrapfs_dentry_cachep s)#}"
    using assms by (simp add: stored_def owned_by_def loaded_def)
  then show ?thesis
    using assms l by (simp add: sound_def tidy_def loaded_def finite_priv_def covered_def)
qed

lemma vfs_step_sound:
  assumes "vfs_step s s'" "sound s"
  shows "sound s'"
  using assms
proof cases
  case (create dir dentry mode excl)
  show ?thesis
    by (rule did_sound[OF create(3) wrapfs_create_sound[OF assms(2) create(1-2)]])
next
  case (link old dir dentry)
  show ?thesis
    by (rule did_sound[OF link(4) wrapfs_link_sound[OF assms(2) link(1-3)]])
next
  case (unlink dir dentry)
  show ?thesis
    by (rule did_sound[OF unlink(3) wrapfs_unlink_sound[OF assms(2) unlink(1-2)]])
next
  case (symlink dir dentry symname)
  show ?thesis
    by (rule did_sound[OF symlink(3) wrapfs_symlink_sound[OF assms(2) symlink(1-2)]])
next
  case (mkdir dir dentry mode)
  show ?thesis
    by (rule did_sound[OF mkdir(3) wrapfs_mkdir_sound[OF assms(2) mkdir(1-2)]])
next
  case (rmdir dir dentry)
  show ?thesis
    by (rule did_sound[OF rmdir(2) wrapfs_rmdir_sound[OF assms(2) rmdir(1)]])
next
  case (mknod dir dentry mode dev)
  show ?thesis
    by (rule did_sound[OF mknod(3) wrapfs_mknod_sound[OF assms(2) mknod(1-2)]])
next
  case (rename od old nd dentry flags)
  show ?thesis
    by (rule did_sound[OF rename(3) wrapfs_rename_sound[OF assms(2) rename(1-2)]])
next
  case (readlink dentry buf n)
  show ?thesis
    by (rule did_sound[OF readlink(2) wrapfs_readlink_sound[OF assms(2) readlink(1)]])
next
  case (permission inode msk)
  show ?thesis
    by (rule did_sound[OF permission(2) wrapfs_permission_sound[OF assms(2) permission(1)]])
next
  case (setattr dentry ia)
  show ?thesis
    by (rule did_sound[OF setattr(4) wrapfs_setattr_sound[OF assms(2) setattr(1-3)]])
next
  case (getattr mnt dentry stat)
  show ?thesis
    by (rule did_sound[OF getattr(2) wrapfs_getattr_sound[OF assms(2) getattr(1)]])
next
  case (xattr_get dentry inode nm buf n)
  show ?thesis
    by (rule did_sound[OF xattr_get(2)[unfolded wrapfs_xattr_get_def] wrapfs_getxattr_sound[OF assms(2) xattr_get(1)]])
next
  case (xattr_set dentry inode nm val n flags)
  show ?thesis
    by (rule did_sound[OF xattr_set(3) wrapfs_xattr_set_sound[OF assms(2) xattr_set(1-2)]])
next
  case (listxattr dentry buf n)
  show ?thesis
    by (rule did_sound[OF listxattr(2) wrapfs_listxattr_sound[OF assms(2) listxattr(1)]])
next
  case (lookup dir dentry flags)
  show ?thesis
    by (rule did_sound2[OF lookup(5) wrapfs_lookup_sound[OF assms(2) lookup(1-4)]])
next
  case (revalidate dentry flags)
  show ?thesis
    by (rule did_sound[OF revalidate(2) wrapfs_d_revalidate_sound[OF assms(2) revalidate(1)]])
next
  case (release dentry)
  show ?thesis
    by (rule did_sound2[OF release(3) wrapfs_d_release_sound[OF assms(2) release(1-2)]])
next
  case (vread filp buf n ppos)
  show ?thesis
    by (rule did_sound[OF vread(2) wrapfs_read_sound[OF assms(2) vread(1)]])
next
  case (vwrite filp buf n ppos)
  show ?thesis
    by (rule did_sound[OF vwrite(2) wrapfs_write_sound[OF assms(2) vwrite(1)]])
next
  case (readdir filp ctx)
  show ?thesis
    by (rule did_sound[OF readdir(2) wrapfs_readdir_sound[OF assms(2) readdir(1)]])
next
  case (ioctl filp cmd arg)
  show ?thesis
    by (rule did_sound[OF ioctl(2) wrapfs_unlocked_ioctl_sound[OF assms(2) ioctl(1)]])
next
  case (compat_ioctl filp cmd arg)
  show ?thesis
    by (rule did_sound[OF compat_ioctl(2) wrapfs_compat_ioctl_sound[OF assms(2) compat_ioctl(1)]])
next
  case (mmap filp vma)
  show ?thesis
    by (rule did_sound[OF mmap(2) wrapfs_mmap_sound[OF assms(2) mmap(1)]])
next
  case (fault vma vmf)
  show ?thesis
    by (rule did_sound[OF fault(2) wrapfs_fault_sound[OF assms(2) fault(1)]])
next
  case (page_mkwrite vma vmf)
  show ?thesis
    by (rule did_sound[OF page_mkwrite(2) wrapfs_page_mkwrite_sound[OF assms(2) page_mkwrite(1)]])
next
  case (open_file inode filp)
  show ?thesis
    by (rule did_sound2[OF open_file(3) wrapfs_open_sound[OF assms(2) open_file(1-2)]])
next
  case (flush filp owner)
  show ?thesis
    by (rule did_sound[OF flush(2) wrapfs_flush_sound[OF assms(2) flush(1)]])
next
  case (file_release inode filp)
  show ?thesis
    by (rule did_sound2[OF file_release(2) wrapfs_file_release_sound[OF assms(2) file_release(1)]])
next
  case (fsync filp lo hi datasync)
  show ?thesis
    by (rule did_sound[OF fsync(3) wrapfs_fsync_sound[OF assms(2) fsync(1-2)]])
next
  case (fasync fd filp flag)
  show ?thesis
    by (rule did_sound[OF fasync(2) wrapfs_fasync_sound[OF assms(2) fasync(1)]])
next
  case (llseek filp offset whence)
  show ?thesis
    by (rule did_sound[OF llseek(2) wrapfs_file_llseek_sound[OF assms(2) llseek(1)]])
next
  case (read_iter iocb iter)
  show ?thesis
    by (rule did_sound[OF read_iter(2) wrapfs_read_iter_sound[OF assms(2) read_iter(1)]])
next
  case (write_iter iocb iter)
  show ?thesis
    by (rule did_sound[OF write_iter(2) wrapfs_write_iter_sound[OF assms(2) write_iter(1)]])
next
  case (mount sb dev_name silent r)
  show ?thesis
  proof (cases "dev_name = 0")
    case True
    with mount(2) assms(2) show ?thesis
      by (simp add: gives_def wrapfs_read_super_def)
  next
    case False
    then show ?thesis
      using gives_after[OF mount(2) wrapfs_read_super_sound[OF assms(2) mount(1)]] mount(3) by blast
  qed
next
  case (get_link dentry inode lnk)
  have "0 \<le> kret s (Kmalloc PAGE_SIZE)"
    using assms(2) by (simp add: sound_def tidy_def vfs_kernel_def kret_def)
  from did_after[OF get_link(2) get_link_sound[OF assms(2) get_link(1) this]] get_link(3)
  show ?thesis by blast
next
  case (remount sb flags)
  then show ?thesis
    using assms(2) by (simp add: did_def wrapfs_remount_fs_def)
next
  case (direct_IO iocb iter)
  then show ?thesis
    using assms(2) by (simp add: did_def wrapfs_direct_IO_def)
next
  case (put_super sb)
  show ?thesis
    by (rule did_sound2[OF put_super(2) wrapfs_put_super_sound[OF assms(2) put_super(1)]])
next
  case (statfs dentry buf)
  show ?thesis
    by (rule did_sound[OF statfs(2) wrapfs_statfs_sound[OF assms(2) statfs(1)]])
next
  case (umount sb i)
  show ?thesis
    by (rule did_sound[OF umount(2) wrapfs_umount_begin_sound[OF assms(2) umount(1)]])
next
  case (evict inode)
  show ?thesis
    by (rule did_sound2[OF evict wrapfs_evict_inode_sound[OF assms(2)]])
qed

lemma vfs_history_sound: "vfs_step\<^sup>*\<^sup>* s s' \<Longrightarrow> sound s \<Longrightarrow> sound s'"
  by (induction rule: rtranclp_induct) (auto intro: vfs_step_sound)

section \<open>Loading and unloading\<close>

text \<open>Before the module is loaded it has called nothing and keeps nothing.\<close>

definition unloaded :: "kst \<Rightarrow> bool" where
  "unloaded s \<longleftrightarrow> vfs_kernel (kern s) \<and> calls s = [] \<and> d_fsdata s = (\<lambda>x. None) \<and>
     lower_inode s = (\<lambda>x. 0) \<and> private_data s = (\<lambda>x. None) \<and> s_fs_info s = (\<lambda>x. None) \<and>
     wrapfs_inode_cachep s = 0 \<and> wrapfs_dentry_cachep s = 0"

lemma init_loads:
  assumes "unloaded s"
  shows "after init_wrapfs_fs (\<lambda>r s'. r = 0 \<longrightarrow> loaded s') s"
  using assms
  by (auto simp: unloaded_def init_wrapfs_fs_def wrapfs_init_inode_cache_def wrapfs_init_dentry_cache_def
      wrapfs_destroy_inode_cache_def wrapfs_destroy_dentry_cache_def loaded_def holding_def
      add_mset_commute intro!: walk split: if_splits)

text \<open>Nothing is left in the private data.\<close>

definition emptied :: "kst \<Rightarrow> bool" where
  "emptied s \<longleftrightarrow> d_fsdata s = (\<lambda>x. None) \<and> lower_inode s = (\<lambda>x. 0) \<and>
     private_data s = (\<lambda>x. None) \<and> s_fs_info s = (\<lambda>x. None)"

lemma emptied_stored:
  assumes "emptied s"
  shows "stored s = ref_if RCache (wrapfs_inode_cachep s) + ref_if RCache (wrapfs_dentry_cachep s)"
proof -
  have "lower_of s = (\<lambda>x. None)"
    using assms by (simp add: emptied_def lower_of_def fun_eq_iff)
  then show ?thesis
    using assms by (simp add: stored_def owned_by_def emptied_def)
qed

lemma exit_emptied:
  assumes "sound s" "emptied s"
  shows "after exit_wrapfs_fs (\<lambda>r s'. holding s' = Some (handed (calls s'))) s"
proof -
  have "holding s = Some (ref_if RCache (wrapfs_inode_cachep s) + ref_if RCache (wrapfs_dentry_cachep s) +
      handed (calls s))"
    using assms(1) emptied_stored[OF assms(2)] by (simp add: sound_def tidy_def)
  then show ?thesis
    by (auto simp: exit_wrapfs_fs_def wrapfs_destroy_inode_cache_def wrapfs_destroy_dentry_cache_def
        ref_if_def intro!: walk split: if_splits)
qed

end
