(* ===== verification/Wrapfs_Example.thy ===== *)
theory Wrapfs_Example
  imports Wrapfs_History
begin

text \<open>
  A concrete kernel and states of the module on it, for the witnesses. Entry 1 is the root of the mount
  on super block 3; its lower entry is 21. A path lookup finds the lower entry 22; both lie on the mount
  31 and the super block 4. The lower inodes are 221 and 222, and the inode that stands for one has the
  number of it plus 1000. The caches have memory for the first 60 calls.
\<close>

definition demo_ret :: "klog \<Rightarrow> call \<Rightarrow> int" where
  "demo_ret l c = (case c of
       CacheCreate b \<Rightarrow> (if b then 901 else 902)
     | Kzalloc \<Rightarrow> 5000 + int (length l) | Kmalloc n \<Rightarrow> 5000 + int (length l)
     | CacheAlloc c \<Rightarrow> (if length l < 60 then 5000 + int (length l) else 0)
     | DgetParent d \<Rightarrow> 1 | Igrab i \<Rightarrow> i | Iget5 sb n i \<Rightarrow> (if i > 0 then i + 1000 else 1000)
     | Ilookup sb n \<Rightarrow> (if n = 0 then 0 else 222)
     | DMakeRoot i \<Rightarrow> 1 | DentryOpen p f u \<Rightarrow> 700 | Lower (VfsRead f b n pos) \<Rightarrow> n
     | Lower (VfsReadlink d b n) \<Rightarrow> - EINVAL | _ \<Rightarrow> 0)"

definition demo_view :: "klog \<Rightarrow> query \<Rightarrow> int" where
  "demo_view l q = (case q of
       DInode d \<Rightarrow> (if d > 0 then d + 200 else 200)
     | DSb d \<Rightarrow> (if d = 21 \<or> d = 22 then 4 else 3)
     | ISb i \<Rightarrow> (if i = 221 \<or> i = 222 then 4 else 3)
     | OutDentry \<Rightarrow> (case l of [] \<Rightarrow> 22 | x # l' \<Rightarrow> (case fst x of KernPath nm f \<Rightarrow> 21 | _ \<Rightarrow> 22))
     | OutMnt \<Rightarrow> 31
     | FDentry f \<Rightarrow> 9
     | IIsNew j \<Rightarrow> (case l of [] \<Rightarrow> 0 | x # l' \<Rightarrow> (case fst x of
           Iget5 sb n i \<Rightarrow> (if snd x = j \<and> j \<notin> live_inodes l' then 1 else 0) | _ \<Rightarrow> 0))
     | IHasReadlink i \<Rightarrow> 1 | _ \<Rightarrow> 0)"

definition demo_kernel :: kernel where
  "demo_kernel = \<lparr>k_ret = demo_ret, k_view = demo_view\<rparr>"

lemma demo_vfs_kernel: "vfs_kernel demo_kernel"
  unfolding vfs_kernel_def demo_kernel_def demo_ret_def demo_view_def finds_path_def
  by (auto simp: Let_def split: call.splits vfs.splits)


section \<open>A life of the module\<close>

text \<open>Loaded, a mount, a lookup, a file opened, read and closed; then everything is given up again.\<close>

definition run :: "'a prog \<Rightarrow> kst \<Rightarrow> kst" where
  "run m s = snd (run_state m s)"

lemma did_run: "did m s (run m s)"
  by (simp add: did_def run_def)

definition demo0 :: kst where
  "demo0 = \<lparr>kern = demo_kernel, calls = [], d_fsdata = (\<lambda>x. None), lower_inode = (\<lambda>x. 0),
     private_data = (\<lambda>x. None), s_fs_info = (\<lambda>x. None), wrapfs_inode_cachep = 0,
     wrapfs_dentry_cachep = 0\<rparr>"

definition demo1 :: kst where "demo1 = run init_wrapfs_fs demo0"
definition demo2 :: kst where "demo2 = run (wrapfs_read_super 3 7 0) demo1"
definition demo3 :: kst where "demo3 = run (wrapfs_lookup 1221 9 0) demo2"
definition demo4 :: kst where "demo4 = run (wrapfs_open 1222 40) demo3"
definition demo5 :: kst where "demo5 = run (wrapfs_read 40 77 10 0) demo4"
definition demo6 :: kst where "demo6 = run (wrapfs_file_release 1222 40) demo5"
definition demo7 :: kst where "demo7 = run (wrapfs_d_release 9) demo6"
definition demo8 :: kst where "demo8 = run (wrapfs_d_release 1) demo7"
definition demo9 :: kst where "demo9 = run (wrapfs_evict_inode 1222) demo8"
definition demo10 :: kst where "demo10 = run (wrapfs_evict_inode 1221) demo9"
definition demo11 :: kst where "demo11 = run (wrapfs_put_super 3) demo10"

text \<open>Evaluation: the state is computed before the program is looked into.\<close>

definition run_on :: "('a \<Rightarrow> 'b prog) \<Rightarrow> 'a \<times> kst \<Rightarrow> 'b \<times> kst" where
  "run_on f z = run_state (f (fst z)) (snd z)"

lemma run_on: "run_on f (x, s) = run_state (f x) s"
  by (simp add: run_on_def)

lemma run_on_weak: "y = z \<Longrightarrow> run_on f y = run_on f z"
  by simp

lemma run_bind: "run_state (m \<bind> f) s = run_on f (run_state m s)"
  by (simp add: run_on_def split: prod.splits)

lemma run_kcall: "run_state (kcall c) s = (kret s c, log_call c (kret s c) s)"
  by (simp add: kcall_def)

lemma run_peek: "run_state (peek q) s = (kview s q, s)"
  by (simp add: peek_def)

lemma run_gets: "run_state (gets g) s = (g s, s)"
  by (simp add: gets_def)

lemma run_modify: "run_state (modify h) s = ((), h s)"
  by (simp add: modify_def)

lemma run_if: "run_state (if b then m else n) s = (if b then run_state m s else run_state n s)"
  by simp

lemma run_let: "run_state (let x = e in f x) s = run_state (f e) s"
  by simp

lemma run_option:
  "run_state (case_option m f z) s = (case z of None \<Rightarrow> run_state m s | Some y \<Rightarrow> run_state (f y) s)"
  by (simp split: option.split)

lemmas run_prog = run_bind run_kcall run_peek run_gets run_modify run_if run_let run_option

lemma run_state_weak: "s = t \<Longrightarrow> run_state m s = run_state m t"
  by simp

lemma unfold_run: "m = n \<Longrightarrow> run_state m s = run_state n s"
  by simp

lemma demo_kernel_simps: "k_ret demo_kernel = demo_ret" "k_view demo_kernel = demo_view"
  by (simp_all add: demo_kernel_def)

lemma demo_ret_simps:
  "demo_ret l (CacheCreate e) = (if e then 901 else 902)"
  "demo_ret l Kzalloc = 5000 + int (length l)"
  "demo_ret l (CacheAlloc c) = (if length l < 60 then 5000 + int (length l) else 0)"
  "demo_ret l (DgetParent d) = 1"
  "demo_ret l (Igrab i) = i"
  "demo_ret l (Iget5 sb n i) = (if i > 0 then i + 1000 else 1000)"
  "demo_ret l (Ilookup sb n) = (if n = 0 then 0 else 222)"
  "demo_ret l (DMakeRoot i) = 1"
  "demo_ret l (DentryOpen p f u) = 700"
  "demo_ret l (Lower (VfsRead f b n pos)) = n"
  "demo_ret l RegisterFs = 0"
  "demo_ret l (KernPath nm f) = 0"
  "demo_ret l (GotPath p) = 0"
  "demo_ret l (SActiveInc sb) = 0"
  "demo_ret l (Assign fd x y) = 0"
  "demo_ret l (DSetDOp d) = 0"
  "demo_ret l (SpinInit a) = 0"
  "demo_ret l (SpinLock a) = 0"
  "demo_ret l (SpinUnlock a) = 0"
  "demo_ret l (DRehash d) = 0"
  "demo_ret l (PathGet p) = 0"
  "demo_ret l (PathPut p) = 0"
  "demo_ret l (Dput d) = 0"
  "demo_ret l (VfsPathLookup d m nm) = 0"
  "demo_ret l (DSpliceAlias i d) = 0"
  "demo_ret l (Copy k x y) = 0"
  "demo_ret l (UnlockNewInode i) = 0"
  "demo_ret l (Iput i) = 0"
  "demo_ret l (Fput f) = 0"
  "demo_ret l (CacheFree c a) = 0"
  "demo_ret l (TruncatePages i) = 0"
  "demo_ret l (ClearInode i) = 0"
  "demo_ret l (SActiveDec sb) = 0"
  "demo_ret l (Kfree a) = 0"
  by (simp_all add: demo_ret_def)

lemma demo_view_simps:
  "demo_view l (DInode d) = (if d > 0 then d + 200 else 200)"
  "demo_view l (DSb d) = (if d = 21 \<or> d = 22 then 4 else 3)"
  "demo_view l (ISb i) = (if i = 221 \<or> i = 222 then 4 else 3)"
  "demo_view l OutDentry = (case l of [] \<Rightarrow> 22 | x # l' \<Rightarrow> (case fst x of KernPath nm f \<Rightarrow> 21 | _ \<Rightarrow> 22))"
  "demo_view l OutMnt = 31"
  "demo_view l (FDentry f) = 9"
  "demo_view l (IIsNew j) = (case l of [] \<Rightarrow> 0 | x # l' \<Rightarrow> (case fst x of
           Iget5 sb n i \<Rightarrow> (if snd x = j \<and> j \<notin> live_inodes l' then 1 else 0) | _ \<Rightarrow> 0))"
  "demo_view l (INumber i) = 0"
  "demo_view l (SMaxbytesOf i) = 0"
  "demo_view l (IVer i) = 0"
  "demo_view l (IsDir i) = 0"
  "demo_view l (IsLnk i) = 0"
  "demo_view l (IsSpecial i) = 0"
  "demo_view l (IMode i) = 0"
  "demo_view l (IRdev i) = 0"
  "demo_view l (IsRoot d) = 0"
  "demo_view l (DName d) = 0"
  "demo_view l (DUnhashed d) = 0"
  "demo_view l (FFlags f) = 0"
  "demo_view l CurrentCred = 0"
  "demo_view l (FInode f) = 0"
  by (simp_all add: demo_view_def)

lemmas demo_simps = run_prog run_on run_def kret_def kview_def log_call_def demo_kernel_simps demo_ret_simps
  demo_view_simps path_of_def IS_ERR_def

lemmas demo_private = null_deref_def[THEN unfold_run] WRAPFS_D_def[THEN unfold_run]
  WRAPFS_F_def[THEN unfold_run] WRAPFS_SB_def[THEN unfold_run]
  wrapfs_set_lower_super_def[THEN unfold_run] wrapfs_lower_super_def[THEN unfold_run]
  wrapfs_set_lower_inode_def[THEN unfold_run] wrapfs_lower_inode_def[THEN unfold_run]
  wrapfs_set_lower_file_def[THEN unfold_run] wrapfs_lower_file_def[THEN unfold_run]
  assign_lower_path_def[THEN unfold_run] wrapfs_set_lower_path_def[THEN unfold_run]
  wrapfs_get_lower_path_def[THEN unfold_run] wrapfs_put_lower_path_def[THEN unfold_run]
  wrapfs_put_reset_lower_path_def[THEN unfold_run] new_dentry_private_data_def[THEN unfold_run]
  free_dentry_private_data_def[THEN unfold_run] wrapfs_iget_def[THEN unfold_run]
  interpose_def[THEN unfold_run]

lemmas demo_super = init_wrapfs_fs_def[THEN unfold_run] wrapfs_init_inode_cache_def[THEN unfold_run]
  wrapfs_init_dentry_cache_def[THEN unfold_run] wrapfs_read_super_def[THEN unfold_run]
  read_super_root_def[THEN unfold_run] wrapfs_evict_inode_def[THEN unfold_run]
  wrapfs_put_super_def[THEN unfold_run] free_sb_info_def[THEN unfold_run]

lemmas demo_ops = wrapfs_lookup_def[THEN unfold_run] lookup_def[THEN unfold_run]
  lookup_positive_def[THEN unfold_run] wrapfs_open_def[THEN unfold_run] wrapfs_read_def[THEN unfold_run]
  wrapfs_file_release_def[THEN unfold_run] free_file_info_def[THEN unfold_run]
  wrapfs_d_release_def[THEN unfold_run]

section \<open>Their logs and the states\<close>

definition demo_load :: klog where
  "demo_load =
     [(RegisterFs, 0), (CacheCreate False, 902), (CacheCreate True, 901)]"

definition demo_mount :: klog where
  "demo_mount =
     [(DRehash 1, 0), (SpinUnlock 5026, 0), (SpinLock 5026, 0), (SpinInit 5026, 0),
      (CacheAlloc 902, 5026), (DSetDOp 1, 0), (Assign SRoot 3 1, 0), (DMakeRoot 1221, 1),
      (UnlockNewInode 1221, 0), (Copy InodeSize 1221 221, 0), (Copy AttrAll 1221 221, 0),
      (Assign ITimes 1221 0, 0), (Assign IAops 1221 main_ops, 0), (Assign IFop 1221 main_ops, 0),
      (Assign IOp 1221 main_ops, 0), (Assign IVersion 1221 1, 0), (Assign IIno 1221 0, 0),
      (Iget5 3 0 221, 1221), (Igrab 221, 221), (Assign SExportOp 3 main_ops, 0),
      (Assign SXattr 3 main_ops, 0), (Assign SOp 3 main_ops, 0), (Assign STimeGran 3 1, 0),
      (Assign SMaxbytes 3 0, 0), (SActiveInc 4, 0), (Kzalloc, 5005),
      (GotPath \<lparr>p_dentry = 21, p_mnt = 31\<rparr>, 0),
      (KernPath 7 (LOOKUP_FOLLOW OR LOOKUP_DIRECTORY), 0)]"

definition demo_lookup :: klog where
  "demo_lookup =
     [(Dput 1, 0), (PathPut \<lparr>p_dentry = 21, p_mnt = 31\<rparr>, 0), (Copy AttrAtime 201 0, 0),
      (Copy AttrTimes 209 0, 0), (DSpliceAlias 1222 9, 0), (UnlockNewInode 1222, 0),
      (Copy InodeSize 1222 222, 0), (Copy AttrAll 1222 222, 0), (Assign ITimes 1222 0, 0),
      (Assign IAops 1222 main_ops, 0), (Assign IFop 1222 main_ops, 0), (Assign IOp 1222 main_ops, 0),
      (Assign IVersion 1222 1, 0), (Assign IIno 1222 0, 0), (Iget5 3 0 222, 1222), (Igrab 222, 222),
      (SpinUnlock 5035, 0), (SpinLock 5035, 0), (GotPath \<lparr>p_dentry = 22, p_mnt = 31\<rparr>, 0),
      (VfsPathLookup 21 31 0, 0), (DSetDOp 9, 0), (SpinInit 5035, 0), (CacheAlloc 902, 5035),
      (SpinUnlock 5026, 0), (PathGet \<lparr>p_dentry = 21, p_mnt = 31\<rparr>, 0), (SpinLock 5026, 0),
      (DgetParent 9, 1)]"

definition demo_open :: klog where
  "demo_open =
     [(Copy AttrAll 1222 222, 0), (PathPut \<lparr>p_dentry = 22, p_mnt = 31\<rparr>, 0),
      (DentryOpen \<lparr>p_dentry = 22, p_mnt = 31\<rparr> 0 0, 700), (SpinUnlock 5035, 0),
      (PathGet \<lparr>p_dentry = 22, p_mnt = 31\<rparr>, 0), (SpinLock 5035, 0), (Kzalloc, 5058)]"

lemmas demo_logs = demo_load_def demo_mount_def demo_lookup_def demo_open_def

lemma demo1_eq: "demo1 = demo0\<lparr>wrapfs_inode_cachep := 901, wrapfs_dentry_cachep := 902,
   calls := demo_load\<rparr>"
  by (simp add: demo1_def demo0_def demo_logs demo_simps demo_super cong: run_state_weak run_on_weak del: run_state_bind)

lemma demo2_eq: "demo2 = \<lparr>kern = demo_kernel, calls = demo_mount @ demo_load,
    d_fsdata = [1 \<mapsto> \<lparr>di_addr = 5026, lower_path = \<lparr>p_dentry = 21, p_mnt = 31\<rparr>\<rparr>],
    lower_inode = (\<lambda>x. 0)(1221 := 221), private_data = \<lambda>x. None,
    s_fs_info = [3 \<mapsto> \<lparr>si_addr = 5005, lower_sb = 4\<rparr>], wrapfs_inode_cachep = 901,
    wrapfs_dentry_cachep = 902\<rparr>"
  by (simp add: demo2_def demo1_eq demo0_def demo_logs demo_simps demo_private demo_super demo_ops cong: run_state_weak run_on_weak del: run_state_bind)

lemma demo3_eq: "demo3 = \<lparr>kern = demo_kernel, calls = demo_lookup @ demo_mount @ demo_load,
    d_fsdata = [1 \<mapsto> \<lparr>di_addr = 5026, lower_path = \<lparr>p_dentry = 21, p_mnt = 31\<rparr>\<rparr>,
      9 \<mapsto> \<lparr>di_addr = 5035, lower_path = \<lparr>p_dentry = 22, p_mnt = 31\<rparr>\<rparr>],
    lower_inode = (\<lambda>x. 0)(1221 := 221, 1222 := 222), private_data = \<lambda>x. None,
    s_fs_info = [3 \<mapsto> \<lparr>si_addr = 5005, lower_sb = 4\<rparr>], wrapfs_inode_cachep = 901,
    wrapfs_dentry_cachep = 902\<rparr>"
  by (simp add: demo3_def demo2_eq demo_logs demo_simps demo_private demo_super demo_ops cong: run_state_weak run_on_weak del: run_state_bind)

lemma demo4_eq: "demo4 = \<lparr>kern = demo_kernel, calls = demo_open @ demo_lookup @ demo_mount @ demo_load,
    d_fsdata = [1 \<mapsto> \<lparr>di_addr = 5026, lower_path = \<lparr>p_dentry = 21, p_mnt = 31\<rparr>\<rparr>,
      9 \<mapsto> \<lparr>di_addr = 5035, lower_path = \<lparr>p_dentry = 22, p_mnt = 31\<rparr>\<rparr>],
    lower_inode = (\<lambda>x. 0)(1221 := 221, 1222 := 222),
    private_data = [40 \<mapsto> \<lparr>fi_addr = 5058, lower_file = 700, lower_vm_ops = 0\<rparr>],
    s_fs_info = [3 \<mapsto> \<lparr>si_addr = 5005, lower_sb = 4\<rparr>], wrapfs_inode_cachep = 901,
    wrapfs_dentry_cachep = 902\<rparr>"
  by (simp add: demo4_def demo3_eq demo_logs demo_simps demo_private demo_super demo_ops cong: run_state_weak run_on_weak del: run_state_bind)

text \<open>The kernel stays the same; what the guards of the further calls ask for.\<close>

lemma demo_guards:
  "private_data demo5 40 = Some \<lparr>fi_addr = 5058, lower_file = 700, lower_vm_ops = 0\<rparr>"
  "d_fsdata demo6 9 \<noteq> None" "d_fsdata demo7 1 \<noteq> None"
  "s_fs_info demo10 3 = Some \<lparr>si_addr = 5005, lower_sb = 4\<rparr>"
  by (simp_all add: demo5_def demo6_def demo7_def demo8_def demo9_def demo10_def demo4_eq demo_simps demo_private demo_super demo_ops cong: run_state_weak run_on_weak del: run_state_bind)

lemma demo11_empty:
  "d_fsdata demo11 = (\<lambda>x. None)" "lower_inode demo11 = (\<lambda>x. 0)" "private_data demo11 = (\<lambda>x. None)"
  "s_fs_info demo11 = (\<lambda>x. None)" "handed (calls demo11) = {#RDentry 1#}"
  by (simp_all add: demo5_def demo6_def demo7_def demo8_def demo9_def demo10_def demo11_def demo4_eq
      demo_logs fun_eq_iff demo_simps demo_private demo_super demo_ops cong: run_state_weak run_on_weak del: run_state_bind)

lemma demo1_loaded: "loaded demo1"
  by (simp add: loaded_def demo1_eq demo0_def demo_vfs_kernel demo_load_def holding_def add_mset_commute)

text \<open>A life of the module on the demo kernel is a history of steps of the VFS.\<close>

lemma demo_mounted: "gives (wrapfs_read_super 3 7 0) 0 demo1 demo2"
proof -
  have "fst (run_state (wrapfs_read_super 3 7 0) demo1) = 0"
    by (simp add: demo1_eq demo0_def demo_logs demo_simps demo_private demo_super demo_ops
        cong: run_state_weak run_on_weak del: run_state_bind)
  then show ?thesis
    by (simp add: gives_def demo2_def run_def prod_eq_iff)
qed

lemma demo_history2: "vfs_step demo1 demo2"
  by (rule vfs_step.mount[OF _ demo_mounted]) (auto simp: demo1_eq demo0_def demo2_eq demo_mount_def)

lemma demo_history3: "vfs_step demo2 demo3"
  unfolding demo3_def
  by (rule vfs_step.lookup[OF _ _ _ _ did_run])
    (simp_all add: demo2_eq bound_def mounted_def priv_def kret_def demo_kernel_simps demo_ret_simps
      demo_view_simps)

lemma demo_init: "run_state init_wrapfs_fs demo0 = (0, demo1)"
proof -
  have "fst (run_state init_wrapfs_fs demo0) = 0"
    by (simp add: demo0_def demo_simps demo_super cong: run_state_weak run_on_weak del: run_state_bind)
  then show ?thesis
    by (simp add: demo1_def run_def prod_eq_iff)
qed

lemma demo_history3': "vfs_step\<^sup>*\<^sup>* demo1 demo3"
  by (meson demo_history2 demo_history3 converse_rtranclp_into_rtranclp rtranclp.rtrancl_refl)

lemma demo_bound: "bound demo3 (k_view (kern demo3) l (FDentry 40))"
  by (simp add: demo3_eq bound_def demo_kernel_simps demo_view_simps)

lemma demo_history4: "vfs_step demo3 demo4"
  unfolding demo4_def
  by (rule vfs_step.open_file[OF _ demo_bound did_run]) (simp add: demo3_eq)

lemma demo_history: "vfs_step\<^sup>*\<^sup>* demo1 demo11"
proof -
  have "vfs_step demo4 demo5"
    unfolding demo5_def
    by (rule vfs_step.vread[OF _ did_run]) (simp add: demo4_eq file_opened_def)
  moreover have "vfs_step demo5 demo6"
    unfolding demo6_def by (rule vfs_step.file_release[OF _ did_run]) (simp add: demo_guards)
  moreover have "vfs_step demo6 demo7"
    unfolding demo7_def by (rule vfs_step.release[OF _ _ did_run]) (simp_all add: demo_guards)
  moreover have "vfs_step demo7 demo8"
    unfolding demo8_def by (rule vfs_step.release[OF _ _ did_run]) (simp_all add: demo_guards)
  moreover have "vfs_step demo8 demo9"
    unfolding demo9_def by (rule vfs_step.evict[OF did_run])
  moreover have "vfs_step demo9 demo10"
    unfolding demo10_def by (rule vfs_step.evict[OF did_run])
  moreover have "vfs_step demo10 demo11"
    unfolding demo11_def by (rule vfs_step.put_super[OF _ did_run]) (simp add: demo_guards)
  ultimately show ?thesis
    by (meson demo_history2 demo_history3 demo_history4 converse_rtranclp_into_rtranclp
        rtranclp.rtrancl_refl)
qed

lemma demo3_sound: "sound demo3"
  by (rule vfs_history_sound[OF demo_history3' loaded_sound[OF demo1_loaded]])

lemma demo2_sound: "sound demo2"
  by (rule vfs_step_sound[OF demo_history2 loaded_sound[OF demo1_loaded]])

text \<open>
  Memory is exhausted when 60 calls have been made: the lookup of a further entry fails for lack of its
  private data.
\<close>

lemma demo_history4': "vfs_step\<^sup>*\<^sup>* demo1 demo4"
  by (meson demo_history3' demo_history4 rtranclp.rtrancl_into_rtrancl)

lemma demo_no_memory: "fst (run_state (wrapfs_lookup 1221 10 0) demo4) = - ENOMEM"
  by (simp add: demo4_eq demo_logs demo_simps demo_private demo_super demo_ops cong: run_state_weak run_on_weak del: run_state_bind)

text \<open>Following the link at entry 9, whose inode is not a link: the lower file system refuses.\<close>

lemma demo_get_link: "fst (run_state (wrapfs_get_link 9 1222 0) demo3) = - EINVAL"
  by (simp add: demo3_eq wrapfs_get_link_def[THEN unfold_run] wrapfs_readlink_def[THEN unfold_run]
      demo_ret_def demo_view_def demo_simps demo_private cong: run_state_weak run_on_weak del: run_state_bind)

section \<open>A mount that fails\<close>

text \<open>The same kernel, but for its \<open>d_make_root\<close>, and the state in which that is called.\<close>

definition demo_no_root :: kernel where
  "demo_no_root = \<lparr>k_ret = (\<lambda>l c. case c of DMakeRoot i \<Rightarrow> 0 | _ \<Rightarrow> demo_ret l c), k_view = demo_view\<rparr>"

lemma demo_no_root_kernel: "vfs_kernel demo_no_root"
  unfolding vfs_kernel_def demo_no_root_def demo_ret_def demo_view_def finds_path_def
  by (auto simp: Let_def split: call.splits vfs.splits)

definition demo_half :: kst where
  "demo_half = \<lparr>kern = demo_no_root, calls = drop 8 demo_mount @ demo_load, d_fsdata = \<lambda>x. None,
     lower_inode = (\<lambda>x. 0)(1221 := 221), private_data = \<lambda>x. None,
     s_fs_info = [3 \<mapsto> \<lparr>si_addr = 5005, lower_sb = 4\<rparr>], wrapfs_inode_cachep = 901,
     wrapfs_dentry_cachep = 902\<rparr>"

lemma demo_half_ready: "root_ready 3 4 (path_of 21 31) 1221 demo_half"
proof -
  have l: "lower_of demo_half = [1221 \<mapsto> 221]"
    by (simp add: demo_half_def lower_of_def fun_eq_iff)
  then have o: "stored demo_half = {#RInode 221, RMem 5005, RSuper 4, RCache 901, RCache 902#}"
    by (simp add: stored_def owned_by_def s_owns_def) (simp add: demo_half_def s_owns_def)
  have h: "holding demo_half = Some {#RInode 1221, RInode 221, RSuper 4, RMem 5005, RDentry 21, RMnt 31,
      RCache 902, RCache 901#}"
    by (simp add: holding_def demo_half_def demo_mount_def demo_load_def path_refs_def)
  have k: "kern demo_half = demo_no_root" "handed (calls demo_half) = {#}" "covered demo_half"
    by (simp_all add: demo_half_def demo_mount_def demo_load_def covered_def)
  show ?thesis
    using l by (simp add: root_ready_def st_def o h k demo_no_root_kernel finite_priv_def path_refs_def
        add_mset_commute) (simp add: demo_half_def)
qed

end
