(* ===== verification/Spec2Isabelle.thy ===== *)
theory Spec2Isabelle
  imports Example_Service Work_Queue Uthash_Correct Wrapfs_Example
begin

text \<open>
  PadoFS is a file system whose files are made of extents of data objects that live on other hosts.
  The repository has an inode server (\<^verbatim>\<open>inserver.c\<close> over \<^verbatim>\<open>incont.c\<close>), which keeps
  the layout of every file; a mapping server (\<^verbatim>\<open>lpmapser.c\<close>), which maps inode numbers of the base
  file system to inode numbers of PadoFS; clients of both; and a kernel module (\<^verbatim>\<open>wrapfs\<close>) that stacks a
  file system on another one and on which the client side is to be built. This development models the two
  servers, the client's side of their protocol, and the module.

  The parts and their theories, from the bottom:

  \<^item> \<^verbatim>\<open>Prelude\<close>: machine integers, the fault monad (\<open>None\<close> is a fault of the C program: a bad
    pointer, a failed \<^verbatim>\<open>assert\<close>, a wait or a loop that does not end), little-endian coding.
  \<^item> \<^verbatim>\<open>Uthash\<close>: the contract of the hash tables, as the locale \<open>table\<close>, and the list model that
    satisfies it. \<^verbatim>\<open>Uthash_Heap\<close>, \<^verbatim>\<open>Uthash_Correct\<close>: the table as the macros of
    \<^verbatim>\<open>uthash.h\<close> build it (handles, chains, buckets that double, Jenkins' hash), and that on distinct
    keys it does what the list model does. \<^verbatim>\<open>Lp_Map\<close>: the mapping server, its requests, its backup file; it refines a
    finite map (\<open>lp_specs\<close>).
  \<^item> \<^verbatim>\<open>Store\<close>: the structures of \<^verbatim>\<open>incont.h\<close> as records, and a store that maps addresses
    to them, with the allocator, the connection in hand, the data object servers (a parameter: any
    function from the requests so far to a reply or a refusal) and the build switches
    \<^verbatim>\<open>WITH_MAPSERVER\<close> and \<^verbatim>\<open>NODP\<close>. A pivot (\<^verbatim>\<open>struct extent **\<close>) is the slot it points at.
  \<^item> \<^verbatim>\<open>Rebalance\<close>: \<^verbatim>\<open>rebalance\<close> of \<^verbatim>\<open>incont.c\<close>; trees with stored depths,
    contexts (the path from a subtree to the root) and what \<^verbatim>\<open>rebalance\<close> does on them.
    \<^verbatim>\<open>Tree_Heap\<close>: when a tree and a context stand in the store. \<^verbatim>\<open>Rebalance_Correct\<close>: the
    pointer code does what the function on trees does.
  \<^item> \<^verbatim>\<open>Extents\<close>, \<^verbatim>\<open>Replace\<close>, \<^verbatim>\<open>File_Ops\<close>: the operations on extents and data objects,
    \<^verbatim>\<open>replace\<close> cut at its phases, and write, truncate, clone, read and the readers of the
    metadata. \<^verbatim>\<open>Layout\<close>: a well-formed layout (\<open>layout\<close>: balanced tree and doubly linked list
    with the same extents in the same order) and that insertion and removal keep it.
    \<^verbatim>\<open>Extent_Map\<close>: the map from offsets to places that a layout stands for, and that
    \<^verbatim>\<open>pado_read\<close> reports it.
  \<^item> \<^verbatim>\<open>Refs\<close>, \<^verbatim>\<open>Replace_Correct\<close>, \<^verbatim>\<open>Replace_Map\<close>: the reference lists of the data
    objects (\<open>owned\<close>), a layout in the course of a replacement (\<open>stage\<close>: extents that are placed and
    extents that are not yet), the phases of \<^verbatim>\<open>replace\<close>, and that the whole of it is the replacement
    of a range in a map. \<^verbatim>\<open>File_Correct\<close>, \<^verbatim>\<open>Dobj_Correct\<close>, \<^verbatim>\<open>Clone_Correct\<close>: the
    well-formed file (\<open>file_ok\<close>), what write, truncate, clone and the removal of a data object do
    to its map, and what they leave alone (\<open>edits\<close>). \<^verbatim>\<open>Checks\<close>: the checks of the debug build
    accept it; the depth of its tree.
  \<^item> \<^verbatim>\<open>Inode_Map\<close>: the table of inodes, their creation, release and deletion; draining; backup and
    restore. \<^verbatim>\<open>Inode_Server\<close>: the handlers of \<^verbatim>\<open>worker_thread\<close>, one definition for each case of the
    \<^verbatim>\<open>switch\<close>, and \<open>process\<close>, one request from end to end; the checks of \<^verbatim>\<open>test.c\<close> that the debug
    build runs after it. \<^verbatim>\<open>Frames\<close>: what no operation touches (locks, table, switches), and with
    it that requests give their locks back; \<^verbatim>\<open>Memory\<close>: how much memory the operations take. Both
    interpret the locale of \<^verbatim>\<open>Layout_Frames\<close>, a view of the store that edits of a layout keep.
    \<^verbatim>\<open>Inode_Table\<close>: the table and the handlers.
  \<^item> \<^verbatim>\<open>Handler_Correct\<close>, \<^verbatim>\<open>Request_Correct\<close>, \<^verbatim>\<open>Read_Correct\<close>, \<^verbatim>\<open>Request_More\<close>: the
    handlers and the whole requests of \<^verbatim>\<open>WRITE\<close>, \<^verbatim>\<open>READ_LAYOUT\<close>, \<^verbatim>\<open>TRUNCATE\<close>,
    \<^verbatim>\<open>CLONE_TO\<close> and \<^verbatim>\<open>REMOVE_DOBJ\<close> between two well-formed states (\<open>sane\<close>): the effect on
    the map of the file (\<open>served\<close>), and that the other files are kept (\<open>others_kept\<close>).
  \<^item> \<^verbatim>\<open>New_File\<close>: an inode that enters the table as an empty file, the answer that describes a whole
    file, and \<^verbatim>\<open>CREATE_OPEN_INODE\<close>. \<^verbatim>\<open>Backup_Correct\<close>: the image of a file in a backup, what a
    backup writes, and that \<^verbatim>\<open>do_restore\<close> gives every file back (\<open>restored\<close>).
  \<^item> \<^verbatim>\<open>Client\<close>: what \<^verbatim>\<open>testremote.c\<close> writes for its requests and how it reads the
    replies. \<^verbatim>\<open>Service\<close>: the file system that a client sees (\<open>afs\<close>, \<open>fs_step\<close>), when a server
    shows it (\<open>shows_fs\<close>), that the server simulates it request by request, and the client that copies a range.
  \<^item> \<^verbatim>\<open>Work_Queue\<close>: the accept loop and the threads as a transition system; whether the request
    that a thread serves comes to an end is a parameter (\<open>ends\<close>).
  \<^item> \<^verbatim>\<open>Examples\<close>, \<^verbatim>\<open>Example_Files\<close>, \<^verbatim>\<open>Example_Service\<close>: the concrete stores of the witnesses.
  \<^item> \<^verbatim>\<open>Wrapfs_Kernel\<close>: the kernel that \<^verbatim>\<open>src/wrapfs\<close> calls, as a parameter (\<open>kernel\<close>: an answer to
    every call, by the calls made so far), what is assumed of it (\<open>vfs_kernel\<close>), programs over it in the
    state monad, the ledger of references, locks and allocations (\<open>ledger\<close>), and \<open>after\<close>, the weakest
    precondition. \<^verbatim>\<open>Wrapfs_Private\<close>: \<^verbatim>\<open>wrapfs.h\<close>. \<^verbatim>\<open>Wrapfs_Lookup\<close>: \<^verbatim>\<open>lookup.c\<close> and
    \<^verbatim>\<open>dentry.c\<close>. \<^verbatim>\<open>Wrapfs_Inode\<close>: \<^verbatim>\<open>inode.c\<close>. \<^verbatim>\<open>Wrapfs_File\<close>: \<^verbatim>\<open>file.c\<close> and
    \<^verbatim>\<open>mmap.c\<close>. \<^verbatim>\<open>Wrapfs_Super\<close>: \<^verbatim>\<open>super.c\<close> and \<^verbatim>\<open>main.c\<close>; one definition for each function.
  \<^item> \<^verbatim>\<open>Wrapfs_Rules\<close>, \<^verbatim>\<open>Wrapfs_Owned\<close>: the program logic (\<open>st\<close>) and what the private data own
    (\<open>stored\<close>, \<open>sound\<close>). \<^verbatim>\<open>Wrapfs_Inode_Correct\<close>, \<^verbatim>\<open>Wrapfs_Lookup_Correct\<close>,
    \<^verbatim>\<open>Wrapfs_File_Correct\<close>, \<^verbatim>\<open>Wrapfs_Super_Correct\<close>: every operation keeps it, on every path, and
    where the code does not. \<^verbatim>\<open>Wrapfs_Stack\<close>: what each request becomes below (\<open>lower_request\<close>)
    and when it is refused (\<open>turned_down\<close>).
    \<^verbatim>\<open>Wrapfs_History\<close>: the calls of the VFS as a transition system (\<open>vfs_step\<close>; it leaves out
    the three kinds of calls that break the books), loading and unloading. \<^verbatim>\<open>Wrapfs_Example\<close>: a concrete kernel and a life of the module on it.

  Interaction: the accept loop hands a command byte to a thread (\<open>wq_step\<close>), the thread runs \<open>process\<close>,
  which finds the inode in the table, calls the handler, which works on the layout, and answers. The
  variant with a mapping server calls \<open>lp_serve\<close> where the code talks to that server. The module
  runs in the kernel of a client and shares no code or message with the servers yet; its parts meet in
  the private data of entries, inodes, files and super blocks (\<open>kst\<close>).

  Bounds: loops that end by their data are \<open>fun\<close>; loops over pointers are
  \<open>partial_function (option)\<close>, so that a loop that does not end is \<open>None\<close>, and the properties state
  that the result is \<open>Some\<close>. There is no fuel. Offsets, lengths, inode numbers and counters are words
  of their width and wrap as in C; the depth of an extent is an integer, which is at most the number of
  extents. The queue has the sizes of the code (\<open>WQ_LENGTH\<close>, \<open>NUM_THREADS\<close>).

  The order of work: the layout of a file first (tree, list, search, read), then the queue and the
  mapping server, then the handlers and the table of inodes, the service and its clients, the hash table,
  and the kernel module.

  Not modelled: options, sockets and file names of the two \<^verbatim>\<open>main\<close> functions; the texts of the debug
  output; the address of the mapping server (only whether it can be reached); the interleaving of two
  requests inside a handler (a request is one step, and a lock call that would have to wait is a fault
  of the model); the mock data object server, the sockets, counters and random choices of
  \<^verbatim>\<open>testremote.c\<close>, the other test clients, the benchmarks; of \<^verbatim>\<open>wrapfs\<close> the tables
  that register its operations, the wrappers that hand a function to the kernel (\<^verbatim>\<open>wrapfs_mount\<close>,
  \<^verbatim>\<open>wrapfs_fh_to_dentry\<close>), printing, operations that run inside a kernel call made by another one (a step
  of \<open>vfs_step\<close> is a whole operation) and two operations at a time; the skeleton of a module under
  \<^verbatim>\<open>src/module\<close>.
\<close>

section \<open>The service\<close>

text \<open>C1: the inode server simulates a file system that is a map from numbers to files, each a size, a map from
  offsets to places, a count of references and a mark for a base that is shared. Every request that a client may send
  in a state, for which there is memory, is served: the reply says what it should, and the server then shows
  the next state of the file system. This is so for opening and creating, writing, truncation, cloning, reading, the
  removal of a data object and giving a reference back (with which a file can go away), and for numbers that have no file.\<close>

theorem service_refines:
  assumes "shows_fs h F" "allowed r F" "mem_need r \<le> avail h"
  shows "\<exists>b h'. serve r h = Some (b, h') \<and> reply_ok r (F (req_ino r)) b \<and> shows_fs h' (fs_step r F) \<and>
    avail h \<le> avail h' + mem_need r"
  using assms by (rule serve_correct)

theorem service_refines_witness:
  "\<exists>b h'. serve (Unref 8) ex_files = Some (b, h') \<and> b = int_bytes (err INVALID_UNREF) \<and> find_inode 8 h' = NULL \<and>
    find_inode 7 h' \<noteq> NULL"
proof -
  have "allowed (Unref 8) ex_fs" "mem_need (Unref 8) \<le> avail ex_files" by (simp_all add: allowed_def)
  from service_refines[OF ex_files_shows this] obtain b h' where "serve (Unref 8) ex_files = Some (b, h')"
    "reply_ok (Unref 8) (ex_fs 8) b" "shows_fs h' (fs_step (Unref 8) ex_fs)" by auto
  moreover have "fs_step (Unref 8) ex_fs = ex_fs(8 := None)" "ex_fs 8 \<noteq> None" "a_refs (the (ex_fs 8)) = 0" "\<exists>a. ex_fs 7 = Some a"
    by (simp_all add: fs_step_def ex_fs_def unref_to_def)
  ultimately show ?thesis using shows_none[of h' "ex_fs(8 := None)" 8] shows_fileE[of h' "ex_fs(8 := None)" 7] by fastforce
qed

text \<open>C2: a server that has been started with an empty table serves every sequence of requests, each of which the
  client may send after those before it, to the end, as long as the memory suffices for all of them; the replies
  are right, and what the server shows in the end is what the steps of the file system make of it.\<close>

theorem service_completes:
  assumes "sane h" "fresh_ok h" "\<not> with_ms h" "dos_up h" "inode_map h = []"
    and "all_allowed rs Map.empty" "sum_list (map mem_need rs) \<le> avail h"
  shows "\<exists>bs h'. serve_all rs h = Some (bs, h') \<and> replies_ok rs Map.empty bs \<and> shows_fs h' (fold fs_step rs Map.empty)"
  using serve_all_correct[OF started_shows[OF assms(1-5)] assms(6,7)] .

theorem service_completes_witness:
  "\<exists>bs h' xs. serve_all ex_requests ex_fresh = Some (bs, h') \<and> find_inode 101 h' = NULL \<and>
    file_ok h' (find_inode 100 h') xs \<and> where_is h' xs 7 = Some (3, 44, 7)"
proof -
  have "dos_up ex_fresh" using ex_fresh_shows(1) by (simp add: shows_fs_def)
  from service_completes[OF ex_fresh_sane(1-3) this ex_fresh_sane(4) ex_requests_allowed(1)] ex_requests_allowed(2) ex_fresh_shows(2)
  obtain bs h' where s: "serve_all ex_requests ex_fresh = Some (bs, h')" "shows_fs h' (fold fs_step ex_requests Map.empty)" by auto
  from ex_requests_end(2) obtain a where a: "fold fs_step ex_requests Map.empty 100 = Some a" "a_map a 7 = Some (3, 44, 7)" by blast
  from shows_fileE[OF s(2) a(1)] obtain xs where "file_ok h' (find_inode 100 h') xs" "where_is h' xs 7 = Some (3, 44, 7)"
    using a(2) by metis
  with s(1) shows_none[OF s(2) ex_requests_end(1)] show ?thesis by blast
qed

text \<open>C3: the client of \<^verbatim>\<open>testremote.c\<close> that reads the layout of a range of one file and feeds the
  segments, one by one, to a clone on another connection gets \<^verbatim>\<open>SUCCESS\<close> for both, and the other file
  has the places of the first one in the range, its base object in the holes; the first file is marked as
  shared if there was a hole.\<close>

theorem client_copies_range:
  assumes "shows_fs h F" "F t = Some a" "F u = Some c" "u \<noteq> t"
    and "f < f + ln" "f + ln \<le> a_size a" "od < od + ln"
    and "\<forall>p hid l q. a_map a p = Some (hid, l, q) \<longrightarrow> \<not> (hid = 0 \<and> l = 0)" "t \<noteq> 0" "2 * unat ln < avail h"
  shows "\<exists>h'. copy_range t f ln u od h = Some (2, 2, h') \<and> shows_fs h'
    (F(t \<mapsto> a\<lparr>a_shared := a_shared a \<or> has_hole f (f + ln) a\<rparr>, u \<mapsto> put_range od ln (\<lambda>p. Some (based a t (f + (p - od)))) c))"
  using assms by (rule copy_range_correct)

theorem client_copies_range_witness:
  "\<exists>h' xs. copy_range 7 5 10 8 100 ex_files = Some (2, 2, h') \<and> file_ok h' (find_inode 8 h') xs \<and>
    where_is h' xs 103 = Some (9, 77, 108) \<and> where_is h' xs 106 = Some (0, 7, 11)"
proof -
  have nz: "\<not> (hid = 0 \<and> l = 0)" if "where_is ex_files [1, 2, 3] p = Some (hid, l, q)" for p hid l q
    using that unfolding ex_where by (auto split: if_splits)
  have w: "where_is ex_files [1, 2, 3] 8 = Some (9, 77, 108)" "where_is ex_files [1, 2, 3] 11 = None"
    by (simp_all only: ex_where) simp_all
  let ?a = "\<lparr>a_size = 50, a_map = where_is ex_files [1, 2, 3], a_refs = 1, a_shared = False\<rparr>"
  let ?c = "\<lparr>a_size = 50, a_map = Map.empty, a_refs = 0, a_shared = False\<rparr>"
  have "ex_fs 7 = Some ?a" "ex_fs 8 = Some ?c" by (simp_all add: ex_fs_def)
  from client_copies_range[OF ex_files_shows this, of 5 10 100] nz obtain h' F where h': "copy_range 7 5 10 8 100 ex_files = Some (2, 2, h')"
    "shows_fs h' (F(8 \<mapsto> put_range 100 10 (\<lambda>p. Some (based ?a 7 (5 + (p - 100)))) ?c))" by auto
  from shows_fileE[OF h'(2), of 8] obtain xs where x: "file_ok h' (find_inode 8 h') xs"
    "\<forall>p. where_is h' xs p = a_map (put_range 100 10 (\<lambda>p. Some (based ?a 7 (5 + (p - 100)))) ?c) p" by (metis fun_upd_same)
  with w have "where_is h' xs 103 = Some (9, 77, 108)" "where_is h' xs 106 = Some (0, 7, 11)"
    by (simp_all add: put_range_def based_def)
  with h'(1) x(1) show ?thesis by blast
qed

section \<open>Requests on files\<close>

text \<open>C4: a \<^verbatim>\<open>WRITE\<close> request, from the bytes on the connection to the reply, between
  two states in which no lock is held and all files and the table of inodes are well formed: the written
  range of the file is at the given place, the rest of the file is where it was, the size, the version and
  the time of the file follow, and the other files, the table and their maps are as they were.\<close>

theorem write_request_effect:
  assumes "sane h" "find_inode t h = i" "i \<noteq> NULL" "inos h i = Some n" "\<not> is_deleted n"
    and "com_of com = Some WRITE" "file_ok h i xs"
    and "rx h = le 8 t @ le 4 hid @ le 8 l @ le 8 fo @ le 8 od @ le 8 ln @ bs"
    and "fo < fo + ln" "3 \<le> avail h"
  shows "\<exists>h' ys n'. process com h = Some h' \<and> tx h' = tx h @ int_bytes (ret_code SUCCESS) \<and>
    sane h' \<and> file_ok h' i ys \<and>
    (\<forall>p. where_is h' ys p =
       (if fo \<le> p \<and> p < fo + ln then Some (hid, l, od + (p - fo)) else where_is h xs p)) \<and>
    others_kept i h h' \<and> inos h' i = Some n' \<and> isize n' = max (isize n) (fo + ln) \<and>
    version n' = version n + 1 \<and> mtime n' = clock h"
  using write_request[OF assms] by blast

theorem write_request_effect_witness:
  "\<exists>h' ys. process 0 (ex_files\<lparr>rx := ex_write 20\<rparr>) = Some h' \<and>
    file_ok h' 1 ys \<and> where_is h' ys 22 = Some (3, 44, 1017) \<and> where_is h' ys 28 = Some (9, 77, 128)"
proof -
  have w: "where_is ex_files [1, 2, 3] 28 = Some (9, 77, 128)" by (subst ex_where) simp
  from write_request_effect[OF ex_files_sane ex_files_find(1) _ ex_files_simps(1) ex_files_live(1) ex_coms(1)
    ex_files_rx(1), of "ex_write 20" 3 44 5 1000 20 "[]", unfolded ex_files_rx]
  obtain h' ys where "process 0 (ex_files\<lparr>rx := ex_write 20\<rparr>) = Some h'" "file_ok h' 1 ys"
    "\<And>p. where_is h' ys p = (if 5 \<le> p \<and> p < 25 then Some (3, 44, 1000 + (p - 5)) else where_is ex_files [1, 2, 3] p)"
    by (auto simp: ex_write_def)
  then show ?thesis using w by auto
qed

text \<open>C5: a client that writes a range and reads it back is told, offset by offset, the place that
  it has written, in segments that follow each other without a gap.\<close>

theorem write_read_back:
  assumes "sane h" "find_inode t h = i" "i \<noteq> NULL" "inos h i = Some n" "\<not> is_deleted n"
    and "com_of com = Some WRITE" "com_of com' = Some READ_LAYOUT" "file_ok h i xs"
    and "rx h = le 8 t @ le 4 hid @ le 8 l @ le 8 fo @ le 8 od @ le 8 ln" "fo < fo + ln" "3 \<le> avail h"
  shows "\<exists>h1 h2 gs. process com h = Some h1 \<and>
    process com' (h1\<lparr>rx := le 8 t @ le 8 fo @ le 8 ln @ [1]\<rparr>) = Some h2 \<and>
    tx h2 = tx h @ int_bytes (ret_code SUCCESS) @ concat (map seg_bytes gs) @ end_mark @
      int_bytes (ret_code SUCCESS) \<and>
    expand gs = map (\<lambda>p. (hid, l, od + (p - fo))) (upto_w fo (fo + ln)) \<and> contiguous 0 gs"
  using assms by (rule write_then_read)

theorem write_read_back_witness:
  "\<exists>h1 h2 gs. process 0 (ex_files\<lparr>rx := ex_write 2\<rparr>) = Some h1 \<and>
    process 2 (h1\<lparr>rx := ex_read 2\<rparr>) = Some h2 \<and>
    expand gs = [(3, 44, 1000), (3, 44, 1001)] \<and>
    tx h2 = int_bytes 2 @ concat (map seg_bytes gs) @ end_mark @ int_bytes 2"
proof -
  have u: "upto_w 5 7 = [5, 6]" by (simp add: upto_w_def upt_rec)
  from write_read_back[OF ex_files_sane ex_files_find(1) _ ex_files_simps(1) ex_files_live(1) ex_coms(1,3)
    ex_files_rx(1), of "ex_write 2" 3 44 5 1000 2] u
  show ?thesis by (auto simp: ex_write_def ex_read_def)
qed

text \<open>C6: the answer of a read of one file, sent to \<^verbatim>\<open>CLONE_TO\<close> on another file, copies
  the range: the places of the first file, with its base object in its holes, become those of the
  second one, which keeps its own outside the range.\<close>

theorem clone_copies_read:
  assumes "sane h" "find_inode t h = i" "i \<noteq> NULL" "inos h i = Some n" "\<not> is_deleted n"
    and "find_inode u h = j" "j \<noteq> NULL" "j \<noteq> i" "inos h j = Some m" "\<not> is_deleted m"
    and "com_of com = Some READ_LAYOUT" "com_of com' = Some CLONE_TO" "file_ok h i xs" "file_ok h j zs"
    and "rx h = le 8 t @ le 8 fo @ le 8 ln @ [1]" "fo < fo + ln" "fo + ln \<le> isize n"
      "start < start + ln" "dos_up h"
    and "\<And>p hid l q. where_is h xs p = Some (hid, l, q) \<Longrightarrow> \<not> (hid = 0 \<and> l = 0)"
    and "(if with_ms h then base_ino n else ino n) \<noteq> 0" "2 * unat ln < avail h"
  shows "\<exists>gs h1. process com h = Some h1 \<and>
    tx h1 = tx h @ (concat (map seg_bytes gs) @ end_mark) @ int_bytes (ret_code SUCCESS) \<and>
    served com' u j (h1\<lparr>rx := le 8 u @ le 8 start @ le 8 ln @ concat (map seg_bytes gs) @ end_mark\<rparr>)
      (2 * length gs + 1) (int_bytes (ret_code SUCCESS))
      (\<lambda>p. if start \<le> p \<and> p < start + ln
           then Some (where_based h xs (if with_ms h then base_ino n else ino n) (fo + (p - start)))
           else where_is h zs p)
      (touch (clock h) (m\<lparr>isize := max (isize m) (start + ln)\<rparr>))"
  using assms by (rule read_then_clone)

theorem clone_copies_read_witness:
  "\<exists>gs h1 h2 ys. process 2 (ex_files\<lparr>rx := ex_read 10\<rparr>) = Some h1 \<and>
    process 3 (h1\<lparr>rx := ex_clone @ concat (map seg_bytes gs) @ end_mark\<rparr>) = Some h2 \<and>
    file_ok h2 2 ys \<and> where_is h2 ys 103 = Some (9, 77, 108) \<and> where_is h2 ys 106 = Some (0, 7, 11)"
proof -
  have nz: "\<not> (hid = 0 \<and> l = 0)" if "where_is ex_files [1, 2, 3] p = Some (hid, l, q)" for p hid l q
    using that unfolding ex_where by (auto split: if_splits)
  have "where_is ex_files [1, 2, 3] 8 = Some (9, 77, 108)" "where_is ex_files [1, 2, 3] 11 = None"
    by (simp_all only: ex_where) simp_all
  then have b: "where_based (ex_files\<lparr>rx := bs\<rparr>) [1, 2, 3] 7 8 = (9, 77, 108)"
    "where_based (ex_files\<lparr>rx := bs\<rparr>) [1, 2, 3] 7 11 = (0, 7, 11)" for bs
    by (simp_all only: where_based_def ex_files_rx) simp_all
  from clone_copies_read[OF ex_files_sane ex_files_find(1) _ ex_files_simps(1) ex_files_live(1) ex_files_find(2) _ _
      ex_files_simps(2) ex_files_live(2) ex_coms(3,4) ex_files_rx(1,2), of "ex_read 10" 5 10 100, unfolded ex_files_rx] nz
  obtain gs h1 where "process 2 (ex_files\<lparr>rx := ex_read 10\<rparr>) = Some h1" and
    s: "served 3 8 2 (h1\<lparr>rx := ex_clone @ concat (map seg_bytes gs) @ end_mark\<rparr>) (2 * length gs + 1) (int_bytes (ret_code SUCCESS))
      (\<lambda>p. if 100 \<le> p \<and> p < 110 then Some (where_based (ex_files\<lparr>rx := ex_read 10\<rparr>) [1, 2, 3] 7 (5 + (p - 100)))
           else where_is ex_files [] p)
      (touch (clock ex_files) ((ex_empty\<lparr>ino := 8\<rparr>)\<lparr>isize := max (isize (ex_empty\<lparr>ino := 8\<rparr>)) 110\<rparr>))"
    by (auto simp: ex_inode_def ex_read_def ex_clone_def cong: if_cong)
  with b show ?thesis unfolding served_def by fastforce
qed

text \<open>C7: a \<^verbatim>\<open>TRUNCATE\<close> request cuts the map of the file at the new size and changes
  nothing below it, nor any other file.\<close>

theorem truncate_request_effect:
  assumes "sane h" "find_inode t h = i" "i \<noteq> NULL" "inos h i = Some n" "\<not> is_deleted n"
    and "com_of com = Some TRUNCATE" "file_ok h i xs" "rx h = le 8 t @ le 8 new @ bs" "0 < avail h"
  shows "served com t i h 1 (int_bytes (ret_code SUCCESS)) (\<lambda>p. if p < new then where_is h xs p else None)
    (touch (clock h) (n\<lparr>isize := new\<rparr>))"
  using assms by (rule truncate_request)

theorem truncate_request_effect_witness:
  "\<exists>h' ys. process 1 (ex_files\<lparr>rx := le 8 (7 :: ino_t) @ le 8 (25 :: sz)\<rparr>) = Some h' \<and> file_ok h' 1 ys \<and>
    where_is h' ys 24 = Some (9, 77, 124) \<and> where_is h' ys 25 = None"
proof -
  have "where_is ex_files [1, 2, 3] 24 = Some (9, 77, 124)" by (subst ex_where) simp
  with truncate_request_effect[OF ex_files_sane ex_files_find(1) _ ex_files_simps(1) ex_files_live(1) ex_coms(2)
    ex_files_rx(1), of "le 8 (7 :: ino_t) @ le 8 (25 :: sz)" 25 "[]", unfolded ex_files_rx]
  show ?thesis unfolding served_def by fastforce
qed

text \<open>C8: a \<^verbatim>\<open>CLONE_TO\<close> request whose segments follow each other, begin in the range and
  name objects puts the places of the segments into the range, holes where there is no segment.\<close>

theorem clone_request_effect:
  assumes "sane h" "find_inode t h = i" "i \<noteq> NULL" "inos h i = Some n" "\<not> is_deleted n"
    and "com_of com = Some CLONE_TO" "file_ok h i xs"
    and "rx h = le 8 t @ le 8 start @ le 8 ln @ concat (map seg_bytes gs) @ end_mark @ bs"
    and "segs_ok start (start + ln) start gs" "start < start + ln" "2 * length gs < avail h" "dos_up h"
  shows "served com t i h (2 * length gs + 1) (int_bytes (ret_code SUCCESS))
    (\<lambda>p. if start \<le> p \<and> p < start + ln then seg_at start gs p else where_is h xs p)
    (touch (clock h) (n\<lparr>isize := max (isize n) (start + ln)\<rparr>))"
  using assms by (rule clone_request)

theorem clone_request_effect_witness:
  "\<exists>h' ys. process 3 (ex_files\<lparr>rx := ex_clone @ concat (map seg_bytes ex_segs) @ end_mark\<rparr>) = Some h' \<and>
    file_ok h' 2 ys \<and> where_is h' ys 101 = None \<and> where_is h' ys 104 = Some (3, 44, 1002) \<and>
    where_is h' ys 107 = None"
proof -
  have "segs_ok 100 (100 + 10) 100 ex_segs" "2 * length ex_segs < avail ex_files" "seg_at 100 ex_segs 101 = None"
    "seg_at 100 ex_segs 104 = Some (3, 44, 1002)" "seg_at 100 ex_segs 107 = None"
    by (simp_all add: ex_segs_def)
  with clone_request_effect[OF ex_files_sane ex_files_find(2) _ ex_files_simps(2) ex_files_live(2) ex_coms(4)
    ex_files_rx(2), of "ex_clone @ concat (map seg_bytes ex_segs) @ end_mark" 100 10 ex_segs "[]", unfolded ex_files_rx]
  show ?thesis unfolding served_def by (fastforce simp: ex_clone_def)
qed

text \<open>C9: \<^verbatim>\<open>REMOVE_DOBJ\<close> on a data object of a file in use, without a message to its
  server: exactly the offsets that lay in that object become holes.\<close>

theorem remove_request_effect:
  assumes "sane h" "find_inode t h = i" "i \<noteq> NULL" "inos h i = Some n" "\<not> is_deleted n"
    and "com_of com = Some REMOVE_DOBJ" "file_ok h i xs" "rx h = le 8 t @ le 4 hid @ le 8 l @ 0 # bs"
    and "d \<in> set (do_map n)" "dob_key h d = Some (hid, l)" "\<not> (hid = 0 \<and> l = 0)" "0 <s refcount n"
  shows "served com t i h 0 (int_bytes (ret_code SUCCESS))
    (\<lambda>p. case where_is h xs p of None \<Rightarrow> None | Some (hid', l', q) \<Rightarrow>
       if hid' = hid \<and> l' = l then None else Some (hid', l', q)) n"
  using assms by (rule remove_request)

theorem remove_request_effect_witness:
  "\<exists>h' ys. process 9 (ex_files\<lparr>rx := le 8 (7 :: ino_t) @ le 4 (9 :: u32) @ le 8 (77 :: loid_t) @ [0]\<rparr>) = Some h' \<and>
    file_ok h' 1 ys \<and> where_is h' ys 5 = None"
proof -
  let ?h = "ex_files\<lparr>rx := le 8 (7 :: ino_t) @ le 4 (9 :: u32) @ le 8 (77 :: loid_t) @ [0]\<rparr>"
  have "1 \<in> set (do_map (ex_inode\<lparr>num_exts := 3\<rparr>))" "dob_key ?h 1 = Some (9, 77)" "0 <s refcount (ex_inode\<lparr>num_exts := 3\<rparr>)"
    by (simp_all add: ex_inode_def dob_key_def ex_files_def word_sless_alt)
  moreover have "where_is ex_files [1, 2, 3] 5 = Some (9, 77, 105)" by (subst ex_where) simp
  ultimately show ?thesis using remove_request_effect[OF ex_files_sane ex_files_find(1) _ ex_files_simps(1) ex_files_live(1)
    ex_coms(5) ex_files_rx(1), of "le 8 (7 :: ino_t) @ le 4 (9 :: u32) @ le 8 (77 :: loid_t) @ [0]" 9 77 "[]" 1,
      unfolded ex_files_rx]
    unfolding served_def by fastforce
qed

section \<open>Replacing a range\<close>

text \<open>C10: \<^verbatim>\<open>replace\<close> refines the replacement of a range in a map: new extents \<open>zs\<close> in the
  range \<open>[s, e)\<close>, linked to a list but not placed, take over the range from the extents \<open>xs\<close> of the file,
  which are cut, moved, split or removed as needed, and the layout is well formed after it.\<close>

theorem replace_refines_map:
  assumes "stage h i [] zs xs" "ordered h xs" "covers_range h zs s e" "s < e" "0 < avail h"
  shows "\<exists>h' ys. replace i (first zs NULL) (final NULL zs) s e h = Some h' \<and> stage h' i ys [] [] \<and>
    ordered h' ys \<and> (\<forall>p. where_is h' ys p = (if s \<le> p \<and> p < e then where_is h zs p else where_is h xs p)) \<and>
    goes i h (set (zs @ xs)) h' (set ys)"
  using replace_correct[OF assms] unfolding over_def by blast

theorem replace_refines_map_witness:
  "\<exists>h' ys. replace 1 NULL NULL 5 25 ex_files = Some h' \<and> stage h' 1 ys [] [] \<and>
    where_is h' ys 7 = None \<and> where_is h' ys 26 = Some (9, 77, 126)"
proof -
  have st: "stage ex_files 1 [] [] [1, 2, 3]" "ordered ex_files [1, 2, 3]"
    using ex_files_ok(1) by (simp_all add: file_ok_def)
  have "where_is ex_files [1, 2, 3] 26 = Some (9, 77, 126)" by (subst ex_where) simp
  moreover have "where_is ex_files [] 7 = None" by (simp add: where_is_def)
  moreover have "covers_range ex_files [] 5 25" by (simp add: covers_range_def ordered_def)
  ultimately show ?thesis using replace_refines_map[OF st, of 5 25] by fastforce
qed

text \<open>\<^verbatim>\<open>pado_write\<close> on a well-formed file places the range in the data object and keeps the
  file well formed; of what existed before only this file's extents and data objects can change.\<close>

theorem write_places_range:
  assumes "file_ok h i xs" "inos h i = Some n" "d \<in> set (do_map n)" "dobs h d = Some x" "fo < fo + l" "2 \<le> avail h"
  shows "\<exists>h' ys n'. pado_write d fo od l h = Some (ret_code SUCCESS, h') \<and> file_ok h' i ys \<and>
    (\<forall>p. where_is h' ys p = (if fo \<le> p \<and> p < fo + l
        then Some (host_id (daddr x), loid (daddr x), od + (p - fo)) else where_is h xs p)) \<and>
    inos h' i = Some n' \<and> inode_rest n' = inode_rest (touch (clock h) (n\<lparr>isize := max (isize n) (fo + l)\<rparr>)) \<and>
    edits i h (set xs) h' (set ys)"
  using pado_write_correct[OF assms] by blast

theorem write_places_range_witness:
  "\<exists>h' ys. pado_write 1 10 700 10 ex_files = Some (ret_code SUCCESS, h') \<and> file_ok h' 1 ys \<and>
    where_is h' ys 12 = Some (9, 77, 702)"
proof -
  have "1 \<in> set (do_map (ex_inode\<lparr>num_exts := 3\<rparr>))" "\<exists>x. dobs ex_files 1 = Some x \<and> daddr x = \<lparr>host_id = 9, loid = 77\<rparr>"
    by (simp_all add: ex_inode_def ex_files_def)
  with write_places_range[OF ex_files_ok(1) ex_files_simps(6), of 1 _ 10 10 700] show ?thesis by fastforce
qed

text \<open>\<^verbatim>\<open>remove_dobject\<close>, with or without the message to the server of the object: the offsets
  that lay in the object, and only those, become holes, and the object leaves the table of the inode.\<close>

theorem remove_dobject_clears:
  assumes "file_ok h i xs" "inos h i = Some n" "d \<in> set (do_map n)" "dobs h d = Some x"
  shows "\<exists>r h' ys n'. remove_dobject d u h = Some (r, h') \<and> file_ok h' i ys \<and>
    (\<forall>p. where_is h' ys p = (case where_is h xs p of None \<Rightarrow> None | Some (hid, l, q) \<Rightarrow>
       if hid = host_id (daddr x) \<and> l = loid (daddr x) then None else Some (hid, l, q))) \<and>
    inos h' i = Some n' \<and> do_map n' = remove1 d (do_map n) \<and> inode_rest n' = inode_rest n \<and>
    edits i h (set xs) h' (set ys)"
  using assms by (rule remove_dobject_correct)

theorem remove_dobject_clears_witness:
  "\<exists>r h' ys n'. remove_dobject 1 True ex_files = Some (r, h') \<and> file_ok h' 1 ys \<and> where_is h' ys 5 = None \<and>
    inos h' 1 = Some n' \<and> do_map n' = []"
proof -
  have d: "1 \<in> set (do_map (ex_inode\<lparr>num_exts := 3\<rparr>))"
    "dobs ex_files 1 = Some \<lparr>daddr = \<lparr>host_id = 9, loid = 77\<rparr>, d_inode = 1, refs = 3, num_refs = 3\<rparr>"
    "do_map ex_inode = [1]" by (simp_all add: ex_inode_def ex_files_def)
  moreover have "where_is ex_files [1, 2, 3] 5 = Some (9, 77, 105)" by (subst ex_where) simp
  ultimately show ?thesis using remove_dobject_clears[OF ex_files_ok(1) ex_files_simps(6) d(1,2), of True] by fastforce
qed

text \<open>C11: the checks that the debug build runs on a file after a request, \<^verbatim>\<open>print_inode\<close> of
  \<^verbatim>\<open>test.c\<close>, with all assertions on the tree, the list and the references, pass on every well-formed
  file and leave the store as it is.\<close>

theorem checks_accept:
  assumes "file_ok h i xs" "inos h i = Some n" "rwlock n = LkFree" "i \<noteq> NULL"
  shows "print_inode i h = Some h"
  using assms by (rule print_inode_correct)

theorem checks_accept_witness: "print_inode 1 ex_files = Some ex_files"
proof -
  have "rwlock (ex_inode\<lparr>num_exts := 3\<rparr>) = LkFree" by (simp add: ex_inode_def)
  with checks_accept[OF ex_files_ok(1) ex_files_simps(6)] show ?thesis by simp
qed



section \<open>The stacked file system\<close>

text \<open>C13: what the module of \<^verbatim>\<open>src/wrapfs\<close> is for: a request of the VFS on an open file, an
  entry or an inode of the module, whose private data are there, reaches the lower file system as the same
  request with the same arguments, on the lower file, entry or inode that the private data name; where it
  works in a directory, in the inode of the lower parent that the handler has asked for (of a renaming,
  the two parents, the old one first; of an unlink, in the lower inode of its directory). The lower file
  system sees it once and sees no other request. Its answer, if an \<^verbatim>\<open>int\<close> holds it, is the result: of
  every request, but that a request that has made an entry goes on to interpose it, and that an unlink which
  finds the entry busy after NFS has renamed the file succeeds. A request is not sent only where
  \<open>turned_down\<close> allows it (the lower object has no such operation, or a renaming has flags or is
  of an ancestor), with the error that stands there, and a renaming with flags is never sent.\<close>

theorem wrapfs_stacks:
  assumes "has_lower s q"
  shows "after (request_prog q) (\<lambda>x s'.
    (sent (calls s') = sent (calls s) \<and> turned_down s (calls s') q x) \<or>
    (\<exists>l r. sent (calls s') = (l, lower_request s l q, r) # sent (calls s) \<and> sendable q \<and>
      (- (2 ^ 31) \<le> r \<and> r < 2 ^ 31 \<and> (r \<noteq> 0 \<or> \<not> interposes q) \<longrightarrow>
        x = answer s ((Lower (lower_request s l q), r) # l) q r))) s"
  using request_stacked[OF assms] by (simp add: stacked_def[abs_def])

theorem wrapfs_stacks_witness:
  "after (wrapfs_read 40 77 10 0) (\<lambda>x s'. \<exists>l r.
     sent (calls s') = (l, VfsRead 700 77 10 0, r) # sent (calls demo4) \<and>
     (- (2 ^ 31) \<le> r \<and> r < 2 ^ 31 \<longrightarrow> x = r)) demo4"
  using wrapfs_stacks[of demo4 "QRead 40 77 10 0"] by (simp add: demo4_eq lower_file_of_def)





text \<open>C16: a lookup below the root of a mount, after any sequence of the calls of \<open>vfs_step\<close>, whatever
  the kernel answers to it within \<open>vfs_kernel\<close> (an allocation may fail here as before), leaves the module
  balanced on each of its exits, and if it returns no error, the entry is linked to a lower entry on a
  lower mount, existing or new and negative. The second lookup of the witness finds no memory.\<close>

theorem wrapfs_lookup_links:
  assumes "loaded s0" "vfs_step\<^sup>*\<^sup>* s0 s" "d_fsdata s dentry = None" "bound s (kret s (DgetParent dentry))"
    "mounted (priv s) DSb dentry" "\<And>l. k_view (kern s) l (IsRoot dentry) = 0"
  shows "after (wrapfs_lookup dir dentry fl)
    (\<lambda>r s'. holding s' = Some (stored s' + handed (calls s')) \<and> (0 \<le> r \<longrightarrow> bound s' dentry)) s"
  by (rule after_mono[OF wrapfs_lookup_sound[OF vfs_history_sound[OF assms(2) loaded_sound[OF assms(1)]] assms(3-6)]])
    (simp add: sound_def tidy_def)

theorem wrapfs_lookup_links_witness:
  "after (wrapfs_lookup 1221 9 0)
    (\<lambda>r s'. holding s' = Some (stored s' + handed (calls s')) \<and> (0 \<le> r \<longrightarrow> bound s' 9)) demo2 \<and>
   after (wrapfs_lookup 1221 10 0)
    (\<lambda>r s'. r = - ENOMEM \<and> holding s' = Some (stored s' + handed (calls s'))) demo4"
proof
  show "after (wrapfs_lookup 1221 9 0)
    (\<lambda>r s'. holding s' = Some (stored s' + handed (calls s')) \<and> (0 \<le> r \<longrightarrow> bound s' 9)) demo2"
    by (rule wrapfs_lookup_links[OF demo1_loaded r_into_rtranclp[of vfs_step, OF demo_history2]])
      (simp_all add: demo2_eq bound_def mounted_def priv_def kret_def demo_kernel_simps demo_ret_simps
        demo_view_simps)
  have "after (wrapfs_lookup 1221 10 0)
    (\<lambda>r s'. holding s' = Some (stored s' + handed (calls s')) \<and> (0 \<le> r \<longrightarrow> bound s' 10)) demo4"
    by (rule wrapfs_lookup_links[OF demo1_loaded demo_history4'])
      (simp_all add: demo4_eq bound_def mounted_def priv_def kret_def demo_kernel_simps demo_ret_simps
        demo_view_simps)
  then show "after (wrapfs_lookup 1221 10 0)
    (\<lambda>r s'. r = - ENOMEM \<and> holding s' = Some (stored s' + handed (calls s'))) demo4"
    using demo_no_memory by (simp add: after_def split: prod.splits)
qed

text \<open>C17: a file that is opened and, if that succeeded, closed again leaves the private data of the module
  as they were, and everything balanced, on every path of the two calls.\<close>

theorem wrapfs_open_release:
  assumes "loaded s0" "vfs_step\<^sup>*\<^sup>* s0 s" "private_data s filp = None"
    "\<And>l. bound s (k_view (kern s) l (FDentry filp))"
  shows "after (do {
      r \<leftarrow> wrapfs_open inode filp;
      if r = 0 then wrapfs_file_release inode filp else ret r })
    (\<lambda>r s'. priv s' = priv s \<and> holding s' = Some (stored s + handed (calls s'))) s"
proof (rule after_mono[OF open_release[OF vfs_history_sound[OF assms(2) loaded_sound[OF assms(1)]] assms(3-4)]])
  fix r s'
  assume s': "sound s' \<and> priv s' = priv s"
  then have "stored s' = stored s"
    using stored_priv[of s'] stored_priv[of s] by simp
  with s' show "priv s' = priv s \<and> holding s' = Some (stored s + handed (calls s'))"
    by (simp add: sound_def tidy_def)
qed

theorem wrapfs_open_release_witness:
  "after (do {
      r \<leftarrow> wrapfs_open 1222 40;
      if r = 0 then wrapfs_file_release 1222 40 else ret r })
    (\<lambda>r s'. priv s' = priv demo3 \<and> holding s' = Some (stored demo3 + handed (calls s'))) demo3"
  by (rule wrapfs_open_release[OF demo1_loaded demo_history3' _ demo_bound]) (simp add: demo3_eq)

text \<open>C18: a mount whose root entry cannot be allocated puts its root inode twice: \<^verbatim>\<open>d_make_root\<close> has put it
  when it fails, and the exit that \<^verbatim>\<open>wrapfs_read_super\<close> then takes puts it again. The error is returned,
  but the references no longer balance.\<close>

theorem wrapfs_mount_overputs:
  assumes "root_ready sb lsb p inode s" "kret s (DMakeRoot inode) = 0"
  shows "after (read_super_root sb lsb p inode)
    (\<lambda>r s'. r = - ENOMEM \<and> holding s' \<noteq> Some (stored s' + handed (calls s'))) s"
  by (rule read_super_root_overputs[OF assms])

theorem wrapfs_mount_overputs_witness:
  "after (read_super_root 3 4 (path_of 21 31) 1221)
    (\<lambda>r s'. r = - ENOMEM \<and> holding s' \<noteq> Some (stored s' + handed (calls s'))) demo_half"
  by (rule wrapfs_mount_overputs[OF demo_half_ready])
    (simp add: kret_def demo_half_def demo_no_root_def)

text \<open>C19: when a symbolic link cannot be read, following it hands an error pointer to the VFS as the buffer
  to be freed: every error of \<^verbatim>\<open>wrapfs_get_link\<close> after the allocation breaks the books.\<close>

theorem wrapfs_get_link_bad_free:
  assumes "sound s" "bound s dentry" "dentry \<noteq> 0" "0 < kret s (Kmalloc PAGE_SIZE)"
  shows "after (wrapfs_get_link dentry inode link) (\<lambda>r s'. r < 0 \<longrightarrow> holding s' = None) s"
  by (rule get_link_error[OF assms])

theorem wrapfs_get_link_bad_free_witness:
  "fst (run_state (wrapfs_get_link 9 1222 0) demo3) = - EINVAL \<and>
    holding (snd (run_state (wrapfs_get_link 9 1222 0) demo3)) = None"
proof -
  have "after (wrapfs_get_link 9 1222 0) (\<lambda>r s'. r < 0 \<longrightarrow> holding s' = None) demo3"
    by (rule wrapfs_get_link_bad_free[OF demo3_sound])
      (simp_all add: demo3_eq bound_def kret_def demo_kernel_simps demo_ret_def)
  with demo_get_link show ?thesis
    by (simp add: after_def split: prod.splits)
qed

text \<open>C20: serving an NFS handle of an inode that is there leaks a reference: \<^verbatim>\<open>ilookup\<close> returns the lower
  inode with one, \<^verbatim>\<open>wrapfs_iget\<close> takes its own, and nobody puts the first.\<close>

theorem wrapfs_nfs_leak:
  assumes "sound s" "s_fs_info s sb = Some i" "kret s (Ilookup (lower_sb i) n) = li" "li \<noteq> 0"
  shows "after (wrapfs_nfs_get_inode sb n gen) (\<lambda>r s'. holding s' = Some (add_mset (RInode li)
      ((if 0 < r then {#RInode r#} else {#}) + stored s' + handed (calls s')))) s"
  by (rule wrapfs_nfs_get_inode_leaks[OF assms])

theorem wrapfs_nfs_leak_witness:
  "after (wrapfs_nfs_get_inode 3 5 0) (\<lambda>r s'. holding s' = Some (add_mset (RInode 222)
      ((if 0 < r then {#RInode r#} else {#}) + stored s' + handed (calls s')))) demo2"
  by (rule wrapfs_nfs_leak[OF demo2_sound, where i = "\<lparr>si_addr = 5005, lower_sb = 4\<rparr>"])
    (simp_all add: demo2_eq kret_def demo_kernel_simps demo_ret_simps)

section \<open>The layout of a file\<close>

text \<open>C21: the answer of \<^verbatim>\<open>pado_read\<close> with flag 1 on a well-formed inode stands, offset by
  offset, for the map that the extents of the file and its base object define on the range that
  lies in the file; its segments follow each other without a gap, and the result says
  \<^verbatim>\<open>BASE_CLONED\<close> exactly if some offset of the range is in no extent.\<close>

theorem read_answers_map:
  assumes "laid_out h i t" "inos h i = Some n" "start < min end' (isize n)"
  shows "\<exists>gs. pado_read i True start end' h =
      Some (if \<exists>p \<in> set (upto_w start (min end' (isize n))). where_is h (inorder t) p = None
            then err BASE_CLONED else ret_code SUCCESS,
          wr (concat (map seg_bytes gs) @ end_mark) h) \<and>
    expand gs = map (where_based h (inorder t) (if with_ms h then base_ino n else ino n))
      (upto_w start (min end' (isize n))) \<and>
    contiguous 0 gs"
  using pado_read_eval[OF assms] by (auto simp: answers_def)

theorem read_answers_map_witness:
  "\<exists>gs. pado_read 1 True 5 60 ex_store =
      Some (if \<exists>p \<in> set (upto_w 5 50). where_is ex_store [1, 2, 3] p = None
            then err BASE_CLONED else ret_code SUCCESS,
          wr (concat (map seg_bytes gs) @ end_mark) ex_store) \<and>
    expand gs = map (where_based ex_store [1, 2, 3] 7) (upto_w 5 50) \<and> contiguous 0 gs"
proof -
  have n: "inos ex_store 1 = Some ex_inode" "min 60 (isize ex_inode) = 50" "(5::sz) < 50"
    "\<not> with_ms ex_store" "ino ex_inode = 7"
    by (simp_all add: ex_store_def ex_inode_def)
  from read_answers_map[OF ex_laid_out n(1), of 5 60, unfolded n(2), OF n(3)] n(4,5)
  show ?thesis by (simp only: ex_tree_simps if_False)
qed

text \<open>C22: \<^verbatim>\<open>rebalance\<close> on the parent of a changed subtree, in a tree that is balanced but for
  a change of the subtree's depth by at most one, ends without a fault, restores the balance and
  the stored depths of the whole tree, keeps the order of the extents, and changes nothing but
  the tree fields of extents of this inode.\<close>

theorem rebalance_restores:
  assumes "focus h i t C" "avl t" "cavl n C" "\<bar>dep t - n\<bar> \<le> 1"
  shows "\<exists>h' T. rebalance (hole_parent C) h = Some h' \<and> focus h' i T [] \<and> avl T \<and>
    inorder T = inorder (plug C t) \<and> tree_change i (insert NULL (addrs t \<union> set (ctx_addrs C))) h h'"
proof -
  from reb_up_avl[OF assms(2-4)] obtain T where
    T: "reb_up t C = Some T" "avl T" "inorder T = inorder (plug C t)" by blast
  from rebalance_reb_up[OF assms(1) T(1)] T(2,3) show ?thesis by blast
qed

theorem rebalance_restores_witness:
  "\<exists>h' T. rebalance 2 ex_path = Some h' \<and> focus h' 1 T [] \<and> avl T \<and> inorder T = [1, 2, 3]"
  using rebalance_restores[OF ex_path_focus, of 0] by (auto simp: ex_hole_def)

text \<open>\<^verbatim>\<open>remove_extent\<close> up to the release: an extent of a well-formed layout is taken out of
  the list and the tree, which is rebalanced; the other extents keep their order, and only the
  links of this inode's extents change.\<close>

theorem unlink_extent_removes:
  assumes "layout h i t" "inorder t = xs @ x # ys"
  shows "\<exists>h' T. unlink_extent x h = Some h' \<and> layout h' i T \<and> inorder T = xs @ ys \<and>
    link_change i ({NULL} \<union> addrs t) h h'"
  using assms by (rule unlink_extent_correct)

theorem unlink_extent_removes_witness:
  "\<exists>h' T. unlink_extent 2 ex_store = Some h' \<and> layout h' 1 T \<and> inorder T = [1, 3]"
  using unlink_extent_removes[OF ex_layout, of "[1]" 2 "[3]"] by auto

text \<open>The insertion loop of \<^verbatim>\<open>replace\<close>: new extents that are linked by
  \<^verbatim>\<open>next\<close> are inserted, in their order, behind the extent \<open>tor\<close>, and the layout is well
  formed after it.\<close>

theorem insert_rest_after:
  assumes "layout h i t" "inorder t = xs @ tor # ys" "chain h a zs" "distinct zs"
    "set zs \<inter> addrs t = {}" "NULL \<notin> set zs"
  shows "\<exists>h' T. insert_rest a tor tol h = Some h' \<and> layout h' i T \<and>
    inorder T = xs @ tor # zs @ ys \<and> link_change i ({NULL} \<union> set zs \<union> addrs t) h h'"
  using assms by (rule insert_rest_right)

theorem insert_rest_after_witness:
  "\<exists>h' T. insert_rest 4 1 2 ex_store = Some h' \<and> layout h' 1 T \<and> inorder T = [1, 4, 2, 3]"
  using insert_rest_after[OF ex_layout _ ex_chain, of "[]" 1 "[2, 3]" 2] by auto

text \<open>The same in front of the first extent of the layout.\<close>

theorem insert_rest_before:
  assumes "layout h i t" "inorder t = xs @ tol # ys" "chain h a zs" "distinct zs"
    "set zs \<inter> addrs t = {}" "NULL \<notin> set zs"
  shows "\<exists>h' T. insert_rest a NULL tol h = Some h' \<and> layout h' i T \<and>
    inorder T = xs @ zs @ tol # ys \<and> link_change i ({NULL} \<union> set zs \<union> addrs t) h h'"
  using assms by (rule insert_rest_left)

theorem insert_rest_before_witness:
  "\<exists>h' T. insert_rest 4 NULL 1 ex_store = Some h' \<and> layout h' 1 T \<and> inorder T = [4, 1, 2, 3]"
  using insert_rest_before[OF ex_layout _ ex_chain, of "[]" 1 "[2, 3]"] by auto

text \<open>C23: \<^verbatim>\<open>find_start_extent\<close> returns the first extent, in the order of the file, that ends
  behind the given offset, or the null pointer if there is none.\<close>

theorem find_start_first:
  assumes "layout h i t" "ordered h (inorder t)"
  shows "find_start_extent i p h = Some (first (filter (ends_after h p) (inorder t)) NULL)"
  using assms by (rule find_start_extent_correct)

theorem find_start_first_witness: "find_start_extent 1 12 ex_store = Some 2"
proof -
  have "ordered ex_store (inorder ex_tree)" using ex_laid_out unfolding laid_out_def by blast
  from find_start_first[OF ex_layout this, of 12] show ?thesis
    by (simp add: ends_after_def ex_store_def ex_ext_def)
qed

section \<open>The queue of requests\<close>

text \<open>C24: in every reachable state, whichever requests come to an end, the queue holds the queued requests that no thread has started,
  in the order of their arrival, and every started request is finished or in the hands of a thread:
  no request is lost or served twice.\<close>

theorem queue_keeps_requests:
  "reachable ends s \<Longrightarrow> queued s = started s @ map (entry s) (queue s) \<and>
    mset (started s) = mset (finished s) + mset (in_service s)"
  using reachable_inv[of ends s] by (simp add: wq_inv_def)

theorem queue_keeps_requests_witness:
  "queued ex_q3 = started ex_q3 @ map (entry ex_q3) (queue ex_q3) \<and>
    mset (started ex_q3) = mset (finished ex_q3) + mset (in_service ex_q3) \<and> queued ex_q3 = [(0, 5)]"
  using queue_keeps_requests[OF ex_reach2(3)] by (simp add: ex_q3_def ex_q2_def ex_q1_def init_queue_def)

text \<open>C25: the server refuses a request as busy only if at least \<^verbatim>\<open>WQ_LENGTH - NUM_THREADS\<close>
  requests are waiting in the queue.\<close>

theorem busy_only_when_full:
  "reachable ends s \<Longrightarrow> master s = MAccept \<Longrightarrow> pool s = [] \<Longrightarrow> WQ_LENGTH \<le> length (queue s) + NUM_THREADS"
  using wq_inv_length[OF reachable_inv, of ends s] length_held[of s] by (simp add: places_def)

theorem busy_only_when_full_witness:
  "\<exists>s. reachable always s \<and> pool s = [] \<and> WQ_LENGTH \<le> length (queue s) + NUM_THREADS"
  using ex_fill[of WQ_LENGTH always] busy_only_when_full by auto

text \<open>C26: after the stop command the server comes to rest: the number of its further steps is
  bounded, and a state in which no step is possible is one in which all threads have been joined, or one
  in which some thread is in a request that never ends (a handler that waits for ever, for its client or for
  a lock that has been kept) and every other thread has left or is in such a request too. In particular all
  threads are joined if every request ends.\<close>

theorem shutdown_ends:
  assumes "reachable ends s" "master s = MClosing" "wq_run ends s ts"
  shows "length ts \<le> work_left s \<and>
    ((\<exists>t. wq_step ends (last (s # ts)) t) \<or> master (last (s # ts)) = MJoined \<or>
      (\<exists>i < NUM_THREADS. \<exists>r. workers (last (s # ts)) i = WBusy r \<and> \<not> ends (last (s # ts)) r) \<and>
      (\<forall>i < NUM_THREADS. at_rest ends (last (s # ts)) i))"
proof -
  have "wq_inv s" "master s \<in> {MClosing, MJoined}"
    using reachable_inv[OF assms(1)] assms(2) by auto
  then show ?thesis
    using closing_run_bound[OF _ _ assms(3)] run_last[OF assms(3)] closing_rest[of "last (s # ts)" ends]
    by blast
qed

theorem shutdown_ends_witness:
  "(5 :: nat) \<le> work_left ex_q6 \<and> ((\<exists>t. wq_step always ex_q11 t) \<or> master ex_q11 = MJoined)"
  using shutdown_ends[OF ex_reach6(3) _ ex_run] by (simp add: ex_q6_def)

text \<open>C27: when all threads have been joined, before the backup is written, every request that was
  queued has been finished, once, the queue is empty and all entries are back in the pool.\<close>

theorem joined_all_served:
  "reachable ends s \<Longrightarrow> master s = MJoined \<Longrightarrow>
    queue s = [] \<and> mset (finished s) = mset (queued s) \<and> mset (pool s) = mset [0..<WQ_LENGTH]"
  using joined_empty[OF reachable_inv, of ends s] reachable_inv[of ends s] by (simp add: wq_inv_def places_def)

theorem joined_all_served_witness:
  "queue ex_q11 = [] \<and> mset (finished ex_q11) = mset (queued ex_q11) \<and>
    mset (pool ex_q11) = mset [0..<WQ_LENGTH]"
  by (rule joined_all_served[OF ex_reach11]) (simp add: ex_q11_def)

section \<open>The mapping server\<close>

text \<open>C28: the accept loop of the mapping server, on the bytes of any sequence of requests followed
  by \<^verbatim>\<open>Q\<close>, gives the replies of the abstract map, and its table stands for that map at the
  end, with no number twice.\<close>

theorem mapping_server_refines:
  "\<exists>m. lp_loop (map lp_enc qs @ [[com_Q]]) [] = Some (fst (lp_specs qs Map.empty), m) \<and>
    lp_unique m \<and> lp_lookup m = snd (lp_specs qs Map.empty)"
proof -
  have "lp_unique []" "lp_lookup [] = Map.empty"
    by (auto simp: keys_unique_def lp_lookup_def lp_find_def hash_find_def)
  with lp_loop_specs[of "[]" qs] show ?thesis by simp
qed

text \<open>C29: the file that the mapping server writes when it stops restores the table, entry by entry
  and in the same order; the server deletes each entry once it is written, and is left with none.\<close>

theorem mapping_backup_roundtrip:
  "\<exists>bs. lp_backup m = Some (bs, []) \<and> lp_restore bs [] = Some m"
  using lp_backup_restores[of m "[]"] by simp

text \<open>A backup file that ends after a key without its value is rejected as a whole: the server
  starts with an empty table.\<close>

theorem mapping_truncated_backup:
  "\<exists>bs m'. lp_backup m = Some (bs, m') \<and> lp_restore (bs @ le 8 (k :: ino_t)) [] = Some []"
  using lp_restore_truncated[of m] by (simp add: lp_backup_file)

section \<open>Requests\<close>

text \<open>C30: a request that starts when no lock is held, and that ends, gives back every lock it has
  taken: the lock of the table and both locks of every inode are free again. This holds for every
  command byte but that of \<^verbatim>\<open>READ_INODE_WHOLE\<close>, in all builds.\<close>

theorem request_releases_locks:
  assumes "process com h = Some h'" "idle h" "com_of com \<noteq> Some READ_INODE_WHOLE"
  shows "idle h'"
  using assms by (rule process_idle)

theorem request_releases_locks_witness:
  "\<exists>h'. process 10 (ex_store\<lparr>rx := le 8 (7 :: 64 word)\<rparr>) = Some h' \<and> idle h'"
proof -
  have "com_of 10 \<noteq> Some READ_INODE_WHOLE" by (simp add: com_of_def ins_coms_def)
  with ex_release_drain request_releases_locks[OF _ ex_idle(1)] show ?thesis by blast
qed

text \<open>C31: \<^verbatim>\<open>READ_INODE_WHOLE\<close> with the flag that counts a reference ends with the inode
  still locked for writing: where the unlock should be, the handler locks again.\<close>

theorem read_whole_keeps_lock:
  assumes "cmd_read_whole i h = Some (r, fr, h')" "rd_u8 h = Some (1, k)" "i \<noteq> NULL"
    "lock_of i h = Some LkFree"
  shows "lock_of i h' = Some (LkWr (self h))"
  using assms by (rule read_whole_lock)

theorem read_whole_keeps_lock_witness:
  "\<exists>h'. cmd_read_whole 1 (ex_store\<lparr>rx := 1 # le 8 (5 :: 64 word)\<rparr>) = Some (err IS_UPTODATE, False, h') \<and>
    lock_of 1 h' = Some (LkWr 0)"
proof -
  let ?h = "ex_store\<lparr>rx := 1 # le 8 (5 :: 64 word)\<rparr>"
  have "lock_of 1 ?h = Some LkFree" "self ?h = 0" by (simp_all add: lock_of_def ex_store_def ex_inode_def)
  moreover have "\<exists>h'. cmd_read_whole 1 ?h = Some (err IS_UPTODATE, False, h')"
    by (simp add: cmd_read_whole_def rd_le) (simp add: on_rwlock_def upd_ino_def read_whole_body_def
      is_deleted_def pado_getinode_all_def pado_getinode_meta_def wr_def ex_store_def ex_inode_def)
  ultimately show ?thesis using read_whole_keeps_lock[of 1 ?h _ _ _ "ex_store\<lparr>rx := le 8 (5 :: 64 word)\<rparr>"]
    by (auto simp: rd_le)
qed

text \<open>C32: what a request does when the inode it finds is marked as deleted. The commands that write,
  truncate, clone, remove, delete, count back, read the layout or list the objects answer
  \<^verbatim>\<open>IS_DELETED\<close> and leave the whole store as it was, but for the arguments they have read.
  \<^verbatim>\<open>RELEASE_DRAIN_LOCK\<close> answers the same, but has taken the drain lock off. Every other command (but for
  the two that create, which go by the number and not by the inode) leaves the inode, all other
  inodes, extents and objects as they were, up to the lock on the inode, and does not ask for the inode to be
  freed.\<close>

theorem deleted_inode_refused:
  assumes "dispatch (Some c) t i h = Some (j, res)" "inos h i = Some n" "rwlock n = LkFree"
    "is_deleted n" "i \<noteq> NULL" "c \<notin> {CREATE_INODE, CREATE_OPEN_INODE}"
  shows "if c \<in> {WRITE, TRUNCATE, CLONE_TO, REMOVE_DOBJ, DELETE_INODE, UNREF, READ_LAYOUT, GET_INODE_DOBJ}
      then refused h res
    else if c = RELEASE_DRAIN_LOCK
      then res = (err IS_DELETED, False, h\<lparr>inos := (inos h)(i \<mapsto> unset_dlocked n)\<rparr>)
    else \<not> fst (snd res) \<and> left_alone i n h (snd (snd res))"
  using deleted_dispatch[OF assms] by (simp only: changes_def)

theorem deleted_inode_refused_witness:
  "dispatch (Some UNREF) 7 1 ex_gone = Some (1, err IS_DELETED, False, ex_gone) \<and>
    refused ex_gone (err IS_DELETED, False, ex_gone)"
proof -
  have l: "rwlock (ex_empty\<lparr>flags := DELETED\<rparr>) = LkFree" by (simp add: ex_empty_def ex_inode_def)
  have d: "dispatch (Some UNREF) 7 1 ex_gone = Some (1, err IS_DELETED, False, ex_gone)"
    using guarded_handler'[OF ex_inos(2) l ex_deleted(1)]
    by (simp add: dispatch_def on_inode_def cmd_unref_def)
  from deleted_inode_refused[OF d ex_inos(2) l ex_deleted(1)] d show ?thesis by simp
qed

text \<open>\<^verbatim>\<open>UNREF\<close> on a live inode takes one reference back, never below zero, and
  asks for the inode to be freed, after marking it as deleted, exactly if no reference, no extent
  and no shared base is left; nothing else changes.\<close>

theorem unref_effect:
  assumes "inos h i = Some n" "rwlock n = LkFree" "\<not> is_deleted n" "i \<noteq> NULL" "\<not> with_ms h"
  shows "cmd_unref i h = Some (if refcount n - 1 <s 0 then err INVALID_UNREF else ret_code SUCCESS,
      unref_frees n, h\<lparr>inos := (inos h)(i \<mapsto>
        (if unref_frees n then set_deleted else id) (n\<lparr>refcount := unref_count n\<rparr>))\<rparr>) \<and>
    0 \<le>s unref_count n"
  using cmd_unref_eval[OF assms] unref_count_nonneg by simp

theorem unref_effect_witness:
  "\<exists>h'. cmd_unref 1 ex_store = Some (ret_code SUCCESS, False, h') \<and>
    map_option refcount (inos h' 1) = Some 0"
proof -
  have "rwlock ex_inode = LkFree" "\<not> with_ms ex_store" "\<not> unref_frees ex_inode" "unref_count ex_inode = 0"
    "\<not> refcount ex_inode - 1 <s 0"
    by (simp_all add: ex_inode_def ex_store_def unref_frees_def unref_count_def)
  with unref_effect[OF ex_inos(1), OF _ ex_deleted(2)] show ?thesis by simp
qed

section \<open>The table of inodes\<close>

text \<open>\<^verbatim>\<open>create_inode\<close> on an idle server with memory left returns an inode that the
  table then holds under the number: the one that was there if it was not marked as deleted, with
  \<^verbatim>\<open>ALREADY_CREATED\<close>, else a new empty one. The inode's \<^verbatim>\<open>alive\<close> lock is held
  for reading, the numbers in the table stay unique and all other numbers lead to the same inodes.\<close>

theorem create_inode_enters:
  assumes "table_ok h" "idle h" "0 < avail h"
  shows "\<exists>i r h'. create_inode k s h = Some (i, r, h') \<and> i \<noteq> NULL \<and> table_ok h' \<and>
    find_inode k h' = i \<and> (\<forall>j. j \<noteq> k \<longrightarrow> find_inode j h' = find_inode j h) \<and>
    r = (if present k h then err ALREADY_CREATED else ret_code SUCCESS) \<and>
    inos h' i = (if present k h then map_option (alive_update (\<lambda>_. LkRd 1)) (inos h i)
      else Some ((new_inode k 0 s 0)\<lparr>alive := LkRd 1\<rparr>))"
  using assms by (rule create_inode_correct)

theorem create_inode_enters_witness:
  "\<exists>i h'. create_inode 8 100 ex_store = Some (i, ret_code SUCCESS, h') \<and> find_inode 8 h' = i \<and> i \<noteq> NULL"
proof -
  have "\<not> present 8 ex_store" "0 < avail ex_store"
    by (simp_all add: present_def find_inode_def hash_find_def ino_key_def ex_store_def ex_inode_def)
  with create_inode_enters[OF ex_table(1) ex_idle(2), of 8 100] show ?thesis by auto
qed

text \<open>C33: \<^verbatim>\<open>free_inode\<close> on an inode of the table that is empty and unreferenced ends, and
  takes exactly that inode out of the table.\<close>

theorem free_inode_removes:
  assumes "idle h" "table_ok h" "inos h a = Some n" "a \<in> set (inode_map h)"
    "flayout n = NULL" "num_exts n = 0" "refcount n = 0"
  shows "\<exists>h'. free_inode a h = Some h' \<and> table_ok h' \<and> find_inode (ino n) h' = NULL \<and>
    (\<forall>j. j \<noteq> ino n \<longrightarrow> find_inode j h' = find_inode j h)"
  using assms by (rule free_inode_correct)

theorem free_inode_removes_witness:
  "\<exists>h'. free_inode 1 ex_idle = Some h' \<and> find_inode 7 h' = NULL"
proof -
  have "1 \<in> set (inode_map ex_idle)" "flayout ex_empty = NULL" "num_exts ex_empty = 0" "refcount ex_empty = 0"
    "ino ex_empty = 7" by (simp_all add: ex_idle_def ex_store_def ex_empty_def ex_inode_def)
  with free_inode_removes[OF ex_idle(4) ex_table(3) ex_inos(3)] show ?thesis by auto
qed

text \<open>C34: between the handler that marks an inode as deleted and \<^verbatim>\<open>free_inode\<close> another
  request can create an inode with the same number; \<^verbatim>\<open>free_inode\<close> then deletes an item
  from the table that is not in it.\<close>

theorem free_after_recreate_faults:
  assumes "table_ok h" "idle h" "0 < avail h" "find_inode k h = a" "a \<noteq> NULL" "inos h a = Some n"
    "is_deleted n"
  shows "\<exists>i r h'. create_inode k s h = Some (i, r, h') \<and> free_inode a h' = None"
  using assms by (rule recreate_then_free)

theorem free_after_recreate_faults_witness:
  "\<exists>i r h'. create_inode 7 0 ex_gone = Some (i, r, h') \<and> free_inode 1 h' = None"
proof -
  have "0 < avail ex_gone" by (simp add: ex_gone_def ex_store_def)
  from free_after_recreate_faults[OF ex_table(2) ex_idle(3) this ex_find(2) _ ex_inos(2) ex_deleted(1)]
  show ?thesis by simp
qed

text \<open>C35: \<^verbatim>\<open>CREATE_OPEN_INODE\<close> with a flag above one, on a server in which all files are well formed
  and that has memory, opens the file with the number, or makes an empty file of the given size when there is
  none that is alive: the file is found under its number and has one reference more, its map is as it
  was, the other files and numbers are as they were, and the reply describes the whole file and ends with
  \<^verbatim>\<open>SUCCESS\<close> for a new file and \<^verbatim>\<open>-ALREADY_CREATED\<close> for one that was there.\<close>

theorem create_open_request:
  fixes fl :: u8
  assumes "sane h" "fresh_ok h" "0 < avail h" "1 < fl"
    and "rx h = le 8 k @ le 8 s @ le 1 fl" "com_of com = Some CREATE_OPEN_INODE"
  shows "\<exists>h' i xs n. process com h = Some h' \<and> sane h' \<and> fresh_ok h' \<and> opened k s h i xs n \<and> i \<noteq> NULL \<and>
    find_inode k h' = i \<and> file_ok h' i xs \<and> inos h' i = Some (n\<lparr>refcount := refcount n + 1\<rparr>) \<and>
    (\<forall>p. where_is h' xs p = where_is h xs p) \<and> beside i k h h' \<and>
    tx h' = tx h @ whole_bytes h' xs n @ int_bytes (if present k h then err ALREADY_CREATED else ret_code SUCCESS)"
  using create_open_correct[OF assms] by blast

theorem create_open_request_witness:
  "(\<exists>h'. process 7 (ex_fresh\<lparr>rx := ex_open 7\<rparr>) = Some h' \<and> find_inode 7 h' = 1 \<and> file_ok h' 1 [] \<and>
      drop (length (tx h') - 4) (tx h') = int_bytes (ret_code SUCCESS)) \<and>
    (\<exists>h' n xs. process 7 (ex_files\<lparr>rx := ex_open 7\<rparr>) = Some h' \<and> inos h' 1 = Some n \<and> refcount n = 2 \<and>
      file_ok h' 1 xs \<and> where_is h' xs 28 = where_is ex_files xs 28)"
proof (intro conjI)
  have "sane (ex_fresh\<lparr>rx := ex_open 7\<rparr>)" "fresh_ok (ex_fresh\<lparr>rx := ex_open 7\<rparr>)" "0 < avail (ex_fresh\<lparr>rx := ex_open 7\<rparr>)"
    "\<not> present 7 (ex_fresh\<lparr>rx := ex_open 7\<rparr>)"
    using ex_fresh_sane by (simp_all add: sane_rx fresh_ok_def ex_fresh_def present_def find_inode_def hash_find_def)
  moreover from create_open_request[OF this(1-3), of 2 7 4096 7] ex_coms(6) obtain h' i xs n where
    "process 7 (ex_fresh\<lparr>rx := ex_open 7\<rparr>) = Some h'" "opened 7 4096 (ex_fresh\<lparr>rx := ex_open 7\<rparr>) i xs n" "find_inode 7 h' = i"
    "file_ok h' i xs" "tx h' = tx (ex_fresh\<lparr>rx := ex_open 7\<rparr>) @ whole_bytes h' xs n @
       int_bytes (if present 7 (ex_fresh\<lparr>rx := ex_open 7\<rparr>) then err ALREADY_CREATED else ret_code SUCCESS)"
    by (auto simp: ex_open_def)
  ultimately show "\<exists>h'. process 7 (ex_fresh\<lparr>rx := ex_open 7\<rparr>) = Some h' \<and> find_inode 7 h' = 1 \<and> file_ok h' 1 [] \<and>
      drop (length (tx h') - 4) (tx h') = int_bytes (ret_code SUCCESS)"
    by (auto simp: opened_def ex_fresh_def int_bytes_def)
next
  let ?h = "ex_files\<lparr>rx := ex_open 7\<rparr>"
  have "fresh_ok ?h" "0 < avail ?h" "present 7 ?h" using ex_files_fresh ex_files_find(1)[of "ex_open 7"] ex_files_live(1)
    by (simp_all add: fresh_ok_def present_def)
  moreover from create_open_request[OF ex_files_sane this(1,2), of 2 7 4096 7] ex_coms(6) obtain h' i xs n where
    "process 7 ?h = Some h'" "opened 7 4096 ?h i xs n" "inos h' i = Some (n\<lparr>refcount := refcount n + 1\<rparr>)"
    "file_ok h' i xs" "where_is h' xs 28 = where_is ?h xs 28"
    by (auto simp: ex_open_def)
  ultimately show "\<exists>h' n xs. process 7 ?h = Some h' \<and> inos h' 1 = Some n \<and> refcount n = 2 \<and>
      file_ok h' 1 xs \<and> where_is h' xs 28 = where_is ex_files xs 28"
    using ex_files_find(1)[of "ex_open 7"] ex_files_rx(3) by (auto simp: opened_def ex_inode_def)
qed

section \<open>Backup and restore of the inode server\<close>

text \<open>C36: a backup of a server in which all files are well formed, restored on an empty server with memory, gives
  back every file that has not been deleted, under its number, with the same place for every offset and the same size
  and flags; no other number is in use. The version counts one up for each extent, and the time of a file that
  has extents is the time of the restoration.\<close>

theorem backup_restores:
  assumes "sane h" "\<not> with_ms h" "\<forall>i \<in> set (inode_map h). \<forall>xs. file_ok h i xs \<longrightarrow> length xs < 2 ^ 32"
    and "sane g" "fresh_ok g" "\<not> with_ms g" "inode_map g = []" "\<forall>bs. do_backup h = Some (wr bs h) \<longrightarrow> length bs \<le> avail g"
  shows "\<exists>bs g'. do_backup h = Some (wr bs h) \<and> do_restore (g\<lparr>rx := bs\<rparr>) = Some g' \<and> sane g' \<and>
    (\<forall>k. if present k h then restored h g' k else find_inode k g' = NULL)"
  using backup_then_restore[OF assms(1-7)] assms(8) by blast

theorem backup_restores_witness:
  "\<exists>bs g'. do_backup ex_files = Some (wr bs ex_files) \<and> do_restore (ex_fresh\<lparr>rx := bs\<rparr>) = Some g' \<and> restored ex_files g' 7 \<and>
    find_inode 9 g' = NULL"
proof -
  have s: "sane ex_files" using ex_files_sane[of "rx ex_files"] by simp
  have "length xs < 2 ^ 32" if "file_ok ex_files i xs" for i xs
    using file_length[OF that] by (simp add: ex_files_def ex_store_def)
  then have l: "\<forall>i \<in> set (inode_map ex_files). \<forall>xs. file_ok ex_files i xs \<longrightarrow> length xs < 2 ^ 32" by blast
  have "map_option (\<lambda>h. length (tx h)) (do_backup ex_files) = Some 198" by code_simp
  then have b: "\<forall>bs. do_backup ex_files = Some (wr bs ex_files) \<longrightarrow> length bs \<le> avail ex_fresh"
    by (auto simp: wr_def ex_fresh_def)
  have "\<not> with_ms ex_files" by simp
  from backup_restores[OF s this l ex_fresh_sane b] obtain bs g' where bs: "do_backup ex_files = Some (wr bs ex_files)"
    "do_restore (ex_fresh\<lparr>rx := bs\<rparr>) = Some g'" "\<And>k. if present k ex_files then restored ex_files g' k else find_inode k g' = NULL" by blast
  have "present 7 ex_files" "\<not> present 9 ex_files"
    using ex_files_find[of "rx ex_files"] ex_files_live
    by (simp_all add: present_def) (simp add: find_inode_def hash_find_def ex_files_def ex_inode_def ex_empty_def ino_key_def)
  with bs(3)[of 7] bs(3)[of 9] have "restored ex_files g' 7" "find_inode 9 g' = NULL" by simp_all
  with bs(1,2) show ?thesis by blast
qed

section \<open>The hash table\<close>

text \<open>C37: in a table whose elements have distinct keys, \<^verbatim>\<open>HASH_FIND\<close> returns the element with the
  key, and the null pointer when there is none, as the list model of the table does; \<^verbatim>\<open>HASH_ITER\<close> runs through
  the elements in the order of addition, and \<^verbatim>\<open>HASH_COUNT\<close> counts them.\<close>

theorem uthash_lookup:
  assumes "uh_keyed t xs"
  shows "HASH_FIND k t = Some (case hash_find (key_at t) k xs of None \<Rightarrow> NULL | Some a \<Rightarrow> a) \<and>
    HASH_ITER t = Some xs \<and> HASH_COUNT t = Some (of_nat (length xs))"
  using HASH_FIND_keyed[OF assms] HASH_ITER_correct assms by (simp add: uh_keyed_def)

theorem uthash_lookup_witness:
  "\<exists>t t'. HASH_ADD [7] 1 uh_ex = Some t \<and> HASH_ADD [9] 2 t = Some t' \<and> HASH_FIND [9] t' = Some 2 \<and>
    HASH_FIND [8] t' = Some NULL \<and> HASH_ITER t' = Some [1, 2]"
proof -
  from uh_ex_two obtain t t' where t: "HASH_ADD [7] 1 uh_ex = Some t" "HASH_ADD [9] 2 t = Some t'" "uh_keyed t' [1, 2]"
    "key_at t' = [1 \<mapsto> [7], 2 \<mapsto> [9]]" by blast
  from uthash_lookup[OF t(3), of "[9]"] uthash_lookup[OF t(3), of "[8]"] t show ?thesis by (simp add: hash_find_def)
qed

text \<open>C38: \<^verbatim>\<open>HASH_ADD\<close> of an element whose key \<^verbatim>\<open>HASH_FIND\<close> does not find appends it to the
  table and keeps the table well formed, with the buckets expanded and all elements in the chains of their new buckets
  where that is due; it ends the program only when there is no memory for twice the buckets.\<close>

theorem uthash_add:
  assumes "uh_keyed t xs" "HASH_FIND k t = Some NULL" "a \<notin> set xs" "a \<noteq> NULL" "hhs t a \<noteq> None" "length xs + 1 < 2 ^ 32"
  shows "(\<exists>t'. HASH_ADD k a t = Some t' \<and> uh_keyed t' (hash_add a xs) \<and> key_at t' = (key_at t)(a \<mapsto> k) \<and>
      dom (hhs t') = dom (hhs t) \<and> room t' = room t) \<or>
    HASH_ADD k a t = None \<and> room t < buckets_needed t"
  using assms by (rule HASH_ADD_keyed)

theorem uthash_add_witness:
  "\<exists>t t'. HASH_ADD [7] 1 uh_ex = Some t \<and> HASH_ADD [9] 2 t = Some t' \<and> uh_keyed t' [1, 2]"
proof -
  from uh_ex_two obtain t where t: "HASH_ADD [7] 1 uh_ex = Some t" "uh_keyed t [1]" "HASH_FIND [9] t = Some NULL"
    "hhs t 2 \<noteq> None" "HASH_ADD [9] 2 t \<noteq> None" by auto
  from uthash_add[OF t(2,3) _ _ t(4)] t(1,5) show ?thesis by (auto simp: hash_add_def)
qed

text \<open>C39: \<^verbatim>\<open>HASH_DELETE\<close> of an element of the table takes this element out and keeps the order, the
  keys and the well-formedness of the rest; with the last element it frees the table.\<close>

theorem uthash_delete:
  assumes "uh_keyed t xs" "a \<in> set xs"
  shows "\<exists>t' ys. HASH_DELETE a t = Some t' \<and> hash_delete a xs = Some ys \<and> uh_keyed t' ys \<and> key_at t' = key_at t \<and>
    dom (hhs t') = dom (hhs t) \<and> room t' = room t"
  using assms by (rule HASH_DELETE_keyed)

theorem uthash_delete_witness:
  "\<exists>t t' t''. HASH_ADD [7] 1 uh_ex = Some t \<and> HASH_ADD [9] 2 t = Some t' \<and> HASH_DELETE 1 t' = Some t'' \<and> uh_keyed t'' [2]"
proof -
  from uh_ex_two obtain t t' where t: "HASH_ADD [7] 1 uh_ex = Some t" "HASH_ADD [9] 2 t = Some t'" "uh_keyed t' [1, 2]" by blast
  from uthash_delete[OF t(3), of 1] t show ?thesis by (auto simp: hash_delete_def)
qed

text \<open>C40: \<^verbatim>\<open>HASH_DELETE\<close> of a handle without neighbours drops the whole table, also when the handle has
  left it before: this is what \<^verbatim>\<open>free_inode\<close> does to the table of inodes when an inode that was alone in the
  table has been replaced by a new one with its number.\<close>

theorem stale_delete_drops_table:
  assumes "hhs t a = Some e" "h_prev e = NULL" "h_next e = NULL" "uh_head t \<noteq> NULL"
  shows "\<exists>t'. HASH_DELETE a t = Some t' \<and> HASH_ITER t' = Some []"
  using HASH_DELETE_alone[OF assms] HASH_ITER_correct[of "t\<lparr>uh_head := NULL, tbl := None\<rparr>" "[]"]
  by (simp add: HASH_ITER_def iter_from.simps)

theorem stale_delete_drops_table_witness:
  "\<exists>t t' t'' t3. HASH_ADD [7] 1 uh_ex = Some t \<and> HASH_DELETE 1 t = Some t' \<and> HASH_ADD [7] 2 t' = Some t'' \<and>
    HASH_ITER t'' = Some [2] \<and> HASH_DELETE 1 t'' = Some t3 \<and> HASH_ITER t3 = Some []"
proof -
  from uh_ex_stale obtain t t' t'' e where t: "HASH_ADD [7] 1 uh_ex = Some t" "HASH_DELETE 1 t = Some t'"
    "HASH_ADD [7] 2 t' = Some t''" "uh_keyed t'' [2]" "hhs t'' 1 = Some e" "h_prev e = NULL" "h_next e = NULL" "uh_head t'' \<noteq> NULL"
    by blast
  from HASH_ITER_correct[of t'' "[2]"] t(4) have "HASH_ITER t'' = Some [2]" by (simp add: uh_keyed_def)
  with stale_delete_drops_table[OF t(5-8)] t(1-3) show ?thesis by blast
qed

end
